(* ===== verification/Prelude.thy ===== *)
theory Prelude
  imports Main "HOL-Library.Word" "HOL-Library.Multiset" "HOL-Library.Char_ord"
    "HOL-Library.List_Lexorder" "HOL-Library.Product_Lexorder"
begin

text \<open>
  Shared vocabulary of the development: fixed-width integers, the result type of fallible
  code, the byte encodings the database keys are made of, and the generic lemmas on lists,
  association lists and orders that the component theories rest on.
\<close>

named_theorems res_simps \<open>equations of the result type and its bind\<close>
named_theorems be_simps \<open>equations of the big-endian encodings\<close>

subsection \<open>Integers of the source\<close>

type_synonym u8 = "8 word"
type_synonym u64 = "64 word"
type_synonym i64 = "64 word"  \<comment> \<open>the same bits, read with \<open>sint\<close>\<close>

abbreviation usize_max :: nat where "usize_max \<equiv> 2 ^ 64 - 1"

lemma sint_uint_64: "sint (w :: 64 word) = (if uint w < 2 ^ 63 then uint w else uint w - 2 ^ 64)"
proof -
  have s: "sint w = (uint w + 2 ^ 63) mod 2 ^ 64 - 2 ^ 63"
    by (simp add: sint_uint signed_take_bit_eq_take_bit_shift take_bit_eq_mod)
  have b: "0 \<le> uint w" "uint w < 2 ^ 64" using uint_lt2p [of w] by simp_all
  show ?thesis
  proof (cases "uint w < 2 ^ 63")
    case True
    with s b show ?thesis by simp
  next
    case False
    have "(uint w + 2 ^ 63) mod 2 ^ 64 = (uint w + 2 ^ 63 - 2 ^ 64) mod 2 ^ 64"
      by (metis minus_mod_self2)
    also have "\<dots> = uint w + 2 ^ 63 - 2 ^ 64"
      using False b by (intro mod_pos_pos_trivial) simp_all
    finally show ?thesis using False s by simp
  qed
qed

lemma sint_64_eq_0 [simp]: "sint (w :: 64 word) = 0 \<longleftrightarrow> w = 0"
proof
  assume "sint w = 0"
  then have "uint w = 0" using uint_lt2p [of w] by (simp add: sint_uint_64 split: if_splits)
  then show "w = 0" by (simp add: uint_0_iff)
qed simp

lemma sint_64_word_of_int:
  "- (2 ^ 63) \<le> x \<Longrightarrow> x < 2 ^ 63 \<Longrightarrow> sint (word_of_int x :: 64 word) = x"
  using signed_take_bit_int_eq_self [of 63 x] by (simp add: sint_sbintrunc')

lemma word_less_sint_nonneg:
  "0 \<le> sint v \<Longrightarrow> 0 \<le> sint w \<Longrightarrow> (v :: 64 word) < w \<longleftrightarrow> sint v < sint w"
  using uint_lt2p [of v] uint_lt2p [of w]
  by (simp add: word_less_def sint_uint_64 split: if_splits)

lemma word_less_sint_neg:
  "sint v < 0 \<Longrightarrow> sint w < 0 \<Longrightarrow> (v :: 64 word) < w \<longleftrightarrow> sint v < sint w"
  by (simp add: word_less_def sint_uint_64 split: if_splits)

text \<open>\<open>usize::saturating_add\<close>.\<close>

definition saturating_add_usize :: "nat \<Rightarrow> nat \<Rightarrow> nat" where
  "saturating_add_usize a b = min (a + b) usize_max"

text \<open>\<open>+= 1\<close> on a \<open>usize\<close>, which wraps in a release build.\<close>

definition wrapping_inc_usize :: "nat \<Rightarrow> nat" where
  "wrapping_inc_usize n = (n + 1) mod 2 ^ 64"

text \<open>For evaluation, the bounds are computed on binary integers.\<close>

lemma saturating_add_usize_code [code]:
  "saturating_add_usize a b = nat (min (int a + int b) 18446744073709551615)"
  by (simp add: saturating_add_usize_def min_def nat_add_distrib)

lemma wrapping_inc_usize_code [code]:
  "wrapping_inc_usize n = nat ((int n + 1) mod 18446744073709551616)"
proof -
  have "int ((n + 1) mod 2 ^ 64) = (int n + 1) mod 18446744073709551616"
    by (simp add: zmod_int add.commute)
  then show ?thesis unfolding wrapping_inc_usize_def by (metis nat_int)
qed

subsection \<open>Results\<close>

text \<open>
  \<open>Result<T, E>\<close> is the sum type, the error on the left; \<open>bindR\<close> is the \<open>?\<close> operator.
\<close>

definition bindR :: "'e + 'a \<Rightarrow> ('a \<Rightarrow> 'e + 'b) \<Rightarrow> 'e + 'b" where
  "bindR m f = (case m of Inl e \<Rightarrow> Inl e | Inr x \<Rightarrow> f x)"

definition ok_or :: "'e \<Rightarrow> 'a option \<Rightarrow> 'e + 'a" where
  "ok_or e x = (case x of None \<Rightarrow> Inl e | Some y \<Rightarrow> Inr y)"

lemma bindR_simps [simp, res_simps]:
  "bindR (Inl e) f = Inl e"
  "bindR (Inr x) f = f x"
  by (simp_all add: bindR_def)

lemma ok_or_simps [simp, res_simps]:
  "ok_or e None = Inl e"
  "ok_or e (Some x) = Inr x"
  by (simp_all add: ok_or_def)

lemma bindR_eq_Inr: "bindR m f = Inr y \<longleftrightarrow> (\<exists>x. m = Inr x \<and> f x = Inr y)"
  by (cases m) auto

lemma bindR_eq_Inl: "bindR m f = Inl e \<longleftrightarrow> m = Inl e \<or> (\<exists>x. m = Inr x \<and> f x = Inl e)"
  by (cases m) auto

lemma ok_or_eq_Inr [simp]: "ok_or e x = Inr y \<longleftrightarrow> x = Some y"
  by (cases x) auto

lemma ok_or_eq_Inl [simp]: "ok_or e x = Inl e' \<longleftrightarrow> x = None \<and> e' = e"
  by (cases x) auto

lemma bindR_cong [fundef_cong]:
  "m = m' \<Longrightarrow> (\<And>x. m' = Inr x \<Longrightarrow> f x = f' x) \<Longrightarrow> bindR m f = bindR m' f'"
  by (cases m') auto

text \<open>A \<open>for\<close> loop whose body may leave with an error.\<close>

fun foldR :: "('a \<Rightarrow> 's \<Rightarrow> 'e + 's) \<Rightarrow> 'a list \<Rightarrow> 's \<Rightarrow> 'e + 's" where
  "foldR f [] s = Inr s"
| "foldR f (x # xs) s = bindR (f x s) (foldR f xs)"

lemma foldR_append: "foldR f (xs @ ys) s = bindR (foldR f xs s) (foldR f ys)"
  by (induction xs arbitrary: s) (auto simp: bindR_def split: sum.splits)

text \<open>An invariant of the loop body is an invariant of the loop.\<close>

lemma foldR_invariant:
  assumes "foldR f xs s = Inr t" and "P s"
    and "\<And>x s t. x \<in> set xs \<Longrightarrow> P s \<Longrightarrow> f x s = Inr t \<Longrightarrow> P t"
  shows "P t"
  using assms
proof (induction xs arbitrary: s)
  case Nil
  then show ?case by simp
next
  case (Cons x xs)
  from Cons.prems(1) obtain u where u: "f x s = Inr u" "foldR f xs u = Inr t"
    by (auto simp: bindR_eq_Inr)
  have "P u" using Cons.prems(2,3) u(1) by auto
  then show ?case using Cons.IH u(2) Cons.prems(3) by auto
qed

text \<open>\<open>try_collect\<close>: all the values, or the first error.\<close>

fun mapR :: "('a \<Rightarrow> 'e + 'b) \<Rightarrow> 'a list \<Rightarrow> 'e + 'b list" where
  "mapR f [] = Inr []"
| "mapR f (x # xs) = bindR (f x) (\<lambda>y. bindR (mapR f xs) (\<lambda>ys. Inr (y # ys)))"

lemma mapR_eq_Inr: "mapR f xs = Inr ys \<longleftrightarrow> list_all2 (\<lambda>x y. f x = Inr y) xs ys"
  by (induction xs arbitrary: ys) (auto simp: bindR_eq_Inr list_all2_Cons1)

lemma mapR_eq_Inl: "mapR f xs = Inl e \<Longrightarrow> \<exists>x \<in> set xs. f x = Inl e"
  by (induction xs) (auto simp: bindR_eq_Inl)

subsection \<open>Big-endian bytes\<close>

fun be_digits :: "nat \<Rightarrow> nat \<Rightarrow> nat list" where
  "be_digits 0 x = []"
| "be_digits (Suc n) x = be_digits n (x div 256) @ [x mod 256]"

text \<open>\<open>u64::to_be_bytes\<close> and \<open>u64::from_be_bytes\<close>.\<close>

definition to_be_bytes :: "u64 \<Rightarrow> u8 list" where
  "to_be_bytes w = map word_of_nat (be_digits 8 (unat w))"

definition be_value :: "u8 list \<Rightarrow> nat" where
  "be_value bs = foldl (\<lambda>a b. a * 256 + unat b) 0 bs"

definition from_be_bytes :: "u8 list \<Rightarrow> u64" where
  "from_be_bytes bs = word_of_nat (be_value bs)"

lemma length_be_digits [simp, be_simps]: "length (be_digits n x) = n"
  by (induction n arbitrary: x) auto

lemma be_digits_less: "d \<in> set (be_digits n x) \<Longrightarrow> d < 256"
  by (induction n arbitrary: x) auto

lemma length_to_be_bytes [simp, be_simps]: "length (to_be_bytes w) = 8"
  by (simp add: to_be_bytes_def)

lemma be_value_snoc [simp, be_simps]: "be_value (bs @ [b]) = be_value bs * 256 + unat b"
  by (simp add: be_value_def)

lemma be_value_Nil [simp, be_simps]: "be_value [] = 0"
  by (simp add: be_value_def)

lemma be_value_be_digits: "x < 256 ^ n \<Longrightarrow> be_value (map word_of_nat (be_digits n x)) = x"
proof (induction n arbitrary: x)
  case 0
  then show ?case by simp
next
  case (Suc n)
  have "x div 256 < 256 ^ n" using Suc.prems by (simp add: less_mult_imp_div_less mult.commute)
  from Suc.IH [OF this] show ?case by (simp add: unat_of_nat)
qed

lemma be_value_less: "be_value bs < 256 ^ length bs"
proof (induction bs rule: rev_induct)
  case Nil
  then show ?case by simp
next
  case (snoc b bs)
  have "unat b < 256" using unsigned_less [of b] by simp
  moreover have "be_value bs + 1 \<le> 256 ^ length bs" using snoc by simp
  then have "(be_value bs + 1) * 256 \<le> 256 ^ length bs * 256" by (rule mult_le_mono1)
  ultimately show ?case by simp
qed

lemma be_digits_be_value:
  "length bs = n \<Longrightarrow> map word_of_nat (be_digits n (be_value bs)) = bs"
proof (induction bs arbitrary: n rule: rev_induct)
  case Nil
  then show ?case by simp
next
  case (snoc b bs)
  have "unat b < 256" using unsigned_less [of b] by simp
  then show ?case using snoc.IH [of "length bs"] snoc.prems by auto
qed

lemma be_value_to_be_bytes [simp, be_simps]: "be_value (to_be_bytes w) = unat w"
proof -
  have "unat w < 256 ^ 8" using unsigned_less [of w] by simp
  then show ?thesis unfolding to_be_bytes_def by (rule be_value_be_digits)
qed

lemma from_to_be_bytes [simp, be_simps]: "from_be_bytes (to_be_bytes w) = w"
  by (simp add: from_be_bytes_def)

lemma to_from_be_bytes: "length bs = 8 \<Longrightarrow> to_be_bytes (from_be_bytes bs) = bs"
proof -
  assume l: "length bs = 8"
  then have "be_value bs < 2 ^ 64" using be_value_less [of bs] by simp
  then have "unat (word_of_nat (be_value bs) :: u64) = be_value bs"
    by (simp add: unat_of_nat)
  then show ?thesis by (simp add: from_be_bytes_def to_be_bytes_def be_digits_be_value l)
qed

lemma to_be_bytes_inject [simp, be_simps]: "to_be_bytes v = to_be_bytes w \<longleftrightarrow> v = w"
  by (metis from_to_be_bytes)

text \<open>
  RocksDB compares keys bytewise. On equal lengths the lexicographic order of the bytes is
  the order of the numbers they encode.
\<close>

lemma lex_less_append_same [simp]: "(xs :: 'a::linorder list) @ ys < xs @ zs \<longleftrightarrow> ys < zs"
  by (induction xs) auto

lemma lex_less_append_diff:
  "length xs = length ys \<Longrightarrow> xs \<noteq> ys \<Longrightarrow>
   (xs :: 'a::linorder list) @ us < ys @ vs \<longleftrightarrow> xs < ys"
proof (induction xs ys rule: list_induct2)
  case Nil
  then show ?case by simp
next
  case (Cons x xs y ys)
  then show ?case by (cases "x = y") auto
qed

lemma be_value_less_iff:
  "length as = length bs \<Longrightarrow> be_value as < be_value bs \<longleftrightarrow> as < bs"
proof (induction as arbitrary: bs rule: rev_induct)
  case Nil
  then show ?case by simp
next
  case (snoc a as)
  then obtain b bs' where bs: "bs = bs' @ [b]" and l: "length as = length bs'"
    by (cases bs rule: rev_cases) auto
  have ab: "unat a < 256" "unat b < 256" using unsigned_less [of a] unsigned_less [of b] by simp_all
  show ?case
  proof (cases "as = bs'")
    case True
    then show ?thesis by (simp add: bs word_less_nat_alt)
  next
    case False
    have ne: "be_value as \<noteq> be_value bs'"
      using False l be_digits_be_value [of as "length as"] be_digits_be_value [of bs' "length as"]
      by metis
    have "be_value (as @ [a]) < be_value (bs' @ [b]) \<longleftrightarrow> be_value as < be_value bs'"
    proof
      assume "be_value (as @ [a]) < be_value (bs' @ [b])"
      then have "be_value as * 256 + unat a < be_value bs' * 256 + unat b" by simp
      with ab ne show "be_value as < be_value bs'" by linarith
    next
      assume "be_value as < be_value bs'"
      with ab show "be_value (as @ [a]) < be_value (bs' @ [b])" by simp
    qed
    then show ?thesis by (simp add: bs lex_less_append_diff [OF l False] snoc.IH [OF l])
  qed
qed

lemma to_be_bytes_less_iff: "to_be_bytes v < to_be_bytes w \<longleftrightarrow> v < w"
  using be_value_less_iff [of "to_be_bytes v" "to_be_bytes w"]
  by (simp add: word_less_nat_alt)

subsection \<open>The interface of a database key encoding\<close>

text \<open>
  What the database relies on when values are used as keys: an encoding that can be read
  back on the valid values. A table keyed by the encoding then behaves as a table keyed by
  the values. An \<open>ordered_key_codec\<close> also makes RocksDB's bytewise key order the order of
  the values, which is what the range scans over a timeline use.
\<close>

locale key_codec =
  fixes valid :: "'a \<Rightarrow> bool" and enc :: "'a \<Rightarrow> u8 list" and dec :: "u8 list \<Rightarrow> 'a"
  assumes dec_enc: "valid x \<Longrightarrow> dec (enc x) = x"
begin

lemma enc_inject: "valid x \<Longrightarrow> valid y \<Longrightarrow> enc x = enc y \<longleftrightarrow> x = y"
  by (metis dec_enc)

lemma get_after_insert:
  "valid x \<Longrightarrow> valid y \<Longrightarrow> (db(enc x \<mapsto> v)) (enc y) = (if y = x then Some v else db (enc y))"
  by (simp add: enc_inject)

end

locale ordered_key_codec = key_codec +
  fixes less_val :: "'a \<Rightarrow> 'a \<Rightarrow> bool"
  assumes enc_less: "valid x \<Longrightarrow> valid y \<Longrightarrow> enc x < enc y \<longleftrightarrow> less_val x y"
begin

text \<open>The keys a forward scan starting after \<open>x\<close> visits are the later values, in order.\<close>

lemma scan_after:
  assumes "valid x" and "\<forall>y \<in> set ys. valid y" and "sorted_wrt less_val ys"
  shows "filter (\<lambda>k. enc x < k) (map enc ys) = map enc (filter (less_val x) ys)
    \<and> sorted_wrt (<) (map enc ys)"
proof
  show "filter (\<lambda>k. enc x < k) (map enc ys) = map enc (filter (less_val x) ys)"
    using assms(1,2) by (induction ys) (auto simp: enc_less)
  show "sorted_wrt (<) (map enc ys)"
    using assms(2,3) by (induction ys) (auto simp: enc_less)
qed

end

interpretation u64_key: ordered_key_codec "\<lambda>_. True" to_be_bytes from_be_bytes "(<)"
  by unfold_locales (simp_all add: to_be_bytes_less_iff)

end
