(* ===== verification/Pdu.thy ===== *)
theory Pdu
  imports Prelude
begin

text \<open>
  Events and room versions as state resolution sees them: the struct \<open>Pdu\<close> and its
  \<open>Event\<close> accessors (\<open>src/src/core/matrix/pdu.rs\<close>), the state map keys of
  \<open>src/src/core/matrix/state_res/mod.rs\<close>, and the errors of \<open>state_res/error.rs\<close>.

  An event's content is JSON text that the code decodes with \<open>serde_json::from_str::<T>\<close>
  into structs whose decoders are generated by a derive macro or belong to the Matrix types
  library. The content is therefore an abstract type \<open>'c\<close>, and everything the code asks of
  that library is a field of the record \<open>'c ruma\<close>, an argument of the definitions that use
  it. A decoder returns \<open>None\<close> where \<open>from_str\<close> returns \<open>Err\<close>.
\<close>

subsection \<open>Errors\<close>

text \<open>
  The error of state resolution, with two constructors for what Rust does not return:
  \<open>Panic\<close> for a failed \<open>expect\<close> or \<open>unwrap\<close>, and \<open>OutOfFuel\<close> for a loop cut short by the
  bound its definition carries.
\<close>

datatype state_error =
    SerdeJson
  | Unsupported string
  | NotFound string
  | InvalidPdu string
  | Panic string
  | OutOfFuel

type_synonym 'a result = "state_error + 'a"

subsection \<open>Identifiers and event types\<close>

text \<open>
  \<open>TimelineEventType\<close> and \<open>StateEventType\<close> are both named by the event's type string; the
  constructors are the types state resolution treats specially.
\<close>

datatype event_type =
    RoomCreate | RoomMember | RoomPowerLevels | RoomJoinRules | RoomThirdPartyInvite
  | RoomRedaction | RoomAliases | OtherType string

type_synonym type_state_key = "event_type \<times> string"

definition with_state_key :: "event_type \<Rightarrow> string \<Rightarrow> type_state_key" where
  "with_state_key ty key = (ty, key)"

datatype membership_state =
    Ban | Invite | Join | Knock | Leave | OtherMembership string

text \<open>The allow lists of the restricted rules are never read here.\<close>

datatype join_rule =
    JoinRule_Invite | JoinRule_Knock | JoinRule_KnockRestricted | JoinRule_Restricted
  | JoinRule_Public | JoinRule_Other string

subsection \<open>Room versions\<close>

datatype room_id_format_version = IdFormat_V1 | IdFormat_V2

record authorization_rules =
  special_case_room_redaction :: bool
  special_case_room_aliases :: bool
  integer_power_levels :: bool
  limit_notifications_power_levels :: bool
  knocking :: bool
  knock_restricted_join_rule :: bool
  use_room_create_sender :: bool
  explicitly_privilege_room_creators :: bool

datatype state_resolution_version =
    StateRes_V1
  | StateRes_V2 (consider_conflicted_state_subgraph: bool)

record room_version_rules =
  room_id_format :: room_id_format_version
  state_res :: state_resolution_version
  authorization :: authorization_rules

subsection \<open>The event\<close>

record 'c pdu =
  ev_id :: string
  ev_room_id :: "string option"
  ev_sender :: string
  ev_origin :: "string option"
  ev_ts :: nat
  ev_type :: event_type
  ev_content :: 'c
  ev_state_key :: "string option"
  ev_prev_events :: "string list"
  ev_depth :: nat
  ev_auth_events :: "string list"
  ev_redacts :: "string option"
  ev_unsigned :: "'c option"
  ev_hashes :: string
  ev_signatures :: "'c option"

subsection \<open>Decoded contents\<close>

text \<open>\<open>Raw<T>\<close>: the undecoded text of a field; \<open>None\<close> when \<open>deserialize()\<close> fails.\<close>

type_synonym 't raw = "'t option"

record room_member_content_fields =
  rm_membership :: "membership_state raw option"
  rm_join_authorised_via_users_server :: "string raw option"

record room_create_content_fields =
  rc_room_version :: "unit raw option"
  rc_creator :: "unit option"
  rc_additional_creators :: "string raw list option"
  rc_federate :: bool

text \<open>\<open>RoomPowerLevelsEventContent\<close>; the maps are \<open>BTreeMap\<close>s.\<close>

record power_levels_content =
  pl_ban :: int
  pl_events :: "(event_type \<times> int) list"
  pl_events_default :: int
  pl_invite :: int
  pl_kick :: int
  pl_redact :: int
  pl_state_default :: int
  pl_users :: "(string \<times> int) list"
  pl_users_default :: int
  pl_notifications_room :: int

text \<open>The integer-only form that the room versions with \<open>integer_power_levels\<close> use.\<close>

record int_power_levels_content =
  ipl_ban :: int
  ipl_events :: "(event_type \<times> int) list"
  ipl_events_default :: int
  ipl_invite :: int
  ipl_kick :: int
  ipl_redact :: int
  ipl_state_default :: int
  ipl_users :: "(string \<times> int) list"
  ipl_users_default :: int
  ipl_notifications_room :: int

record power_levels_content_fields =
  plf_users :: "(string \<times> int) list"
  plf_users_default :: int

subsection \<open>What the code asks of the Matrix types library\<close>

text \<open>
  The \<open>de_\<close> fields are \<open>from_str::<T>\<close> for the struct in their name, of which the fields the
  code reads are kept. \<open>new_power_levels\<close> is \<open>RoomPowerLevelsEventContent::new\<close>, and
  \<open>level_in_value p name\<close> is \<open>from_value::<Int>\<close> of the member \<open>name\<close> of \<open>to_value(p)\<close>.
\<close>

record 'c ruma =
  de_GetMembership :: "'c \<Rightarrow> membership_state option"
  de_RoomMemberContentFields :: "'c \<Rightarrow> room_member_content_fields option"
  de_RoomMemberEventContent :: "'c \<Rightarrow> membership_state option"
  de_GetThirdPartyInvite :: "'c \<Rightarrow> unit raw option option"
  de_RoomCreateContentFields :: "'c \<Rightarrow> room_create_content_fields option"
  de_RoomCreateEventContent :: "'c \<Rightarrow> string option option"
  de_RoomJoinRulesEventContent :: "'c \<Rightarrow> join_rule option"
  de_RoomPowerLevelsEventContent :: "'c \<Rightarrow> power_levels_content option"
  de_IntRoomPowerLevelsEventContent :: "'c \<Rightarrow> int_power_levels_content option"
  de_PowerLevelsContentFields :: "'c \<Rightarrow> power_levels_content_fields option"
  de_IntPowerLevelsContentFields :: "'c \<Rightarrow> power_levels_content_fields option"
  de_PowerLevelsContentInvite :: "'c \<Rightarrow> int option"
  de_IntPowerLevelsContentInvite :: "'c \<Rightarrow> int option"
  de_PowerLevelsContentRedact :: "'c \<Rightarrow> int option"
  de_IntPowerLevelsContentRedact :: "'c \<Rightarrow> int option"
  new_power_levels :: "authorization_rules \<Rightarrow> power_levels_content"
  level_in_value :: "power_levels_content \<Rightarrow> string \<Rightarrow> int option"
  user_server_name :: "string \<Rightarrow> string"
  room_server_name :: "string \<Rightarrow> string option"
  event_server_name :: "string \<Rightarrow> string option"
  valid_user_id :: "string \<Rightarrow> bool"
  valid_room_id :: "string \<Rightarrow> bool"
  valid_event_id :: "string \<Rightarrow> bool"

text \<open>\<open>Int::MAX\<close> of the library's 53-bit integers.\<close>

definition Int_MAX :: int where
  "Int_MAX = 2 ^ 53 - 1"

subsection \<open>Accessors\<close>

definition replace_char :: "char \<Rightarrow> char \<Rightarrow> string \<Rightarrow> string" where
  "replace_char a b s = map (\<lambda>c. if c = a then b else c) s"

text \<open>The room of an event; a v12 create event names its room by its own id.\<close>

definition room_id_or_hash :: "'c ruma \<Rightarrow> 'c pdu \<Rightarrow> string result" where
  "room_id_or_hash R ev =
     (if ev_type ev \<noteq> RoomCreate then ok_or (Panic ''Event must have a room ID'') (ev_room_id ev)
      else case ev_room_id ev of
          Some room_id \<Rightarrow> Inr room_id
        | None \<Rightarrow>
            (let constructed_hash = replace_char (CHR ''$'') (CHR ''!'') (ev_id ev)
             in if valid_room_id R constructed_hash then Inr constructed_hash
                else Inl (Panic ''event ID can be parsed'')))"

text \<open>Equality and order of events are those of their ids (\<open>PartialEq\<close>, \<open>Ord for Pdu\<close>).\<close>

definition pdu_eq :: "'c pdu \<Rightarrow> 'c pdu \<Rightarrow> bool" where
  "pdu_eq a b \<longleftrightarrow> ev_id a = ev_id b"

definition pdu_less :: "'c pdu \<Rightarrow> 'c pdu \<Rightarrow> bool" where
  "pdu_less a b \<longleftrightarrow> ev_id a < ev_id b"

definition is_type_and_key :: "'c pdu \<Rightarrow> event_type \<Rightarrow> string \<Rightarrow> bool" where
  "is_type_and_key ev ty key \<longleftrightarrow> ev_type ev = ty \<and> ev_state_key ev = Some key"

end
