(* ===== verification/PowerLevels.thy ===== *)
theory PowerLevels
  imports Pdu
begin

text \<open>
  Reading power levels: \<open>src/src/core/matrix/state_res/power_levels.rs\<close> and the map
  visitors of \<open>serde_backports.rs\<close>. The users of a power level event are read into a
  sorted vector without duplicate keys, in which a user's level is found by binary search.
\<close>

subsection \<open>Choosing the decoder\<close>

definition into_room_power_levels_content ::
  "'c ruma \<Rightarrow> int_power_levels_content \<Rightarrow> authorization_rules \<Rightarrow> power_levels_content" where
  "into_room_power_levels_content R c auth_rules =
     (new_power_levels R auth_rules)
       \<lparr>pl_ban := ipl_ban c, pl_events := ipl_events c, pl_events_default := ipl_events_default c,
        pl_invite := ipl_invite c, pl_kick := ipl_kick c, pl_redact := ipl_redact c,
        pl_state_default := ipl_state_default c, pl_users := ipl_users c,
        pl_users_default := ipl_users_default c,
        pl_notifications_room := ipl_notifications_room c\<rparr>"

definition deserialize_integer_power_levels ::
  "'c ruma \<Rightarrow> 'c \<Rightarrow> authorization_rules \<Rightarrow> power_levels_content option" where
  "deserialize_integer_power_levels R content auth_rules =
     (case de_IntRoomPowerLevelsEventContent R content of
        Some c \<Rightarrow> Some (into_room_power_levels_content R c auth_rules)
      | None \<Rightarrow> None)"

definition deserialize_legacy_power_levels :: "'c ruma \<Rightarrow> 'c \<Rightarrow> power_levels_content option" where
  "deserialize_legacy_power_levels R content = de_RoomPowerLevelsEventContent R content"

definition deserialize_power_levels ::
  "'c ruma \<Rightarrow> 'c \<Rightarrow> room_version_rules \<Rightarrow> power_levels_content option" where
  "deserialize_power_levels R content room_version =
     (if integer_power_levels (authorization room_version)
      then deserialize_integer_power_levels R content (authorization room_version)
      else deserialize_legacy_power_levels R content)"

definition deserialize_power_levels_content_fields ::
  "'c ruma \<Rightarrow> 'c \<Rightarrow> room_version_rules \<Rightarrow> power_levels_content_fields result" where
  "deserialize_power_levels_content_fields R content room_version =
     ok_or SerdeJson
       (if integer_power_levels (authorization room_version)
        then de_IntPowerLevelsContentFields R content
        else de_PowerLevelsContentFields R content)"

definition deserialize_power_levels_content_invite ::
  "'c ruma \<Rightarrow> 'c \<Rightarrow> room_version_rules \<Rightarrow> int result" where
  "deserialize_power_levels_content_invite R content room_version =
     ok_or SerdeJson
       (if integer_power_levels (authorization room_version)
        then de_IntPowerLevelsContentInvite R content
        else de_PowerLevelsContentInvite R content)"

definition deserialize_power_levels_content_redact ::
  "'c ruma \<Rightarrow> 'c \<Rightarrow> room_version_rules \<Rightarrow> int result" where
  "deserialize_power_levels_content_redact R content room_version =
     ok_or SerdeJson
       (if integer_power_levels (authorization room_version)
        then de_IntPowerLevelsContentRedact R content
        else de_PowerLevelsContentRedact R content)"

subsection \<open>The map visitors\<close>

text \<open>
  \<open>visit_map\<close> pulls entries until the map ends, fails on the first entry that does not
  decode, then sorts the pairs and keeps the first of each run of equal keys.
\<close>

fun next_entries :: "('k \<times> int) option list \<Rightarrow> ('k \<times> int) list option" where
  "next_entries [] = Some []"
| "next_entries (None # _) = None"
| "next_entries (Some e # es) = map_option (Cons e) (next_entries es)"

fun dedup_by_key :: "('k \<times> 'v) list \<Rightarrow> ('k \<times> 'v) list" where
  "dedup_by_key [] = []"
| "dedup_by_key [a] = [a]"
| "dedup_by_key (a # b # xs) =
     (if fst a = fst b then dedup_by_key (a # xs) else a # dedup_by_key (b # xs))"

definition vec_deserialize_powerlevel_values ::
  "('k :: linorder \<times> int) option list \<Rightarrow> ('k \<times> int) list option" where
  "vec_deserialize_powerlevel_values entries =
     (case next_entries entries of None \<Rightarrow> None | Some res \<Rightarrow> Some (dedup_by_key (sort res)))"

subsection \<open>Finding a user's level\<close>

text \<open>\<open>slice::binary_search_by\<close> on the half-open range \<open>[lo, hi)\<close>.\<close>

function binary_search :: "('k :: linorder \<times> 'v) list \<Rightarrow> 'k \<Rightarrow> nat \<Rightarrow> nat \<Rightarrow> nat option" where
  "binary_search xs k lo hi =
     (if lo < hi then
        (let mid = lo + (hi - lo) div 2; item = fst (xs ! mid)
         in if item = k then Some mid
            else if item < k then binary_search xs k (Suc mid) hi
            else binary_search xs k lo mid)
      else None)"
  by pat_completeness auto
termination
  by (relation "measure (\<lambda>(xs, k, lo, hi). hi - lo)") auto

declare binary_search.simps [simp del]

definition get_user_power :: "power_levels_content_fields \<Rightarrow> string \<Rightarrow> int option" where
  "get_user_power f user_id =
     (case binary_search (plf_users f) user_id 0 (length (plf_users f)) of
        None \<Rightarrow> None
      | Some idx \<Rightarrow>
          (if idx < length (plf_users f) then Some (snd (plf_users f ! idx)) else None))"

subsection \<open>Correctness of the lookup\<close>

abbreviation strict_keys :: "('k :: linorder \<times> 'v) list \<Rightarrow> bool" where
  "strict_keys xs \<equiv> sorted_wrt (<) (map fst xs)"

lemma next_entries_Some: "next_entries entries = Some es \<longleftrightarrow> entries = map Some es"
  by (induction entries arbitrary: es rule: next_entries.induct) auto

lemma dedup_by_key_Cons_ne: "dedup_by_key (a # xs) \<noteq> []"
  by (induction "a # xs" arbitrary: a xs rule: dedup_by_key.induct) auto

lemma fst_hd_dedup_by_key: "fst (hd (dedup_by_key (a # xs))) = fst a"
  by (induction "a # xs" arbitrary: a xs rule: dedup_by_key.induct) auto

lemma keys_dedup_by_key: "fst ` set (dedup_by_key xs) = fst ` set xs"
  by (induction xs rule: dedup_by_key.induct) auto

lemma strict_keys_dedup_by_key: "sorted (map fst xs) \<Longrightarrow> strict_keys (dedup_by_key xs)"
proof (induction xs rule: dedup_by_key.induct)
  case (3 a b xs)
  have "\<forall>k \<in> fst ` set (dedup_by_key (b # xs)). fst b \<le> k"
    using "3.prems" by (auto simp: keys_dedup_by_key)
  moreover have "fst a \<le> fst b" using "3.prems" by simp
  ultimately show ?case
    using 3 by (auto simp: order.strict_trans1 order_less_le)
qed simp_all

lemma map_of_dedup_by_key: "sorted (map fst xs) \<Longrightarrow> map_of (dedup_by_key xs) = map_of xs"
  by (induction xs rule: dedup_by_key.induct) auto

lemma strict_keys_nth_less:
  "strict_keys xs \<Longrightarrow> i < j \<Longrightarrow> j < length xs \<Longrightarrow> fst (xs ! i) < fst (xs ! j)"
  using sorted_wrt_nth_less [of "(<)" "map fst xs" i j] by simp

lemma strict_keys_distinct: "strict_keys xs \<Longrightarrow> distinct (map fst xs)"
  by (simp add: strict_sorted_iff)

lemma binary_search_Some:
  "binary_search xs k lo hi = Some i \<Longrightarrow> lo \<le> i \<and> i < hi \<and> fst (xs ! i) = k"
proof (induction xs k lo hi rule: binary_search.induct)
  case (1 xs k lo hi)
  let ?mid = "lo + (hi - lo) div 2"
  have lohi: "lo < hi" using "1.prems" by (simp add: binary_search.simps split: if_splits)
  then have mid: "lo \<le> ?mid" "?mid < hi" by auto
  consider (eq) "fst (xs ! ?mid) = k" | (less) "fst (xs ! ?mid) < k" | (gr) "k < fst (xs ! ?mid)"
    by (rule linorder_cases)
  then show ?case
  proof cases
    case eq
    then show ?thesis
      using "1.prems" lohi mid by (simp add: binary_search.simps [of xs k lo hi] Let_def)
  next
    case less
    then have "binary_search xs k (Suc ?mid) hi = Some i"
      using "1.prems" lohi by (simp add: binary_search.simps [of xs k lo hi] less_imp_neq Let_def
          split: if_splits)
    with "1.IH"(1) [OF lohi refl refl] less have "Suc ?mid \<le> i \<and> i < hi \<and> fst (xs ! i) = k"
      by (simp add: less_imp_neq)
    then show ?thesis using mid by simp
  next
    case gr
    then have "binary_search xs k lo ?mid = Some i"
      using "1.prems" lohi by (simp add: binary_search.simps [of xs k lo hi] less_imp_neq Let_def
          split: if_splits)
    with "1.IH"(2) [OF lohi refl refl] gr have "lo \<le> i \<and> i < ?mid \<and> fst (xs ! i) = k"
      by (simp add: less_imp_neq [symmetric])
    then show ?thesis using mid by simp
  qed
qed

lemma binary_search_None:
  assumes "strict_keys xs" and "hi \<le> length xs" and "binary_search xs k lo hi = None"
    and "lo \<le> i" and "i < hi"
  shows "fst (xs ! i) \<noteq> k"
  using assms
proof (induction xs k lo hi rule: binary_search.induct)
  case (1 xs k lo hi)
  let ?mid = "lo + (hi - lo) div 2"
  have lohi: "lo < hi" and mid: "?mid < hi" using "1.prems" by auto
  consider (less) "i < ?mid" | (eq) "i = ?mid" | (greater) "?mid < i" by linarith
  then show ?case
  proof cases
    case less
    then have "fst (xs ! i) < fst (xs ! ?mid)"
      using "1.prems" mid by (intro strict_keys_nth_less) auto
    then show ?thesis
      using "1.prems" "1.IH" [OF lohi refl refl] less mid lohi
      by (auto simp: binary_search.simps [of xs k lo hi] Let_def split: if_splits)
  next
    case eq
    then show ?thesis
      using "1.prems" lohi by (auto simp: binary_search.simps [of xs k lo hi] Let_def)
  next
    case greater
    then have "fst (xs ! ?mid) < fst (xs ! i)"
      using "1.prems" by (intro strict_keys_nth_less) auto
    then show ?thesis
      using "1.prems" "1.IH" [OF lohi refl refl] greater lohi
      by (auto simp: binary_search.simps [of xs k lo hi] Let_def split: if_splits)
  qed
qed

lemma map_of_eq_nth: "distinct (map fst xs) \<Longrightarrow> i < length xs \<Longrightarrow> map_of xs (fst (xs ! i)) = Some (snd (xs ! i))"
  by (simp add: map_of_eq_Some_iff)

lemma get_user_power_map_of:
  assumes "strict_keys (plf_users f)"
  shows "get_user_power f u = map_of (plf_users f) u"
proof (cases "binary_search (plf_users f) u 0 (length (plf_users f))")
  case None
  have "fst p \<noteq> u" if "p \<in> set (plf_users f)" for p
    using binary_search_None [OF assms order_refl None] that by (auto simp: in_set_conv_nth)
  then have "u \<notin> fst ` set (plf_users f)" by auto
  then have "map_of (plf_users f) u = None" by (simp add: map_of_eq_None_iff)
  then show ?thesis by (simp add: get_user_power_def None)
next
  case (Some i)
  from binary_search_Some [OF this] show ?thesis
    using map_of_eq_nth [OF strict_keys_distinct [OF assms]] by (auto simp: get_user_power_def Some)
qed

lemma map_of_sorted_least:
  "sorted xs \<Longrightarrow> map_of xs k = Some (v :: int) \<longleftrightarrow> (k, v) \<in> set xs \<and> (\<forall>w. (k, w) \<in> set xs \<longrightarrow> v \<le> w)"
proof (induction xs)
  case Nil
  then show ?case by simp
next
  case (Cons a xs)
  obtain ka va where a: "a = (ka, va)" by (cases a)
  have le: "(ka, va) \<le> p" if "p \<in> set xs" for p using Cons.prems that by (simp add: a)
  show ?case
  proof (cases "ka = k")
    case True
    have "va \<le> w" if "(k, w) \<in> set xs" for w
      using le [OF that] True by (simp add: less_eq_prod_def)
    then show ?thesis by (auto simp: a True intro: order_antisym)
  next
    case False
    then show ?thesis using Cons by (auto simp: a)
  qed
qed

lemma sorted_fst: "sorted (xs :: ('k::linorder \<times> int) list) \<Longrightarrow> sorted (map fst xs)"
  by (induction xs) (auto simp: less_eq_prod_def)

lemma vec_deserialize_strict:
  "vec_deserialize_powerlevel_values entries = Some users \<Longrightarrow> strict_keys users"
  by (auto simp: vec_deserialize_powerlevel_values_def sorted_fst
      intro: strict_keys_dedup_by_key split: option.splits)

subsection \<open>Properties\<close>

text \<open>The binary search over the decoded users is a map lookup: it finds a user's level
  exactly when the event's JSON map has an entry for the user, and of several entries for
  one user it returns the lowest level.\<close>

lemma get_user_power_correct:
  assumes "vec_deserialize_powerlevel_values entries = Some (plf_users f)"
  shows "get_user_power f u = Some v \<longleftrightarrow>
    Some (u, v) \<in> set entries \<and> (\<forall>w. Some (u, w) \<in> set entries \<longrightarrow> v \<le> w)"
proof -
  obtain es where es: "entries = map Some es" and users: "plf_users f = dedup_by_key (sort es)"
    using assms
    by (auto simp: vec_deserialize_powerlevel_values_def next_entries_Some split: option.splits)
  have "get_user_power f u = map_of (sort es) u"
    using get_user_power_map_of [OF vec_deserialize_strict [OF assms]]
    by (simp add: users map_of_dedup_by_key sorted_fst)
  then show ?thesis by (auto simp: map_of_sorted_least es)
qed

end
