(* ===== verification/EventAuth.thy ===== *)
theory EventAuth
  imports PowerLevels "HOL-Library.Option_ord"
begin

text \<open>
  The authorization rules: \<open>src/src/core/matrix/state_res/event_auth.rs\<close>. \<open>auth_check\<close>
  decides whether an event is allowed by a room state, \<open>valid_membership_change\<close> whether a
  membership event is, and \<open>check_power_levels\<close> whether a sender may change the room's power
  levels. Logging is left out. \<open>Option\<close>s are compared with \<open>None\<close> lowest, as in Rust.
\<close>

subsection \<open>Which state an event is authorized by\<close>

definition push_new :: "'a list \<Rightarrow> 'a \<Rightarrow> 'a list" where
  "push_new xs x = (if x \<in> set xs then xs else xs @ [x])"

definition auth_types_for_event ::
  "'c ruma \<Rightarrow> event_type \<Rightarrow> string \<Rightarrow> string option \<Rightarrow> 'c \<Rightarrow> room_version_rules
   \<Rightarrow> type_state_key list result" where
  "auth_types_for_event R kind sender state_key content room_version =
     (if kind = RoomCreate then Inr []
      else
        (let auth_types =
           (if room_id_format room_version = IdFormat_V2
            then [(RoomPowerLevels, ''''), (RoomMember, sender)]
            else [(RoomPowerLevels, ''''), (RoomMember, sender), (RoomCreate, '''')])
         in if kind = RoomMember then
              (case state_key of
                 None \<Rightarrow> Inr auth_types
               | Some key \<Rightarrow>
                   bindR (ok_or SerdeJson (de_RoomMemberContentFields R content)) (\<lambda>fields.
                     (case rm_membership fields of
                        Some (Some membership) \<Rightarrow>
                          (let auth_types =
                             (if membership = Join \<or> membership = Invite \<or> membership = Knock then
                                (let auth_types = push_new auth_types (RoomJoinRules, '''')
                                 in case rm_join_authorised_via_users_server fields of
                                      Some (Some u) \<Rightarrow> push_new auth_types (RoomMember, u)
                                    | _ \<Rightarrow> auth_types)
                              else auth_types)
                           in Inr (push_new auth_types (RoomMember, key)))
                      | _ \<Rightarrow> Inr auth_types)))
            else Inr auth_types))"

subsection \<open>Membership events\<close>

definition is_creator ::
  "'c ruma \<Rightarrow> room_version_rules \<Rightarrow> string list \<Rightarrow> 'c pdu \<Rightarrow> string \<Rightarrow> bool \<Rightarrow> bool result" where
  "is_creator R v c ce user_id have_pls =
     (if explicitly_privilege_room_creators (authorization v) then Inr (user_id \<in> set c)
      else if use_room_create_sender (authorization v) \<and> \<not> have_pls
        then Inr (ev_sender ce = user_id)
      else if \<not> have_pls then
        (case de_RoomCreateEventContent R (ev_content ce) of
           None \<Rightarrow> Inl (Panic ''unwrap on Err'')
         | Some None \<Rightarrow> Inl (Panic ''missing field creator'')
         | Some (Some creator) \<Rightarrow> Inr (creator = user_id))
      else Inr False)"

text \<open>\<open>third_party_invite\<close> is not verified: the body is a constant.\<close>

definition verify_third_party_invite ::
  "string option \<Rightarrow> string \<Rightarrow> unit \<Rightarrow> 'c pdu option \<Rightarrow> bool" where
  "verify_third_party_invite target_user sender tp_id current_third_party_invite = True"

definition membership_or_leave :: "'c ruma \<Rightarrow> 'c pdu option \<Rightarrow> membership_state result" where
  "membership_or_leave R ev =
     (case ev of
        Some p \<Rightarrow> ok_or SerdeJson (de_GetMembership R (ev_content p))
      | None \<Rightarrow> Inr Leave)"

text \<open>The arm \<open>MembershipState::Join\<close>.\<close>

definition check_join ::
  "room_version_rules \<Rightarrow> string \<Rightarrow> string \<Rightarrow> 'c pdu \<Rightarrow> 'c pdu \<Rightarrow> membership_state \<Rightarrow> join_rule
   \<Rightarrow> bool \<Rightarrow> bool \<Rightarrow> bool \<Rightarrow> bool" where
  "check_join room_version target_user sender current_event create_room
     target_user_current_membership join_rules user_for_join_auth_is_valid
     sender_creator target_creator =
     (let prev_event_is_create_event =
            (case ev_prev_events current_event of [] \<Rightarrow> False | e # _ \<Rightarrow> e = ev_id create_room);
          no_more_prev_events = (tl (ev_prev_events current_event) = []);
          membership_allows_join =
            (target_user_current_membership = Join \<or> target_user_current_membership = Invite)
      in if prev_event_is_create_event \<and> no_more_prev_events \<and> sender_creator \<and> target_creator
           then True
         else if sender \<noteq> target_user then False
         else if target_user_current_membership = Ban then False
         else (case join_rules of
             JoinRule_Invite \<Rightarrow> membership_allows_join
           | JoinRule_Knock \<Rightarrow>
               knocking (authorization room_version) \<and> membership_allows_join
           | JoinRule_KnockRestricted \<Rightarrow>
               knock_restricted_join_rule (authorization room_version)
               \<and> (membership_allows_join \<or> user_for_join_auth_is_valid)
           | JoinRule_Restricted \<Rightarrow> membership_allows_join \<or> user_for_join_auth_is_valid
           | JoinRule_Public \<Rightarrow> True
           | JoinRule_Other _ \<Rightarrow> False))"

text \<open>The arm \<open>MembershipState::Invite\<close>.\<close>

definition check_invite ::
  "unit raw option \<Rightarrow> membership_state \<Rightarrow> string \<Rightarrow> string \<Rightarrow> 'c pdu option \<Rightarrow> bool \<Rightarrow> bool
   \<Rightarrow> int option \<Rightarrow> power_levels_content \<Rightarrow> bool" where
  "check_invite third_party_invite target_user_current_membership target_user sender
     current_third_party_invite sender_is_joined sender_creator sender_power power_levels =
     (case third_party_invite of
        Some (Some tp_id) \<Rightarrow>
          (if target_user_current_membership = Ban then False
           else verify_third_party_invite (Some target_user) sender tp_id current_third_party_invite)
      | _ \<Rightarrow>
          (if \<not> sender_is_joined then False
           else if target_user_current_membership = Join \<or> target_user_current_membership = Ban
             then False
           else sender_creator
             \<or> (case sender_power of None \<Rightarrow> False | Some p \<Rightarrow> pl_invite power_levels \<le> p)))"

text \<open>The arm \<open>MembershipState::Leave\<close>: leaving, kicking and unbanning.\<close>

definition check_leave ::
  "string \<Rightarrow> string \<Rightarrow> membership_state \<Rightarrow> bool \<Rightarrow> bool \<Rightarrow> int option \<Rightarrow> int option
   \<Rightarrow> power_levels_content \<Rightarrow> bool" where
  "check_leave sender target_user target_user_current_membership sender_is_joined sender_creator
     sender_power target_power power_levels =
     (let can_unban =
            (if target_user_current_membership = Ban then
               sender_creator
               \<or> (case sender_power of None \<Rightarrow> False | Some p \<Rightarrow> pl_ban power_levels \<le> p)
             else True);
          can_kick =
            (if \<not> (target_user_current_membership = Ban \<or> target_user_current_membership = Leave)
             then
               (if sender_creator then True
                else if (case sender_power of None \<Rightarrow> True | Some p \<Rightarrow> p < pl_kick power_levels)
                  then False
                else (case sender_power of
                    Some sp \<Rightarrow> (case target_power of Some tp \<Rightarrow> tp < sp | None \<Rightarrow> True)
                  | None \<Rightarrow> False))
             else True)
      in if sender = target_user then
           target_user_current_membership = Join \<or> target_user_current_membership = Invite
           \<or> target_user_current_membership = Knock
         else if \<not> sender_is_joined then False
         else if \<not> (can_unban \<and> can_kick) then False
         else if \<not> can_kick then False
         else True)"

text \<open>The arm \<open>MembershipState::Ban\<close>.\<close>

definition check_ban ::
  "bool \<Rightarrow> bool \<Rightarrow> int option \<Rightarrow> int option \<Rightarrow> power_levels_content \<Rightarrow> bool" where
  "check_ban sender_is_joined sender_creator sender_power target_power power_levels =
     (if \<not> sender_is_joined then False
      else sender_creator
        \<or> (case sender_power of None \<Rightarrow> False | Some p \<Rightarrow> pl_ban power_levels \<le> p)
          \<and> target_power < sender_power)"

text \<open>The arm \<open>MembershipState::Knock\<close> of the room versions that know knocking.\<close>

definition check_knock ::
  "room_version_rules \<Rightarrow> join_rule \<Rightarrow> string \<Rightarrow> string \<Rightarrow> membership_state \<Rightarrow> bool" where
  "check_knock room_version join_rules sender target_user sender_membership =
     (if \<not> (join_rules = JoinRule_KnockRestricted \<or> join_rules = JoinRule_Knock) then False
      else if join_rules = JoinRule_KnockRestricted
        \<and> \<not> knock_restricted_join_rule (authorization room_version) then False
      else if sender \<noteq> target_user then False
      else if sender_membership = Ban \<or> sender_membership = Invite \<or> sender_membership = Join
        then False
      else True)"

text \<open>May \<open>user_for_join_auth\<close> vouch for a restricted join?\<close>

definition user_for_join_auth_valid ::
  "'c ruma \<Rightarrow> room_version_rules \<Rightarrow> 'c pdu option \<Rightarrow> string option \<Rightarrow> membership_state
   \<Rightarrow> string list \<Rightarrow> 'c pdu \<Rightarrow> bool result" where
  "user_for_join_auth_valid R room_version power_levels_event user_for_join_auth
     user_for_join_auth_membership creators create_room =
     (case user_for_join_auth of
        Some auth_user \<Rightarrow>
          bindR (case power_levels_event of
              Some pl \<Rightarrow>
                bindR (deserialize_power_levels_content_invite R (ev_content pl) room_version)
                  (\<lambda>invite.
                bindR (deserialize_power_levels_content_fields R (ev_content pl) room_version)
                  (\<lambda>content.
                Inr (case get_user_power content auth_user of
                       Some level \<Rightarrow> level
                     | None \<Rightarrow> plf_users_default content, invite)))
            | None \<Rightarrow> Inr (0, 0)) (\<lambda>(auth_user_pl, invite_level).
          (let user_joined = (user_for_join_auth_membership = Join)
           in bindR (is_creator R room_version creators create_room auth_user
                       (power_levels_event \<noteq> None)) (\<lambda>creator.
              (let okay_power = (creator \<or> invite_level \<le> auth_user_pl)
               in Inr (user_joined \<and> okay_power)))))
      | None \<Rightarrow> Inr False)"

text \<open>\<open>users.get(user).or_else(|| present.then_some(users_default))\<close>.\<close>

definition power_or_default :: "power_levels_content \<Rightarrow> string \<Rightarrow> bool \<Rightarrow> int option" where
  "power_or_default power_levels user present =
     (case map_of (pl_users power_levels) user of
        Some p \<Rightarrow> Some p
      | None \<Rightarrow> (if present then Some (pl_users_default power_levels) else None))"

definition valid_membership_change ::
  "'c ruma \<Rightarrow> room_version_rules \<Rightarrow> string \<Rightarrow> 'c pdu option \<Rightarrow> string \<Rightarrow> 'c pdu option \<Rightarrow> 'c pdu
   \<Rightarrow> 'c pdu option \<Rightarrow> 'c pdu option \<Rightarrow> 'c pdu option \<Rightarrow> string option \<Rightarrow> membership_state
   \<Rightarrow> 'c pdu \<Rightarrow> bool result" where
  "valid_membership_change R room_version target_user target_user_membership_event sender
     sender_membership_event current_event current_third_party_invite power_levels_event
     join_rules_event user_for_join_auth user_for_join_auth_membership create_room =
     bindR (ok_or SerdeJson (de_RoomCreateContentFields R (ev_content create_room)))
       (\<lambda>create_content.
     bindR (ok_or SerdeJson (de_GetMembership R (ev_content current_event))) (\<lambda>target_membership.
     bindR (ok_or SerdeJson (de_GetThirdPartyInvite R (ev_content current_event)))
       (\<lambda>third_party_invite.
     bindR (membership_or_leave R sender_membership_event) (\<lambda>sender_membership.
     bindR (membership_or_leave R target_user_membership_event)
       (\<lambda>target_user_current_membership.
     bindR (case power_levels_event of
          Some ev \<Rightarrow> ok_or SerdeJson (de_RoomPowerLevelsEventContent R (ev_content ev))
        | None \<Rightarrow> Inr (new_power_levels R (authorization room_version))) (\<lambda>power_levels.
     (let sender_is_joined = (sender_membership = Join);
          sender_power0 = power_or_default power_levels sender sender_is_joined;
          target_power0 = power_or_default power_levels target_user (target_membership = Join);
          privileged = explicitly_privilege_room_creators (authorization room_version);
          creators = ev_sender create_room #
            (if privileged then
               (case rc_additional_creators create_content of
                  None \<Rightarrow> []
                | Some cs \<Rightarrow> List.map_filter id cs)
             else []);
          sender_power =
            (if privileged \<and> sender \<in> set creators then Some Int_MAX else sender_power0);
          target_power =
            (if privileged \<and> target_user \<in> set creators then Some Int_MAX else target_power0)
      in
     bindR (case join_rules_event of
          Some jr \<Rightarrow> ok_or SerdeJson (de_RoomJoinRulesEventContent R (ev_content jr))
        | None \<Rightarrow> Inr JoinRule_Invite) (\<lambda>join_rules.
     bindR (user_for_join_auth_valid R room_version power_levels_event user_for_join_auth
              user_for_join_auth_membership creators create_room)
       (\<lambda>user_for_join_auth_is_valid.
     bindR (is_creator R room_version creators create_room sender (power_levels_event \<noteq> None))
       (\<lambda>sender_creator.
     bindR (is_creator R room_version creators create_room target_user
              (power_levels_event \<noteq> None)) (\<lambda>target_creator.
     Inr (case target_membership of
         Join \<Rightarrow> check_join room_version target_user sender current_event create_room
             target_user_current_membership join_rules user_for_join_auth_is_valid
             sender_creator target_creator
       | Invite \<Rightarrow> check_invite third_party_invite target_user_current_membership target_user
             sender current_third_party_invite sender_is_joined sender_creator sender_power
             power_levels
       | Leave \<Rightarrow> check_leave sender target_user target_user_current_membership
             sender_is_joined sender_creator sender_power target_power power_levels
       | Ban \<Rightarrow> check_ban sender_is_joined sender_creator sender_power target_power power_levels
       | Knock \<Rightarrow>
           (if knocking (authorization room_version)
            then check_knock room_version join_rules sender target_user sender_membership
            else False)
       | OtherMembership _ \<Rightarrow> False))))))))))))"

subsection \<open>Sending events\<close>

definition get_send_level :: "'c ruma \<Rightarrow> event_type \<Rightarrow> string option \<Rightarrow> 'c pdu option \<Rightarrow> int" where
  "get_send_level R e_type state_key power_lvl =
     (case (case power_lvl of
              None \<Rightarrow> None
            | Some ple \<Rightarrow> de_RoomPowerLevelsEventContent R (ev_content ple)) of
        Some content \<Rightarrow>
          (case map_of (pl_events content) e_type of
             Some level \<Rightarrow> level
           | None \<Rightarrow>
               (if state_key \<noteq> None then pl_state_default content else pl_events_default content))
      | None \<Rightarrow> (if state_key \<noteq> None then 50 else 0))"

definition can_send_event :: "'c ruma \<Rightarrow> 'c pdu \<Rightarrow> 'c pdu option \<Rightarrow> int \<Rightarrow> bool" where
  "can_send_event R event ple user_level =
     (if user_level < get_send_level R (ev_type event) (ev_state_key event) ple then False
      else if (case ev_state_key event of None \<Rightarrow> False | Some k \<Rightarrow> take 1 k = ''@'')
        \<and> ev_state_key event \<noteq> Some (ev_sender event) then False
      else True)"

definition check_redaction ::
  "'c ruma \<Rightarrow> room_version_rules \<Rightarrow> 'c pdu \<Rightarrow> int \<Rightarrow> int \<Rightarrow> bool result" where
  "check_redaction R room_version redaction_event user_level redact_level =
     (if redact_level \<le> user_level then Inr True
      else if event_server_name R (ev_id redaction_event)
          = Option.bind (ev_redacts redaction_event) (event_server_name R) then Inr True
      else Inr False)"

subsection \<open>Changing power levels\<close>

definition get_deserialize_levels ::
  "'c ruma \<Rightarrow> power_levels_content \<Rightarrow> power_levels_content \<Rightarrow> string \<Rightarrow> (int \<times> int) option" where
  "get_deserialize_levels R old new name =
     Option.bind (level_in_value R old name) (\<lambda>o'.
       Option.bind (level_in_value R new name) (\<lambda>n'. Some (o', n')))"

text \<open>The body of the loop over users; \<open>False\<close> is its \<open>return Some(false)\<close>.\<close>

definition check_user_level ::
  "power_levels_content \<Rightarrow> power_levels_content \<Rightarrow> int \<Rightarrow> string \<Rightarrow> string list \<Rightarrow> string \<Rightarrow> bool" where
  "check_user_level old_state new_state user_level sender creators user =
     (let old_level = map_of (pl_users old_state) user;
          new_level = map_of (pl_users new_state) user
      in if new_level \<noteq> None \<and> user \<in> set creators then False
         else if old_level \<noteq> None \<and> new_level \<noteq> None \<and> old_level = new_level then True
         else if user \<noteq> sender \<and> old_level = Some user_level then False
         else if Some user_level < old_level then False
         else if Some user_level < new_level then False
         else True)"

text \<open>The body of the loop over event types.\<close>

definition check_event_level ::
  "power_levels_content \<Rightarrow> power_levels_content \<Rightarrow> int \<Rightarrow> event_type \<Rightarrow> bool" where
  "check_event_level old_state new_state user_level ev_type' =
     (let old_level = map_of (pl_events old_state) ev_type';
          new_level = map_of (pl_events new_state) ev_type'
      in if old_level \<noteq> None \<and> new_level \<noteq> None \<and> old_level = new_level then True
         else if Some user_level < old_level then False
         else if Some user_level < new_level then False
         else True)"

definition check_notification_level ::
  "room_version_rules \<Rightarrow> power_levels_content \<Rightarrow> power_levels_content \<Rightarrow> int \<Rightarrow> bool" where
  "check_notification_level room_version old_state new_state user_level =
     (if limit_notifications_power_levels (authorization room_version) then
        (let old_level = pl_notifications_room old_state;
             new_level = pl_notifications_room new_state
         in if old_level \<noteq> new_level
              then \<not> (user_level < old_level \<or> user_level < new_level) else True)
      else True)"

text \<open>The body of the loop over the scalar levels.\<close>

definition check_action_level ::
  "'c ruma \<Rightarrow> power_levels_content \<Rightarrow> power_levels_content \<Rightarrow> int \<Rightarrow> string \<Rightarrow> bool" where
  "check_action_level R old_state new_state user_level lvl_name =
     (case get_deserialize_levels R old_state new_state lvl_name of
        Some (old_lvl, new_lvl) \<Rightarrow> \<not> (user_level < old_lvl \<or> user_level < new_lvl)
      | None \<Rightarrow> True)"

definition action_levels :: "string list" where
  "action_levels = [''users_default'', ''events_default'', ''state_default'', ''ban'', ''redact'',
     ''kick'', ''invite'']"

definition check_power_levels ::
  "'c ruma \<Rightarrow> room_version_rules \<Rightarrow> 'c pdu \<Rightarrow> 'c pdu option \<Rightarrow> int \<Rightarrow> string list \<Rightarrow> bool option" where
  "check_power_levels R room_version power_event previous_power_event user_level creators =
     (if ev_state_key power_event \<noteq> Some '''' then None
      else case deserialize_power_levels R (ev_content power_event) room_version of
          None \<Rightarrow> None
        | Some user_content \<Rightarrow>
            (case previous_power_event of
               None \<Rightarrow> Some True
             | Some current_state \<Rightarrow>
                 (case deserialize_power_levels R (ev_content current_state) room_version of
                    None \<Rightarrow> None
                  | Some current_content \<Rightarrow>
                      (let user_levels_to_check =
                             map fst (pl_users current_content) @ map fst (pl_users user_content);
                           event_levels_to_check =
                             map fst (pl_events current_content) @ map fst (pl_events user_content)
                       in if \<not> list_all (check_user_level current_content user_content user_level
                                (ev_sender power_event) creators) user_levels_to_check
                            then Some False
                          else if \<not> list_all (check_event_level current_content user_content
                                user_level) event_levels_to_check then Some False
                          else if \<not> check_notification_level room_version current_content
                                user_content user_level then Some False
                          else if \<not> list_all (check_action_level R current_content user_content
                                user_level) action_levels then Some False
                          else Some True))))"

subsection \<open>The authorization check\<close>

text \<open>Rule 1, for \<open>m.room.create\<close>.\<close>

definition auth_check_create :: "'c ruma \<Rightarrow> room_version_rules \<Rightarrow> 'c pdu \<Rightarrow> bool result" where
  "auth_check_create R room_version incoming_event =
     (if ev_prev_events incoming_event \<noteq> [] then Inr False
      else if (case ev_room_id incoming_event of
            Some room_id \<Rightarrow> room_server_name R room_id
              \<noteq> Some (user_server_name R (ev_sender incoming_event))
          | None \<Rightarrow> False) then Inr False
      else bindR (ok_or SerdeJson (de_RoomCreateContentFields R (ev_content incoming_event)))
        (\<lambda>content.
          if rc_room_version content = Some None then Inr False
          else if room_id_format room_version = IdFormat_V2 \<and> ev_room_id incoming_event \<noteq> None
            then Inr False
          else if \<not> use_room_create_sender (authorization room_version)
            \<and> \<not> explicitly_privilege_room_creators (authorization room_version)
            \<and> rc_creator content = None then Inr False
          else Inr True))"

text \<open>
  The checks against the room's create event, with the create event's content decoded:
  \<open>Inr False\<close> rejects, \<open>Inr True\<close> goes on.
\<close>

definition auth_check_room ::
  "'c ruma \<Rightarrow> room_version_rules \<Rightarrow> 'c pdu \<Rightarrow> 'c pdu \<Rightarrow> room_create_content_fields
   \<Rightarrow> 'c pdu option \<Rightarrow> bool result" where
  "auth_check_room R room_version incoming_event room_create_event room_create_content
     power_levels_event =
     (if rc_room_version room_create_content = Some None then Inr False
      else
        bindR (room_id_or_hash R room_create_event) (\<lambda>expected_room_id.
        bindR (ok_or (Panic ''event must have a room ID'') (ev_room_id incoming_event)) (\<lambda>room_id.
          if room_id \<noteq> expected_room_id then Inr False
          else
            (let claims_create_event =
                   (ev_id room_create_event \<in> set (ev_auth_events incoming_event))
             in if room_id_format room_version = IdFormat_V2 \<and> claims_create_event then Inr False
                else if room_id_format room_version \<noteq> IdFormat_V2 \<and> \<not> claims_create_event
                  then Inr False
                else
                  bindR (case power_levels_event of
                      None \<Rightarrow> Inr True
                    | Some pe \<Rightarrow>
                        bindR (ok_or (Panic ''unwrap on None'') (ev_room_id pe)) (\<lambda>pe_room_id.
                          Inr (pe_room_id = expected_room_id))) (\<lambda>pe_ok.
                    if \<not> pe_ok then Inr False
                    else if \<not> rc_federate room_create_content
                      \<and> user_server_name R (ev_sender room_create_event)
                        \<noteq> user_server_name R (ev_sender incoming_event) then Inr False
                    else Inr True)))))"

text \<open>The case \<open>m.room.member\<close>.\<close>

definition auth_check_member ::
  "'c ruma \<Rightarrow> room_version_rules \<Rightarrow> 'c pdu \<Rightarrow> 'c pdu option
   \<Rightarrow> (event_type \<Rightarrow> string \<Rightarrow> 'c pdu option) \<Rightarrow> 'c pdu \<Rightarrow> 'c pdu option \<Rightarrow> 'c pdu option
   \<Rightarrow> bool result" where
  "auth_check_member R room_version incoming_event current_third_party_invite fetch_state
     room_create_event power_levels_event sender_member_event =
     (case ev_state_key incoming_event of
        None \<Rightarrow> Inr False
      | Some state_key \<Rightarrow>
          bindR (ok_or SerdeJson (de_RoomMemberContentFields R (ev_content incoming_event)))
            (\<lambda>content.
              if Option.bind (rm_membership content) id = None then Inr False
              else if \<not> valid_user_id R state_key then Inl (InvalidPdu ''invalid user ID'')
              else
                (let target_user = state_key;
                     user_for_join_auth =
                       Option.bind (rm_join_authorised_via_users_server content) id;
                     user_for_join_auth_event =
                       Option.bind user_for_join_auth (fetch_state RoomMember);
                     target_user_member_event = fetch_state RoomMember target_user;
                     join_rules_event = fetch_state RoomJoinRules '''';
                     user_for_join_auth_membership =
                       (case Option.bind user_for_join_auth_event
                               (\<lambda>mem. de_GetMembership R (ev_content mem)) of
                          None \<Rightarrow> Leave
                        | Some membership \<Rightarrow> membership)
                 in valid_membership_change R room_version target_user target_user_member_event
                      (ev_sender incoming_event) sender_member_event incoming_event
                      current_third_party_invite power_levels_event join_rules_event
                      user_for_join_auth user_for_join_auth_membership room_create_event)))"

text \<open>Is the sender joined? \<open>Inr False\<close> rejects.\<close>

definition sender_joined ::
  "'c ruma \<Rightarrow> 'c pdu option \<Rightarrow> string \<Rightarrow> bool result" where
  "sender_joined R sender_member_event expected_room_id =
     (case sender_member_event of
        None \<Rightarrow> Inr False
      | Some mem \<Rightarrow>
          bindR (ok_or (Panic ''we have a room ID for non create events'') (ev_room_id mem))
            (\<lambda>room_id.
              if room_id \<noteq> expected_room_id then Inr False
              else
                bindR (ok_or SerdeJson (de_RoomMemberContentFields R (ev_content mem)))
                  (\<lambda>content.
                bindR (ok_or (InvalidPdu ''Missing membership field'') (rm_membership content))
                  (\<lambda>raw.
                bindR (ok_or SerdeJson raw) (\<lambda>membership_state.
                  Inr (membership_state = Join))))))"

definition sender_power_level ::
  "'c ruma \<Rightarrow> room_version_rules \<Rightarrow> string \<Rightarrow> 'c pdu \<Rightarrow> room_create_content_fields
   \<Rightarrow> 'c pdu option \<Rightarrow> int result" where
  "sender_power_level R room_version sender room_create_event room_create_content
     power_levels_event =
     bindR (case power_levels_event of
         Some pl \<Rightarrow>
           bindR (deserialize_power_levels_content_fields R (ev_content pl) room_version)
             (\<lambda>content.
               Inr (case get_user_power content sender of
                      Some level \<Rightarrow> level
                    | None \<Rightarrow> plf_users_default content))
       | None \<Rightarrow>
           bindR (if use_room_create_sender (authorization room_version)
                  then Inr (ev_sender room_create_event = sender)
                  else (case de_RoomCreateEventContent R (ev_content room_create_event) of
                      None \<Rightarrow> Inr False
                    | Some None \<Rightarrow> Inl (Panic ''unwrap on None'')
                    | Some (Some creator) \<Rightarrow> Inr (creator = sender)))
             (\<lambda>is_creator. Inr (if is_creator then 100 else 0)))
       (\<lambda>level.
         if explicitly_privilege_room_creators (authorization room_version)
           \<and> (sender = ev_sender room_create_event
              \<or> (case rc_additional_creators room_create_content of
                   None \<Rightarrow> False
                 | Some creators \<Rightarrow> Some sender \<in> set creators))
         then Inr Int_MAX else Inr level)"

text \<open>The creators whose levels \<open>m.room.power_levels\<close> may not list.\<close>

definition power_level_creators ::
  "room_version_rules \<Rightarrow> 'c pdu \<Rightarrow> room_create_content_fields \<Rightarrow> string list result" where
  "power_level_creators room_version create_event room_create_content =
     (if explicitly_privilege_room_creators (authorization room_version) then
        bindR (mapR (ok_or SerdeJson)
            (case rc_additional_creators room_create_content of None \<Rightarrow> [] | Some cs \<Rightarrow> cs))
          (\<lambda>cs. Inr (ev_sender create_event # cs))
      else Inr [])"

text \<open>The checks of an event whose sender is joined with the given level.\<close>

definition auth_check_send ::
  "'c ruma \<Rightarrow> room_version_rules \<Rightarrow> 'c pdu \<Rightarrow> 'c pdu \<Rightarrow> room_create_content_fields
   \<Rightarrow> 'c pdu option \<Rightarrow> int \<Rightarrow> bool result" where
  "auth_check_send R room_version incoming_event create_event room_create_content
     power_levels_event sender_level =
     (if ev_type incoming_event = RoomThirdPartyInvite then
        bindR (case power_levels_event of
            Some power_levels \<Rightarrow>
              deserialize_power_levels_content_invite R (ev_content power_levels) room_version
          | None \<Rightarrow> Inr 0) (\<lambda>invite_level.
          if sender_level < invite_level then Inr False else Inr True)
      else if \<not> can_send_event R incoming_event power_levels_event sender_level
        then Inr False
      else
        bindR (if ev_type incoming_event = RoomPowerLevels then
             bindR (power_level_creators room_version create_event room_create_content)
               (\<lambda>creators.
                 case check_power_levels R room_version incoming_event power_levels_event
                        sender_level creators of
                   Some required_pwr_lvl \<Rightarrow> Inr required_pwr_lvl
                 | None \<Rightarrow> Inr False)
           else Inr True) (\<lambda>levels_ok.
          if \<not> levels_ok then Inr False
          else if special_case_room_redaction (authorization room_version)
            \<and> ev_type incoming_event = RoomRedaction then
            bindR (case power_levels_event of
                Some pl \<Rightarrow> deserialize_power_levels_content_redact R (ev_content pl) room_version
              | None \<Rightarrow> Inr 50) (\<lambda>redact_level.
              bindR (check_redaction R room_version incoming_event sender_level redact_level)
                (\<lambda>ok. if \<not> ok then Inr False else Inr True))
          else Inr True))"

definition auth_check ::
  "'c ruma \<Rightarrow> room_version_rules \<Rightarrow> 'c pdu \<Rightarrow> 'c pdu option
   \<Rightarrow> (event_type \<Rightarrow> string \<Rightarrow> 'c pdu option) \<Rightarrow> 'c pdu \<Rightarrow> bool result" where
  "auth_check R room_version incoming_event current_third_party_invite fetch_state create_event =
     (if ev_type incoming_event = RoomCreate
      then auth_check_create R room_version incoming_event
      else
        (let sender = ev_sender incoming_event;
             power_levels_event = fetch_state RoomPowerLevels '''';
             sender_member_event = fetch_state RoomMember sender
         in bindR (ok_or SerdeJson (de_RoomCreateContentFields R (ev_content create_event)))
              (\<lambda>room_create_content.
            bindR (auth_check_room R room_version incoming_event create_event
                     room_create_content power_levels_event) (\<lambda>room_ok.
            if \<not> room_ok then Inr False
            else if special_case_room_aliases (authorization room_version)
              \<and> ev_type incoming_event = RoomAliases
              then Inr (ev_state_key incoming_event = Some (user_server_name R sender))
            else if ev_type incoming_event = RoomMember
              then auth_check_member R room_version incoming_event current_third_party_invite
                     fetch_state create_event power_levels_event sender_member_event
            else
              bindR (room_id_or_hash R create_event) (\<lambda>expected_room_id.
              bindR (sender_joined R sender_member_event expected_room_id) (\<lambda>joined.
              if \<not> joined then Inr False
              else
                bindR (sender_power_level R room_version sender create_event room_create_content
                         power_levels_event) (\<lambda>level.
                auth_check_send R room_version incoming_event create_event room_create_content
                  power_levels_event level)))))))"

end
