(* ===== verification/SampleRoom.thy ===== *)
theory SampleRoom
  imports PowerLevels
begin

text \<open>
  A concrete instance of the content decoders and a small room, on which the properties are
  applied. Contents are already decoded here, so each decoder is a case distinction; the
  power level contents leave the default values out when serialized, as the Matrix types
  library does.
\<close>

datatype sample_content =
    CCreate string
  | CMember membership_state
  | CInvite3pid
  | CPower power_levels_content
  | CJoinRules join_rule
  | COther

definition default_levels :: power_levels_content where
  "default_levels = \<lparr>pl_ban = 50, pl_events = [], pl_events_default = 0, pl_invite = 0,
     pl_kick = 50, pl_redact = 50, pl_state_default = 50, pl_users = [], pl_users_default = 0,
     pl_notifications_room = 50\<rparr>"

definition sample_membership :: "sample_content \<Rightarrow> membership_state option" where
  "sample_membership c = (case c of CMember m \<Rightarrow> Some m | CInvite3pid \<Rightarrow> Some Invite | _ \<Rightarrow> None)"

definition sample_fields :: "sample_content \<Rightarrow> power_levels_content_fields option" where
  "sample_fields c = (case c of
     CPower p \<Rightarrow> Some \<lparr>plf_users = pl_users p, plf_users_default = pl_users_default p\<rparr> | _ \<Rightarrow> None)"

definition sample_to_int :: "power_levels_content \<Rightarrow> int_power_levels_content" where
  "sample_to_int p = \<lparr>ipl_ban = pl_ban p, ipl_events = pl_events p,
     ipl_events_default = pl_events_default p, ipl_invite = pl_invite p, ipl_kick = pl_kick p,
     ipl_redact = pl_redact p, ipl_state_default = pl_state_default p, ipl_users = pl_users p,
     ipl_users_default = pl_users_default p, ipl_notifications_room = pl_notifications_room p\<rparr>"

definition sample_power :: "(power_levels_content \<Rightarrow> 'a) \<Rightarrow> sample_content \<Rightarrow> 'a option" where
  "sample_power f c = (case c of CPower p \<Rightarrow> Some (f p) | _ \<Rightarrow> None)"

definition unless_default :: "int \<Rightarrow> int \<Rightarrow> int option" where
  "unless_default d x = (if x = d then None else Some x)"

definition sample_level :: "power_levels_content \<Rightarrow> string \<Rightarrow> int option" where
  "sample_level p name =
     (if name = ''users_default'' then unless_default 0 (pl_users_default p)
      else if name = ''events_default'' then unless_default 0 (pl_events_default p)
      else if name = ''state_default'' then unless_default 50 (pl_state_default p)
      else if name = ''ban'' then unless_default 50 (pl_ban p)
      else if name = ''redact'' then unless_default 50 (pl_redact p)
      else if name = ''kick'' then unless_default 50 (pl_kick p)
      else if name = ''invite'' then unless_default 0 (pl_invite p)
      else None)"

definition after_colon :: "string \<Rightarrow> string" where
  "after_colon s = drop 1 (dropWhile (\<lambda>c. c \<noteq> CHR '':'') s)"

definition sample_ruma :: "sample_content ruma" where
  "sample_ruma = \<lparr>
     de_GetMembership = sample_membership,
     de_RoomMemberContentFields = (\<lambda>c. case sample_membership c of None \<Rightarrow> None
       | Some m \<Rightarrow> Some \<lparr>rm_membership = Some (Some m), rm_join_authorised_via_users_server = None\<rparr>),
     de_RoomMemberEventContent = sample_membership,
     de_GetThirdPartyInvite = (\<lambda>c. Some (case c of CInvite3pid \<Rightarrow> Some (Some ()) | _ \<Rightarrow> None)),
     de_RoomCreateContentFields = (\<lambda>c. case c of
       CCreate u \<Rightarrow> Some \<lparr>rc_room_version = None, rc_creator = Some (),
         rc_additional_creators = None, rc_federate = True\<rparr> | _ \<Rightarrow> None),
     de_RoomCreateEventContent = (\<lambda>c. case c of CCreate u \<Rightarrow> Some (Some u) | _ \<Rightarrow> None),
     de_RoomJoinRulesEventContent = (\<lambda>c. case c of CJoinRules j \<Rightarrow> Some j | _ \<Rightarrow> None),
     de_RoomPowerLevelsEventContent = sample_power id,
     de_IntRoomPowerLevelsEventContent = sample_power sample_to_int,
     de_PowerLevelsContentFields = sample_fields,
     de_IntPowerLevelsContentFields = sample_fields,
     de_PowerLevelsContentInvite = sample_power pl_invite,
     de_IntPowerLevelsContentInvite = sample_power pl_invite,
     de_PowerLevelsContentRedact = sample_power pl_redact,
     de_IntPowerLevelsContentRedact = sample_power pl_redact,
     new_power_levels = (\<lambda>_. default_levels),
     level_in_value = sample_level,
     user_server_name = after_colon,
     room_server_name = (\<lambda>r. Some (after_colon r)),
     event_server_name = (\<lambda>e. Some (after_colon e)),
     valid_user_id = (\<lambda>_. True),
     valid_room_id = (\<lambda>_. True),
     valid_event_id = (\<lambda>_. True)\<rparr>"

definition sample_pdu ::
  "string \<Rightarrow> string \<Rightarrow> nat \<Rightarrow> event_type \<Rightarrow> string option \<Rightarrow> sample_content \<Rightarrow> string list
   \<Rightarrow> string list \<Rightarrow> sample_content pdu" where
  "sample_pdu i sender ts ty key c prevs auths = \<lparr>
     ev_id = i, ev_room_id = Some ''!r:x'', ev_sender = sender, ev_origin = None, ev_ts = ts,
     ev_type = ty, ev_content = c, ev_state_key = key, ev_prev_events = prevs, ev_depth = 1,
     ev_auth_events = auths, ev_redacts = None, ev_unsigned = None, ev_hashes = [],
     ev_signatures = None\<rparr>"

text \<open>Rules like those of room version 10, with and without the version 2.1 resolution.\<close>

definition v10_rules :: room_version_rules where
  "v10_rules = \<lparr>room_id_format = IdFormat_V1, state_res = StateRes_V2 False,
     authorization = \<lparr>special_case_room_redaction = False, special_case_room_aliases = False,
       integer_power_levels = True, limit_notifications_power_levels = True, knocking = True,
       knock_restricted_join_rule = True, use_room_create_sender = False,
       explicitly_privilege_room_creators = False\<rparr>\<rparr>"

definition v10_subgraph_rules :: room_version_rules where
  "v10_subgraph_rules = v10_rules\<lparr>state_res := StateRes_V2 True\<rparr>"

text \<open>A room with a creator and admin \<open>alice\<close>, a moderator \<open>bob\<close> and a member \<open>carol\<close>.\<close>

abbreviation alice :: string where "alice \<equiv> ''@alice:x''"
abbreviation bob :: string where "bob \<equiv> ''@bob:x''"
abbreviation carol :: string where "carol \<equiv> ''@carol:x''"

definition sample_levels :: power_levels_content where
  "sample_levels = default_levels\<lparr>pl_users := [(alice, 100), (bob, 50)]\<rparr>"

definition create_pdu :: "sample_content pdu" where
  "create_pdu = sample_pdu ''$create'' alice 1 RoomCreate (Some '''') (CCreate alice) [] []"

definition alice_pdu :: "sample_content pdu" where
  "alice_pdu = sample_pdu ''$alice'' alice 2 RoomMember (Some alice) (CMember Join)
     [''$create''] [''$create'']"

definition power_pdu :: "sample_content pdu" where
  "power_pdu = sample_pdu ''$power'' alice 3 RoomPowerLevels (Some '''') (CPower sample_levels)
     [''$alice''] [''$create'', ''$alice'']"

definition rules_pdu :: "sample_content pdu" where
  "rules_pdu = sample_pdu ''$rules'' alice 4 RoomJoinRules (Some '''') (CJoinRules JoinRule_Public)
     [''$power''] [''$create'', ''$alice'', ''$power'']"

definition bob_pdu :: "sample_content pdu" where
  "bob_pdu = sample_pdu ''$bob'' bob 5 RoomMember (Some bob) (CMember Join)
     [''$rules''] [''$create'', ''$power'', ''$rules'']"

definition carol_pdu :: "sample_content pdu" where
  "carol_pdu = sample_pdu ''$carol'' carol 6 RoomMember (Some carol) (CMember Join)
     [''$bob''] [''$create'', ''$power'', ''$rules'']"

definition sample_state :: "event_type \<Rightarrow> string \<Rightarrow> sample_content pdu option" where
  "sample_state ty key = map_of
     [((RoomCreate, ''''), create_pdu), ((RoomMember, alice), alice_pdu),
      ((RoomPowerLevels, ''''), power_pdu), ((RoomJoinRules, ''''), rules_pdu),
      ((RoomMember, bob), bob_pdu), ((RoomMember, carol), carol_pdu)] (ty, key)"

text \<open>A fork: \<open>alice\<close> changes the power levels and the topic while \<open>bob\<close> sets another topic.\<close>

definition power2_pdu :: "sample_content pdu" where
  "power2_pdu = sample_pdu ''$power2'' alice 7 RoomPowerLevels (Some '''')
     (CPower (sample_levels\<lparr>pl_users := [(alice, 100), (bob, 25)]\<rparr>))
     [''$carol''] [''$create'', ''$alice'', ''$power'']"

definition topic1_pdu :: "sample_content pdu" where
  "topic1_pdu = sample_pdu ''$topic1'' bob 9 (OtherType ''m.room.topic'') (Some '''') COther
     [''$carol''] [''$create'', ''$power'', ''$bob'']"

definition topic2_pdu :: "sample_content pdu" where
  "topic2_pdu = sample_pdu ''$topic2'' alice 8 (OtherType ''m.room.topic'') (Some '''') COther
     [''$power2''] [''$create'', ''$power2'', ''$alice'']"

lemmas sample_events_defs = power2_pdu_def topic1_pdu_def topic2_pdu_def create_pdu_def alice_pdu_def power_pdu_def rules_pdu_def bob_pdu_def
  carol_pdu_def sample_pdu_def

text \<open>The events of the room, as a store that events are fetched from.\<close>

definition store :: "'c pdu list \<Rightarrow> string \<Rightarrow> 'c pdu option" where
  "store evs = map_of (map (\<lambda>e. (ev_id e, e)) evs)"

definition sample_events :: "sample_content pdu list" where
  "sample_events = [create_pdu, alice_pdu, power_pdu, rules_pdu, bob_pdu, carol_pdu]"

definition sample_fetch :: "string \<Rightarrow> sample_content pdu option" where
  "sample_fetch = store sample_events"

definition fork_events :: "sample_content pdu list" where
  "fork_events = sample_events @ [power2_pdu, topic1_pdu, topic2_pdu]"

definition fork_fetch :: "string \<Rightarrow> sample_content pdu option" where
  "fork_fetch = store fork_events"

lemma finite_store: "finite (dom (store evs))"
  by (simp add: store_def finite_dom_map_of)

end
