(* ===== verification/EventAuthProps.thy ===== *)
theory EventAuthProps
  imports EventAuth SampleRoom
begin

text \<open>
  What the authorization rules of \<open>EventAuth\<close> guarantee: who can send, join, invite, kick
  and ban, and what a change of power levels cannot do.
\<close>

subsection \<open>Inversion lemmas\<close>

text \<open>The stages an event other than a create event has passed when it is allowed.\<close>

lemma auth_check_TrueE:
  assumes "auth_check R rv ev tpi fs ce = Inr True" and "ev_type ev \<noteq> RoomCreate"
  obtains rcc where "de_RoomCreateContentFields R (ev_content ce) = Some rcc"
    and "auth_check_room R rv ev ce rcc (fs RoomPowerLevels '''') = Inr True"
  using assms by (auto simp: auth_check_def Let_def bindR_eq_Inr split: if_splits)

lemma auth_check_room_TrueD:
  assumes "auth_check_room R rv ev ce rcc pe = Inr True"
  shows "\<exists>room. room_id_or_hash R ce = Inr room \<and> ev_room_id ev = Some room
    \<and> (room_id_format rv = IdFormat_V2 \<longleftrightarrow> ev_id ce \<notin> set (ev_auth_events ev))
    \<and> (rc_federate rcc \<or> user_server_name R (ev_sender ce) = user_server_name R (ev_sender ev))"
  using assms by (auto simp: auth_check_room_def Let_def bindR_eq_Inr split: if_splits)

lemma sender_joined_TrueD:
  assumes "sender_joined R mem room = Inr True"
  shows "\<exists>p content. mem = Some p \<and> ev_room_id p = Some room
    \<and> de_RoomMemberContentFields R (ev_content p) = Some content
    \<and> rm_membership content = Some (Some Join)"
  using assms by (auto simp: sender_joined_def bindR_eq_Inr split: option.splits if_splits)

lemma auth_check_send_TrueD:
  assumes "auth_check_send R rv ev ce rcc pe level = Inr True" and "ev_type ev \<noteq> RoomThirdPartyInvite"
  shows "can_send_event R ev pe level"
    and "ev_type ev = RoomPowerLevels \<Longrightarrow>
      \<exists>creators. power_level_creators rv ce rcc = Inr creators
        \<and> check_power_levels R rv ev pe level creators = Some True"
  using assms by (auto simp: auth_check_send_def bindR_eq_Inr split: if_splits option.splits)

lemma third_party_send_TrueD:
  assumes "auth_check_send R rv ev ce rcc pe level = Inr True" and "ev_type ev = RoomThirdPartyInvite"
  shows "case pe of
      Some pl \<Rightarrow> (\<exists>l. deserialize_power_levels_content_invite R (ev_content pl) rv = Inr l \<and> l \<le> level)
    | None \<Rightarrow> 0 \<le> level"
  using assms by (auto simp: auth_check_send_def bindR_eq_Inr not_less split: if_splits option.splits)

lemma can_send_eventD:
  assumes "can_send_event R ev pe level"
  shows "get_send_level R (ev_type ev) (ev_state_key ev) pe \<le> level"
    and "ev_state_key ev = Some k \<Longrightarrow> take 1 k = ''@'' \<Longrightarrow> k = ev_sender ev"
  using assms by (auto simp: can_send_event_def split: if_splits)

lemma auth_check_other_TrueE:
  assumes "auth_check R rv ev tpi fs ce = Inr True" and "ev_type ev \<noteq> RoomCreate"
    and "ev_type ev \<noteq> RoomMember"
    and "\<not> (special_case_room_aliases (authorization rv) \<and> ev_type ev = RoomAliases)"
  obtains rcc room level where "de_RoomCreateContentFields R (ev_content ce) = Some rcc"
    and "room_id_or_hash R ce = Inr room"
    and "sender_joined R (fs RoomMember (ev_sender ev)) room = Inr True"
    and "sender_power_level R rv (ev_sender ev) ce rcc (fs RoomPowerLevels '''') = Inr level"
    and "auth_check_send R rv ev ce rcc (fs RoomPowerLevels '''') level = Inr True"
  using assms by (auto simp: auth_check_def Let_def bindR_eq_Inr split: if_splits)

subsection \<open>Properties of the authorization check\<close>

text \<open>C17. An allowed event that is not a create, membership or (in old versions) aliases
  event has a sender whose membership in the room's state is \<open>join\<close>. The sender's power level reaches
  the level to invite if the event is a third-party invite; otherwise it reaches the level
  the event's type requires, and a state key that looks like a user id is the sender's own.\<close>

theorem auth_check_sender_authorized:
  assumes "auth_check R rv ev tpi fs ce = Inr True"
    and "ev_type ev \<noteq> RoomCreate" and "ev_type ev \<noteq> RoomMember"
    and "\<not> (special_case_room_aliases (authorization rv) \<and> ev_type ev = RoomAliases)"
  shows "\<exists>mem content room rcc level.
      fs RoomMember (ev_sender ev) = Some mem \<and> room_id_or_hash R ce = Inr room
    \<and> ev_room_id mem = Some room \<and> ev_room_id ev = Some room
    \<and> de_RoomMemberContentFields R (ev_content mem) = Some content
    \<and> rm_membership content = Some (Some Join)
    \<and> de_RoomCreateContentFields R (ev_content ce) = Some rcc
    \<and> sender_power_level R rv (ev_sender ev) ce rcc (fs RoomPowerLevels '''') = Inr level
    \<and> (if ev_type ev = RoomThirdPartyInvite
       then (case fs RoomPowerLevels '''' of
           Some pl \<Rightarrow> (\<exists>invite_level. deserialize_power_levels_content_invite R (ev_content pl) rv = Inr invite_level
             \<and> invite_level \<le> level)
         | None \<Rightarrow> 0 \<le> level)
       else get_send_level R (ev_type ev) (ev_state_key ev) (fs RoomPowerLevels '''') \<le> level
         \<and> (\<forall>k. ev_state_key ev = Some k \<and> take 1 k = ''@'' \<longrightarrow> k = ev_sender ev))"
proof -
  from assms obtain rcc room level where
    rcc: "de_RoomCreateContentFields R (ev_content ce) = Some rcc" and
    room: "room_id_or_hash R ce = Inr room" and
    joined: "sender_joined R (fs RoomMember (ev_sender ev)) room = Inr True" and
    level: "sender_power_level R rv (ev_sender ev) ce rcc (fs RoomPowerLevels '''') = Inr level" and
    send: "auth_check_send R rv ev ce rcc (fs RoomPowerLevels '''') level = Inr True"
    by (rule auth_check_other_TrueE)
  have room_id: "ev_room_id ev = Some room"
    using assms(1,2) room by (auto elim!: auth_check_TrueE dest!: auth_check_room_TrueD)
  have levels: "if ev_type ev = RoomThirdPartyInvite
       then (case fs RoomPowerLevels '''' of
           Some pl \<Rightarrow> (\<exists>l. deserialize_power_levels_content_invite R (ev_content pl) rv = Inr l \<and> l \<le> level)
         | None \<Rightarrow> 0 \<le> level)
       else get_send_level R (ev_type ev) (ev_state_key ev) (fs RoomPowerLevels '''') \<le> level
         \<and> (\<forall>k. ev_state_key ev = Some k \<and> take 1 k = ''@'' \<longrightarrow> k = ev_sender ev)"
  proof (cases "ev_type ev = RoomThirdPartyInvite")
    case True
    then show ?thesis using third_party_send_TrueD [OF send] by simp
  next
    case False
    then show ?thesis using can_send_eventD [OF auth_check_send_TrueD(1) [OF send]] by simp
  qed
  from sender_joined_TrueD [OF joined] obtain mem content where
    "fs RoomMember (ev_sender ev) = Some mem" "ev_room_id mem = Some room"
    "de_RoomMemberContentFields R (ev_content mem) = Some content" "rm_membership content = Some (Some Join)"
    by blast
  then show ?thesis using rcc room level room_id levels by blast
qed

theorem auth_check_sender_authorized_witness:
  "\<exists>mem content. sample_state RoomMember bob = Some mem
     \<and> de_RoomMemberContentFields sample_ruma (ev_content mem) = Some content
     \<and> rm_membership content = Some (Some Join)"
proof -
  let ?ev = "sample_pdu ''$topic'' bob 9 (OtherType ''m.room.topic'') (Some '''') COther [''$carol'']
        [''$create'', ''$power'', ''$bob'']"
  have run: "auth_check sample_ruma v10_rules ?ev None sample_state create_pdu = Inr True"
    by code_simp
  have "ev_type ?ev \<noteq> RoomCreate" "ev_type ?ev \<noteq> RoomMember"
    "\<not> (special_case_room_aliases (authorization v10_rules) \<and> ev_type ?ev = RoomAliases)"
    by (simp_all add: sample_pdu_def)
  from auth_check_sender_authorized [OF run this] obtain mem content where
    "sample_state RoomMember (ev_sender ?ev) = Some mem"
    "de_RoomMemberContentFields sample_ruma (ev_content mem) = Some content" "rm_membership content = Some (Some Join)"
    by blast
  moreover have "ev_sender ?ev = bob" by (simp add: sample_pdu_def)
  ultimately show ?thesis by auto
qed

subsection \<open>Power level changes\<close>

lemma check_power_levels_TrueE:
  assumes "check_power_levels R rv ev (Some prev) level creators = Some True"
  obtains old new where "deserialize_power_levels R (ev_content prev) rv = Some old"
    and "deserialize_power_levels R (ev_content ev) rv = Some new"
    and "ev_state_key ev = Some ''''"
    and "\<And>u. u \<in> fst ` set (pl_users old) \<union> fst ` set (pl_users new)
      \<Longrightarrow> check_user_level old new level (ev_sender ev) creators u"
    and "\<And>t. t \<in> fst ` set (pl_events old) \<union> fst ` set (pl_events new)
      \<Longrightarrow> check_event_level old new level t"
    and "check_notification_level rv old new level"
    and "\<And>name. name \<in> set action_levels \<Longrightarrow> check_action_level R old new level name"
  using assms
  by (auto simp: check_power_levels_def Let_def list_all_iff split: if_splits option.splits)

lemma map_of_ne_keys:
  "map_of xs k \<noteq> map_of ys k \<Longrightarrow> k \<in> fst ` set xs \<union> fst ` set ys"
  by (metis UnCI map_of_eq_None_iff)

lemma check_user_levelD:
  assumes "check_user_level old new level s creators u"
  shows "map_of (pl_users new) u \<noteq> map_of (pl_users old) u \<Longrightarrow>
      map_of (pl_users old) u \<le> Some level \<and> map_of (pl_users new) u \<le> Some level
      \<and> (u \<noteq> s \<longrightarrow> map_of (pl_users old) u \<noteq> Some level)"
    and "u \<in> set creators \<Longrightarrow> map_of (pl_users new) u = None"
  using assms by (auto simp: check_user_level_def Let_def not_less split: if_splits)

lemma check_event_levelD:
  assumes "check_event_level old new level t"
    and "map_of (pl_events new) t \<noteq> map_of (pl_events old) t"
  shows "map_of (pl_events old) t \<le> Some level \<and> map_of (pl_events new) t \<le> Some level"
  using assms by (auto simp: check_event_level_def Let_def not_less split: if_splits)

text \<open>C18. What a sender can do to power levels: when a power level event replaces another and is allowed, every user
  level and event level that differs was at most the sender's and is at most the sender's, other users at the sender's
  own level are left alone, and no room creator is listed; a notification level that differs was and is at most the
  sender's, in the versions that limit it; and each of the seven levels for defaults and actions that both contents
  have in their serialized form was and is at most the sender's. One that either leaves out is not checked.\<close>

theorem check_power_levels_no_escalation:
  assumes "check_power_levels R rv ev (Some prev) level creators = Some True"
  shows "\<exists>old new. deserialize_power_levels R (ev_content prev) rv = Some old
    \<and> deserialize_power_levels R (ev_content ev) rv = Some new
    \<and> (\<forall>u. map_of (pl_users new) u \<noteq> map_of (pl_users old) u \<longrightarrow>
         map_of (pl_users old) u \<le> Some level \<and> map_of (pl_users new) u \<le> Some level
         \<and> (u \<noteq> ev_sender ev \<longrightarrow> map_of (pl_users old) u \<noteq> Some level))
    \<and> (\<forall>t. map_of (pl_events new) t \<noteq> map_of (pl_events old) t \<longrightarrow>
         map_of (pl_events old) t \<le> Some level \<and> map_of (pl_events new) t \<le> Some level)
    \<and> (\<forall>u \<in> set creators. map_of (pl_users new) u = None)
    \<and> (limit_notifications_power_levels (authorization rv) \<and> pl_notifications_room new \<noteq> pl_notifications_room old \<longrightarrow>
         pl_notifications_room old \<le> level \<and> pl_notifications_room new \<le> level)
    \<and> (\<forall>name \<in> {''users_default'', ''events_default'', ''state_default'', ''ban'', ''redact'', ''kick'', ''invite''}.
         \<forall>l l'. level_in_value R old name = Some l \<and> level_in_value R new name = Some l' \<longrightarrow> l \<le> level \<and> l' \<le> level)"
proof -
  from assms obtain old new where
    old: "deserialize_power_levels R (ev_content prev) rv = Some old" and
    new: "deserialize_power_levels R (ev_content ev) rv = Some new" and
    users: "\<And>u. u \<in> fst ` set (pl_users old) \<union> fst ` set (pl_users new)
      \<Longrightarrow> check_user_level old new level (ev_sender ev) creators u" and
    events: "\<And>t. t \<in> fst ` set (pl_events old) \<union> fst ` set (pl_events new)
      \<Longrightarrow> check_event_level old new level t" and
    notify: "check_notification_level rv old new level" and
    actions: "\<And>name. name \<in> set action_levels \<Longrightarrow> check_action_level R old new level name"
    by (rule check_power_levels_TrueE) blast
  have notified: "limit_notifications_power_levels (authorization rv) \<and> pl_notifications_room new \<noteq> pl_notifications_room old \<longrightarrow>
      pl_notifications_room old \<le> level \<and> pl_notifications_room new \<le> level"
    using notify by (auto simp: check_notification_level_def Let_def split: if_splits)
  have actions': "l \<le> level \<and> l' \<le> level" if "name \<in> set action_levels"
    "level_in_value R old name = Some l" "level_in_value R new name = Some l'" for name l l'
    using actions [OF that(1)] that(2,3) by (auto simp: check_action_level_def get_deserialize_levels_def)
  have names: "set action_levels = {''users_default'', ''events_default'', ''state_default'', ''ban'', ''redact'', ''kick'', ''invite''}"
    by (auto simp: action_levels_def)
  have u: "map_of (pl_users old) u \<le> Some level \<and> map_of (pl_users new) u \<le> Some level
      \<and> (u \<noteq> ev_sender ev \<longrightarrow> map_of (pl_users old) u \<noteq> Some level)"
    if "map_of (pl_users new) u \<noteq> map_of (pl_users old) u" for u
    using check_user_levelD(1) [OF users that] map_of_ne_keys [OF that] by blast
  have t: "map_of (pl_events old) t \<le> Some level \<and> map_of (pl_events new) t \<le> Some level"
    if "map_of (pl_events new) t \<noteq> map_of (pl_events old) t" for t
    using check_event_levelD [OF events that] map_of_ne_keys [OF that] by blast
  have creators: "map_of (pl_users new) u = None" if "u \<in> set creators" for u
    using check_user_levelD(2) [OF users that] map_of_ne_keys [of "pl_users new" u "[]"] by fastforce
  show ?thesis
    by (intro exI [of _ old] exI [of _ new] conjI allI impI ballI; (elim conjE)?)
      (use old new u t creators notified actions' [unfolded names] in \<open>simp_all\<close>)
qed

abbreviation bob_demotes :: power_levels_content where
  "bob_demotes \<equiv> default_levels\<lparr>pl_users := [(alice, 100), (bob, 25)]\<rparr>"

theorem check_power_levels_no_escalation_witness:
  "\<exists>old new. deserialize_power_levels sample_ruma (ev_content power_pdu) v10_rules = Some old
     \<and> deserialize_power_levels sample_ruma (CPower bob_demotes) v10_rules = Some new
     \<and> (map_of (pl_users new) alice \<noteq> map_of (pl_users old) alice
        \<longrightarrow> map_of (pl_users old) alice \<le> Some 50)"
proof -
  let ?ev = "sample_pdu ''$p2'' bob 9 RoomPowerLevels (Some '''') (CPower bob_demotes) [] []"
  have "check_power_levels sample_ruma v10_rules ?ev (Some power_pdu) 50 [] = Some True"
    by code_simp
  from check_power_levels_no_escalation [OF this] obtain old new where
    "deserialize_power_levels sample_ruma (ev_content power_pdu) v10_rules = Some old"
    "deserialize_power_levels sample_ruma (ev_content ?ev) v10_rules = Some new"
    "\<forall>u. map_of (pl_users new) u \<noteq> map_of (pl_users old) u \<longrightarrow> map_of (pl_users old) u \<le> Some 50"
    "pl_notifications_room new \<noteq> pl_notifications_room old \<longrightarrow> pl_notifications_room old \<le> 50"
    by (auto simp: v10_rules_def)
  moreover have "ev_content ?ev = CPower bob_demotes" by (simp add: sample_pdu_def)
  ultimately show ?thesis by auto
qed

text \<open>A scalar level above the sender's own blocks every power level event of that sender,
  even one that leaves all levels as they are: the loop over \<open>users_default\<close>, \<open>ban\<close>,
  \<open>kick\<close> and the others does not ask whether the level changes.\<close>

lemma unchanged_action_level_rejected:
  assumes "deserialize_power_levels R (ev_content prev) rv = Some levels"
    and "deserialize_power_levels R (ev_content ev) rv = Some levels"
    and "ev_state_key ev = Some ''''"
    and "name \<in> set action_levels" and "level_in_value R levels name = Some x" and "level < x"
  shows "check_power_levels R rv ev (Some prev) level creators = Some False"
  using assms
  by (auto simp: check_power_levels_def Let_def list_all_iff check_action_level_def
      get_deserialize_levels_def)

text \<open>A scalar level that the serialized previous content leaves out is not checked at
  all: when the library omits a level that has its default value, a sender whose own level
  is lower can change it, here the level needed to ban.\<close>

lemma omitted_action_level_unchecked:
  assumes "deserialize_power_levels R (ev_content prev) rv = Some old"
    and "deserialize_power_levels R (ev_content ev) rv = Some (old\<lparr>pl_ban := b\<rparr>)"
    and "ev_state_key ev = Some ''''"
    and "\<forall>name \<in> set action_levels. level_in_value R old name = None"
    and "\<forall>u \<in> set creators. map_of (pl_users old) u = None"
    and "level < pl_ban old"
  shows "check_power_levels R rv ev (Some prev) level creators = Some True"
proof -
  let ?new = "old\<lparr>pl_ban := b\<rparr>"
  have "list_all (check_action_level R old ?new level) action_levels"
    using assms(4)
    by (auto simp: list_all_iff check_action_level_def get_deserialize_levels_def)
  moreover have "check_user_level old ?new level (ev_sender ev) creators u"
    if key: "u \<in> set (map fst (pl_users old))" for u
  proof -
    obtain l where l: "map_of (pl_users old) u = Some l"
      using key by (auto dest: weak_map_of_SomeI)
    then have "u \<notin> set creators" using assms(5) by auto
    then show ?thesis by (simp add: check_user_level_def l)
  qed
  moreover have "check_event_level old ?new level t"
    if key: "t \<in> set (map fst (pl_events old))" for t
  proof -
    obtain l where "map_of (pl_events old) t = Some l"
      using key by (auto dest: weak_map_of_SomeI)
    then show ?thesis by (simp add: check_event_level_def)
  qed
  moreover have "check_notification_level rv old ?new level"
    by (simp add: check_notification_level_def)
  ultimately show ?thesis
    using assms(1,2,3) by (simp add: check_power_levels_def list_all_iff Let_def)
qed

theorem omitted_action_level_unchecked_witness:
  "check_power_levels sample_ruma v10_rules
     (sample_pdu ''$p2'' bob 9 RoomPowerLevels (Some '''')
        (CPower (sample_levels\<lparr>pl_ban := 0\<rparr>)) [] [])
     (Some power_pdu) 10 [] = Some True"
  by (rule omitted_action_level_unchecked [where old = sample_levels and b = 0]) code_simp+



subsection \<open>Membership changes\<close>

lemma valid_membership_changeE:
  assumes "valid_membership_change R rv tu tme s sme ev tpi ple jre ufja ufjam cr = Inr b"
  obtains tm tp3 sm cm pl creators jr va sc tc sp tp where
    "de_GetMembership R (ev_content ev) = Some tm"
    and "de_GetThirdPartyInvite R (ev_content ev) = Some tp3"
    and "membership_or_leave R sme = Inr sm" and "membership_or_leave R tme = Inr cm"
    and "(case ple of Some e \<Rightarrow> ok_or SerdeJson (de_RoomPowerLevelsEventContent R (ev_content e))
       | None \<Rightarrow> Inr (new_power_levels R (authorization rv))) = Inr pl"
    and "(case jre of Some e \<Rightarrow> ok_or SerdeJson (de_RoomJoinRulesEventContent R (ev_content e))
       | None \<Rightarrow> Inr JoinRule_Invite) = Inr jr"
    and "user_for_join_auth_valid R rv ple ufja ufjam creators cr = Inr va"
    and "is_creator R rv creators cr s (ple \<noteq> None) = Inr sc"
    and "is_creator R rv creators cr tu (ple \<noteq> None) = Inr tc"
    and "(case tm of
         Join \<Rightarrow> check_join rv tu s ev cr cm jr va sc tc
       | Invite \<Rightarrow> check_invite tp3 cm tu s tpi (sm = Join) sc sp pl
       | Leave \<Rightarrow> check_leave s tu cm (sm = Join) sc sp tp pl
       | Ban \<Rightarrow> check_ban (sm = Join) sc sp tp pl
       | Knock \<Rightarrow> (if knocking (authorization rv) then check_knock rv jr s tu sm else False)
       | OtherMembership _ \<Rightarrow> False) = b"
    and "\<not> explicitly_privilege_room_creators (authorization rv) \<Longrightarrow>
       sp = power_or_default pl s (sm = Join) \<and> tp = power_or_default pl tu (tm = Join)"
proof -
  from assms show thesis
    unfolding valid_membership_change_def Let_def bindR_eq_Inr ok_or_eq_Inr sum.inject
    by (elim exE conjE) (rule that, assumption+, simp)
qed

text \<open>A membership event that is allowed has passed \<open>valid_membership_change\<close>.\<close>

lemma auth_check_memberE:
  assumes "auth_check R rv ev tpi fs ce = Inr True" and "ev_type ev = RoomMember"
  obtains target ufja ufjam where "ev_state_key ev = Some target"
    and "valid_membership_change R rv target (fs RoomMember target) (ev_sender ev)
      (fs RoomMember (ev_sender ev)) ev tpi (fs RoomPowerLevels '''') (fs RoomJoinRules '''')
      ufja ufjam ce = Inr True"
  using assms
  by (auto simp: auth_check_def auth_check_member_def Let_def bindR_eq_Inr
      split: if_splits option.splits)

lemma is_creator_with_levels:
  "\<not> explicitly_privilege_room_creators (authorization rv) \<Longrightarrow>
   is_creator R rv c ce u True = Inr False"
  by (simp add: is_creator_def)

text \<open>A join that is not the creator's first one is allowed only for the sender's own
  membership, never out of a ban, and only if the user is already invited or joined, the
  room is public, or a restricted rule admits a user vouched for by the event.\<close>

lemma auth_check_join:
  assumes "auth_check R rv ev tpi fs ce = Inr True" and "ev_type ev = RoomMember"
    and "de_GetMembership R (ev_content ev) = Some Join"
    and "ev_prev_events ev \<noteq> [ev_id ce]"
  shows "ev_state_key ev = Some (ev_sender ev)
    \<and> (\<exists>membership rule.
         membership_or_leave R (fs RoomMember (ev_sender ev)) = Inr membership
       \<and> (case fs RoomJoinRules '''' of
            None \<Rightarrow> rule = JoinRule_Invite
          | Some e \<Rightarrow> de_RoomJoinRulesEventContent R (ev_content e) = Some rule)
       \<and> membership \<noteq> Ban
       \<and> (membership \<in> {Join, Invite}
          \<or> rule \<in> {JoinRule_Public, JoinRule_Restricted, JoinRule_KnockRestricted}))"
proof -
  from assms(1,2) obtain target ufja ufjam where key: "ev_state_key ev = Some target"
    and change: "valid_membership_change R rv target (fs RoomMember target) (ev_sender ev)
      (fs RoomMember (ev_sender ev)) ev tpi (fs RoomPowerLevels '''') (fs RoomJoinRules '''')
      ufja ufjam ce = Inr True"
    by (rule auth_check_memberE)
  have not_first: "\<not> (case ev_prev_events ev of [] \<Rightarrow> False | e # _ \<Rightarrow> e = ev_id ce)
      \<or> tl (ev_prev_events ev) \<noteq> []"
    using assms(4) by (cases "ev_prev_events ev") auto
  from change show ?thesis
  proof (rule valid_membership_changeE)
    fix tm tp3 sm cm pl creators jr va sc tc sp tp
    assume tm: "de_GetMembership R (ev_content ev) = Some tm"
      and cm: "membership_or_leave R (fs RoomMember target) = Inr cm"
      and jr: "(case fs RoomJoinRules '''' of
          Some e \<Rightarrow> ok_or SerdeJson (de_RoomJoinRulesEventContent R (ev_content e))
        | None \<Rightarrow> Inr JoinRule_Invite) = Inr jr"
      and res: "(case tm of
         Join \<Rightarrow> check_join rv target (ev_sender ev) ev ce cm jr va sc tc
       | Invite \<Rightarrow> check_invite tp3 cm target (ev_sender ev) tpi (sm = Join) sc sp pl
       | Leave \<Rightarrow> check_leave (ev_sender ev) target cm (sm = Join) sc sp tp pl
       | Ban \<Rightarrow> check_ban (sm = Join) sc sp tp pl
       | Knock \<Rightarrow> (if knocking (authorization rv)
           then check_knock rv jr (ev_sender ev) target sm else False)
       | OtherMembership _ \<Rightarrow> False) = True"
    have join: "check_join rv target (ev_sender ev) ev ce cm jr va sc tc"
      using tm res assms(3) by simp
    then have "target = ev_sender ev" and "cm \<noteq> Ban" and
      "cm \<in> {Join, Invite} \<or> jr \<in> {JoinRule_Public, JoinRule_Restricted, JoinRule_KnockRestricted}"
      using not_first by (auto simp: check_join_def Let_def split: if_splits join_rule.splits)
    moreover have "case fs RoomJoinRules '''' of None \<Rightarrow> jr = JoinRule_Invite
        | Some e \<Rightarrow> de_RoomJoinRulesEventContent R (ev_content e) = Some jr"
      using jr by (auto split: option.splits)
    ultimately show ?thesis using key cm by blast
  qed
qed

text \<open>C33. Where the room has power levels and creators are not privileged, a ban is allowed
  only to a joined sender whose level reaches the ban level and exceeds the level the power
  level event lists for the target.\<close>

theorem auth_check_ban:
  assumes "auth_check R rv ev tpi fs ce = Inr True" and "ev_type ev = RoomMember"
    and "de_GetMembership R (ev_content ev) = Some Ban"
    and "fs RoomPowerLevels '''' = Some ple"
    and "\<not> explicitly_privilege_room_creators (authorization rv)"
  shows "\<exists>target pl level. ev_state_key ev = Some target
    \<and> de_RoomPowerLevelsEventContent R (ev_content ple) = Some pl
    \<and> membership_or_leave R (fs RoomMember (ev_sender ev)) = Inr Join
    \<and> power_or_default pl (ev_sender ev) True = Some level
    \<and> pl_ban pl \<le> level \<and> map_of (pl_users pl) target < Some level"
proof -
  from assms(1,2) obtain target ufja ufjam where key: "ev_state_key ev = Some target"
    and change: "valid_membership_change R rv target (fs RoomMember target) (ev_sender ev)
      (fs RoomMember (ev_sender ev)) ev tpi (fs RoomPowerLevels '''') (fs RoomJoinRules '''')
      ufja ufjam ce = Inr True"
    by (rule auth_check_memberE)
  from change show ?thesis
  proof (rule valid_membership_changeE, goal_cases)
    case (1 tm tp3 sm cm pl creators jr va sc tc sp tp)
    have tm: "tm = Ban" using 1(1) assms(3) by simp
    have sc: "\<not> sc" using 1(8) assms(4,5) by (simp add: is_creator_with_levels)
    have pl: "de_RoomPowerLevelsEventContent R (ev_content ple) = Some pl"
      using 1(5) assms(4) by simp
    from 1(11) [OF assms(5)] tm have pow: "sp = power_or_default pl (ev_sender ev) (sm = Join)"
      "tp = map_of (pl_users pl) target"
      by (auto simp: power_or_default_def split: option.splits)
    have "check_ban (sm = Join) sc sp tp pl" using 1(10) tm by simp
    then have "sm = Join" and "\<exists>level. sp = Some level \<and> pl_ban pl \<le> level \<and> tp < Some level"
      using sc by (auto simp: check_ban_def split: if_splits option.splits)
    then show ?thesis using key pl 1(3) pow by auto
  qed
qed

theorem auth_check_ban_witness:
  "\<exists>level. power_or_default sample_levels bob True = Some level \<and> pl_ban sample_levels \<le> level"
proof -
  let ?ev = "sample_pdu ''$ban'' bob 9 RoomMember (Some carol) (CMember Ban) [''$carol'']
        [''$create'', ''$power'', ''$bob'', ''$carol'']"
  have "auth_check sample_ruma v10_rules ?ev None sample_state create_pdu = Inr True"
    and "ev_type ?ev = RoomMember"
    and "de_GetMembership sample_ruma (ev_content ?ev) = Some Ban"
    and "sample_state RoomPowerLevels '''' = Some power_pdu"
    and "\<not> explicitly_privilege_room_creators (authorization v10_rules)"
    by code_simp+
  note b = auth_check_ban [OF this]
  have "ev_sender ?ev = bob"
    and "de_RoomPowerLevelsEventContent sample_ruma (ev_content power_pdu) = Some sample_levels"
    by code_simp+
  with b show ?thesis by (metis option.inject)
qed

text \<open>A kick (a \<open>leave\<close> set by someone else for a user who is neither banned nor gone)
  likewise needs the kick level and a level above the one listed for the target.\<close>

lemma auth_check_kick:
  assumes "auth_check R rv ev tpi fs ce = Inr True" and "ev_type ev = RoomMember"
    and "de_GetMembership R (ev_content ev) = Some Leave"
    and "ev_state_key ev = Some target" and "target \<noteq> ev_sender ev"
    and "membership_or_leave R (fs RoomMember target) = Inr cm" and "cm \<notin> {Ban, Leave}"
    and "fs RoomPowerLevels '''' = Some ple"
    and "\<not> explicitly_privilege_room_creators (authorization rv)"
  shows "\<exists>pl level. de_RoomPowerLevelsEventContent R (ev_content ple) = Some pl
    \<and> membership_or_leave R (fs RoomMember (ev_sender ev)) = Inr Join
    \<and> power_or_default pl (ev_sender ev) True = Some level
    \<and> pl_kick pl \<le> level \<and> map_of (pl_users pl) target < Some level"
proof -
  from assms(1,2) obtain target' ufja ufjam where key: "ev_state_key ev = Some target'"
    and change: "valid_membership_change R rv target' (fs RoomMember target') (ev_sender ev)
      (fs RoomMember (ev_sender ev)) ev tpi (fs RoomPowerLevels '''') (fs RoomJoinRules '''')
      ufja ufjam ce = Inr True"
    by (rule auth_check_memberE)
  have [simp]: "target' = target" using key assms(4) by simp
  from change show ?thesis
  proof (rule valid_membership_changeE, goal_cases)
    case (1 tm tp3 sm cm' pl creators jr va sc tc sp tp)
    have tm: "tm = Leave" using 1(1) assms(3) by simp
    have cm: "cm' = cm" using 1(4) assms(6) by simp
    have sc: "\<not> sc" using 1(8) assms(8,9) by (simp add: is_creator_with_levels)
    have pl: "de_RoomPowerLevelsEventContent R (ev_content ple) = Some pl"
      using 1(5) assms(8) by simp
    from 1(11) [OF assms(9)] tm have pow: "sp = power_or_default pl (ev_sender ev) (sm = Join)"
      "tp = map_of (pl_users pl) target"
      by (auto simp: power_or_default_def split: option.splits)
    have "check_leave (ev_sender ev) target cm (sm = Join) sc sp tp pl" using 1(10) tm cm by simp
    then have "sm = Join" and "\<exists>level. sp = Some level \<and> pl_kick pl \<le> level \<and> tp < Some level"
      using sc assms(5,7) by (auto simp: check_leave_def Let_def split: if_splits option.splits)
    then show ?thesis using pl 1(3) pow by auto
  qed
qed

text \<open>A member whose level comes from \<open>users_default\<close> has no protection: however high the
  default is, \<open>bob\<close> with the listed level 50 can kick \<open>carol\<close>, because the target's level
  falls back to the default only when the \<^emph>\<open>new\<close> membership is a join.\<close>

lemma kick_ignores_users_default:
  "auth_check sample_ruma v10_rules
     (sample_pdu ''$kick'' bob 9 RoomMember (Some carol) (CMember Leave) [''$carol'']
        [''$create'', ''$power'', ''$bob'', ''$carol''])
     None
     (\<lambda>ty key. if ty = RoomPowerLevels \<and> key = ''''
        then Some (power_pdu\<lparr>ev_content := CPower (sample_levels\<lparr>pl_users_default := d\<rparr>)\<rparr>)
        else sample_state ty key)
     create_pdu = Inr True"
  by code_simp

text \<open>
  An invite-only room without third-party invites, and the two events with which a user who
  was never in it gets in.
\<close>

abbreviation mallory :: string where "mallory \<equiv> ''@mallory:y''"

definition invite_only_state :: "event_type \<Rightarrow> string \<Rightarrow> sample_content pdu option" where
  "invite_only_state ty key = (if ty = RoomJoinRules \<and> key = ''''
     then Some (rules_pdu\<lparr>ev_content := CJoinRules JoinRule_Invite\<rparr>) else sample_state ty key)"

definition mallory_invite :: "sample_content pdu" where
  "mallory_invite = sample_pdu ''$inv'' mallory 8 RoomMember (Some mallory) CInvite3pid
     [''$carol''] [''$create'', ''$power'', ''$rules'']"

definition mallory_join :: "sample_content pdu" where
  "mallory_join = sample_pdu ''$join'' mallory 9 RoomMember (Some mallory) (CMember Join)
     [''$inv''] [''$create'', ''$power'', ''$rules'', ''$inv'']"

text \<open>The third-party invite of a membership event is not verified: in an invite-only
  room that has no third-party invite, a user who was never in the room can send an invite
  for themselves; their join is rejected without it and allowed once it is in the state.\<close>

lemma third_party_invite_admits_outsider:
  "auth_check sample_ruma v10_rules mallory_invite None invite_only_state create_pdu = Inr True
   \<and> auth_check sample_ruma v10_rules mallory_join None invite_only_state create_pdu = Inr False
   \<and> auth_check sample_ruma v10_rules mallory_join None
       (\<lambda>ty key. if ty = RoomMember \<and> key = mallory then Some mallory_invite
          else invite_only_state ty key) create_pdu = Inr True"
  by (intro conjI) code_simp+

subsection \<open>The auth types are enough\<close>

lemma set_push_new [simp]: "set (push_new xs x) = insert x (set xs)"
  by (auto simp: push_new_def)

lemma auth_types_base:
  assumes "auth_types_for_event R ty s k c rv = Inr ts" and "ty \<noteq> RoomCreate"
  shows "(RoomPowerLevels, '''') \<in> set ts \<and> (RoomMember, s) \<in> set ts"
  using assms
  by (auto simp: auth_types_for_event_def Let_def bindR_def ok_or_def
      split: if_splits option.split_asm sum.split_asm)

lemma auth_types_member:
  assumes "auth_types_for_event R RoomMember s (Some key) c rv = Inr ts"
    and "de_RoomMemberContentFields R c = Some flds" and "rm_membership flds = Some (Some m)"
    and "m \<in> {Join, Invite, Knock}"
  shows "(RoomMember, key) \<in> set ts \<and> (RoomJoinRules, '''') \<in> set ts
    \<and> (\<forall>u. rm_join_authorised_via_users_server flds = Some (Some u) \<longrightarrow> (RoomMember, u) \<in> set ts)"
  using assms
  by (auto simp: auth_types_for_event_def Let_def split: option.splits)

text \<open>C34. The auth types of an event are all the state its authorization needs: two states
  that agree on them give the same verdict. For membership events this is shown for joins,
  invites and knocks; for the others \<open>auth_check\<close> also decodes the join rules.\<close>

theorem auth_check_needs_only_auth_types:
  assumes "auth_types_for_event R (ev_type ev) (ev_sender ev) (ev_state_key ev) (ev_content ev) rv
      = Inr ts"
    and "\<forall>(ty, key) \<in> set ts. fs ty key = fs' ty key"
    and "ev_type ev = RoomMember \<Longrightarrow>
      \<exists>flds m. de_RoomMemberContentFields R (ev_content ev) = Some flds
        \<and> rm_membership flds = Some (Some m) \<and> m \<in> {Join, Invite, Knock}"
  shows "auth_check R rv ev tpi fs ce = auth_check R rv ev tpi fs' ce"
proof (cases "ev_type ev = RoomCreate")
  case True
  then show ?thesis by (simp add: auth_check_def)
next
  case False
  have base: "fs RoomPowerLevels '''' = fs' RoomPowerLevels ''''"
    "fs RoomMember (ev_sender ev) = fs' RoomMember (ev_sender ev)"
    using auth_types_base [OF assms(1) False] assms(2) by auto
  show ?thesis
  proof (cases "ev_type ev = RoomMember")
    case False
    then show ?thesis using base by (simp add: auth_check_def Let_def cong: if_cong)
  next
    case True
    then obtain flds m where f: "de_RoomMemberContentFields R (ev_content ev) = Some flds"
      "rm_membership flds = Some (Some m)" "m \<in> {Join, Invite, Knock}" using assms(3) by blast
    have "auth_check_member R rv ev tpi fs ce pe se = auth_check_member R rv ev tpi fs' ce pe se"
      for pe se
    proof (cases "ev_state_key ev")
      case None
      then show ?thesis by (simp add: auth_check_member_def)
    next
      case (Some key)
      have ts: "(RoomMember, key) \<in> set ts \<and> (RoomJoinRules, '''') \<in> set ts
        \<and> (\<forall>u. rm_join_authorised_via_users_server flds = Some (Some u) \<longrightarrow> (RoomMember, u) \<in> set ts)"
        using auth_types_member [OF _ f] assms(1) True Some by simp
      have "Option.bind (Option.bind (rm_join_authorised_via_users_server flds) id) (fs RoomMember)
          = Option.bind (Option.bind (rm_join_authorised_via_users_server flds) id) (fs' RoomMember)"
        using ts assms(2) by (auto split: bind_splits)
      moreover have "fs RoomMember key = fs' RoomMember key"
        "fs RoomJoinRules '''' = fs' RoomJoinRules ''''" using ts assms(2) by auto
      ultimately show ?thesis using Some f(1)
        by (simp add: auth_check_member_def del: Option.bind_assoc)
    qed
    then show ?thesis using base True by (simp add: auth_check_def Let_def cong: if_cong)
  qed
qed

theorem auth_check_needs_only_auth_types_witness:
  "auth_check sample_ruma v10_rules carol_pdu None sample_state create_pdu
   = auth_check sample_ruma v10_rules carol_pdu None
       (sample_state(RoomMember := (sample_state RoomMember)(bob := None))) create_pdu"
proof (rule auth_check_needs_only_auth_types
    [where ts = "[(RoomPowerLevels, ''''), (RoomMember, carol), (RoomCreate, ''''), (RoomJoinRules, '''')]"])
  show "auth_types_for_event sample_ruma (ev_type carol_pdu) (ev_sender carol_pdu)
      (ev_state_key carol_pdu) (ev_content carol_pdu) v10_rules
    = Inr [(RoomPowerLevels, ''''), (RoomMember, carol), (RoomCreate, ''''), (RoomJoinRules, '''')]"
    by code_simp
  show "\<forall>(ty, key) \<in> set [(RoomPowerLevels, ''''), (RoomMember, carol), (RoomCreate, ''''),
      (RoomJoinRules, '''')]. sample_state ty key
      = (sample_state(RoomMember := (sample_state RoomMember)(bob := None))) ty key"
    by simp
  show "\<exists>flds m. de_RoomMemberContentFields sample_ruma (ev_content carol_pdu) = Some flds
    \<and> rm_membership flds = Some (Some m) \<and> m \<in> {Join, Invite, Knock}"
    by (simp add: carol_pdu_def sample_pdu_def sample_ruma_def sample_membership_def)
qed

end
