(* ===== verification/TopoSort.thy ===== *)
theory TopoSort
  imports Pdu
begin

text \<open>
  \<open>lexicographical_topological_sort\<close> of \<open>src/src/core/matrix/state_res/mod.rs\<close>: Kahn's
  algorithm on the auth graph, oldest events first, with a heap that breaks ties by power
  level, timestamp and event id. The abstract algorithm \<open>kahn\<close> knows only the nodes, the
  edges and the keys; the code, with its degree maps, its heap and the arbitrary iteration
  order of its hash sets, refines it, and so its result does not depend on that order.
\<close>

subsection \<open>The heap's order\<close>

datatype 'id tie_breaker =
  TieBreaker (tb_power_level: int) (tb_origin_server_ts: nat) (tb_event_id: 'id)

instantiation tie_breaker :: (linorder) linorder
begin

definition less_eq_tie_breaker :: "'a tie_breaker \<Rightarrow> 'a tie_breaker \<Rightarrow> bool" where
  "less_eq_tie_breaker x y \<longleftrightarrow>
     (tb_power_level y, tb_origin_server_ts x, tb_event_id x) \<le> (tb_power_level x, tb_origin_server_ts y, tb_event_id y)"

definition less_tie_breaker :: "'a tie_breaker \<Rightarrow> 'a tie_breaker \<Rightarrow> bool" where
  "less_tie_breaker x y \<longleftrightarrow>
     (tb_power_level y, tb_origin_server_ts x, tb_event_id x) < (tb_power_level x, tb_origin_server_ts y, tb_event_id y)"

instance
  by intro_classes
    (auto simp: less_eq_tie_breaker_def less_tie_breaker_def intro: tie_breaker.expand)

end

subsection \<open>Priority queues\<close>

text \<open>
  What the sort relies on from \<open>BinaryHeap<Reverse<TieBreaker>>\<close>: \<open>pop\<close> takes a least
  element. Two queues with the same elements therefore pop the same element.
\<close>

locale priority_queue =
  fixes elems :: "'q \<Rightarrow> 'a::linorder multiset"
    and push :: "'a \<Rightarrow> 'q \<Rightarrow> 'q" and pop :: "'q \<Rightarrow> ('a \<times> 'q) option"
  assumes elems_push: "elems (push x q) = add_mset x (elems q)"
    and pop_None: "pop q = None \<longleftrightarrow> elems q = {#}"
    and pop_Some: "pop q = Some (x, q') \<Longrightarrow>
      elems q = add_mset x (elems q') \<and> (\<forall>y \<in># elems q. x \<le> y)"
begin

lemma pop_nonempty: "elems q \<noteq> {#} \<Longrightarrow> \<exists>x q'. pop q = Some (x, q')"
  using pop_None [of q] by (cases "pop q") auto

lemma pop_least:
  assumes "pop q = Some (x, q')" and "x' \<in># elems q" and "\<forall>y \<in># elems q. x' \<le> y"
  shows "x = x'"
  using assms pop_Some [OF assms(1)] by (metis antisym union_single_eq_member)

lemma pop_same_elems:
  assumes "elems q = elems r" and "pop q = Some (x, q')"
  shows "\<exists>r'. pop r = Some (x, r') \<and> elems r' = elems q'"
proof -
  have "elems r \<noteq> {#}" using pop_Some [OF assms(2)] assms(1) by auto
  then obtain y r' where y: "pop r = Some (y, r')" using pop_nonempty by metis
  have "y \<le> x" "x \<le> y"
    using pop_Some [OF y] pop_Some [OF assms(2)] assms(1) by (metis union_single_eq_member)+
  then show ?thesis using y pop_Some [OF y] pop_Some [OF assms(2)] assms(1) by auto
qed

end

text \<open>The heap of the code, as the list of its elements.\<close>

definition heap_push :: "'a \<Rightarrow> 'a list \<Rightarrow> 'a list" where
  "heap_push x h = x # h"

definition heap_pop :: "'a::linorder list \<Rightarrow> ('a \<times> 'a list) option" where
  "heap_pop h = (case h of [] \<Rightarrow> None
     | x # xs \<Rightarrow> (let m = fold min xs x in Some (m, remove1 m h)))"

lemma heap_pop_SomeD:
  assumes "heap_pop h = Some (x, h')"
  shows "x \<in> set h \<and> h' = remove1 x h \<and> (\<forall>y \<in> set h. x \<le> y)"
proof (cases h)
  case Nil
  then show ?thesis using assms by (simp add: heap_pop_def)
next
  case (Cons a as)
  have m: "fold min as a = Min (set h)" unfolding Cons by (rule Min.set_eq_fold [symmetric])
  then have "x = Min (set h)" "h' = remove1 x h" using assms Cons by (auto simp: heap_pop_def Let_def)
  moreover have "finite (set h)" "set h \<noteq> {}" using Cons by simp_all
  ultimately show ?thesis using Min_in Min_le by metis
qed

interpretation heap: priority_queue mset heap_push heap_pop
proof
  fix x :: 'a and h h' :: "'a list"
  show "mset (heap_push x h) = add_mset x (mset h)" by (simp add: heap_push_def)
  show "heap_pop h = None \<longleftrightarrow> mset h = {#}" by (simp add: heap_pop_def Let_def split: list.splits)
  assume "heap_pop h = Some (x, h')"
  then show "mset h = add_mset x (mset h') \<and> (\<forall>y \<in># mset h. x \<le> y)"
    by (auto dest: heap_pop_SomeD)
qed

subsection \<open>The code\<close>

text \<open>
  \<open>key_fn\<close> gives the power level and timestamp of an event. A \<open>HashSet\<close> is a list without
  repetition, and \<open>ord\<close> is the order in which it is iterated; a \<open>HashMap\<close> that is only looked
  up is a partial function. The graph itself is a list of its entries in iteration order.
\<close>

type_synonym 'id graph = "('id \<times> 'id list) list"
type_synonym 'id key_fn = "'id \<Rightarrow> (int \<times> nat) result"

definition set_insert :: "'a \<Rightarrow> 'a list \<Rightarrow> 'a list" where
  "set_insert x xs = (if x \<in> set xs then xs else xs @ [x])"

definition set_remove :: "'a \<Rightarrow> 'a list \<Rightarrow> 'a list" where
  "set_remove x xs = filter (\<lambda>y. y \<noteq> x) xs"

definition or_default :: "'a list option \<Rightarrow> 'a list" where
  "or_default x = (case x of None \<Rightarrow> [] | Some xs \<Rightarrow> xs)"

definition tie_breaker_of :: "'id key_fn \<Rightarrow> 'id \<Rightarrow> 'id tie_breaker result" where
  "tie_breaker_of key_fn node =
     bindR (key_fn node) (\<lambda>(power_level, origin_server_ts).
       Inr (TieBreaker power_level origin_server_ts node))"

text \<open>The first loop, over the nodes of the graph.\<close>

definition topo_init_node ::
  "'id key_fn \<Rightarrow> 'id \<times> 'id list \<Rightarrow> 'id tie_breaker list \<times> ('id \<rightharpoonup> 'id list)
   \<Rightarrow> ('id tie_breaker list \<times> ('id \<rightharpoonup> 'id list)) result" where
  "topo_init_node key_fn entry st =
     (case (entry, st) of ((node, edges), (zero_outdegree, reverse_graph)) \<Rightarrow>
        bindR (if edges = [] then
             bindR (tie_breaker_of key_fn node) (\<lambda>t. Inr (zero_outdegree @ [t]))
           else Inr zero_outdegree) (\<lambda>zero_outdegree.
        (let reverse_graph = reverse_graph(node \<mapsto> or_default (reverse_graph node));
             reverse_graph = fold (\<lambda>edge rg. rg(edge \<mapsto> set_insert node (or_default (rg edge))))
               edges reverse_graph
         in Inr (zero_outdegree, reverse_graph))))"

text \<open>One parent of the node taken from the heap.\<close>

definition topo_parent ::
  "'id key_fn \<Rightarrow> 'id \<Rightarrow> 'id \<Rightarrow> 'id tie_breaker list \<times> ('id \<rightharpoonup> 'id list)
   \<Rightarrow> ('id tie_breaker list \<times> ('id \<rightharpoonup> 'id list)) result" where
  "topo_parent key_fn node parent st =
     (case st of (heap, outdegree_map) \<Rightarrow>
        bindR (ok_or (Panic ''outdegree_map knows of all referenced EventIds'')
                 (outdegree_map parent)) (\<lambda>out.
        (let out = set_remove node out;
             outdegree_map = outdegree_map(parent \<mapsto> out)
         in if out = [] then
              bindR (tie_breaker_of key_fn parent) (\<lambda>t. Inr (heap_push t heap, outdegree_map))
            else Inr (heap, outdegree_map))))"

text \<open>The main loop. Every node is taken from the heap once, so the fuel is the number of nodes.\<close>

fun topo_loop ::
  "nat \<Rightarrow> 'id::linorder key_fn \<Rightarrow> ('id list \<Rightarrow> 'id list) \<Rightarrow> ('id \<rightharpoonup> 'id list)
   \<Rightarrow> 'id tie_breaker list \<Rightarrow> ('id \<rightharpoonup> 'id list) \<Rightarrow> 'id list \<Rightarrow> 'id list result" where
  "topo_loop 0 key_fn ord reverse_graph heap outdegree_map acc =
     (if heap = [] then Inr acc else Inl OutOfFuel)"
| "topo_loop (Suc fuel) key_fn ord reverse_graph heap outdegree_map acc =
     (case heap_pop heap of
        None \<Rightarrow> Inr acc
      | Some (item, heap) \<Rightarrow>
          (let node = tb_event_id item
           in bindR (ok_or (Panic ''EventId in heap is also in reverse_graph'')
                       (reverse_graph node)) (\<lambda>parents.
              bindR (foldR (topo_parent key_fn node) (ord parents) (heap, outdegree_map))
                (\<lambda>(heap, outdegree_map).
                  topo_loop fuel key_fn ord reverse_graph heap outdegree_map
                    (acc @ [node])))))"

definition lexicographical_topological_sort ::
  "('id list \<Rightarrow> 'id list) \<Rightarrow> 'id::linorder graph \<Rightarrow> 'id key_fn \<Rightarrow> 'id list result" where
  "lexicographical_topological_sort ord graph key_fn =
     bindR (foldR (topo_init_node key_fn) graph ([], Map.empty))
       (\<lambda>(zero_outdegree, reverse_graph).
         topo_loop (length graph) key_fn ord reverse_graph zero_outdegree (map_of graph) [])"

subsection \<open>The abstract algorithm\<close>

text \<open>The nodes that can come next: all their edges lead to nodes already emitted.\<close>

definition ready :: "'id set \<Rightarrow> ('id \<Rightarrow> 'id set) \<Rightarrow> 'id set \<Rightarrow> 'id set" where
  "ready N E D = {n \<in> N - D. E n \<subseteq> D}"

inductive kahn ::
  "'id set \<Rightarrow> ('id \<Rightarrow> 'id set) \<Rightarrow> ('id \<Rightarrow> 'k::linorder) \<Rightarrow> 'id set \<Rightarrow> 'id list \<Rightarrow> bool"
  for N E key where
  kahn_stop: "ready N E D = {} \<Longrightarrow> kahn N E key D []"
| kahn_step: "n \<in> ready N E D \<Longrightarrow> (\<And>m. m \<in> ready N E D \<Longrightarrow> key n \<le> key m) \<Longrightarrow>
    kahn N E key (insert n D) xs \<Longrightarrow> kahn N E key D (n # xs)"

inductive_cases kahn_NilE: "kahn N E key D []"
inductive_cases kahn_ConsE: "kahn N E key D (n # xs)"

lemma kahn_unique:
  assumes "kahn N E key D xs" and "kahn N E key D ys" and "inj_on key N"
  shows "xs = ys"
  using assms
proof (induction arbitrary: ys rule: kahn.induct)
  case (kahn_stop D)
  from kahn_stop(2) show ?case by cases (use kahn_stop(1) in auto)
next
  case (kahn_step n D xs)
  from kahn_step.prems(1) show ?case
  proof cases
    case kahn_stop
    then show ?thesis using kahn_step(1) by simp
  next
    case (kahn_step m ys')
    have "key n = key m"
      using kahn_step(2,3) \<open>n \<in> ready N E D\<close> \<open>\<And>m. m \<in> ready N E D \<Longrightarrow> key n \<le> key m\<close>
      by (meson antisym)
    then have "n = m" using assms(3) \<open>n \<in> ready N E D\<close> kahn_step(2)
      by (auto simp: ready_def inj_on_def)
    then show ?thesis using kahn_step assms(3) \<open>\<And>ys. _ \<Longrightarrow> _ \<Longrightarrow> xs = ys\<close> by blast
  qed
qed

lemma kahn_sound:
  assumes "kahn N E key D xs"
  shows "distinct xs \<and> set xs \<subseteq> N - D
    \<and> (\<forall>i < length xs. E (xs ! i) \<subseteq> D \<union> set (take i xs)) \<and> ready N E (D \<union> set xs) = {}"
  using assms
proof induction
  case (kahn_stop D)
  then show ?case by simp
next
  case (kahn_step n D xs)
  have "E ((n # xs) ! i) \<subseteq> D \<union> set (take i (n # xs))" if "i < length (n # xs)" for i
    using that kahn_step.IH kahn_step(1) by (cases i) (auto simp: ready_def)
  then show ?case using kahn_step by (auto simp: ready_def)
qed

text \<open>On an acyclic graph whose edges stay inside it, every node is emitted.\<close>

lemma ready_nonempty:
  fixes rank :: "'id \<Rightarrow> nat"
  assumes "\<And>n. n \<in> N \<Longrightarrow> E n \<subseteq> N" and "\<And>n m. n \<in> N \<Longrightarrow> m \<in> E n \<Longrightarrow> rank m < rank n"
    and "\<not> N \<subseteq> D"
  shows "ready N E D \<noteq> {}"
proof -
  define n where "n = (ARG_MIN rank n. n \<in> N - D)"
  have n: "n \<in> N - D" "\<And>m. m \<in> N - D \<Longrightarrow> rank n \<le> rank m"
    using arg_min_nat_lemma [of "\<lambda>n. n \<in> N - D" _ rank] assms(3) by (auto simp: n_def)
  then have "E n \<subseteq> D" using assms(1,2) by (metis DiffD1 DiffI leD subset_iff)
  then show ?thesis using n(1) by (auto simp: ready_def)
qed

lemma kahn_complete:
  fixes rank :: "'id \<Rightarrow> nat"
  assumes "kahn N E key {} xs" and "\<And>n. n \<in> N \<Longrightarrow> E n \<subseteq> N"
    and "\<And>n m. n \<in> N \<Longrightarrow> m \<in> E n \<Longrightarrow> rank m < rank n"
  shows "set xs = N"
proof -
  have "ready N E (set xs) = {}" and "set xs \<subseteq> N" using kahn_sound [OF assms(1)] by auto
  then show ?thesis using ready_nonempty [of N E rank "set xs"] assms(2,3) by blast
qed


subsection \<open>The code refines the abstract algorithm\<close>

definition nodes :: "'id graph \<Rightarrow> 'id set" where
  "nodes g = fst ` set g"

definition edges :: "'id graph \<Rightarrow> 'id \<Rightarrow> 'id set" where
  "edges g n = set (or_default (map_of g n))"

definition wf_graph :: "'id graph \<Rightarrow> bool" where
  "wf_graph g \<longleftrightarrow> distinct (map fst g)
     \<and> (\<forall>(n, es) \<in> set g. distinct es \<and> set es \<subseteq> nodes g)"

definition tb :: "'id key_fn \<Rightarrow> 'id \<Rightarrow> 'id tie_breaker" where
  "tb key_fn n = (case key_fn n of Inr (p, t) \<Rightarrow> TieBreaker p t n | Inl _ \<Rightarrow> TieBreaker 0 0 n)"

lemma tb_event_id_tb [simp]: "tb_event_id (tb key_fn n) = n"
  by (simp add: tb_def split: sum.splits prod.splits)

lemma inj_tb: "inj (tb key_fn)"
  by (metis tb_event_id_tb injI)

definition keys_ok :: "'id graph \<Rightarrow> 'id key_fn \<Rightarrow> bool" where
  "keys_ok g key_fn \<longleftrightarrow> (\<forall>n \<in> nodes g. \<exists>k. key_fn n = Inr k)"

text \<open>An iteration order of a hash set visits each element once.\<close>

definition iteration_order :: "('a list \<Rightarrow> 'a list) \<Rightarrow> bool" where
  "iteration_order ord \<longleftrightarrow> (\<forall>xs. mset (ord xs) = mset xs)"

lemma iteration_orderD:
  assumes "iteration_order ord"
  shows "set (ord xs) = set xs" and "distinct (ord xs) \<longleftrightarrow> distinct xs"
    and "length (ord xs) = length xs"
  using assms unfolding iteration_order_def
  by (metis set_mset_mset, metis mset_eq_imp_distinct_iff, metis mset_eq_length)

lemma mset_map_inj: "inj f \<Longrightarrow> distinct xs \<Longrightarrow> mset (map f xs) = mset_set (f ` set xs)"
  by (metis distinct_map inj_on_subset list.set_map mset_set_set subset_UNIV)

lemma tie_breaker_of_ok: "key_fn n = Inr k \<Longrightarrow> tie_breaker_of key_fn n = Inr (tb key_fn n)"
  by (simp add: tie_breaker_of_def tb_def split: prod.splits)

lemma set_set_insert [simp]: "set (set_insert x xs) = insert x (set xs)"
  by (auto simp: set_insert_def)

lemma distinct_set_insert [simp]: "distinct (set_insert x xs) \<longleftrightarrow> distinct xs"
  by (simp add: set_insert_def)

lemma set_set_remove [simp]: "set (set_remove x xs) = set xs - {x}"
  by (auto simp: set_remove_def)

lemma set_insert_idem [simp]: "set_insert x (set_insert x xs) = set_insert x xs"
  by (simp add: set_insert_def)

lemma or_default_simps [simp]: "or_default None = []" "or_default (Some xs) = xs"
  by (simp_all add: or_default_def)

lemma fold_reverse_edges:
  "fold (\<lambda>edge rg. rg(edge \<mapsto> set_insert node (or_default (rg edge)))) es rg m
   = (if m \<in> set es then Some (set_insert node (or_default (rg m))) else rg m)"
  by (induction es arbitrary: rg) auto

lemma foldR_topo_init:
  assumes "\<And>n. n \<in> nodes g \<Longrightarrow> \<exists>k. key_fn n = Inr k"
  shows "\<exists>rg'. foldR (topo_init_node key_fn) g (z, rg)
      = Inr (z @ map (tb key_fn) (map fst (filter (\<lambda>(n, es). es = []) g)), rg')
    \<and> (\<forall>m. set (or_default (rg' m)) = set (or_default (rg m)) \<union> {n. \<exists>es. (n, es) \<in> set g \<and> m \<in> set es})
    \<and> (\<forall>m. m \<in> nodes g \<or> rg m \<noteq> None \<longrightarrow> rg' m \<noteq> None)
    \<and> ((\<forall>m. distinct (or_default (rg m))) \<longrightarrow> (\<forall>m. distinct (or_default (rg' m))))"
  using assms
proof (induction g arbitrary: z rg)
  case Nil
  then show ?case by (simp add: nodes_def)
next
  case (Cons entry g)
  obtain node es where entry: "entry = (node, es)" by (cases entry)
  obtain k where k: "key_fn node = Inr k" using Cons.prems [of node] entry by (auto simp: nodes_def)
  define rg1 where "rg1 = fold (\<lambda>edge rg. rg(edge \<mapsto> set_insert node (or_default (rg edge)))) es
    (rg(node \<mapsto> or_default (rg node)))"
  define z1 where "z1 = (if es = [] then z @ [tb key_fn node] else z)"
  have step: "topo_init_node key_fn entry (z, rg) = Inr (z1, rg1)"
    by (simp add: topo_init_node_def entry rg1_def z1_def tie_breaker_of_ok k)
  have rg1: "rg1 m = (if m \<in> set es then Some (set_insert node (or_default (rg m)))
      else if m = node then Some (or_default (rg m)) else rg m)" for m
    by (simp add: rg1_def fold_reverse_edges)
  have "\<And>n. n \<in> nodes g \<Longrightarrow> \<exists>k. key_fn n = Inr k" using Cons.prems by (auto simp: nodes_def)
  from Cons.IH [OF this, of z1 rg1] obtain rg' where rg': "foldR (topo_init_node key_fn) g (z1, rg1)
      = Inr (z1 @ map (tb key_fn) (map fst (filter (\<lambda>(n, es). es = []) g)), rg')"
    "\<forall>m. set (or_default (rg' m)) = set (or_default (rg1 m)) \<union> {n. \<exists>es. (n, es) \<in> set g \<and> m \<in> set es}"
    "\<forall>m. m \<in> nodes g \<or> rg1 m \<noteq> None \<longrightarrow> rg' m \<noteq> None"
    "(\<forall>m. distinct (or_default (rg1 m))) \<longrightarrow> (\<forall>m. distinct (or_default (rg' m)))"
    by blast
  show ?case
  proof (intro exI conjI)
    show "foldR (topo_init_node key_fn) (entry # g) (z, rg)
      = Inr (z @ map (tb key_fn) (map fst (filter (\<lambda>(n, es). es = []) (entry # g))), rg')"
      using step rg'(1) by (simp add: entry z1_def)
    show "\<forall>m. set (or_default (rg' m)) = set (or_default (rg m))
        \<union> {n. \<exists>es. (n, es) \<in> set (entry # g) \<and> m \<in> set es}"
      using rg'(2) by (auto simp: rg1 entry)
    show "\<forall>m. m \<in> nodes (entry # g) \<or> rg m \<noteq> None \<longrightarrow> rg' m \<noteq> None"
      using rg'(3) by (auto simp: rg1 entry nodes_def)
    show "(\<forall>m. distinct (or_default (rg m))) \<longrightarrow> (\<forall>m. distinct (or_default (rg' m)))"
      using rg'(4) by (auto simp: rg1)
  qed
qed

lemma foldR_topo_parent:
  assumes "\<And>p. p \<in> set ps \<Longrightarrow> om p \<noteq> None" and "\<And>p. p \<in> set ps \<Longrightarrow> \<exists>k. key_fn p = Inr k"
    and "distinct ps"
  shows "foldR (topo_parent key_fn node) ps (h, om)
    = Inr (rev (map (tb key_fn) (filter (\<lambda>p. set_remove node (or_default (om p)) = []) ps)) @ h,
        \<lambda>m. if m \<in> set ps then Some (set_remove node (or_default (om m))) else om m)"
  using assms
proof (induction ps arbitrary: h om)
  case Nil
  then show ?case by simp
next
  case (Cons p ps)
  obtain out where out: "om p = Some out" using Cons.prems(1) by auto
  obtain k where k: "key_fn p = Inr k" using Cons.prems(2) [of p] by auto
  define h1 where "h1 = (if set_remove node out = [] then tb key_fn p # h else h)"
  have "topo_parent key_fn node p (h, om) = Inr (h1, om(p \<mapsto> set_remove node out))"
    by (simp add: topo_parent_def out Let_def h1_def tie_breaker_of_ok k heap_push_def)
  moreover have "foldR (topo_parent key_fn node) ps (h1, om(p \<mapsto> set_remove node out))
    = Inr (rev (map (tb key_fn) (filter (\<lambda>q. set_remove node (or_default (om q)) = []) ps)) @ h1,
        \<lambda>m. if m \<in> set (p # ps) then Some (set_remove node (or_default (om m))) else om m)"
  proof -
    have f: "filter (\<lambda>q. set_remove node (or_default ((om(p \<mapsto> set_remove node out)) q)) = []) ps
        = filter (\<lambda>q. set_remove node (or_default (om q)) = []) ps"
      using Cons.prems(3) by (intro filter_cong) auto
    have "foldR (topo_parent key_fn node) ps (h1, om(p \<mapsto> set_remove node out))
      = Inr (rev (map (tb key_fn) (filter (\<lambda>q. set_remove node (or_default (om q)) = []) ps)) @ h1,
        \<lambda>m. if m \<in> set ps then Some (set_remove node (or_default ((om(p \<mapsto> set_remove node out)) m)))
          else (om(p \<mapsto> set_remove node out)) m)"
      unfolding f [symmetric] by (rule Cons.IH) (use Cons.prems in auto)
    also have "(\<lambda>m. if m \<in> set ps then Some (set_remove node (or_default ((om(p \<mapsto> set_remove node out)) m)))
          else (om(p \<mapsto> set_remove node out)) m)
      = (\<lambda>m. if m \<in> set (p # ps) then Some (set_remove node (or_default (om m))) else om m)"
      using Cons.prems(3) out by auto
    finally show ?thesis .
  qed
  ultimately show ?case by (simp add: h1_def out)
qed


text \<open>The state of the main loop after the nodes \<open>D\<close> have been emitted.\<close>

definition topo_inv ::
  "'id::linorder graph \<Rightarrow> 'id key_fn \<Rightarrow> ('id \<rightharpoonup> 'id list) \<Rightarrow> 'id set \<Rightarrow> 'id tie_breaker list
   \<Rightarrow> ('id \<rightharpoonup> 'id list) \<Rightarrow> bool" where
  "topo_inv g key_fn rg D h om \<longleftrightarrow>
     mset h = mset_set (tb key_fn ` ready (nodes g) (edges g) D)
     \<and> (\<forall>n \<in> D. edges g n \<subseteq> D)
     \<and> (\<forall>n \<in> nodes g. om n \<noteq> None \<and> set (or_default (om n)) = edges g n - D)
     \<and> (\<forall>n \<in> nodes g. rg n \<noteq> None \<and> distinct (or_default (rg n))
          \<and> set (or_default (rg n)) = {m \<in> nodes g. n \<in> edges g m})"

lemma finite_nodes [simp]: "finite (nodes g)"
  by (simp add: nodes_def)

lemma finite_ready [simp]: "finite (ready (nodes g) E D)"
  by (rule finite_subset [of _ "nodes g"]) (auto simp: ready_def)

text \<open>Emitting a node makes exactly its parents whose last edge it was ready.\<close>

lemma ready_insert:
  assumes "n \<in> ready N E D" and "\<forall>m \<in> D. E m \<subseteq> D"
  shows "ready N E (insert n D) = (ready N E D - {n}) \<union> {m \<in> N. n \<in> E m \<and> E m \<subseteq> insert n D}"
    and "(ready N E D - {n}) \<inter> {m \<in> N. n \<in> E m \<and> E m \<subseteq> insert n D} = {}"
  using assms by (auto simp: ready_def)

lemma topo_inv_pop:
  assumes "topo_inv g key_fn rg D h om" and "heap_pop h = Some (item, h')"
  defines "n \<equiv> tb_event_id item"
  shows "item = tb key_fn n \<and> n \<in> ready (nodes g) (edges g) D
    \<and> (\<forall>m \<in> ready (nodes g) (edges g) D. tb key_fn n \<le> tb key_fn m)
    \<and> mset h' = mset_set (tb key_fn ` (ready (nodes g) (edges g) D - {n}))"
proof -
  let ?R = "ready (nodes g) (edges g) D"
  have h: "mset h = mset_set (tb key_fn ` ?R)" using assms(1) by (simp add: topo_inv_def)
  have pop: "mset h = add_mset item (mset h')" "\<forall>y \<in># mset h. item \<le> y"
    using heap.pop_Some [OF assms(2)] by blast+
  have "item \<in># mset_set (tb key_fn ` ?R)" using h pop(1) by (metis union_single_eq_member)
  then obtain m where m: "m \<in> ?R" "item = tb key_fn m" by auto
  then have n: "n = m" by (simp add: n_def)
  have "tb key_fn ` ?R - {tb key_fn m} = tb key_fn ` (?R - {m})"
    using inj_tb [of key_fn] by (auto simp: inj_def)
  then have "mset h' = mset_set (tb key_fn ` (?R - {m}))"
    using h pop(1) m by (simp add: mset_set.remove [of _ "tb key_fn m"])
  then show ?thesis using m n pop(2) h by auto
qed

lemma topo_inv_step:
  assumes inv: "topo_inv g key_fn rg D h om" and pop: "heap_pop h = Some (item, h')"
    and keys: "keys_ok g key_fn" and ord: "iteration_order ord"
  shows "\<exists>parents h'' om'. rg (tb_event_id item) = Some parents
    \<and> foldR (topo_parent key_fn (tb_event_id item)) (ord parents) (h', om) = Inr (h'', om')
    \<and> topo_inv g key_fn rg (insert (tb_event_id item) D) h'' om'"
proof -
  define n where "n = tb_event_id item"
  let ?R = "ready (nodes g) (edges g) D"
  let ?new = "{m \<in> nodes g. n \<in> edges g m \<and> edges g m \<subseteq> insert n D}"
  have n: "n \<in> ?R" and h': "mset h' = mset_set (tb key_fn ` (?R - {n}))"
    using topo_inv_pop [OF inv pop] by (auto simp: n_def)
  then have nN: "n \<in> nodes g" by (simp add: ready_def)
  have closed: "\<forall>m \<in> D. edges g m \<subseteq> D" using inv by (simp add: topo_inv_def)
  have "rg n \<noteq> None \<and> distinct (or_default (rg n))
      \<and> set (or_default (rg n)) = {m \<in> nodes g. n \<in> edges g m}"
    using inv nN unfolding topo_inv_def by blast
  then obtain parents where parents: "rg n = Some parents" "distinct parents"
    "set parents = {m \<in> nodes g. n \<in> edges g m}" by auto
  have om: "om m \<noteq> None" "set (or_default (om m)) = edges g m - D" if "m \<in> nodes g" for m
    using inv that by (auto simp: topo_inv_def)
  have ordset: "set (ord parents) = set parents" "distinct (ord parents)"
    using iteration_orderD [OF ord] parents(2) by auto
  define added where
    "added = filter (\<lambda>p. set_remove n (or_default (om p)) = []) (ord parents)"
  define om' where
    "om' = (\<lambda>m. if m \<in> set (ord parents) then Some (set_remove n (or_default (om m))) else om m)"
  have run: "foldR (topo_parent key_fn n) (ord parents) (h', om)
      = Inr (rev (map (tb key_fn) added) @ h', om')"
    unfolding added_def om'_def
    by (rule foldR_topo_parent) (use ordset parents om keys in \<open>auto simp: keys_ok_def\<close>)
  have "set_remove n (or_default (om p)) = [] \<longleftrightarrow> edges g p \<subseteq> insert n D"
    if "p \<in> nodes g" for p
  proof -
    have "set_remove n (or_default (om p)) = [] \<longleftrightarrow> set (set_remove n (or_default (om p))) = {}"
      by (simp only: set_empty)
    then show ?thesis using om(2) [OF that] by auto
  qed
  then have added: "set added = ?new" "distinct added"
    using ordset parents(3) by (auto simp: added_def)
  have "mset (rev (map (tb key_fn) added) @ h')
      = mset_set (tb key_fn ` ?new) + mset_set (tb key_fn ` (?R - {n}))"
    using mset_map_inj [OF inj_tb added(2)] added(1) h' by simp
  also have "\<dots> = mset_set (tb key_fn ` ready (nodes g) (edges g) (insert n D))"
  proof -
    have "tb key_fn ` ?new \<inter> tb key_fn ` (?R - {n}) = {}"
      using ready_insert(2) [OF n closed] inj_tb [of key_fn] by (auto dest: injD)
    then show ?thesis
      by (simp add: ready_insert(1) [OF n closed] image_Un mset_set_Union Int_commute
          add.commute)
  qed
  finally have heap: "mset (rev (map (tb key_fn) added) @ h')
      = mset_set (tb key_fn ` ready (nodes g) (edges g) (insert n D))" .
  have "topo_inv g key_fn rg (insert n D) (rev (map (tb key_fn) added) @ h') om'"
    unfolding topo_inv_def
  proof (intro conjI ballI)
    show "mset (rev (map (tb key_fn) added) @ h')
      = mset_set (tb key_fn ` ready (nodes g) (edges g) (insert n D))" by (rule heap)
    show "edges g m \<subseteq> insert n D" if "m \<in> insert n D" for m
      using that closed n by (auto simp: ready_def)
    fix m assume m: "m \<in> nodes g"
    show "om' m \<noteq> None" using om(1) [OF m] by (simp add: om'_def)
    show "set (or_default (om' m)) = edges g m - insert n D"
      using om(2) [OF m] ordset parents(3) m by (auto simp: om'_def)
    show "rg m \<noteq> None" "distinct (or_default (rg m))"
      "set (or_default (rg m)) = {p \<in> nodes g. m \<in> edges g p}"
      using inv m by (auto simp: topo_inv_def)
  qed
  then show ?thesis using parents(1) run unfolding n_def by blast
qed

lemma topo_loop_kahn:
  assumes "topo_inv g key_fn rg D h om" and "card (nodes g - D) \<le> fuel"
    and keys: "keys_ok g key_fn" and ord: "iteration_order ord"
  shows "\<exists>xs. topo_loop fuel key_fn ord rg h om acc = Inr (acc @ xs)
    \<and> kahn (nodes g) (edges g) (tb key_fn) D xs"
  using assms(1,2)
proof (induction fuel arbitrary: D h om acc)
  case 0
  then have "nodes g \<subseteq> D" by simp
  then have "ready (nodes g) (edges g) D = {}" by (auto simp: ready_def)
  moreover from this have "h = []" using 0(1) by (simp add: topo_inv_def)
  ultimately show ?case by (auto intro: kahn_stop)
next
  case (Suc fuel)
  show ?case
  proof (cases "heap_pop h")
    case None
    then have "ready (nodes g) (edges g) D = {}"
      using Suc.prems(1) heap.pop_None [of h] by (simp add: topo_inv_def mset_set_empty_iff)
    then show ?thesis using None by (auto intro: kahn_stop)
  next
    case (Some a)
    then obtain item h' where pop: "heap_pop h = Some (item, h')" by (cases a) auto
    let ?n = "tb_event_id item"
    have n: "?n \<in> ready (nodes g) (edges g) D"
      "\<And>m. m \<in> ready (nodes g) (edges g) D \<Longrightarrow> tb key_fn ?n \<le> tb key_fn m"
      using topo_inv_pop [OF Suc.prems(1) pop] by auto
    obtain parents h'' om' where step: "rg ?n = Some parents"
      "foldR (topo_parent key_fn ?n) (ord parents) (h', om) = Inr (h'', om')"
      "topo_inv g key_fn rg (insert ?n D) h'' om'"
      using topo_inv_step [OF Suc.prems(1) pop keys ord] by blast
    have "card (nodes g - insert ?n D) < card (nodes g - D)"
      using n(1) by (intro psubset_card_mono) (auto simp: ready_def)
    then have "card (nodes g - insert ?n D) \<le> fuel" using Suc.prems(2) by simp
    from Suc.IH [OF step(3) this, of "acc @ [?n]"] obtain xs where
      "topo_loop fuel key_fn ord rg h'' om' (acc @ [?n]) = Inr (acc @ ?n # xs)"
      "kahn (nodes g) (edges g) (tb key_fn) (insert ?n D) xs" by auto
    then show ?thesis using pop step(1,2) kahn_step [of ?n _ _ D "tb key_fn" xs] n by (auto simp: Let_def)
  qed
qed

lemma edges_eq: "wf_graph g \<Longrightarrow> (n, es) \<in> set g \<Longrightarrow> edges g n = set es"
  by (simp add: wf_graph_def edges_def)

lemma edges_iff: "wf_graph g \<Longrightarrow> m \<in> edges g n \<longleftrightarrow> (\<exists>es. (n, es) \<in> set g \<and> m \<in> set es)"
  by (auto simp: wf_graph_def edges_def or_default_def map_of_eq_None_iff dest: map_of_SomeD
      split: option.splits)

lemma edges_closed: "wf_graph g \<Longrightarrow> edges g n \<subseteq> nodes g"
  using edges_iff by (fastforce simp: wf_graph_def)

lemma topo_inv_init:
  assumes "wf_graph g" and "keys_ok g key_fn"
  shows "\<exists>z rg. foldR (topo_init_node key_fn) g ([], Map.empty) = Inr (z, rg)
    \<and> topo_inv g key_fn rg {} z (map_of g)"
proof -
  define z where "z = map (tb key_fn) (map fst (filter (\<lambda>(n, es). es = []) g))"
  obtain rg where rg: "foldR (topo_init_node key_fn) g ([], Map.empty) = Inr (z, rg)"
    "\<forall>m. set (or_default (rg m)) = {n. \<exists>es. (n, es) \<in> set g \<and> m \<in> set es}"
    "\<forall>m. m \<in> nodes g \<longrightarrow> rg m \<noteq> None" "\<forall>m. distinct (or_default (rg m))"
    using foldR_topo_init [of g key_fn "[]" Map.empty] assms(2) by (auto simp: z_def keys_ok_def)
  have dist: "distinct (map fst g)" using assms(1) by (simp add: wf_graph_def)
  have "set (map fst (filter (\<lambda>(n, es). es = []) g)) = ready (nodes g) (edges g) {}"
  proof (rule set_eqI)
    fix n
    have "n \<in> set (map fst (filter (\<lambda>(n, es). es = []) g)) \<longleftrightarrow> (n, []) \<in> set g" by force
    also have "\<dots> \<longleftrightarrow> (\<exists>es. (n, es) \<in> set g \<and> edges g n = {})"
      using edges_eq [OF assms(1), of n] by (metis set_empty)
    also have "\<dots> \<longleftrightarrow> n \<in> ready (nodes g) (edges g) {}" by (force simp: ready_def nodes_def)
    finally show "n \<in> set (map fst (filter (\<lambda>(n, es). es = []) g))
      \<longleftrightarrow> n \<in> ready (nodes g) (edges g) {}" .
  qed
  moreover have "distinct (map fst (filter (\<lambda>(n, es). es = []) g))"
    using dist by (rule distinct_map_filter)
  ultimately have z: "mset z = mset_set (tb key_fn ` ready (nodes g) (edges g) {})"
    unfolding z_def by (metis mset_map_inj inj_tb)
  have "topo_inv g key_fn rg {} z (map_of g)"
    unfolding topo_inv_def
  proof (intro conjI ballI)
    show "mset z = mset_set (tb key_fn ` ready (nodes g) (edges g) {})" by (rule z)
    show "edges g n \<subseteq> {}" if "n \<in> {}" for n using that by simp
    fix n assume n: "n \<in> nodes g"
    show "map_of g n \<noteq> None" using n by (simp add: nodes_def map_of_eq_None_iff)
    show "set (or_default (map_of g n)) = edges g n - {}" by (simp add: edges_def)
    show "rg n \<noteq> None" "distinct (or_default (rg n))" using rg n by auto
    show "set (or_default (rg n)) = {m \<in> nodes g. n \<in> edges g m}"
      using rg(2) edges_iff [OF assms(1)] by (force simp: nodes_def)
  qed
  then show ?thesis using rg(1) by blast
qed

text \<open>The sort returns, without running out of fuel, what the abstract algorithm emits.\<close>

lemma lexicographical_topological_sort_kahn:
  assumes "wf_graph g" and "keys_ok g key_fn" and "iteration_order ord"
  shows "\<exists>xs. lexicographical_topological_sort ord g key_fn = Inr xs
    \<and> kahn (nodes g) (edges g) (tb key_fn) {} xs"
proof -
  obtain z rg where init: "foldR (topo_init_node key_fn) g ([], Map.empty) = Inr (z, rg)"
    "topo_inv g key_fn rg {} z (map_of g)" using topo_inv_init [OF assms(1,2)] by blast
  have "card (nodes g - {}) \<le> length g" by (simp add: nodes_def card_length [of "map fst g", simplified])
  from topo_loop_kahn [OF init(2) this assms(2,3), of "[]"] show ?thesis
    using init(1) by (simp add: lexicographical_topological_sort_def)
qed


subsection \<open>Keys that cannot be computed\<close>

text \<open>
  When a key fails, the sort fails with the error of that key; otherwise it is the sort with
  total keys. So the sort never runs out of fuel and only ever returns nodes of the graph.
\<close>

definition total_key :: "'id key_fn \<Rightarrow> 'id key_fn" where
  "total_key key_fn n = (case key_fn n of Inr k \<Rightarrow> Inr k | Inl _ \<Rightarrow> Inr (0, 0))"

definition agrees :: "'id key_fn \<Rightarrow> 'a result \<Rightarrow> 'a result \<Rightarrow> bool" where
  "agrees key_fn r r' \<longleftrightarrow> r = r' \<or> (\<exists>n e. key_fn n = Inl e \<and> r = Inl e)"

lemma agrees_refl [intro!]: "agrees key_fn r r"
  by (simp add: agrees_def)

lemma agrees_bindR:
  assumes "agrees key_fn m m'" and "\<And>x. m = Inr x \<Longrightarrow> agrees key_fn (f x) (f' x)"
  shows "agrees key_fn (bindR m f) (bindR m' f')"
proof (cases m)
  case (Inl e)
  then show ?thesis using assms(1) by (auto simp: agrees_def)
next
  case (Inr x)
  then have "m' = Inr x" using assms(1) by (auto simp: agrees_def)
  then show ?thesis using assms(2) [OF Inr] Inr by simp
qed

lemma agrees_foldR:
  assumes "\<And>x s. agrees key_fn (f x s) (f' x s)"
  shows "agrees key_fn (foldR f xs s) (foldR f' xs s)"
proof (induction xs arbitrary: s)
  case Nil
  then show ?case by auto
next
  case (Cons x xs)
  then show ?case unfolding foldR.simps by (intro agrees_bindR assms)
qed

lemma agrees_tie_breaker: "agrees key_fn (tie_breaker_of key_fn n) (tie_breaker_of (total_key key_fn) n)"
  by (cases "key_fn n") (auto simp: tie_breaker_of_def total_key_def agrees_def)

lemma agrees_if:
  "(b \<Longrightarrow> agrees key_fn r r') \<Longrightarrow> (\<not> b \<Longrightarrow> agrees key_fn s s') \<Longrightarrow>
   agrees key_fn (if b then r else s) (if b then r' else s')"
  by simp

lemma agrees_case_prod:
  "(\<And>x y. agrees key_fn (f x y) (f' x y)) \<Longrightarrow>
   agrees key_fn (case p of (x, y) \<Rightarrow> f x y) (case p of (x, y) \<Rightarrow> f' x y)"
  by (cases p) simp

lemmas agrees_intros = agrees_refl agrees_bindR agrees_foldR agrees_tie_breaker agrees_if agrees_case_prod

lemma agrees_parent:
  "agrees key_fn (topo_parent key_fn node p st) (topo_parent (total_key key_fn) node p st)"
  unfolding topo_parent_def Let_def by (intro agrees_intros)

lemma agrees_init:
  "agrees key_fn (topo_init_node key_fn e st) (topo_init_node (total_key key_fn) e st)"
  unfolding topo_init_node_def Let_def by (intro agrees_intros)

lemma agrees_loop:
  "agrees key_fn (topo_loop fuel key_fn ord rg h om acc) (topo_loop fuel (total_key key_fn) ord rg h om acc)"
proof (induction fuel arbitrary: h om acc)
  case 0
  then show ?case by auto
next
  case (Suc fuel)
  show ?case
  proof (cases "heap_pop h")
    case None
    then show ?thesis by auto
  next
    case (Some a)
    then show ?thesis unfolding topo_loop.simps Let_def Some option.case
      by (intro agrees_intros agrees_parent Suc.IH)
  qed
qed

lemma agrees_sort:
  "agrees key_fn (lexicographical_topological_sort ord g key_fn)
     (lexicographical_topological_sort ord g (total_key key_fn))"
  unfolding lexicographical_topological_sort_def by (intro agrees_intros agrees_init agrees_loop)

lemma keys_ok_total: "keys_ok g (total_key key_fn)"
  by (simp add: keys_ok_def total_key_def split: sum.splits)

lemma sort_nodes:
  assumes "wf_graph g" and "iteration_order ord"
    and "lexicographical_topological_sort ord g key_fn = Inr xs"
  shows "distinct xs \<and> set xs \<subseteq> nodes g"
proof -
  have "lexicographical_topological_sort ord g (total_key key_fn) = Inr xs"
    using agrees_sort [of key_fn ord g] assms(3) by (auto simp: agrees_def)
  then have "kahn (nodes g) (edges g) (tb (total_key key_fn)) {} xs"
    using lexicographical_topological_sort_kahn [OF assms(1) keys_ok_total assms(2), of key_fn] by auto
  then show ?thesis using kahn_sound by fastforce
qed

lemma sort_fuel:
  assumes "wf_graph g" and "iteration_order ord" and "\<And>n. key_fn n \<noteq> Inl OutOfFuel"
  shows "lexicographical_topological_sort ord g key_fn \<noteq> Inl OutOfFuel"
  using agrees_sort [of key_fn ord g] assms(3)
    lexicographical_topological_sort_kahn [OF assms(1) keys_ok_total assms(2), of key_fn]
  by (auto simp: agrees_def)

subsection \<open>Properties\<close>

text \<open>Each emitted node precedes the nodes that were already ready when it was emitted.\<close>

lemma kahn_least:
  assumes "kahn N E key D xs" and "i < j" and "j < length xs"
    and "E (xs ! j) \<subseteq> D \<union> set (take i xs)"
  shows "key (xs ! i) \<le> key (xs ! j)"
  using assms
proof (induction arbitrary: i j)
  case (kahn_stop D)
  then show ?case by simp
next
  case (kahn_step n D xs)
  obtain j' where j: "j = Suc j'" using kahn_step.prems(1) by (cases j) auto
  have sound: "set xs \<subseteq> N - insert n D" using kahn_sound [OF kahn_step.hyps(3)] by blast
  show ?case
  proof (cases i)
    case 0
    have "xs ! j' \<in> set xs" using kahn_step.prems(2) j by simp
    then have "xs ! j' \<in> ready N E D"
      using sound kahn_step.prems(3) 0 j by (auto simp: ready_def)
    then show ?thesis using kahn_step.hyps(2) 0 j by simp
  next
    case (Suc i')
    then show ?thesis using kahn_step.IH [of i' j'] kahn_step.prems j by auto
  qed
qed

text \<open>C19. On an acyclic graph the sort returns: it emits every event once, every event after
  the events it refers to, and among the events that could come next always the one with the
  greatest power level, then the earliest timestamp, then the least id.\<close>

theorem topological_sort_correct:
  fixes rank :: "'id::linorder \<Rightarrow> nat"
  assumes "wf_graph g" and "keys_ok g key_fn" and "iteration_order ord"
    and "\<forall>n \<in> nodes g. \<forall>m \<in> edges g n. rank m < rank n"
  shows "\<exists>xs. lexicographical_topological_sort ord g key_fn = Inr xs
    \<and> distinct xs \<and> set xs = nodes g
    \<and> (\<forall>i < length xs. edges g (xs ! i) \<subseteq> set (take i xs))
    \<and> (\<forall>i j. i < j \<and> j < length xs \<and> edges g (xs ! j) \<subseteq> set (take i xs) \<longrightarrow>
         tb key_fn (xs ! i) < tb key_fn (xs ! j))"
proof -
  obtain xs where xs: "lexicographical_topological_sort ord g key_fn = Inr xs"
    "kahn (nodes g) (edges g) (tb key_fn) {} xs"
    using lexicographical_topological_sort_kahn [OF assms(1-3)] by blast
  note sound = kahn_sound [OF xs(2)]
  have "tb key_fn (xs ! i) < tb key_fn (xs ! j)"
    if "i < j" "j < length xs" "edges g (xs ! j) \<subseteq> set (take i xs)" for i j
  proof -
    have "xs ! i \<noteq> xs ! j" using that sound by (simp add: nth_eq_iff_index_eq)
    then have "tb key_fn (xs ! i) \<noteq> tb key_fn (xs ! j)" using inj_tb [of key_fn] by (metis injD)
    then show ?thesis using kahn_least [OF xs(2) that(1,2)] that(3) by simp
  qed
  moreover have "set xs = nodes g"
    using kahn_complete [OF xs(2) edges_closed [OF assms(1)], of rank] assms(4) by blast
  ultimately show ?thesis using xs(1) sound by (intro exI [of _ xs]) auto
qed

definition sample_graph :: "string graph" where
  "sample_graph = [(''o'', [''n'', ''m'']), (''l'', []), (''n'', [''l'']), (''m'', [''l'']), (''p'', [''o''])]"

definition sample_key :: "string key_fn" where
  "sample_key i = Inr (if i = ''m'' then 50 else 0, length i)"

theorem topological_sort_correct_witness:
  "\<exists>xs. lexicographical_topological_sort rev sample_graph sample_key = Inr xs
     \<and> distinct xs \<and> set xs = nodes sample_graph \<and> xs = [''l'', ''m'', ''n'', ''o'', ''p'']"
proof -
  let ?rank = "\<lambda>n. if n = ''l'' then 0 else if n = ''m'' \<or> n = ''n'' then 1
    else if n = ''o'' then 2 else (3 :: nat)"
  have "wf_graph sample_graph"
    and "\<forall>n \<in> nodes sample_graph. \<forall>m \<in> edges sample_graph n. ?rank m < ?rank n"
    by (simp_all add: wf_graph_def nodes_def edges_def sample_graph_def)
  moreover have "keys_ok sample_graph sample_key" by (simp add: keys_ok_def sample_key_def)
  moreover have "iteration_order (rev :: string list \<Rightarrow> string list)"
    by (simp add: iteration_order_def)
  moreover have "lexicographical_topological_sort rev sample_graph sample_key
      = Inr [''l'', ''m'', ''n'', ''o'', ''p'']" by code_simp
  ultimately show ?thesis
    using topological_sort_correct [of sample_graph sample_key rev ?rank] by (metis sum.inject(2))
qed

text \<open>The sort depends only on the events, their references and their keys: two hash maps
  with the same contents give the same list, in whatever order they and their sets are
  iterated.\<close>

lemma topological_sort_deterministic:
  assumes "wf_graph g" and "wf_graph g'" and "nodes g = nodes g'"
    and "\<forall>n \<in> nodes g. edges g n = edges g' n"
    and "keys_ok g key_fn" and "iteration_order ord" and "iteration_order ord'"
  shows "lexicographical_topological_sort ord g key_fn
    = lexicographical_topological_sort ord' g' key_fn"
proof -
  have "edges g n = edges g' n" for n
  proof (cases "n \<in> nodes g")
    case False
    then show ?thesis using assms(3)
      by (metis edges_def map_of_eq_None_iff nodes_def)
  qed (use assms(4) in simp)
  then have E: "edges g = edges g'" by auto
  have "keys_ok g' key_fn" using assms(3,5) by (simp add: keys_ok_def)
  then obtain xs ys where
    "lexicographical_topological_sort ord g key_fn = Inr xs"
    "kahn (nodes g) (edges g) (tb key_fn) {} xs"
    "lexicographical_topological_sort ord' g' key_fn = Inr ys"
    "kahn (nodes g) (edges g) (tb key_fn) {} ys"
    using lexicographical_topological_sort_kahn [OF assms(1,5,6)]
      lexicographical_topological_sort_kahn [OF assms(2) _ assms(7)] assms(3) E by metis
  then show ?thesis using kahn_unique inj_tb by (metis inj_on_subset subset_UNIV)
qed

theorem topological_sort_deterministic_witness:
  "lexicographical_topological_sort rev sample_graph sample_key
   = lexicographical_topological_sort id (rev sample_graph) sample_key"
proof (rule topological_sort_deterministic)
  show "wf_graph sample_graph" "wf_graph (rev sample_graph)"
    by (simp_all add: wf_graph_def nodes_def sample_graph_def)
  show "nodes sample_graph = nodes (rev sample_graph)" by (simp add: nodes_def)
  show "\<forall>n \<in> nodes sample_graph. edges sample_graph n = edges (rev sample_graph) n"
    by (simp add: nodes_def edges_def sample_graph_def)
  show "keys_ok sample_graph sample_key" by (simp add: keys_ok_def sample_key_def)
  show "iteration_order (rev :: string list \<Rightarrow> string list)"
    "iteration_order (id :: string list \<Rightarrow> string list)" by (simp_all add: iteration_order_def)
qed

end
