(* ===== verification/StateSets.thy ===== *)
theory StateSets
  imports TopoSort "HOL-Library.AList"
begin

text \<open>
  The first step of state resolution (\<open>src/src/core/matrix/state_res/mod.rs\<close>): splitting
  the state maps of several branches into conflicted and unconflicted entries, and the
  difference of the auth chains. Also the conventions for hash maps and concurrent streams.
\<close>

subsection \<open>Hash orders and arrival orders\<close>

text \<open>
  A \<open>HashMap\<close> is the list of its entries and a \<open>HashSet\<close> the list of its elements, in the
  order of insertion. The order in which they are iterated is arbitrary, and so is the order
  in which the futures of a \<open>broad_\<close> stream complete (\<open>buffer_unordered\<close>); the \<open>wide_\<close>
  streams keep their order (\<open>buffered\<close>). A \<open>sched\<close> fixes these choices.
\<close>

record sched =
  ids_order :: "string list \<Rightarrow> string list"
  keys_order :: "type_state_key list \<Rightarrow> type_state_key list"
  arrival :: "string list \<Rightarrow> string list"

definition fair_sched :: "sched \<Rightarrow> bool" where
  "fair_sched S \<longleftrightarrow> iteration_order (ids_order S) \<and> iteration_order (keys_order S)
     \<and> iteration_order (arrival S)"

definition iter_map :: "('k list \<Rightarrow> 'k list) \<Rightarrow> ('k \<times> 'v) list \<Rightarrow> ('k \<times> 'v) list" where
  "iter_map ord m = map (\<lambda>k. (k, the (map_of m k))) (ord (map fst m))"

type_synonym 'c fetch = "string \<Rightarrow> 'c pdu option"
type_synonym state_map = "(type_state_key \<times> string) list"

definition auth_ids :: "'c fetch \<Rightarrow> string \<Rightarrow> string list" where
  "auth_ids fetch e = (case fetch e of None \<Rightarrow> [] | Some ev \<Rightarrow> ev_auth_events ev)"

subsection \<open>Conflicted and unconflicted state\<close>

definition count_occurrence ::
  "'k \<times> 'id \<Rightarrow> ('k \<times> ('id \<times> nat) list) list \<Rightarrow> ('k \<times> ('id \<times> nat) list) list" where
  "count_occurrence entry occurrences =
     (case entry of (k, v) \<Rightarrow>
        (let ids = or_default (map_of occurrences k)
         in AList.update k
              (AList.update v
                 (case map_of ids v of Some x \<Rightarrow> saturating_add_usize x 1 | None \<Rightarrow> 1) ids)
              occurrences))"

definition separate_id ::
  "nat \<Rightarrow> 'k \<Rightarrow> 'id \<times> nat \<Rightarrow> ('k \<times> 'id) list \<times> ('k \<times> 'id list) list
   \<Rightarrow> ('k \<times> 'id) list \<times> ('k \<times> 'id list) list" where
  "separate_id state_set_count k entry st =
     (case (entry, st) of ((i, occurrence_count), (unconflicted_state, conflicted_state)) \<Rightarrow>
        if occurrence_count = state_set_count
        then (AList.update k i unconflicted_state, conflicted_state)
        else (unconflicted_state,
              AList.update k (or_default (map_of conflicted_state k) @ [i]) conflicted_state))"

definition separate ::
  "sched \<Rightarrow> state_map list \<Rightarrow> state_map \<times> (type_state_key \<times> string list) list" where
  "separate S state_sets =
     (let state_set_count = fold (\<lambda>_ n. saturating_add_usize n 1) state_sets 0;
          occurrences = fold count_occurrence (concat state_sets) []
      in fold (\<lambda>(k, v). fold (separate_id state_set_count k) (iter_map (ids_order S) v))
           (iter_map (keys_order S) occurrences) ([], []))"

subsection \<open>The auth chain difference\<close>

definition get_auth_chain_diff :: "sched \<Rightarrow> string list list \<Rightarrow> string list" where
  "get_auth_chain_diff S auth_chain_sets =
     (let num_sets = length auth_chain_sets;
          id_counts = fold (\<lambda>i m. AList.update i
             (wrapping_inc_usize (case map_of m i of Some n \<Rightarrow> n | None \<Rightarrow> 0)) m) (concat auth_chain_sets) []
      in map fst (filter (\<lambda>(i, count). count < num_sets) (iter_map (ids_order S) id_counts)))"

subsection \<open>What \<open>separate\<close> computes\<close>

definition occ_count :: "('k \<times> ('id \<times> nat) list) list \<Rightarrow> 'k \<Rightarrow> 'id \<Rightarrow> nat" where
  "occ_count occ k v = (case map_of (or_default (map_of occ k)) v of None \<Rightarrow> 0 | Some n \<Rightarrow> n)"

text \<open>The maps hold each key once, and the counters count without wrapping.\<close>

definition occ_inv :: "('k \<times> 'id) list \<Rightarrow> ('k \<times> ('id \<times> nat) list) list \<Rightarrow> bool" where
  "occ_inv xs occ \<longleftrightarrow> distinct (map fst occ) \<and> (\<forall>k. distinct (map fst (or_default (map_of occ k))))
     \<and> (\<forall>k. k \<in> fst ` set occ \<longleftrightarrow> k \<in> fst ` set xs)
     \<and> (\<forall>k v. v \<in> fst ` set (or_default (map_of occ k)) \<longleftrightarrow> (k, v) \<in> set xs)
     \<and> (\<forall>k v. occ_count occ k v = min (count_list xs (k, v)) usize_max)"

lemma update_keys [simp]: "fst ` set (AList.update k v m) = insert k (fst ` set m)"
  using AList.dom_update [of k v m] by (simp add: dom_map_of_conv_image_fst)

lemma count_occurrence_inv:
  assumes "occ_inv xs occ"
  shows "occ_inv (xs @ [x]) (count_occurrence x occ)"
proof -
  obtain k v where x: "x = (k, v)" by (cases x)
  let ?ids = "or_default (map_of occ k)"
  let ?n = "case map_of ?ids v of Some x \<Rightarrow> saturating_add_usize x 1 | None \<Rightarrow> 1"
  have occ: "count_occurrence x occ = AList.update k (AList.update v ?n ?ids) occ"
    by (simp add: count_occurrence_def x Let_def)
  have get: "or_default (map_of (count_occurrence x occ) k')
      = (if k' = k then AList.update v ?n ?ids else or_default (map_of occ k'))" for k'
    by (simp add: occ update_conv')
  have old: "occ_count occ k v = min (count_list xs (k, v)) usize_max"
    using assms unfolding occ_inv_def by blast
  have n: "?n = min (Suc (count_list xs (k, v))) usize_max"
  proof (cases "map_of ?ids v")
    case None
    then have "occ_count occ k v = 0" by (simp add: occ_count_def)
    then show ?thesis using None old by simp
  next
    case (Some m)
    then have "occ_count occ k v = m" by (simp add: occ_count_def)
    then show ?thesis using Some old by (simp add: saturating_add_usize_def)
  qed
  have "occ_count (count_occurrence x occ) k' v'
      = (if k' = k \<and> v' = v then ?n else occ_count occ k' v')" for k' v'
    unfolding occ_count_def get by (simp add: update_conv')
  then have "occ_count (count_occurrence x occ) k' v'
      = min (count_list (xs @ [x]) (k', v')) usize_max" for k' v'
    using assms n by (simp add: occ_inv_def x count_list_append)
  moreover have "distinct (map fst (count_occurrence x occ))"
    using assms by (simp add: occ_inv_def occ distinct_update)
  moreover have "distinct (map fst (or_default (map_of (count_occurrence x occ) k')))" for k'
    using assms by (simp add: occ_inv_def get distinct_update)
  moreover have "k' \<in> fst ` set (count_occurrence x occ) \<longleftrightarrow> k' \<in> fst ` set (xs @ [x])" for k'
    unfolding occ using assms by (simp add: occ_inv_def x)
  moreover have "v' \<in> fst ` set (or_default (map_of (count_occurrence x occ) k'))
      \<longleftrightarrow> (k', v') \<in> set (xs @ [x])" for k' v'
    unfolding get using assms by (auto simp: occ_inv_def x)
  ultimately show ?thesis unfolding occ_inv_def by blast
qed

lemma occurrences_inv: "occ_inv xs (fold count_occurrence xs [])"
proof (induction xs rule: rev_induct)
  case Nil
  then show ?case by (simp add: occ_inv_def occ_count_def)
next
  case (snoc x xs)
  then show ?case using count_occurrence_inv by simp
qed

lemma iter_map_keys: "map fst (iter_map ord m) = ord (map fst m)"
  by (simp add: iter_map_def comp_def)

lemma set_iter_map:
  assumes "iteration_order ord" and "distinct (map fst m)"
  shows "set (iter_map ord m) = set m"
  using assms iteration_orderD(1) [OF assms(1), of "map fst m"]
  by (force simp: iter_map_def)

lemma map_of_iter_map:
  assumes "iteration_order ord" and "distinct (map fst m)"
  shows "map_of (iter_map ord m) = map_of m"
proof -
  have "distinct (map fst (iter_map ord m))"
    using assms by (simp add: iter_map_keys iteration_orderD)
  then show ?thesis using assms set_iter_map map_of_inject_set by metis
qed

text \<open>The entries of one key.\<close>

abbreviation hits :: "nat \<Rightarrow> ('id \<times> nat) list \<Rightarrow> 'id list" where
  "hits n es \<equiv> map fst (filter (\<lambda>(i, m). m = n) es)"

abbreviation misses :: "nat \<Rightarrow> ('id \<times> nat) list \<Rightarrow> 'id list" where
  "misses n es \<equiv> map fst (filter (\<lambda>(i, m). m \<noteq> n) es)"

lemma fold_separate_id:
  assumes "fold (separate_id n k) es (u, c) = (u', c')"
  shows "map_of u' = (if hits n es = [] then map_of u else (map_of u)(k \<mapsto> last (hits n es)))
    \<and> map_of c' = (if misses n es = [] then map_of c
        else (map_of c)(k \<mapsto> or_default (map_of c k) @ misses n es))
    \<and> (distinct (map fst c) \<longrightarrow> distinct (map fst c'))
    \<and> (distinct (map fst u) \<longrightarrow> distinct (map fst u'))"
  using assms
proof (induction es arbitrary: u c)
  case Nil
  then show ?case by simp
next
  case (Cons e es)
  obtain u1 c1 where one: "separate_id n k e (u, c) = (u1, c1)" by (cases "separate_id n k e (u, c)")
  have d: "distinct (map fst c) \<longrightarrow> distinct (map fst c1)" "distinct (map fst u) \<longrightarrow> distinct (map fst u1)"
    using one by (auto simp: separate_id_def distinct_update split: prod.splits if_splits)
  have "fold (separate_id n k) es (u1, c1) = (u', c')" using Cons.prems one by simp
  note IH = Cons.IH [OF this]
  show ?case
  proof (cases "snd e = n")
    case True
    then have "u1 = AList.update k (fst e) u" "c1 = c"
      using one by (auto simp: separate_id_def split: prod.splits)
    then show ?thesis using IH d True by (auto simp: update_conv' split: prod.splits)
  next
    case False
    then have "u1 = u" "c1 = AList.update k (or_default (map_of c k) @ [fst e]) c"
      using one by (auto simp: separate_id_def split: prod.splits)
    then show ?thesis using IH d False by (auto simp: update_conv' split: prod.splits)
  qed
qed

lemma fold_separate:
  assumes "fold (\<lambda>(k, v). fold (separate_id n k) (f v)) ys (u, c) = (u', c')"
    and "distinct (map fst ys)" and "fst ` set ys \<inter> fst ` set u = {}"
    and "fst ` set ys \<inter> fst ` set c = {}"
  shows "map_of u' k = (case map_of ys k of None \<Rightarrow> map_of u k
      | Some v \<Rightarrow> if hits n (f v) = [] then None else Some (last (hits n (f v))))
    \<and> map_of c' k = (case map_of ys k of None \<Rightarrow> map_of c k
      | Some v \<Rightarrow> if misses n (f v) = [] then None else Some (misses n (f v)))
    \<and> (distinct (map fst c) \<longrightarrow> distinct (map fst c'))
    \<and> (distinct (map fst u) \<longrightarrow> distinct (map fst u'))"
  using assms
proof (induction ys arbitrary: u c)
  case Nil
  then show ?case by simp
next
  case (Cons y ys)
  obtain k1 v1 where y: "y = (k1, v1)" by (cases y)
  obtain u1 c1 where one: "fold (separate_id n k1) (f v1) (u, c) = (u1, c1)"
    by (cases "fold (separate_id n k1) (f v1) (u, c)")
  note r = fold_separate_id [OF one]
  have free: "map_of u k1 = None" "map_of c k1 = None"
    using Cons.prems(3,4) y by (auto simp: map_of_eq_None_iff)
  have dom: "dom (map_of u1) \<subseteq> insert k1 (dom (map_of u))" "dom (map_of c1) \<subseteq> insert k1 (dom (map_of c))"
    using r by auto
  then have "fst ` set u1 \<subseteq> insert k1 (fst ` set u)" "fst ` set c1 \<subseteq> insert k1 (fst ` set c)"
    by (simp_all only: dom_map_of_conv_image_fst)
  moreover have "k1 \<notin> fst ` set ys" using Cons.prems(2) y by simp
  moreover have p3: "fst ` set ys \<inter> fst ` set u = {}" "fst ` set ys \<inter> fst ` set c = {}"
    using Cons.prems(3,4) by auto
  ultimately have disj: "fst ` set ys \<inter> fst ` set u1 = {}" "fst ` set ys \<inter> fst ` set c1 = {}"
    by (simp_all add: disjoint_iff) (metis insertE subsetD)+
  have "fold (\<lambda>(k, v). fold (separate_id n k) (f v)) ys (u1, c1) = (u', c')"
    using Cons.prems(1) one y by simp
  note IH = Cons.IH [OF this _ disj]
  have k1: "k = k1 \<Longrightarrow> map_of ys k = None"
    using Cons.prems(2) y by (auto simp: map_of_eq_None_iff)
  have k: "map_of u1 k = (if k = k1 then if hits n (f v1) = [] then None else Some (last (hits n (f v1)))
      else map_of u k)"
    "map_of c1 k = (if k = k1 then if misses n (f v1) = [] then None else Some (misses n (f v1))
      else map_of c k)"
    using r free by simp_all
  have dist: "distinct (map fst ys)" using Cons.prems(2) by simp
  have "distinct (map fst c) \<longrightarrow> distinct (map fst c1)" "distinct (map fst u) \<longrightarrow> distinct (map fst u1)"
    using r by blast+
  then show ?case using IH [OF dist] k k1 unfolding y
    by (cases "k = k1"; cases "map_of ys k") auto
qed

lemma state_set_count:
  "fold (\<lambda>_ n. saturating_add_usize n 1) xs n = (if xs = [] then n else min (n + length xs) usize_max)"
proof (induction xs arbitrary: n)
  case (Cons x xs)
  then show ?case by (cases "xs = []") (auto simp: saturating_add_usize_def)
qed simp

lemma count_list_concat_maps:
  assumes "\<forall>m \<in> set ms. distinct (map fst m)"
  shows "count_list (concat ms) (k, v) = length (filter (\<lambda>m. map_of m k = Some v) ms)"
proof -
  have "count_list m (k, v) = (if map_of m k = Some v then 1 else 0)"
    if "distinct (map fst m)" for m
    using that
  proof (induction m)
    case (Cons e m)
    then show ?case by (cases e) (auto simp: count_list_0_iff map_of_eq_None_iff intro: rev_image_eqI)
  qed simp
  then show ?thesis using assms by (induction ms) (auto simp: count_list_append)
qed

lemma filter_length_all: "length (filter P xs) = length xs \<longleftrightarrow> (\<forall>x \<in> set xs. P x)"
  by (metis filter_True filter_id_conv length_filter_less less_irrefl)

text \<open>In how many of the state maps an entry occurs, and when it occurs in all of them.\<close>

definition in_all :: "state_map list \<Rightarrow> type_state_key \<Rightarrow> string \<Rightarrow> bool" where
  "in_all sets k v \<longleftrightarrow> sets \<noteq> [] \<and> (\<forall>m \<in> set sets. map_of m k = Some v)"

definition in_some :: "state_map list \<Rightarrow> type_state_key \<Rightarrow> string \<Rightarrow> bool" where
  "in_some sets k v \<longleftrightarrow> (\<exists>m \<in> set sets. map_of m k = Some v)"

lemma in_all_some: "in_all sets k v \<Longrightarrow> in_some sets k v"
  by (cases sets) (auto simp: in_all_def in_some_def)

lemma in_all_unique: "in_all sets k v \<Longrightarrow> in_all sets k w \<Longrightarrow> v = w"
  by (cases sets) (auto simp: in_all_def)

lemma separate_entries:
  fixes S sets
  defines "n \<equiv> fold (\<lambda>_ n. saturating_add_usize n 1) sets 0"
    and "occ \<equiv> fold count_occurrence (concat sets) []"
  assumes "fair_sched S" and "\<forall>m \<in> set sets. distinct (map fst m)" and "length sets \<le> usize_max"
    and "map_of occ k = Some ids"
  shows "set (hits n (iter_map (ids_order S) ids)) = {v. in_all sets k v}"
    and "set (misses n (iter_map (ids_order S) ids)) = {v. in_some sets k v \<and> \<not> in_all sets k v}"
    and "distinct (misses n (iter_map (ids_order S) ids))"
proof -
  have inv: "occ_inv (concat sets) occ" unfolding occ_def by (rule occurrences_inv)
  have dist: "distinct (map fst ids)" using inv assms(6) unfolding occ_inv_def
    by (metis or_default_simps(2))
  have ord: "iteration_order (ids_order S)" using assms(3) by (simp add: fair_sched_def)
  have elems: "set (iter_map (ids_order S) ids) = set ids" by (rule set_iter_map [OF ord dist])
  have some: "v \<in> fst ` set ids \<longleftrightarrow> in_some sets k v" for v
  proof -
    have "v \<in> fst ` set ids \<longleftrightarrow> (k, v) \<in> set (concat sets)"
      using inv assms(6) unfolding occ_inv_def by (metis or_default_simps(2))
    also have "\<dots> \<longleftrightarrow> in_some sets k v"
      using assms(4) by (auto simp: in_some_def dest: map_of_SomeD intro: map_of_is_SomeI)
    finally show ?thesis .
  qed
  have some': "(\<exists>m. (v, m) \<in> set ids) \<longleftrightarrow> in_some sets k v" for v
    using some [of v] by force
  have cnt: "m = n \<longleftrightarrow> in_all sets k v" if "(v, m) \<in> set ids" for v m
  proof -
    have v: "v \<in> fst ` set ids" using that by force
    have "m = occ_count occ k v"
      using that dist assms(6) by (simp add: occ_count_def map_of_is_SomeI)
    also have "\<dots> = min (length (filter (\<lambda>m. map_of m k = Some v) sets)) usize_max"
      using inv count_list_concat_maps [OF assms(4)] unfolding occ_inv_def by metis
    also have "\<dots> = length (filter (\<lambda>m. map_of m k = Some v) sets)"
      using assms(5) length_filter_le [of "\<lambda>m. map_of m k = Some v" sets] by linarith
    finally have m: "m = length (filter (\<lambda>m. map_of m k = Some v) sets)" .
    have "sets \<noteq> []" using v some by (auto simp: in_some_def)
    then have "n = length sets" using assms(5) unfolding n_def state_set_count by simp
    then have "m = n \<longleftrightarrow> length (filter (\<lambda>m. map_of m k = Some v) sets) = length sets" using m by simp
    then show ?thesis using \<open>sets \<noteq> []\<close> by (simp add: filter_length_all in_all_def)
  qed
  show "set (hits n (iter_map (ids_order S) ids)) = {v. in_all sets k v}"
  proof (rule set_eqI)
    fix v
    have "v \<in> set (hits n (iter_map (ids_order S) ids)) \<longleftrightarrow> (\<exists>m. (v, m) \<in> set ids \<and> m = n)"
      using elems by force
    also have "\<dots> \<longleftrightarrow> in_all sets k v"
      using cnt some' in_all_some [of sets k] by blast
    finally show "v \<in> set (hits n (iter_map (ids_order S) ids)) \<longleftrightarrow> v \<in> {v. in_all sets k v}" by simp
  qed
  show "set (misses n (iter_map (ids_order S) ids)) = {v. in_some sets k v \<and> \<not> in_all sets k v}"
  proof (rule set_eqI)
    fix v
    have "v \<in> set (misses n (iter_map (ids_order S) ids)) \<longleftrightarrow> (\<exists>m. (v, m) \<in> set ids \<and> m \<noteq> n)"
      using elems by force
    also have "\<dots> \<longleftrightarrow> in_some sets k v \<and> \<not> in_all sets k v"
      using cnt some' by blast
    finally show "v \<in> set (misses n (iter_map (ids_order S) ids))
      \<longleftrightarrow> v \<in> {v. in_some sets k v \<and> \<not> in_all sets k v}" by simp
  qed
  have "distinct (map fst (iter_map (ids_order S) ids))"
    using dist iteration_orderD(2) [OF ord] by (simp add: iter_map_keys)
  then show "distinct (misses n (iter_map (ids_order S) ids))" by (rule distinct_map_filter)
qed

lemma separate_spec:
  assumes "fair_sched S" and "\<forall>m \<in> set sets. distinct (map fst m)" and "length sets \<le> usize_max"
    and "separate S sets = (u, c)"
  shows "map_of u k = Some v \<longleftrightarrow> in_all sets k v"
    and "set (or_default (map_of c k)) = {v. in_some sets k v \<and> \<not> in_all sets k v}"
    and "map_of c k \<noteq> Some []" and "distinct (or_default (map_of c k))"
    and "distinct (map fst c)" and "distinct (map fst u)"
proof -
  define n where "n = fold (\<lambda>_ n. saturating_add_usize n 1) sets 0"
  define occ where "occ = fold count_occurrence (concat sets) []"
  have inv: "occ_inv (concat sets) occ" unfolding occ_def by (rule occurrences_inv)
  have dist: "distinct (map fst occ)" using inv by (simp add: occ_inv_def)
  have ord: "iteration_order (keys_order S)" using assms(1) by (simp add: fair_sched_def)
  have run: "fold (\<lambda>(k, v). fold (separate_id n k) (iter_map (ids_order S) v))
      (iter_map (keys_order S) occ) ([], []) = (u, c)"
    using assms(4) by (simp add: separate_def n_def occ_def Let_def)
  have "distinct (map fst (iter_map (keys_order S) occ))"
    using dist iteration_orderD(2) [OF ord] by (simp add: iter_map_keys)
  note r = fold_separate [OF run this, simplified, of k, unfolded map_of_iter_map [OF ord dist]]
  show "distinct (map fst c)" "distinct (map fst u)" using r by auto
  have conj: "(map_of u k = Some v \<longleftrightarrow> in_all sets k v)
      \<and> set (or_default (map_of c k)) = {v. in_some sets k v \<and> \<not> in_all sets k v}
      \<and> map_of c k \<noteq> Some [] \<and> distinct (or_default (map_of c k))"
  proof (cases "map_of occ k")
    case None
    then have "k \<notin> fst ` set (concat sets)" using inv unfolding occ_inv_def
      by (metis map_of_eq_None_iff)
    then have none: "\<not> in_some sets k v" for v
      by (auto simp: in_some_def dest!: map_of_SomeD) (metis UN_I fst_conv image_eqI)
    moreover from this have "\<not> in_all sets k v" for v using in_all_some by blast
    ultimately show ?thesis
      using r None by simp
  next
    case (Some ids)
    note e = separate_entries [OF assms(1-3), folded n_def occ_def, OF Some]
    let ?es = "iter_map (ids_order S) ids"
    have u: "map_of u k = (if hits n ?es = [] then None else Some (last (hits n ?es)))"
      and c: "map_of c k = (if misses n ?es = [] then None else Some (misses n ?es))"
      using r Some by simp_all
    have "map_of u k = Some v \<longleftrightarrow> in_all sets k v"
    proof
      assume "map_of u k = Some v"
      then have "v \<in> set (hits n ?es)" using u by (metis last_in_set option.distinct(1) option.inject)
      then show "in_all sets k v" using e(1) by blast
    next
      assume v: "in_all sets k v"
      then have "v \<in> set (hits n ?es)" using e(1) by blast
      then have ne: "hits n ?es \<noteq> []" by (metis empty_iff empty_set)
      then have "last (hits n ?es) \<in> {v. in_all sets k v}" using e(1) last_in_set by blast
      then have "last (hits n ?es) = v" using in_all_unique v by blast
      then show "map_of u k = Some v" using u ne by simp
    qed
    moreover have "or_default (map_of c k) = misses n ?es" using c by simp
    ultimately show ?thesis
      using e(2,3) c by auto
  qed
  from conj show "map_of u k = Some v \<longleftrightarrow> in_all sets k v"
    and "set (or_default (map_of c k)) = {v. in_some sets k v \<and> \<not> in_all sets k v}"
    and "map_of c k \<noteq> Some []" and "distinct (or_default (map_of c k))" by blast+
qed

text \<open>An entry is unconflicted exactly when every state map has it, and the conflicted
  entries of a key are exactly the events that some of the maps, but not all, have for it,
  each once. A key is conflicted also when one map lacks it.\<close>

lemma separate_correct:
  assumes "fair_sched S" and "\<forall>m \<in> set sets. distinct (map fst m)" and "length sets \<le> usize_max"
    and "separate S sets = (unconflicted, conflicted)"
  shows "(\<forall>k v. map_of unconflicted k = Some v \<longleftrightarrow> in_all sets k v)
    \<and> (\<forall>k. set (or_default (map_of conflicted k)) = {v. in_some sets k v \<and> \<not> in_all sets k v})
    \<and> (\<forall>k. distinct (or_default (map_of conflicted k)))
    \<and> (\<forall>k. k \<in> fst ` set conflicted \<longleftrightarrow> (\<exists>v. in_some sets k v \<and> \<not> in_all sets k v))"
proof -
  note spec = separate_spec [OF assms]
  have "k \<in> fst ` set conflicted \<longleftrightarrow> (\<exists>v. in_some sets k v \<and> \<not> in_all sets k v)" for k
  proof -
    have "k \<in> fst ` set conflicted \<longleftrightarrow> map_of conflicted k \<noteq> None" by (metis map_of_eq_None_iff)
    also have "\<dots> \<longleftrightarrow> set (or_default (map_of conflicted k)) \<noteq> {}"
      using spec(3) [of k] by (cases "map_of conflicted k") auto
    finally show ?thesis using spec(2) [of k] by auto
  qed
  then show ?thesis using spec(1,2,4) by blast
qed

abbreviation topic_key :: type_state_key where "topic_key \<equiv> (OtherType ''m.room.topic'', '''')"
abbreviation name_key :: type_state_key where "name_key \<equiv> (OtherType ''m.room.name'', '''')"

definition sample_sched :: sched where
  "sample_sched = \<lparr>ids_order = rev, keys_order = rev, arrival = id\<rparr>"

lemma fair_sample_sched [simp]: "fair_sched sample_sched"
  by (simp add: fair_sched_def sample_sched_def iteration_order_def)

subsection \<open>What the auth chain difference computes\<close>

lemma id_counts:
  fixes f
  defines "f \<equiv> \<lambda>i m. AList.update i (wrapping_inc_usize (case map_of m i of Some n \<Rightarrow> n | None \<Rightarrow> 0)) m"
  assumes "\<And>i. count_list xs i < 2 ^ 64"
  shows "distinct (map fst (fold f xs []))
    \<and> (\<forall>i. map_of (fold f xs []) i = (if i \<in> set xs then Some (count_list xs i) else None))"
  using assms(2)
proof (induction xs rule: rev_induct)
  case Nil
  then show ?case by simp
next
  case (snoc x xs)
  have lt: "count_list xs i < 2 ^ 64" for i
    using snoc.prems [of i] by (simp add: count_list_append)
  have x: "count_list xs x + 1 < 2 ^ 64" using snoc.prems [of x] by (simp add: count_list_append)
  note IH = snoc.IH [OF lt]
  have "(case map_of (fold f xs []) x of Some n \<Rightarrow> n | None \<Rightarrow> 0) = count_list xs x"
    using IH by (auto simp: count_list_0_iff)
  then have "fold f (xs @ [x]) [] = AList.update x (count_list xs x + 1) (fold f xs [])"
    using x by (simp add: f_def wrapping_inc_usize_def)
  then show ?case using IH by (auto simp: update_conv' distinct_update count_list_append)
qed

lemma get_auth_chain_diff_set:
  assumes "fair_sched S" and "fair_sched S'"
  shows "set (get_auth_chain_diff S sets) = set (get_auth_chain_diff S' sets)"
    and "set (get_auth_chain_diff S sets) \<subseteq> \<Union> (set ` set sets)"
proof -
  define m where "m = fold (\<lambda>i m. AList.update i
    (wrapping_inc_usize (case map_of m i of Some n \<Rightarrow> n | None \<Rightarrow> 0)) m) (concat sets) []"
  have "distinct (map fst (fold (\<lambda>i m. AList.update i (f m i) m) xs acc))
      \<and> fst ` set (fold (\<lambda>i m. AList.update i (f m i) m) xs acc) = fst ` set acc \<union> set xs"
    if "distinct (map fst acc)" for f and xs :: "string list" and acc :: "(string \<times> nat) list"
    using that
  proof (induction xs arbitrary: acc)
    case (Cons x xs)
    then show ?case using Cons.IH [of "AList.update x (f acc x) acc"] by (auto simp: distinct_update)
  qed simp
  from this [of "[]" "\<lambda>m i. wrapping_inc_usize (case map_of m i of Some n \<Rightarrow> n | None \<Rightarrow> 0)" "concat sets"]
  have m: "distinct (map fst m)" "fst ` set m = set (concat sets)" by (simp_all add: m_def)
  have diff: "set (get_auth_chain_diff T sets) = fst ` {x \<in> set m. snd x < length sets}" if "fair_sched T" for T
    using that set_iter_map [OF _ m(1), of "ids_order T"]
    by (simp add: get_auth_chain_diff_def Let_def m_def [symmetric] fair_sched_def case_prod_beta)
  show "set (get_auth_chain_diff S sets) = set (get_auth_chain_diff S' sets)"
    using diff assms by simp
  show "set (get_auth_chain_diff S sets) \<subseteq> \<Union> (set ` set sets)"
    using diff [OF assms(1)] m(2) by auto
qed

lemma count_list_distinct: "distinct xs \<Longrightarrow> count_list xs i = (if i \<in> set xs then 1 else 0)"
  by (induction xs) auto

text \<open>The auth chain difference is the union of the auth chains without their
  intersection, each event once, whatever the hash order.\<close>

lemma get_auth_chain_diff_correct:
  assumes "fair_sched S" and "\<forall>chain \<in> set sets. distinct chain" and "length sets < 2 ^ 64"
  shows "distinct (get_auth_chain_diff S sets)
    \<and> set (get_auth_chain_diff S sets) = \<Union> (set ` set sets) - \<Inter> (set ` set sets)"
proof -
  have cnt: "count_list (concat sets) i = length (filter (\<lambda>c. i \<in> set c) sets)" for i
    using assms(2) by (induction sets) (auto simp: count_list_append count_list_distinct)
  let ?m = "fold (\<lambda>i m. AList.update i (wrapping_inc_usize (case map_of m i of Some n \<Rightarrow> n | None \<Rightarrow> 0)) m)
    (concat sets) []"
  have "count_list (concat sets) i < 2 ^ 64" for i
    using assms(3) length_filter_le [of "\<lambda>c. i \<in> set c" sets] unfolding cnt by linarith
  from id_counts [OF this] have m: "distinct (map fst ?m)"
    "\<And>i. map_of ?m i = (if i \<in> set (concat sets) then Some (count_list (concat sets) i) else None)"
    by blast+
  have ord: "iteration_order (ids_order S)" using assms(1) by (simp add: fair_sched_def)
  have diff: "get_auth_chain_diff S sets
      = map fst (filter (\<lambda>(i, count). count < length sets) (iter_map (ids_order S) ?m))"
    by (simp add: get_auth_chain_diff_def Let_def)
  have "i \<in> set (get_auth_chain_diff S sets) \<longleftrightarrow> (\<exists>n. map_of ?m i = Some n \<and> n < length sets)" for i
    unfolding diff using set_iter_map [OF ord m(1)] m(1) by (force simp: map_of_eq_Some_iff)
  also have "(\<exists>n. map_of ?m i = Some n \<and> n < length sets)
      \<longleftrightarrow> i \<in> \<Union> (set ` set sets) - \<Inter> (set ` set sets)" for i
  proof -
    have "length (filter (\<lambda>c. i \<in> set c) sets) < length sets \<longleftrightarrow> \<not> (\<forall>c \<in> set sets. i \<in> set c)"
      using filter_length_all [of "\<lambda>c. i \<in> set c" sets] length_filter_le [of "\<lambda>c. i \<in> set c" sets]
      by linarith
    then show ?thesis unfolding m(2) cnt by auto
  qed
  finally have "set (get_auth_chain_diff S sets) = \<Union> (set ` set sets) - \<Inter> (set ` set sets)"
    by blast
  moreover have "distinct (map fst (iter_map (ids_order S) ?m))"
    using m(1) iteration_orderD(2) [OF ord] by (simp add: iter_map_keys)
  then have "distinct (get_auth_chain_diff S sets)" unfolding diff by (rule distinct_map_filter)
  ultimately show ?thesis by blast
qed

end
