(* ===== verification/ConflictedSubgraph.thy ===== *)
theory ConflictedSubgraph
  imports StateSets SampleRoom
begin

text \<open>
  \<open>calculate_conflicted_subgraph\<close> of \<open>src/src/core/matrix/state_res/mod.rs\<close>: the events on
  the auth paths between conflicted events, which version 2.1 of state resolution adds to the
  conflicted set.
\<close>

subsection \<open>The conflicted subgraph\<close>

text \<open>
  The depth-first search keeps a stack of the events still to visit at each depth, the path
  to the current event, the events seen and the subgraph found. Stacks and paths grow at the
  head here; \<open>next_event\<close> is the closure of that name.
\<close>

fun next_event ::
  "string list list \<Rightarrow> string list \<Rightarrow> (string \<times> string list list \<times> string list) option" where
  "next_event [] path = None"
| "next_event ([] # stack) path = next_event stack (tl path)"
| "next_event ((e # es) # stack) path = Some (e, es # stack, path)"

definition extend_set :: "'a list \<Rightarrow> 'a list \<Rightarrow> 'a list" where
  "extend_set xs ys = fold set_insert ys xs"

fun subgraph_loop ::
  "nat \<Rightarrow> 'c fetch \<Rightarrow> string list \<Rightarrow> string list list \<Rightarrow> string list \<Rightarrow> string list \<Rightarrow> string list
   \<Rightarrow> string list result" where
  "subgraph_loop 0 fetch conflicted_events stack path seen subgraph = Inl OutOfFuel"
| "subgraph_loop (Suc fuel) fetch conflicted_events stack path seen subgraph =
     (case next_event stack path of
        None \<Rightarrow> Inr subgraph
      | Some (event_id, stack, path) \<Rightarrow>
          (let path' = event_id # path
           in if event_id \<in> set subgraph then
                subgraph_loop fuel fetch conflicted_events stack path seen
                  (if 1 < length path' then extend_set subgraph path' else subgraph)
              else
                (let subgraph =
                   (if event_id \<in> set conflicted_events \<and> 1 < length path'
                    then extend_set subgraph path' else subgraph)
                 in if event_id \<in> set seen then
                      subgraph_loop fuel fetch conflicted_events stack path seen subgraph
                    else case fetch event_id of
                        None \<Rightarrow> subgraph_loop fuel fetch conflicted_events stack path seen subgraph
                      | Some evt \<Rightarrow>
                          subgraph_loop fuel fetch conflicted_events
                            (rev (ev_auth_events evt) # stack) path' (event_id # seen) subgraph)))"

definition calculate_conflicted_subgraph ::
  "nat \<Rightarrow> sched \<Rightarrow> 'c fetch \<Rightarrow> (type_state_key \<times> string list) list \<Rightarrow> string list result" where
  "calculate_conflicted_subgraph fuel S fetch conflicted =
     (let conflicted_events = remdups (concat (map snd conflicted))
      in subgraph_loop fuel fetch conflicted_events [rev (ids_order S conflicted_events)] [] [] [])"

subsection \<open>The specification\<close>

text \<open>The auth edges, and the events on an auth path between two different conflicted events.\<close>

definition auth_rel :: "'c fetch \<Rightarrow> (string \<times> string) set" where
  "auth_rel fetch = {(a, b). b \<in> set (auth_ids fetch a)}"

definition between_conflicted :: "'c fetch \<Rightarrow> string set \<Rightarrow> string set" where
  "between_conflicted fetch C = {x. \<exists>c \<in> C. \<exists>d \<in> C. c \<noteq> d
     \<and> (c, x) \<in> (auth_rel fetch)\<^sup>* \<and> (x, d) \<in> (auth_rel fetch)\<^sup>*}"

text \<open>Event ids are hashes over the auth events, so the auth events form no cycle.\<close>

definition acyclic_auth :: "'c fetch \<Rightarrow> bool" where
  "acyclic_auth fetch \<longleftrightarrow> acyclic (auth_rel fetch)"

lemma auth_rel_iff [simp]: "(a, b) \<in> auth_rel fetch \<longleftrightarrow> b \<in> set (auth_ids fetch a)"
  by (simp add: auth_rel_def)

lemma set_extend_set [simp]: "set (extend_set xs ys) = set xs \<union> set ys"
  by (induction ys arbitrary: xs) (auto simp: extend_set_def)

lemma auth_ids_None: "fetch e = None \<Longrightarrow> auth_ids fetch e = []"
  by (simp add: auth_ids_def)

lemma fetchable: "x \<in> set (auth_ids fetch y) \<Longrightarrow> fetch y \<noteq> None"
  by (cases "fetch y") (simp_all add: auth_ids_def)

lemma acyclic_authI:
  fixes rank :: "string \<Rightarrow> nat"
  assumes "\<And>a b. b \<in> set (auth_ids fetch a) \<Longrightarrow> rank b < rank a"
  shows "acyclic_auth fetch"
proof -
  have "(auth_rel fetch)\<inverse> \<subseteq> measure rank" using assms by auto
  then have "wf ((auth_rel fetch)\<inverse>)" by (rule wf_subset [OF wf_measure])
  then show ?thesis unfolding acyclic_auth_def by (metis acyclic_converse wf_acyclic)
qed

subsection \<open>The invariant of the search\<close>

text \<open>
  The path leads from a conflicted event down to the event whose auth events are at the top
  of the stack; each stack level holds what is left of the auth events of its path event.
\<close>

fun levels :: "'c fetch \<Rightarrow> string set \<Rightarrow> string list list \<Rightarrow> string list \<Rightarrow> bool" where
  "levels fetch C [l] [] \<longleftrightarrow> set l \<subseteq> C"
| "levels fetch C (l # st) [p] \<longleftrightarrow> set l \<subseteq> set (auth_ids fetch p) \<and> p \<in> C \<and> levels fetch C st []"
| "levels fetch C (l # st) (p # q # ps) \<longleftrightarrow>
     set l \<subseteq> set (auth_ids fetch p) \<and> p \<in> set (auth_ids fetch q) \<and> levels fetch C st (q # ps)"
| "levels fetch C _ _ \<longleftrightarrow> False"

text \<open>An auth event of a path event that is still to be visited, or is being visited.\<close>

fun pending :: "string list list \<Rightarrow> string list \<Rightarrow> string \<Rightarrow> string \<Rightarrow> bool" where
  "pending (l # st) (p # ps) y x \<longleftrightarrow>
     y = p \<and> x \<in> set l \<or> ps \<noteq> [] \<and> y = hd ps \<and> x = p \<or> pending st ps y x"
| "pending _ _ y x \<longleftrightarrow> False"

definition leads_to :: "'c fetch \<Rightarrow> string set \<Rightarrow> string \<Rightarrow> bool" where
  "leads_to fetch C x \<longleftrightarrow> (\<exists>d \<in> C. (x, d) \<in> (auth_rel fetch)\<^sup>*)"

text \<open>The auth event \<open>x\<close> of \<open>y\<close> has been dealt with.\<close>

definition visited :: "'c fetch \<Rightarrow> string set \<Rightarrow> string set \<Rightarrow> string set \<Rightarrow> string \<Rightarrow> string \<Rightarrow> bool" where
  "visited fetch C seen sub y x \<longleftrightarrow> (x \<in> seen \<or> fetch x = None)
     \<and> (leads_to fetch C x \<longrightarrow> y \<in> sub) \<and> (x \<in> C \<longrightarrow> x \<in> sub)"

fun suffix_closed :: "string set \<Rightarrow> string list \<Rightarrow> bool" where
  "suffix_closed sub [] \<longleftrightarrow> True"
| "suffix_closed sub (p # ps) \<longleftrightarrow> (p \<in> sub \<longrightarrow> set ps \<subseteq> sub) \<and> suffix_closed sub ps"

definition search_inv ::
  "'c fetch \<Rightarrow> string set \<Rightarrow> string list list \<Rightarrow> string list \<Rightarrow> string set \<Rightarrow> string set \<Rightarrow> bool" where
  "search_inv fetch C st path seen sub \<longleftrightarrow>
     levels fetch C st path
     \<and> distinct path \<and> set path \<subseteq> seen \<and> sub \<subseteq> seen \<union> {x. fetch x = None}
     \<and> sub \<subseteq> between_conflicted fetch C
     \<and> suffix_closed sub path \<and> (\<forall>p \<in> set (butlast path). p \<in> C \<longrightarrow> p \<in> sub)
     \<and> (\<forall>y \<in> seen. \<forall>x \<in> set (auth_ids fetch y).
          visited fetch C seen sub y x \<or> pending st path y x)
     \<and> (\<forall>c \<in> C. c \<in> seen \<or> fetch c = None \<or> c \<in> set (last st))"

lemma levels_length: "levels fetch C st path \<Longrightarrow> length st = Suc (length path)"
  by (induction fetch C st path rule: levels.induct) auto

lemma levels_path:
  assumes "levels fetch C st (p # ps)"
  shows "last (p # ps) \<in> C
    \<and> (\<forall>y \<in> set (p # ps). (last (p # ps), y) \<in> (auth_rel fetch)\<^sup>* \<and> (y, p) \<in> (auth_rel fetch)\<^sup>*)"
  using assms
proof (induction ps arbitrary: st p)
  case Nil
  then show ?case by (cases st) auto
next
  case (Cons q ps)
  then obtain l st' where st: "st = l # st'" by (cases st) auto
  have step: "(q, p) \<in> auth_rel fetch" and rest: "levels fetch C st' (q # ps)"
    using Cons.prems st by auto
  note IH = Cons.IH [OF rest]
  have "(last (q # ps), p) \<in> (auth_rel fetch)\<^sup>*"
    using IH step by (meson list.set_intros(1) rtrancl_into_rtrancl)
  moreover have "(y, p) \<in> (auth_rel fetch)\<^sup>*" if "y \<in> set (q # ps)" for y
    using IH step that by (meson rtrancl_into_rtrancl)
  ultimately show ?case using IH by auto
qed

lemma levels_top:
  "levels fetch C ((e # es) # st) path \<Longrightarrow>
   levels fetch C (es # st) path \<and> (case path of [] \<Rightarrow> e \<in> C | p # _ \<Rightarrow> e \<in> set (auth_ids fetch p))"
  by (cases path; cases "tl path"; cases st) auto

lemma levels_pop: "levels fetch C (l # st) (p # ps) \<Longrightarrow> levels fetch C st ps"
  by (cases ps) auto

lemma levels_push:
  "levels fetch C (es # st) path \<Longrightarrow> (case path of [] \<Rightarrow> e \<in> C | p # _ \<Rightarrow> e \<in> set (auth_ids fetch p))
   \<Longrightarrow> set l \<subseteq> set (auth_ids fetch e) \<Longrightarrow> levels fetch C (l # es # st) (e # path)"
  by (cases path) auto

lemma suffix_closed_all: "set path \<subseteq> sub \<Longrightarrow> suffix_closed sub path"
  by (induction path) auto

lemma pending_path: "pending st path y x \<Longrightarrow> y \<in> set path"
  by (induction st path y x rule: pending.induct) (auto split: if_splits)

lemma leads_to_step: "leads_to fetch C x \<Longrightarrow> x \<notin> C \<Longrightarrow> \<exists>y \<in> set (auth_ids fetch x). leads_to fetch C y"
  unfolding leads_to_def by (metis auth_rel_iff converse_rtranclE)

text \<open>An event all of whose auth events have been dealt with is in the subgraph if it should be.\<close>

lemma finished_in_subgraph:
  assumes "search_inv fetch C st path seen sub" and "x \<in> seen"
    and "\<forall>y. \<not> pending st path x y" and "leads_to fetch C x" and "x \<notin> C"
  shows "x \<in> sub"
proof -
  obtain y where "y \<in> set (auth_ids fetch x)" "leads_to fetch C y"
    using leads_to_step [OF assms(4,5)] by blast
  then show ?thesis using assms(1-3) unfolding search_inv_def visited_def by blast
qed

text \<open>Leaving a level whose auth events are used up.\<close>

lemma search_inv_pop:
  assumes inv: "search_inv fetch C ([] # st) (p # ps) seen sub"
  shows "search_inv fetch C st ps seen sub"
proof -
  have lev: "levels fetch C ([] # st) (p # ps)" and p: "p \<in> seen" and dist: "distinct (p # ps)"
    and sc: "suffix_closed sub (p # ps)" and bl: "\<forall>p \<in> set (butlast (p # ps)). p \<in> C \<longrightarrow> p \<in> sub"
    using inv by (auto simp: search_inv_def)
  have st: "st \<noteq> []" using levels_length [OF lev] by auto
  have nopend: "\<not> pending ([] # st) (p # ps) p y" for y
    using dist pending_path [of st ps p y] by auto
  have q: "visited fetch C seen sub (hd ps) p" if ps: "ps \<noteq> []"
  proof -
    have pC: "p \<in> C \<longrightarrow> p \<in> sub" using bl ps by auto
    have "leads_to fetch C p \<longrightarrow> p \<in> sub"
      using finished_in_subgraph [OF inv p] nopend pC by blast
    moreover have "p \<in> sub \<longrightarrow> hd ps \<in> sub" using sc ps by (auto dest: hd_in_set)
    ultimately show ?thesis using p pC by (simp add: visited_def)
  qed
  have "visited fetch C seen sub y x \<or> pending st ps y x"
    if "y \<in> seen" "x \<in> set (auth_ids fetch y)" for y x
    using inv that q unfolding search_inv_def by fastforce
  moreover have "\<forall>p \<in> set (butlast ps). p \<in> C \<longrightarrow> p \<in> sub" using bl by (cases ps) auto
  ultimately show ?thesis
    using inv levels_pop [OF lev] st unfolding search_inv_def by auto
qed

text \<open>A path that has reached the conflicted set or the subgraph belongs to the subgraph.\<close>

lemma extension_sound:
  assumes "search_inv fetch C st (p # ps) seen sub" and "acyclic_auth fetch"
    and "e \<in> set (auth_ids fetch p)" and "e \<in> C \<or> e \<in> sub"
  shows "set (e # p # ps) \<subseteq> between_conflicted fetch C"
proof
  fix y assume y: "y \<in> set (e # p # ps)"
  let ?E = "auth_rel fetch" and ?c = "last (p # ps)"
  have lev: "levels fetch C st (p # ps)" and sub: "sub \<subseteq> between_conflicted fetch C"
    using assms(1) by (auto simp: search_inv_def)
  note path = levels_path [OF lev]
  obtain d where d: "d \<in> C" "(e, d) \<in> ?E\<^sup>*"
    using assms(4) sub by (auto simp: between_conflicted_def)
  have pe: "(p, e) \<in> ?E" using assms(3) by simp
  have "(?c, p) \<in> ?E\<^sup>*" using path by simp
  then have "(?c, d) \<in> ?E\<^sup>+" using pe d(2)
    by (meson rtrancl_into_trancl1 rtrancl_trancl_trancl trancl_rtrancl_trancl)
  then have "?c \<noteq> d" using assms(2) by (auto simp: acyclic_auth_def acyclic_def)
  moreover have "(?c, y) \<in> ?E\<^sup>* \<and> (y, d) \<in> ?E\<^sup>*"
  proof (cases "y = e")
    case True
    then show ?thesis using path pe d by (meson list.set_intros(1) rtrancl_into_rtrancl)
  next
    case False
    then have "y \<in> set (p # ps)" using y by simp
    then show ?thesis using path pe d
      by (meson converse_rtrancl_into_rtrancl rtrancl_trans)
  qed
  ultimately show "y \<in> between_conflicted fetch C"
    using path d(1) unfolding between_conflicted_def by blast
qed

lemma visited_mono:
  "visited fetch C seen sub y x \<Longrightarrow> seen \<subseteq> seen' \<Longrightarrow> sub \<subseteq> sub' \<Longrightarrow> visited fetch C seen' sub' y x"
  by (auto simp: visited_def)

lemma pending_top:
  "pending ((e # es) # st) path y x \<Longrightarrow>
   pending (es # st) path y x \<or> path \<noteq> [] \<and> y = hd path \<and> x = e"
  by (cases path) auto

lemma last_stack_top:
  "levels fetch C ((e # es) # st) path \<Longrightarrow>
   set (last ((e # es) # st)) \<subseteq> (if path = [] then insert e (set (last (es # st))) else set (last (es # st)))"
  using levels_length [of fetch C "(e # es) # st" path] by (cases st) auto

text \<open>Taking an event off the stack without descending into it.\<close>

lemma search_inv_skip:
  assumes inv: "search_inv fetch C ((e # es) # st) path seen sub"
    and "sub \<subseteq> sub'" and "sub' \<subseteq> seen \<union> {x. fetch x = None}" and "sub' \<subseteq> between_conflicted fetch C"
    and "suffix_closed sub' path"
    and "path = [] \<Longrightarrow> e \<in> seen \<or> fetch e = None"
    and "path \<noteq> [] \<Longrightarrow> visited fetch C seen sub' (hd path) e"
  shows "search_inv fetch C (es # st) path seen sub'"
proof -
  have lev: "levels fetch C ((e # es) # st) path" using inv by (simp add: search_inv_def)
  have "visited fetch C seen sub' y x \<or> pending (es # st) path y x"
    if "y \<in> seen" "x \<in> set (auth_ids fetch y)" for y x
    using inv that pending_top [of e es st path y x] assms(7) visited_mono [OF _ subset_refl assms(2)]
    unfolding search_inv_def by metis
  moreover have "c \<in> seen \<or> fetch c = None \<or> c \<in> set (last (es # st))" if "c \<in> C" for c
    using inv that last_stack_top [OF lev] assms(6)
    unfolding search_inv_def by (auto split: if_splits)
  moreover have "\<forall>p \<in> set (butlast path). p \<in> C \<longrightarrow> p \<in> sub'"
    using inv assms(2) unfolding search_inv_def by blast
  moreover have "levels fetch C (es # st) path" using levels_top [OF lev] by blast
  ultimately show ?thesis
    using inv assms(3,4,5) unfolding search_inv_def by simp
qed

text \<open>Descending into an event that has not been seen.\<close>

lemma search_inv_push:
  assumes inv: "search_inv fetch C ((e # es) # st) path seen sub"
    and "sub \<subseteq> sub'" and "sub' \<subseteq> insert e seen \<union> {x. fetch x = None}"
    and "sub' \<subseteq> between_conflicted fetch C" and "suffix_closed sub' (e # path)"
    and "path \<noteq> [] \<Longrightarrow> e \<in> C \<Longrightarrow> e \<in> sub'"
    and "e \<notin> seen" and "set l = set (auth_ids fetch e)"
  shows "search_inv fetch C (l # es # st) (e # path) (insert e seen) sub'"
proof -
  have lev: "levels fetch C ((e # es) # st) path" using inv by (simp add: search_inv_def)
  have "visited fetch C (insert e seen) sub' y x \<or> pending (l # es # st) (e # path) y x"
    if y: "y \<in> insert e seen" and x: "x \<in> set (auth_ids fetch y)" for y x
  proof (cases "y = e")
    case True
    then show ?thesis using x assms(8) by simp
  next
    case False
    then have "visited fetch C seen sub y x \<or> pending ((e # es) # st) path y x"
      using inv y x unfolding search_inv_def by blast
    moreover have "visited fetch C seen sub y x \<Longrightarrow> visited fetch C (insert e seen) sub' y x"
      by (rule visited_mono [OF _ subset_insertI assms(2)])
    ultimately show ?thesis
      using pending_top [of e es st path y x] by auto
  qed
  moreover have "c \<in> insert e seen \<or> fetch c = None \<or> c \<in> set (last (l # es # st))" if "c \<in> C" for c
    using inv that last_stack_top [OF lev] unfolding search_inv_def by (auto split: if_splits)
  moreover have "\<forall>p \<in> set (butlast (e # path)). p \<in> C \<longrightarrow> p \<in> sub'"
    using inv assms(2,6) unfolding search_inv_def by (cases path) auto
  moreover have "levels fetch C (l # es # st) (e # path)"
    using levels_top [OF lev] by (intro levels_push) (auto simp: assms(8))
  moreover have "distinct (e # path)" "set (e # path) \<subseteq> insert e seen"
    using inv assms(7) unfolding search_inv_def by auto
  ultimately show ?thesis
    using assms(3,4,5) unfolding search_inv_def by simp
qed

text \<open>What the loop finds at the top of the stack.\<close>

lemma next_event_inv:
  assumes "search_inv fetch C st path seen sub"
  shows "(case next_event st path of
      None \<Rightarrow> search_inv fetch C [[]] [] seen sub
    | Some (e, st', path') \<Rightarrow> \<exists>es st''. st' = es # st'' \<and> search_inv fetch C ((e # es) # st'') path' seen sub
        \<and> sum_list (map length st) = Suc (sum_list (map length st')))"
  using assms
proof (induction st path rule: next_event.induct)
  case (1 path)
  then show ?case using levels_length [of fetch C "[]" path] by (simp add: search_inv_def)
next
  case (2 st path)
  show ?case
  proof (cases path)
    case Nil
    then have "st = []" using 2(2) levels_length [of fetch C "[] # st" path] by (simp add: search_inv_def)
    then show ?thesis using 2(2) Nil by simp
  next
    case (Cons p ps)
    have "search_inv fetch C ([] # st) (p # ps) seen sub" using 2(2) Cons by simp
    then have "search_inv fetch C st ps seen sub" by (rule search_inv_pop)
    then show ?thesis using 2(1) Cons by (auto split: option.splits)
  qed
next
  case (3 e es st path)
  then show ?case by simp
qed

text \<open>
  The three ways an event taken from the stack is treated keep the invariant. Here
  \<open>path_events\<close> is what the code adds to the subgraph.
\<close>

lemma visit_inv:
  assumes inv: "search_inv fetch C ((e # es) # st) path seen sub" and ac: "acyclic_auth fetch"
    and add: "added = (if (e \<in> sub \<or> e \<in> C) \<and> path \<noteq> [] then set (e # path) else {})"
  shows "e \<in> sub \<or> e \<in> seen \<or> fetch e = None \<Longrightarrow> search_inv fetch C (es # st) path seen (sub \<union> added)"
    and "e \<notin> sub \<Longrightarrow> e \<notin> seen \<Longrightarrow> set l = set (auth_ids fetch e)
      \<Longrightarrow> search_inv fetch C (l # es # st) (e # path) (insert e seen) (sub \<union> added)"
proof -
  have lev: "levels fetch C ((e # es) # st) path" and sub: "sub \<subseteq> seen \<union> {x. fetch x = None}"
    "sub \<subseteq> between_conflicted fetch C" and path: "set path \<subseteq> seen" "suffix_closed sub path"
    using inv by (auto simp: search_inv_def)
  have top: "case path of [] \<Rightarrow> e \<in> C | p # _ \<Rightarrow> e \<in> set (auth_ids fetch p)"
    using levels_top [OF lev] by blast
  have added: "added \<subseteq> between_conflicted fetch C"
  proof (cases path)
    case (Cons p ps)
    have "(e \<in> C \<or> e \<in> sub) \<Longrightarrow> set (e # p # ps) \<subseteq> between_conflicted fetch C"
      using extension_sound [of fetch C "(e # es) # st" p ps seen sub e] inv ac top Cons by auto
    then show ?thesis using add Cons by auto
  qed (simp add: add)
  have sc: "suffix_closed (sub \<union> added) (if e \<in> sub \<or> e \<in> C then e # path else path)"
    using path(2) by (auto simp: add intro: suffix_closed_all)
  have sc': "suffix_closed (sub \<union> added) path"
    using path(2) by (auto simp: add intro: suffix_closed_all)
  { assume known: "e \<in> sub \<or> e \<in> seen \<or> fetch e = None"
    then have known': "e \<in> seen \<or> fetch e = None" using sub(1) by auto
    have vis: "visited fetch C seen (sub \<union> added) (hd path) e" if ne: "path \<noteq> []"
    proof -
      obtain p ps where p: "path = p # ps" using ne by (cases path) auto
      have "p \<in> sub \<union> added" if lead: "leads_to fetch C e" and out: "e \<notin> sub" "e \<notin> C"
      proof -
        have "auth_ids fetch e \<noteq> []" using leads_to_step [OF lead out(2)] by auto
        then have "fetch e \<noteq> None" using auth_ids_None by metis
        then have seen: "e \<in> seen" using known' by metis
        have "e \<notin> set path"
        proof
          assume "e \<in> set path"
          then have "(e, p) \<in> (auth_rel fetch)\<^sup>*"
            using levels_path [of fetch C "(e # es) # st" p ps] lev p by auto
          moreover have "(p, e) \<in> auth_rel fetch" using top p by simp
          ultimately have "(e, e) \<in> (auth_rel fetch)\<^sup>+" by (rule rtrancl_into_trancl1)
          then show False using ac by (simp add: acyclic_auth_def acyclic_def)
        qed
        then have "e \<in> sub"
          using finished_in_subgraph [OF inv seen _ lead out(2)] pending_path by blast
        then show ?thesis using out(1) by simp
      qed
      then show ?thesis using known' p add by (auto simp: visited_def)
    qed
    show "search_inv fetch C (es # st) path seen (sub \<union> added)"
      by (rule search_inv_skip [OF inv])
        (use sub added sc' vis known' path in \<open>auto simp: add split: if_splits\<close>) }
  { assume new: "e \<notin> sub" "e \<notin> seen" "set l = set (auth_ids fetch e)"
    have "suffix_closed (sub \<union> added) (e # path)"
      using sc sc' new(1) by (auto simp: add split: if_splits)
    then show "search_inv fetch C (l # es # st) (e # path) (insert e seen) (sub \<union> added)"
      by (intro search_inv_push [OF inv])
        (use sub added new path in \<open>auto simp: add split: if_splits\<close>) }
qed

text \<open>When the search ends, the subgraph is complete.\<close>

lemma search_complete:
  assumes "search_inv fetch C [[]] [] seen sub"
  shows "sub = between_conflicted fetch C"
proof
  show "sub \<subseteq> between_conflicted fetch C" using assms by (simp add: search_inv_def)
  have known: "c \<in> seen" if "c \<in> C" "fetch c \<noteq> None" for c
    using assms that by (auto simp: search_inv_def)
  have vis: "visited fetch C seen sub y x" if "y \<in> seen" "x \<in> set (auth_ids fetch y)" for y x
    using assms that by (simp add: search_inv_def)
  have closed: "y \<in> seen" if "(c, y) \<in> (auth_rel fetch)\<^sup>*" "c \<in> seen" "fetch y \<noteq> None" for c y
    using that
  proof (induction rule: rtrancl_induct)
    case (step y z)
    have "fetch y \<noteq> None" using step.hyps(2) fetchable by simp
    then show ?case using step vis [of y z] by (auto simp: visited_def)
  qed
  show "between_conflicted fetch C \<subseteq> sub"
  proof
    fix x assume "x \<in> between_conflicted fetch C"
    then obtain c d where cd: "c \<in> C" "d \<in> C" "c \<noteq> d" "(c, x) \<in> (auth_rel fetch)\<^sup>*"
      "(x, d) \<in> (auth_rel fetch)\<^sup>*" by (auto simp: between_conflicted_def)
    have "(c, d) \<in> (auth_rel fetch)\<^sup>*" using cd(4,5) by (rule rtrancl_trans)
    then obtain c' where "(c, c') \<in> auth_rel fetch" using cd(3) by (metis converse_rtranclE)
    then have c: "c \<in> seen" using known [OF cd(1)] by (auto dest: fetchable)
    show "x \<in> sub"
    proof (cases "x = d")
      case True
      then obtain y where y: "(c, y) \<in> (auth_rel fetch)\<^sup>*" "x \<in> set (auth_ids fetch y)"
        using cd(3,4) by (metis auth_rel_iff rtranclE)
      then have "y \<in> seen" using closed [OF y(1) c] by (auto dest: fetchable)
      then show ?thesis using vis y(2) True cd(2) by (auto simp: visited_def)
    next
      case False
      then obtain z where z: "z \<in> set (auth_ids fetch x)" "(z, d) \<in> (auth_rel fetch)\<^sup>*"
        using cd(5) by (metis auth_rel_iff converse_rtranclE)
      then have "x \<in> seen" using closed [OF cd(4) c] by (auto dest: fetchable)
      then show ?thesis using vis z cd(2) by (auto simp: visited_def leads_to_def)
    qed
  qed
qed

text \<open>What is left to do: the events on the stack and the auth events not yet stacked.\<close>

definition search_work :: "'c fetch \<Rightarrow> string set \<Rightarrow> string list list \<Rightarrow> nat" where
  "search_work fetch seen st =
     sum_list (map length st) + (\<Sum>x \<in> dom fetch - seen. length (auth_ids fetch x))"

lemma search_work_push:
  assumes "finite (dom fetch)" and "fetch e = Some ev" and "e \<notin> seen"
  shows "search_work fetch (insert e seen) (rev (ev_auth_events ev) # st) = search_work fetch seen st"
proof -
  have "e \<in> dom fetch - seen" using assms(2,3) by (simp add: domI)
  then have "(\<Sum>x \<in> dom fetch - seen. length (auth_ids fetch x))
      = length (auth_ids fetch e) + (\<Sum>x \<in> dom fetch - insert e seen. length (auth_ids fetch x))"
    using assms(1) sum.remove [of "dom fetch - seen" e "\<lambda>x. length (auth_ids fetch x)"]
    by (simp add: Diff_insert2 [symmetric] Diff_insert [symmetric])
  then show ?thesis using assms(2) by (simp add: search_work_def auth_ids_def)
qed

lemma subgraph_loop_correct:
  assumes "search_inv fetch (set C) st path (set seen) (set sub)" and ac: "acyclic_auth fetch"
    and fin: "finite (dom fetch)" and "search_work fetch (set seen) st < fuel"
  shows "\<exists>sub'. subgraph_loop fuel fetch C st path seen sub = Inr sub'
    \<and> set sub' = between_conflicted fetch (set C)"
  using assms(1,4)
proof (induction fuel arbitrary: st path seen sub)
  case 0
  then show ?case by simp
next
  case (Suc fuel)
  show ?case
  proof (cases "next_event st path")
    case None
    then have "search_inv fetch (set C) [[]] [] (set seen) (set sub)"
      using next_event_inv [OF Suc.prems(1)] by simp
    then show ?thesis using None search_complete by simp
  next
    case (Some top)
    obtain e es st' path' where nx: "next_event st path = Some (e, es # st', path')"
      and inv: "search_inv fetch (set C) ((e # es) # st') path' (set seen) (set sub)"
      and len: "sum_list (map length st) = Suc (sum_list (map length (es # st')))"
      using next_event_inv [OF Suc.prems(1)] Some by (cases top) auto
    have work: "search_work fetch (set seen) (es # st') < fuel"
      using Suc.prems(2) len by (simp add: search_work_def)
    define added where "added = (if (e \<in> set sub \<or> e \<in> set C) \<and> path' \<noteq> [] then set (e # path') else {})"
    define sub1 where "sub1 = (if (e \<in> set sub \<or> e \<in> set C) \<and> path' \<noteq> []
      then extend_set sub (e # path') else sub)"
    have sub1: "set sub1 = set sub \<union> added" by (simp add: sub1_def added_def)
    note skip = visit_inv(1) [OF inv ac added_def, folded sub1]
      and push = visit_inv(2) [OF inv ac added_def, folded sub1]
    show ?thesis
    proof (cases "e \<in> set sub \<or> e \<in> set seen \<or> fetch e = None")
      case True
      then have "subgraph_loop (Suc fuel) fetch C st path seen sub
          = subgraph_loop fuel fetch C (es # st') path' seen sub1"
        using nx by (auto simp: Let_def sub1_def)
      then show ?thesis using Suc.IH [OF skip [OF True] work] by simp
    next
      case False
      then obtain ev where ev: "fetch e = Some ev" by auto
      have "subgraph_loop (Suc fuel) fetch C st path seen sub
          = subgraph_loop fuel fetch C (rev (ev_auth_events ev) # es # st') (e # path') (e # seen) sub1"
        using nx ev False by (auto simp: Let_def sub1_def)
      moreover have "search_inv fetch (set C) (rev (ev_auth_events ev) # es # st') (e # path')
          (set (e # seen)) (set sub1)"
        using push [of "rev (ev_auth_events ev)"] False ev by (simp add: auth_ids_def)
      moreover have "search_work fetch (set (e # seen)) (rev (ev_auth_events ev) # es # st') < fuel"
        using search_work_push [OF fin ev, of "set seen" "es # st'"] False work by simp
      ultimately show ?thesis using Suc.IH by simp
    qed
  qed
qed

lemma conflicted_subgraph_spec:
  assumes "fair_sched S" and "acyclic_auth fetch" and "finite (dom fetch)"
    and "C = remdups (concat (map snd conflicted))"
    and "length C + (\<Sum>x \<in> dom fetch. length (auth_ids fetch x)) < fuel"
  shows "\<exists>sub. calculate_conflicted_subgraph fuel S fetch conflicted = Inr sub
    \<and> set sub = between_conflicted fetch (set C)"
proof -
  have ord: "iteration_order (ids_order S)" using assms(1) by (simp add: fair_sched_def)
  have "search_inv fetch (set C) [rev (ids_order S C)] [] (set []) (set [])"
    using iteration_orderD(1) [OF ord] by (simp add: search_inv_def)
  moreover have "search_work fetch (set []) [rev (ids_order S C)] < fuel"
    using assms(5) iteration_orderD(3) [OF ord] by (simp add: search_work_def)
  ultimately have "\<exists>sub. subgraph_loop fuel fetch C [rev (ids_order S C)] [] [] [] = Inr sub
    \<and> set sub = between_conflicted fetch (set C)"
    by (intro subgraph_loop_correct assms(2,3))
  then show ?thesis by (simp only: calculate_conflicted_subgraph_def assms(4) Let_def)
qed

text \<open>C22. The search ends, and what it returns is exactly the set of events on the auth paths
  between two different conflicted events, in whatever order the hash set hands the
  conflicted events out.\<close>

theorem conflicted_subgraph_correct:
  assumes "fair_sched S" and "acyclic_auth fetch" and "finite (dom fetch)"
    and "C = remdups (concat (map snd conflicted))"
    and "length C + (\<Sum>x \<in> dom fetch. length (auth_ids fetch x)) < fuel"
  shows "\<exists>sub. calculate_conflicted_subgraph fuel S fetch conflicted = Inr sub
    \<and> set sub = between_conflicted fetch (set C)"
  using conflicted_subgraph_spec [OF assms] .

lemma sample_fetch_acyclic: "acyclic_auth sample_fetch"
  by (rule acyclic_authI [where rank = "\<lambda>e. if e = ''$create'' then 0 else if e = ''$alice'' then 1
      else if e = ''$power'' then 2 else if e = ''$rules'' then 3 else 4"])
    (auto simp: auth_ids_def sample_fetch_def store_def sample_events_def sample_events_defs split: if_splits)

theorem conflicted_subgraph_correct_witness:
  "between_conflicted sample_fetch {''$carol'', ''$alice''}
   = {''$carol'', ''$power'', ''$rules'', ''$alice''}"
proof -
  let ?conflicted = "[((RoomMember, carol), [''$carol'']), ((RoomMember, alice), [''$alice''])]"
  have dom: "dom sample_fetch = {''$create'', ''$alice'', ''$power'', ''$rules'', ''$bob'', ''$carol''}"
    by (auto simp: sample_fetch_def store_def sample_events_def sample_events_defs split: if_splits)
  have "[''$carol'', ''$alice''] = remdups (concat (map snd ?conflicted))" by simp
  moreover have "(\<Sum>x \<in> dom sample_fetch. length (auth_ids sample_fetch x)) = 12"
    unfolding dom
    by (simp add: auth_ids_def sample_fetch_def store_def sample_events_def sample_events_defs)
  then have "length [''$carol'', ''$alice''] + (\<Sum>x \<in> dom sample_fetch. length (auth_ids sample_fetch x)) < 20"
    by simp
  ultimately obtain sub where
    sub: "calculate_conflicted_subgraph 20 sample_sched sample_fetch ?conflicted = Inr sub"
    "set sub = between_conflicted sample_fetch (set [''$carol'', ''$alice''])"
    using conflicted_subgraph_correct [OF fair_sample_sched sample_fetch_acyclic]
      finite_store [of sample_events] unfolding sample_fetch_def by blast
  have "calculate_conflicted_subgraph 20 sample_sched sample_fetch ?conflicted
      = Inr [''$alice'', ''$power'', ''$rules'', ''$carol'']" by code_simp
  then have "sub = [''$alice'', ''$power'', ''$rules'', ''$carol'']" using sub(1) by (metis sum.inject(2))
  then have "between_conflicted sample_fetch (set [''$carol'', ''$alice''])
      = {''$alice'', ''$power'', ''$rules'', ''$carol''}" using sub(2) by (simp only: list.set)
  then show ?thesis by (simp add: insert_commute)
qed

end
