(* ===== verification/PowerSort.thy ===== *)
theory PowerSort
  imports ConflictedSubgraph PowerLevels
begin

text \<open>
  The power events and their order (\<open>src/src/core/matrix/state_res/mod.rs\<close>):
  \<open>is_power_event\<close>, the sender's power level, the graph of the power events and their auth
  chains inside the conflicted set, and \<open>reverse_topological_power_sort\<close>.
\<close>

subsection \<open>Power events\<close>

definition is_power_event :: "'c ruma \<Rightarrow> 'c pdu \<Rightarrow> bool" where
  "is_power_event R event =
     (if ev_type event = RoomPowerLevels \<or> ev_type event = RoomJoinRules
        \<or> ev_type event = RoomCreate then ev_state_key event = Some ''''
      else if ev_type event = RoomMember then
        (case de_RoomMemberEventContent R (ev_content event) of
           Some membership \<Rightarrow>
             (if membership = Leave \<or> membership = Ban
              then Some (ev_sender event) \<noteq> ev_state_key event else False)
         | None \<Rightarrow> False)
      else False)"

definition is_power_event_id :: "'c ruma \<Rightarrow> 'c fetch \<Rightarrow> string \<Rightarrow> bool" where
  "is_power_event_id R fetch event_id =
     (case fetch event_id of Some state \<Rightarrow> is_power_event R state | None \<Rightarrow> False)"

text \<open>
  The power level of an event's sender, according to the first of the event's auth events to
  arrive that is a power level event.
\<close>

definition get_power_level_for_sender ::
  "'c ruma \<Rightarrow> sched \<Rightarrow> 'c fetch \<Rightarrow> string \<Rightarrow> int result" where
  "get_power_level_for_sender R S fetch event_id =
     (let event = fetch event_id;
          pl = List.find (\<lambda>aev. is_type_and_key aev RoomPowerLevels '''')
                 (List.map_filter fetch (arrival S (auth_ids fetch event_id)))
      in case pl of
           None \<Rightarrow> Inr 0
         | Some ev \<Rightarrow>
             bindR (ok_or SerdeJson (de_PowerLevelsContentFields R (ev_content ev))) (\<lambda>content.
               Inr (case event of
                   Some ev \<Rightarrow>
                     (case get_user_power content (ev_sender ev) of
                        Some user_level \<Rightarrow> user_level
                      | None \<Rightarrow> plf_users_default content)
                 | None \<Rightarrow> plf_users_default content)))"

subsection \<open>The graph of the power events\<close>

definition add_auth_edge ::
  "string list \<Rightarrow> string \<Rightarrow> string \<Rightarrow> string list \<times> string graph \<Rightarrow> string list \<times> string graph" where
  "add_auth_edge auth_diff eid aid st =
     (case st of (state, graph) \<Rightarrow>
        if aid \<in> set auth_diff then
          (if map_of graph aid = None then aid # state else state,
           AList.update eid (set_insert aid (or_default (map_of graph eid))) graph)
        else (state, graph))"

definition graph_visit ::
  "'c fetch \<Rightarrow> string list \<Rightarrow> string \<Rightarrow> string list \<times> string graph \<Rightarrow> string list \<times> string graph" where
  "graph_visit fetch auth_diff eid st =
     (case st of (state, graph) \<Rightarrow>
        (let graph = (if map_of graph eid = None then AList.update eid [] graph else graph)
         in fold (add_auth_edge auth_diff eid) (auth_ids fetch eid) (state, graph)))"

text \<open>What visiting an event does to the stack and to the graph.\<close>

lemma fold_add_auth_edge:
  assumes "fold (add_auth_edge diff eid) aids (st, g) = (st', g')" and "eid \<in> fst ` set g"
  shows "st' = rev (filter (\<lambda>a. a \<in> set diff \<and> a \<notin> fst ` set g) aids) @ st
    \<and> fst ` set g' = fst ` set g
    \<and> (\<forall>n. edges g' n = (if n = eid then edges g n \<union> (set aids \<inter> set diff) else edges g n))
    \<and> (distinct (map fst g) \<longrightarrow> distinct (map fst g'))
    \<and> ((\<forall>k. distinct (or_default (map_of g k))) \<longrightarrow> (\<forall>k. distinct (or_default (map_of g' k))))"
  using assms
proof (induction aids arbitrary: st g)
  case Nil
  then show ?case by simp
next
  case (Cons a aids)
  obtain st1 g1 where one: "add_auth_edge diff eid a (st, g) = (st1, g1)"
    by (cases "add_auth_edge diff eid a (st, g)")
  have "g1 = (if a \<in> set diff then AList.update eid (set_insert a (or_default (map_of g eid))) g else g)"
    using one by (auto simp: add_auth_edge_def split: if_splits)
  then have keys: "fst ` set g1 = fst ` set g" using Cons.prems(2) by (simp add: insert_absorb)
  have edges1: "edges g1 n = (if n = eid \<and> a \<in> set diff then insert a (edges g n) else edges g n)" for n
    using one by (auto simp: add_auth_edge_def edges_def update_conv' split: if_splits)
  have st1: "st1 = (if a \<in> set diff \<and> a \<notin> fst ` set g then [a] else []) @ st"
    using one by (auto simp: add_auth_edge_def map_of_eq_None_iff split: if_splits)
  have d1: "distinct (map fst g) \<longrightarrow> distinct (map fst g1)"
    using one by (auto simp: add_auth_edge_def distinct_update split: if_splits)
  have d2: "(\<forall>k. distinct (or_default (map_of g k))) \<longrightarrow> (\<forall>k. distinct (or_default (map_of g1 k)))"
    using one by (auto simp: add_auth_edge_def update_conv' split: if_splits)
  have "fold (add_auth_edge diff eid) aids (st1, g1) = (st', g')" "eid \<in> fst ` set g1"
    using Cons.prems one keys by simp_all
  note IH = Cons.IH [OF this, unfolded keys]
  have "st' = rev (filter (\<lambda>a. a \<in> set diff \<and> a \<notin> fst ` set g) (a # aids)) @ st"
    using IH st1 by simp
  moreover have "edges g' n
      = (if n = eid then edges g n \<union> (set (a # aids) \<inter> set diff) else edges g n)" for n
    using IH edges1 by auto
  ultimately show ?case using IH d1 d2 by blast
qed

lemma graph_visit_result:
  assumes "graph_visit fetch diff eid (st, g) = (st', g')"
  shows "st' = rev (filter (\<lambda>a. a \<in> set diff \<and> a \<notin> insert eid (fst ` set g)) (auth_ids fetch eid)) @ st"
    and "fst ` set g' = insert eid (fst ` set g)"
    and "edges g' n = (if n = eid then edges g n \<union> (set (auth_ids fetch eid) \<inter> set diff)
      else edges g n)"
    and "distinct (map fst g) \<Longrightarrow> distinct (map fst g')"
    and "(\<And>k. distinct (or_default (map_of g k))) \<Longrightarrow> distinct (or_default (map_of g' k))"
proof -
  define g1 where "g1 = (if map_of g eid = None then AList.update eid [] g else g)"
  have keys: "fst ` set g1 = insert eid (fst ` set g)"
    by (auto simp: g1_def map_of_eq_None_iff intro: rev_image_eqI dest: map_of_SomeD)
  have e1: "edges g1 n = edges g n" for n by (simp add: g1_def edges_def update_conv')
  have d1: "distinct (map fst g) \<Longrightarrow> distinct (map fst g1)" by (simp add: g1_def distinct_update)
  have d2: "(\<And>k. distinct (or_default (map_of g k))) \<Longrightarrow> distinct (or_default (map_of g1 k))" for k
    by (simp add: g1_def update_conv')
  have run: "fold (add_auth_edge diff eid) (auth_ids fetch eid) (st, g1) = (st', g')"
    using assms by (simp add: graph_visit_def g1_def)
  have in1: "eid \<in> fst ` set g1" by (simp add: keys)
  note r = fold_add_auth_edge [OF run in1]
  show "st' = rev (filter (\<lambda>a. a \<in> set diff \<and> a \<notin> insert eid (fst ` set g)) (auth_ids fetch eid)) @ st"
    using r by (simp only: keys)
  show "fst ` set g' = insert eid (fst ` set g)" using r keys by simp
  show "edges g' n = (if n = eid then edges g n \<union> (set (auth_ids fetch eid) \<inter> set diff) else edges g n)"
    using r e1 by simp
  show "distinct (map fst g) \<Longrightarrow> distinct (map fst g')" using r d1 by blast
  show "(\<And>k. distinct (or_default (map_of g k))) \<Longrightarrow> distinct (or_default (map_of g' k))"
    using r d2 by blast
qed

text \<open>
  The loop ends: a visit either enters a new event of \<open>auth_diff\<close> into the graph, or takes an
  event already there off the stack and pushes only events that are not there yet.
\<close>

definition visit_weight :: "'c fetch \<Rightarrow> string graph \<Rightarrow> string \<Rightarrow> nat" where
  "visit_weight fetch g e = (if e \<in> fst ` set g
     then 2 + length (filter (\<lambda>a. a \<notin> fst ` set g) (auth_ids fetch e)) else 1)"

function graph_loop ::
  "'c fetch \<Rightarrow> string list \<Rightarrow> string list \<Rightarrow> string graph \<Rightarrow> string graph" where
  "graph_loop fetch auth_diff [] graph = graph"
| "graph_loop fetch auth_diff (eid # state) graph =
     (case graph_visit fetch auth_diff eid (state, graph) of (state, graph) \<Rightarrow>
        graph_loop fetch auth_diff state graph)"
  by pat_completeness auto
termination
proof (relation "measures
    [\<lambda>(fetch, diff, st, g). card ((set diff \<union> set st) - fst ` set g),
     \<lambda>(fetch, diff, st, g). sum_list (map (visit_weight fetch g) st)]", goal_cases)
  case 1
  then show ?case by simp
next
  case (2 fetch diff eid st g st' g')
  have visit: "graph_visit fetch diff eid (st, g) = (st', g')" using 2 by simp
  note r = graph_visit_result [OF visit]
  show ?case
  proof (cases "eid \<in> fst ` set g")
    case True
    define new where "new = filter (\<lambda>a. a \<in> set diff \<and> a \<notin> fst ` set g) (auth_ids fetch eid)"
    have st': "st' = rev new @ st" using r(1) True by (simp add: new_def insert_absorb)
    have keys: "fst ` set g' = fst ` set g" using r(2) True by (simp add: insert_absorb)
    have w: "visit_weight fetch g' = visit_weight fetch g"
      unfolding visit_weight_def keys ..
    have "map (visit_weight fetch g) new = map (\<lambda>_. 1) new"
      by (auto simp: new_def visit_weight_def)
    then have "sum_list (map (visit_weight fetch g) (rev new)) = length new"
      by (metis rev_map sum_list_rev sum_list_triv mult.right_neutral of_nat_id)
    moreover have "length new \<le> length (filter (\<lambda>a. a \<notin> fst ` set g) (auth_ids fetch eid))"
      using length_filter_le [of "\<lambda>a. a \<in> set diff" "filter (\<lambda>a. a \<notin> fst ` set g) (auth_ids fetch eid)"]
      by (simp add: new_def conj_commute)
    moreover have "visit_weight fetch g eid
        = 2 + length (filter (\<lambda>a. a \<notin> fst ` set g) (auth_ids fetch eid))"
      using True by (simp add: visit_weight_def)
    ultimately have "sum_list (map (visit_weight fetch g') st')
        < sum_list (map (visit_weight fetch g) (eid # st))"
      by (simp add: st' w)
    moreover have "(set diff \<union> set st') - fst ` set g' = (set diff \<union> set (eid # st)) - fst ` set g"
      using True by (auto simp: st' keys new_def)
    ultimately show ?thesis by simp
  next
    case False
    have "(set diff \<union> set st') - fst ` set g' \<subset> (set diff \<union> set (eid # st)) - fst ` set g"
      using False r(1,2) by auto
    then have "card ((set diff \<union> set st') - fst ` set g')
        < card ((set diff \<union> set (eid # st)) - fst ` set g)"
      by (intro psubset_card_mono) auto
    then show ?thesis by simp
  qed
qed

definition add_event_and_auth_chain_to_graph ::
  "'c fetch \<Rightarrow> string list \<Rightarrow> string \<Rightarrow> string graph \<Rightarrow> string graph" where
  "add_event_and_auth_chain_to_graph fetch auth_diff event_id graph =
     graph_loop fetch auth_diff [event_id] graph"

definition power_sort_key ::
  "'c fetch \<Rightarrow> (string \<times> int) list \<Rightarrow> string key_fn" where
  "power_sort_key fetch event_to_pl event_id =
     bindR (ok_or (NotFound '''') (map_of event_to_pl event_id)) (\<lambda>pl.
     bindR (ok_or (NotFound '''') (fetch event_id)) (\<lambda>ev. Inr (pl, ev_ts ev)))"

definition reverse_topological_power_sort ::
  "'c ruma \<Rightarrow> sched \<Rightarrow> 'c fetch \<Rightarrow> string list \<Rightarrow> string list \<Rightarrow> string list result" where
  "reverse_topological_power_sort R S fetch events_to_sort auth_diff =
     (let graph = fold (add_event_and_auth_chain_to_graph fetch auth_diff) events_to_sort [];
          event_to_pl = List.map_filter (\<lambda>event_id.
              case get_power_level_for_sender R S fetch event_id of
                Inr pl \<Rightarrow> Some (event_id, pl)
              | Inl _ \<Rightarrow> None) (arrival S (ids_order S (map fst graph)))
      in lexicographical_topological_sort (ids_order S) (iter_map (ids_order S) graph)
           (power_sort_key fetch event_to_pl))"

subsection \<open>What the graph contains\<close>

text \<open>The auth edges that stay inside the conflicted set.\<close>

definition diff_rel :: "'c fetch \<Rightarrow> string list \<Rightarrow> (string \<times> string) set" where
  "diff_rel fetch diff = {(a, b). b \<in> set (auth_ids fetch a) \<and> b \<in> set diff}"

definition graph_inv :: "'c fetch \<Rightarrow> string list \<Rightarrow> string list \<Rightarrow> string graph \<Rightarrow> bool" where
  "graph_inv fetch diff st g \<longleftrightarrow> distinct (map fst g) \<and> (\<forall>k. distinct (or_default (map_of g k)))
     \<and> (\<forall>n \<in> nodes g. edges g n = set (auth_ids fetch n) \<inter> set diff \<and> edges g n \<subseteq> nodes g \<union> set st)"

lemma edges_not_node: "n \<notin> nodes g \<Longrightarrow> edges g n = {}"
  by (simp add: edges_def nodes_def map_of_eq_None_iff [THEN iffD2])

lemma graph_visit_inv:
  assumes inv: "graph_inv fetch diff (eid # st) g" and visit: "graph_visit fetch diff eid (st, g) = (st', g')"
  shows "graph_inv fetch diff st' g'" and "nodes g' = insert eid (nodes g)"
    and "set st' \<subseteq> set st \<union> (diff_rel fetch diff `` {eid})" and "set st \<subseteq> set st'"
proof -
  note r = graph_visit_result [OF visit]
  show nodes': "nodes g' = insert eid (nodes g)" using r(2) by (simp add: nodes_def)
  have st': "set st' = set st \<union> ((set (auth_ids fetch eid) \<inter> set diff) - nodes g')"
    unfolding nodes' r(1) by (auto simp: nodes_def)
  show "set st' \<subseteq> set st \<union> (diff_rel fetch diff `` {eid})" "set st \<subseteq> set st'"
    using st' by (auto simp: diff_rel_def)
  have "edges g' n = set (auth_ids fetch n) \<inter> set diff \<and> edges g' n \<subseteq> nodes g' \<union> set st'"
    if n: "n \<in> nodes g'" for n
  proof (cases "n = eid")
    case True
    have "edges g eid \<subseteq> set (auth_ids fetch eid) \<inter> set diff"
      using inv edges_not_node [of eid g] by (cases "eid \<in> nodes g") (auto simp: graph_inv_def)
    then have "edges g' n = set (auth_ids fetch n) \<inter> set diff" using r(3) [of n] True by auto
    then show ?thesis using True st' by auto
  next
    case False
    then have "n \<in> nodes g" using n nodes' by simp
    then have "edges g n = set (auth_ids fetch n) \<inter> set diff" "edges g n \<subseteq> nodes g \<union> set (eid # st)"
      using inv by (auto simp: graph_inv_def)
    then show ?thesis using False r(3) [of n] st' nodes' by auto
  qed
  then show "graph_inv fetch diff st' g'"
    using inv r(4,5) unfolding graph_inv_def by blast
qed

lemma graph_loop_spec:
  assumes "graph_inv fetch diff st g"
  shows "graph_inv fetch diff [] (graph_loop fetch diff st g)
    \<and> nodes g \<union> set st \<subseteq> nodes (graph_loop fetch diff st g)
    \<and> nodes (graph_loop fetch diff st g) \<subseteq> nodes g \<union> (diff_rel fetch diff)\<^sup>* `` set st"
  using assms
proof (induction fetch diff st g rule: graph_loop.induct)
  case (1 fetch diff g)
  then show ?case by simp
next
  case (2 fetch diff eid st g)
  obtain st' g' where visit: "graph_visit fetch diff eid (st, g) = (st', g')"
    by (cases "graph_visit fetch diff eid (st, g)")
  note v = graph_visit_inv [OF 2(2) visit]
  note IH = 2(1) [OF visit [symmetric] v(1)]
  have "(diff_rel fetch diff)\<^sup>* `` set st' \<subseteq> (diff_rel fetch diff)\<^sup>* `` set (eid # st)"
    using v(3) by (auto intro: converse_rtrancl_into_rtrancl)
  moreover have "eid \<in> (diff_rel fetch diff)\<^sup>* `` set (eid # st)" by auto
  ultimately show ?case using IH v(2,4) unfolding graph_loop.simps visit prod.case list.set by blast
qed

definition power_graph :: "'c fetch \<Rightarrow> string list \<Rightarrow> string list \<Rightarrow> string graph" where
  "power_graph fetch diff events = fold (add_event_and_auth_chain_to_graph fetch diff) events []"

definition power_nodes :: "'c fetch \<Rightarrow> string list \<Rightarrow> string list \<Rightarrow> string set" where
  "power_nodes fetch diff events = (diff_rel fetch diff)\<^sup>* `` set events"

lemma power_graph_spec:
  "graph_inv fetch diff [] (power_graph fetch diff events)
   \<and> nodes (power_graph fetch diff events) = power_nodes fetch diff events"
proof -
  have "graph_inv fetch diff [] (fold (add_event_and_auth_chain_to_graph fetch diff) events g)
    \<and> nodes g \<union> set events \<subseteq> nodes (fold (add_event_and_auth_chain_to_graph fetch diff) events g)
    \<and> nodes (fold (add_event_and_auth_chain_to_graph fetch diff) events g)
        \<subseteq> nodes g \<union> (diff_rel fetch diff)\<^sup>* `` set events"
    if "graph_inv fetch diff [] g" for g
    using that
  proof (induction events arbitrary: g)
    case Nil
    then show ?case by simp
  next
    case (Cons e events)
    have "graph_inv fetch diff [e] g" using Cons.prems by (auto simp: graph_inv_def)
    note one = graph_loop_spec [OF this]
    let ?g = "graph_loop fetch diff [e] g"
    have "fold (add_event_and_auth_chain_to_graph fetch diff) (e # events) g
        = fold (add_event_and_auth_chain_to_graph fetch diff) events ?g"
      by (simp add: add_event_and_auth_chain_to_graph_def del: graph_loop.simps)
    then show ?case using one Cons.IH [of ?g] by (simp del: graph_loop.simps) blast
  qed
  moreover have "graph_inv fetch diff [] []" by (simp add: graph_inv_def nodes_def)
  ultimately have g0: "graph_inv fetch diff [] (fold (add_event_and_auth_chain_to_graph fetch diff) events [])
    \<and> nodes [] \<union> set events \<subseteq> nodes (fold (add_event_and_auth_chain_to_graph fetch diff) events [])
    \<and> nodes (fold (add_event_and_auth_chain_to_graph fetch diff) events [])
        \<subseteq> nodes [] \<union> (diff_rel fetch diff)\<^sup>* `` set events" by blast
  have g: "graph_inv fetch diff [] (power_graph fetch diff events)"
    "set events \<subseteq> nodes (power_graph fetch diff events)"
    "nodes (power_graph fetch diff events) \<subseteq> power_nodes fetch diff events"
    using g0 unfolding power_graph_def power_nodes_def by (auto simp: nodes_def [of "[]"])
  have "n \<in> nodes (power_graph fetch diff events)"
    if "(e, n) \<in> (diff_rel fetch diff)\<^sup>*" "e \<in> set events" for e n
    using that
  proof (induction rule: rtrancl_induct)
    case base
    then show ?case using g(2) by blast
  next
    case (step n m)
    then show ?case using g(1) by (auto simp: graph_inv_def diff_rel_def)
  qed
  then show ?thesis using g(1,3) by (auto simp: power_nodes_def)
qed

text \<open>The sorter sees a well-formed graph, in whatever order the hash map is iterated.\<close>

lemma power_graph_iter:
  assumes "iteration_order ord"
  shows "wf_graph (iter_map ord (power_graph fetch diff events))"
    and "nodes (iter_map ord (power_graph fetch diff events)) = power_nodes fetch diff events"
    and "n \<in> power_nodes fetch diff events \<Longrightarrow>
      edges (iter_map ord (power_graph fetch diff events)) n = set (auth_ids fetch n) \<inter> set diff"
proof -
  let ?g = "power_graph fetch diff events"
  have inv: "graph_inv fetch diff [] ?g" and nodes: "nodes ?g = power_nodes fetch diff events"
    using power_graph_spec by auto
  have dist: "distinct (map fst ?g)" using inv by (simp add: graph_inv_def)
  have elems: "set (iter_map ord ?g) = set ?g" by (rule set_iter_map [OF assms dist])
  show n: "nodes (iter_map ord ?g) = power_nodes fetch diff events"
    using nodes by (simp add: nodes_def elems)
  have e: "edges (iter_map ord ?g) n = edges ?g n" for n
    by (simp add: edges_def map_of_iter_map [OF assms dist])
  show "n \<in> power_nodes fetch diff events \<Longrightarrow>
      edges (iter_map ord ?g) n = set (auth_ids fetch n) \<inter> set diff"
    using inv nodes by (simp add: e graph_inv_def)
  have "distinct es \<and> set es \<subseteq> nodes ?g" if "(n, es) \<in> set ?g" for n es
  proof -
    have get: "map_of ?g n = Some es" using that dist by simp
    then have "edges ?g n = set es" "n \<in> nodes ?g"
      using that by (auto simp: edges_def nodes_def intro: rev_image_eqI)
    then have "set es \<subseteq> nodes ?g \<union> set []" using inv unfolding graph_inv_def by metis
    then have "set es \<subseteq> nodes ?g" by simp
    moreover have "distinct (or_default (map_of ?g n))" using inv by (simp add: graph_inv_def)
    ultimately show ?thesis using get by simp
  qed
  moreover have "distinct (map fst (iter_map ord ?g))"
    using dist iteration_orderD(2) [OF assms] by (simp add: iter_map_keys)
  ultimately show "wf_graph (iter_map ord ?g)"
    by (auto simp: wf_graph_def elems n nodes [symmetric])
qed

subsection \<open>The keys of the sort\<close>

lemma map_of_map_filter:
  "map_of (List.map_filter (\<lambda>i. case f i of Inr v \<Rightarrow> Some (i, v) | Inl _ \<Rightarrow> None) xs) n
   = (if n \<in> set xs then (case f n of Inr v \<Rightarrow> Some v | Inl _ \<Rightarrow> None) else None)"
  by (induction xs) (auto simp: map_filter_simps split: sum.splits)

definition sender_levels_ok :: "'c ruma \<Rightarrow> sched \<Rightarrow> 'c fetch \<Rightarrow> string set \<Rightarrow> bool" where
  "sender_levels_ok R S fetch N \<longleftrightarrow>
     (\<forall>n \<in> N. fetch n \<noteq> None \<and> (\<exists>l. get_power_level_for_sender R S fetch n = Inr l))"

lemma power_sort_key_ok:
  assumes "fair_sched S" and "nodes g = N" and "n \<in> N" and "fetch n = Some ev"
    and "get_power_level_for_sender R S fetch n = Inr l"
  shows "power_sort_key fetch (List.map_filter (\<lambda>event_id.
      case get_power_level_for_sender R S fetch event_id of Inr pl \<Rightarrow> Some (event_id, pl) | Inl _ \<Rightarrow> None)
      (arrival S (ids_order S (map fst g)))) n = Inr (l, ev_ts ev)"
proof -
  have "n \<in> set (arrival S (ids_order S (map fst g)))"
    using assms(1-3) by (simp add: fair_sched_def nodes_def iteration_orderD(1))
  then show ?thesis using assms(4,5) by (simp add: power_sort_key_def map_of_map_filter)
qed

text \<open>
  The power sort as a topological sort with keys that depend only on the events: the sender's
  power level and the timestamp.
\<close>

definition event_key :: "'c ruma \<Rightarrow> sched \<Rightarrow> 'c fetch \<Rightarrow> string key_fn" where
  "event_key R S fetch n =
     bindR (get_power_level_for_sender R S fetch n) (\<lambda>l.
     bindR (ok_or (NotFound []) (fetch n)) (\<lambda>ev. Inr (l, ev_ts ev)))"

lemma kahn_cong:
  assumes "kahn N E key D xs" and "\<And>n. n \<in> N \<Longrightarrow> key n = key' n"
  shows "kahn N E key' D xs"
  using assms
proof (induction rule: kahn.induct)
  case (kahn_stop D)
  then show ?case by (intro kahn.kahn_stop)
next
  case (kahn_step n D xs)
  have "key' n \<le> key' m" if "m \<in> ready N E D" for m
    using kahn_step(1,2,5) that by (metis (no_types, lifting) DiffD1 mem_Collect_eq ready_def)
  then show ?case using kahn_step by (intro kahn.kahn_step) auto
qed

lemma power_sort_kahn:
  assumes "fair_sched S" and "sender_levels_ok R S fetch (power_nodes fetch diff events)"
  shows "\<exists>xs. reverse_topological_power_sort R S fetch events diff = Inr xs
    \<and> kahn (power_nodes fetch diff events) (\<lambda>n. if n \<in> power_nodes fetch diff events
         then set (auth_ids fetch n) \<inter> set diff else {}) (tb (event_key R S fetch)) {} xs"
proof -
  let ?N = "power_nodes fetch diff events" and ?g = "power_graph fetch diff events"
  let ?pls = "List.map_filter (\<lambda>event_id.
      case get_power_level_for_sender R S fetch event_id of Inr pl \<Rightarrow> Some (event_id, pl) | Inl _ \<Rightarrow> None)
      (arrival S (ids_order S (map fst ?g)))"
  let ?it = "iter_map (ids_order S) ?g"
  have ord: "iteration_order (ids_order S)" using assms(1) by (simp add: fair_sched_def)
  have N: "nodes ?g = ?N" using power_graph_spec by blast
  have key: "power_sort_key fetch ?pls n = event_key R S fetch n"
    and ok: "\<exists>k. power_sort_key fetch ?pls n = Inr k" if n: "n \<in> ?N" for n
  proof -
    obtain ev l where "fetch n = Some ev" "get_power_level_for_sender R S fetch n = Inr l"
      using assms(2) n by (auto simp: sender_levels_ok_def)
    moreover from this have "power_sort_key fetch ?pls n = Inr (l, ev_ts ev)"
      by (rule power_sort_key_ok [OF assms(1) N n])
    ultimately show "power_sort_key fetch ?pls n = event_key R S fetch n"
      "\<exists>k. power_sort_key fetch ?pls n = Inr k"
      by (simp_all add: event_key_def)
  qed
  note it = power_graph_iter [OF ord, where fetch = fetch and diff = diff and events = events]
  have "keys_ok ?it (power_sort_key fetch ?pls)" using ok it(2) by (simp add: keys_ok_def)
  from lexicographical_topological_sort_kahn [OF it(1) this ord] obtain xs where
    xs: "reverse_topological_power_sort R S fetch events diff = Inr xs"
    "kahn ?N (edges ?it) (tb (power_sort_key fetch ?pls)) {} xs"
    by (auto simp: reverse_topological_power_sort_def power_graph_def Let_def it(2) [unfolded power_graph_def])
  have "edges ?it = (\<lambda>n. if n \<in> ?N then set (auth_ids fetch n) \<inter> set diff else {})"
    using it(2,3) edges_not_node [of _ ?it] by (intro ext) simp
  moreover have "kahn ?N (edges ?it) (tb (event_key R S fetch)) {} xs"
    by (rule kahn_cong [OF xs(2)]) (simp add: tb_def key)
  ultimately show ?thesis using xs(1) by simp
qed

lemma diff_rel_auth_rel: "diff_rel fetch diff \<subseteq> auth_rel fetch"
  by (auto simp: diff_rel_def)

lemma power_nodes_closed:
  "n \<in> power_nodes fetch diff events \<Longrightarrow> m \<in> set (auth_ids fetch n) \<inter> set diff \<Longrightarrow>
   m \<in> power_nodes fetch diff events"
  by (auto simp: power_nodes_def diff_rel_def intro: rtrancl_into_rtrancl)

lemma finite_power_nodes [simp]: "finite (power_nodes fetch diff events)"
proof -
  have "power_nodes fetch diff events = nodes (power_graph fetch diff events)"
    using power_graph_spec by blast
  then show ?thesis by simp
qed

text \<open>On a finite part of an acyclic auth relation there is a rank for \<open>kahn_complete\<close>.\<close>

lemma acyclic_rank:
  assumes "finite N" and "acyclic_auth fetch"
  shows "\<exists>rank :: string \<Rightarrow> nat. (\<forall>n \<in> N. rank n < card N)
    \<and> (\<forall>n \<in> N. \<forall>m \<in> N. m \<in> set (auth_ids fetch n) \<longrightarrow> rank m < rank n)"
proof -
  let ?r = "auth_rel fetch" and ?down = "\<lambda>n. {m \<in> N. (n, m) \<in> (auth_rel fetch)\<^sup>+}"
  have "card (?down m) < card (?down n)" if "n \<in> N" "m \<in> N" "m \<in> set (auth_ids fetch n)" for n m
  proof (rule psubset_card_mono)
    show "finite (?down n)" using assms(1) by simp
    have nm: "(n, m) \<in> ?r" using that by simp
    have "m \<notin> ?down m" using assms(2) by (simp add: acyclic_auth_def acyclic_def)
    moreover have "m \<in> ?down n" using nm that(2) by blast
    moreover have "?down m \<subseteq> ?down n" using nm by (auto intro: trancl_into_trancl2)
    ultimately show "?down m \<subset> ?down n" by blast
  qed
  moreover have "card (?down n) < card N" if "n \<in> N" for n
    using assms that by (intro psubset_card_mono) (auto simp: acyclic_auth_def acyclic_def)
  ultimately show ?thesis by (intro exI [of _ "\<lambda>n. card (?down n)"]) blast
qed

lemma power_sort_set:
  assumes "kahn N (\<lambda>n. if n \<in> N then set (auth_ids fetch n) \<inter> set diff else {}) key {} xs"
    and "N = power_nodes fetch diff events" and "acyclic_auth fetch"
  shows "distinct xs \<and> set xs = N"
proof -
  let ?E = "\<lambda>n. if n \<in> N then set (auth_ids fetch n) \<inter> set diff else {}"
  obtain rank :: "string \<Rightarrow> nat" where
    rank: "\<forall>n \<in> N. \<forall>m \<in> N. m \<in> set (auth_ids fetch n) \<longrightarrow> rank m < rank n"
    using acyclic_rank [of N, OF _ assms(3)] assms(2) by auto
  have closed: "?E n \<subseteq> N" if "n \<in> N" for n
    using that power_nodes_closed [of n fetch diff events] assms(2) by auto
  have less: "rank m < rank n" if "n \<in> N" "m \<in> ?E n" for n m
    using that rank closed [OF that(1)] by auto
  have "set xs = N" by (rule kahn_complete [where rank = rank, OF assms(1) closed less])
  then show ?thesis using kahn_sound [OF assms(1)] by blast
qed

text \<open>C20. The power events and their auth chains inside the conflicted set come out in an
  order that respects authorization: every event once, after its auth events, and of two
  events that could both come next the one whose sender had more power, then the older one,
  then the one with the smaller id.\<close>

theorem power_sort_correct:
  assumes "fair_sched S" and "acyclic_auth fetch"
    and "sender_levels_ok R S fetch (power_nodes fetch diff events)"
  shows "\<exists>xs. reverse_topological_power_sort R S fetch events diff = Inr xs
    \<and> distinct xs \<and> set xs = power_nodes fetch diff events
    \<and> (\<forall>i < length xs. set (auth_ids fetch (xs ! i)) \<inter> set diff \<subseteq> set (take i xs))
    \<and> (\<forall>i j. i < j \<and> j < length xs \<and> set (auth_ids fetch (xs ! j)) \<inter> set diff \<subseteq> set (take i xs)
         \<longrightarrow> tb (event_key R S fetch) (xs ! i) < tb (event_key R S fetch) (xs ! j))"
proof -
  let ?N = "power_nodes fetch diff events"
  let ?E = "\<lambda>n. if n \<in> ?N then set (auth_ids fetch n) \<inter> set diff else {}"
  obtain xs where xs: "reverse_topological_power_sort R S fetch events diff = Inr xs"
    "kahn ?N ?E (tb (event_key R S fetch)) {} xs"
    using power_sort_kahn [OF assms(1,3)] by blast
  note set = power_sort_set [OF xs(2) refl assms(2)]
  have E: "?E (xs ! i) = set (auth_ids fetch (xs ! i)) \<inter> set diff" if "i < length xs" for i
    using that set nth_mem by auto
  have "tb (event_key R S fetch) (xs ! i) < tb (event_key R S fetch) (xs ! j)"
    if ij: "i < j" "j < length xs" "set (auth_ids fetch (xs ! j)) \<inter> set diff \<subseteq> set (take i xs)" for i j
  proof -
    have "tb (event_key R S fetch) (xs ! i) \<le> tb (event_key R S fetch) (xs ! j)"
      by (rule kahn_least [OF xs(2) ij(1,2)]) (use ij E in auto)
    moreover have "xs ! i \<noteq> xs ! j" using ij set by (simp add: nth_eq_iff_index_eq)
    then have "tb (event_key R S fetch) (xs ! i) \<noteq> tb (event_key R S fetch) (xs ! j)"
      by (metis inj_tb injD)
    ultimately show ?thesis by simp
  qed
  moreover have "set (auth_ids fetch (xs ! i)) \<inter> set diff \<subseteq> set (take i xs)" if "i < length xs" for i
    using kahn_sound [OF xs(2)] E [OF that] that by auto
  ultimately show ?thesis using xs(1) set by blast
qed

abbreviation sample_diff :: "string list" where
  "sample_diff \<equiv> [''$rules'', ''$power'', ''$carol'']"

lemma sample_power_nodes: "power_nodes sample_fetch sample_diff [''$rules''] = {''$power'', ''$rules''}"
proof -
  have "power_graph sample_fetch sample_diff [''$rules''] = [(''$rules'', [''$power'']), (''$power'', [])]"
    by code_simp
  then have "nodes (power_graph sample_fetch sample_diff [''$rules'']) = {''$rules'', ''$power''}"
    by (simp add: nodes_def)
  then show ?thesis using power_graph_spec by (metis insert_commute)
qed

lemma sample_sender_levels: "sender_levels_ok sample_ruma sample_sched sample_fetch {''$power'', ''$rules''}"
proof -
  have "get_power_level_for_sender sample_ruma sample_sched sample_fetch ''$power'' = Inr 0"
    "get_power_level_for_sender sample_ruma sample_sched sample_fetch ''$rules'' = Inr 100"
    by code_simp+
  then show ?thesis
    by (simp add: sender_levels_ok_def sample_fetch_def store_def sample_events_def sample_events_defs)
qed

theorem power_sort_correct_witness:
  "\<exists>xs. reverse_topological_power_sort sample_ruma sample_sched sample_fetch [''$rules''] sample_diff
     = Inr xs \<and> set xs = {''$power'', ''$rules''}"
  using power_sort_correct [OF fair_sample_sched sample_fetch_acyclic,
      of sample_ruma sample_diff "[''$rules'']"] sample_sender_levels
  unfolding sample_power_nodes by blast

text \<open>
  The lookup of the sender's level depends on the arrival order only if an event lists
  several power level events among its auth events.
\<close>

definition one_power_level :: "'c fetch \<Rightarrow> string \<Rightarrow> bool" where
  "one_power_level fetch n \<longleftrightarrow> (\<forall>a \<in> set (auth_ids fetch n). \<forall>b \<in> set (auth_ids fetch n). \<forall>x y.
     fetch a = Some x \<and> fetch b = Some y \<and> is_type_and_key x RoomPowerLevels ''''
     \<and> is_type_and_key y RoomPowerLevels '''' \<longrightarrow> x = y)"

lemma find_unique:
  assumes "set xs = set ys" and "\<forall>x \<in> set xs. \<forall>y \<in> set xs. P x \<and> P y \<longrightarrow> x = y"
  shows "List.find P xs = List.find P ys"
proof (cases "\<exists>x \<in> set xs. P x")
  case True
  then obtain x where x: "List.find P xs = Some x" by (metis find_None_iff not_None_eq)
  obtain y where y: "List.find P ys = Some y" using True assms(1) by (metis find_None_iff not_None_eq)
  have "x \<in> set xs" "P x" "y \<in> set ys" "P y" using x y by (auto simp: find_Some_iff)
  then show ?thesis using assms x y by metis
next
  case False
  then show ?thesis using assms(1) by (metis find_None_iff)
qed

lemma set_map_filter: "set (List.map_filter f xs) = {y. \<exists>x \<in> set xs. f x = Some y}"
  by (induction xs) (auto simp: map_filter_simps split: option.splits)

lemma get_power_level_arrival:
  assumes "fair_sched S" and "fair_sched S'" and "one_power_level fetch n"
  shows "get_power_level_for_sender R S fetch n = get_power_level_for_sender R S' fetch n"
proof -
  have "set (arrival S xs) = set (arrival S' xs)" for xs
    using assms(1,2) by (simp add: fair_sched_def iteration_orderD(1))
  then have "List.find (\<lambda>aev. is_type_and_key aev RoomPowerLevels '''')
        (List.map_filter fetch (arrival S (auth_ids fetch n)))
      = List.find (\<lambda>aev. is_type_and_key aev RoomPowerLevels '''')
        (List.map_filter fetch (arrival S' (auth_ids fetch n)))"
    using assms(1,3) by (intro find_unique)
      (auto simp: set_map_filter one_power_level_def fair_sched_def iteration_orderD(1))
  then show ?thesis by (simp add: get_power_level_for_sender_def)
qed

lemma power_sort_same:
  assumes "fair_sched S" and "fair_sched S'" and "set diff = set diff'" and "set events = set events'"
    and "sender_levels_ok R S fetch (power_nodes fetch diff events)"
    and lvl: "\<And>n. n \<in> power_nodes fetch diff events \<Longrightarrow>
      get_power_level_for_sender R S fetch n = get_power_level_for_sender R S' fetch n"
  shows "reverse_topological_power_sort R S fetch events diff
    = reverse_topological_power_sort R S' fetch events' diff'"
proof -
  let ?N = "power_nodes fetch diff events"
  have N: "power_nodes fetch diff' events' = ?N"
    using assms(3,4) by (simp add: power_nodes_def diff_rel_def)
  have ok': "sender_levels_ok R S' fetch (power_nodes fetch diff' events')"
    using assms(5) lvl unfolding N sender_levels_ok_def by metis
  have key: "tb (event_key R S fetch) n = tb (event_key R S' fetch) n" if "n \<in> ?N" for n
    using lvl [OF that] by (simp add: tb_def event_key_def)
  let ?E = "\<lambda>n. if n \<in> ?N then set (auth_ids fetch n) \<inter> set diff else {}"
  obtain xs where xs: "reverse_topological_power_sort R S fetch events diff = Inr xs"
    "kahn ?N ?E (tb (event_key R S fetch)) {} xs" using power_sort_kahn [OF assms(1,5)] by blast
  obtain ys where ys: "reverse_topological_power_sort R S' fetch events' diff' = Inr ys"
    "kahn ?N ?E (tb (event_key R S' fetch)) {} ys"
    using power_sort_kahn [OF assms(2) ok'] unfolding N assms(3) by blast
  have "kahn ?N ?E (tb (event_key R S' fetch)) {} xs" by (rule kahn_cong [OF xs(2) key])
  then have "xs = ys"
    by (rule kahn_unique [OF _ ys(2) inj_on_subset [OF inj_tb subset_UNIV]])
  then show ?thesis using xs ys by simp
qed

text \<open>Even when a level cannot be read, the sort returns only power nodes and never hangs.\<close>

lemma power_sort_nodes:
  assumes "fair_sched S" and "reverse_topological_power_sort R S fetch events diff = Inr xs"
  shows "distinct xs \<and> set xs \<subseteq> power_nodes fetch diff events"
proof -
  have ord: "iteration_order (ids_order S)" using assms(1) by (simp add: fair_sched_def)
  note it = power_graph_iter [OF ord, where fetch = fetch and diff = diff and events = events]
  show ?thesis
    using sort_nodes [OF it(1) ord] assms(2) unfolding it(2)
    by (simp add: reverse_topological_power_sort_def power_graph_def Let_def)
qed

lemma power_sort_fuel:
  assumes "fair_sched S"
  shows "reverse_topological_power_sort R S fetch events diff \<noteq> Inl OutOfFuel"
proof -
  have ord: "iteration_order (ids_order S)" using assms(1) by (simp add: fair_sched_def)
  note it = power_graph_iter [OF ord, where fetch = fetch and diff = diff and events = events]
  have "power_sort_key fetch pls n \<noteq> Inl OutOfFuel" for pls n
    by (simp add: power_sort_key_def bindR_eq_Inl)
  then show ?thesis
    using sort_fuel [OF it(1) ord]
    by (simp add: reverse_topological_power_sort_def power_graph_def Let_def)
qed

text \<open>The order of the power events does not depend on hash orders or on the order in
  which fetches complete: two servers with the same events sort them alike.\<close>

lemma power_sort_deterministic:
  assumes "fair_sched S" and "fair_sched S'" and "set diff = set diff'" and "set events = set events'"
    and "sender_levels_ok R S fetch (power_nodes fetch diff events)"
    and "\<forall>n \<in> power_nodes fetch diff events. one_power_level fetch n"
  shows "reverse_topological_power_sort R S fetch events diff
    = reverse_topological_power_sort R S' fetch events' diff'"
  using get_power_level_arrival [OF assms(1,2)] assms(6)
  by (intro power_sort_same [OF assms(1-5)]) blast

theorem power_sort_deterministic_witness:
  "reverse_topological_power_sort sample_ruma sample_sched sample_fetch [''$rules''] sample_diff
   = reverse_topological_power_sort sample_ruma (sample_sched\<lparr>ids_order := id, arrival := rev\<rparr>)
       sample_fetch [''$rules''] (rev sample_diff)"
proof (rule power_sort_deterministic)
  show "fair_sched sample_sched" by simp
  show "fair_sched (sample_sched\<lparr>ids_order := id, arrival := rev\<rparr>)"
    by (simp add: fair_sched_def sample_sched_def iteration_order_def)
  show "set sample_diff = set (rev sample_diff)" by (simp only: set_rev)
  show "sender_levels_ok sample_ruma sample_sched sample_fetch
      (power_nodes sample_fetch sample_diff [''$rules''])"
    using sample_sender_levels unfolding sample_power_nodes .
  show "\<forall>n \<in> power_nodes sample_fetch sample_diff [''$rules'']. one_power_level sample_fetch n"
    unfolding sample_power_nodes
    by (auto simp: one_power_level_def auth_ids_def is_type_and_key_def sample_fetch_def store_def
        sample_events_def sample_events_defs)
qed simp

end
