(* ===== verification/Mainline.thy ===== *)
theory Mainline
  imports PowerSort
begin

text \<open>
  Mainline ordering (\<open>src/src/core/matrix/state_res/mod.rs\<close>): the events that are not power
  events are sorted by the power level event they were sent under (its depth in the mainline
  of the resolved power level event), their timestamp and their id. The two walks along the
  power level events end because auth events form no cycle; their fuel is the number of
  events they may meet.
\<close>

subsection \<open>The code\<close>

text \<open>The loop over an event's auth events, up to the first power level event.\<close>

fun find_power_level_auth :: "'c fetch \<Rightarrow> string list \<Rightarrow> (string \<times> 'c pdu) option result" where
  "find_power_level_auth fetch [] = Inr None"
| "find_power_level_auth fetch (aid # aids) =
     bindR (ok_or (NotFound (''Failed to find '' @ aid)) (fetch aid)) (\<lambda>ev.
       if is_type_and_key ev RoomPowerLevels '''' then Inr (Some (aid, ev))
       else find_power_level_auth fetch aids)"

fun mainline_loop :: "nat \<Rightarrow> 'c fetch \<Rightarrow> string option \<Rightarrow> string list \<Rightarrow> string list result" where
  "mainline_loop fuel fetch None mainline = Inr mainline"
| "mainline_loop 0 fetch (Some p) mainline = Inl OutOfFuel"
| "mainline_loop (Suc fuel) fetch (Some p) mainline =
     bindR (ok_or (NotFound (''Failed to find '' @ p)) (fetch p)) (\<lambda>event.
     bindR (find_power_level_auth fetch (ev_auth_events event)) (\<lambda>pl.
       mainline_loop fuel fetch (map_option fst pl) (mainline @ [p])))"

definition mainline_map :: "string list \<Rightarrow> (string \<times> nat) list" where
  "mainline_map mainline =
     fold (\<lambda>(idx, eid). AList.update eid idx) (enumerate 0 (rev mainline)) []"

fun get_mainline_depth ::
  "nat \<Rightarrow> 'c fetch \<Rightarrow> (string \<times> nat) list \<Rightarrow> 'c pdu option \<Rightarrow> nat result" where
  "get_mainline_depth fuel fetch mm None = Inr 0"
| "get_mainline_depth 0 fetch mm (Some sort_ev) = Inl OutOfFuel"
| "get_mainline_depth (Suc fuel) fetch mm (Some sort_ev) =
     (case map_of mm (ev_id sort_ev) of
        Some depth \<Rightarrow> Inr depth
      | None \<Rightarrow>
          bindR (find_power_level_auth fetch (ev_auth_events sort_ev)) (\<lambda>event.
            get_mainline_depth fuel fetch mm (map_option snd event)))"

text \<open>An entry of \<open>order_map\<close>; events that cannot be fetched or whose depth fails are dropped.\<close>

definition order_entry ::
  "nat \<Rightarrow> 'c fetch \<Rightarrow> (string \<times> nat) list \<Rightarrow> string \<Rightarrow> (string \<times> nat \<times> nat \<times> string) option result" where
  "order_entry fuel fetch mm sort_id =
     (case fetch sort_id of
        None \<Rightarrow> Inr None
      | Some event \<Rightarrow>
          (case get_mainline_depth fuel fetch mm (Some event) of
             Inr depth \<Rightarrow> Inr (Some (sort_id, depth, ev_ts event, sort_id))
           | Inl e \<Rightarrow> (if e = OutOfFuel then Inl OutOfFuel else Inr None)))"

definition mainline_sort ::
  "nat \<Rightarrow> sched \<Rightarrow> 'c fetch \<Rightarrow> string list \<Rightarrow> string option \<Rightarrow> string list result" where
  "mainline_sort fuel S fetch to_sort resolved_power_level =
     (if to_sort = [] then Inr []
      else
        bindR (mainline_loop fuel fetch resolved_power_level []) (\<lambda>mainline.
        bindR (mapR (order_entry fuel fetch (mainline_map mainline)) (arrival S to_sort)) (\<lambda>entries.
          (let order_map = fold (\<lambda>(k, v). AList.update k v) (List.map_filter id entries) []
           in Inr (sort_key (\<lambda>sort_id. the (map_of order_map sort_id))
                     (ids_order S (map fst order_map)))))))"

subsection \<open>The mainline\<close>

text \<open>The chain of power level events, from the newest to the oldest.\<close>

inductive mainline_of :: "'c fetch \<Rightarrow> string option \<Rightarrow> string list \<Rightarrow> bool" for fetch where
  mainline_end: "mainline_of fetch None []"
| mainline_next: "fetch p = Some ev \<Longrightarrow> find_power_level_auth fetch (ev_auth_events ev) = Inr found \<Longrightarrow>
    mainline_of fetch (map_option fst found) xs \<Longrightarrow> mainline_of fetch (Some p) (p # xs)"

lemma find_power_level_auth_SomeD:
  "find_power_level_auth fetch aids = Inr (Some (a, ev)) \<Longrightarrow>
   a \<in> set aids \<and> fetch a = Some ev \<and> is_type_and_key ev RoomPowerLevels ''''"
  by (induction aids) (auto simp: bindR_eq_Inr split: if_splits)

lemma find_power_level_auth_fuel: "find_power_level_auth fetch aids \<noteq> Inl OutOfFuel"
  by (induction aids) (auto simp: bindR_eq_Inl)

lemma mainline_loop_result:
  "mainline_loop fuel fetch pl acc = Inr xs \<Longrightarrow> \<exists>ys. xs = acc @ ys \<and> mainline_of fetch pl ys"
proof (induction fuel fetch pl acc rule: mainline_loop.induct)
  case (3 fuel fetch p acc)
  then obtain ev found where ev: "fetch p = Some ev"
    "find_power_level_auth fetch (ev_auth_events ev) = Inr found"
    "mainline_loop fuel fetch (map_option fst found) (acc @ [p]) = Inr xs"
    by (auto simp: bindR_eq_Inr)
  from "3.IH" [of ev found] ev obtain ys where "xs = (acc @ [p]) @ ys"
    "mainline_of fetch (map_option fst found) ys" by auto
  then show ?case using ev(1,2) by (auto intro: mainline_next)
qed (auto intro: mainline_end)

text \<open>Enough fuel for the walks: the rank of the event they start from.\<close>

lemma mainline_loop_fuel:
  fixes rank :: "string \<Rightarrow> nat"
  assumes "\<And>n m. n \<in> dom fetch \<Longrightarrow> m \<in> dom fetch \<Longrightarrow> m \<in> set (auth_ids fetch n) \<Longrightarrow> rank m < rank n"
    and "\<And>p. pl = Some p \<Longrightarrow> rank p < fuel"
  shows "mainline_loop fuel fetch pl acc \<noteq> Inl OutOfFuel"
  using assms(2)
proof (induction fuel arbitrary: pl acc)
  case 0
  then show ?case by (cases pl) auto
next
  case (Suc fuel)
  show ?case
  proof (cases pl)
    case (Some p)
    have "rank a < fuel" if "fetch p = Some ev"
      "find_power_level_auth fetch (ev_auth_events ev) = Inr (Some (a, aev))" for ev a aev
    proof -
      have "a \<in> set (auth_ids fetch p)" "a \<in> dom fetch"
        using that find_power_level_auth_SomeD [OF that(2)] by (auto simp: auth_ids_def)
      then have "rank a < rank p" using assms(1) that(1) by blast
      then show ?thesis using Suc.prems [OF Some] by simp
    qed
    then have "mainline_loop fuel fetch (map_option fst found) (acc @ [p]) \<noteq> Inl OutOfFuel"
      if "fetch p = Some ev" "find_power_level_auth fetch (ev_auth_events ev) = Inr found" for ev found
      using Suc.IH [of "map_option fst found"] that by fastforce
    then show ?thesis unfolding Some
      by (auto simp: bindR_eq_Inl find_power_level_auth_fuel)
  qed simp
qed

lemma get_mainline_depth_fuel:
  fixes rank :: "string \<Rightarrow> nat"
  assumes "\<And>n m. n \<in> dom fetch \<Longrightarrow> m \<in> dom fetch \<Longrightarrow> m \<in> set (auth_ids fetch n) \<Longrightarrow> rank m < rank n"
    and "fetch i = Some ev" and "rank i < fuel"
  shows "get_mainline_depth fuel fetch mm (Some ev) \<noteq> Inl OutOfFuel"
  using assms(2,3)
proof (induction fuel arbitrary: i ev)
  case 0
  then show ?case by simp
next
  case (Suc fuel)
  have "get_mainline_depth fuel fetch mm (map_option snd found) \<noteq> Inl OutOfFuel"
    if "find_power_level_auth fetch (ev_auth_events ev) = Inr found" for found
  proof (cases found)
    case (Some f)
    then obtain a aev where f: "found = Some (a, aev)" by (cases f) auto
    have a: "a \<in> set (auth_ids fetch i)" "fetch a = Some aev"
      using find_power_level_auth_SomeD that f Suc.prems(1) by (fastforce simp: auth_ids_def)+
    then have "rank a < rank i" using assms(1) Suc.prems(1) by blast
    then show ?thesis using Suc.IH [OF a(2)] Suc.prems(2) f by simp
  qed simp
  then show ?case
    by (auto simp: bindR_eq_Inl find_power_level_auth_fuel split: option.splits)
qed

lemma mainline_loop_cases:
  "mainline_of fetch pl ml \<Longrightarrow>
   mainline_loop fuel fetch pl acc = Inr (acc @ ml) \<or> mainline_loop fuel fetch pl acc = Inl OutOfFuel"
proof (induction arbitrary: fuel acc rule: mainline_of.induct)
  case (mainline_next p ev found xs)
  show ?case
  proof (cases fuel)
    case (Suc n)
    then show ?thesis using mainline_next.hyps(1,2) mainline_next.IH [of n "acc @ [p]"] by simp
  qed simp
qed simp

lemma mainline_loop_Some_fuel:
  assumes "acyclic_auth fetch" and "finite (dom fetch)" and "card (dom fetch) \<le> fuel"
    and "mainline_of fetch pl ml"
  shows "mainline_loop fuel fetch pl acc = Inr (acc @ ml)"
proof -
  obtain rank :: "string \<Rightarrow> nat" where rank: "\<forall>n \<in> dom fetch. rank n < card (dom fetch)"
    "\<forall>n \<in> dom fetch. \<forall>m \<in> dom fetch. m \<in> set (auth_ids fetch n) \<longrightarrow> rank m < rank n"
    using acyclic_rank [OF assms(2,1)] by blast
  have "rank p < fuel" if "pl = Some p" for p
  proof -
    have "p \<in> dom fetch" using assms(4) that by cases auto
    then show ?thesis using rank(1) assms(3) by (meson order_less_le_trans)
  qed
  then have "mainline_loop fuel fetch pl acc \<noteq> Inl OutOfFuel"
    using rank(2) by (intro mainline_loop_fuel [where rank = rank]) auto
  then show ?thesis using mainline_loop_cases [OF assms(4)] by blast
qed

text \<open>The mainline repeats no event.\<close>

lemma mainline_of_chain:
  "mainline_of fetch pl ml \<Longrightarrow> pl = Some p \<Longrightarrow>
   ml \<noteq> [] \<and> hd ml = p \<and> (\<forall>x \<in> set (tl ml). (p, x) \<in> (auth_rel fetch)\<^sup>+)"
proof (induction arbitrary: p rule: mainline_of.induct)
  case (mainline_next q ev found xs)
  show ?case
  proof (cases found)
    case None
    then have "xs = []" using mainline_next.hyps(3) by (auto elim: mainline_of.cases)
    then show ?thesis using mainline_next.prems by simp
  next
    case (Some f)
    then obtain a aev where f: "found = Some (a, aev)" by (cases f) auto
    have "a \<in> set (auth_ids fetch q)"
      using mainline_next.hyps(1,2) f by (auto simp: auth_ids_def dest: find_power_level_auth_SomeD)
    then have step: "(q, a) \<in> auth_rel fetch" by simp
    have IH: "xs \<noteq> []" "hd xs = a" "\<forall>x \<in> set (tl xs). (a, x) \<in> (auth_rel fetch)\<^sup>+"
      using mainline_next.IH [of a] f by auto
    have "(q, x) \<in> (auth_rel fetch)\<^sup>+" if "x \<in> set xs" for x
    proof (cases "x = a")
      case True
      then show ?thesis using step by blast
    next
      case False
      then have "x \<in> set (tl xs)" using that IH(1,2) by (cases xs) auto
      then show ?thesis using IH(3) step by (meson trancl_into_trancl2)
    qed
    then show ?thesis using mainline_next.prems by simp
  qed
qed simp


lemma distinct_mainline:
  assumes "mainline_of fetch pl ml" and "acyclic_auth fetch"
  shows "distinct ml"
  using assms
proof (induction rule: mainline_of.induct)
  case (mainline_next p ev found xs)
  have "mainline_of fetch (Some p) (p # xs)"
    using mainline_next.hyps by (intro mainline_of.mainline_next)
  then have "\<forall>x \<in> set xs. (p, x) \<in> (auth_rel fetch)\<^sup>+"
    using mainline_of_chain [of fetch "Some p" "p # xs" p] by simp
  then have "p \<notin> set xs" using assms(2) by (auto simp: acyclic_auth_def acyclic_def)
  then show ?case using mainline_next by simp
qed simp

subsection \<open>Depths\<close>


lemma map_of_mainline_map:
  assumes "distinct ml"
  shows "i < length ml \<Longrightarrow> map_of (mainline_map ml) (ml ! i) = Some (length ml - 1 - i)"
    and "e \<notin> set ml \<Longrightarrow> map_of (mainline_map ml) e = None"
proof -
  have upd: "map_of (fold (\<lambda>(idx, eid). AList.update eid idx) (enumerate n es) m) (es ! j) = Some (n + j)"
    if "distinct es" "j < length es" for es :: "string list" and n j and m
    using that
  proof (induction es arbitrary: n j m)
    case (Cons x es)
    have other: "map_of (fold (\<lambda>(idx, eid). AList.update eid idx) (enumerate n es) m) x = map_of m x"
      if "x \<notin> set es" for n m using that
      by (induction es arbitrary: n m) (auto simp: update_conv')
    show ?case
    proof (cases j)
      case 0
      then show ?thesis using Cons.prems other by (simp add: update_conv')
    next
      case (Suc j')
      then show ?thesis using Cons.IH [of j' "Suc n"] Cons.prems by simp
    qed
  qed simp
  show "map_of (mainline_map ml) (ml ! i) = Some (length ml - 1 - i)" if i: "i < length ml"
    using upd [of "rev ml" "length ml - 1 - i" 0 "[]"] assms i
    by (simp add: mainline_map_def rev_nth)
  have "map_of (fold (\<lambda>(idx, eid). AList.update eid idx) (enumerate n es) m) e = map_of m e"
    if "e \<notin> set es" for es :: "string list" and n m using that
    by (induction es arbitrary: n m) (auto simp: update_conv')
  then show "e \<notin> set ml \<Longrightarrow> map_of (mainline_map ml) e = None" by (simp add: mainline_map_def)
qed

definition fetch_by_id :: "'c fetch \<Rightarrow> bool" where
  "fetch_by_id fetch \<longleftrightarrow> (\<forall>i ev. fetch i = Some ev \<longrightarrow> ev_id ev = i)"

text \<open>The depth of an event is that of the first event of its own power level chain that is
  on the mainline.\<close>

lemma get_mainline_depth_find:
  assumes "mainline_of fetch pl chain" and "fetch_by_id fetch"
  shows "get_mainline_depth fuel fetch mm (Option.bind pl fetch)
      = Inr (case List.find (\<lambda>x. map_of mm x \<noteq> None) chain of None \<Rightarrow> 0 | Some x \<Rightarrow> the (map_of mm x))
    \<or> get_mainline_depth fuel fetch mm (Option.bind pl fetch) = Inl OutOfFuel"
  using assms(1)
proof (induction arbitrary: fuel rule: mainline_of.induct)
  case mainline_end
  then show ?case by simp
next
  case (mainline_next p ev found xs)
  have id: "ev_id ev = p" using assms(2) mainline_next.hyps(1) by (simp add: fetch_by_id_def)
  have "map_option snd found = Option.bind (map_option fst found) fetch"
    using mainline_next.hyps(2) by (cases found) (auto dest: find_power_level_auth_SomeD)
  then show ?case using mainline_next.hyps mainline_next.IH id
    by (cases fuel) (auto split: option.splits)
qed

lemma depth_fuel:
  assumes "acyclic_auth fetch" and "finite (dom fetch)" and "card (dom fetch) \<le> fuel"
    and "fetch i = Some ev"
  shows "get_mainline_depth fuel fetch mm (Some ev) \<noteq> Inl OutOfFuel"
proof -
  obtain rank :: "string \<Rightarrow> nat" where rank: "\<forall>n \<in> dom fetch. rank n < card (dom fetch)"
    "\<forall>n \<in> dom fetch. \<forall>m \<in> dom fetch. m \<in> set (auth_ids fetch n) \<longrightarrow> rank m < rank n"
    using acyclic_rank [OF assms(2,1)] by blast
  have "rank i < fuel" using rank(1) assms(3,4) by (meson domI order_less_le_trans)
  then show ?thesis using rank(2) assms(4) by (intro get_mainline_depth_fuel [where rank = rank]) auto
qed

text \<open>The depth of an event: follow the power level events from it (the event itself, the
  first power level event among its auth events, and so on); the first of them on the
  mainline decides. The oldest event of the mainline has depth 0 and the resolved power level
  event the greatest depth, and an event that never meets the mainline has depth 0 too.\<close>

lemma mainline_depth_correct:
  assumes "acyclic_auth fetch" and "finite (dom fetch)" and "fetch_by_id fetch"
    and "card (dom fetch) \<le> fuel"
    and "mainline_of fetch pl ml" and "fetch i = Some ev" and "mainline_of fetch (Some i) chain"
  shows "\<exists>depth. get_mainline_depth fuel fetch (mainline_map ml) (Some ev) = Inr depth
    \<and> (set chain \<inter> set ml = {} \<longrightarrow> depth = 0)
    \<and> (\<forall>j < length ml. \<forall>k < length chain. chain ! k = ml ! j \<and> set (take k chain) \<inter> set ml = {} \<longrightarrow>
         depth = length ml - 1 - j)"
proof -
  let ?mm = "mainline_map ml" and ?found = "List.find (\<lambda>x. map_of (mainline_map ml) x \<noteq> None) chain"
  have dist: "distinct ml" using distinct_mainline [OF assms(5,1)] .
  note mm = map_of_mainline_map [OF dist]
  have dom: "map_of ?mm x \<noteq> None \<longleftrightarrow> x \<in> set ml" for x
    using mm by (metis in_set_conv_nth option.distinct(1))
  have "get_mainline_depth fuel fetch ?mm (Some ev)
      = Inr (case ?found of None \<Rightarrow> 0 | Some x \<Rightarrow> the (map_of ?mm x))"
    using get_mainline_depth_find [OF assms(7,3), of fuel ?mm] depth_fuel [OF assms(1,2,4,6)]
    by (simp add: assms(6))
  moreover have "?found = None" if "set chain \<inter> set ml = {}"
    using that dom by (auto simp: find_None_iff)
  moreover have "(case ?found of None \<Rightarrow> 0 | Some x \<Rightarrow> the (map_of ?mm x)) = length ml - 1 - j"
    if "j < length ml" "k < length chain" "chain ! k = ml ! j" "set (take k chain) \<inter> set ml = {}" for j k
  proof -
    have "chain ! n \<notin> set ml" if "n < k" for n
      using that \<open>k < length chain\<close> \<open>set (take k chain) \<inter> set ml = {}\<close>
      by (auto simp: disjoint_iff in_set_conv_nth)
    then have "?found = Some (chain ! k)"
      unfolding find_Some_iff dom using that by (intro exI [of _ k]) auto
    then show ?thesis using mm(1) [OF that(1)] that(3) by simp
  qed
  ultimately show ?thesis by auto
qed

text \<open>
  The depth of an event with a given chain of power level events, the event itself first: the number of mainline
  events older than the first of the chain that is on the mainline, and 0 when none is. The mainline is the chain of
  the resolved power level event, the newest first.
\<close>

definition depth_on :: "string list \<Rightarrow> string list \<Rightarrow> nat" where
  "depth_on mainline chain = (case List.find (\<lambda>p. p \<in> set mainline) chain of
     None \<Rightarrow> 0 | Some p \<Rightarrow> length (dropWhile (\<lambda>q. q \<noteq> p) mainline) - 1)"

lemma depth_on_chain:
  assumes "acyclic_auth fetch" and "finite (dom fetch)" and "fetch_by_id fetch" and "card (dom fetch) \<le> fuel"
    and "mainline_of fetch pl ml" and "fetch i = Some ev" and "mainline_of fetch (Some i) chain"
  shows "get_mainline_depth fuel fetch (mainline_map ml) (Some ev) = Inr (depth_on ml chain)"
proof -
  note mm = map_of_mainline_map [OF distinct_mainline [OF assms(5,1)]]
  have dom: "map_of (mainline_map ml) x \<noteq> None \<longleftrightarrow> x \<in> set ml" for x
    using mm by (metis in_set_conv_nth option.distinct(1))
  have older: "map_of (mainline_map ml) p = Some (length (dropWhile (\<lambda>q. q \<noteq> p) ml) - 1)" if p: "p \<in> set ml" for p
  proof -
    obtain ys zs where ml: "ml = ys @ p # zs" "p \<notin> set ys" using split_list_first [OF p] by blast
    have "dropWhile (\<lambda>q. q \<noteq> p) (ys @ p # zs) = p # zs" using ml(2) by (induction ys) auto
    then show ?thesis using mm(1) [of "length ys"] ml(1) by simp
  qed
  have "List.find (\<lambda>x. map_of (mainline_map ml) x \<noteq> None) chain = List.find (\<lambda>p. p \<in> set ml) chain"
    unfolding dom ..
  moreover have "p \<in> set ml" if "List.find (\<lambda>p. p \<in> set ml) chain = Some p" for p
    using that by (auto simp: find_Some_iff)
  ultimately show ?thesis
    using get_mainline_depth_find [OF assms(7,3), of fuel "mainline_map ml"] depth_fuel [OF assms(1,2,4,6)] older
    by (auto simp: depth_on_def assms(6) split: option.splits)
qed

lemma mainline_of_tail:
  "mainline_of fetch pl ml \<Longrightarrow> p \<in> set ml \<Longrightarrow> \<exists>chain. mainline_of fetch (Some p) chain"
  by (induction rule: mainline_of.induct) (auto intro: mainline_of.mainline_next)

lemma depth_needs_chain:
  assumes "mainline_of fetch pl ml" and "fetch_by_id fetch" and "acyclic_auth fetch"
  shows "get_mainline_depth fuel fetch (mainline_map ml) (Some ev) = Inr d \<Longrightarrow> fetch i = Some ev
    \<Longrightarrow> \<exists>chain. mainline_of fetch (Some i) chain"
proof (induction fuel arbitrary: i ev)
  case (Suc fuel)
  have id: "ev_id ev = i" using Suc.prems(2) assms(2) by (simp add: fetch_by_id_def)
  show ?case
  proof (cases "i \<in> set ml")
    case True
    then show ?thesis by (rule mainline_of_tail [OF assms(1)])
  next
    case False
    then have "map_of (mainline_map ml) i = None"
      by (rule map_of_mainline_map(2) [OF distinct_mainline [OF assms(1,3)]])
    then obtain found where found: "find_power_level_auth fetch (ev_auth_events ev) = Inr found"
      and rest: "get_mainline_depth fuel fetch (mainline_map ml) (map_option snd found) = Inr d"
      using Suc.prems(1) id by (auto simp: bindR_eq_Inr)
    have "\<exists>chain. mainline_of fetch (map_option fst found) chain"
    proof (cases found)
      case (Some f)
      then obtain a aev where f: "found = Some (a, aev)" by (cases f) auto
      then have "fetch a = Some aev" using found find_power_level_auth_SomeD by blast
      then show ?thesis using Suc.IH [of aev a] rest f by simp
    qed (auto intro: mainline_end)
    then show ?thesis using mainline_of.mainline_next [OF Suc.prems(2) found] by blast
  qed
qed simp

lemma fork_fetch_by_id: "fetch_by_id fork_fetch"
  by (auto simp: fetch_by_id_def fork_fetch_def store_def fork_events_def sample_events_def
      dest!: map_of_SomeD)

lemma fork_fetch_acyclic: "acyclic_auth fork_fetch"
  by (rule acyclic_authI [where rank = "\<lambda>e. if e = ''$create'' then 0 else if e = ''$alice'' then 1
      else if e = ''$power'' then 2 else if e = ''$power2'' \<or> e = ''$rules'' then 3
      else if e = ''$bob'' \<or> e = ''$carol'' then 4 else 5"])
    (auto simp: auth_ids_def fork_fetch_def store_def fork_events_def sample_events_def
      sample_events_defs split: if_splits)

lemma fork_fetch_size: "finite (dom fork_fetch)" "card (dom fork_fetch) = 9"
proof -
  show "finite (dom fork_fetch)" by (simp add: fork_fetch_def finite_store)
  have "dom fork_fetch = set (map ev_id fork_events)"
    by (simp add: fork_fetch_def store_def dom_map_of_conv_image_fst image_image)
  then show "card (dom fork_fetch) = 9"
    by (simp add: fork_events_def sample_events_def sample_events_defs)
qed

lemma fork_mainline: "mainline_of fork_fetch (Some ''$power2'') [''$power2'', ''$power'']"
proof -
  have "fork_fetch ''$power2'' = Some power2_pdu" "fork_fetch ''$power'' = Some power_pdu"
    by code_simp+
  moreover have "find_power_level_auth fork_fetch (ev_auth_events power2_pdu) = Inr (Some (''$power'', power_pdu))"
    "find_power_level_auth fork_fetch (ev_auth_events power_pdu) = Inr None"
    by code_simp+
  ultimately show ?thesis by (auto intro!: mainline_of.intros)
qed

lemma fork_topic_chain: "mainline_of fork_fetch (Some ''$topic1'') [''$topic1'', ''$power'']"
proof -
  have "fork_fetch ''$topic1'' = Some topic1_pdu" "fork_fetch ''$power'' = Some power_pdu"
    by code_simp+
  moreover have "find_power_level_auth fork_fetch (ev_auth_events topic1_pdu) = Inr (Some (''$power'', power_pdu))"
    "find_power_level_auth fork_fetch (ev_auth_events power_pdu) = Inr None"
    by code_simp+
  ultimately show ?thesis by (auto intro!: mainline_of.intros)
qed

subsection \<open>The sort\<close>

lemma fold_update_function:
  assumes "\<forall>(k, v) \<in> set xs. v = f k"
  shows "distinct (map fst (fold (\<lambda>(k, v). AList.update k v) xs []))
    \<and> (\<forall>k. map_of (fold (\<lambda>(k, v). AList.update k v) xs []) k
         = (if k \<in> fst ` set xs then Some (f k) else None))"
  using assms
proof (induction xs rule: rev_induct)
  case Nil
  then show ?case by simp
next
  case (snoc x xs)
  obtain k v where x: "x = (k, v)" by (cases x)
  have v: "v = f k" and xs: "\<forall>(k, v) \<in> set xs. v = f k" using snoc.prems x by auto
  note IH = snoc.IH [OF xs]
  have "fold (\<lambda>(k, v). AList.update k v) (xs @ [x]) []
      = AList.update k (f k) (fold (\<lambda>(k, v). AList.update k v) xs [])" by (simp add: x v)
  moreover have "fst ` set (xs @ [x]) = insert k (fst ` set xs)" by (simp add: x)
  ultimately show ?case using IH by (simp add: update_conv' distinct_update)
qed

text \<open>The key an event is sorted by, if it has one.\<close>

definition mainline_key :: "nat \<Rightarrow> 'c fetch \<Rightarrow> string list \<Rightarrow> string \<Rightarrow> (nat \<times> nat \<times> string) option" where
  "mainline_key fuel fetch ml i = (case fetch i of
      None \<Rightarrow> None
    | Some ev \<Rightarrow> (case get_mainline_depth fuel fetch (mainline_map ml) (Some ev) of
          Inr depth \<Rightarrow> Some (depth, ev_ts ev, i)
        | Inl _ \<Rightarrow> None))"

lemma order_entry_key:
  assumes "acyclic_auth fetch" and "finite (dom fetch)" and "card (dom fetch) \<le> fuel"
  shows "order_entry fuel fetch (mainline_map ml) i
    = Inr (map_option (Pair i) (mainline_key fuel fetch ml i))"
  using depth_fuel [OF assms, of i _ "mainline_map ml"]
  by (auto simp: order_entry_def mainline_key_def split: option.splits sum.splits)

lemma map_filter_id_map: "List.map_filter id (map g xs) = List.map_filter g xs"
  by (induction xs) (auto simp: map_filter_simps split: option.splits)

lemma set_map_filter_Pair:
  "set (List.map_filter (\<lambda>i. map_option (Pair i) (f i)) xs) = {(i, k). i \<in> set xs \<and> f i = Some k}"
proof (induction xs)
  case (Cons x xs)
  then show ?case by (cases "f x") (auto simp: map_filter_simps)
qed (simp add: map_filter_simps)

lemma mapR_total: "(\<And>x. f x = Inr (g x)) \<Longrightarrow> mapR f xs = Inr (map g xs)"
  by (induction xs) simp_all

lemma mainline_sort_spec:
  assumes "fair_sched S" and "acyclic_auth fetch" and "finite (dom fetch)" and "card (dom fetch) \<le> fuel"
    and "mainline_of fetch pl ml"
  shows "\<exists>xs. mainline_sort fuel S fetch to_sort pl = Inr xs \<and> distinct xs
    \<and> set xs = {i \<in> set to_sort. mainline_key fuel fetch ml i \<noteq> None}
    \<and> sorted (map (\<lambda>i. the (mainline_key fuel fetch ml i)) xs)"
proof (cases "to_sort = []")
  case True
  then show ?thesis by (simp add: mainline_sort_def)
next
  case False
  let ?key = "mainline_key fuel fetch ml"
  define entries where "entries = List.map_filter (\<lambda>i. map_option (Pair i) (?key i)) (arrival S to_sort)"
  define om where "om = fold (\<lambda>(k, v). AList.update k v) entries []"
  define xs where "xs = sort_key (\<lambda>i. the (map_of om i)) (ids_order S (map fst om))"
  have run: "mainline_sort fuel S fetch to_sort pl = Inr xs"
    using False mainline_loop_Some_fuel [OF assms(2-5), of "[]"]
      mapR_total [of "order_entry fuel fetch (mainline_map ml)", OF order_entry_key [OF assms(2-4)]]
    by (simp add: mainline_sort_def xs_def om_def entries_def Let_def map_filter_id_map)
  have ord: "iteration_order (ids_order S)" "iteration_order (arrival S)"
    using assms(1) by (auto simp: fair_sched_def)
  have entries: "set entries = {(i, k). i \<in> set to_sort \<and> ?key i = Some k}"
    unfolding entries_def set_map_filter_Pair iteration_orderD(1) [OF ord(2)] ..
  have "\<forall>(i, k) \<in> set entries. k = the (?key i)" by (auto simp: entries)
  note om = fold_update_function [OF this, folded om_def]
  have keys: "fst ` set entries = {i \<in> set to_sort. ?key i \<noteq> None}" by (force simp: entries)
  have "k \<in> fst ` set om \<longleftrightarrow> k \<in> fst ` set entries" for k
  proof -
    have "k \<in> fst ` set om \<longleftrightarrow> map_of om k \<noteq> None" by (metis map_of_eq_None_iff)
    then show ?thesis using om by (metis option.distinct(1))
  qed
  then have "fst ` set om = {i \<in> set to_sort. ?key i \<noteq> None}" using keys by blast
  then have set: "set xs = {i \<in> set to_sort. ?key i \<noteq> None}"
    by (simp add: xs_def iteration_orderD(1) [OF ord(1)])
  have "distinct xs" using om by (simp add: xs_def iteration_orderD(2) [OF ord(1)])
  moreover have "map (\<lambda>i. the (?key i)) xs = map (\<lambda>i. the (map_of om i)) xs"
    using set om keys by (intro map_cong) auto
  then have "sorted (map (\<lambda>i. the (?key i)) xs)" by (simp only: xs_def sorted_sort_key)
  ultimately show ?thesis using run set by blast
qed

text \<open>C21. The mainline sort ends. It returns, once each, the events that can be fetched and whose chain of power level
  events is complete, ordered by the number of mainline events that are older than the first event of this chain on the
  mainline, then by timestamp, then by id, whatever the order in which fetches complete and hash maps are iterated. The
  event store has no cycles and returns events under their own ids, and the chain of the resolved power level event,
  which is the mainline, is complete; an event whose chain does not meet it is sorted with its oldest event.\<close>

theorem mainline_sort_correct:
  assumes "fair_sched S" and "acyclic_auth fetch" and "finite (dom fetch)" and "card (dom fetch) \<le> fuel"
    and "fetch_by_id fetch" and "mainline_of fetch pl ml"
  shows "\<exists>xs. mainline_sort fuel S fetch to_sort pl = Inr xs \<and> distinct xs
    \<and> set xs = {i \<in> set to_sort. \<exists>chain. mainline_of fetch (Some i) chain}
    \<and> sorted_wrt (\<lambda>i j. \<forall>ci cj a b. mainline_of fetch (Some i) ci \<and> mainline_of fetch (Some j) cj
         \<and> fetch i = Some a \<and> fetch j = Some b \<longrightarrow>
         (depth_on ml ci, ev_ts a, i) \<le> (depth_on ml cj, ev_ts b, j)) xs"
proof -
  obtain xs where xs: "mainline_sort fuel S fetch to_sort pl = Inr xs" "distinct xs"
    "set xs = {i \<in> set to_sort. mainline_key fuel fetch ml i \<noteq> None}"
    "sorted (map (\<lambda>i. the (mainline_key fuel fetch ml i)) xs)"
    using mainline_sort_spec [OF assms(1-4,6)] by blast
  have key: "mainline_key fuel fetch ml i = Some (depth_on ml chain, ev_ts ev, i)"
    if "mainline_of fetch (Some i) chain" "fetch i = Some ev" for i chain ev
    using depth_on_chain [OF assms(2,3,5,4,6) that(2,1)] that(2) by (simp add: mainline_key_def)
  have "mainline_key fuel fetch ml i \<noteq> None \<longleftrightarrow> (\<exists>chain. mainline_of fetch (Some i) chain)" for i
  proof
    assume "mainline_key fuel fetch ml i \<noteq> None"
    then show "\<exists>chain. mainline_of fetch (Some i) chain"
      using depth_needs_chain [OF assms(6,5,2)] by (auto simp: mainline_key_def split: option.splits sum.splits)
  next
    assume "\<exists>chain. mainline_of fetch (Some i) chain"
    then obtain chain where chain: "mainline_of fetch (Some i) chain" ..
    then obtain ev where "fetch i = Some ev" by cases auto
    then show "mainline_key fuel fetch ml i \<noteq> None" using key [OF chain] by simp
  qed
  then have set: "set xs = {i \<in> set to_sort. \<exists>chain. mainline_of fetch (Some i) chain}" using xs(3) by simp
  have "sorted_wrt (\<lambda>i j. the (mainline_key fuel fetch ml i) \<le> the (mainline_key fuel fetch ml j)) xs"
    using xs(4) by (simp add: sorted_map)
  then have "sorted_wrt (\<lambda>i j. \<forall>ci cj a b. mainline_of fetch (Some i) ci \<and> mainline_of fetch (Some j) cj
         \<and> fetch i = Some a \<and> fetch j = Some b \<longrightarrow>
         (depth_on ml ci, ev_ts a, i) \<le> (depth_on ml cj, ev_ts b, j)) xs"
    by (rule sorted_wrt_mono_rel [rotated]) (auto simp only: key option.sel)
  then show ?thesis using xs(1,2) set by blast
qed

theorem mainline_sort_correct_witness:
  "\<exists>xs. mainline_sort 9 sample_sched fork_fetch [''$topic2'', ''$topic1'', ''$missing''] (Some ''$power2'') = Inr xs
     \<and> ''$topic1'' \<in> set xs \<and> ''$missing'' \<notin> set xs"
proof -
  have "card (dom fork_fetch) \<le> 9" by (simp add: fork_fetch_size)
  from mainline_sort_correct [OF fair_sample_sched fork_fetch_acyclic fork_fetch_size(1) this fork_fetch_by_id fork_mainline]
  obtain xs where xs: "mainline_sort 9 sample_sched fork_fetch [''$topic2'', ''$topic1'', ''$missing''] (Some ''$power2'') = Inr xs"
    "set xs = {i \<in> set [''$topic2'', ''$topic1'', ''$missing'']. \<exists>chain. mainline_of fork_fetch (Some i) chain}"
    by blast
  have "fork_fetch ''$missing'' = None" by code_simp
  then have "\<not> mainline_of fork_fetch (Some ''$missing'') chain" for chain by (auto elim: mainline_of.cases)
  then show ?thesis using xs fork_topic_chain by auto
qed

text \<open>The keys tell the events apart, so the order is the only one possible.\<close>

lemma mainline_key_inj: "inj_on (\<lambda>i. the (mainline_key fuel fetch ml i)) {i. mainline_key fuel fetch ml i \<noteq> None}"
  by (auto simp: inj_on_def mainline_key_def split: option.splits sum.splits)

lemma mainline_sort_same:
  assumes "fair_sched S" and "fair_sched S'" and "acyclic_auth fetch" and "finite (dom fetch)"
    and "card (dom fetch) \<le> fuel" and "mainline_of fetch pl ml" and "set to_sort = set to_sort'"
  shows "mainline_sort fuel S fetch to_sort pl = mainline_sort fuel S' fetch to_sort' pl"
proof -
  let ?key = "\<lambda>i. the (mainline_key fuel fetch ml i)"
  obtain xs where xs: "mainline_sort fuel S fetch to_sort pl = Inr xs" "distinct xs"
    "set xs = {i \<in> set to_sort. mainline_key fuel fetch ml i \<noteq> None}" "sorted (map ?key xs)"
    using mainline_sort_spec [OF assms(1,3-6)] by blast
  obtain ys where ys: "mainline_sort fuel S' fetch to_sort' pl = Inr ys" "distinct ys"
    "set ys = {i \<in> set to_sort'. mainline_key fuel fetch ml i \<noteq> None}" "sorted (map ?key ys)"
    using mainline_sort_spec [OF assms(2-6)] by blast
  have "set xs = set ys" using xs(3) ys(3) assms(7) by simp
  moreover have "inj_on ?key (set xs)"
    by (rule inj_on_subset [OF mainline_key_inj]) (use xs(3) in blast)
  ultimately have "map ?key xs = map ?key ys"
    using xs(2,4) ys(2,4) by (intro sorted_distinct_set_unique) (auto simp: distinct_map)
  then have "xs = ys" using \<open>inj_on ?key (set xs)\<close> \<open>set xs = set ys\<close> by (simp add: inj_on_map_eq_map)
  then show ?thesis using xs(1) ys(1) by simp
qed

end
