(* ===== verification/StateRes.thy ===== *)
theory StateRes
  imports Mainline EventAuth
begin

text \<open>
  State resolution: \<open>iterative_auth_check\<close> and \<open>resolve\<close> of
  \<open>src/src/core/matrix/state_res/mod.rs\<close>. The fuel of \<open>resolve\<close> bounds the walks of the
  conflicted subgraph and of the mainline.
\<close>

subsection \<open>The iterative auth check\<close>

text \<open>The create event of a room whose id is the hash of that event.\<close>

definition hashed_create_event ::
  "'c ruma \<Rightarrow> room_version_rules \<Rightarrow> 'c fetch \<Rightarrow> 'c pdu \<Rightarrow> (type_state_key \<times> 'c pdu) list result" where
  "hashed_create_event R room_version fetch event =
     (if room_id_format room_version = IdFormat_V2 then
        bindR (room_id_or_hash R event) (\<lambda>room_id.
          (let create_event_id = replace_char (CHR ''!'') (CHR ''$'') room_id
           in if \<not> valid_event_id R create_event_id
              then Inl (InvalidPdu ''Failed to parse create event ID from room ID/hash'')
              else bindR (ok_or (NotFound ''Failed to find create event'') (fetch create_event_id))
                (\<lambda>create_event. Inr [(with_state_key (ev_type create_event) '''', create_event)])))
      else Inr [])"

definition add_auth_event ::
  "(string \<times> 'c pdu) list \<Rightarrow> string \<Rightarrow> (type_state_key \<times> 'c pdu) list
   \<Rightarrow> (type_state_key \<times> 'c pdu) list result" where
  "add_auth_event auth_events aid auth_state =
     (case map_of auth_events aid of
        Some ev \<Rightarrow>
          bindR (ok_or (InvalidPdu ''State event had no state key'') (ev_state_key ev)) (\<lambda>key.
            Inr (AList.update (with_state_key (ev_type ev) key) ev auth_state))
      | None \<Rightarrow> Inr auth_state)"

definition add_resolved ::
  "'c fetch \<Rightarrow> (string \<times> 'c pdu) list \<Rightarrow> state_map \<Rightarrow> type_state_key
   \<Rightarrow> (type_state_key \<times> 'c pdu) list \<Rightarrow> (type_state_key \<times> 'c pdu) list" where
  "add_resolved fetch auth_events resolved_state key auth_state =
     (case map_of resolved_state key of
        None \<Rightarrow> auth_state
      | Some i \<Rightarrow>
          (case map_of auth_events i of
             Some event \<Rightarrow> AList.update key event auth_state
           | None \<Rightarrow>
               (case fetch i of
                  Some event \<Rightarrow> AList.update key event auth_state
                | None \<Rightarrow> auth_state)))"

text \<open>The state an event is checked against: its auth events, overridden by resolved state.\<close>

definition auth_state_for ::
  "'c ruma \<Rightarrow> room_version_rules \<Rightarrow> 'c fetch \<Rightarrow> (string \<times> 'c pdu) list \<Rightarrow> state_map \<Rightarrow> 'c pdu \<Rightarrow> string
   \<Rightarrow> (type_state_key \<times> 'c pdu) list result" where
  "auth_state_for R room_version fetch auth_events resolved_state event state_key =
     bindR (auth_types_for_event R (ev_type event) (ev_sender event) (Some state_key)
              (ev_content event) room_version) (\<lambda>auth_types.
     bindR (hashed_create_event R room_version fetch event) (\<lambda>auth_state.
     bindR (foldR (add_auth_event auth_events) (ev_auth_events event) auth_state) (\<lambda>auth_state.
       Inr (fold (add_resolved fetch auth_events resolved_state) auth_types auth_state))))"

definition check_event ::
  "'c ruma \<Rightarrow> room_version_rules \<Rightarrow> sched \<Rightarrow> 'c fetch \<Rightarrow> (string \<times> 'c pdu) list \<Rightarrow> 'c pdu
   \<Rightarrow> state_map \<Rightarrow> state_map result" where
  "check_event R room_version S fetch auth_events event resolved_state =
     bindR (ok_or (InvalidPdu ''State event had no state key'') (ev_state_key event)) (\<lambda>state_key.
     bindR (auth_state_for R room_version fetch auth_events resolved_state event state_key)
       (\<lambda>auth_state.
     (let current_third_party = List.find (\<lambda>pdu. ev_type pdu = RoomThirdPartyInvite)
            (map snd (iter_map (keys_order S) auth_state));
          fetch_state = (\<lambda>ty key. map_of auth_state (with_state_key ty key))
      in bindR (ok_or (Panic ''create event must exist'') (fetch_state RoomCreate ''''))
           (\<lambda>create_event.
         bindR (auth_check R room_version event current_third_party fetch_state create_event)
           (\<lambda>passed.
           Inr (if passed
                then AList.update (with_state_key (ev_type event) state_key) (ev_id event) resolved_state
                else resolved_state))))))"

definition fetch_auth_events :: "sched \<Rightarrow> 'c fetch \<Rightarrow> 'c pdu list \<Rightarrow> (string \<times> 'c pdu) list" where
  "fetch_auth_events S fetch events =
     fold (\<lambda>auth_event. AList.update (ev_id auth_event) auth_event)
       (List.map_filter fetch (arrival S (ids_order S (remdups (concat (map ev_auth_events events)))))) []"

definition iterative_auth_check ::
  "'c ruma \<Rightarrow> room_version_rules \<Rightarrow> sched \<Rightarrow> 'c fetch \<Rightarrow> string list \<Rightarrow> state_map \<Rightarrow> state_map result" where
  "iterative_auth_check R room_version S fetch events_to_check unconflicted_state =
     bindR (mapR (\<lambda>i. ok_or (NotFound (''Failed to find '' @ i)) (fetch i))
              (arrival S events_to_check)) (\<lambda>events.
       if events = [] then Inr unconflicted_state
       else foldR (check_event R room_version S fetch (fetch_auth_events S fetch events)) events
              unconflicted_state)"

subsection \<open>Resolution\<close>

definition initial_state ::
  "nat \<Rightarrow> room_version_rules \<Rightarrow> sched \<Rightarrow> 'c fetch \<Rightarrow> state_map \<Rightarrow> (type_state_key \<times> string list) list
   \<Rightarrow> (string list \<times> state_map) result" where
  "initial_state fuel room_version S fetch unconflicted conflicting =
     (case state_res room_version of
        StateRes_V2 True \<Rightarrow>
          bindR (calculate_conflicted_subgraph fuel S fetch conflicting) (\<lambda>csg. Inr (csg, []))
      | _ \<Rightarrow> Inr ([], unconflicted))"

definition full_conflicted_set ::
  "sched \<Rightarrow> (string \<Rightarrow> bool) \<Rightarrow> string list list \<Rightarrow> (type_state_key \<times> string list) list \<Rightarrow> string list
   \<Rightarrow> string list" where
  "full_conflicted_set S event_exists auth_chain_sets conflicting conflicted_state_subgraph =
     remdups (filter event_exists
         (arrival S (get_auth_chain_diff S auth_chain_sets
            @ concat (map snd (iter_map (keys_order S) conflicting))))
       @ ids_order S conflicted_state_subgraph)"

definition resolve ::
  "nat \<Rightarrow> 'c ruma \<Rightarrow> room_version_rules \<Rightarrow> sched \<Rightarrow> state_map list \<Rightarrow> string list list
   \<Rightarrow> 'c fetch \<Rightarrow> (string \<Rightarrow> bool) \<Rightarrow> state_map result" where
  "resolve fuel R room_version S state_sets auth_chain_sets event_fetch event_exists =
     (case separate S state_sets of (unconflicted, conflicting) \<Rightarrow>
        if conflicting = [] then Inr unconflicted
        else
          bindR (initial_state fuel room_version S event_fetch unconflicted conflicting)
            (\<lambda>(conflicted_state_subgraph, start).
          (let all_conflicted = full_conflicted_set S event_exists auth_chain_sets conflicting
                 conflicted_state_subgraph;
               control_events = filter (is_power_event_id R event_fetch) (ids_order S all_conflicted)
           in
          bindR (reverse_topological_power_sort R S event_fetch control_events all_conflicted)
            (\<lambda>sorted_control_levels.
          bindR (iterative_auth_check R room_version S event_fetch sorted_control_levels start)
            (\<lambda>resolved_control.
          (let events_to_resolve =
                 filter (\<lambda>i. i \<notin> set sorted_control_levels) (ids_order S all_conflicted);
               power_event = map_of resolved_control (RoomPowerLevels, '''')
           in
          bindR (mainline_sort fuel S event_fetch events_to_resolve power_event)
            (\<lambda>sorted_left_events.
          bindR (iterative_auth_check R room_version S event_fetch sorted_left_events resolved_control)
            (\<lambda>resolved_state.
              Inr (fold (\<lambda>(k, v). AList.update k v) (iter_map (keys_order S) unconflicted)
                     resolved_state)))))))))"

definition fork_state1 :: state_map where
  "fork_state1 = [((RoomCreate, ''''), ''$create''), ((RoomMember, alice), ''$alice''),
     ((RoomJoinRules, ''''), ''$rules''), ((RoomMember, bob), ''$bob''),
     ((RoomMember, carol), ''$carol''), ((RoomPowerLevels, ''''), ''$power''),
     (topic_key, ''$topic1'')]"

definition fork_state2 :: state_map where
  "fork_state2 = [((RoomCreate, ''''), ''$create''), ((RoomMember, alice), ''$alice''),
     ((RoomJoinRules, ''''), ''$rules''), ((RoomMember, bob), ''$bob''),
     ((RoomMember, carol), ''$carol''), ((RoomPowerLevels, ''''), ''$power2''),
     (topic_key, ''$topic2'')]"

definition fork_chains :: "string list list" where
  "fork_chains = [[''$create'', ''$alice'', ''$power'', ''$rules'', ''$bob''],
     [''$create'', ''$alice'', ''$power'', ''$rules'', ''$power2'']]"

subsection \<open>What the iterative auth check lets through\<close>

text \<open>
  The state an event is checked against, as a map: the resolved entries of the types the check reads, then the auth
  events of the event, the last of each type and state key, then the create event its room is named after.
\<close>

definition cited_state :: "'c fetch \<Rightarrow> string list \<Rightarrow> type_state_key \<Rightarrow> 'c pdu option" where
  "cited_state fetch ids = map_of (rev (List.map_filter (\<lambda>i. Option.bind (fetch i) (\<lambda>ev.
     map_option (\<lambda>sk. ((ev_type ev, sk), ev)) (ev_state_key ev))) ids))"

definition resolved_view ::
  "'c fetch \<Rightarrow> type_state_key list \<Rightarrow> (type_state_key \<Rightarrow> string option) \<Rightarrow> type_state_key \<Rightarrow> 'c pdu option" where
  "resolved_view fetch auth_types resolved k = (if k \<in> set auth_types then Option.bind (resolved k) fetch else None)"

definition auth_view ::
  "'c fetch \<Rightarrow> type_state_key list \<Rightarrow> (type_state_key \<times> 'c pdu) list \<Rightarrow> (type_state_key \<Rightarrow> string option) \<Rightarrow> 'c pdu
   \<Rightarrow> type_state_key \<Rightarrow> 'c pdu option" where
  "auth_view fetch auth_types created resolved ev =
     map_of created ++ cited_state fetch (ev_auth_events ev) ++ resolved_view fetch auth_types resolved"

text \<open>An event is authorized by the entries resolved so far.\<close>

definition authorized_by ::
  "'c ruma \<Rightarrow> room_version_rules \<Rightarrow> 'c fetch \<Rightarrow> (type_state_key \<Rightarrow> string option) \<Rightarrow> 'c pdu \<Rightarrow> bool" where
  "authorized_by R room_version fetch resolved ev =
     (case auth_types_for_event R (ev_type ev) (ev_sender ev) (ev_state_key ev) (ev_content ev) room_version of
        Inl _ \<Rightarrow> False
      | Inr auth_types \<Rightarrow>
          (case hashed_create_event R room_version fetch ev of
             Inl _ \<Rightarrow> False
           | Inr created \<Rightarrow>
               (case auth_view fetch auth_types created resolved ev (RoomCreate, '''') of
                  None \<Rightarrow> False
                | Some ce \<Rightarrow> auth_check R room_version ev None
                    (\<lambda>ty sk. auth_view fetch auth_types created resolved ev (ty, sk)) ce = Inr True)))"

text \<open>
  Entries that are reached from those of \<open>start\<close> by adding events of \<open>F\<close>, each authorized by the entries reached before
  it, under its type and state key.
\<close>

inductive authorized_from ::
  "'c ruma \<Rightarrow> room_version_rules \<Rightarrow> 'c fetch \<Rightarrow> string set \<Rightarrow> (type_state_key \<Rightarrow> string option)
   \<Rightarrow> (type_state_key \<Rightarrow> string option) \<Rightarrow> bool"
  for R :: "'c ruma" and room_version fetch F start where
  initial: "authorized_from R room_version fetch F start start"
| accept: "authorized_from R room_version fetch F start m \<Longrightarrow> i \<in> F \<Longrightarrow> fetch i = Some ev \<Longrightarrow> ev_state_key ev = Some sk
    \<Longrightarrow> authorized_by R room_version fetch m ev \<Longrightarrow> authorized_from R room_version fetch F start (m((ev_type ev, sk) \<mapsto> i))"

definition entry_of :: "'c pdu \<Rightarrow> type_state_key \<Rightarrow> string \<Rightarrow> bool" where
  "entry_of ev k v \<longleftrightarrow> ev_id ev = v \<and> ev_type ev = fst k \<and> ev_state_key ev = Some (snd k)"

lemma authorized_from_source:
  assumes "authorized_from R rv fetch F start m" and "m k = Some v"
  shows "start k = Some v \<or> v \<in> F \<and> v \<in> dom fetch"
  using assms by (induction arbitrary: k v rule: authorized_from.induct) (auto split: if_splits)

lemma authorized_from_mono: "authorized_from R rv fetch F start m \<Longrightarrow> F \<subseteq> F' \<Longrightarrow> authorized_from R rv fetch F' start m"
  by (induction rule: authorized_from.induct) (auto intro: authorized_from.intros)

lemma cited_state_Cons:
  "cited_state fetch (i # ids) = (case Option.bind (fetch i) (\<lambda>ev. map_option (\<lambda>sk. ((ev_type ev, sk), ev)) (ev_state_key ev)) of
      None \<Rightarrow> cited_state fetch ids | Some (k, ev) \<Rightarrow> [k \<mapsto> ev] ++ cited_state fetch ids)"
  by (simp add: cited_state_def map_filter_simps split: option.split)

lemma add_auth_events_map:
  assumes "foldR (add_auth_event aes) ids s = Inr t" and "\<forall>i \<in> set ids. map_of aes i = fetch i"
  shows "map_of t = map_of s ++ cited_state fetch ids"
  using assms
proof (induction ids arbitrary: s)
  case Nil
  then show ?case by (simp add: cited_state_def map_filter_simps)
next
  case (Cons i ids)
  from Cons.prems(1) obtain s' where s': "add_auth_event aes i s = Inr s'" and t: "foldR (add_auth_event aes) ids s' = Inr t"
    by (auto simp: bindR_eq_Inr)
  have "map_of t = map_of s' ++ cited_state fetch ids" by (rule Cons.IH [OF t]) (use Cons.prems(2) in simp)
  then show ?case using s' Cons.prems(2)
    by (auto simp: cited_state_Cons add_auth_event_def bindR_eq_Inr ok_or_eq_Inr with_state_key_def update_conv' map_add_assoc
        split: option.splits)
qed

lemma add_resolved_map:
  assumes "\<And>i. map_of aes i = None \<or> map_of aes i = fetch i"
  shows "map_of (fold (add_resolved fetch aes st) types s) = map_of s ++ resolved_view fetch types (map_of st)"
proof (induction types arbitrary: s)
  case (Cons k types)
  have "map_of (add_resolved fetch aes st k s) = (case Option.bind (map_of st k) fetch of None \<Rightarrow> map_of s | Some e \<Rightarrow> (map_of s)(k \<mapsto> e))"
    using assms by (auto simp: add_resolved_def update_conv' split: option.splits) (metis option.distinct(1) option.inject)+
  then show ?case using Cons.IH
    by (intro ext) (auto simp: map_add_def resolved_view_def split: option.splits)
qed (simp add: resolved_view_def map_add_def fun_eq_iff)

lemma check_invite_tpi: "check_invite tp3 cm tu s tpi j sc sp pl = check_invite tp3 cm tu s tpi' j sc sp pl"
  by (auto simp: check_invite_def verify_third_party_invite_def split: option.splits)

lemma auth_check_tpi: "auth_check R rv ev tpi fs ce = auth_check R rv ev tpi' fs ce"
proof -
  have "valid_membership_change R rv tu tme s sme ev tpi ple jre ufja ufjam cr
      = valid_membership_change R rv tu tme s sme ev tpi' ple jre ufja ufjam cr"
    for tu tme s sme ple jre ufja ufjam cr
    unfolding valid_membership_change_def check_invite_tpi [where tpi = tpi and tpi' = tpi'] ..
  note change = this
  have "auth_check_member R rv ev tpi fs ce pe se = auth_check_member R rv ev tpi' fs ce pe se" for pe se
    unfolding auth_check_member_def change ..
  note member = this
  show ?thesis unfolding auth_check_def member ..
qed

text \<open>A check adds its event to the state exactly when that state authorizes it.\<close>

lemma check_event_result:
  assumes "check_event R rv S fetch aes ev st = Inr st'"
  shows "st' = st \<or> (\<exists>k. entry_of ev k (ev_id ev) \<and> st' = AList.update k (ev_id ev) st)"
  using assms by (auto simp: check_event_def Let_def bindR_eq_Inr ok_or_eq_Inr with_state_key_def entry_of_def split: if_splits)

lemma check_event_exact:
  assumes "check_event R rv S fetch aes ev st = Inr st'"
    and "\<forall>i \<in> set (ev_auth_events ev). map_of aes i = fetch i" and "\<And>i. map_of aes i = None \<or> map_of aes i = fetch i"
  shows "\<exists>sk. ev_state_key ev = Some sk
    \<and> st' = (if authorized_by R rv fetch (map_of st) ev then AList.update (ev_type ev, sk) (ev_id ev) st else st)"
proof -
  from assms(1) obtain sk auth_state ce passed where
    sk: "ev_state_key ev = Some sk" and
    auth_state: "auth_state_for R rv fetch aes st ev sk = Inr auth_state" and
    ce: "map_of auth_state (RoomCreate, '''') = Some ce" and
    passed: "auth_check R rv ev (List.find (\<lambda>pdu. ev_type pdu = RoomThirdPartyInvite)
        (map snd (iter_map (keys_order S) auth_state)))
      (\<lambda>ty key. map_of auth_state (ty, key)) ce = Inr passed" and
    st': "st' = (if passed then AList.update (ev_type ev, sk) (ev_id ev) st else st)"
    by (auto simp: check_event_def Let_def bindR_eq_Inr ok_or_eq_Inr with_state_key_def)
  from auth_state obtain types created s where
    types: "auth_types_for_event R (ev_type ev) (ev_sender ev) (Some sk) (ev_content ev) rv = Inr types" and
    created: "hashed_create_event R rv fetch ev = Inr created" and
    s: "foldR (add_auth_event aes) (ev_auth_events ev) created = Inr s" and
    fold: "auth_state = fold (add_resolved fetch aes st) types s"
    by (auto simp: auth_state_for_def bindR_eq_Inr)
  have view: "map_of auth_state = auth_view fetch types created (map_of st) ev"
    unfolding fold add_resolved_map [OF assms(3)] add_auth_events_map [OF s assms(2)] auth_view_def ..
  have "auth_check R rv ev None (\<lambda>ty sk. auth_view fetch types created (map_of st) ev (ty, sk)) ce = Inr passed"
    using passed unfolding view by (subst auth_check_tpi) simp
  then have "authorized_by R rv fetch (map_of st) ev = passed"
    using types created ce sk by (simp add: authorized_by_def view)
  then show ?thesis using st' sk by simp
qed

lemma map_of_fetch_auth_events:
  assumes "fair_sched S" and "fetch_by_id fetch"
  shows "map_of (fetch_auth_events S fetch events) i
    = (if i \<in> set (concat (map ev_auth_events events)) then fetch i else None)"
proof -
  let ?aids = "arrival S (ids_order S (remdups (concat (map ev_auth_events events))))"
  define evs where "evs = List.map_filter fetch ?aids"
  have evs: "set evs = {ev. \<exists>a \<in> set (concat (map ev_auth_events events)). fetch a = Some ev}"
    unfolding evs_def set_map_filter using assms(1) by (simp add: fair_sched_def iteration_orderD(1))
  have fold_as: "fold (\<lambda>e. AList.update (ev_id e) e) evs m
      = fold (\<lambda>(k, v). AList.update k v) (map (\<lambda>e. (ev_id e, e)) evs) m" for m
    by (induction evs arbitrary: m) simp_all
  have "\<forall>(k, v) \<in> set (map (\<lambda>e. (ev_id e, e)) evs). v = the (fetch k)"
    using evs assms(2) by (auto simp: fetch_by_id_def)
  note upd = this
  have "map_of (fetch_auth_events S fetch events) i
      = (if i \<in> fst ` set (map (\<lambda>e. (ev_id e, e)) evs) then Some (the (fetch i)) else None)"
    unfolding fetch_auth_events_def evs_def [symmetric] fold_as
    using fold_update_function [OF upd] by blast
  moreover have "i \<in> fst ` set (map (\<lambda>e. (ev_id e, e)) evs)
      \<longleftrightarrow> i \<in> set (concat (map ev_auth_events events)) \<and> fetch i \<noteq> None"
    using evs assms(2) by (force simp: fetch_by_id_def image_image)
  ultimately show ?thesis by (auto split: if_splits)
qed

lemma list_all2_memD: "list_all2 P xs ys \<Longrightarrow> y \<in> set ys \<Longrightarrow> \<exists>x \<in> set xs. P x y"
  by (induction rule: list_all2_induct) auto

lemma iterative_auth_check_authorized:
  assumes "iterative_auth_check R rv S fetch ids st = Inr st'" and "fair_sched S" and "fetch_by_id fetch"
    and "set ids \<subseteq> F" and "authorized_from R rv fetch F start (map_of st)"
  shows "authorized_from R rv fetch F start (map_of st')"
proof -
  from assms(1) obtain events where
    events: "mapR (\<lambda>i. ok_or (NotFound (''Failed to find '' @ i)) (fetch i)) (arrival S ids) = Inr events"
    and st': "st' = st \<or> foldR (check_event R rv S fetch (fetch_auth_events S fetch events)) events st = Inr st'"
    by (auto simp: iterative_auth_check_def bindR_eq_Inr split: if_splits)
  have "list_all2 (\<lambda>i ev. fetch i = Some ev) (arrival S ids) events"
    using events by (simp add: mapR_eq_Inr)
  then have fetched: "\<exists>i \<in> set ids. fetch i = Some ev" if "ev \<in> set events" for ev
    using list_all2_memD [OF _ that] assms(2) by (fastforce simp: fair_sched_def iteration_orderD(1))
  note aes = map_of_fetch_auth_events [OF assms(2,3), of events]
  from st' show ?thesis
  proof
    assume "foldR (check_event R rv S fetch (fetch_auth_events S fetch events)) events st = Inr st'"
    then show ?thesis
    proof (rule foldR_invariant [where P = "\<lambda>s. authorized_from R rv fetch F start (map_of s)"])
      fix ev s t
      assume ev: "ev \<in> set events" and s: "authorized_from R rv fetch F start (map_of s)"
        and step: "check_event R rv S fetch (fetch_auth_events S fetch events) ev s = Inr t"
      obtain i where i: "i \<in> F" "fetch i = Some ev" using fetched [OF ev] assms(4) by blast
      then have id: "ev_id ev = i" using assms(3) by (simp add: fetch_by_id_def)
      have "\<exists>sk. ev_state_key ev = Some sk \<and> t = (if authorized_by R rv fetch (map_of s) ev then AList.update (ev_type ev, sk) (ev_id ev) s else s)"
        by (rule check_event_exact [OF step]) (use aes ev in auto)
      then show "authorized_from R rv fetch F start (map_of t)"
        using s accept [OF s i] by (auto simp: id update_conv')
    qed (rule assms(5))
  qed (use assms(5) in simp)
qed

text \<open>Later entries override earlier ones, but no key is ever lost.\<close>

lemma iterative_auth_check_dom:
  assumes "iterative_auth_check R rv S fetch ids st = Inr st'"
  shows "dom (map_of st) \<subseteq> dom (map_of st')"
proof -
  from assms obtain events where
    "st' = st \<or> foldR (check_event R rv S fetch (fetch_auth_events S fetch events)) events st = Inr st'"
    by (auto simp: iterative_auth_check_def bindR_eq_Inr split: if_splits)
  then show ?thesis
  proof
    assume "foldR (check_event R rv S fetch (fetch_auth_events S fetch events)) events st = Inr st'"
    then show ?thesis
      by (rule foldR_invariant [where P = "\<lambda>t. dom (map_of st) \<subseteq> dom (map_of t)"])
        (auto simp: update_conv' dest!: check_event_result)
  qed simp
qed

subsection \<open>What \<open>resolve\<close> returns\<close>

lemma map_of_extend:
  assumes "iteration_order ord" and "distinct (map fst u)"
  shows "map_of (fold (\<lambda>(k, v). AList.update k v) (iter_map ord u) st) = map_of st ++ map_of u"
proof -
  have "map_of (fold (\<lambda>(k, v). AList.update k v) xs st) = map_of st ++ map_of xs"
    if "distinct (map fst xs)" for xs :: "('a \<times> 'b) list" and st
    using that
  proof (induction xs arbitrary: st)
    case (Cons x xs)
    obtain k v where x: "x = (k, v)" by (cases x)
    have "map_of xs k = None" using Cons.prems x by (simp add: map_of_eq_None_iff)
    then show ?case using Cons x
      by (intro ext) (simp add: update_conv' map_add_def split: option.split)
  qed simp
  moreover have "distinct (map fst (iter_map ord u))"
    using assms by (simp add: iter_map_keys iteration_orderD)
  ultimately show ?thesis by (simp add: map_of_iter_map [OF assms])
qed

text \<open>The stages of a resolution that found conflicts.\<close>

lemma resolveE:
  assumes "resolve fuel R rv S sets acs fetch ex = Inr st" and "separate S sets = (u, c)" and "c \<noteq> []"
  obtains csg start F control ctl rc left rs where
    "initial_state fuel rv S fetch u c = Inr (csg, start)"
    and "F = full_conflicted_set S ex acs c csg"
    and "control = filter (is_power_event_id R fetch) (ids_order S F)"
    and "reverse_topological_power_sort R S fetch control F = Inr ctl"
    and "iterative_auth_check R rv S fetch ctl start = Inr rc"
    and "mainline_sort fuel S fetch (filter (\<lambda>i. i \<notin> set ctl) (ids_order S F))
      (map_of rc (RoomPowerLevels, '''')) = Inr left"
    and "iterative_auth_check R rv S fetch left rc = Inr rs"
    and "st = fold (\<lambda>(k, v). AList.update k v) (iter_map (keys_order S) u) rs"
  using assms unfolding resolve_def Let_def
  by (auto simp: bindR_eq_Inr)

lemma initial_state_start:
  "initial_state fuel rv S fetch u c = Inr (csg, start) \<Longrightarrow> start = u \<or> start = []"
  by (auto simp: initial_state_def bindR_eq_Inr split: state_resolution_version.splits bool.splits)

lemma mainline_sort_subset:
  assumes "mainline_sort fuel S fetch to_sort pl = Inr xs" and "fair_sched S"
  shows "set xs \<subseteq> set to_sort"
proof (cases "to_sort = []")
  case True
  then show ?thesis using assms(1) by (simp add: mainline_sort_def)
next
  case False
  then obtain mm entries om where
    entries: "mapR (order_entry fuel fetch mm) (arrival S to_sort) = Inr entries" and
    om: "om = fold (\<lambda>(k, v). AList.update k v) (List.map_filter id entries) []" and
    xs: "xs = sort_key (\<lambda>i. the (map_of om i)) (ids_order S (map fst om))"
    using assms(1) by (auto simp: mainline_sort_def bindR_eq_Inr Let_def)
  have "fst ` set (fold (\<lambda>(k, v). AList.update k v) ys m) \<subseteq> fst ` set ys \<union> fst ` set m"
    for ys and m :: "(string \<times> nat \<times> nat \<times> string) list"
  proof (induction ys arbitrary: m)
    case (Cons y ys)
    obtain k v where y: "y = (k, v)" by (cases y)
    show ?case using Cons [of "AList.update k v m"] y by auto
  qed simp
  then have "fst ` set om \<subseteq> fst ` set (List.map_filter id entries)" using om by force
  also have "\<dots> \<subseteq> set to_sort"
  proof
    fix i assume "i \<in> fst ` set (List.map_filter id entries)"
    then obtain k where "Some (i, k) \<in> set entries" by (auto simp: set_map_filter)
    from list_all2_memD [OF entries [unfolded mapR_eq_Inr] this]
    obtain j where "j \<in> set (arrival S to_sort)" "order_entry fuel fetch mm j = Inr (Some (i, k))"
      by (elim bexE)
    then show "i \<in> set to_sort"
      using assms(2) by (auto simp: order_entry_def fair_sched_def iteration_orderD(1)
          split: option.splits sum.splits if_splits)
  qed
  finally show ?thesis using xs assms(2) by (simp add: fair_sched_def iteration_orderD(1))
qed

lemma set_full_conflicted:
  assumes "fair_sched S" and "distinct (map fst c)"
  shows "set (full_conflicted_set S ex acs c csg)
    = {i \<in> set (get_auth_chain_diff S acs) \<union> set (concat (map snd c)). ex i} \<union> set csg"
proof -
  have "set (concat (map snd (iter_map (keys_order S) c))) = set (concat (map snd c))"
    using set_iter_map [OF _ assms(2), of "keys_order S"] assms(1) by (simp add: fair_sched_def)
  then show ?thesis
    using assms(1) by (auto simp: full_conflicted_set_def fair_sched_def iteration_orderD(1))
qed

lemma power_nodes_subset:
  assumes "set events \<subseteq> set diff"
  shows "power_nodes fetch diff events \<subseteq> set diff"
proof -
  have "n \<in> set diff" if "(e, n) \<in> (diff_rel fetch diff)\<^sup>*" "e \<in> set events" for e n
    using that by (induction rule: rtrancl_induct) (use assms in \<open>auto simp: diff_rel_def\<close>)
  then show ?thesis by (auto simp: power_nodes_def)
qed

text \<open>The events that take part in a resolution: conflicted, in the auth chain difference, or in
  the conflicted subgraph.\<close>

definition participants ::
  "nat \<Rightarrow> room_version_rules \<Rightarrow> sched \<Rightarrow> state_map list \<Rightarrow> string list list \<Rightarrow> 'c fetch \<Rightarrow> (string \<Rightarrow> bool) \<Rightarrow> string set" where
  "participants fuel room_version S state_sets auth_chain_sets fetch event_exists =
     (case separate S state_sets of (unconflicted, conflicting) \<Rightarrow>
        (case initial_state fuel room_version S fetch unconflicted conflicting of
           Inr (subgraph, _) \<Rightarrow> set (full_conflicted_set S event_exists auth_chain_sets conflicting subgraph)
         | Inl _ \<Rightarrow> {}))"

lemma resolve_authorized:
  assumes "resolve fuel R rv S sets acs fetch ex = Inr st" and "fair_sched S" and "fetch_by_id fetch"
    and "separate S sets = (u, c)" and "distinct (map fst u)" and "c \<noteq> []"
  shows "\<exists>rs. map_of st = rs ++ map_of u
    \<and> authorized_from R rv fetch (participants fuel rv S sets acs fetch ex)
        (if state_res rv = StateRes_V2 True then Map.empty else map_of u) rs"
  using assms(1,4,6)
proof (rule resolveE)
  have ids: "iteration_order (ids_order S)" and keys: "iteration_order (keys_order S)"
    using assms(2) by (auto simp: fair_sched_def)
  fix csg start F control ctl rc left rs
  assume init: "initial_state fuel rv S fetch u c = Inr (csg, start)"
    and F: "F = full_conflicted_set S ex acs c csg"
    and control: "control = filter (is_power_event_id R fetch) (ids_order S F)"
    and ctl: "reverse_topological_power_sort R S fetch control F = Inr ctl"
    and rc: "iterative_auth_check R rv S fetch ctl start = Inr rc"
    and left: "mainline_sort fuel S fetch (filter (\<lambda>i. i \<notin> set ctl) (ids_order S F))
      (map_of rc (RoomPowerLevels, '''')) = Inr left"
    and rs: "iterative_auth_check R rv S fetch left rc = Inr rs"
    and st: "st = fold (\<lambda>(k, v). AList.update k v) (iter_map (keys_order S) u) rs"
  have part: "participants fuel rv S sets acs fetch ex = set F"
    by (simp add: participants_def assms(4) init F)
  have "set control \<subseteq> set F" using control by (auto simp: iteration_orderD(1) [OF ids])
  then have ctlF: "set ctl \<subseteq> set F"
    using power_sort_nodes [OF assms(2) ctl] power_nodes_subset by blast
  have leftF: "set left \<subseteq> set F"
    using mainline_sort_subset [OF left assms(2)] by (auto simp: iteration_orderD(1) [OF ids])
  have start: "map_of start = (if state_res rv = StateRes_V2 True then Map.empty else map_of u)"
    using init by (auto simp: initial_state_def bindR_eq_Inr split: state_resolution_version.splits bool.splits)
  have "authorized_from R rv fetch (set F) (map_of start) (map_of rs)"
    using iterative_auth_check_authorized [OF rs assms(2,3) leftF]
      iterative_auth_check_authorized [OF rc assms(2,3) ctlF authorized_from.initial] by blast
  moreover have "map_of st = map_of rs ++ map_of u"
    unfolding st by (rule map_of_extend [OF keys assms(5)])
  ultimately show ?thesis unfolding part start by blast
qed

text \<open>C2. Resolution keeps what is not in dispute: an entry on which all state maps agree is in
  the resolved state.\<close>

theorem resolve_keeps_unconflicted:
  assumes "resolve fuel R rv S sets acs fetch ex = Inr st" and "fair_sched S"
    and "\<forall>m \<in> set sets. distinct (map fst m)" and "length sets \<le> usize_max"
    and "in_all sets k v"
  shows "map_of st k = Some v"
proof -
  obtain u c where sep: "separate S sets = (u, c)" by (cases "separate S sets")
  note spec = separate_spec [OF assms(2-4) sep]
  have u: "map_of u k = Some v" using spec(1) assms(5) by blast
  show ?thesis
  proof (cases "c = []")
    case True
    then show ?thesis using assms(1) sep u by (simp add: resolve_def)
  next
    case False
    then obtain rs where "st = fold (\<lambda>(k, v). AList.update k v) (iter_map (keys_order S) u) rs"
      using assms(1) sep by (auto elim!: resolveE)
    then have "map_of st = map_of rs ++ map_of u"
      using map_of_extend [of "keys_order S" u rs] assms(2) spec(6) by (simp add: fair_sched_def)
    then show ?thesis using u by (simp add: map_add_Some_iff)
  qed
qed

text \<open>C1. The resolved state is authorized step by step. It is the entries on which all state maps agree, over entries
  that are reached from these (from nothing, in the room versions that resolve over the conflicted subgraph) by adding
  events that take part in the resolution, under their type and state key: each is authorized by the entries reached
  before it and the events it cites, the reached entries first and a later cited event before an earlier one. The event
  store returns events under their own ids.\<close>

theorem resolve_entries_authorized:
  assumes "resolve fuel R rv S sets acs fetch ex = Inr st" and "fair_sched S" and "fetch_by_id fetch"
    and "\<forall>m \<in> set sets. distinct (map fst m)" and "length sets \<le> usize_max"
  shows "\<exists>agreed rs. (\<forall>k v. agreed k = Some v \<longleftrightarrow> in_all sets k v) \<and> map_of st = rs ++ agreed
    \<and> (rs = Map.empty \<or> authorized_from R rv fetch (participants fuel rv S sets acs fetch ex)
         (if state_res rv = StateRes_V2 True then Map.empty else agreed) rs)"
proof -
  obtain u c where sep: "separate S sets = (u, c)" by (cases "separate S sets")
  note spec = separate_spec [OF assms(2,4,5) sep]
  show ?thesis
  proof (cases "c = []")
    case True
    then have "map_of st = Map.empty ++ map_of u" using assms(1) sep by (simp add: resolve_def)
    then show ?thesis using spec(1) by blast
  next
    case False
    from resolve_authorized [OF assms(1-3) sep spec(6) False] show ?thesis using spec(1) by blast
  qed
qed

text \<open>Where the state maps agree there is nothing to resolve: whatever events can be fetched,
  the result is their common state.\<close>

lemma resolve_agreeing_states:
  assumes "fair_sched S" and "\<forall>m \<in> set sets. distinct (map fst m)" and "length sets \<le> usize_max"
    and "m0 \<in> set sets" and "\<forall>m \<in> set sets. map_of m = map_of m0"
  shows "\<exists>st. resolve fuel R rv S sets acs fetch ex = Inr st \<and> map_of st = map_of m0"
proof -
  obtain u c where sep: "separate S sets = (u, c)" by (cases "separate S sets")
  note spec = separate_spec [OF assms(1-3) sep]
  have ne: "sets \<noteq> []" using assms(4) by auto
  have eq: "map_of m k = map_of m0 k" if "m \<in> set sets" for m k using assms(5) that by metis
  have all: "in_all sets k v \<longleftrightarrow> map_of m0 k = Some v" for k v
    unfolding in_all_def using ne eq assms(4) by metis
  have some: "in_some sets k v \<longleftrightarrow> map_of m0 k = Some v" for k v
    unfolding in_some_def using eq assms(4) by metis
  have "map_of c k = None" for k
    using spec(2) [of k] spec(3) [of k] all some by (cases "map_of c k") auto
  then have "map_of c = Map.empty" by (intro ext)
  then have "c = []" by (simp only: map_of_eq_empty_iff)
  moreover have "map_of u = map_of m0"
    using spec(1) all by (intro ext) (metis not_Some_eq)
  ultimately show ?thesis using sep by (simp add: resolve_def)
qed

subsection \<open>The result does not depend on hash orders\<close>

text \<open>The third-party invite handed to \<open>auth_check\<close> has no influence.\<close>

text \<open>Two resolved states with the same entries.\<close>

definition same_map :: "state_map result \<Rightarrow> state_map result \<Rightarrow> bool" where
  "same_map r r' \<longleftrightarrow> map_sum (\<lambda>e. e) map_of r = map_sum (\<lambda>e. e) map_of r'"

lemma same_map_simps [simp]:
  "same_map (Inl e) (Inl e') \<longleftrightarrow> e = e'" "same_map (Inr m) (Inr m') \<longleftrightarrow> map_of m = map_of m'"
  "\<not> same_map (Inl e) (Inr m)" "\<not> same_map (Inr m) (Inl e)"
  by (auto simp: same_map_def)

lemma same_map_refl [simp]: "same_map r r"
  by (simp add: same_map_def)

lemma same_map_cases:
  assumes "same_map r r'"
  obtains e where "r = Inl e" "r' = Inl e" | m m' where "r = Inr m" "r' = Inr m'" "map_of m = map_of m'"
  using assms by (cases r; cases r') auto

lemma same_map_bindR:
  assumes "same_map r r'" and "\<And>m m'. map_of m = map_of m' \<Longrightarrow> same_map (f m) (f' m')"
  shows "same_map (bindR r f) (bindR r' f')"
  using assms(1) by (rule same_map_cases) (simp_all add: assms(2))

lemma add_resolved_cong:
  "map_of aes = map_of aes' \<Longrightarrow> map_of st = map_of st' \<Longrightarrow>
   add_resolved fetch aes st = add_resolved fetch aes' st'"
  by (intro ext) (simp add: add_resolved_def split: option.split)

lemma auth_state_for_cong:
  assumes "map_of aes = map_of aes'" and "map_of st = map_of st'"
  shows "auth_state_for R rv fetch aes st ev key = auth_state_for R rv fetch aes' st' ev key"
proof -
  have "add_auth_event aes = add_auth_event aes'"
    using assms(1) by (intro ext) (simp add: add_auth_event_def)
  then show ?thesis using add_resolved_cong [OF assms] by (simp add: auth_state_for_def)
qed

lemma check_event_cong:
  assumes "map_of aes = map_of aes'" and "map_of st = map_of st'"
  shows "same_map (check_event R rv S fetch aes ev st) (check_event R rv S' fetch aes' ev st')"
proof (cases "ev_state_key ev")
  case None
  then show ?thesis by (simp add: check_event_def)
next
  case (Some key)
  note same = auth_state_for_cong [OF assms, of R rv fetch ev key]
  show ?thesis
  proof (cases "auth_state_for R rv fetch aes' st' ev key")
    case (Inl e)
    then show ?thesis using same Some by (simp add: check_event_def)
  next
    case (Inr auth_state)
    let ?fs = "\<lambda>ty key. map_of auth_state (with_state_key ty key)"
    let ?tpi = "\<lambda>S. List.find (\<lambda>pdu. ev_type pdu = RoomThirdPartyInvite)
      (map snd (iter_map (keys_order S) auth_state))"
    show ?thesis
    proof (cases "?fs RoomCreate ''''")
      case None
      then show ?thesis using same Some Inr by (simp add: check_event_def Let_def)
    next
      case ce: (Some ce)
      have "auth_check R rv ev (?tpi S) ?fs ce = auth_check R rv ev (?tpi S') ?fs ce"
        by (rule auth_check_tpi)
      then show ?thesis using same Some Inr ce assms(2)
        by (cases "auth_check R rv ev (?tpi S') ?fs ce") (simp_all add: check_event_def Let_def update_conv')
    qed
  qed
qed

lemma foldR_check_event_cong:
  assumes "map_of aes = map_of aes'" and "map_of st = map_of st'"
  shows "same_map (foldR (check_event R rv S fetch aes) evs st) (foldR (check_event R rv S' fetch aes') evs st')"
  using assms(2)
proof (induction evs arbitrary: st st')
  case Nil
  then show ?case by simp
next
  case (Cons ev evs)
  show ?case unfolding foldR.simps
    by (rule same_map_bindR [OF check_event_cong [OF assms(1) Cons.prems]]) (rule Cons.IH)
qed

text \<open>With fetches that complete in order, only the contents of the maps matter.\<close>

lemma iterative_auth_check_cong:
  assumes "fair_sched S" and "fair_sched S'" and "arrival S = id" and "arrival S' = id"
    and "fetch_by_id fetch" and "map_of st = map_of st'"
  shows "same_map (iterative_auth_check R rv S fetch ids st) (iterative_auth_check R rv S' fetch ids st')"
proof (cases "mapR (\<lambda>i. ok_or (NotFound (''Failed to find '' @ i)) (fetch i)) ids")
  case (Inl e)
  then show ?thesis using assms(3,4) by (simp add: iterative_auth_check_def)
next
  case (Inr events)
  have "map_of (fetch_auth_events S fetch events) = map_of (fetch_auth_events S' fetch events)"
    using map_of_fetch_auth_events [OF assms(1,5)] map_of_fetch_auth_events [OF assms(2,5)] by auto
  from foldR_check_event_cong [OF this assms(6)] show ?thesis
    using assms(3,4,6) Inr by (simp add: iterative_auth_check_def)
qed

subsection \<open>A complete event store\<close>

text \<open>
  What the callers of \<open>resolve\<close> provide: the events of the state maps and auth chains can be
  fetched under their ids, with all their auth events, which form no cycle, and the levels of
  their senders can be read.
\<close>

definition complete_store ::
  "'c ruma \<Rightarrow> sched \<Rightarrow> 'c fetch \<Rightarrow> state_map list \<Rightarrow> string list list \<Rightarrow> bool" where
  "complete_store R S fetch sets acs \<longleftrightarrow>
     finite (dom fetch) \<and> acyclic_auth fetch \<and> fetch_by_id fetch
     \<and> (\<forall>n \<in> dom fetch. set (auth_ids fetch n) \<subseteq> dom fetch)
     \<and> (\<forall>n \<in> dom fetch. \<exists>l. get_power_level_for_sender R S fetch n = Inr l)
     \<and> (\<forall>m \<in> set sets. snd ` set m \<subseteq> dom fetch) \<and> (\<forall>chain \<in> set acs. set chain \<subseteq> dom fetch)"

definition enough_fuel :: "'c fetch \<Rightarrow> state_map list \<Rightarrow> nat \<Rightarrow> bool" where
  "enough_fuel fetch sets fuel \<longleftrightarrow> card (dom fetch) \<le> fuel
     \<and> length (concat sets) + (\<Sum>x \<in> dom fetch. length (auth_ids fetch x)) < fuel"

lemma find_power_level_auth_ok:
  "set aids \<subseteq> dom fetch \<Longrightarrow> \<exists>found. find_power_level_auth fetch aids = Inr found"
  by (induction aids) auto

lemma mainline_exists:
  assumes "finite (dom fetch)" and "acyclic_auth fetch" and "\<forall>n \<in> dom fetch. set (auth_ids fetch n) \<subseteq> dom fetch"
    and "\<And>p. pl = Some p \<Longrightarrow> p \<in> dom fetch"
  shows "\<exists>ml. mainline_of fetch pl ml"
proof -
  obtain rank :: "string \<Rightarrow> nat" where
    rank: "\<forall>n \<in> dom fetch. \<forall>m \<in> dom fetch. m \<in> set (auth_ids fetch n) \<longrightarrow> rank m < rank n"
    using acyclic_rank [OF assms(1,2)] by blast
  have "\<exists>ml. mainline_of fetch (Some p) ml" if "p \<in> dom fetch" for p
    using that
  proof (induction "rank p" arbitrary: p rule: less_induct)
    case less
    then obtain ev where ev: "fetch p = Some ev" by auto
    then have aids: "auth_ids fetch p = ev_auth_events ev" by (simp add: auth_ids_def)
    then have sub: "set (ev_auth_events ev) \<subseteq> dom fetch"
      using bspec [OF assms(3) less.prems] by simp
    then obtain found where found: "find_power_level_auth fetch (ev_auth_events ev) = Inr found"
      using find_power_level_auth_ok by blast
    have "\<exists>ml. mainline_of fetch (map_option fst found) ml"
    proof (cases found)
      case None
      then show ?thesis by (auto intro: mainline_end)
    next
      case (Some f)
      then obtain a aev where f: "found = Some (a, aev)" by (cases f) auto
      then have "a \<in> set (ev_auth_events ev)" using found find_power_level_auth_SomeD by blast
      moreover from this have "a \<in> dom fetch" using sub by blast
      ultimately have "a \<in> dom fetch" "rank a < rank p"
        using bspec [OF bspec [OF rank less.prems]] aids by auto
      then show ?thesis using less.hyps f by auto
    qed
    then show ?case using ev found by (auto intro: mainline_next)
  qed
  then show ?thesis using assms(4) by (cases pl) (auto intro: mainline_end)
qed

lemma concat_values:
  assumes "distinct (map fst c)"
  shows "set (concat (map snd c)) = (\<Union>k. set (or_default (map_of c k)))"
proof (intro set_eqI iffI)
  fix v assume "v \<in> set (concat (map snd c))"
  then obtain k vs where "(k, vs) \<in> set c" "v \<in> set vs" by auto
  then show "v \<in> (\<Union>k. set (or_default (map_of c k)))" using assms by (auto intro!: exI [of _ k])
next
  fix v assume "v \<in> (\<Union>k. set (or_default (map_of c k)))"
  then obtain k where v: "v \<in> set (or_default (map_of c k))" by blast
  then obtain vs where "map_of c k = Some vs" by (cases "map_of c k") auto
  then have "(k, vs) \<in> set c" and "v \<in> set vs" using v by (auto dest: map_of_SomeD)
  then show "v \<in> set (concat (map snd c))" by force
qed

text \<open>The conflicted events, and the bounds on them.\<close>

definition conflicted_ids :: "state_map list \<Rightarrow> string set" where
  "conflicted_ids sets = {v. \<exists>k. in_some sets k v \<and> \<not> in_all sets k v}"

lemma separate_values:
  assumes "fair_sched S" and "\<forall>m \<in> set sets. distinct (map fst m)" and "length sets \<le> usize_max"
    and "separate S sets = (u, c)"
  shows "set (concat (map snd c)) = conflicted_ids sets" and "c = [] \<longleftrightarrow> conflicted_ids sets = {}"
proof -
  note spec = separate_spec [OF assms]
  show ids: "set (concat (map snd c)) = conflicted_ids sets"
    unfolding concat_values [OF spec(5)] conflicted_ids_def using spec(2) by auto
  have "vs \<noteq> []" if "(k, vs) \<in> set c" for k vs
    using that spec(3) [of k] spec(5) by (metis map_of_is_SomeI)
  then show "c = [] \<longleftrightarrow> conflicted_ids sets = {}" using ids by (cases c) fastforce+
qed

lemma conflicted_ids_values: "conflicted_ids sets \<subseteq> snd ` set (concat sets)"
  by (auto simp: conflicted_ids_def in_some_def dest!: map_of_SomeD) (metis UN_I image_eqI snd_conv)

lemma between_conflicted_closed:
  assumes "C \<subseteq> dom fetch" and "\<forall>n \<in> dom fetch. set (auth_ids fetch n) \<subseteq> dom fetch"
  shows "between_conflicted fetch C \<subseteq> dom fetch"
proof -
  have "x \<in> dom fetch" if "(c, x) \<in> (auth_rel fetch)\<^sup>*" "c \<in> dom fetch" for c x
    using that by (induction rule: rtrancl_induct) (use assms(2) in \<open>auto simp: subset_eq\<close>)
  then show ?thesis using assms(1) unfolding between_conflicted_def by blast
qed

definition subgraph_ids :: "room_version_rules \<Rightarrow> 'c fetch \<Rightarrow> state_map list \<Rightarrow> string set" where
  "subgraph_ids rv fetch sets = (if state_res rv = StateRes_V2 True
     then between_conflicted fetch (conflicted_ids sets) else {})"

lemma initial_state_ok:
  assumes "fair_sched S" and "\<forall>m \<in> set sets. distinct (map fst m)" and "length sets \<le> usize_max"
    and "separate S sets = (u, c)" and "complete_store R T fetch sets acs" and "enough_fuel fetch sets fuel"
  obtains csg start where "initial_state fuel rv S fetch u c = Inr (csg, start)"
    and "set csg = subgraph_ids rv fetch sets"
    and "map_of start = (if state_res rv = StateRes_V2 True then Map.empty else map_of u)"
proof (cases "state_res rv = StateRes_V2 True")
  case True
  let ?C = "remdups (concat (map snd c))"
  have C: "set ?C = conflicted_ids sets" using separate_values(1) [OF assms(1-4)] by simp
  have "length ?C = card (conflicted_ids sets)" using C distinct_card [of ?C] by simp
  also have "\<dots> \<le> card (snd ` set (concat sets))"
    by (rule card_mono [OF _ conflicted_ids_values]) simp
  also have "\<dots> \<le> length (concat sets)"
    using card_image_le [of "set (concat sets)" snd] card_length [of "concat sets"] by force
  finally have "length ?C + (\<Sum>x \<in> dom fetch. length (auth_ids fetch x)) < fuel"
    using assms(6) unfolding enough_fuel_def by linarith
  moreover have "acyclic_auth fetch" "finite (dom fetch)"
    using assms(5) by (simp_all add: complete_store_def)
  ultimately obtain sub where "calculate_conflicted_subgraph fuel S fetch c = Inr sub"
    "set sub = between_conflicted fetch (conflicted_ids sets)"
    using conflicted_subgraph_spec [OF assms(1) _ _ refl] C by metis
  then show ?thesis using that True by (simp add: initial_state_def subgraph_ids_def)
next
  case False
  then have "initial_state fuel rv S fetch u c = Inr ([], u)"
    by (auto simp: initial_state_def split: state_resolution_version.split bool.split)
  then show ?thesis using that False by (simp add: subgraph_ids_def)
qed

text \<open>The full conflicted set, as a set of ids.\<close>

lemma full_conflicted_ids:
  assumes "fair_sched S" and "\<forall>m \<in> set sets. distinct (map fst m)" and "length sets \<le> usize_max"
    and "separate S sets = (u, c)" and "complete_store R T fetch sets acs"
    and "set csg = subgraph_ids rv fetch sets" and "fair_sched S'"
  shows "set (full_conflicted_set S ex acs c csg)
      = {i \<in> set (get_auth_chain_diff S' acs) \<union> conflicted_ids sets. ex i} \<union> subgraph_ids rv fetch sets"
    and "set (full_conflicted_set S ex acs c csg) \<subseteq> dom fetch"
proof -
  note spec = separate_spec [OF assms(1-4)]
  show eq: "set (full_conflicted_set S ex acs c csg)
      = {i \<in> set (get_auth_chain_diff S' acs) \<union> conflicted_ids sets. ex i} \<union> subgraph_ids rv fetch sets"
    unfolding set_full_conflicted [OF assms(1) spec(5)] assms(6)
      separate_values(1) [OF assms(1-4)] get_auth_chain_diff_set(1) [OF assms(1,7)] ..
  have store: "\<forall>m \<in> set sets. snd ` set m \<subseteq> dom fetch" "\<forall>ch \<in> set acs. set ch \<subseteq> dom fetch"
    and closed: "\<forall>n \<in> dom fetch. set (auth_ids fetch n) \<subseteq> dom fetch"
    using assms(5) by (simp_all add: complete_store_def)
  have "snd ` set (concat sets) \<subseteq> dom fetch"
    unfolding set_concat image_UN using store(1) by (intro UN_least) (rule bspec)
  then have "conflicted_ids sets \<subseteq> dom fetch" by (rule subset_trans [OF conflicted_ids_values])
  moreover from this have "subgraph_ids rv fetch sets \<subseteq> dom fetch"
    using between_conflicted_closed [OF _ closed] by (simp add: subgraph_ids_def)
  moreover have "set (get_auth_chain_diff S' acs) \<subseteq> dom fetch"
    using get_auth_chain_diff_set(2) [OF assms(7,7)] store(2) by blast
  ultimately show "set (full_conflicted_set S ex acs c csg) \<subseteq> dom fetch" unfolding eq by blast
qed

lemma resolved_power_event:
  assumes "iterative_auth_check R rv S fetch ids start = Inr rc" and "fair_sched S" and "fetch_by_id fetch"
    and "\<And>k v. map_of start k = Some v \<Longrightarrow> v \<in> dom fetch" and "map_of rc k = Some p"
  shows "p \<in> dom fetch"
proof -
  have "authorized_from R rv fetch (set ids) (map_of start) (map_of rc)"
    by (rule iterative_auth_check_authorized [OF assms(1-3) subset_refl authorized_from.initial])
  from authorized_from_source [OF this assms(5)] show ?thesis using assms(4) by blast
qed

lemma start_in_store:
  assumes "fair_sched S" and "\<forall>m \<in> set sets. distinct (map fst m)" and "length sets \<le> usize_max"
    and "separate S sets = (u, c)" and "complete_store R T fetch sets acs"
    and "map_of start = (if b then Map.empty else map_of u)" and "map_of start k = Some v"
  shows "v \<in> dom fetch"
proof -
  have "map_of u k = Some v" using assms(6,7) by (simp split: if_splits)
  then have "in_all sets k v" using separate_spec(1) [OF assms(1-4)] by simp
  then obtain m where "m \<in> set sets" "map_of m k = Some v" by (cases sets) (auto simp: in_all_def)
  moreover from this(2) have "v \<in> snd ` set m" by (force dest: map_of_SomeD)
  ultimately show ?thesis using assms(5) unfolding complete_store_def by blast
qed

lemma arrival_levels:
  "arrival S = arrival S' \<Longrightarrow> get_power_level_for_sender R S fetch n = get_power_level_for_sender R S' fetch n"
  by (simp add: get_power_level_for_sender_def)

text \<open>The stages of a resolution after the conflicted set is known.\<close>

definition resolve_conflicted ::
  "nat \<Rightarrow> 'c ruma \<Rightarrow> room_version_rules \<Rightarrow> sched \<Rightarrow> 'c fetch \<Rightarrow> string list \<Rightarrow> state_map \<Rightarrow> state_map result" where
  "resolve_conflicted fuel R rv S fetch F start =
     bindR (reverse_topological_power_sort R S fetch (filter (is_power_event_id R fetch) (ids_order S F)) F)
       (\<lambda>ctl. bindR (iterative_auth_check R rv S fetch ctl start) (\<lambda>rc.
          bindR (mainline_sort fuel S fetch (filter (\<lambda>i. i \<notin> set ctl) (ids_order S F))
              (map_of rc (RoomPowerLevels, '''')))
            (\<lambda>left. iterative_auth_check R rv S fetch left rc)))"

lemma bindR_assoc: "bindR (bindR m f) g = bindR m (\<lambda>x. bindR (f x) g)"
  by (cases m) simp_all

lemma resolve_by_conflicted:
  assumes "separate S sets = (u, c)" and "c \<noteq> []"
  shows "resolve fuel R rv S sets acs fetch ex =
    bindR (initial_state fuel rv S fetch u c) (\<lambda>(csg, start).
      bindR (resolve_conflicted fuel R rv S fetch (full_conflicted_set S ex acs c csg) start) (\<lambda>rs.
        Inr (fold (\<lambda>(k, v). AList.update k v) (iter_map (keys_order S) u) rs)))"
  using assms by (simp add: resolve_def resolve_conflicted_def Let_def bindR_assoc split_def)

lemma resolve_conflicted_same:
  assumes "fair_sched S" and "fair_sched S'" and "arrival S = id" and "arrival S' = id"
    and "complete_store R S fetch sets acs" and "card (dom fetch) \<le> fuel"
    and "set F = set F'" and "set F \<subseteq> dom fetch" and "map_of start = map_of start'"
    and "\<And>k v. map_of start k = Some v \<Longrightarrow> v \<in> dom fetch"
  shows "same_map (resolve_conflicted fuel R rv S fetch F start) (resolve_conflicted fuel R rv S' fetch F' start')"
proof -
  have store: "finite (dom fetch)" "acyclic_auth fetch" "fetch_by_id fetch"
    "\<forall>n \<in> dom fetch. set (auth_ids fetch n) \<subseteq> dom fetch"
    "\<forall>n \<in> dom fetch. \<exists>l. get_power_level_for_sender R S fetch n = Inr l"
    using assms(5) by (simp_all add: complete_store_def)
  have ids: "set (ids_order S F) = set F" "set (ids_order S' F') = set F'"
    using assms(1,2) by (simp_all add: fair_sched_def iteration_orderD(1))
  let ?con = "filter (is_power_event_id R fetch) (ids_order S F)"
    and ?con' = "filter (is_power_event_id R fetch) (ids_order S' F')"
  have con: "set ?con = set ?con'" "set ?con \<subseteq> set F" using ids assms(7) by auto
  then have nodes: "power_nodes fetch F ?con \<subseteq> dom fetch"
    using power_nodes_subset assms(8) by blast
  have sort: "reverse_topological_power_sort R S fetch ?con F = reverse_topological_power_sort R S' fetch ?con' F'"
  proof (rule power_sort_same [OF assms(1,2,7) con(1)])
    show "sender_levels_ok R S fetch (power_nodes fetch F ?con)"
      using nodes store(5) unfolding sender_levels_ok_def by blast
    show "get_power_level_for_sender R S fetch n = get_power_level_for_sender R S' fetch n" for n
      by (rule arrival_levels) (simp add: assms(3,4))
  qed
  show ?thesis
  proof (cases "reverse_topological_power_sort R S fetch ?con F")
    case (Inl e)
    then show ?thesis using sort by (simp add: resolve_conflicted_def)
  next
    case (Inr ctl)
    note sort' = sort [symmetric, unfolded Inr]
    let ?left = "filter (\<lambda>i. i \<notin> set ctl) (ids_order S F)"
      and ?left' = "filter (\<lambda>i. i \<notin> set ctl) (ids_order S' F')"
    have left: "set ?left = set ?left'" using ids assms(7) by auto
    from iterative_auth_check_cong [OF assms(1-4) store(3) assms(9), of R rv ctl]
    show ?thesis
    proof (rule same_map_cases)
      fix e assume "iterative_auth_check R rv S fetch ctl start = Inl e"
        "iterative_auth_check R rv S' fetch ctl start' = Inl e"
      then show ?thesis using sort' Inr by (simp add: resolve_conflicted_def)
    next
      fix rc rc'
      assume rc: "iterative_auth_check R rv S fetch ctl start = Inr rc"
        "iterative_auth_check R rv S' fetch ctl start' = Inr rc'" "map_of rc = map_of rc'"
      have "p \<in> dom fetch" if "map_of rc k = Some p" for k p
        by (rule resolved_power_event [OF rc(1) assms(1) store(3) assms(10) that])
      then have "\<exists>ml. mainline_of fetch (map_of rc (RoomPowerLevels, '''')) ml"
        by (intro mainline_exists [OF store(1,2,4)])
      then obtain ml where "mainline_of fetch (map_of rc (RoomPowerLevels, '''')) ml" ..
      from mainline_sort_same [OF assms(1,2) store(2,1) assms(6) this left]
      have ms: "mainline_sort fuel S fetch ?left (map_of rc (RoomPowerLevels, ''''))
          = mainline_sort fuel S' fetch ?left' (map_of rc' (RoomPowerLevels, ''''))"
        by (simp add: rc(3))
      show ?thesis
        using sort' Inr rc ms iterative_auth_check_cong [OF assms(1-4) store(3) rc(3)]
        by (cases "mainline_sort fuel S' fetch ?left' (map_of rc' (RoomPowerLevels, ''''))")
          (simp_all add: resolve_conflicted_def)
    qed
  qed
qed

lemma resolve_same:
  assumes "fair_sched S" and "fair_sched S'" and "arrival S = id" and "arrival S' = id"
    and "\<forall>m \<in> set sets. distinct (map fst m)" and "length sets \<le> usize_max"
    and "complete_store R S fetch sets acs" and "enough_fuel fetch sets fuel"
  shows "same_map (resolve fuel R rv S sets acs fetch ex) (resolve fuel R rv S' sets acs fetch ex)"
proof -
  obtain u c where sep: "separate S sets = (u, c)" by (cases "separate S sets")
  obtain u' c' where sep': "separate S' sets = (u', c')" by (cases "separate S' sets")
  note spec = separate_spec [OF assms(1,5,6) sep] and spec' = separate_spec [OF assms(2,5,6) sep']
  have "map_of u k = Some v \<longleftrightarrow> map_of u' k = Some v" for k v unfolding spec(1) spec'(1) ..
  then have u: "map_of u = map_of u'" by (metis not_Some_eq ext)
  have c: "c = [] \<longleftrightarrow> c' = []"
    using separate_values(2) [OF assms(1,5,6) sep] separate_values(2) [OF assms(2,5,6) sep'] by simp
  show ?thesis
  proof (cases "c = []")
    case True
    then show ?thesis using c u sep sep' by (simp add: resolve_def)
  next
    case False
    then have False': "c' \<noteq> []" using c by simp
    obtain csg start where init: "initial_state fuel rv S fetch u c = Inr (csg, start)"
        and csg: "set csg = subgraph_ids rv fetch sets"
        and start: "map_of start = (if state_res rv = StateRes_V2 True then Map.empty else map_of u)"
      by (rule initial_state_ok [OF assms(1,5,6) sep assms(7,8), where rv = rv])
    obtain csg' start' where init': "initial_state fuel rv S' fetch u' c' = Inr (csg', start')"
        and csg': "set csg' = subgraph_ids rv fetch sets"
        and start': "map_of start' = (if state_res rv = StateRes_V2 True then Map.empty else map_of u')"
      by (rule initial_state_ok [OF assms(2,5,6) sep' assms(7,8), where rv = rv])
    let ?F = "full_conflicted_set S ex acs c csg" and ?F' = "full_conflicted_set S' ex acs c' csg'"
    note F = full_conflicted_ids [OF assms(1,5,6) sep assms(7) csg assms(1), of ex]
    note F' = full_conflicted_ids [OF assms(2,5,6) sep' assms(7) csg' assms(1), of ex]
    have "set ?F = set ?F'" unfolding F(1) F'(1) ..
    moreover have "map_of start = map_of start'" using start start' u by simp
    moreover have "v \<in> dom fetch" if "map_of start k = Some v" for k v
      by (rule start_in_store [OF assms(1,5,6) sep assms(7) start that])
    moreover have "card (dom fetch) \<le> fuel" using assms(8) by (simp add: enough_fuel_def)
    ultimately have "same_map (resolve_conflicted fuel R rv S fetch ?F start)
        (resolve_conflicted fuel R rv S' fetch ?F' start')"
      using F(2) by (intro resolve_conflicted_same [OF assms(1-4,7)]) auto
    moreover have "map_of (fold (\<lambda>(k, v). AList.update k v) (iter_map (keys_order S) u) m)
        = map_of (fold (\<lambda>(k, v). AList.update k v) (iter_map (keys_order S') u') m')"
      if "map_of m = map_of m'" for m m'
      using map_of_extend [OF _ spec(6), of "keys_order S"] map_of_extend [OF _ spec'(6), of "keys_order S'"]
        assms(1,2) u that by (simp add: fair_sched_def)
    ultimately show ?thesis
      unfolding resolve_by_conflicted [OF sep False] resolve_by_conflicted [OF sep' False']
        init init' bindR_simps prod.case
      by (intro same_map_bindR) simp_all
  qed
qed

text \<open>C4. Resolution is deterministic where every fetch completes in the order it was issued:
  over a complete event store, the resolved state is the same whatever order the hash maps and hash
  sets are walked in.\<close>

theorem resolve_deterministic:
  assumes "fair_sched S" and "fair_sched S'" and "arrival S = id" and "arrival S' = id"
    and "\<forall>m \<in> set sets. distinct (map fst m)" and "length sets \<le> usize_max"
    and "complete_store R S fetch sets acs" and "enough_fuel fetch sets fuel"
  shows "same_map (resolve fuel R rv S sets acs fetch ex) (resolve fuel R rv S' sets acs fetch ex)"
  by (rule resolve_same [OF assms])

subsection \<open>Resolution comes to an end\<close>

lemma foldR_eq_InlD: "foldR f xs s = Inl e \<Longrightarrow> \<exists>x \<in> set xs. \<exists>t. f x t = Inl e"
  by (induction xs arbitrary: s) (auto simp: bindR_eq_Inl)

lemma iterative_auth_check_error:
  assumes "iterative_auth_check R rv S fetch ids st = Inl e" and "fair_sched S" and "set ids \<subseteq> dom fetch"
  shows "\<exists>i \<in> set ids. \<exists>ev aes t. fetch i = Some ev \<and> check_event R rv S fetch aes ev t = Inl e"
proof -
  let ?get = "\<lambda>i. ok_or (NotFound (''Failed to find '' @ i)) (fetch i)"
  have arr: "set (arrival S ids) = set ids" using assms(2) by (simp add: fair_sched_def iteration_orderD(1))
  have no_err: "mapR ?get (arrival S ids) \<noteq> Inl e"
  proof
    assume "mapR ?get (arrival S ids) = Inl e"
    then obtain i where "i \<in> set ids" "fetch i = None" by (auto simp: arr dest!: mapR_eq_Inl)
    then show False using assms(3) by blast
  qed
  then obtain events where events: "mapR ?get (arrival S ids) = Inr events"
    and err: "foldR (check_event R rv S fetch (fetch_auth_events S fetch events)) events st = Inl e"
    using assms(1) by (auto simp: iterative_auth_check_def bindR_eq_Inl split: if_splits)
  from foldR_eq_InlD [OF err] obtain ev t where
    ev: "ev \<in> set events" "check_event R rv S fetch (fetch_auth_events S fetch events) ev t = Inl e"
    by blast
  from events have "list_all2 (\<lambda>i ev. fetch i = Some ev) (arrival S ids) events" by (simp add: mapR_eq_Inr)
  from list_all2_memD [OF this ev(1)] show ?thesis using ev(2) arr by blast
qed

lemma resolve_conflicted_error:
  assumes "resolve_conflicted fuel R rv S fetch F start = Inl e" and "fair_sched S"
    and "complete_store R S fetch sets acs" and "card (dom fetch) \<le> fuel" and "set F \<subseteq> dom fetch"
    and "\<And>k v. map_of start k = Some v \<Longrightarrow> v \<in> dom fetch"
  shows "\<exists>i \<in> set F. \<exists>ev aes t. fetch i = Some ev \<and> check_event R rv S fetch aes ev t = Inl e"
proof -
  have store: "finite (dom fetch)" "acyclic_auth fetch" "fetch_by_id fetch"
    "\<forall>n \<in> dom fetch. set (auth_ids fetch n) \<subseteq> dom fetch"
    "\<forall>n \<in> dom fetch. \<exists>l. get_power_level_for_sender R S fetch n = Inr l"
    using assms(3) by (simp_all add: complete_store_def)
  let ?con = "filter (is_power_event_id R fetch) (ids_order S F)"
  have ids: "set (ids_order S F) = set F" using assms(2) by (simp add: fair_sched_def iteration_orderD(1))
  then have "set ?con \<subseteq> set F" by auto
  then have nodes: "power_nodes fetch F ?con \<subseteq> set F" by (rule power_nodes_subset)
  then have "sender_levels_ok R S fetch (power_nodes fetch F ?con)"
    using store(5) assms(5) unfolding sender_levels_ok_def by blast
  from power_sort_kahn [OF assms(2) this]
  obtain ctl where ctl: "reverse_topological_power_sort R S fetch ?con F = Inr ctl" by blast
  have ctlF: "set ctl \<subseteq> set F" using power_sort_nodes [OF assms(2) ctl] nodes by blast
  show ?thesis
  proof (cases "iterative_auth_check R rv S fetch ctl start")
    case (Inl e')
    then have "e' = e" using assms(1) ctl by (simp add: resolve_conflicted_def)
    then show ?thesis
      using iterative_auth_check_error [OF Inl assms(2) subset_trans [OF ctlF assms(5)]] ctlF by blast
  next
    case (Inr rc)
    have "p \<in> dom fetch" if "map_of rc k = Some p" for k p
      by (rule resolved_power_event [OF Inr assms(2) store(3) assms(6) that])
    then have "\<exists>ml. mainline_of fetch (map_of rc (RoomPowerLevels, '''')) ml"
      by (intro mainline_exists [OF store(1,2,4)])
    then obtain ml where ml: "mainline_of fetch (map_of rc (RoomPowerLevels, '''')) ml" ..
    let ?left = "filter (\<lambda>i. i \<notin> set ctl) (ids_order S F)"
    obtain left where left: "mainline_sort fuel S fetch ?left (map_of rc (RoomPowerLevels, '''')) = Inr left"
      "set left \<subseteq> set ?left"
      using mainline_sort_spec [OF assms(2) store(2,1) assms(4) ml, of ?left] by blast
    have leftF: "set left \<subseteq> set F" using left(2) ids by auto
    have "iterative_auth_check R rv S fetch left rc = Inl e"
      using assms(1) ctl Inr left(1) by (simp add: resolve_conflicted_def)
    from iterative_auth_check_error [OF this assms(2) subset_trans [OF leftF assms(5)]]
    show ?thesis using leftF by blast
  qed
qed

text \<open>C3. Over a complete event store resolution always comes to an end: the searches and sorts
  never fail, and the only errors are those of the authorization check of an event in the store.\<close>

theorem resolve_returns:
  assumes "fair_sched S" and "\<forall>m \<in> set sets. distinct (map fst m)" and "length sets \<le> usize_max"
    and "complete_store R S fetch sets acs" and "enough_fuel fetch sets fuel"
  shows "(\<exists>st. resolve fuel R rv S sets acs fetch ex = Inr st)
    \<or> (\<exists>e i ev aes t. resolve fuel R rv S sets acs fetch ex = Inl e
         \<and> fetch i = Some ev \<and> check_event R rv S fetch aes ev t = Inl e)"
proof -
  obtain u c where sep: "separate S sets = (u, c)" by (cases "separate S sets")
  show ?thesis
  proof (cases "c = []")
    case True
    then show ?thesis using sep by (simp add: resolve_def)
  next
    case False
    obtain csg start where init: "initial_state fuel rv S fetch u c = Inr (csg, start)"
        and csg: "set csg = subgraph_ids rv fetch sets"
        and start: "map_of start = (if state_res rv = StateRes_V2 True then Map.empty else map_of u)"
      by (rule initial_state_ok [OF assms(1-3) sep assms(4,5), where rv = rv])
    let ?F = "full_conflicted_set S ex acs c csg"
    show ?thesis
    proof (cases "resolve_conflicted fuel R rv S fetch ?F start")
      case (Inl e)
      have "\<exists>i \<in> set ?F. \<exists>ev aes t. fetch i = Some ev \<and> check_event R rv S fetch aes ev t = Inl e"
      proof (rule resolve_conflicted_error [OF Inl assms(1,4)])
        show "card (dom fetch) \<le> fuel" using assms(5) by (simp add: enough_fuel_def)
        show "set ?F \<subseteq> dom fetch" by (rule full_conflicted_ids(2) [OF assms(1-3) sep assms(4) csg assms(1)])
      qed (rule start_in_store [OF assms(1-3) sep assms(4) start])
      moreover have "resolve fuel R rv S sets acs fetch ex = Inl e"
        unfolding resolve_by_conflicted [OF sep False] init by (simp add: Inl)
      ultimately show ?thesis by blast
    next
      case (Inr rs)
      then show ?thesis unfolding resolve_by_conflicted [OF sep False] init by simp
    qed
  qed
qed

subsection \<open>A fork resolved\<close>

definition fork_result :: "string \<Rightarrow> state_map" where
  "fork_result pl = [((RoomMember, carol), ''$carol''), ((RoomMember, bob), ''$bob''),
     ((RoomJoinRules, ''''), ''$rules''), ((RoomMember, alice), ''$alice''),
     ((RoomCreate, ''''), ''$create''), ((RoomPowerLevels, ''''), pl), (topic_key, ''$topic2'')]"

lemma fork_resolved:
  "resolve 50 sample_ruma v10_rules sample_sched [fork_state1, fork_state2] fork_chains fork_fetch (\<lambda>_. True)
   = Inr (fork_result ''$power2'')"
  by code_simp

lemma fork_states_distinct: "\<forall>m \<in> set [fork_state1, fork_state2]. distinct (map fst m)"
  by code_simp

lemma fork_states_few: "length [fork_state1, fork_state2] \<le> usize_max"
  by simp

theorem resolve_keeps_unconflicted_witness:
  "map_of (fork_result ''$power2'') (RoomMember, bob) = Some ''$bob''"
proof (rule resolve_keeps_unconflicted [OF fork_resolved fair_sample_sched fork_states_distinct fork_states_few])
  show "in_all [fork_state1, fork_state2] (RoomMember, bob) ''$bob''"
    by (simp add: in_all_def fork_state1_def fork_state2_def)
qed

theorem resolve_entries_authorized_witness:
  "\<exists>m. map_of (fork_result ''$power2'') (RoomPowerLevels, '''') = Some ''$power2''
    \<and> authorized_by sample_ruma v10_rules fork_fetch m power2_pdu"
proof -
  let ?k = "(RoomPowerLevels, '''')" and ?F = "participants 50 v10_rules sample_sched [fork_state1, fork_state2] fork_chains fork_fetch (\<lambda>_. True)"
  have power: "map_of (fork_result ''$power2'') ?k = Some ''$power2''" by (simp add: fork_result_def)
  obtain agreed rs where agreed: "\<forall>k v. agreed k = Some v \<longleftrightarrow> in_all [fork_state1, fork_state2] k v"
    and st: "map_of (fork_result ''$power2'') = rs ++ agreed"
    and from_: "rs = Map.empty \<or> authorized_from sample_ruma v10_rules fork_fetch ?F
      (if state_res v10_rules = StateRes_V2 True then Map.empty else agreed) rs"
    using resolve_entries_authorized [OF fork_resolved fair_sample_sched fork_fetch_by_id fork_states_distinct fork_states_few]
    by blast
  have none: "agreed ?k = None"
  proof (rule ccontr)
    assume "agreed ?k \<noteq> None"
    then obtain v where "in_all [fork_state1, fork_state2] ?k v" using agreed by blast
    then show False by (auto simp: in_all_def fork_state1_def fork_state2_def)
  qed
  then have rs: "rs ?k = Some ''$power2''" using st power by (simp add: map_add_def fun_eq_iff split: option.splits)
  have start: "(if state_res v10_rules = StateRes_V2 True then Map.empty else agreed) ?k = None" using none by simp
  have "\<exists>m ev. fork_fetch v = Some ev \<and> authorized_by sample_ruma v10_rules fork_fetch m ev"
    if "authorized_from sample_ruma v10_rules fork_fetch F s0 m'" "m' k = Some v" "s0 k = None" for F s0 m' k v
    using that by (induction rule: authorized_from.induct) (auto split: if_splits)
  then obtain m ev where "fork_fetch ''$power2'' = Some ev" "authorized_by sample_ruma v10_rules fork_fetch m ev"
    using from_ rs start by (metis option.distinct(1))
  moreover have "fork_fetch ''$power2'' = Some power2_pdu" by code_simp
  ultimately show ?thesis using power by auto
qed

theorem resolve_agreeing_states_witness:
  "\<exists>st. resolve 0 sample_ruma v10_rules sample_sched [fork_state1, rev fork_state1] [] (\<lambda>_. None) (\<lambda>_. False)
      = Inr st \<and> map_of st = map_of fork_state1"
proof (rule resolve_agreeing_states)
  show "\<forall>m \<in> set [fork_state1, rev fork_state1]. distinct (map fst m)" by code_simp
  show "length [fork_state1, rev fork_state1] \<le> usize_max" by simp
  have "map_of (rev fork_state1) = map_of fork_state1"
    by (rule iffD2 [OF map_of_inject_set]) (code_simp, code_simp, simp)
  then show "\<forall>m \<in> set [fork_state1, rev fork_state1]. map_of m = map_of fork_state1" by simp
qed simp_all

lemma fork_dom: "dom fork_fetch = set (map ev_id fork_events)"
  by (simp add: fork_fetch_def store_def dom_map_of_conv_image_fst image_image)

lemma fork_store: "complete_store sample_ruma sample_sched fork_fetch [fork_state1, fork_state2] fork_chains"
proof -
  have "list_all (\<lambda>n. list_all (\<lambda>a. a \<in> set (map ev_id fork_events)) (auth_ids fork_fetch n)) (map ev_id fork_events)"
    by code_simp
  moreover have "list_all (\<lambda>n. case get_power_level_for_sender sample_ruma sample_sched fork_fetch n of
      Inr _ \<Rightarrow> True | Inl _ \<Rightarrow> False) (map ev_id fork_events)"
    by code_simp
  moreover have "list_all (\<lambda>m. list_all (\<lambda>e. snd e \<in> set (map ev_id fork_events)) m) [fork_state1, fork_state2]"
    by code_simp
  moreover have "list_all (\<lambda>m. list_all (\<lambda>e. e \<in> set (map ev_id fork_events)) m) fork_chains" by code_simp
  moreover have "\<exists>l. r = Inr l" if "case r of Inr _ \<Rightarrow> True | Inl _ \<Rightarrow> False" for r :: "int result" using that by (cases r) simp_all
  ultimately show ?thesis
    unfolding complete_store_def fork_dom list_all_iff image_subset_iff
    using fork_fetch_size(1) fork_fetch_acyclic fork_fetch_by_id unfolding fork_dom by blast
qed

lemma fork_fuel: "enough_fuel fork_fetch [fork_state1, fork_state2] 50"
proof -
  have "sum_list (map (\<lambda>n. length (auth_ids fork_fetch n)) (map ev_id fork_events)) < 36" by code_simp
  moreover have "distinct (map ev_id fork_events)" by code_simp
  then have "(\<Sum>x \<in> set (map ev_id fork_events). length (auth_ids fork_fetch x))
      = sum_list (map (\<lambda>n. length (auth_ids fork_fetch n)) (map ev_id fork_events))"
    by (rule sum_list_distinct_conv_sum_set [symmetric])
  moreover have "length (concat [fork_state1, fork_state2]) = 14" by code_simp
  ultimately show ?thesis unfolding enough_fuel_def using fork_fetch_size(2) unfolding fork_dom by simp
qed

theorem resolve_deterministic_witness:
  "same_map (Inr (fork_result ''$power2''))
     (resolve 50 sample_ruma v10_rules (sample_sched\<lparr>ids_order := id, keys_order := id\<rparr>)
        [fork_state1, fork_state2] fork_chains fork_fetch (\<lambda>_. True))"
  unfolding fork_resolved [symmetric]
  by (rule resolve_deterministic [OF fair_sample_sched _ _ _ fork_states_distinct fork_states_few fork_store fork_fuel])
    (simp_all add: fair_sched_def sample_sched_def iteration_order_def)

theorem resolve_returns_witness:
  "(\<exists>st. resolve 50 sample_ruma v10_subgraph_rules sample_sched [fork_state1, fork_state2] fork_chains fork_fetch (\<lambda>_. True) = Inr st)
    \<or> (\<exists>e i ev aes t. resolve 50 sample_ruma v10_subgraph_rules sample_sched [fork_state1, fork_state2] fork_chains fork_fetch (\<lambda>_. True) = Inl e
         \<and> fork_fetch i = Some ev \<and> check_event sample_ruma v10_subgraph_rules sample_sched fork_fetch aes ev t = Inl e)"
  by (rule resolve_returns [OF fair_sample_sched fork_states_distinct fork_states_few fork_store fork_fuel])

text \<open>C40. The events of a sorted list are checked in the order their fetches complete, not in the order of the sort: of
  two events of the same type and state key, each authorized both before and after the other, the one whose fetch
  completes last becomes the entry, whichever the list has last.\<close>

theorem last_fetched_wins:
  assumes "fetch_by_id fetch" and "fetch i = Some a" and "fetch j = Some b"
    and "ev_type b = ev_type a" and "ev_state_key a = Some sk" and "ev_state_key b = Some sk"
    and "fair_sched S" and "arrival S [i, j] = [i, j]" and "iterative_auth_check R rv S fetch [i, j] st = Inr r"
    and "fair_sched S'" and "arrival S' [i, j] = [j, i]" and "iterative_auth_check R rv S' fetch [i, j] st = Inr r'"
    and "authorized_by R rv fetch (map_of st) a" and "authorized_by R rv fetch ((map_of st)((ev_type a, sk) \<mapsto> j)) a"
    and "authorized_by R rv fetch (map_of st) b" and "authorized_by R rv fetch ((map_of st)((ev_type a, sk) \<mapsto> i)) b"
  shows "map_of r (ev_type a, sk) = Some j \<and> map_of r' (ev_type a, sk) = Some i"
proof -
  have id: "ev_id a = i" "ev_id b = j" using assms(1-3) by (simp_all add: fetch_by_id_def)
  have accepted: "t = AList.update (ev_type ev, sk) (ev_id ev) s"
    if "check_event R rv T fetch (fetch_auth_events T fetch events) ev s = Inr t" "fair_sched T" "ev \<in> set events"
      "ev_state_key ev = Some sk" "authorized_by R rv fetch (map_of s) ev" for T events ev s t
  proof -
    note aes = map_of_fetch_auth_events [OF that(2) assms(1), of events]
    have "\<exists>sk. ev_state_key ev = Some sk
        \<and> t = (if authorized_by R rv fetch (map_of s) ev then AList.update (ev_type ev, sk) (ev_id ev) s else s)"
      by (rule check_event_exact [OF that(1)]) (use aes that(3) in auto)
    then show ?thesis using that(4,5) by simp
  qed
  obtain t where t: "check_event R rv S fetch (fetch_auth_events S fetch [a, b]) a st = Inr t"
      "check_event R rv S fetch (fetch_auth_events S fetch [a, b]) b t = Inr r"
    using assms(2,3,8,9) by (auto simp: iterative_auth_check_def bindR_eq_Inr ok_or_def split: if_splits)
  have "t = AList.update (ev_type a, sk) i st"
    using accepted [OF t(1) assms(7) _ assms(5,13)] by (simp add: id)
  then have "r = AList.update (ev_type b, sk) (ev_id b) t"
    by (intro accepted [OF t(2) assms(7)]) (simp_all add: assms(6,16) update_conv')
  moreover obtain t' where t': "check_event R rv S' fetch (fetch_auth_events S' fetch [b, a]) b st = Inr t'"
      "check_event R rv S' fetch (fetch_auth_events S' fetch [b, a]) a t' = Inr r'"
    using assms(2,3,11,12) by (auto simp: iterative_auth_check_def bindR_eq_Inr ok_or_def split: if_splits)
  have "t' = AList.update (ev_type b, sk) j st"
    using accepted [OF t'(1) assms(10) _ assms(6,15)] by (simp add: id)
  then have "r' = AList.update (ev_type a, sk) (ev_id a) t'"
    by (intro accepted [OF t'(2) assms(10)]) (simp_all add: assms(4,5,14) update_conv')
  ultimately show ?thesis by (simp add: update_conv' id assms(4))
qed

theorem last_fetched_wins_witness:
  "\<exists>r r'. iterative_auth_check sample_ruma v10_rules sample_sched fork_fetch [''$power'', ''$power2''] fork_state1 = Inr r
    \<and> iterative_auth_check sample_ruma v10_rules (sample_sched\<lparr>arrival := rev\<rparr>) fork_fetch [''$power'', ''$power2''] fork_state1 = Inr r'
    \<and> map_of r (RoomPowerLevels, '''') = Some ''$power2'' \<and> map_of r' (RoomPowerLevels, '''') = Some ''$power''"
proof -
  have events: "fork_fetch ''$power'' = Some power_pdu" "fork_fetch ''$power2'' = Some power2_pdu" by code_simp+
  have keys: "ev_type power2_pdu = ev_type power_pdu" "ev_state_key power_pdu = Some ''''" "ev_state_key power2_pdu = Some ''''"
    "ev_type power_pdu = RoomPowerLevels" by code_simp+
  obtain r r' where
    r: "iterative_auth_check sample_ruma v10_rules sample_sched fork_fetch [''$power'', ''$power2''] fork_state1 = Inr r" and
    r': "iterative_auth_check sample_ruma v10_rules (sample_sched\<lparr>arrival := rev\<rparr>) fork_fetch [''$power'', ''$power2''] fork_state1 = Inr r'"
  proof -
    have "case iterative_auth_check sample_ruma v10_rules sample_sched fork_fetch [''$power'', ''$power2''] fork_state1 of
        Inr _ \<Rightarrow> True | Inl _ \<Rightarrow> False"
      "case iterative_auth_check sample_ruma v10_rules (sample_sched\<lparr>arrival := rev\<rparr>) fork_fetch [''$power'', ''$power2''] fork_state1 of
        Inr _ \<Rightarrow> True | Inl _ \<Rightarrow> False" by code_simp+
    then show thesis using that by (simp split: sum.splits)
  qed
  have "authorized_by sample_ruma v10_rules fork_fetch (map_of fork_state1) power_pdu"
    "authorized_by sample_ruma v10_rules fork_fetch ((map_of fork_state1)((RoomPowerLevels, '''') \<mapsto> ''$power2'')) power_pdu"
    "authorized_by sample_ruma v10_rules fork_fetch (map_of fork_state1) power2_pdu"
    "authorized_by sample_ruma v10_rules fork_fetch ((map_of fork_state1)((RoomPowerLevels, '''') \<mapsto> ''$power'')) power2_pdu"
    by code_simp+
  from last_fetched_wins [OF fork_fetch_by_id events keys(1,2,3) fair_sample_sched _ r _ _ r' this [folded keys(4)]]
  show ?thesis using r r' keys(4) by (simp add: sample_sched_def fair_sched_def iteration_order_def)
qed

end
