(* ===== verification/DbRecords.thy ===== *)
theory DbRecords
  imports Prelude
begin

text \<open>
  The record format of the database: the serde serializer and deserializer of
  \<open>src/src/database/ser.rs\<close> and \<open>src/src/database/de.rs\<close>. Tuples are written as
  records separated by a byte \<open>0xFF\<close> that no UTF-8 text contains, integers as big-endian
  bytes, sequences without separators.

  The model is the release build: \<open>depth\<close>, \<open>fin\<close> and the checks inside \<open>debug_assert!\<close> are left
  out. Values are those of serde's data model. What the code panics on, \<open>unhandled!\<close> (that is
  \<open>unimplemented!\<close>) and a slice out of range, is the outcome \<open>DbPanic\<close>, which no Rust caller sees as
  an error. A JSON or CBOR newtype carries the bytes that \<open>serde_json\<close> or \<open>minicbor\<close> writes for its contents.
\<close>

subsection \<open>Values and errors\<close>

type_synonym bytes = "u8 list"

text \<open>
  The outcomes other than a value: the errors the functions return, a panic, and a loop that did
  not come to its end within the fuel.
\<close>

datatype db_panic =
    Unimplemented string
  | SliceOutOfRange

datatype db_error =
    SerdeSer string
  | SerdeDe string
  | Utf8
  | InvalidLength
  | WriteZero
  | DbPanic db_panic
  | LoopOutOfFuel

datatype ser_value =
    SerU64 u64 | SerI64 u64 | SerU32 "32 word" | SerI32 "32 word" | SerU8 u8 | SerBool bool
  | SerChar nat | SerStr bytes | SerBytes bytes
  | SerNone | SerSome ser_value
  | SerSeq "ser_value list" | SerTuple "ser_value list"
  | SerUnitStruct string
  | SerNewtypeStruct string bytes
  | SerOther string

definition SEP :: u8 where
  "SEP = 0xFF"

text \<open>The 4-byte integers.\<close>

definition to_be_bytes32 :: "32 word \<Rightarrow> bytes" where
  "to_be_bytes32 w = map word_of_nat (be_digits 4 (unat w))"

text \<open>\<open>char::encode_utf8\<close>, of a code point.\<close>

definition encode_utf8 :: "nat \<Rightarrow> bytes" where
  "encode_utf8 c = map word_of_nat
     (if c < 0x80 then [c]
      else if c < 0x800 then [0xC0 + c div 0x40, 0x80 + c mod 0x40]
      else if c < 0x10000 then [0xE0 + c div 0x1000, 0x80 + c div 0x40 mod 0x40, 0x80 + c mod 0x40]
      else [0xF0 + c div 0x40000, 0x80 + c div 0x1000 mod 0x40, 0x80 + c div 0x40 mod 0x40,
            0x80 + c mod 0x40])"

subsection \<open>The serializer\<close>

text \<open>
  The writer is a growing vector (\<open>out_cap = None\<close>) or an \<open>ArrayVec\<close> of a fixed capacity, whose
  \<open>write_all\<close> fails once it is full.
\<close>

record serializer =
  out :: bytes
  out_cap :: "nat option"
  sep :: bool

definition write_out :: "bytes \<Rightarrow> serializer \<Rightarrow> db_error + serializer" where
  "write_out b s =
     (case out_cap s of
        None \<Rightarrow> Inr (s\<lparr>out := out s @ b\<rparr>)
      | Some cap \<Rightarrow>
          (if length (out s) + length b \<le> cap then Inr (s\<lparr>out := out s @ b\<rparr>) else Inl WriteZero))"

definition separator :: "serializer \<Rightarrow> db_error + serializer" where
  "separator s = write_out [SEP] s"

definition record_start :: "serializer \<Rightarrow> db_error + serializer" where
  "record_start s = (if sep s then separator (s\<lparr>sep := True\<rparr>) else Inr (s\<lparr>sep := True\<rparr>))"

definition serialize_newtype_struct :: "string \<Rightarrow> bytes \<Rightarrow> serializer \<Rightarrow> db_error + serializer" where
  "serialize_newtype_struct name text s =
     (if name = ''Json'' then write_out text s
      else if name = ''Cbor'' then write_out text s
      else Inl (DbPanic (Unimplemented ''Unrecognized serialization Newtype'')))"

definition serialize_unit_struct :: "string \<Rightarrow> serializer \<Rightarrow> db_error + serializer" where
  "serialize_unit_struct name s =
     (if name = ''Interfix'' then Inr s
      else if name = ''Separator'' then separator s
      else Inl (DbPanic (Unimplemented ''Unrecognized serialization directive'')))"

fun serialize_value :: "ser_value \<Rightarrow> serializer \<Rightarrow> db_error + serializer"
and serialize_seq :: "ser_value list \<Rightarrow> serializer \<Rightarrow> db_error + serializer"
and serialize_tuple :: "ser_value list \<Rightarrow> serializer \<Rightarrow> db_error + serializer" where
  "serialize_value (SerU64 v) s = write_out (to_be_bytes v) s"
| "serialize_value (SerI64 v) s = write_out (to_be_bytes v) s"
| "serialize_value (SerU32 v) s = write_out (to_be_bytes32 v) s"
| "serialize_value (SerI32 v) s = write_out (to_be_bytes32 v) s"
| "serialize_value (SerU8 v) s = write_out [v] s"
| "serialize_value (SerBool v) s = (if v then write_out [0x01] s else write_out [0x00] s)"
| "serialize_value (SerChar v) s = write_out (encode_utf8 v) s"
| "serialize_value (SerStr v) s = write_out v s"
| "serialize_value (SerBytes v) s = write_out v s"
| "serialize_value SerNone s = Inr s"
| "serialize_value (SerSome v) s = serialize_value v s"
| "serialize_value (SerSeq vs) s = serialize_seq vs s"
| "serialize_value (SerTuple vs) s = serialize_tuple vs s"
| "serialize_value (SerUnitStruct name) s = serialize_unit_struct name s"
| "serialize_value (SerNewtypeStruct name text) s = serialize_newtype_struct name text s"
| "serialize_value (SerOther name) s = Inl (DbPanic (Unimplemented name))"
| "serialize_seq [] s = Inr s"
| "serialize_seq (v # vs) s = bindR (serialize_value v s) (serialize_seq vs)"
| "serialize_tuple [] s = Inr s"
| "serialize_tuple (v # vs) s =
     bindR (record_start s) (\<lambda>s. bindR (serialize_value v s) (serialize_tuple vs))"

text \<open>Errors of the writer are wrapped; \<open>unhandled!\<close> is a panic and is not.\<close>

definition serialize :: "nat option \<Rightarrow> ser_value \<Rightarrow> db_error + bytes" where
  "serialize cap val =
     (case serialize_value val \<lparr>out = [], out_cap = cap, sep = False\<rparr> of
        Inr s \<Rightarrow> Inr (out s)
      | Inl (DbPanic p) \<Rightarrow> Inl (DbPanic p)
      | Inl _ \<Rightarrow> Inl (SerdeSer ''failed to write whole buffer''))"

definition serialize_to_vec :: "ser_value \<Rightarrow> db_error + bytes" where
  "serialize_to_vec val = serialize None val"

subsection \<open>UTF-8\<close>

text \<open>\<open>std::str::from_utf8\<close>: the well-formed byte sequences of the Unicode standard.\<close>

definition utf8_tail :: "u8 \<Rightarrow> bool" where
  "utf8_tail b \<longleftrightarrow> 0x80 \<le> b \<and> b \<le> 0xBF"

fun utf8_ok :: "bytes \<Rightarrow> bool" where
  "utf8_ok [] = True"
| "utf8_ok (b # bs) =
     (if b \<le> 0x7F then utf8_ok bs
      else if 0xC2 \<le> b \<and> b \<le> 0xDF then
        (case bs of c # bs \<Rightarrow> utf8_tail c \<and> utf8_ok bs | _ \<Rightarrow> False)
      else if 0xE0 \<le> b \<and> b \<le> 0xEF then
        (case bs of
           c # d # bs \<Rightarrow>
             (if b = 0xE0 then 0xA0 \<le> c \<and> c \<le> 0xBF
              else if b = 0xED then 0x80 \<le> c \<and> c \<le> 0x9F else utf8_tail c)
             \<and> utf8_tail d \<and> utf8_ok bs
         | _ \<Rightarrow> False)
      else if 0xF0 \<le> b \<and> b \<le> 0xF4 then
        (case bs of
           c # d # e # bs \<Rightarrow>
             (if b = 0xF0 then 0x90 \<le> c \<and> c \<le> 0xBF
              else if b = 0xF4 then 0x80 \<le> c \<and> c \<le> 0x8F else utf8_tail c)
             \<and> utf8_tail d \<and> utf8_tail e \<and> utf8_ok bs
         | _ \<Rightarrow> False)
      else False)"

definition str_from_bytes :: "bytes \<Rightarrow> db_error + bytes" where
  "str_from_bytes b = (if utf8_ok b then Inr b else Inl Utf8)"

subsection \<open>The deserializer\<close>

text \<open>
  What a type asks of the deserializer: the method it calls, and how many elements its visitor takes
  from a sequence. \<open>DeTuple\<close> is a tuple or tuple struct, \<open>DeSeq\<close> a \<open>Vec\<close>, and \<open>DeUnitStruct\<close>
  names one of the directives \<open>Ignore\<close> and \<open>IgnoreAll\<close>.
\<close>

datatype de_type =
    DeU64 | DeI64 | DeBool | DeStr | DeString | DeBytes
  | DeOption de_type
  | DeSeq de_type | DeTuple "de_type list"
  | DeUnitStruct string
  | DeOther string

datatype de_value =
    ValU64 u64 | ValI64 u64 | ValBool bool | ValStr bytes | ValBytes bytes
  | ValNone | ValSome de_value
  | ValSeq "de_value list" | ValTuple "de_value list"
  | ValUnit

record deserializer =
  buf :: bytes
  pos :: nat
  rec :: nat
  seq :: bool

definition inc_pos :: "nat \<Rightarrow> deserializer \<Rightarrow> deserializer" where
  "inc_pos n d = d\<lparr>pos := saturating_add_usize (pos d) n\<rparr>"

definition inc_rec :: "nat \<Rightarrow> deserializer \<Rightarrow> deserializer" where
  "inc_rec n d = d\<lparr>rec := saturating_add_usize (rec d) n\<rparr>"

definition sequence_start :: "deserializer \<Rightarrow> deserializer" where
  "sequence_start d = d\<lparr>seq := True\<rparr>"

text \<open>\<open>&self.buf[self.pos..]\<close>, which panics past the end.\<close>

definition buf_from_pos :: "deserializer \<Rightarrow> db_error + bytes" where
  "buf_from_pos d = (if pos d \<le> length (buf d) then Inr (drop (pos d) (buf d)) else Inl (DbPanic SliceOutOfRange))"

definition record_next :: "deserializer \<Rightarrow> db_error + bytes \<times> deserializer" where
  "record_next d =
     bindR (buf_from_pos d) (\<lambda>rest.
       (let record = takeWhile (\<lambda>b. b \<noteq> SEP) rest
        in Inr (record, inc_pos (length record) d)))"

definition record_trail :: "deserializer \<Rightarrow> db_error + bytes \<times> deserializer" where
  "record_trail d = bindR (buf_from_pos d) (\<lambda>record. Inr (record, inc_pos (length record) d))"

definition record_ignore_all :: "deserializer \<Rightarrow> db_error + deserializer" where
  "record_ignore_all d = bindR (record_trail d) (\<lambda>(_, d). Inr d)"

definition record_ignore :: "deserializer \<Rightarrow> db_error + deserializer" where
  "record_ignore d =
     (if seq d then bindR (record_next d) (\<lambda>(_, d). Inr d) else record_ignore_all d)"

definition de_record_start :: "deserializer \<Rightarrow> deserializer" where
  "de_record_start d =
     (let started = (pos d \<noteq> 0 \<or> 0 < rec d)
      in inc_rec 1 (inc_pos (if started then 1 else 0) d))"

text \<open>Eight bytes at the current position; the slice ends at the end of the buffer.\<close>

definition take_8 :: "string \<Rightarrow> deserializer \<Rightarrow> db_error + bytes \<times> deserializer" where
  "take_8 err d =
     (let end_pos = min (saturating_add_usize (pos d) 8) (length (buf d))
      in if end_pos < pos d then Inl (DbPanic SliceOutOfRange)
         else (let bs = take (end_pos - pos d) (drop (pos d) (buf d))
               in if length bs = 8 then Inr (bs, inc_pos 8 d) else Inl (SerdeDe err)))"

definition deserialize_bool :: "deserializer \<Rightarrow> db_error + de_value \<times> deserializer" where
  "deserialize_bool d =
     (if pos d < length (buf d)
      then Inr (ValBool (buf d ! pos d \<noteq> 0), inc_pos 1 d)
      else Inl (SerdeDe ''bool buffer underflow''))"

definition deserialize_unit_struct :: "string \<Rightarrow> deserializer \<Rightarrow> db_error + de_value \<times> deserializer" where
  "deserialize_unit_struct name d =
     (if name = ''Ignore'' then bindR (record_ignore d) (\<lambda>d. Inr (ValUnit, d))
      else if name = ''IgnoreAll'' then bindR (record_ignore_all d) (\<lambda>d. Inr (ValUnit, d))
      else Inl (DbPanic (Unimplemented ''Unrecognized deserialization Directive'')))"

definition option_is_none :: "deserializer \<Rightarrow> bool" where
  "option_is_none d \<longleftrightarrow> length (buf d) \<le> pos d \<or> buf d ! pos d = SEP"

text \<open>
  The visitors: that of a tuple takes one element per component and fails when the elements run
  out, that of a \<open>Vec\<close> takes elements until there are no more. Its loop is bounded by fuel.
\<close>

fun deserialize :: "de_type \<Rightarrow> deserializer \<Rightarrow> db_error + de_value \<times> deserializer"
and visit_tuple :: "de_type list \<Rightarrow> deserializer \<Rightarrow> db_error + de_value list \<times> deserializer"
and visit_vec :: "nat \<Rightarrow> de_type \<Rightarrow> deserializer \<Rightarrow> db_error + de_value list \<times> deserializer" where
  "deserialize DeU64 d = bindR (take_8 ''u64 buffer underflow'' d) (\<lambda>(bs, d). Inr (ValU64 (from_be_bytes bs), d))"
| "deserialize DeI64 d = bindR (take_8 ''i64 buffer underflow'' d) (\<lambda>(bs, d). Inr (ValI64 (from_be_bytes bs), d))"
| "deserialize DeBool d = deserialize_bool d"
| "deserialize DeStr d =
     bindR (record_next d) (\<lambda>(input, d). bindR (str_from_bytes input) (\<lambda>s. Inr (ValStr s, d)))"
| "deserialize DeString d =
     bindR (record_next d) (\<lambda>(input, d). bindR (str_from_bytes input) (\<lambda>s. Inr (ValStr s, d)))"
| "deserialize DeBytes d = bindR (record_trail d) (\<lambda>(input, d). Inr (ValBytes input, d))"
| "deserialize (DeOption t) d =
     (if option_is_none d then Inr (ValNone, d)
      else bindR (deserialize t d) (\<lambda>(v, d). Inr (ValSome v, d)))"
| "deserialize (DeSeq t) d =
     bindR (visit_vec (length (buf d) + 2) t (sequence_start d)) (\<lambda>(vs, d). Inr (ValSeq vs, d))"
| "deserialize (DeTuple ts) d =
     bindR (visit_tuple ts (sequence_start d)) (\<lambda>(vs, d). Inr (ValTuple vs, d))"
| "deserialize (DeUnitStruct name) d = deserialize_unit_struct name d"
| "deserialize (DeOther name) d = Inl (DbPanic (Unimplemented name))"
| "visit_tuple [] d = Inr ([], d)"
| "visit_tuple (t # ts) d =
     (if length (buf d) \<le> pos d then Inl InvalidLength
      else bindR (deserialize t (de_record_start d)) (\<lambda>(v, d).
           bindR (visit_tuple ts d) (\<lambda>(vs, d). Inr (v # vs, d))))"
| "visit_vec 0 t d = Inl LoopOutOfFuel"
| "visit_vec (Suc n) t d =
     (if length (buf d) \<le> pos d then Inr ([], d)
      else bindR (deserialize t (de_record_start d)) (\<lambda>(v, d).
           bindR (visit_vec n t d) (\<lambda>(vs, d). Inr (v # vs, d))))"

definition from_slice :: "de_type \<Rightarrow> bytes \<Rightarrow> db_error + de_value" where
  "from_slice t b =
     bindR (deserialize t \<lparr>buf = b, pos = 0, rec = 0, seq = False\<rparr>) (\<lambda>(v, _). Inr v)"

subsection \<open>Reading never leaves the buffer\<close>

definition de_ok :: "deserializer \<Rightarrow> bool" where
  "de_ok d \<longleftrightarrow> pos d \<le> length (buf d) \<and> length (buf d) < usize_max"

definition advanced :: "deserializer \<Rightarrow> db_error + 'v \<times> deserializer \<Rightarrow> bool" where
  "advanced d r = (case r of
       Inl e \<Rightarrow> e \<noteq> DbPanic SliceOutOfRange \<and> e \<noteq> LoopOutOfFuel
     | Inr (_, d') \<Rightarrow> buf d' = buf d \<and> pos d \<le> pos d' \<and> pos d' \<le> length (buf d)
         \<and> (0 < rec d \<longrightarrow> 0 < rec d'))"

text \<open>What a loop over elements has left: the bytes, and the record that has no separator before it.\<close>

definition de_work :: "deserializer \<Rightarrow> nat" where
  "de_work d = length (buf d) - pos d + (if pos d = 0 \<and> rec d = 0 then 1 else 0)"

lemma saturating_add_small: "a + b < 2 ^ 64 \<Longrightarrow> saturating_add_usize a b = a + b"
  by (simp add: saturating_add_usize_def min_def)

lemma inc_pos_simps [simp]:
  "buf (inc_pos n d) = buf d" "rec (inc_pos n d) = rec d" "seq (inc_pos n d) = seq d"
  "pos (inc_pos n d) = saturating_add_usize (pos d) n"
  by (simp_all add: inc_pos_def)

lemma inc_rec_simps [simp]:
  "buf (inc_rec n d) = buf d" "pos (inc_rec n d) = pos d" "seq (inc_rec n d) = seq d"
  "rec (inc_rec n d) = saturating_add_usize (rec d) n"
  by (simp_all add: inc_rec_def)

lemma sequence_start_simps [simp]:
  "buf (sequence_start d) = buf d" "pos (sequence_start d) = pos d" "rec (sequence_start d) = rec d"
  "seq (sequence_start d)"
  by (simp_all add: sequence_start_def)

lemma sequence_start_ok [simp]: "de_ok (sequence_start d) = de_ok d" "de_work (sequence_start d) = de_work d"
  by (simp_all add: de_ok_def de_work_def)

lemma advanced_bind:
  assumes "advanced d m" and "\<And>v d'. m = Inr (v, d') \<Longrightarrow> de_ok d \<Longrightarrow> de_ok d' \<Longrightarrow> advanced d' (f (v, d'))"
    and "de_ok d"
  shows "advanced d (bindR m f)"
proof (cases m)
  case (Inl e)
  then show ?thesis using assms(1) by (simp add: advanced_def)
next
  case (Inr vd)
  then obtain v d' where m: "m = Inr (v, d')" by (cases vd) auto
  then have d': "buf d' = buf d" "pos d \<le> pos d'" "pos d' \<le> length (buf d)" "0 < rec d \<longrightarrow> 0 < rec d'"
    using assms(1) by (simp_all add: advanced_def)
  then have "de_ok d'" using assms(3) by (simp add: de_ok_def)
  from assms(2) [OF m assms(3) this] show ?thesis using d' m
    by (auto simp: advanced_def split: sum.splits)
qed

lemma advanced_Inr: "de_ok d \<Longrightarrow> advanced d (Inr (v, d))"
  by (simp add: advanced_def de_ok_def)

lemma record_next_advanced: "de_ok d \<Longrightarrow> advanced d (record_next d)"
proof -
  assume ok: "de_ok d"
  let ?rec = "takeWhile (\<lambda>b. b \<noteq> SEP) (drop (pos d) (buf d))"
  have "length ?rec \<le> length (buf d) - pos d"
    using length_takeWhile_le [of "\<lambda>b. b \<noteq> SEP" "drop (pos d) (buf d)"] by simp
  then have "pos d + length ?rec \<le> length (buf d)" using ok unfolding de_ok_def by linarith
  then show ?thesis using ok
    by (simp add: record_next_def buf_from_pos_def advanced_def Let_def saturating_add_small de_ok_def)
qed

lemma record_trail_advanced: "de_ok d \<Longrightarrow> advanced d (record_trail d)"
  by (simp add: record_trail_def buf_from_pos_def advanced_def saturating_add_small de_ok_def)

lemma take_8_advanced: "de_ok d \<Longrightarrow> advanced d (take_8 err d)"
  by (auto simp: take_8_def advanced_def Let_def de_ok_def saturating_add_small min_def
      saturating_add_usize_def split: if_splits)

lemma deserialize_bool_advanced: "de_ok d \<Longrightarrow> advanced d (deserialize_bool d)"
  by (simp add: deserialize_bool_def advanced_def saturating_add_small de_ok_def)

lemma str_from_bytes_advanced: "de_ok d \<Longrightarrow> advanced d (bindR (str_from_bytes b) (\<lambda>s. Inr (f s, d)))"
  by (simp add: str_from_bytes_def advanced_def de_ok_def)

lemma unit_struct_advanced: "de_ok d \<Longrightarrow> advanced d (deserialize_unit_struct name d)"
  using record_next_advanced [of d] record_trail_advanced [of d]
  by (auto simp: deserialize_unit_struct_def record_ignore_def record_ignore_all_def advanced_def
      bindR_def split: sum.splits)

lemma de_record_start_step:
  assumes "de_ok d" and "pos d < length (buf d)"
  shows "buf (de_record_start d) = buf d" "pos d \<le> pos (de_record_start d)"
    "pos (de_record_start d) \<le> length (buf d)" "0 < rec (de_record_start d)"
    "de_ok (de_record_start d)" "de_work (de_record_start d) < de_work d"
  using assms
  by (auto simp: de_record_start_def de_ok_def de_work_def Let_def saturating_add_small
      saturating_add_usize_def min_def)

lemma advanced_record_start:
  assumes "de_ok d" and "pos d < length (buf d)" and "advanced (de_record_start d) r"
  shows "advanced d r"
  using assms(3) de_record_start_step [OF assms(1,2)]
  by (auto simp: advanced_def split: sum.splits)

lemma advanced_sequence_start [simp]: "advanced (sequence_start d) r = advanced d r"
  by (simp add: advanced_def split: sum.split)

lemma advanced_work:
  assumes "advanced (de_record_start d) (Inr (v, d'))" and "de_ok d" and "pos d < length (buf d)"
  shows "de_work d' < de_work d"
  using assms(1) de_record_start_step [OF assms(2,3)] by (auto simp: advanced_def de_work_def)

lemma deserialize_advanced:
  "de_ok d \<Longrightarrow> advanced d (deserialize t d)"
  "de_ok d \<Longrightarrow> advanced d (visit_tuple ts d)"
  "de_ok d \<Longrightarrow> de_work d < n \<Longrightarrow> advanced d (visit_vec n t d)"
proof (induction t d and ts d and n t d rule: deserialize_visit_tuple_visit_vec.induct)
  case (1 d)
  show ?case unfolding deserialize.simps
    by (rule advanced_bind [OF take_8_advanced]) (use 1 advanced_Inr in auto)
next
  case (2 d)
  show ?case unfolding deserialize.simps
    by (rule advanced_bind [OF take_8_advanced]) (use 2 advanced_Inr in auto)
next
  case (3 d)
  then show ?case by (simp add: deserialize_bool_advanced)
next
  case (4 d)
  show ?case unfolding deserialize.simps
    by (rule advanced_bind [OF record_next_advanced]) (use 4 str_from_bytes_advanced in auto)
next
  case (5 d)
  show ?case unfolding deserialize.simps
    by (rule advanced_bind [OF record_next_advanced]) (use 5 str_from_bytes_advanced in auto)
next
  case (6 d)
  show ?case unfolding deserialize.simps
    by (rule advanced_bind [OF record_trail_advanced]) (use 6 advanced_Inr in auto)
next
  case (7 t d)
  show ?case
  proof (cases "option_is_none d")
    case False
    have "advanced d (bindR (deserialize t d) (\<lambda>(v, d). Inr (ValSome v, d)))"
      by (rule advanced_bind [OF "7.IH" [OF False "7.prems"]]) (use 7 advanced_Inr in auto)
    then show ?thesis using False by simp
  qed (use 7 advanced_Inr in simp)
next
  case (8 t d)
  have "de_work d < length (buf d) + 2" by (auto simp: de_work_def)
  then have "advanced (sequence_start d) (visit_vec (length (buf d) + 2) t (sequence_start d))"
    using 8 by simp
  then have "advanced (sequence_start d) (bindR (visit_vec (length (buf d) + 2) t (sequence_start d)) (\<lambda>(vs, d). Inr (ValSeq vs, d)))"
    by (rule advanced_bind) (use 8 advanced_Inr in auto)
  then show ?case by simp
next
  case (9 ts d)
  have "advanced (sequence_start d) (bindR (visit_tuple ts (sequence_start d)) (\<lambda>(vs, d). Inr (ValTuple vs, d)))"
    by (rule advanced_bind [OF "9.IH"]) (use 9 advanced_Inr in auto)
  then show ?case by simp
next
  case (10 name d)
  then show ?case by (simp add: unit_struct_advanced)
next
  case (11 name d)
  then show ?case by (simp add: advanced_def)
next
  case (12 d)
  then show ?case by (simp add: advanced_Inr)
next
  case (13 t ts d)
  show ?case
  proof (cases "length (buf d) \<le> pos d")
    case False
    note ok = de_record_start_step(5) [OF "13.prems"]
    have "advanced (de_record_start d) (bindR (deserialize t (de_record_start d)) (\<lambda>(v, d).
           bindR (visit_tuple ts d) (\<lambda>(vs, d). Inr (v # vs, d))))"
    proof (rule advanced_bind)
      show "advanced (de_record_start d) (deserialize t (de_record_start d))"
        using "13.IH"(1) [OF False] ok False by simp
      fix v d' assume m: "deserialize t (de_record_start d) = Inr (v, d')" and d': "de_ok d'"
      have "advanced d' (visit_tuple ts d')" using "13.IH"(2) [OF False] m d' by simp
      then have "advanced d' (bindR (visit_tuple ts d') (\<lambda>(vs, d). Inr (v # vs, d)))"
        by (rule advanced_bind) (use d' advanced_Inr in auto)
      then show "advanced d' (case (v, d') of (v, d) \<Rightarrow> bindR (visit_tuple ts d) (\<lambda>(vs, d). Inr (v # vs, d)))"
        by simp
    qed (use ok False in simp)
    then show ?thesis using False "13.prems" by (simp add: advanced_record_start)
  qed (simp add: advanced_def)
next
  case (14 t d)
  then show ?case by simp
next
  case (15 n t d)
  show ?case
  proof (cases "length (buf d) \<le> pos d")
    case False
    note ok = de_record_start_step(5) [OF "15.prems"(1)]
    have "advanced (de_record_start d) (bindR (deserialize t (de_record_start d)) (\<lambda>(v, d).
           bindR (visit_vec n t d) (\<lambda>(vs, d). Inr (v # vs, d))))"
    proof (rule advanced_bind)
      show m': "advanced (de_record_start d) (deserialize t (de_record_start d))"
        using "15.IH"(1) [OF False] ok False by simp
      fix v d' assume m: "deserialize t (de_record_start d) = Inr (v, d')" and d': "de_ok d'"
      have "de_work d' < n" using advanced_work [of d v d'] m m' "15.prems" False by simp
      then have "advanced d' (visit_vec n t d')" using "15.IH"(2) [OF False] m d' by simp
      then have "advanced d' (bindR (visit_vec n t d') (\<lambda>(vs, d). Inr (v # vs, d)))"
        by (rule advanced_bind) (use d' advanced_Inr in auto)
      then show "advanced d' (case (v, d') of (v, d) \<Rightarrow> bindR (visit_vec n t d) (\<lambda>(vs, d). Inr (v # vs, d)))"
        by simp
    qed (use ok False in simp)
    then show ?thesis using False "15.prems" by (simp add: advanced_record_start)
  qed (use 15 advanced_Inr in simp)
qed

text \<open>The types the deserializer implements: what serde asks for any other ends in \<open>unhandled!\<close>.\<close>

fun implemented :: "de_type \<Rightarrow> bool" where
  "implemented (DeOption t) = implemented t"
| "implemented (DeSeq t) = implemented t"
| "implemented (DeTuple ts) = list_all implemented ts"
| "implemented (DeUnitStruct name) = (name = ''Ignore'' \<or> name = ''IgnoreAll'')"
| "implemented (DeOther name) = False"
| "implemented _ = True"

lemma parts_implemented:
  "record_next d \<noteq> Inl (DbPanic (Unimplemented m))" "record_trail d \<noteq> Inl (DbPanic (Unimplemented m))"
  "take_8 err d \<noteq> Inl (DbPanic (Unimplemented m))" "deserialize_bool d \<noteq> Inl (DbPanic (Unimplemented m))"
  "str_from_bytes b \<noteq> Inl (DbPanic (Unimplemented m))"
  by (simp_all add: record_next_def record_trail_def buf_from_pos_def take_8_def Let_def bindR_eq_Inl
      deserialize_bool_def str_from_bytes_def)

lemma unit_struct_implemented:
  "implemented (DeUnitStruct name) \<Longrightarrow> deserialize_unit_struct name d \<noteq> Inl (DbPanic (Unimplemented m))"
  by (auto simp: deserialize_unit_struct_def record_ignore_def record_ignore_all_def bindR_eq_Inl
      parts_implemented)

lemma deserialize_implemented:
  "implemented t \<Longrightarrow> deserialize t d \<noteq> Inl (DbPanic (Unimplemented m))"
  "list_all implemented ts \<Longrightarrow> visit_tuple ts d \<noteq> Inl (DbPanic (Unimplemented m))"
  "implemented t \<Longrightarrow> visit_vec n t d \<noteq> Inl (DbPanic (Unimplemented m))"
  by (induction t d and ts d and n t d rule: deserialize_visit_tuple_visit_vec.induct)
    (auto simp: bindR_eq_Inl parts_implemented unit_struct_implemented simp del: implemented.simps(4))

text \<open>C24. Reading a record, of whatever type and from whatever bytes (fewer than \<open>2^64 - 1\<close>), comes to an end and
  never slices the buffer out of range. Of a type the deserializer implements (any option, vector or
  tuple of integers of 64 bits, booleans, texts, bytes, \<open>Ignore\<close> and \<open>IgnoreAll\<close>) it does not
  panic at all: it returns a value or a decoding error.\<close>

theorem from_slice_safe:
  assumes "length b < usize_max"
  shows "from_slice t b \<noteq> Inl (DbPanic SliceOutOfRange) \<and> from_slice t b \<noteq> Inl LoopOutOfFuel
    \<and> (implemented t \<longrightarrow> (\<forall>p. from_slice t b \<noteq> Inl (DbPanic p)))"
proof -
  let ?d = "\<lparr>buf = b, pos = 0, rec = 0, seq = False\<rparr>"
  have "de_ok ?d" using assms by (simp add: de_ok_def)
  then have "advanced ?d (deserialize t ?d)" by (rule deserialize_advanced(1))
  then have safe: "from_slice t b \<noteq> Inl (DbPanic SliceOutOfRange) \<and> from_slice t b \<noteq> Inl LoopOutOfFuel"
    by (auto simp: from_slice_def advanced_def bindR_eq_Inl split: sum.splits)
  have "from_slice t b \<noteq> Inl (DbPanic p)" if "implemented t" for p
    using safe deserialize_implemented(1) [OF that] by (cases p) (auto simp: from_slice_def bindR_eq_Inl)
  then show ?thesis using safe by blast
qed

theorem from_slice_safe_witness:
  "\<forall>p. from_slice (DeTuple [DeU64, DeSeq DeStr]) [0xFF, 0xFF, 0, 1] \<noteq> Inl (DbPanic p)"
  using from_slice_safe [of "[0xFF, 0xFF, 0, 1]" "DeTuple [DeU64, DeSeq DeStr]"] by simp

subsection \<open>The format of a tuple\<close>

text \<open>Scalars and options of scalars, and the bytes they are written as.\<close>

fun flat :: "ser_value \<Rightarrow> bool" where
  "flat (SerSome v) = flat v"
| "flat (SerSeq vs) = False"
| "flat (SerTuple vs) = False"
| "flat (SerUnitStruct n) = (n = ''Interfix'')"
| "flat (SerNewtypeStruct n t) = (n = ''Json'' \<or> n = ''Cbor'')"
| "flat (SerOther n) = False"
| "flat _ = True"

fun record_bytes :: "ser_value \<Rightarrow> bytes" where
  "record_bytes (SerU64 v) = to_be_bytes v"
| "record_bytes (SerI64 v) = to_be_bytes v"
| "record_bytes (SerU32 v) = to_be_bytes32 v"
| "record_bytes (SerI32 v) = to_be_bytes32 v"
| "record_bytes (SerU8 v) = [v]"
| "record_bytes (SerBool v) = (if v then [1] else [0])"
| "record_bytes (SerChar v) = encode_utf8 v"
| "record_bytes (SerStr v) = v"
| "record_bytes (SerBytes v) = v"
| "record_bytes (SerSome v) = record_bytes v"
| "record_bytes (SerNewtypeStruct n t) = t"
| "record_bytes _ = []"

fun sep_join :: "bytes list \<Rightarrow> bytes" where
  "sep_join [] = []"
| "sep_join [b] = b"
| "sep_join (b # c # bs) = b @ SEP # sep_join (c # bs)"

lemma serialize_flat:
  "flat v \<Longrightarrow> out_cap s = None \<Longrightarrow> serialize_value v s = Inr (s\<lparr>out := out s @ record_bytes v\<rparr>)"
  by (induction v rule: flat.induct)
    (auto simp: write_out_def serialize_unit_struct_def serialize_newtype_struct_def)

lemma serialize_tuple_flat:
  assumes "\<forall>v \<in> set vs. flat v" and "out_cap s = None"
  shows "\<exists>s'. serialize_tuple vs s = Inr s'
    \<and> out s' = out s @ (if vs = [] then [] else (if sep s then [SEP] else []) @ sep_join (map record_bytes vs))"
  using assms
proof (induction vs arbitrary: s)
  case (Cons v vs)
  let ?s = "s\<lparr>sep := True, out := out s @ (if sep s then [SEP] else []) @ record_bytes v\<rparr>"
  have "serialize_tuple (v # vs) s = serialize_tuple vs ?s"
    using Cons.prems by (simp add: record_start_def separator_def write_out_def serialize_flat)
  then show ?case using Cons.IH [of ?s] Cons.prems by (cases vs) simp_all
qed simp

lemma serialize_tuple_join:
  assumes "\<forall>v \<in> set vs. flat v"
  shows "serialize_to_vec (SerTuple vs) = Inr (sep_join (map record_bytes vs))"
  using serialize_tuple_flat [OF assms, of "\<lparr>out = [], out_cap = None, sep = False\<rparr>"]
  by (auto simp: serialize_to_vec_def serialize_def)

text \<open>No byte of a UTF-8 text is the separator.\<close>

lemma utf8_ok_no_SEP: "utf8_ok b \<Longrightarrow> SEP \<notin> set b"
proof (induction b rule: utf8_ok.induct)
  case (2 b bs)
  have tail: "\<not> utf8_tail SEP" by (simp add: utf8_tail_def SEP_def)
  have lead: "b \<noteq> SEP" using "2.prems" by (auto simp: SEP_def split: if_splits)
  show ?case using "2.prems" "2.IH" lead tail
    by (auto split: if_splits list.splits simp: SEP_def utf8_tail_def)
qed simp

subsection \<open>Reading a tuple back\<close>

text \<open>What a written value is read as. A present option must not look like an absent one.\<close>

fun read_as :: "de_type \<Rightarrow> ser_value \<Rightarrow> de_value option" where
  "read_as DeU64 v = (case v of SerU64 w \<Rightarrow> Some (ValU64 w) | _ \<Rightarrow> None)"
| "read_as DeI64 v = (case v of SerI64 w \<Rightarrow> Some (ValI64 w) | _ \<Rightarrow> None)"
| "read_as DeBool v = (case v of SerBool b \<Rightarrow> Some (ValBool b) | _ \<Rightarrow> None)"
| "read_as DeStr v = (case v of SerStr b \<Rightarrow> if utf8_ok b then Some (ValStr b) else None | _ \<Rightarrow> None)"
| "read_as DeString v = (case v of SerStr b \<Rightarrow> if utf8_ok b then Some (ValStr b) else None | _ \<Rightarrow> None)"
| "read_as (DeOption t) v =
     (case v of
        SerNone \<Rightarrow> Some ValNone
      | SerSome w \<Rightarrow>
          (if record_bytes w \<noteq> [] \<and> hd (record_bytes w) \<noteq> SEP then map_option ValSome (read_as t w)
           else None)
      | _ \<Rightarrow> None)"
| "read_as (DeUnitStruct n) v =
     (case v of SerStr b \<Rightarrow> if n = ''Ignore'' \<and> utf8_ok b then Some ValUnit else None | _ \<Rightarrow> None)"
| "read_as _ v = None"

text \<open>The last component of a tuple may be raw bytes, which reach to the end of the record.\<close>

fun read_all :: "de_type list \<Rightarrow> ser_value list \<Rightarrow> de_value list option" where
  "read_all [] [] = Some []"
| "read_all (t # ts) (v # vs) =
     (if t = DeBytes \<and> ts = [] \<and> vs = [] then
        (case v of SerBytes b \<Rightarrow> Some [ValBytes b] | _ \<Rightarrow> None)
      else case read_as t v of
          None \<Rightarrow> None
        | Some x \<Rightarrow> map_option (Cons x) (read_all ts vs))"
| "read_all _ _ = None"

lemma read_as_flat: "read_as t v = Some x \<Longrightarrow> flat v"
  by (induction t v arbitrary: x rule: read_as.induct) (auto split: if_splits ser_value.splits)

lemma read_all_flat: "read_all ts vs = Some xs \<Longrightarrow> \<forall>v \<in> set vs. flat v"
  by (induction ts vs arbitrary: xs rule: read_all.induct)
    (auto split: if_splits option.splits ser_value.splits dest: read_as_flat)

lemma takeWhile_record:
  "SEP \<notin> set b \<Longrightarrow> rest = [] \<or> hd rest = SEP \<Longrightarrow> takeWhile (\<lambda>x. x \<noteq> SEP) (b @ rest) = b"
  by (induction b) (cases rest; auto)+

lemma record_next_eq:
  assumes "de_ok d" and "drop (pos d) (buf d) = b @ rest" and "rest = [] \<or> hd rest = SEP" and "SEP \<notin> set b"
  shows "record_next d = Inr (b, inc_pos (length b) d)"
  using assms(1) takeWhile_record [OF assms(4,3)]
  by (simp add: record_next_def buf_from_pos_def de_ok_def assms(2) Let_def)

lemma take_8_eq:
  assumes "de_ok d" and "drop (pos d) (buf d) = b @ rest" and "length b = 8"
  shows "take_8 err d = Inr (b, inc_pos 8 d)"
proof -
  have "length (buf d) - pos d = 8 + length rest"
    using arg_cong [OF assms(2), of length] assms(3) by simp
  moreover have "pos d \<le> length (buf d)" "length (buf d) < usize_max" using assms(1) by (simp_all add: de_ok_def)
  ultimately have "pos d + 8 \<le> length (buf d)" "pos d + 8 < 2 ^ 64" by linarith+
  then have "min (saturating_add_usize (pos d) 8) (length (buf d)) = pos d + 8"
    by (simp add: saturating_add_small)
  then show ?thesis using assms(2,3) by (simp add: take_8_def Let_def)
qed

lemma bool_eq:
  assumes "drop (pos d) (buf d) = [c] @ rest"
  shows "deserialize_bool d = Inr (ValBool (c \<noteq> 0), inc_pos 1 d)"
proof -
  have "pos d < length (buf d)" using assms by (metis drop_all append_Cons list.distinct(1) not_less)
  moreover have "buf d ! pos d = c" using assms hd_drop_conv_nth [OF calculation] by simp
  ultimately show ?thesis by (simp add: deserialize_bool_def)
qed

lemma deserialize_read_as:
  assumes "read_as t v = Some x" and "de_ok d" and "seq d"
    and "drop (pos d) (buf d) = record_bytes v @ rest" and "rest = [] \<or> hd rest = SEP"
  shows "deserialize t d = Inr (x, inc_pos (length (record_bytes v)) d)"
  using assms
proof (induction t v arbitrary: x rule: read_as.induct)
  case (1 v)
  then obtain w where "v = SerU64 w" "x = ValU64 w" by (auto split: ser_value.splits)
  then show ?case using 1 take_8_eq [of d "to_be_bytes w" rest] by simp
next
  case (2 v)
  then obtain w where "v = SerI64 w" "x = ValI64 w" by (auto split: ser_value.splits)
  then show ?case using 2 take_8_eq [of d "to_be_bytes w" rest] by simp
next
  case (3 v)
  then obtain w where "v = SerBool w" "x = ValBool w" by (auto split: ser_value.splits)
  then show ?case using 3 bool_eq [of d "if w then 1 else 0" rest] by (cases w) simp_all
next
  case (4 v)
  then obtain w where "v = SerStr w" "x = ValStr w" "utf8_ok w"
    by (auto split: ser_value.splits if_splits)
  then show ?case using 4 record_next_eq [of d w rest] utf8_ok_no_SEP [of w]
    by (simp add: str_from_bytes_def)
next
  case (5 v)
  then obtain w where "v = SerStr w" "x = ValStr w" "utf8_ok w"
    by (auto split: ser_value.splits if_splits)
  then show ?case using 5 record_next_eq [of d w rest] utf8_ok_no_SEP [of w]
    by (simp add: str_from_bytes_def)
next
  case (6 t v)
  then consider "v = SerNone" "x = ValNone"
    | w y where "v = SerSome w" "record_bytes w \<noteq> []" "hd (record_bytes w) \<noteq> SEP" "read_as t w = Some y" "x = ValSome y"
    by (auto split: ser_value.splits if_splits)
  then show ?case
  proof cases
    case 1
    have "option_is_none d"
    proof (cases rest)
      case Nil
      then show ?thesis using 1 6 by (simp add: option_is_none_def)
    next
      case (Cons r rs)
      then have "drop (pos d) (buf d) = SEP # rs" using 1 6 by simp
      then show ?thesis by (simp add: option_is_none_def nth_via_drop)
    qed
    then show ?thesis using 1 6 by (simp add: inc_pos_def saturating_add_usize_def de_ok_def)
  next
    case 2
    then obtain c cs where c: "record_bytes w = c # cs" "c \<noteq> SEP" by (cases "record_bytes w") auto
    then have drop: "drop (pos d) (buf d) = c # (cs @ rest)" using 2 6 by simp
    then have "pos d < length (buf d)" by (metis drop_all list.distinct(1) not_less)
    then have "\<not> option_is_none d" using c drop by (simp add: option_is_none_def nth_via_drop)
    moreover have "deserialize t d = Inr (y, inc_pos (length (record_bytes w)) d)"
      using "6.IH" 2 6 by simp
    ultimately show ?thesis using 2 by simp
  qed
next
  case (7 n v)
  then obtain w where "v = SerStr w" "x = ValUnit" "utf8_ok w" "n = ''Ignore''"
    by (auto split: ser_value.splits if_splits)
  then show ?case using 7 record_next_eq [of d w rest] utf8_ok_no_SEP [of w]
    by (simp add: deserialize_unit_struct_def record_ignore_def)
qed simp_all

lemma visit_tuple_read_all:
  assumes "read_all ts vs = Some xs" and "vs \<noteq> []" and "de_ok d" and "seq d"
    and "drop (pos d) (buf d) = (if pos d \<noteq> 0 \<or> 0 < rec d then [SEP] else []) @ sep_join (map record_bytes vs)"
    and "pos d < length (buf d)"
  shows "\<exists>d'. visit_tuple ts d = Inr (xs, d')"
  using assms
proof (induction ts vs arbitrary: xs d rule: read_all.induct)
  case (2 t ts v vs)
  let ?d = "de_record_start d" and ?b = "record_bytes v"
  let ?rest = "if vs = [] then [] else SEP # sep_join (map record_bytes vs)"
  note step = de_record_start_step [OF "2.prems"(3,6)]
  have join: "sep_join (map record_bytes (v # vs)) = ?b @ ?rest" by (cases vs) simp_all
  have seq: "seq ?d" using "2.prems"(4) by (simp add: de_record_start_def Let_def)
  have start: "pos ?d = pos d + (if pos d \<noteq> 0 \<or> 0 < rec d then 1 else 0)"
    using "2.prems"(3,6) by (simp add: de_record_start_def Let_def saturating_add_small de_ok_def)
  have at: "drop (pos ?d) (buf ?d) = ?b @ ?rest"
  proof (cases "pos d \<noteq> 0 \<or> 0 < rec d")
    case True
    then have "drop 1 (drop (pos d) (buf d)) = ?b @ ?rest" using "2.prems"(5) join by simp
    then show ?thesis using True start step(1) by (simp add: drop_Suc_Cons)
  next
    case False
    then show ?thesis using "2.prems"(5) join start step(1) by simp
  qed
  show ?case
  proof (cases "t = DeBytes \<and> ts = [] \<and> vs = []")
    case True
    then obtain b where v: "v = SerBytes b" and xs: "xs = [ValBytes b]"
      using "2.prems"(1) by (auto split: ser_value.splits)
    have "record_trail ?d = Inr (b, inc_pos (length b) ?d)"
      using at True v step(1,3) by (simp add: record_trail_def buf_from_pos_def)
    then show ?thesis using True xs "2.prems"(6) by simp
  next
    case False
    then obtain x ys where x: "read_as t v = Some x" and ys: "read_all ts vs = Some ys" and xs: "xs = x # ys"
      using "2.prems"(1) by (auto split: option.splits if_splits)
    let ?d' = "inc_pos (length ?b) ?d"
    have de: "deserialize t ?d = Inr (x, ?d')"
      by (rule deserialize_read_as [OF x step(5) seq at]) simp
    have len: "pos ?d + length ?b \<le> length (buf d)"
      using arg_cong [OF at, of length] step(1,3) by simp
    have pos': "pos ?d' = pos ?d + length ?b"
      using len "2.prems"(3) by (simp add: de_ok_def saturating_add_small)
    have ok': "de_ok ?d'" using len pos' step(1) "2.prems"(3) by (simp add: de_ok_def)
    have at': "drop (pos ?d') (buf ?d') = ?rest"
    proof -
      have "drop (pos ?d') (buf ?d') = drop (length ?b) (drop (pos ?d) (buf ?d))"
        unfolding pos' by (simp add: add.commute)
      then show ?thesis by (simp only: at drop_append) simp
    qed
    have "\<exists>d''. visit_tuple ts ?d' = Inr (ys, d'')"
    proof (cases "vs = []")
      case True
      then have "ts = []" "ys = []" using ys by (cases ts; simp)+
      then show ?thesis by simp
    next
      case False
      have "pos ?d' < length (buf ?d')"
        using at' False by (metis drop_all list.distinct(1) not_less)
      moreover have "drop (pos ?d') (buf ?d') = [SEP] @ sep_join (map record_bytes vs)" using at' False by simp
      moreover have "0 < rec ?d'" using step(4) by simp
      moreover have "seq ?d'" using seq by simp
      ultimately show ?thesis
        using "2.IH" [OF \<open>\<not> (t = DeBytes \<and> ts = [] \<and> vs = [])\<close> x ys False ok'] by simp
    qed
    then show ?thesis using de xs "2.prems"(6) by auto
  qed
qed simp_all

text \<open>C23. A tuple of integers, booleans, texts, options of them and trailing bytes is read back as
  it was written, as long as no option in it holds a value whose bytes are empty or begin with
  \<open>0xFF\<close> (the deserializer takes those for an absent one) and the tuple is not empty and not a single
  empty record (which leaves no byte to find it by).\<close>

theorem tuple_roundtrip:
  assumes "read_all ts vs = Some xs" and "vs \<noteq> []" and "sep_join (map record_bytes vs) \<noteq> []"
    and "length (sep_join (map record_bytes vs)) < usize_max"
  shows "\<exists>b. serialize_to_vec (SerTuple vs) = Inr b \<and> from_slice (DeTuple ts) b = Inr (ValTuple xs)"
proof -
  let ?b = "sep_join (map record_bytes vs)"
  let ?d = "sequence_start \<lparr>buf = ?b, pos = 0, rec = 0, seq = False\<rparr>"
  have "de_ok ?d" using assms(4) by (simp add: de_ok_def)
  then have "\<exists>d'. visit_tuple ts ?d = Inr (xs, d')"
    using assms(3) by (intro visit_tuple_read_all [OF assms(1,2)]) simp_all
  then have "from_slice (DeTuple ts) ?b = Inr (ValTuple xs)" by (auto simp: from_slice_def)
  then show ?thesis using serialize_tuple_join [OF read_all_flat [OF assms(1)]] by blast
qed

theorem tuple_roundtrip_witness:
  "\<exists>b. serialize_to_vec (SerTuple [SerU64 255, SerNone, SerStr [0x61], SerBytes [0xFF, 0]]) = Inr b
     \<and> from_slice (DeTuple [DeU64, DeOption DeStr, DeStr, DeBytes]) b
       = Inr (ValTuple [ValU64 255, ValNone, ValStr [0x61], ValBytes [0xFF, 0]])"
  by (rule tuple_roundtrip) (simp_all)

subsection \<open>Buffers of fixed capacity\<close>

definition uncapped :: "serializer \<Rightarrow> serializer" where
  "uncapped s = s\<lparr>out_cap := None\<rparr>"

text \<open>The run on a fixed buffer follows the run on a vector.\<close>

definition follows :: "nat \<Rightarrow> serializer \<Rightarrow> db_error + serializer \<Rightarrow> db_error + serializer \<Rightarrow> bool" where
  "follows cap s r r' = (case r' of
       Inl e \<Rightarrow> \<exists>e'. r = Inl e' \<and> (e' = e \<or> e' = WriteZero)
     | Inr t \<Rightarrow> length (out s) \<le> length (out t) \<and> out_cap t = None
         \<and> r = (if length (out t) \<le> cap then Inr (t\<lparr>out_cap := Some cap\<rparr>) else Inl WriteZero))"

lemma follows_write: "out_cap s = Some cap \<Longrightarrow> follows cap s (write_out b s) (write_out b (uncapped s))"
  by (auto simp: follows_def write_out_def uncapped_def)

lemma follows_Inr: "out_cap s = Some cap \<Longrightarrow> length (out s) \<le> cap \<Longrightarrow> follows cap s (Inr s) (Inr (uncapped s))"
  by (simp add: follows_def uncapped_def)

lemma follows_Inl: "follows cap s (Inl e) (Inl e)"
  by (simp add: follows_def)

lemma follows_bind:
  assumes "follows cap s m m'"
    and "\<And>t. out_cap t = Some cap \<Longrightarrow> length (out t) \<le> cap \<Longrightarrow> m = Inr t \<Longrightarrow> follows cap t (f t) (f' (uncapped t))"
    and "\<And>t t'. out_cap t = None \<Longrightarrow> f' t = Inr t' \<Longrightarrow> length (out t) \<le> length (out t') \<and> out_cap t' = None"
  shows "follows cap s (bindR m f) (bindR m' f')"
proof (cases m')
  case (Inl e)
  then show ?thesis using assms(1) by (auto simp: follows_def)
next
  case (Inr t)
  then have t: "length (out s) \<le> length (out t)" "out_cap t = None"
    "m = (if length (out t) \<le> cap then Inr (t\<lparr>out_cap := Some cap\<rparr>) else Inl WriteZero)"
    using assms(1) by (simp_all add: follows_def)
  have un: "uncapped (t\<lparr>out_cap := Some cap\<rparr>) = t" using t(2) by (cases t) (simp add: uncapped_def)
  show ?thesis
  proof (cases "length (out t) \<le> cap")
    case True
    have "follows cap (t\<lparr>out_cap := Some cap\<rparr>) (f (t\<lparr>out_cap := Some cap\<rparr>)) (f' t)"
      using assms(2) [of "t\<lparr>out_cap := Some cap\<rparr>"] t(3) True un by simp
    then show ?thesis using Inr True t by (auto simp: follows_def split: sum.splits)
  next
    case False
    then show ?thesis using Inr t assms(3) [OF t(2)]
      by (fastforce simp: follows_def split: sum.split)
  qed
qed

abbreviation grown :: "serializer \<Rightarrow> serializer \<Rightarrow> bool" where
  "grown s t \<equiv> length (out s) \<le> length (out t) \<and> out_cap t = out_cap s"

lemma write_out_grows: "write_out b s = Inr t \<Longrightarrow> grown s t"
  by (auto simp: write_out_def split: option.splits if_splits)

lemma serialize_parts_grow:
  "record_start s = Inr t \<Longrightarrow> grown s t"
  "serialize_unit_struct n s = Inr t \<Longrightarrow> grown s t"
  "serialize_newtype_struct n b s = Inr t \<Longrightarrow> grown s t"
  by (auto simp: record_start_def serialize_unit_struct_def serialize_newtype_struct_def separator_def
      split: if_splits dest!: write_out_grows)

lemma serialize_grows:
  "serialize_value v s = Inr t \<Longrightarrow> grown s t"
  "serialize_seq vs s = Inr t \<Longrightarrow> grown s t"
  "serialize_tuple vs s = Inr t \<Longrightarrow> grown s t"
proof (induction v s and vs s and vs s arbitrary: t and t and t
    rule: serialize_value_serialize_seq_serialize_tuple.induct)
  case (18 v vs s)
  from "18.prems" obtain u where u: "serialize_value v s = Inr u" "serialize_seq vs u = Inr t"
    by (simp only: serialize_seq.simps bindR_eq_Inr) blast
  show ?case using "18.IH"(1) [OF u(1)] "18.IH"(2) [OF u] by simp
next
  case (20 v vs s)
  from "20.prems" obtain r u where
    u: "record_start s = Inr r" "serialize_value v r = Inr u" "serialize_tuple vs u = Inr t"
    by (simp only: serialize_tuple.simps bindR_eq_Inr) blast
  show ?case
    using serialize_parts_grow(1) [OF u(1)] "20.IH"(1) [OF u(1,2)] "20.IH"(2) [OF u] by simp
qed (simp_all split: if_splits, (metis write_out_grows serialize_parts_grow(2,3))+)

lemma follows_parts:
  assumes "out_cap s = Some cap" and "length (out s) \<le> cap"
  shows "follows cap s (record_start s) (record_start (uncapped s))"
    and "follows cap s (serialize_unit_struct n s) (serialize_unit_struct n (uncapped s))"
    and "follows cap s (serialize_newtype_struct n b s) (serialize_newtype_struct n b (uncapped s))"
  using assms
  by (auto simp: record_start_def separator_def write_out_def uncapped_def follows_def
      serialize_unit_struct_def serialize_newtype_struct_def)

lemma serialize_follows:
  "out_cap s = Some cap \<Longrightarrow> length (out s) \<le> cap \<Longrightarrow>
   follows cap s (serialize_value v s) (serialize_value v (uncapped s))"
  "out_cap s = Some cap \<Longrightarrow> length (out s) \<le> cap \<Longrightarrow>
   follows cap s (serialize_seq vs s) (serialize_seq vs (uncapped s))"
  "out_cap s = Some cap \<Longrightarrow> length (out s) \<le> cap \<Longrightarrow>
   follows cap s (serialize_tuple vs s) (serialize_tuple vs (uncapped s))"
proof (induction v s and vs s and vs s rule: serialize_value_serialize_seq_serialize_tuple.induct)
  case (18 v vs s)
  show ?case unfolding serialize_seq.simps
  proof (rule follows_bind [OF "18.IH"(1) [OF "18.prems"]])
    fix t t' assume "out_cap t = None" "serialize_seq vs t = Inr t'"
    then show "length (out t) \<le> length (out t') \<and> out_cap t' = None"
      using serialize_grows(2) [of vs t t'] by simp
  qed (rule "18.IH"(2))
next
  case (20 v vs s)
  show ?case unfolding serialize_tuple.simps
  proof (rule follows_bind [OF follows_parts(1) [OF "20.prems"]])
    fix t assume t: "out_cap t = Some cap" "length (out t) \<le> cap" and m: "record_start s = Inr t"
    show "follows cap t (bindR (serialize_value v t) (serialize_tuple vs))
        (bindR (serialize_value v (uncapped t)) (serialize_tuple vs))"
    proof (rule follows_bind [OF "20.IH"(1) [OF m t]])
      fix t t' assume "out_cap t = None" "serialize_tuple vs t = Inr t'"
      then show "length (out t) \<le> length (out t') \<and> out_cap t' = None"
        using serialize_grows(3) [of vs t t'] by simp
    qed (rule "20.IH"(2) [OF m])
  next
    fix t t' assume "out_cap t = None" "bindR (serialize_value v t) (serialize_tuple vs) = Inr t'"
    then show "length (out t) \<le> length (out t') \<and> out_cap t' = None"
      using serialize_grows(1) [of v t] serialize_grows(3) [of vs _ t'] by (fastforce simp: bindR_eq_Inr)
  qed
qed (simp_all add: follows_write follows_parts follows_Inr follows_Inl)

text \<open>Writing into a buffer of fixed capacity succeeds exactly when what is written to a growing
  vector fits into it, and then writes the same bytes.\<close>

lemma serialize_capacity:
  "serialize (Some cap) v = Inr b \<longleftrightarrow> serialize_to_vec v = Inr b \<and> length b \<le> cap"
proof -
  let ?s = "\<lparr>out = [], out_cap = Some cap, sep = False\<rparr>"
  have "follows cap ?s (serialize_value v ?s) (serialize_value v (uncapped ?s))"
    by (rule serialize_follows(1)) simp_all
  moreover have "uncapped ?s = \<lparr>out = [], out_cap = None, sep = False\<rparr>" by (simp add: uncapped_def)
  ultimately show ?thesis
    by (auto simp: serialize_to_vec_def serialize_def follows_def split: sum.splits db_error.splits if_splits)
qed

end
