(* ===== verification/Short.thy ===== *)
theory Short
  imports DbRecords
begin

text \<open>
  Short ids: the service \<open>src/src/service/rooms/short/mod.rs\<close>, which replaces event ids, state
  keys, room ids and state hashes by 64-bit numbers, and the counter of
  \<open>src/src/service/globals/data.rs\<close> the numbers are drawn from. A database map is a finite map
  from key bytes to value bytes; reading a value is \<open>from_slice\<close> of the record format.
\<close>

subsection \<open>Tables and errors\<close>

type_synonym table = "bytes \<Rightarrow> bytes option"

datatype service_error =
    NotFoundErr
  | DeErr db_error
  | DatabaseErr string
  | ArithmeticErr
  | RequestErr string
  | PanicErr string
  | FuelErr

definition table_get :: "table \<Rightarrow> bytes \<Rightarrow> service_error + bytes" where
  "table_get t k = ok_or NotFoundErr (t k)"

text \<open>\<open>deserialized::<u64>()\<close>, and \<open>deserialized()\<close> of a text and of a pair of texts.\<close>

definition de_u64 :: "bytes \<Rightarrow> service_error + u64" where
  "de_u64 b = (case from_slice DeU64 b of
       Inr (ValU64 w) \<Rightarrow> Inr w
     | Inr _ \<Rightarrow> Inl (DeErr InvalidLength)
     | Inl e \<Rightarrow> Inl (DeErr e))"

definition de_text :: "bytes \<Rightarrow> service_error + bytes" where
  "de_text b = (case from_slice DeStr b of
       Inr (ValStr s) \<Rightarrow> Inr s
     | Inr _ \<Rightarrow> Inl (DeErr InvalidLength)
     | Inl e \<Rightarrow> Inl (DeErr e))"

definition de_pair :: "bytes \<Rightarrow> service_error + bytes \<times> bytes" where
  "de_pair b = (case from_slice (DeTuple [DeStr, DeStr]) b of
       Inr (ValTuple [ValStr s, ValStr t]) \<Rightarrow> Inr (s, t)
     | Inr _ \<Rightarrow> Inl (DeErr InvalidLength)
     | Inl e \<Rightarrow> Inl (DeErr e))"

text \<open>The key of a pair of texts.\<close>

definition pair_key :: "bytes \<times> bytes \<Rightarrow> bytes" where
  "pair_key p = (case serialize_to_vec (SerTuple [SerStr (fst p), SerStr (snd p)]) of
       Inr b \<Rightarrow> b | Inl _ \<Rightarrow> [])"

subsection \<open>The state\<close>

record short_db =
  counter :: u64
  global :: table
  eventid_shorteventid :: table
  shorteventid_eventid :: table
  statekey_shortstatekey :: table
  shortstatekey_statekey :: table
  roomid_shortroomid :: table
  statehash_shortstatehash :: table

definition COUNTER :: bytes where
  "COUNTER = [0x63]"

definition stored_count :: "table \<Rightarrow> service_error + u64" where
  "stored_count g = (case g COUNTER of
       None \<Rightarrow> Inr 0
     | Some b \<Rightarrow> (if length b = 8 then Inr (from_be_bytes b) else Inl (DeErr InvalidLength)))"

definition next_count :: "short_db \<Rightarrow> u64 \<times> short_db" where
  "next_count db =
     (let c = (if counter db = - 1 then counter db else counter db + 1)
      in (c, db\<lparr>counter := c, global := (global db)(COUNTER \<mapsto> to_be_bytes c)\<rparr>))"

definition current_count :: "short_db \<Rightarrow> u64" where
  "current_count db = counter db"

subsection \<open>Event ids\<close>

definition get_shorteventid :: "short_db \<Rightarrow> bytes \<Rightarrow> service_error + u64" where
  "get_shorteventid db event_id = bindR (table_get (eventid_shorteventid db) event_id) de_u64"

definition create_shorteventid :: "bytes \<Rightarrow> short_db \<Rightarrow> u64 \<times> short_db" where
  "create_shorteventid event_id db =
     (case next_count db of (short, db) \<Rightarrow>
        (short, db\<lparr>eventid_shorteventid := (eventid_shorteventid db)(event_id \<mapsto> to_be_bytes short),
           shorteventid_eventid := (shorteventid_eventid db)(to_be_bytes short \<mapsto> event_id)\<rparr>))"

definition get_or_create_shorteventid :: "bytes \<Rightarrow> short_db \<Rightarrow> u64 \<times> short_db" where
  "get_or_create_shorteventid event_id db =
     (case get_shorteventid db event_id of
        Inr shorteventid \<Rightarrow> (shorteventid, db)
      | Inl _ \<Rightarrow> create_shorteventid event_id db)"

text \<open>
  The stream looks ids up a chunk at a time, before any id of the chunk is created. A found
  value is read with \<open>u64_from_u8\<close>, which panics unless it has 8 bytes.
\<close>

fun create_missing :: "(bytes \<times> bytes option) list \<Rightarrow> short_db \<Rightarrow> service_error + u64 list \<times> short_db" where
  "create_missing [] db = Inr ([], db)"
| "create_missing ((event_id, result) # rs) db =
     bindR (case result of
         Some short \<Rightarrow>
           (if length short = 8 then Inr (from_be_bytes short, db)
            else Inl (PanicErr ''must slice at least 8 bytes''))
       | None \<Rightarrow> Inr (create_shorteventid event_id db)) (\<lambda>(short, db).
     bindR (create_missing rs db) (\<lambda>(shorts, db). Inr (short # shorts, db)))"

fun multi_get_or_create_shorteventid ::
  "bytes list list \<Rightarrow> short_db \<Rightarrow> service_error + u64 list \<times> short_db" where
  "multi_get_or_create_shorteventid [] db = Inr ([], db)"
| "multi_get_or_create_shorteventid (chunk # chunks) db =
     bindR (create_missing (map (\<lambda>i. (i, eventid_shorteventid db i)) chunk) db) (\<lambda>(shorts, db).
     bindR (multi_get_or_create_shorteventid chunks db) (\<lambda>(more, db). Inr (shorts @ more, db)))"

definition get_eventid_from_short :: "short_db \<Rightarrow> u64 \<Rightarrow> service_error + bytes" where
  "get_eventid_from_short db shorteventid =
     (case bindR (table_get (shorteventid_eventid db) (to_be_bytes shorteventid)) de_text of
        Inr e \<Rightarrow> Inr e
      | Inl _ \<Rightarrow> Inl (DatabaseErr ''Failed to find EventId from short''))"

definition multi_get_eventid_from_short :: "short_db \<Rightarrow> u64 list \<Rightarrow> (service_error + bytes) list" where
  "multi_get_eventid_from_short db shorts =
     map (\<lambda>s. bindR (table_get (shorteventid_eventid db) (to_be_bytes s)) de_text) shorts"

subsection \<open>State keys\<close>

definition get_shortstatekey :: "short_db \<Rightarrow> bytes \<times> bytes \<Rightarrow> service_error + u64" where
  "get_shortstatekey db key = bindR (table_get (statekey_shortstatekey db) (pair_key key)) de_u64"

definition get_or_create_shortstatekey :: "bytes \<times> bytes \<Rightarrow> short_db \<Rightarrow> u64 \<times> short_db" where
  "get_or_create_shortstatekey key db =
     (case get_shortstatekey db key of
        Inr shortstatekey \<Rightarrow> (shortstatekey, db)
      | Inl _ \<Rightarrow>
          (case next_count db of (shortstatekey, db) \<Rightarrow>
             (shortstatekey,
              db\<lparr>statekey_shortstatekey := (statekey_shortstatekey db)(pair_key key \<mapsto> to_be_bytes shortstatekey),
                 shortstatekey_statekey := (shortstatekey_statekey db)(to_be_bytes shortstatekey \<mapsto> pair_key key)\<rparr>)))"

definition get_statekey_from_short :: "short_db \<Rightarrow> u64 \<Rightarrow> service_error + bytes \<times> bytes" where
  "get_statekey_from_short db shortstatekey =
     (case bindR (table_get (shortstatekey_statekey db) (to_be_bytes shortstatekey)) de_pair of
        Inr p \<Rightarrow> Inr p
      | Inl _ \<Rightarrow> Inl (DatabaseErr ''Failed to find (StateEventType, state_key) from short''))"

definition multi_get_statekey_from_short :: "short_db \<Rightarrow> u64 list \<Rightarrow> (service_error + bytes \<times> bytes) list" where
  "multi_get_statekey_from_short db shorts =
     map (\<lambda>s. bindR (table_get (shortstatekey_statekey db) (to_be_bytes s)) de_pair) shorts"

definition multi_get_state_from_short ::
  "short_db \<Rightarrow> (u64 \<times> u64) list \<Rightarrow> (service_error + (bytes \<times> bytes) \<times> bytes) list" where
  "multi_get_state_from_short db short_state =
     map (\<lambda>state_event. case state_event of
            (Inr state_key, Inr event_id) \<Rightarrow> Inr (state_key, event_id)
          | (Inl e, _) \<Rightarrow> Inl e
          | (_, Inl e) \<Rightarrow> Inl e)
       (zip (multi_get_statekey_from_short db (map fst short_state))
          (multi_get_eventid_from_short db (map snd short_state)))"

subsection \<open>State hashes and rooms\<close>

definition get_or_create_shortstatehash :: "bytes \<Rightarrow> short_db \<Rightarrow> (u64 \<times> bool) \<times> short_db" where
  "get_or_create_shortstatehash state_hash db =
     (case bindR (table_get (statehash_shortstatehash db) state_hash) de_u64 of
        Inr shortstatehash \<Rightarrow> ((shortstatehash, True), db)
      | Inl _ \<Rightarrow>
          (case next_count db of (shortstatehash, db) \<Rightarrow>
             ((shortstatehash, False),
              db\<lparr>statehash_shortstatehash :=
                  (statehash_shortstatehash db)(state_hash \<mapsto> to_be_bytes shortstatehash)\<rparr>)))"

definition get_shortroomid :: "short_db \<Rightarrow> bytes \<Rightarrow> service_error + u64" where
  "get_shortroomid db room_id = bindR (table_get (roomid_shortroomid db) room_id) de_u64"

definition get_or_create_shortroomid :: "bytes \<Rightarrow> short_db \<Rightarrow> u64 \<times> short_db" where
  "get_or_create_shortroomid room_id db =
     (case bindR (table_get (roomid_shortroomid db) room_id) de_u64 of
        Inr short \<Rightarrow> (short, db)
      | Inl _ \<Rightarrow>
          (case next_count db of (short, db) \<Rightarrow>
             (short, db\<lparr>roomid_shortroomid := (roomid_shortroomid db)(room_id \<mapsto> to_be_bytes short)\<rparr>)))"

subsection \<open>Reading and writing of keys and values\<close>

lemma from_slice_u64: "from_slice DeU64 (to_be_bytes w) = Inr (ValU64 w)"
proof -
  let ?d = "\<lparr>buf = to_be_bytes w, pos = 0, rec = 0, seq = False\<rparr>"
  have "take_8 err ?d = Inr (to_be_bytes w, inc_pos 8 ?d)" for err
    using take_8_eq [of ?d "to_be_bytes w" "[]"] by (simp add: de_ok_def)
  then show ?thesis by (simp add: from_slice_def)
qed

lemma de_u64_to_be_bytes [simp]: "de_u64 (to_be_bytes w) = Inr w"
  by (simp add: de_u64_def from_slice_u64)

lemma de_text_utf8: "utf8_ok b \<Longrightarrow> length b < usize_max \<Longrightarrow> de_text b = Inr b"
  using record_next_eq [of "\<lparr>buf = b, pos = 0, rec = 0, seq = False\<rparr>" b "[]"] utf8_ok_no_SEP [of b]
  by (simp add: de_text_def from_slice_def de_ok_def str_from_bytes_def)

text \<open>Pairs of texts, as the components of a database key.\<close>

definition key_pair_ok :: "bytes \<times> bytes \<Rightarrow> bool" where
  "key_pair_ok p \<longleftrightarrow> utf8_ok (fst p) \<and> utf8_ok (snd p) \<and> length (fst p) + length (snd p) + 1 < usize_max"

lemma pair_key_eq: "pair_key p = fst p @ SEP # snd p"
  using serialize_tuple_join [of "[SerStr (fst p), SerStr (snd p)]"] by (simp add: pair_key_def)

lemma de_pair_pair_key:
  assumes "key_pair_ok p"
  shows "de_pair (pair_key p) = Inr p"
proof -
  let ?d = "sequence_start \<lparr>buf = pair_key p, pos = 0, rec = 0, seq = False\<rparr>"
  have "de_ok ?d" using assms by (simp add: de_ok_def key_pair_ok_def pair_key_eq)
  then have "\<exists>d'. visit_tuple [DeStr, DeStr] ?d = Inr ([ValStr (fst p), ValStr (snd p)], d')"
    using assms
    by (intro visit_tuple_read_all [where vs = "[SerStr (fst p), SerStr (snd p)]"])
      (simp_all add: key_pair_ok_def pair_key_eq)
  then show ?thesis by (auto simp: de_pair_def from_slice_def)
qed

interpretation pair_codec: key_codec key_pair_ok pair_key "\<lambda>b. projr (de_pair b)"
  by unfold_locales (simp add: de_pair_pair_key)

subsection \<open>The contract of a table of short ids\<close>

text \<open>
  What the services rely on: looking up or creating the short id of a key gives the same id
  ever after, different keys have different ids, and creating one leaves the others alone.
  \<open>full\<close> says that the counter has run out.
\<close>

locale short_ids =
  fixes wf :: "'db \<Rightarrow> bool" and full :: "'db \<Rightarrow> bool" and valid :: "'k \<Rightarrow> bool"
    and lookup :: "'db \<Rightarrow> 'k \<Rightarrow> u64 option" and get_or_create :: "'k \<Rightarrow> 'db \<Rightarrow> u64 \<times> 'db"
  assumes found: "wf db \<Longrightarrow> lookup db k = Some s \<Longrightarrow> get_or_create k db = (s, db)"
    and created: "wf db \<Longrightarrow> valid k \<Longrightarrow> lookup db k = None \<Longrightarrow> \<not> full db \<Longrightarrow> get_or_create k db = (s, db')
      \<Longrightarrow> wf db' \<and> lookup db' k = Some s \<and> (\<forall>k'. valid k' \<longrightarrow> k' \<noteq> k \<longrightarrow> lookup db' k' = lookup db k')"
    and inj: "wf db \<Longrightarrow> valid k \<Longrightarrow> valid k' \<Longrightarrow> lookup db k = Some s \<Longrightarrow> lookup db k' = Some s \<Longrightarrow> k = k'"
begin

lemma get_or_create_wf:
  "wf db \<Longrightarrow> valid k \<Longrightarrow> \<not> full db \<Longrightarrow> get_or_create k db = (s, db') \<Longrightarrow> wf db' \<and> lookup db' k = Some s"
  using created [of db k s db'] found [of db k] by (cases "lookup db k") simp_all

lemma get_or_create_stable:
  assumes "wf db" and "valid k" and "\<not> full db" and "get_or_create k db = (s, db')"
  shows "get_or_create k db' = (s, db')"
  using get_or_create_wf [OF assms] found by blast

lemma get_or_create_keeps:
  assumes "wf db" and "valid k" and "\<not> full db" and "get_or_create k db = (s, db')"
    and "valid k'" and "lookup db k' = Some s'"
  shows "lookup db' k' = Some s'"
proof (cases "lookup db k")
  case None
  then show ?thesis using created [OF assms(1,2) None assms(3,4)] assms(5,6)
    by (cases "k' = k") auto
next
  case (Some t)
  then show ?thesis using found [OF assms(1) Some] assms(4,6) by simp
qed

lemma get_or_create_distinct:
  assumes "wf db" and "valid k" and "\<not> full db" and "get_or_create k db = (s, db')"
    and "valid k'" and "k' \<noteq> k" and "lookup db k' = Some s'"
  shows "s' \<noteq> s"
proof
  assume "s' = s"
  have "lookup db' k' = Some s" using get_or_create_keeps [OF assms(1-5,7)] \<open>s' = s\<close> by simp
  moreover have "wf db'" "lookup db' k = Some s" using get_or_create_wf [OF assms(1-4)] by simp_all
  ultimately show False using inj assms(2,5,6) by blast
qed

end

subsection \<open>The invariant of the tables\<close>

definition short_table :: "u64 \<Rightarrow> table \<Rightarrow> bool" where
  "short_table c t \<longleftrightarrow>
     (\<forall>k v. t k = Some v \<longrightarrow> (\<exists>s. v = to_be_bytes s \<and> 0 < s \<and> s \<le> c))
     \<and> (\<forall>k k' v. t k = Some v \<longrightarrow> t k' = Some v \<longrightarrow> k = k')"

definition inverse_tables :: "table \<Rightarrow> table \<Rightarrow> bool" where
  "inverse_tables f r \<longleftrightarrow> (\<forall>k v. f k = Some v \<longleftrightarrow> r v = Some k)"

definition db_wf :: "short_db \<Rightarrow> bool" where
  "db_wf db \<longleftrightarrow> stored_count (global db) = Inr (counter db)
     \<and> short_table (counter db) (eventid_shorteventid db)
     \<and> short_table (counter db) (statekey_shortstatekey db)
     \<and> short_table (counter db) (roomid_shortroomid db)
     \<and> short_table (counter db) (statehash_shortstatehash db)
     \<and> inverse_tables (eventid_shorteventid db) (shorteventid_eventid db)
     \<and> inverse_tables (statekey_shortstatekey db) (shortstatekey_statekey db)"

definition exhausted :: "short_db \<Rightarrow> bool" where
  "exhausted db \<longleftrightarrow> counter db = - 1"

definition new_db :: short_db where
  "new_db = \<lparr>counter = 0, global = Map.empty, eventid_shorteventid = Map.empty,
     shorteventid_eventid = Map.empty, statekey_shortstatekey = Map.empty,
     shortstatekey_statekey = Map.empty, roomid_shortroomid = Map.empty,
     statehash_shortstatehash = Map.empty\<rparr>"

lemma new_db_wf: "db_wf new_db"
  by (simp add: db_wf_def new_db_def stored_count_def short_table_def inverse_tables_def)

lemma succ_bounds:
  assumes "c \<noteq> - 1"
  shows "(c :: u64) < c + 1" "0 < c + 1"
proof -
  have "unat c < 2 ^ 64 - 1"
  proof -
    have "c = - 1" if "unat c = 2 ^ 64 - 1"
    proof -
      have "c = word_of_nat (unat c)" by simp
      then show ?thesis unfolding that by simp
    qed
    moreover have "unat c < 2 ^ 64" using unsigned_less [of c] by simp
    ultimately show ?thesis using assms by linarith
  qed
  then have "unat (c + 1) = unat c + 1" by (simp add: unat_word_ariths)
  then show "c < c + 1" "0 < c + 1" by (simp_all add: word_less_nat_alt)
qed

lemma short_tableE:
  assumes "short_table c t" and "t k = Some v"
  obtains s where "v = to_be_bytes s" "0 < s" "s \<le> c"
  using assms unfolding short_table_def by blast

lemma short_table_bytes: "short_table c t \<Longrightarrow> t k = Some v \<Longrightarrow> to_be_bytes (from_be_bytes v) = v"
  by (auto elim: short_tableE)

lemma short_table_mono: "short_table c t \<Longrightarrow> c \<le> c' \<Longrightarrow> short_table c' t"
  by (force simp: short_table_def)

lemma short_table_succ: "short_table c t \<Longrightarrow> c \<noteq> - 1 \<Longrightarrow> short_table (c + 1) t"
  by (erule short_table_mono) (use succ_bounds in \<open>simp add: less_imp_le\<close>)

lemma short_table_fresh:
  assumes "short_table c t" and "c \<noteq> - 1"
  shows "t k \<noteq> Some (to_be_bytes (c + 1))"
proof
  assume "t k = Some (to_be_bytes (c + 1))"
  from short_tableE [OF assms(1) this] have "c + 1 \<le> c" by (metis to_be_bytes_inject)
  then show False using succ_bounds(1) [OF assms(2)] by simp
qed

lemma short_table_insert:
  assumes "short_table c t" and "c \<noteq> - 1"
  shows "short_table (c + 1) (t(k \<mapsto> to_be_bytes (c + 1)))"
  using short_table_succ [OF assms] short_table_fresh [OF assms] succ_bounds [OF assms(2)]
  unfolding short_table_def by (auto split: if_splits)

lemma inverse_tables_insert:
  assumes "inverse_tables f r" and "f k = None" and "\<And>k'. f k' \<noteq> Some v"
  shows "inverse_tables (f(k \<mapsto> v)) (r(v \<mapsto> k))"
proof -
  have "r v = None" using assms(1,3) unfolding inverse_tables_def by (metis not_Some_eq)
  moreover have "r v' \<noteq> Some k" for v' using assms(1,2) unfolding inverse_tables_def by (metis option.distinct(1))
  ultimately show ?thesis using assms(1) unfolding inverse_tables_def by auto
qed

lemma next_count_eq:
  "counter db \<noteq> - 1 \<Longrightarrow> next_count db = (counter db + 1,
     db\<lparr>counter := counter db + 1, global := (global db)(COUNTER \<mapsto> to_be_bytes (counter db + 1))\<rparr>)"
  by (simp add: next_count_def Let_def)

lemma stored_count_insert [simp]: "stored_count (g(COUNTER \<mapsto> to_be_bytes c)) = Inr c"
  by (simp add: stored_count_def)

text \<open>Looking up a key of a table that holds short ids cannot fail to decode.\<close>

lemma table_lookup:
  assumes "short_table c t"
  shows "bindR (table_get t k) de_u64 = (case t k of None \<Rightarrow> Inl NotFoundErr | Some v \<Rightarrow> Inr (from_be_bytes v))"
  by (cases "t k") (auto simp: table_get_def elim: short_tableE [OF assms])

definition lookup_short :: "table \<Rightarrow> bytes \<Rightarrow> u64 option" where
  "lookup_short t k = map_option from_be_bytes (t k)"

lemma lookup_short_insert [simp]:
  "lookup_short (t(k \<mapsto> to_be_bytes s)) k' = (if k' = k then Some s else lookup_short t k')"
  by (simp add: lookup_short_def)

lemma lookup_short_inj:
  "short_table c t \<Longrightarrow> lookup_short t k = Some s \<Longrightarrow> lookup_short t k' = Some s \<Longrightarrow> k = k'"
  unfolding short_table_def lookup_short_def by (metis (no_types, opaque_lifting) from_to_be_bytes map_option_eq_Some)

lemmas db_wf_parts = db_wf_def exhausted_def short_table_insert short_table_succ short_table_fresh inverse_tables_insert

interpretation event_ids: short_ids db_wf exhausted "\<lambda>_. True"
    "\<lambda>db. lookup_short (eventid_shorteventid db)" get_or_create_shorteventid
proof unfold_locales
  fix db k s assume "db_wf db" "lookup_short (eventid_shorteventid db) k = Some s"
  then show "get_or_create_shorteventid k db = (s, db)"
    by (auto simp: get_or_create_shorteventid_def get_shorteventid_def db_wf_def table_lookup lookup_short_def)
next
  fix db k s db'
  assume "db_wf db" "lookup_short (eventid_shorteventid db) k = None" "\<not> exhausted db"
    "get_or_create_shorteventid k db = (s, db')"
  then show "db_wf db' \<and> lookup_short (eventid_shorteventid db') k = Some s
    \<and> (\<forall>k'. True \<longrightarrow> k' \<noteq> k \<longrightarrow> lookup_short (eventid_shorteventid db') k' = lookup_short (eventid_shorteventid db) k')"
    by (auto simp: get_or_create_shorteventid_def get_shorteventid_def table_lookup lookup_short_def
        create_shorteventid_def next_count_eq db_wf_parts)
next
  fix db k k' s
  assume "db_wf db" "lookup_short (eventid_shorteventid db) k = Some s" "lookup_short (eventid_shorteventid db) k' = Some s"
  then show "k = k'" unfolding db_wf_def using lookup_short_inj by blast
qed

interpretation room_ids: short_ids db_wf exhausted "\<lambda>_. True"
    "\<lambda>db. lookup_short (roomid_shortroomid db)" get_or_create_shortroomid
proof unfold_locales
  fix db k s assume "db_wf db" "lookup_short (roomid_shortroomid db) k = Some s"
  then show "get_or_create_shortroomid k db = (s, db)"
    by (auto simp: get_or_create_shortroomid_def db_wf_def table_lookup lookup_short_def)
next
  fix db k s db'
  assume "db_wf db" "lookup_short (roomid_shortroomid db) k = None" "\<not> exhausted db"
    "get_or_create_shortroomid k db = (s, db')"
  then show "db_wf db' \<and> lookup_short (roomid_shortroomid db') k = Some s
    \<and> (\<forall>k'. True \<longrightarrow> k' \<noteq> k \<longrightarrow> lookup_short (roomid_shortroomid db') k' = lookup_short (roomid_shortroomid db) k')"
    by (auto simp: get_or_create_shortroomid_def table_lookup lookup_short_def next_count_eq db_wf_parts)
next
  fix db k k' s
  assume "db_wf db" "lookup_short (roomid_shortroomid db) k = Some s" "lookup_short (roomid_shortroomid db) k' = Some s"
  then show "k = k'" unfolding db_wf_def using lookup_short_inj by blast
qed

interpretation state_keys: short_ids db_wf exhausted key_pair_ok
    "\<lambda>db key. lookup_short (statekey_shortstatekey db) (pair_key key)" get_or_create_shortstatekey
proof unfold_locales
  fix db k s assume "db_wf db" "lookup_short (statekey_shortstatekey db) (pair_key k) = Some s"
  then show "get_or_create_shortstatekey k db = (s, db)"
    by (auto simp: get_or_create_shortstatekey_def get_shortstatekey_def db_wf_def table_lookup lookup_short_def)
next
  fix db k s db'
  assume "db_wf db" "key_pair_ok k" "lookup_short (statekey_shortstatekey db) (pair_key k) = None"
    "\<not> exhausted db" "get_or_create_shortstatekey k db = (s, db')"
  then show "db_wf db' \<and> lookup_short (statekey_shortstatekey db') (pair_key k) = Some s
    \<and> (\<forall>k'. key_pair_ok k' \<longrightarrow> k' \<noteq> k \<longrightarrow> lookup_short (statekey_shortstatekey db') (pair_key k')
         = lookup_short (statekey_shortstatekey db) (pair_key k'))"
    by (auto simp: get_or_create_shortstatekey_def get_shortstatekey_def table_lookup lookup_short_def
        next_count_eq db_wf_parts pair_codec.enc_inject)
next
  fix db k k' s
  assume "db_wf db" "key_pair_ok k" "key_pair_ok k'" "lookup_short (statekey_shortstatekey db) (pair_key k) = Some s"
    "lookup_short (statekey_shortstatekey db) (pair_key k') = Some s"
  then show "k = k'" unfolding db_wf_def
    using lookup_short_inj [of "counter db" "statekey_shortstatekey db"] pair_codec.enc_inject by blast
qed

interpretation state_hashes: short_ids db_wf exhausted "\<lambda>_. True"
    "\<lambda>db. lookup_short (statehash_shortstatehash db)"
    "\<lambda>h db. map_prod fst id (get_or_create_shortstatehash h db)"
proof unfold_locales
  fix db k s assume "db_wf db" "lookup_short (statehash_shortstatehash db) k = Some s"
  then show "map_prod fst id (get_or_create_shortstatehash k db) = (s, db)"
    by (auto simp: get_or_create_shortstatehash_def db_wf_def table_lookup lookup_short_def)
next
  fix db k s db'
  assume "db_wf db" "lookup_short (statehash_shortstatehash db) k = None" "\<not> exhausted db"
    "map_prod fst id (get_or_create_shortstatehash k db) = (s, db')"
  then show "db_wf db' \<and> lookup_short (statehash_shortstatehash db') k = Some s
    \<and> (\<forall>k'. True \<longrightarrow> k' \<noteq> k \<longrightarrow> lookup_short (statehash_shortstatehash db') k' = lookup_short (statehash_shortstatehash db) k')"
    by (auto simp: get_or_create_shortstatehash_def table_lookup lookup_short_def next_count_eq db_wf_parts)
next
  fix db k k' s
  assume "db_wf db" "lookup_short (statehash_shortstatehash db) k = Some s" "lookup_short (statehash_shortstatehash db) k' = Some s"
  then show "k = k'" unfolding db_wf_def using lookup_short_inj by blast
qed

subsection \<open>Short ids and back\<close>

lemma lookup_shortD:
  "short_table c t \<Longrightarrow> lookup_short t k = Some s \<Longrightarrow> t k = Some (to_be_bytes s)"
  by (auto simp: lookup_short_def elim: short_tableE)

lemma eventid_of_short:
  assumes "db_wf db" and "lookup_short (eventid_shorteventid db) e = Some s" and "utf8_ok e" and "length e < usize_max"
  shows "get_eventid_from_short db s = Inr e"
proof -
  have "eventid_shorteventid db e = Some (to_be_bytes s)"
    using assms(1,2) lookup_shortD unfolding db_wf_def by blast
  then have "shorteventid_eventid db (to_be_bytes s) = Some e"
    using assms(1) unfolding db_wf_def inverse_tables_def by blast
  then show ?thesis using assms(3,4) by (simp add: get_eventid_from_short_def table_get_def de_text_utf8)
qed

lemma statekey_of_short:
  assumes "db_wf db" and "lookup_short (statekey_shortstatekey db) (pair_key p) = Some s" and "key_pair_ok p"
  shows "get_statekey_from_short db s = Inr p"
proof -
  have "statekey_shortstatekey db (pair_key p) = Some (to_be_bytes s)"
    using assms(1,2) lookup_shortD unfolding db_wf_def by blast
  then have "shortstatekey_statekey db (to_be_bytes s) = Some (pair_key p)"
    using assms(1) unfolding db_wf_def inverse_tables_def by blast
  then show ?thesis using assms(3) by (simp add: get_statekey_from_short_def table_get_def de_pair_pair_key)
qed

text \<open>C30. A short id leads back to the event or state key it was created for, and asking again for
  the short id gives the same number.\<close>

theorem short_id_roundtrip:
  assumes "db_wf db" and "\<not> exhausted db" and "utf8_ok e" and "length e < usize_max" and "key_pair_ok p"
  shows "(case get_or_create_shorteventid e db of (s, db') \<Rightarrow>
      get_eventid_from_short db' s = Inr e \<and> get_or_create_shorteventid e db' = (s, db'))
    \<and> (case get_or_create_shortstatekey p db of (s, db') \<Rightarrow>
      get_statekey_from_short db' s = Inr p \<and> get_or_create_shortstatekey p db' = (s, db'))"
proof -
  obtain s db' where e: "get_or_create_shorteventid e db = (s, db')" by (cases "get_or_create_shorteventid e db")
  obtain t db'' where p: "get_or_create_shortstatekey p db = (t, db'')" by (cases "get_or_create_shortstatekey p db")
  note e' = event_ids.get_or_create_wf [OF assms(1) _ assms(2) e]
  note p' = state_keys.get_or_create_wf [OF assms(1,5,2) p]
  have "get_eventid_from_short db' s = Inr e" using eventid_of_short [OF _ _ assms(3,4)] e' by simp
  moreover have "get_statekey_from_short db'' t = Inr p" using statekey_of_short [OF _ _ assms(5)] p' by simp
  ultimately show ?thesis
    using event_ids.get_or_create_stable [OF assms(1) _ assms(2) e] state_keys.get_or_create_stable [OF assms(1,5,2) p]
    by (simp add: e p)
qed

theorem short_id_roundtrip_witness:
  "(case get_or_create_shorteventid [0x24, 0x61] new_db of (s, db') \<Rightarrow> get_eventid_from_short db' s = Inr [0x24, 0x61])"
  using short_id_roundtrip [of new_db "[0x24, 0x61]" "([], [])"] new_db_wf
  by (simp add: exhausted_def new_db_def key_pair_ok_def split_def)

subsection \<open>Batches\<close>

fun get_or_create_all :: "bytes list \<Rightarrow> short_db \<Rightarrow> u64 list \<times> short_db" where
  "get_or_create_all [] db = ([], db)"
| "get_or_create_all (e # es) db =
     (case get_or_create_shorteventid e db of (s, db) \<Rightarrow>
        case get_or_create_all es db of (ss, db) \<Rightarrow> (s # ss, db))"

lemma get_or_create_all_append:
  "get_or_create_all (es @ fs) db =
     (case get_or_create_all es db of (ss, db) \<Rightarrow> case get_or_create_all fs db of (ts, db) \<Rightarrow> (ss @ ts, db))"
  by (induction es arbitrary: db) (auto simp: split_def)

definition room_left :: "nat \<Rightarrow> short_db \<Rightarrow> bool" where
  "room_left n db \<longleftrightarrow> unat (counter db) + n < 2 ^ 64"

lemma room_left_step:
  assumes "room_left (Suc n) db"
  shows "\<not> exhausted db" and "unat (counter db + 1) = unat (counter db) + 1"
proof -
  have "unat (counter db) + 1 < 2 ^ 64" using assms by (simp add: room_left_def)
  then show "unat (counter db + 1) = unat (counter db) + 1" by (simp add: unat_word_ariths)
  then show "\<not> exhausted db" by (auto simp: exhausted_def)
qed

lemma get_or_create_event_step:
  assumes "db_wf db" and "room_left (Suc n) db" and "get_or_create_shorteventid e db = (s, db')"
  shows "db_wf db'" "room_left n db'" "eventid_shorteventid db e = Some (to_be_bytes s) \<and> db' = db
      \<or> eventid_shorteventid db e = None \<and> create_shorteventid e db = (s, db')"
    "e' \<noteq> e \<Longrightarrow> eventid_shorteventid db' e' = eventid_shorteventid db e'"
proof -
  note left = room_left_step [OF assms(2)]
  show "db_wf db'" using event_ids.get_or_create_wf [OF assms(1) _ left(1) assms(3)] by simp
  have st: "short_table (counter db) (eventid_shorteventid db)" using assms(1) by (simp add: db_wf_def)
  show step: "eventid_shorteventid db e = Some (to_be_bytes s) \<and> db' = db
      \<or> eventid_shorteventid db e = None \<and> create_shorteventid e db = (s, db')"
    using assms(3) by (cases "eventid_shorteventid db e")
      (auto simp: get_or_create_shorteventid_def get_shorteventid_def table_lookup [OF st]
        short_table_bytes [OF st])
  show "room_left n db'" "e' \<noteq> e \<Longrightarrow> eventid_shorteventid db' e' = eventid_shorteventid db e'"
    using step assms(2) left by (auto simp: room_left_def create_shorteventid_def next_count_eq exhausted_def)
qed

lemma create_missing_all:
  assumes "db_wf db" and "room_left (length es) db" and "distinct es"
    and "\<forall>e \<in> set es. t e = eventid_shorteventid db e"
  shows "create_missing (map (\<lambda>e. (e, t e)) es) db = Inr (get_or_create_all es db)
    \<and> (case get_or_create_all es db of (_, db') \<Rightarrow> db_wf db')
    \<and> (\<forall>n. room_left (length es + n) db \<longrightarrow> room_left n (snd (get_or_create_all es db)))"
  using assms
proof (induction es arbitrary: db)
  case (Cons e es)
  obtain s db' where g: "get_or_create_shorteventid e db = (s, db')" by (cases "get_or_create_shorteventid e db")
  note step = get_or_create_event_step [OF Cons.prems(1) _ g]
  have left: "room_left (Suc (length es)) db" using Cons.prems(2) by simp
  have "\<forall>e \<in> set es. t e = eventid_shorteventid db' e"
    using step(4) [OF left] Cons.prems(3,4) by (metis distinct.simps(2) list.set_intros(2))
  then have IH: "create_missing (map (\<lambda>e. (e, t e)) es) db' = Inr (get_or_create_all es db')"
    "case get_or_create_all es db' of (_, db') \<Rightarrow> db_wf db'"
    "\<forall>n. room_left (length es + n) db' \<longrightarrow> room_left n (snd (get_or_create_all es db'))"
    using Cons.IH [OF step(1,2) [OF left]] Cons.prems(3) by simp_all
  have "t e = eventid_shorteventid db e" using Cons.prems(4) by simp
  then have "create_missing (map (\<lambda>e. (e, t e)) (e # es)) db = Inr (get_or_create_all (e # es) db)"
    using step(3) [OF left] IH(1) g by (auto simp: split_def)
  moreover have "room_left (length es + n) db'" if "room_left (length (e # es) + n) db" for n
    using step(2) [of "length es + n"] that by simp
  ultimately show ?case using IH(2,3) g by (simp add: split_def)
qed (simp add: room_left_def)

lemma multi_get_or_create_all:
  assumes "db_wf db" and "\<forall>chunk \<in> set chunks. distinct chunk" and "room_left (length (concat chunks)) db"
  shows "multi_get_or_create_shorteventid chunks db = Inr (get_or_create_all (concat chunks) db)
    \<and> db_wf (snd (get_or_create_all (concat chunks) db))"
  using assms
proof (induction chunks arbitrary: db)
  case (Cons chunk chunks)
  have "room_left (length chunk) db" using Cons.prems(3) by (simp add: room_left_def)
  note all = create_missing_all [OF Cons.prems(1) this, of "eventid_shorteventid db"]
  obtain ss db' where g: "get_or_create_all chunk db = (ss, db')" by (cases "get_or_create_all chunk db")
  have "multi_get_or_create_shorteventid chunks db' = Inr (get_or_create_all (concat chunks) db')
      \<and> db_wf (snd (get_or_create_all (concat chunks) db'))"
    using all Cons.prems g by (intro Cons.IH) auto
  then show ?case using all Cons.prems g by (simp add: get_or_create_all_append split_def)
qed simp

text \<open>Looking ids up a chunk at a time makes no difference: when no chunk names an event twice the batch
  returns the short ids, and leaves the tables, that asking for them one by one would.\<close>

lemma multi_get_or_create_equiv:
  assumes "db_wf db" and "\<forall>chunk \<in> set chunks. distinct chunk" and "room_left (length (concat chunks)) db"
  shows "multi_get_or_create_shorteventid chunks db = Inr (get_or_create_all (concat chunks) db)"
  using multi_get_or_create_all [OF assms] by blast

text \<open>C29. The tables stay consistent: the stored counter is the counter, every short id is a
  number between 1 and the counter, no two keys of a table share one, and the tables from short ids
  back are inverse to the tables to short ids. Looking up or creating one short id keeps this, for all
  four kinds (of a state key that is a pair of valid texts), while the counter has not run out. A batch of event ids is found or created completely and keeps it
  too, if there are enough numbers left and no chunk of it names an event twice. (A chunk that does
  gives a new event two short ids.)\<close>

theorem short_tables_invariant:
  assumes "db_wf db" and "\<not> exhausted db" and "key_pair_ok key"
  shows "db_wf (snd (get_or_create_shorteventid event_id db))
    \<and> db_wf (snd (get_or_create_shortstatekey key db))
    \<and> db_wf (snd (get_or_create_shortroomid room_id db))
    \<and> db_wf (snd (get_or_create_shortstatehash state_hash db))
    \<and> ((\<forall>chunk \<in> set chunks. distinct chunk) \<and> room_left (length (concat chunks)) db \<longrightarrow>
        (\<exists>ss db'. multi_get_or_create_shorteventid chunks db = Inr (ss, db') \<and> db_wf db'))"
proof (intro conjI impI)
  show "db_wf (snd (get_or_create_shorteventid event_id db))"
    using event_ids.get_or_create_wf [OF assms(1) _ assms(2), of event_id]
    by (cases "get_or_create_shorteventid event_id db") simp
  show "db_wf (snd (get_or_create_shortstatekey key db))"
    using state_keys.get_or_create_wf [OF assms(1,3,2)]
    by (cases "get_or_create_shortstatekey key db") simp
  show "db_wf (snd (get_or_create_shortroomid room_id db))"
    using room_ids.get_or_create_wf [OF assms(1) _ assms(2), of room_id]
    by (cases "get_or_create_shortroomid room_id db") simp
  show "db_wf (snd (get_or_create_shortstatehash state_hash db))"
    using state_hashes.get_or_create_wf [OF assms(1) _ assms(2), of state_hash]
    by (cases "get_or_create_shortstatehash state_hash db") simp
  show "\<exists>ss db'. multi_get_or_create_shorteventid chunks db = Inr (ss, db') \<and> db_wf db'"
    if "(\<forall>chunk \<in> set chunks. distinct chunk) \<and> room_left (length (concat chunks)) db"
    using multi_get_or_create_all [OF assms(1)] that by (metis prod.collapse)
qed

theorem short_tables_invariant_witness:
  "db_wf (snd (get_or_create_shorteventid [0x24] new_db))
   \<and> (\<exists>ss db'. multi_get_or_create_shorteventid [[[0x24], [0x25]], [[0x24]]] new_db = Inr (ss, db') \<and> db_wf db')"
  using short_tables_invariant [of new_db "([], [])" "[0x24]" _ _ "[[[0x24], [0x25]], [[0x24]]]"] new_db_wf
  by (simp add: exhausted_def new_db_def key_pair_ok_def room_left_def)

text \<open>A batch that names a new event twice in one chunk gives it two short ids, and the
  first of them leads back to the event but is no longer found under it.\<close>

lemma multi_get_or_create_duplicates:
  "map_sum id (\<lambda>(ss, db). (ss, get_eventid_from_short db 1, get_shorteventid db [0x24]))
     (multi_get_or_create_shorteventid [[[0x24], [0x24]]] new_db)
   = Inr ([1, 2], Inr [0x24], Inr 2)"
  by (simp add: new_db_def create_shorteventid_def next_count_def get_eventid_from_short_def
      table_get_def de_text_utf8 get_shorteventid_def)

end
