(* ===== verification/StateCompressor.thy ===== *)
theory StateCompressor
  imports Short
begin

text \<open>
  The state compressor, \<open>src/src/service/rooms/state_compressor/mod.rs\<close>: a room state is a set
  of 16-byte entries (a short state key and a short event id), stored as a difference to the
  state of a parent, in at most four layers.

  The cache of loaded states is an \<open>LruCache\<close> of a third-party crate; its operations are fields of
  the record \<open>lru\<close>, an argument of the definitions, and \<open>lru_ok\<close> states what they rely on. The
  hash function \<open>sha\<close> is an argument too. Loading follows the parents of a state; its recursion
  is bounded by fuel, of which one unit per layer is enough. A \<open>BTreeSet\<close> is a finite set, walked in
  ascending order.
\<close>

subsection \<open>Checked arithmetic\<close>

definition checked_add_usize :: "nat \<Rightarrow> nat \<Rightarrow> service_error + nat" where
  "checked_add_usize a b = (if a + b \<le> usize_max then Inr (a + b) else Inl ArithmeticErr)"

definition checked_mul_usize :: "nat \<Rightarrow> nat \<Rightarrow> service_error + nat" where
  "checked_mul_usize a b = (if a * b \<le> usize_max then Inr (a * b) else Inl ArithmeticErr)"

lemma checked_usize_code [code]:
  "checked_add_usize a b = (if int a + int b \<le> 18446744073709551615 then Inr (a + b) else Inl ArithmeticErr)"
  "checked_mul_usize a b = (if int a * int b \<le> 18446744073709551615 then Inr (a * b) else Inl ArithmeticErr)"
proof -
  have "a + b \<le> usize_max \<longleftrightarrow> int a + int b \<le> 18446744073709551615"
    using of_nat_le_iff [of "a + b" 18446744073709551615, where 'a = int] by simp
  moreover have "a * b \<le> usize_max \<longleftrightarrow> int a * int b \<le> 18446744073709551615"
    by (simp flip: of_nat_mult)
  ultimately show
    "checked_add_usize a b = (if int a + int b \<le> 18446744073709551615 then Inr (a + b) else Inl ArithmeticErr)"
    "checked_mul_usize a b = (if int a * int b \<le> 18446744073709551615 then Inr (a * b) else Inl ArithmeticErr)"
    by (simp_all add: checked_add_usize_def checked_mul_usize_def)
qed

subsection \<open>State\<close>

type_synonym compressed_state = "bytes set"

record state_diff =
  sd_parent :: "u64 option"
  sd_added :: compressed_state
  sd_removed :: compressed_state

record short_state_info =
  si_shortstatehash :: u64
  si_full_state :: compressed_state
  si_added :: compressed_state
  si_removed :: compressed_state

record hash_set_compress_state_event =
  hs_shortstatehash :: u64
  hs_added :: compressed_state
  hs_removed :: compressed_state

record ('k, 'v, 'l) lru =
  lru_get :: "'k \<Rightarrow> 'l \<Rightarrow> 'v option \<times> 'l"
  lru_insert :: "'k \<Rightarrow> 'v \<Rightarrow> 'l \<Rightarrow> 'l"

type_synonym 'l state_lru = "(u64, short_state_info list, 'l) lru"

record 'l compressor =
  stateinfo_cache :: 'l
  shortstatehash_statediff :: table

subsection \<open>Entries\<close>

definition compress_state_event :: "u64 \<Rightarrow> u64 \<Rightarrow> bytes" where
  "compress_state_event shortstatekey shorteventid = to_be_bytes shortstatekey @ to_be_bytes shorteventid"

definition parse_compressed_state_event :: "bytes \<Rightarrow> u64 \<times> u64" where
  "parse_compressed_state_event compressed_event =
     (from_be_bytes (take 8 compressed_event), from_be_bytes (drop 8 compressed_event))"

definition compress_state_event_id :: "u64 \<Rightarrow> bytes \<Rightarrow> short_db \<Rightarrow> bytes \<times> short_db" where
  "compress_state_event_id shortstatekey event_id db =
     (case get_or_create_shorteventid event_id db of (shorteventid, db) \<Rightarrow>
        (compress_state_event shortstatekey shorteventid, db))"

definition compress_state_events ::
  "u64 list \<Rightarrow> bytes list list \<Rightarrow> short_db \<Rightarrow> service_error + bytes list \<times> short_db" where
  "compress_state_events shortstatekeys event_id_chunks db =
     bindR (multi_get_or_create_shorteventid event_id_chunks db) (\<lambda>(shorteventids, db).
       Inr (map (\<lambda>(k, e). compress_state_event k e) (zip shortstatekeys shorteventids), db))"

subsection \<open>Stored differences\<close>

definition statediff_value :: "state_diff \<Rightarrow> bytes" where
  "statediff_value diff =
     to_be_bytes (case sd_parent diff of Some p \<Rightarrow> p | None \<Rightarrow> 0)
     @ concat (sorted_list_of_set (sd_added diff))
     @ (if sd_removed diff \<noteq> {}
        then to_be_bytes 0 @ concat (sorted_list_of_set (sd_removed diff)) else [])"

definition save_statediff :: "u64 \<Rightarrow> state_diff \<Rightarrow> 'l compressor \<Rightarrow> 'l compressor" where
  "save_statediff shortstatehash diff st =
     st\<lparr>shortstatehash_statediff :=
          (shortstatehash_statediff st)(to_be_bytes shortstatehash \<mapsto> statediff_value diff)\<rparr>"

text \<open>The loop over the 16-byte entries from position \<open>i\<close>.\<close>

function statediff_loop ::
  "bytes \<Rightarrow> nat \<Rightarrow> bool \<Rightarrow> compressed_state \<Rightarrow> compressed_state \<Rightarrow> compressed_state \<times> compressed_state" where
  "statediff_loop value i add_mode added removed =
     (if i + 16 \<le> length value then
        (let v = take 16 (drop i value)
         in if add_mode \<and> take 8 v = to_be_bytes 0
              then statediff_loop value (i + 8) False added removed
            else if add_mode then statediff_loop value (i + 16) add_mode (insert v added) removed
            else statediff_loop value (i + 16) add_mode added (insert v removed))
      else (added, removed))"
  by pat_completeness auto
termination
  by (relation "measure (\<lambda>(value, i, _). length value - i)") auto

declare statediff_loop.simps [simp del]

definition get_statediff :: "'l compressor \<Rightarrow> u64 \<Rightarrow> service_error + state_diff" where
  "get_statediff st shortstatehash =
     (case shortstatehash_statediff st (to_be_bytes shortstatehash) of
        None \<Rightarrow> Inl (DatabaseErr ''Failed to find StateDiff from short'')
      | Some value \<Rightarrow>
          (if length value < 8 then Inl (PanicErr ''slice out of range'')
           else
             (let p = from_be_bytes (take 8 value)
              in case statediff_loop value 8 True {} {} of (added, removed) \<Rightarrow>
                   Inr \<lparr>sd_parent = (if p \<noteq> 0 then Some p else None), sd_added = added,
                     sd_removed = removed\<rparr>)))"

subsection \<open>Loading a state\<close>

fun load_shortstatehash_info ::
  "'l state_lru \<Rightarrow> nat \<Rightarrow> u64 \<Rightarrow> 'l compressor \<Rightarrow> (service_error + short_state_info list) \<times> 'l compressor"
and new_shortstatehash_info ::
  "'l state_lru \<Rightarrow> nat \<Rightarrow> u64 \<Rightarrow> 'l compressor \<Rightarrow> (service_error + short_state_info list) \<times> 'l compressor" where
  "load_shortstatehash_info L 0 shortstatehash st = (Inl FuelErr, st)"
| "load_shortstatehash_info L (Suc fuel) shortstatehash st =
     (case lru_get L shortstatehash (stateinfo_cache st) of
        (Some r, c) \<Rightarrow> (Inr r, st\<lparr>stateinfo_cache := c\<rparr>)
      | (None, c) \<Rightarrow>
          (case new_shortstatehash_info L fuel shortstatehash (st\<lparr>stateinfo_cache := c\<rparr>) of
             (Inl e, st) \<Rightarrow> (Inl e, st)
           | (Inr stack, st) \<Rightarrow>
               (Inr stack, st\<lparr>stateinfo_cache := lru_insert L shortstatehash stack (stateinfo_cache st)\<rparr>)))"
| "new_shortstatehash_info L fuel shortstatehash st =
     (case get_statediff st shortstatehash of
        Inl e \<Rightarrow> (Inl e, st)
      | Inr diff \<Rightarrow>
          (case sd_parent diff of
             None \<Rightarrow>
               (Inr [\<lparr>si_shortstatehash = shortstatehash, si_full_state = sd_added diff,
                  si_added = sd_added diff, si_removed = sd_removed diff\<rparr>], st)
           | Some parent \<Rightarrow>
               (case load_shortstatehash_info L fuel parent st of
                  (Inl e, st) \<Rightarrow> (Inl e, st)
                | (Inr stack, st) \<Rightarrow>
                    (if stack = [] then (Inl (PanicErr ''at least one frame''), st)
                     else
                       (let full_state = (si_full_state (last stack) \<union> sd_added diff) - sd_removed diff
                        in (Inr (stack @ [\<lparr>si_shortstatehash = shortstatehash, si_full_state = full_state,
                              si_added = sd_added diff, si_removed = sd_removed diff\<rparr>]), st))))))"

subsection \<open>Saving a state\<close>

text \<open>Combining a difference with that of the parent layer it is to replace.\<close>

definition drop_removed :: "bytes \<Rightarrow> compressed_state \<times> compressed_state \<Rightarrow> compressed_state \<times> compressed_state" where
  "drop_removed r p = (case p of (parent_new, parent_removed) \<Rightarrow>
     if r \<in> parent_new then (parent_new - {r}, parent_removed) else (parent_new, insert r parent_removed))"

definition add_new :: "bytes \<Rightarrow> compressed_state \<times> compressed_state \<Rightarrow> compressed_state \<times> compressed_state" where
  "add_new n p = (case p of (parent_new, parent_removed) \<Rightarrow>
     if n \<in> parent_removed then (parent_new, parent_removed - {n}) else (insert n parent_new, parent_removed))"

definition merge_diff ::
  "compressed_state \<Rightarrow> compressed_state \<Rightarrow> short_state_info \<Rightarrow> compressed_state \<times> compressed_state" where
  "merge_diff statediffnew statediffremoved parent =
     fold add_new (sorted_list_of_set statediffnew)
       (fold drop_removed (sorted_list_of_set statediffremoved) (si_added parent, si_removed parent))"

function save_state_from_diff ::
  "u64 \<Rightarrow> compressed_state \<Rightarrow> compressed_state \<Rightarrow> nat \<Rightarrow> short_state_info list \<Rightarrow> 'l compressor
   \<Rightarrow> service_error + 'l compressor" where
  "save_state_from_diff shortstatehash statediffnew statediffremoved diff_to_sibling parent_states st =
     bindR (checked_add_usize (card statediffnew) (card statediffremoved)) (\<lambda>diffsum.
       if 3 < length parent_states then
         (case merge_diff statediffnew statediffremoved (last parent_states) of (parent_new, parent_removed) \<Rightarrow>
            save_state_from_diff shortstatehash parent_new parent_removed diffsum (butlast parent_states) st)
       else if parent_states = [] then
         Inr (save_statediff shortstatehash
           \<lparr>sd_parent = None, sd_added = statediffnew, sd_removed = statediffremoved\<rparr> st)
       else
         (let parent = last parent_states
          in bindR (checked_add_usize (card (si_added parent)) (card (si_removed parent))) (\<lambda>parent_diff.
             bindR (checked_mul_usize diffsum diffsum) (\<lambda>square.
             bindR (bindR (checked_mul_usize 2 diff_to_sibling) (\<lambda>d. checked_mul_usize d parent_diff)) (\<lambda>bound.
               if bound \<le> square then
                 (case merge_diff statediffnew statediffremoved parent of (parent_new, parent_removed) \<Rightarrow>
                    save_state_from_diff shortstatehash parent_new parent_removed diffsum
                      (butlast parent_states) st)
               else
                 Inr (save_statediff shortstatehash
                   \<lparr>sd_parent = Some (si_shortstatehash parent), sd_added = statediffnew,
                    sd_removed = statediffremoved\<rparr> st))))))"
  by pat_completeness auto
termination
  by (relation "measure (\<lambda>(_, _, _, _, ps, _). length ps)") auto

declare save_state_from_diff.simps [simp del]

text \<open>
  The stores that the services of a room's state share. The keys of \<open>roomid_pduleaves\<close> are iterated,
  so this table is the list of its entries.
\<close>

record 'l rooms_db =
  short :: short_db
  state_compressor :: "'l compressor"
  roomid_shortstatehash :: table
  shorteventid_shortstatehash :: table
  roomid_pduleaves :: "(bytes \<times> bytes) list"

definition get_room_shortstatehash :: "'l rooms_db \<Rightarrow> bytes \<Rightarrow> service_error + u64" where
  "get_room_shortstatehash db room_id = bindR (table_get (roomid_shortstatehash db) room_id) de_u64"

text \<open>SHA-256 over the inputs joined by \<open>0xFF\<close> bytes.\<close>

definition calculate_hash :: "(bytes \<Rightarrow> bytes) \<Rightarrow> bytes list \<Rightarrow> bytes" where
  "calculate_hash sha inputs = sha (sep_join inputs)"

text \<open>The layers of the room's previous state, none where they cannot be loaded.\<close>

definition load_states_parents ::
  "'l state_lru \<Rightarrow> nat \<Rightarrow> u64 option \<Rightarrow> 'l rooms_db \<Rightarrow> short_state_info list \<times> 'l rooms_db" where
  "load_states_parents L fuel previous_shortstatehash db =
     (case previous_shortstatehash of
        Some p \<Rightarrow>
          (case load_shortstatehash_info L fuel p (state_compressor db) of
             (Inr stack, st) \<Rightarrow> (stack, db\<lparr>state_compressor := st\<rparr>)
           | (Inl _, st) \<Rightarrow> ([], db\<lparr>state_compressor := st\<rparr>))
      | None \<Rightarrow> ([], db))"

definition save_state ::
  "'l state_lru \<Rightarrow> (bytes \<Rightarrow> bytes) \<Rightarrow> nat \<Rightarrow> bytes \<Rightarrow> compressed_state \<Rightarrow> 'l rooms_db
   \<Rightarrow> (service_error + hash_set_compress_state_event) \<times> 'l rooms_db" where
  "save_state L sha fuel room_id new_state db =
     (let previous_shortstatehash =
            (case get_room_shortstatehash db room_id of Inr p \<Rightarrow> Some p | Inl _ \<Rightarrow> None);
          state_hash = calculate_hash sha (sorted_list_of_set new_state)
      in case get_or_create_shortstatehash state_hash (short db) of
           ((new_shortstatehash, already_existed), sdb) \<Rightarrow>
      (let db = db\<lparr>short := sdb\<rparr>
       in if Some new_shortstatehash = previous_shortstatehash then
            (Inr \<lparr>hs_shortstatehash = new_shortstatehash, hs_added = {}, hs_removed = {}\<rparr>, db)
          else
            (case load_states_parents L fuel previous_shortstatehash db of (states_parents, db) \<Rightarrow>
             (case (if states_parents \<noteq> [] then
                      (new_state - si_full_state (last states_parents),
                       si_full_state (last states_parents) - new_state)
                    else (new_state, {})) of (statediffnew, statediffremoved) \<Rightarrow>
                (case (if \<not> already_existed then
                         save_state_from_diff new_shortstatehash statediffnew statediffremoved 2
                           states_parents (state_compressor db)
                       else Inr (state_compressor db)) of
                   Inl e \<Rightarrow> (Inl e, db)
                 | Inr st \<Rightarrow>
                     (Inr \<lparr>hs_shortstatehash = new_shortstatehash, hs_added = statediffnew,
                        hs_removed = statediffremoved\<rparr>, db\<lparr>state_compressor := st\<rparr>))))))"

subsection \<open>Entries and differences can be read back\<close>

text \<open>A compressed entry is the pair of short ids it was made from.\<close>

lemma compressed_event_roundtrip:
  "parse_compressed_state_event (compress_state_event k e) = (k, e)"
  by (simp add: parse_compressed_state_event_def compress_state_event_def)

definition entry_ok :: "bytes \<Rightarrow> bool" where
  "entry_ok e \<longleftrightarrow> length e = 16 \<and> take 8 e \<noteq> to_be_bytes 0"

definition entries_ok :: "compressed_state \<Rightarrow> bool" where
  "entries_ok A \<longleftrightarrow> finite A \<and> (\<forall>e \<in> A. entry_ok e)"

definition diff_ok :: "state_diff \<Rightarrow> bool" where
  "diff_ok d \<longleftrightarrow> entries_ok (sd_added d) \<and> entries_ok (sd_removed d) \<and> sd_parent d \<noteq> Some 0"

lemma loop_removed:
  assumes "\<forall>e \<in> set es. length e = 16"
  shows "statediff_loop (pre @ concat es) (length pre) False A R = (A, R \<union> set es)"
  using assms
proof (induction es arbitrary: pre R)
  case Nil
  then show ?case by (subst statediff_loop.simps) simp
next
  case (Cons e es)
  have "statediff_loop (pre @ concat (e # es)) (length pre) False A R
      = statediff_loop ((pre @ e) @ concat es) (length (pre @ e)) False A (insert e R)"
    using Cons.prems by (subst statediff_loop.simps) (simp add: Let_def)
  then show ?case using Cons.IH [of "pre @ e" "insert e R"] Cons.prems by simp
qed

lemma loop_added:
  assumes "\<forall>e \<in> set es. entry_ok e"
  shows "statediff_loop (pre @ concat es @ tail) (length pre) True A R
    = statediff_loop (pre @ concat es @ tail) (length (pre @ concat es)) True (A \<union> set es) R"
  using assms
proof (induction es arbitrary: pre A)
  case (Cons e es)
  have "statediff_loop (pre @ concat (e # es) @ tail) (length pre) True A R
      = statediff_loop ((pre @ e) @ concat es @ tail) (length (pre @ e)) True (insert e A) R"
    using Cons.prems by (subst statediff_loop.simps) (simp add: Let_def entry_ok_def)
  then show ?case using Cons.IH [of "pre @ e" "insert e A"] Cons.prems by (simp add: add.assoc)
qed simp

lemma loop_tail:
  assumes "rs \<noteq> []" and "\<forall>e \<in> set rs. length e = 16"
  shows "statediff_loop (pre @ to_be_bytes 0 @ concat rs) (length pre) True A R = (A, R \<union> set rs)"
proof -
  have "16 \<le> length (concat rs)" using assms by (cases rs) simp_all
  then have "statediff_loop (pre @ to_be_bytes 0 @ concat rs) (length pre) True A R
      = statediff_loop ((pre @ to_be_bytes 0) @ concat rs) (length (pre @ to_be_bytes 0)) False A R"
    by (subst statediff_loop.simps) (simp add: Let_def)
  then show ?thesis using loop_removed [OF assms(2), of "pre @ to_be_bytes 0" A R] by simp
qed

lemma statediff_loop_value:
  assumes "diff_ok d"
  shows "statediff_loop (statediff_value d) 8 True {} {} = (sd_added d, sd_removed d)"
proof -
  let ?p = "to_be_bytes (case sd_parent d of Some p \<Rightarrow> p | None \<Rightarrow> 0)"
  let ?as = "sorted_list_of_set (sd_added d)" and ?rs = "sorted_list_of_set (sd_removed d)"
  let ?tail = "if sd_removed d \<noteq> {} then to_be_bytes 0 @ concat ?rs else []"
  have fin: "finite (sd_added d)" "finite (sd_removed d)" using assms by (simp_all add: diff_ok_def entries_ok_def)
  have ok: "\<forall>e \<in> set ?as. entry_ok e" "\<forall>e \<in> set ?rs. length e = 16"
    using assms fin by (auto simp: diff_ok_def entries_ok_def entry_ok_def)
  have "statediff_loop (statediff_value d) 8 True {} {}
      = statediff_loop (?p @ concat ?as @ ?tail) (length ?p) True {} {}"
    by (simp add: statediff_value_def)
  also have "\<dots> = statediff_loop ((?p @ concat ?as) @ ?tail) (length (?p @ concat ?as)) True (sd_added d) {}"
    using loop_added [OF ok(1), of ?p ?tail "{}" "{}"] fin(1) by simp
  also have "\<dots> = (sd_added d, sd_removed d)"
  proof (cases "sd_removed d = {}")
    case True
    then show ?thesis by (subst statediff_loop.simps) simp
  next
    case False
    then have "?rs \<noteq> []" using fin(2) by simp
    from loop_tail [OF this ok(2), of "?p @ concat ?as" "sd_added d" "{}"] show ?thesis
      using False fin(2) by simp
  qed
  finally show ?thesis .
qed

lemma statediff_get:
  assumes "diff_ok d"
  shows "get_statediff (save_statediff h d st) h' = (if h' = h then Inr d else get_statediff st h')"
proof (cases "h' = h")
  case True
  have "from_be_bytes (take 8 (statediff_value d)) = (case sd_parent d of Some p \<Rightarrow> p | None \<Rightarrow> 0)"
    by (simp add: statediff_value_def)
  moreover have "\<not> length (statediff_value d) < 8" by (simp add: statediff_value_def)
  ultimately show ?thesis
    using True assms by (cases d) (auto simp: get_statediff_def save_statediff_def statediff_loop_value Let_def diff_ok_def
        split: option.split)
next
  case False
  then show ?thesis by (simp add: get_statediff_def save_statediff_def)
qed

text \<open>A stored difference is read back as it was written, and storing it leaves the
  differences of other states alone.\<close>

lemma statediff_roundtrip:
  assumes "diff_ok d"
  shows "get_statediff (save_statediff h d st) h' = (if h' = h then Inr d else get_statediff st h')"
  by (rule statediff_get [OF assms])

subsection \<open>The layers of a stored state\<close>

text \<open>The stack of layers a short state hash stands for.\<close>

inductive layers :: "'l compressor \<Rightarrow> u64 \<Rightarrow> short_state_info list \<Rightarrow> bool" for st where
  layer_bottom: "get_statediff st h = Inr d \<Longrightarrow> sd_parent d = None \<Longrightarrow>
    layers st h [\<lparr>si_shortstatehash = h, si_full_state = sd_added d, si_added = sd_added d,
      si_removed = sd_removed d\<rparr>]"
| layer_above: "get_statediff st h = Inr d \<Longrightarrow> sd_parent d = Some p \<Longrightarrow> layers st p stack \<Longrightarrow>
    layers st h (stack @ [\<lparr>si_shortstatehash = h,
      si_full_state = (si_full_state (last stack) \<union> sd_added d) - sd_removed d,
      si_added = sd_added d, si_removed = sd_removed d\<rparr>])"

inductive_cases layers_casesE: "layers st h stack"

lemma layers_last: "layers st h stack \<Longrightarrow> stack \<noteq> [] \<and> si_shortstatehash (last stack) = h"
  by (induction rule: layers.induct) simp_all

lemma layers_stored: "layers st h s \<Longrightarrow> \<exists>d. get_statediff st h = Inr d"
  by (erule layers_casesE) auto

lemma layers_unique: "layers st h s \<Longrightarrow> layers st h t \<Longrightarrow> s = t"
proof (induction arbitrary: t rule: layers.induct)
  case (layer_bottom h d)
  from layer_bottom(3) show ?case by (rule layers_casesE) (use layer_bottom(1,2) in simp_all)
next
  case (layer_above h d p stack)
  from layer_above(5) show ?case
  proof (rule layers_casesE)
    fix d' p' stack' assume "get_statediff st h = Inr d'" "sd_parent d' = Some p'" "layers st p' stack'"
      and t: "t = stack' @ [\<lparr>si_shortstatehash = h,
        si_full_state = (si_full_state (last stack') \<union> sd_added d') - sd_removed d',
        si_added = sd_added d', si_removed = sd_removed d'\<rparr>]"
    then have "d' = d" "stack = stack'" using layer_above(1,2,4) by simp_all
    then show ?thesis using t by simp
  qed (use layer_above(1,2) in simp)
qed

lemma layers_mono:
  assumes "layers st h s" and "\<And>h d. get_statediff st h = Inr d \<Longrightarrow> get_statediff st' h = Inr d"
  shows "layers st' h s"
  using assms(1) by (induction rule: layers.induct) (auto intro: layers.intros assms(2))

lemma get_statediff_cache [simp]: "get_statediff (st\<lparr>stateinfo_cache := c\<rparr>) h = get_statediff st h"
  by (simp add: get_statediff_def)

lemma layers_cache [simp]: "layers (st\<lparr>stateinfo_cache := c\<rparr>) h s = layers st h s"
  by (auto elim: layers_mono)

text \<open>The layer below the top.\<close>

lemma layers_butlast:
  assumes "layers st h s" and "butlast s \<noteq> []"
  shows "layers st (si_shortstatehash (last (butlast s))) (butlast s)"
  using assms(1)
proof (rule layers_casesE)
  fix d p stack assume "layers st p stack" "s = stack @ [\<lparr>si_shortstatehash = h,
      si_full_state = (si_full_state (last stack) \<union> sd_added d) - sd_removed d,
      si_added = sd_added d, si_removed = sd_removed d\<rparr>]"
  then show ?thesis using layers_last by fastforce
qed (use assms(2) in simp)

subsection \<open>Loading\<close>

text \<open>
  What loading relies on of the cache: looking a key up does not change what is found, and after an
  insertion a key holds nothing, or the inserted value, or what it held before.
\<close>

definition lru_ok :: "('k, 'v, 'l) lru \<Rightarrow> bool" where
  "lru_ok L \<longleftrightarrow>
     (\<forall>h k c. fst (lru_get L k (snd (lru_get L h c))) = fst (lru_get L k c))
     \<and> (\<forall>h k v c. fst (lru_get L k (lru_insert L h v c)) = None
          \<or> fst (lru_get L k (lru_insert L h v c)) = (if k = h then Some v else fst (lru_get L k c)))"

definition cache_ok :: "'l state_lru \<Rightarrow> 'l compressor \<Rightarrow> bool" where
  "cache_ok L st \<longleftrightarrow> (\<forall>h r. fst (lru_get L h (stateinfo_cache st)) = Some r \<longrightarrow> layers st h r)"

lemma cache_ok_get:
  "lru_ok L \<Longrightarrow> cache_ok L (st\<lparr>stateinfo_cache := c\<rparr>) \<Longrightarrow> cache_ok L (st\<lparr>stateinfo_cache := snd (lru_get L h c)\<rparr>)"
  by (simp add: cache_ok_def lru_ok_def)

lemma cache_ok_insert:
  assumes "lru_ok L" and "cache_ok L (st\<lparr>stateinfo_cache := c\<rparr>)" and "layers st h s"
  shows "cache_ok L (st\<lparr>stateinfo_cache := lru_insert L h s c\<rparr>)"
proof -
  have "layers st k r" if r: "fst (lru_get L k (lru_insert L h s c)) = Some r" for k r
  proof (cases "k = h")
    case True
    then have "r = s" using assms(1) r unfolding lru_ok_def by (metis option.distinct(1) option.inject)
    then show ?thesis using True assms(3) by simp
  next
    case False
    then have "fst (lru_get L k c) = Some r" using assms(1) r unfolding lru_ok_def by (metis option.distinct(1))
    then show ?thesis using assms(2) by (simp add: cache_ok_def)
  qed
  then show ?thesis by (simp add: cache_ok_def)
qed

lemma load_cached:
  assumes "lru_ok L" and "cache_ok L (st\<lparr>stateinfo_cache := c\<rparr>)" and "layers st h s"
    and "\<And>c. cache_ok L (st\<lparr>stateinfo_cache := c\<rparr>) \<Longrightarrow> \<exists>c'. new_shortstatehash_info L fuel h (st\<lparr>stateinfo_cache := c\<rparr>)
      = (Inr s, st\<lparr>stateinfo_cache := c'\<rparr>) \<and> cache_ok L (st\<lparr>stateinfo_cache := c'\<rparr>)"
  shows "\<exists>c'. load_shortstatehash_info L (Suc fuel) h (st\<lparr>stateinfo_cache := c\<rparr>)
      = (Inr s, st\<lparr>stateinfo_cache := c'\<rparr>) \<and> cache_ok L (st\<lparr>stateinfo_cache := c'\<rparr>)"
proof (cases "lru_get L h c")
  case (Pair found c1)
  have c1: "cache_ok L (st\<lparr>stateinfo_cache := c1\<rparr>)" using cache_ok_get [OF assms(1,2), of h] Pair by simp
  show ?thesis
  proof (cases found)
    case (Some r)
    then have "layers st h r" using assms(2) Pair by (simp add: cache_ok_def)
    then have "r = s" using layers_unique assms(3) by blast
    then show ?thesis using Some Pair c1 by auto
  next
    case None
    obtain c2 where c2: "new_shortstatehash_info L fuel h (st\<lparr>stateinfo_cache := c1\<rparr>) = (Inr s, st\<lparr>stateinfo_cache := c2\<rparr>)"
      "cache_ok L (st\<lparr>stateinfo_cache := c2\<rparr>)" using assms(4) [OF c1] by blast
    have "cache_ok L (st\<lparr>stateinfo_cache := lru_insert L h s c2\<rparr>)"
      by (rule cache_ok_insert [OF assms(1) c2(2) assms(3)])
    then show ?thesis using None Pair c2(1) by auto
  qed
qed

lemma load_layers:
  assumes "layers st h s" and "lru_ok L" and "cache_ok L (st\<lparr>stateinfo_cache := c\<rparr>)" and "length s \<le> fuel"
  shows "\<exists>c'. load_shortstatehash_info L fuel h (st\<lparr>stateinfo_cache := c\<rparr>) = (Inr s, st\<lparr>stateinfo_cache := c'\<rparr>)
    \<and> cache_ok L (st\<lparr>stateinfo_cache := c'\<rparr>)"
  using assms
proof (induction arbitrary: c fuel rule: layers.induct)
  case (layer_bottom h d)
  then obtain n where n: "fuel = Suc n" by (cases fuel) simp_all
  let ?s = "[\<lparr>si_shortstatehash = h, si_full_state = sd_added d, si_added = sd_added d, si_removed = sd_removed d\<rparr>]"
  have "\<exists>c'. new_shortstatehash_info L n h (st\<lparr>stateinfo_cache := c\<rparr>) = (Inr ?s, st\<lparr>stateinfo_cache := c'\<rparr>)
      \<and> cache_ok L (st\<lparr>stateinfo_cache := c'\<rparr>)" if "cache_ok L (st\<lparr>stateinfo_cache := c\<rparr>)" for c
    using that layer_bottom.hyps by auto
  from load_cached [OF layer_bottom.prems(1,2) layers.layer_bottom [OF layer_bottom.hyps] this]
  show ?case unfolding n .
next
  case (layer_above h d p stack)
  then obtain n where n: "fuel = Suc n" "length stack \<le> n" by (cases fuel) simp_all
  let ?s = "stack @ [\<lparr>si_shortstatehash = h,
      si_full_state = (si_full_state (last stack) \<union> sd_added d) - sd_removed d,
      si_added = sd_added d, si_removed = sd_removed d\<rparr>]"
  have "\<exists>c'. new_shortstatehash_info L n h (st\<lparr>stateinfo_cache := c\<rparr>) = (Inr ?s, st\<lparr>stateinfo_cache := c'\<rparr>)
      \<and> cache_ok L (st\<lparr>stateinfo_cache := c'\<rparr>)" if c: "cache_ok L (st\<lparr>stateinfo_cache := c\<rparr>)" for c
  proof -
    obtain c' where c': "load_shortstatehash_info L n p (st\<lparr>stateinfo_cache := c\<rparr>) = (Inr stack, st\<lparr>stateinfo_cache := c'\<rparr>)"
      "cache_ok L (st\<lparr>stateinfo_cache := c'\<rparr>)" using layer_above.IH [OF layer_above.prems(1) c n(2)] by blast
    moreover have "stack \<noteq> []" using layers_last [OF layer_above.hyps(3)] by simp
    ultimately show ?thesis using layer_above.hyps(1,2) by (auto simp: Let_def)
  qed
  from load_cached [OF layer_above.prems(1,2) layers.layer_above [OF layer_above.hyps] this]
  show ?case unfolding n(1) .
qed

subsection \<open>Saving\<close>

lemma fold_drop_removed:
  "fold drop_removed rs (A, R) = (A - set rs, R \<union> (set rs - A))" if "distinct rs"
  using that
proof (induction rs arbitrary: A R)
  case (Cons r rs)
  then show ?case by (cases "r \<in> A") (auto simp: drop_removed_def)
qed simp

lemma fold_add_new:
  "fold add_new ns (A, R) = (A \<union> (set ns - R), R - set ns)" if "distinct ns"
  using that
proof (induction ns arbitrary: A R)
  case (Cons n ns)
  then show ?case by (cases "n \<in> R") (auto simp: add_new_def)
qed simp

lemma merge_diff_eq:
  assumes "finite N" and "finite D"
  shows "merge_diff N D p = (si_added p - D \<union> (N - (si_removed p \<union> (D - si_added p))),
    (si_removed p \<union> (D - si_added p)) - N)"
  using assms by (simp add: merge_diff_def fold_drop_removed fold_add_new)

text \<open>
  Layers whose differences are exact: nothing is added that the layer below has, and nothing
  removed that it has not.
\<close>

fun exact_layers :: "compressed_state \<Rightarrow> short_state_info list \<Rightarrow> bool" where
  "exact_layers G [] = True"
| "exact_layers G (i # is) \<longleftrightarrow> si_added i \<inter> G = {} \<and> si_removed i \<subseteq> G
     \<and> si_full_state i = (G \<union> si_added i) - si_removed i \<and> exact_layers (si_full_state i) is"

definition top_state :: "short_state_info list \<Rightarrow> compressed_state" where
  "top_state ps = (if ps = [] then {} else si_full_state (last ps))"

lemma exact_layers_append:
  "exact_layers G (ps @ qs) \<longleftrightarrow> exact_layers G ps \<and> exact_layers (if ps = [] then G else si_full_state (last ps)) qs"
  by (induction ps arbitrary: G) auto

lemma exact_layers_snoc:
  "exact_layers {} (ps @ [i]) \<longleftrightarrow> exact_layers {} ps \<and> si_added i \<inter> top_state ps = {}
     \<and> si_removed i \<subseteq> top_state ps \<and> si_full_state i = (top_state ps \<union> si_added i) - si_removed i"
  by (simp add: exact_layers_append top_state_def)

text \<open>Merging a difference into the layer below keeps it exact and does not change its effect.\<close>

lemma merge_exact:
  assumes "A \<inter> G = {}" and "R \<subseteq> G" and "F = (G \<union> A) - R" and "N \<inter> F = {}" and "D \<subseteq> F"
    and "A' = A - D \<union> (N - (R \<union> (D - A)))" and "R' = (R \<union> (D - A)) - N"
  shows "A' \<inter> G = {}" and "R' \<subseteq> G" and "(G \<union> A') - R' = (F \<union> N) - D"
  using assms by blast+

lemma merge_card:
  assumes "finite A" and "finite R" and "finite N" and "finite D"
    and "A' = A - D \<union> (N - (R \<union> (D - A)))" and "R' = (R \<union> (D - A)) - N"
  shows "card A' + card R' \<le> card A + card R + card N + card D"
proof -
  have "card A' \<le> card A + card N"
    unfolding assms(5) using card_mono [OF assms(1), of "A - D"]
      card_mono [OF assms(3), of "N - (R \<union> (D - A))"] card_Un_le [of "A - D" "N - (R \<union> (D - A))"] by force
  moreover have "card R' \<le> card R + card D"
  proof -
    have "card R' \<le> card (R \<union> D)" unfolding assms(6) by (rule card_mono) (use assms(2,4) in auto)
    then show ?thesis using card_Un_le [of R D] by linarith
  qed
  ultimately show ?thesis by linarith
qed

definition layer_size :: "short_state_info \<Rightarrow> nat" where
  "layer_size i = card (si_added i) + card (si_removed i)"

definition layer_ok :: "short_state_info \<Rightarrow> bool" where
  "layer_ok i \<longleftrightarrow> entries_ok (si_added i) \<and> entries_ok (si_removed i) \<and> si_shortstatehash i \<noteq> 0"

text \<open>A stack of layers that is stored, exact and not too big for the size comparisons.\<close>

definition stored_layers :: "'l compressor \<Rightarrow> short_state_info list \<Rightarrow> bool" where
  "stored_layers st ps \<longleftrightarrow> exact_layers {} ps \<and> (\<forall>i \<in> set ps. layer_ok i)
     \<and> (ps \<noteq> [] \<longrightarrow> layers st (si_shortstatehash (last ps)) ps)"

lemma stored_layers_butlast:
  assumes "stored_layers st ps"
  shows "stored_layers st (butlast ps)"
proof (cases "ps = []")
  case False
  then have ps: "ps = butlast ps @ [last ps]" by simp
  have "exact_layers {} (butlast ps)"
    using assms ps exact_layers_snoc [of "butlast ps" "last ps"] by (simp add: stored_layers_def)
  moreover have "\<forall>i \<in> set (butlast ps). layer_ok i" using assms by (auto simp: stored_layers_def dest: in_set_butlastD)
  ultimately show ?thesis using assms layers_butlast False by (auto simp: stored_layers_def)
qed (simp add: stored_layers_def)

lemma save_layer:
  assumes "stored_layers st ps" and "entries_ok N" and "entries_ok D" and "N \<inter> top_state ps = {}"
    and "D \<subseteq> top_state ps" and "h \<noteq> 0" and "shortstatehash_statediff st (to_be_bytes h) = None"
    and "d = \<lparr>sd_parent = (if ps = [] then None else Some (si_shortstatehash (last ps))), sd_added = N, sd_removed = D\<rparr>"
  shows "\<exists>s. stored_layers (save_statediff h d st) s \<and> si_shortstatehash (last s) = h \<and> s \<noteq> []
    \<and> si_full_state (last s) = (top_state ps \<union> N) - D \<and> length s = Suc (length ps)"
proof -
  let ?st = "save_statediff h d st"
  let ?i = "\<lparr>si_shortstatehash = h, si_full_state = (top_state ps \<union> N) - D, si_added = N, si_removed = D\<rparr>"
  have d: "diff_ok d"
    using assms(1-3,8) by (auto simp: diff_ok_def stored_layers_def layer_ok_def)
  have new: "get_statediff ?st h = Inr d" by (simp add: statediff_get [OF d])
  have keep: "get_statediff ?st h' = Inr e" if "get_statediff st h' = Inr e" for h' e
    using that assms(7) by (auto simp: statediff_get [OF d]) (simp add: get_statediff_def)
  have "layers ?st h (ps @ [?i])"
  proof (cases "ps = []")
    case True
    then have "D = {}" using assms(5) by (simp add: top_state_def)
    then show ?thesis using layers.layer_bottom [OF new] True assms(8) by (simp add: top_state_def)
  next
    case False
    then have "layers ?st (si_shortstatehash (last ps)) ps"
      using assms(1) keep by (auto simp: stored_layers_def elim: layers_mono)
    then show ?thesis using layers.layer_above [OF new] False assms(8) by (simp add: top_state_def)
  qed
  moreover have "exact_layers {} (ps @ [?i])"
    using assms(1,4,5) by (simp add: exact_layers_snoc stored_layers_def)
  moreover have "\<forall>i \<in> set (ps @ [?i]). layer_ok i" using assms(1-3,6) by (auto simp: stored_layers_def layer_ok_def)
  ultimately have "stored_layers ?st (ps @ [?i])" by (simp add: stored_layers_def)
  then show ?thesis by (intro exI [of _ "ps @ [?i]"]) simp
qed

lemma checked_small:
  "a + b < 2 ^ 64 \<Longrightarrow> checked_add_usize a b = Inr (a + b)"
  "a * b < 2 ^ 64 \<Longrightarrow> checked_mul_usize a b = Inr (a * b)"
  by (simp_all add: checked_add_usize_def checked_mul_usize_def)

lemma size_comparison:
  assumes "n \<le> 2 ^ 31" and "p \<le> 2 ^ 31" and "s \<le> (2 :: nat) ^ 31"
  shows "checked_mul_usize n n = Inr (n * n)" and "checked_mul_usize 2 s = Inr (2 * s)"
    and "checked_mul_usize (2 * s) p = Inr (2 * s * p)"
proof -
  have "n * n \<le> 2 ^ 31 * 2 ^ 31" by (intro mult_le_mono assms)
  then show "checked_mul_usize n n = Inr (n * n)" by (intro checked_small) simp
  show "checked_mul_usize 2 s = Inr (2 * s)" by (rule checked_small) (use assms(3) in simp)
  have "2 * s * p \<le> 2 * 2 ^ 31 * 2 ^ 31" by (intro mult_le_mono assms le_refl)
  then show "checked_mul_usize (2 * s) p = Inr (2 * s * p)" by (intro checked_small) simp
qed

lemma entries_ok_sub: "entries_ok A \<Longrightarrow> B \<subseteq> A \<Longrightarrow> entries_ok B"
  by (auto simp: entries_ok_def intro: finite_subset)

lemma entries_ok_Un: "entries_ok A \<Longrightarrow> entries_ok B \<Longrightarrow> entries_ok (A \<union> B)"
  by (auto simp: entries_ok_def)

lemma merge_step:
  assumes "stored_layers st ps" and "ps \<noteq> []" and "entries_ok N" and "entries_ok D"
    and "N \<inter> top_state ps = {}" and "D \<subseteq> top_state ps"
  obtains N' D' where "merge_diff N D (last ps) = (N', D')" "stored_layers st (butlast ps)"
    "entries_ok N'" "entries_ok D'" "N' \<inter> top_state (butlast ps) = {}" "D' \<subseteq> top_state (butlast ps)"
    "(top_state (butlast ps) \<union> N') - D' = (top_state ps \<union> N) - D"
    "card N' + card D' \<le> layer_size (last ps) + card N + card D"
proof -
  let ?p = "last ps" and ?G = "top_state (butlast ps)"
  let ?N = "si_added ?p - D \<union> (N - (si_removed ?p \<union> (D - si_added ?p)))"
    and ?D = "(si_removed ?p \<union> (D - si_added ?p)) - N"
  have p: "layer_ok ?p" using assms(1,2) by (simp add: stored_layers_def)
  then have fin: "finite (si_added ?p)" "finite (si_removed ?p)" "finite N" "finite D"
    using assms(3,4) by (simp_all add: layer_ok_def entries_ok_def)
  have top: "top_state ps = si_full_state ?p" using assms(2) by (simp add: top_state_def)
  have exact: "si_added ?p \<inter> ?G = {}" "si_removed ?p \<subseteq> ?G" "si_full_state ?p = (?G \<union> si_added ?p) - si_removed ?p"
    using assms(1,2) exact_layers_snoc [of "butlast ps" ?p] by (simp_all add: stored_layers_def)
  note merge = merge_exact [OF exact assms(5,6) [unfolded top] refl refl]
  have ok: "entries_ok (si_added ?p)" "entries_ok (si_removed ?p)" using p by (simp_all add: layer_ok_def)
  have "entries_ok ?N" by (rule entries_ok_sub [OF entries_ok_Un [OF ok(1) assms(3)]]) blast
  moreover have "entries_ok ?D" by (rule entries_ok_sub [OF entries_ok_Un [OF ok(2) assms(4)]]) blast
  moreover have "card ?N + card ?D \<le> layer_size ?p + card N + card D"
    using merge_card [OF fin refl refl] by (simp add: layer_size_def)
  moreover have "(?G \<union> ?N) - ?D = (top_state ps \<union> N) - D" unfolding top by (rule merge(3))
  ultimately show ?thesis
    using that [OF merge_diff_eq [OF fin(3,4)] stored_layers_butlast [OF assms(1)]] merge(1,2) by blast
qed

text \<open>Saving leaves the layers of every other state as they were.\<close>

definition preserved :: "'l compressor \<Rightarrow> 'l compressor \<Rightarrow> u64 \<Rightarrow> bool" where
  "preserved st st' h \<longleftrightarrow> stateinfo_cache st' = stateinfo_cache st
     \<and> (\<forall>k. k \<noteq> to_be_bytes h \<longrightarrow> shortstatehash_statediff st' k = shortstatehash_statediff st k)"

lemma save_from_diff_layers:
  assumes "stored_layers st ps" and "entries_ok N" and "entries_ok D" and "N \<inter> top_state ps = {}"
    and "D \<subseteq> top_state ps" and "h \<noteq> 0" and "shortstatehash_statediff st (to_be_bytes h) = None"
    and "card N + card D + sum_list (map layer_size ps) \<le> 2 ^ 31" and "sib \<le> 2 ^ 31" and "length ps \<le> 4"
  shows "\<exists>st' s. save_state_from_diff h N D sib ps st = Inr st' \<and> stored_layers st' s \<and> s \<noteq> []
    \<and> si_shortstatehash (last s) = h \<and> si_full_state (last s) = (top_state ps \<union> N) - D
    \<and> length s \<le> 4 \<and> preserved st st' h"
  using assms(1-5,8-10)
proof (induction "length ps" arbitrary: N D sib ps rule: less_induct)
  case less
  have add: "checked_add_usize (card N) (card D) = Inr (card N + card D)"
    by (rule checked_small) (use less.prems(6) in simp)
  have pres: "preserved st (save_statediff h d st) h" for d by (simp add: preserved_def save_statediff_def)
  have merged: "\<exists>st' s. (case merge_diff N D (last ps) of (N', D') \<Rightarrow>
        save_state_from_diff h N' D' (card N + card D) (butlast ps) st) = Inr st' \<and> stored_layers st' s \<and> s \<noteq> []
      \<and> si_shortstatehash (last s) = h \<and> si_full_state (last s) = (top_state ps \<union> N) - D
      \<and> length s \<le> 4 \<and> preserved st st' h" if ne: "ps \<noteq> []"
  proof -
    obtain N' D' where m: "merge_diff N D (last ps) = (N', D')" "stored_layers st (butlast ps)"
      "entries_ok N'" "entries_ok D'" "N' \<inter> top_state (butlast ps) = {}" "D' \<subseteq> top_state (butlast ps)"
      "(top_state (butlast ps) \<union> N') - D' = (top_state ps \<union> N) - D"
      "card N' + card D' \<le> layer_size (last ps) + card N + card D"
      by (rule merge_step [OF less.prems(1) ne less.prems(2-5)])
    have "sum_list (map layer_size ps) = sum_list (map layer_size (butlast ps)) + layer_size (last ps)"
      using ne by (induction ps) auto
    then have "card N' + card D' + sum_list (map layer_size (butlast ps)) \<le> 2 ^ 31" "card N + card D \<le> 2 ^ 31"
      using m(8) less.prems(6) by linarith+
    from less.hyps [OF _ m(2-6) this] show ?thesis using ne less.prems(8) m(1,7) by simp
  qed
  show ?case
  proof (cases "3 < length ps")
    case True
    then have "ps \<noteq> []" by auto
    from merged [OF this] show ?thesis using True add by (subst save_state_from_diff.simps) simp
  next
    case short: False
    show ?thesis
    proof (cases "ps = []")
      case True
      let ?d = "\<lparr>sd_parent = None, sd_added = N, sd_removed = D\<rparr>"
      have "\<exists>s. stored_layers (save_statediff h ?d st) s \<and> si_shortstatehash (last s) = h \<and> s \<noteq> []
          \<and> si_full_state (last s) = (top_state ps \<union> N) - D \<and> length s = Suc (length ps)"
        by (rule save_layer [OF less.prems(1-5) assms(6,7)]) (simp add: True)
      then show ?thesis using True add pres [of ?d] by (subst save_state_from_diff.simps) auto
    next
      case False
      let ?p = "last ps"
      let ?d = "\<lparr>sd_parent = Some (si_shortstatehash ?p), sd_added = N, sd_removed = D\<rparr>"
      have "layer_size ?p \<le> sum_list (map layer_size ps)" using False by (intro member_le_sum_list) simp_all
      then have size: "layer_size ?p \<le> 2 ^ 31" "card N + card D \<le> 2 ^ 31" using less.prems(6) by linarith+
      then have padd: "checked_add_usize (card (si_added ?p)) (card (si_removed ?p)) = Inr (layer_size ?p)"
        by (simp add: checked_small layer_size_def)
      have "\<exists>s. stored_layers (save_statediff h ?d st) s \<and> si_shortstatehash (last s) = h \<and> s \<noteq> []
          \<and> si_full_state (last s) = (top_state ps \<union> N) - D \<and> length s = Suc (length ps)"
        by (rule save_layer [OF less.prems(1-5) assms(6,7)]) (simp add: False)
      then have on_top: "\<exists>st' s. Inr (save_statediff h ?d st) = Inr st' \<and> stored_layers st' s \<and> s \<noteq> []
          \<and> si_shortstatehash (last s) = h \<and> si_full_state (last s) = (top_state ps \<union> N) - D
          \<and> length s \<le> 4 \<and> preserved st st' h" using short pres [of ?d] by auto
      show ?thesis
        using short False add padd size_comparison [OF size(2,1) less.prems(7)] merged [OF False] on_top
        by (subst save_state_from_diff.simps) (simp add: Let_def)
    qed
  qed
qed

subsection \<open>Saving and loading as updating and looking up a map of states\<close>

text \<open>The state a short state hash stands for.\<close>

definition holds :: "'l compressor \<Rightarrow> u64 \<Rightarrow> compressed_state \<Rightarrow> bool" where
  "holds st h S \<longleftrightarrow> (\<exists>s. layers st h s \<and> si_full_state (last s) = S)"

definition store_ok :: "'l state_lru \<Rightarrow> 'l compressor \<Rightarrow> bool" where
  "store_ok L st \<longleftrightarrow> lru_ok L \<and> cache_ok L st
     \<and> (\<forall>h s. layers st h s \<longrightarrow> stored_layers st s \<and> length s \<le> 4)
     \<and> (\<forall>h d. get_statediff st h = Inr d \<longrightarrow> (\<exists>s. layers st h s))"

lemma holds_unique: "holds st h S \<Longrightarrow> holds st h T \<Longrightarrow> S = T"
  unfolding holds_def using layers_unique by blast

lemma holds_cache [simp]: "holds (st\<lparr>stateinfo_cache := c\<rparr>) h S = holds st h S"
  by (simp add: holds_def)

lemma store_ok_cache:
  "store_ok L st \<Longrightarrow> cache_ok L (st\<lparr>stateinfo_cache := c\<rparr>) \<Longrightarrow> store_ok L (st\<lparr>stateinfo_cache := c\<rparr>)"
  by (simp add: store_ok_def stored_layers_def)

lemma load_holds:
  assumes "store_ok L st" and "layers st h s" and "4 \<le> fuel"
  shows "\<exists>c. load_shortstatehash_info L fuel h st = (Inr s, st\<lparr>stateinfo_cache := c\<rparr>)
    \<and> store_ok L (st\<lparr>stateinfo_cache := c\<rparr>)"
proof -
  have "length s \<le> fuel" using assms unfolding store_ok_def by fastforce
  moreover have "cache_ok L (st\<lparr>stateinfo_cache := stateinfo_cache st\<rparr>)" using assms(1) by (simp add: store_ok_def)
  moreover have "lru_ok L" using assms(1) by (simp add: store_ok_def)
  ultimately obtain c where
    "load_shortstatehash_info L fuel h (st\<lparr>stateinfo_cache := stateinfo_cache st\<rparr>) = (Inr s, st\<lparr>stateinfo_cache := c\<rparr>)"
    "cache_ok L (st\<lparr>stateinfo_cache := c\<rparr>)"
    using load_layers [OF assms(2), of L "stateinfo_cache st" fuel] by blast
  then show ?thesis using store_ok_cache [OF assms(1)] by auto
qed

lemma exact_layers_entries:
  assumes "entries_ok G" and "exact_layers G ps" and "\<forall>i \<in> set ps. layer_ok i" and "ps \<noteq> []"
  shows "entries_ok (si_full_state (last ps))"
  using assms
proof (induction ps arbitrary: G)
  case (Cons p ps)
  have "entries_ok ((G \<union> si_added p) - si_removed p)"
    by (rule entries_ok_sub [OF entries_ok_Un [of G "si_added p"]]) (use Cons.prems in \<open>auto simp: layer_ok_def\<close>)
  then have ok: "entries_ok (si_full_state p)" using Cons.prems(2) by simp
  show ?case
  proof (cases "ps = []")
    case False
    have "exact_layers (si_full_state p) ps" "\<forall>i \<in> set ps. layer_ok i" using Cons.prems(2,3) by auto
    from Cons.IH [OF ok this False] show ?thesis using False by simp
  qed (use ok in simp)
qed simp

lemma sibling_sizes: "(2 :: nat) \<le> 2 ^ 31" "(1000000 :: nat) \<le> 2 ^ 31"
  by simp_all

lemma save_holds:
  assumes "store_ok L st" and "ps = [] \<or> (\<exists>p. layers st p ps)" and "entries_ok New" and "h \<noteq> 0"
    and "shortstatehash_statediff st (to_be_bytes h) = None"
    and "card (New - top_state ps) + card (top_state ps - New) + sum_list (map layer_size ps) \<le> 2 ^ 31" and "sib \<le> 2 ^ 31"
  shows "\<exists>st'. save_state_from_diff h (New - top_state ps) (top_state ps - New) sib ps st = Inr st'
    \<and> store_ok L st' \<and> preserved st st' h \<and> (\<forall>h' S. holds st' h' S \<longleftrightarrow> (if h' = h then S = New else holds st h' S))"
proof -
  have ps: "stored_layers st ps" "length ps \<le> 4"
    using assms(1,2) by (auto simp: store_ok_def stored_layers_def)
  have "entries_ok (top_state ps)"
    using ps(1) exact_layers_entries [of "{}" ps] by (simp add: stored_layers_def top_state_def entries_ok_def)
  then have ok: "entries_ok (New - top_state ps)" "entries_ok (top_state ps - New)"
    using entries_ok_sub [OF assms(3)] entries_ok_sub by auto
  have "\<exists>st' s. save_state_from_diff h (New - top_state ps) (top_state ps - New) sib ps st = Inr st'
    \<and> stored_layers st' s \<and> s \<noteq> [] \<and> si_shortstatehash (last s) = h
    \<and> si_full_state (last s) = (top_state ps \<union> (New - top_state ps)) - (top_state ps - New)
    \<and> length s \<le> 4 \<and> preserved st st' h"
    by (rule save_from_diff_layers [OF ps(1) ok _ _ assms(4-7) ps(2)]) auto
  then obtain st' s where st': "save_state_from_diff h (New - top_state ps) (top_state ps - New) sib ps st = Inr st'"
    "stored_layers st' s" "s \<noteq> []" "si_shortstatehash (last s) = h" "si_full_state (last s) = New"
    "length s \<le> 4" "preserved st st' h"
    by (auto simp: Un_Diff Diff_Diff_Int)
  have h: "layers st' h s" using st'(2-4) by (simp add: stored_layers_def)
  have same: "get_statediff st' h' = get_statediff st h'" if "h' \<noteq> h" for h'
    using st'(7) that by (simp add: preserved_def get_statediff_def)
  have none: "\<nexists>d. get_statediff st h = Inr d" using assms(5) by (simp add: get_statediff_def)
  have keep: "layers st' h' t" if "layers st h' t" for h' t
    by (rule layers_mono [OF that]) (use same none in metis)
  have came: "layers st h' t" if t: "layers st' h' t" and ne: "h' \<noteq> h" for h' t
  proof -
    obtain d where "get_statediff st h' = Inr d" using layers_stored [OF t] same [OF ne] by auto
    then obtain u where u: "layers st h' u" using assms(1) by (auto simp: store_ok_def)
    then show ?thesis using layers_unique [OF t keep [OF u]] by simp
  qed
  have "cache_ok L st'" using assms(1) st'(7) keep by (auto simp: cache_ok_def store_ok_def preserved_def)
  moreover have "stored_layers st' t \<and> length t \<le> 4" if t: "layers st' h' t" for h' t
  proof (cases "h' = h")
    case True
    then have "t = s" using t h layers_unique by blast
    then show ?thesis using st'(2,6) by simp
  next
    case False
    from came [OF t this] have "stored_layers st t \<and> length t \<le> 4" using assms(1) by (simp add: store_ok_def)
    then show ?thesis using keep by (auto simp: stored_layers_def)
  qed
  moreover have "\<exists>t. layers st' h' t" if "get_statediff st' h' = Inr d" for h' d
  proof (cases "h' = h")
    case False
    then have "\<exists>t. layers st h' t" using that same assms(1) by (simp add: store_ok_def)
    then show ?thesis using keep by blast
  qed (use h in auto)
  ultimately have "store_ok L st'" using assms(1) by (simp add: store_ok_def)
  moreover have "holds st' h' S \<longleftrightarrow> (if h' = h then S = New else holds st h' S)" for h' S
  proof (cases "h' = h")
    case True
    have "holds st' h S \<longleftrightarrow> S = New" using h st'(5) layers_unique [OF h] unfolding holds_def by metis
    then show ?thesis using True by simp
  next
    case False
    then show ?thesis using keep came [OF _ False] unfolding holds_def if_not_P [OF False] by blast
  qed
  ultimately show ?thesis using st'(1,7) by blast
qed

text \<open>Saving a state as a difference and loading it refine a map from short state hashes to
  states. Saving a new state adds it under its hash and changes no other state, whatever layers it is
  merged into.\<close>

lemma save_state_refines:
  assumes "store_ok L st" and "ps = [] \<or> (\<exists>p. layers st p ps)" and "entries_ok New" and "h \<noteq> 0"
    and "shortstatehash_statediff st (to_be_bytes h) = None"
    and "card (New - top_state ps) + card (top_state ps - New) + sum_list (map layer_size ps) \<le> 2 ^ 31"
  shows "\<exists>st'. save_state_from_diff h (New - top_state ps) (top_state ps - New) 2 ps st = Inr st'
    \<and> store_ok L st' \<and> (\<forall>h' S. holds st' h' S \<longleftrightarrow> (if h' = h then S = New else holds st h' S))"
  using save_holds [OF assms sibling_sizes(1)] by blast

text \<open>Loading a stored state returns, with fuel for four layers, a stack whose top is that
  state, and changes nothing but the cache.\<close>

lemma load_state_refines:
  assumes "store_ok L st" and "holds st h S" and "4 \<le> fuel"
  shows "\<exists>s st'. load_shortstatehash_info L fuel h st = (Inr s, st') \<and> s \<noteq> [] \<and> length s \<le> 4
    \<and> si_full_state (last s) = S \<and> store_ok L st' \<and> (\<forall>h' S. holds st' h' S \<longleftrightarrow> holds st h' S)"
proof -
  obtain s where s: "layers st h s" "si_full_state (last s) = S" using assms(2) by (auto simp: holds_def)
  obtain c where c: "load_shortstatehash_info L fuel h st = (Inr s, st\<lparr>stateinfo_cache := c\<rparr>)"
    "store_ok L (st\<lparr>stateinfo_cache := c\<rparr>)" using load_holds [OF assms(1) s(1) assms(3)] by blast
  moreover have "length s \<le> 4" using assms(1) s(1) by (simp add: store_ok_def)
  ultimately show ?thesis using s layers_last [OF s(1)] by auto
qed

text \<open>A cache that keeps a bounded list, most recently used first.\<close>

definition list_lru :: "nat \<Rightarrow> ('k, 'v, ('k \<times> 'v) list) lru" where
  "list_lru cap = \<lparr>lru_get = (\<lambda>k c. case map_of c k of
        None \<Rightarrow> (None, c)
      | Some v \<Rightarrow> (Some v, (k, v) # filter (\<lambda>e. fst e \<noteq> k) c)),
     lru_insert = (\<lambda>k v c. take cap ((k, v) # filter (\<lambda>e. fst e \<noteq> k) c))\<rparr>"

lemma map_of_take: "map_of (take n xs) k = None \<or> map_of (take n xs) k = map_of xs k"
proof (induction xs arbitrary: n)
  case (Cons x xs)
  then show ?case by (cases n; cases x) auto
qed simp

lemma map_of_filter_key: "map_of (filter (\<lambda>e. fst e \<noteq> k) xs) k' = (if k' = k then None else map_of xs k')"
  by (induction xs) auto

lemma list_lru_ok: "lru_ok (list_lru cap :: ('k, 'v, ('k \<times> 'v) list) lru)"
proof -
  have get: "fst (lru_get (list_lru cap) k c) = map_of c k" for k :: 'k and c :: "('k \<times> 'v) list"
    by (simp add: list_lru_def split: option.split)
  have "map_of (snd (lru_get (list_lru cap) h c)) k = map_of c k" for h k :: 'k and c :: "('k \<times> 'v) list"
    by (auto simp: list_lru_def map_of_filter_key split: option.split)
  moreover have "map_of (lru_insert (list_lru cap) h v c) k = None
      \<or> map_of (lru_insert (list_lru cap) h v c) k = (if k = h then Some v else map_of c k)" for h k :: 'k and v :: 'v and c
    using map_of_take [of cap "(h, v) # filter (\<lambda>e. fst e \<noteq> h) c" k]
    by (auto simp: list_lru_def map_of_filter_key)
  ultimately show ?thesis unfolding lru_ok_def get by blast
qed

definition empty_compressor :: "(u64 \<times> short_state_info list) list compressor" where
  "empty_compressor = \<lparr>stateinfo_cache = [], shortstatehash_statediff = Map.empty\<rparr>"

lemma empty_compressor_ok: "store_ok (list_lru cap) empty_compressor"
proof -
  have "\<not> layers empty_compressor h s" for h s
    by (auto dest!: layers_stored simp: empty_compressor_def get_statediff_def)
  moreover have "get_statediff empty_compressor h \<noteq> Inr d" for h d
    by (simp add: empty_compressor_def get_statediff_def)
  moreover have "fst (lru_get (list_lru cap) h (stateinfo_cache empty_compressor)) = None" for h
    by (simp add: list_lru_def empty_compressor_def)
  ultimately show ?thesis by (simp add: store_ok_def list_lru_ok cache_ok_def)
qed

lemma sample_entry_ok: "entries_ok {compress_state_event 1 2}"
  by (simp add: entries_ok_def entry_ok_def compress_state_event_def)

subsection \<open>Saving the state of a room\<close>

lemma sep_join_inj:
  assumes "\<forall>x \<in> set xs. length x = 16" and "\<forall>y \<in> set ys. length y = 16" and "sep_join xs = sep_join ys"
  shows "xs = ys"
  using assms
proof (induction xs arbitrary: ys rule: sep_join.induct)
  case 1
  then show ?case by (cases ys rule: sep_join.cases) auto
next
  case (2 b)
  then show ?case by (cases ys rule: sep_join.cases) auto
next
  case (3 b c bs)
  then show ?case
  proof (cases ys rule: sep_join.cases)
    case (3 b' c' bs')
    then have "b = b'" "sep_join (c # bs) = sep_join (c' # bs')" using "3.prems" by auto
    then show ?thesis using "3.IH" [of "c' # bs'"] "3.prems" 3 by simp
  qed (use "3.prems" in auto)
qed

text \<open>The hash of a new state is not that of another stored state.\<close>

definition collision_free :: "(bytes \<Rightarrow> bytes) \<Rightarrow> 'l compressor \<Rightarrow> compressed_state \<Rightarrow> bool" where
  "collision_free sha st New \<longleftrightarrow> (\<forall>h S. holds st h S \<longrightarrow>
     sha (sep_join (sorted_list_of_set S)) = sha (sep_join (sorted_list_of_set New)) \<longrightarrow>
     sep_join (sorted_list_of_set S) = sep_join (sorted_list_of_set New))"

lemma calculate_hash_inj:
  assumes "collision_free sha st New" and "holds st h S" and "entries_ok S" and "entries_ok New"
    and "calculate_hash sha (sorted_list_of_set S) = calculate_hash sha (sorted_list_of_set New)"
  shows "S = New"
proof -
  have "sep_join (sorted_list_of_set S) = sep_join (sorted_list_of_set New)"
    using assms(1,2,5) by (simp add: collision_free_def calculate_hash_def)
  then have "sorted_list_of_set S = sorted_list_of_set New"
    by (rule sep_join_inj [rotated 2]) (use assms(3,4) in \<open>auto simp: entries_ok_def entry_ok_def\<close>)
  then show ?thesis using assms(3,4) by (metis entries_ok_def set_sorted_list_of_set)
qed

text \<open>
  The invariant of the stores: every state hash with a short id belongs to a stored state, every
  stored state has a number the counter has passed, and the current state of a room is stored.
\<close>

definition rooms_ok :: "'l state_lru \<Rightarrow> (bytes \<Rightarrow> bytes) \<Rightarrow> 'l rooms_db \<Rightarrow> bool" where
  "rooms_ok L sha db \<longleftrightarrow> db_wf (short db) \<and> store_ok L (state_compressor db)
     \<and> (\<forall>hash h. lookup_short (statehash_shortstatehash (short db)) hash = Some h \<longrightarrow>
          (\<exists>S. holds (state_compressor db) h S \<and> entries_ok S
             \<and> calculate_hash sha (sorted_list_of_set S) = hash))
     \<and> (\<forall>h. shortstatehash_statediff (state_compressor db) (to_be_bytes h) \<noteq> None \<longrightarrow> h \<le> counter (short db))
     \<and> (\<forall>room p. get_room_shortstatehash db room = Inr p \<longrightarrow> (\<exists>S. holds (state_compressor db) p S))"

text \<open>The state of a room before the save, with the layers it is stored in.\<close>

definition room_layers :: "'l rooms_db \<Rightarrow> bytes \<Rightarrow> short_state_info list \<Rightarrow> bool" where
  "room_layers db room ps \<longleftrightarrow> (case get_room_shortstatehash db room of
       Inr p \<Rightarrow> layers (state_compressor db) p ps
     | Inl _ \<Rightarrow> ps = [])"

lemma get_or_create_hash_cases:
  assumes "db_wf sdb" and "\<not> exhausted sdb"
  obtains (existing) h where "lookup_short (statehash_shortstatehash sdb) hash = Some h"
      "get_or_create_shortstatehash hash sdb = ((h, True), sdb)"
    | (created) h sdb' where "lookup_short (statehash_shortstatehash sdb) hash = None"
      "get_or_create_shortstatehash hash sdb = ((h, False), sdb')" "db_wf sdb'"
      "h = counter sdb + 1" "counter sdb' = h" "0 < h" "counter sdb < h"
      "\<And>k. lookup_short (statehash_shortstatehash sdb') k
         = (if k = hash then Some h else lookup_short (statehash_shortstatehash sdb) k)"
proof (cases "lookup_short (statehash_shortstatehash sdb) hash")
  case None
  have st: "short_table (counter sdb) (statehash_shortstatehash sdb)" using assms(1) by (simp add: db_wf_def)
  have no: "statehash_shortstatehash sdb hash = None" using None by (simp add: lookup_short_def)
  have c: "counter sdb \<noteq> - 1" using assms(2) by (simp add: exhausted_def)
  obtain h sdb' where g: "get_or_create_shortstatehash hash sdb = ((h, False), sdb')"
    "h = counter sdb + 1" "counter sdb' = h"
    "statehash_shortstatehash sdb' = (statehash_shortstatehash sdb)(hash \<mapsto> to_be_bytes h)"
    using no c by (auto simp: get_or_create_shortstatehash_def table_get_def next_count_eq)
  have "db_wf sdb'" using state_hashes.get_or_create_wf [OF assms(1) _ assms(2), of hash h sdb'] g by simp
  then show ?thesis using created None g succ_bounds [OF c] by simp
next
  case (Some h)
  have st: "short_table (counter sdb) (statehash_shortstatehash sdb)" using assms(1) by (simp add: db_wf_def)
  have "get_or_create_shortstatehash hash sdb = ((h, True), sdb)"
    using Some by (auto simp: get_or_create_shortstatehash_def table_lookup [OF st] lookup_short_def)
  then show ?thesis using existing Some by blast
qed

text \<open>What a save returns and leaves behind.\<close>

definition saved ::
  "'l state_lru \<Rightarrow> (bytes \<Rightarrow> bytes) \<Rightarrow> 'l rooms_db \<Rightarrow> compressed_state \<Rightarrow> compressed_state
   \<Rightarrow> (service_error + hash_set_compress_state_event) \<times> 'l rooms_db \<Rightarrow> bool" where
  "saved L sha db Old New result \<longleftrightarrow> (\<exists>r db'. result = (Inr r, db') \<and> rooms_ok L sha db'
     \<and> holds (state_compressor db') (hs_shortstatehash r) New
     \<and> hs_added r = New - Old \<and> hs_removed r = Old - New
     \<and> (\<forall>h S. holds (state_compressor db) h S \<longrightarrow> holds (state_compressor db') h S))"

lemma rooms_ok_cache:
  assumes "rooms_ok L sha db" and "store_ok L (state_compressor db\<lparr>stateinfo_cache := c\<rparr>)"
  shows "rooms_ok L sha (db\<lparr>state_compressor := state_compressor db\<lparr>stateinfo_cache := c\<rparr>\<rparr>)"
  using assms by (simp add: rooms_ok_def get_room_shortstatehash_def)

text \<open>The parents of a save: the layers of the room's state, which are loaded through the cache.\<close>

lemma load_parents:
  assumes "rooms_ok L sha db" and "room_layers db room ps" and "4 \<le> fuel"
  obtains c where "load_states_parents L fuel (case get_room_shortstatehash db room of Inr p \<Rightarrow> Some p | Inl _ \<Rightarrow> None)
      (db\<lparr>short := sdb\<rparr>)
    = (ps, db\<lparr>short := sdb, state_compressor := state_compressor db\<lparr>stateinfo_cache := c\<rparr>\<rparr>)"
    "store_ok L (state_compressor db\<lparr>stateinfo_cache := c\<rparr>)"
proof (cases "get_room_shortstatehash db room")
  case (Inl e)
  have "store_ok L (state_compressor db)" using assms(1) by (simp add: rooms_ok_def)
  then show ?thesis using that [of "stateinfo_cache (state_compressor db)"] Inl assms(2) by (simp add: room_layers_def load_states_parents_def)
next
  case (Inr p)
  have "store_ok L (state_compressor db)" "layers (state_compressor db) p ps"
    using assms(1,2) Inr by (simp_all add: rooms_ok_def room_layers_def)
  from load_holds [OF this assms(3)] show ?thesis using that Inr by (auto simp: load_states_parents_def)
qed

lemma save_state_changed:
  assumes "get_or_create_shortstatehash (calculate_hash sha (sorted_list_of_set New)) (short db) = ((h, existed), sdb)"
    and "Some h \<noteq> (case get_room_shortstatehash db room of Inr p \<Rightarrow> Some p | Inl _ \<Rightarrow> None)"
    and "load_states_parents L fuel (case get_room_shortstatehash db room of Inr p \<Rightarrow> Some p | Inl _ \<Rightarrow> None)
      (db\<lparr>short := sdb\<rparr>) = (ps, db1)"
  shows "save_state L sha fuel room New db =
    (case (if \<not> existed then save_state_from_diff h (New - top_state ps) (top_state ps - New) 2 ps (state_compressor db1)
           else Inr (state_compressor db1)) of
       Inl e \<Rightarrow> (Inl e, db1)
     | Inr st \<Rightarrow> (Inr \<lparr>hs_shortstatehash = h, hs_added = New - top_state ps, hs_removed = top_state ps - New\<rparr>,
         db1\<lparr>state_compressor := st\<rparr>))"
  by (cases "ps = []"; cases existed) (simp_all add: save_state_def Let_def assms top_state_def split: sum.split)

lemma rooms_ok_hash:
  assumes "rooms_ok L sha db" and "collision_free sha (state_compressor db) New" and "entries_ok New"
    and "lookup_short (statehash_shortstatehash (short db)) (calculate_hash sha (sorted_list_of_set New)) = Some h"
  shows "holds (state_compressor db) h New"
proof -
  have "\<forall>hash h. lookup_short (statehash_shortstatehash (short db)) hash = Some h \<longrightarrow>
      (\<exists>S. holds (state_compressor db) h S \<and> entries_ok S
         \<and> calculate_hash sha (sorted_list_of_set S) = hash)"
    using assms(1) by (simp add: rooms_ok_def)
  then obtain S where S: "holds (state_compressor db) h S" "entries_ok S"
    "calculate_hash sha (sorted_list_of_set S) = calculate_hash sha (sorted_list_of_set New)"
    using assms(4) by blast
  then show ?thesis using calculate_hash_inj [OF assms(2) S(1,2) assms(3) S(3)] by simp
qed

lemma short_table_bound:
  assumes "short_table c t" and "lookup_short t k = Some s"
  shows "s \<le> c"
proof -
  obtain v where v: "t k = Some v" "s = from_be_bytes v" using assms(2) by (auto simp: lookup_short_def)
  then obtain s' where "v = to_be_bytes s'" "s' \<le> c" using assms(1) unfolding short_table_def by blast
  then show ?thesis using v(2) by simp
qed

lemma room_hash_bound:
  assumes "rooms_ok L sha db" and "get_room_shortstatehash db room = Inr p"
  shows "p \<le> counter (short db)"
proof -
  obtain S where "holds (state_compressor db) p S" using assms unfolding rooms_ok_def by blast
  then have "shortstatehash_statediff (state_compressor db) (to_be_bytes p) \<noteq> None"
    by (auto simp: holds_def get_statediff_def dest!: layers_stored split: option.splits)
  then show ?thesis using assms(1) unfolding rooms_ok_def by blast
qed

lemma save_state_unchanged:
  assumes "rooms_ok L sha db" and "collision_free sha (state_compressor db) New" and "entries_ok New" and "room_layers db room ps"
    and "get_or_create_shortstatehash (calculate_hash sha (sorted_list_of_set New)) (short db) = ((h, True), short db)"
    and "lookup_short (statehash_shortstatehash (short db)) (calculate_hash sha (sorted_list_of_set New)) = Some h"
    and "get_room_shortstatehash db room = Inr h"
  shows "saved L sha db (top_state ps) New (save_state L sha fuel room New db)"
proof -
  have S: "holds (state_compressor db) h New"
    by (rule rooms_ok_hash [OF assms(1,2,3,6)])
  have ps: "layers (state_compressor db) h ps" using assms(4,7) by (simp add: room_layers_def)
  then have "top_state ps = New"
    using S holds_unique [of "state_compressor db" h New "top_state ps"] layers_last [OF ps]
    by (auto simp: holds_def top_state_def)
  moreover have "save_state L sha fuel room New db
      = (Inr \<lparr>hs_shortstatehash = h, hs_added = {}, hs_removed = {}\<rparr>, db)"
    using assms(5,7) by (simp add: save_state_def Let_def)
  ultimately show ?thesis using S assms(1) by (simp add: saved_def)
qed

lemma save_state_existing:
  assumes "rooms_ok L sha db" and "collision_free sha (state_compressor db) New" and "entries_ok New" and "room_layers db room ps" and "4 \<le> fuel"
    and "get_or_create_shortstatehash (calculate_hash sha (sorted_list_of_set New)) (short db) = ((h, True), short db)"
    and "lookup_short (statehash_shortstatehash (short db)) (calculate_hash sha (sorted_list_of_set New)) = Some h"
    and "get_room_shortstatehash db room \<noteq> Inr h"
  shows "saved L sha db (top_state ps) New (save_state L sha fuel room New db)"
proof -
  have S: "holds (state_compressor db) h New"
    by (rule rooms_ok_hash [OF assms(1,2,3,7)])
  obtain c where c: "load_states_parents L fuel (case get_room_shortstatehash db room of Inr p \<Rightarrow> Some p | Inl _ \<Rightarrow> None)
      (db\<lparr>short := short db\<rparr>)
    = (ps, db\<lparr>short := short db, state_compressor := state_compressor db\<lparr>stateinfo_cache := c\<rparr>\<rparr>)"
    "store_ok L (state_compressor db\<lparr>stateinfo_cache := c\<rparr>)"
    by (rule load_parents [OF assms(1,4,5)])
  have ne: "Some h \<noteq> (case get_room_shortstatehash db room of Inr p \<Rightarrow> Some p | Inl _ \<Rightarrow> None)"
    using assms(8) by (auto split: sum.splits)
  have "save_state L sha fuel room New db
      = (Inr \<lparr>hs_shortstatehash = h, hs_added = New - top_state ps, hs_removed = top_state ps - New\<rparr>,
         db\<lparr>state_compressor := state_compressor db\<lparr>stateinfo_cache := c\<rparr>\<rparr>)"
    using save_state_changed [OF assms(6) ne c(1)] by simp
  then show ?thesis using rooms_ok_cache [OF assms(1) c(2)] S by (simp add: saved_def)
qed

text \<open>A state that is stored for the first time.\<close>

lemma rooms_ok_created:
  assumes "rooms_ok L sha db" and "db_wf sdb'" and "counter sdb' = h" and "counter (short db) < h"
    and "\<And>k. lookup_short (statehash_shortstatehash sdb') k
         = (if k = calculate_hash sha (sorted_list_of_set New) then Some h
            else lookup_short (statehash_shortstatehash (short db)) k)"
    and "lookup_short (statehash_shortstatehash (short db)) (calculate_hash sha (sorted_list_of_set New)) = None"
    and "entries_ok New" and "store_ok L st'" and "preserved (state_compressor db\<lparr>stateinfo_cache := c\<rparr>) st' h"
    and "\<forall>h' S. holds st' h' S \<longleftrightarrow> (if h' = h then S = New else holds (state_compressor db) h' S)"
  shows "rooms_ok L sha (db\<lparr>short := sdb', state_compressor := st'\<rparr>)"
proof -
  let ?hash = "calculate_hash sha (sorted_list_of_set New)"
  have hold: "\<forall>k i. lookup_short (statehash_shortstatehash (short db)) k = Some i \<longrightarrow>
      (\<exists>S. holds (state_compressor db) i S \<and> entries_ok S \<and> calculate_hash sha (sorted_list_of_set S) = k)"
    and num: "\<And>i. shortstatehash_statediff (state_compressor db) (to_be_bytes i) \<noteq> None \<Longrightarrow> i \<le> counter (short db)"
    and room: "\<And>r p. get_room_shortstatehash db r = Inr p \<Longrightarrow> \<exists>S. holds (state_compressor db) p S"
    and st: "short_table (counter (short db)) (statehash_shortstatehash (short db))"
    using assms(1) by (simp_all add: rooms_ok_def db_wf_def)
  have small: "i \<noteq> h" if "lookup_short (statehash_shortstatehash (short db)) k = Some i" for k i
    using short_table_bound [OF st that] assms(4) by auto
  have "\<exists>S. holds st' i S \<and> entries_ok S \<and> calculate_hash sha (sorted_list_of_set S) = k"
    if l: "lookup_short (statehash_shortstatehash sdb') k = Some i" for k i
  proof (cases "k = ?hash")
    case True
    then show ?thesis using l assms(5,7,10) by auto
  next
    case False
    then have old: "lookup_short (statehash_shortstatehash (short db)) k = Some i" using l assms(5) by simp
    then show ?thesis using hold small [OF old] assms(10) by auto
  qed
  moreover have "i \<le> h" if "shortstatehash_statediff st' (to_be_bytes i) \<noteq> None" for i
  proof (cases "i = h")
    case False
    then have "shortstatehash_statediff (state_compressor db) (to_be_bytes i) \<noteq> None"
      using that assms(9) by (simp add: preserved_def)
    from num [OF this] show ?thesis using assms(4) by simp
  qed simp
  moreover have "\<exists>S. holds st' p S"
    if r: "get_room_shortstatehash (db\<lparr>short := sdb', state_compressor := st'\<rparr>) r = Inr p" for r p
  proof -
    have p: "get_room_shortstatehash db r = Inr p" using r by (simp add: get_room_shortstatehash_def)
    then obtain S where "holds (state_compressor db) p S" using room by blast
    moreover have "p \<noteq> h" using room_hash_bound [OF assms(1) p] assms(4) by auto
    ultimately show ?thesis using assms(10) by auto
  qed
  ultimately show ?thesis using assms(2,3,8) by (simp add: rooms_ok_def)
qed

lemma save_created:
  assumes "rooms_ok L sha db" and "entries_ok New" and "room_layers db room ps"
    and "store_ok L (state_compressor db\<lparr>stateinfo_cache := c\<rparr>)" and "sib \<le> 2 ^ 31"
    and "card (New - top_state ps) + card (top_state ps - New) + sum_list (map layer_size ps) \<le> 2 ^ 31"
    and "lookup_short (statehash_shortstatehash (short db)) (calculate_hash sha (sorted_list_of_set New)) = None"
    and "db_wf sdb'" and "counter sdb' = h" and "0 < h" and "counter (short db) < h"
    and "\<And>k. lookup_short (statehash_shortstatehash sdb') k
         = (if k = calculate_hash sha (sorted_list_of_set New) then Some h
            else lookup_short (statehash_shortstatehash (short db)) k)"
  obtains st' where "save_state_from_diff h (New - top_state ps) (top_state ps - New) sib ps
      (state_compressor db\<lparr>stateinfo_cache := c\<rparr>) = Inr st'"
    "rooms_ok L sha (db\<lparr>short := sdb', state_compressor := st'\<rparr>)" "holds st' h New"
    "\<forall>h' S. holds (state_compressor db) h' S \<longrightarrow> holds st' h' S"
proof -
  have num: "\<And>i. shortstatehash_statediff (state_compressor db) (to_be_bytes i) \<noteq> None \<Longrightarrow> i \<le> counter (short db)"
    using assms(1) by (simp add: rooms_ok_def)
  have fresh: "shortstatehash_statediff (state_compressor db\<lparr>stateinfo_cache := c\<rparr>) (to_be_bytes h) = None"
    using num [of h] assms(11) by fastforce
  have nz: "h \<noteq> 0" using assms(10) by auto
  have parents: "ps = [] \<or> (\<exists>p. layers (state_compressor db\<lparr>stateinfo_cache := c\<rparr>) p ps)"
    using assms(3) by (auto simp: room_layers_def split: sum.splits)
  obtain st' where st': "save_state_from_diff h (New - top_state ps) (top_state ps - New) sib ps
      (state_compressor db\<lparr>stateinfo_cache := c\<rparr>) = Inr st'" "store_ok L st'"
    "preserved (state_compressor db\<lparr>stateinfo_cache := c\<rparr>) st' h"
    "\<forall>h' S. holds st' h' S \<longleftrightarrow> (if h' = h then S = New else holds (state_compressor db) h' S)"
    using save_holds [OF assms(4) parents assms(2) nz fresh assms(6,5)] unfolding holds_cache by blast
  have none: "\<not> holds (state_compressor db) h S" for S
    using fresh by (auto simp: holds_def get_statediff_def dest!: layers_stored)
  have keep: "\<forall>h' S. holds (state_compressor db) h' S \<longrightarrow> holds st' h' S" using st'(4) none by auto
  have new: "holds st' h New" using st'(4) by simp
  have "rooms_ok L sha (db\<lparr>short := sdb', state_compressor := st'\<rparr>)"
    by (rule rooms_ok_created [OF assms(1,8,9,11,12,7,2) st'(2-4)])
  then show ?thesis using that [OF st'(1) _ new keep] by blast
qed

lemma save_state_created:
  assumes "rooms_ok L sha db" and "entries_ok New" and "room_layers db room ps" and "4 \<le> fuel"
    and "card (New - top_state ps) + card (top_state ps - New) + sum_list (map layer_size ps) \<le> 2 ^ 31"
    and "lookup_short (statehash_shortstatehash (short db)) (calculate_hash sha (sorted_list_of_set New)) = None"
    and "get_or_create_shortstatehash (calculate_hash sha (sorted_list_of_set New)) (short db) = ((h, False), sdb')"
    and "db_wf sdb'" and "counter sdb' = h" and "0 < h" and "counter (short db) < h"
    and "\<And>k. lookup_short (statehash_shortstatehash sdb') k
         = (if k = calculate_hash sha (sorted_list_of_set New) then Some h
            else lookup_short (statehash_shortstatehash (short db)) k)"
  shows "saved L sha db (top_state ps) New (save_state L sha fuel room New db)"
proof -
  obtain c where c: "load_states_parents L fuel (case get_room_shortstatehash db room of Inr p \<Rightarrow> Some p | Inl _ \<Rightarrow> None)
      (db\<lparr>short := sdb'\<rparr>)
    = (ps, db\<lparr>short := sdb', state_compressor := state_compressor db\<lparr>stateinfo_cache := c\<rparr>\<rparr>)"
    "store_ok L (state_compressor db\<lparr>stateinfo_cache := c\<rparr>)"
    by (rule load_parents [OF assms(1,3,4)])
  obtain st' where st': "save_state_from_diff h (New - top_state ps) (top_state ps - New) 2 ps
      (state_compressor db\<lparr>stateinfo_cache := c\<rparr>) = Inr st'"
    "rooms_ok L sha (db\<lparr>short := sdb', state_compressor := st'\<rparr>)" "holds st' h New"
    "\<forall>h' S. holds (state_compressor db) h' S \<longrightarrow> holds st' h' S"
    by (rule save_created [OF assms(1-3) c(2) sibling_sizes(1) assms(5,6,8-12)])
  have ne: "Some h \<noteq> (case get_room_shortstatehash db room of Inr p \<Rightarrow> Some p | Inl _ \<Rightarrow> None)"
    using room_hash_bound [OF assms(1), of room] assms(11) by (auto split: sum.splits)
  have "save_state L sha fuel room New db
      = (Inr \<lparr>hs_shortstatehash = h, hs_added = New - top_state ps, hs_removed = top_state ps - New\<rparr>,
         db\<lparr>short := sdb', state_compressor := st'\<rparr>)"
    using save_state_changed [OF assms(7) ne c(1)] st'(1) by simp
  then show ?thesis using st'(2-4) by (auto simp: saved_def)
qed

text \<open>C8. Saving the state of a room returns: the short state hash it returns stands for the new state,
  the differences it reports are those to the room's old state, no other stored state changes, and
  the invariant of the stores holds again.\<close>

theorem save_state_correct:
  assumes "rooms_ok L sha db" and "\<not> exhausted (short db)" and "collision_free sha (state_compressor db) New"
    and "entries_ok New" and "room_layers db room ps" and "4 \<le> fuel"
    and "card (New - top_state ps) + card (top_state ps - New) + sum_list (map layer_size ps) \<le> 2 ^ 31"
  shows "saved L sha db (top_state ps) New (save_state L sha fuel room New db)"
proof -
  have wf: "db_wf (short db)" using assms(1) by (simp add: rooms_ok_def)
  show ?thesis
  proof (rule get_or_create_hash_cases [OF wf assms(2), of "calculate_hash sha (sorted_list_of_set New)"])
    fix h assume h: "lookup_short (statehash_shortstatehash (short db)) (calculate_hash sha (sorted_list_of_set New)) = Some h"
      "get_or_create_shortstatehash (calculate_hash sha (sorted_list_of_set New)) (short db) = ((h, True), short db)"
    show ?thesis
    proof (cases "get_room_shortstatehash db room = Inr h")
      case True
      show ?thesis by (rule save_state_unchanged [OF assms(1,3-5) h(2,1) True])
    next
      case False
      show ?thesis by (rule save_state_existing [OF assms(1,3-6) h(2,1) False])
    qed
  next
    fix h sdb' assume "lookup_short (statehash_shortstatehash (short db)) (calculate_hash sha (sorted_list_of_set New)) = None"
      "get_or_create_shortstatehash (calculate_hash sha (sorted_list_of_set New)) (short db) = ((h, False), sdb')"
      "db_wf sdb'" "counter sdb' = h" "0 < h" "counter (short db) < h"
      "\<And>k. lookup_short (statehash_shortstatehash sdb') k
         = (if k = calculate_hash sha (sorted_list_of_set New) then Some h
            else lookup_short (statehash_shortstatehash (short db)) k)"
    then show ?thesis by (rule save_state_created [OF assms(1,4-7)])
  qed
qed

theorem save_state_correct_witness:
  "saved (list_lru 2) (\<lambda>b. b)
     \<lparr>short = new_db, state_compressor = empty_compressor, roomid_shortstatehash = Map.empty,
       shorteventid_shortstatehash = Map.empty, roomid_pduleaves = []\<rparr>
     {} {compress_state_event 1 2}
     (save_state (list_lru 2) (\<lambda>b. b) 4 [0x21] {compress_state_event 1 2}
        \<lparr>short = new_db, state_compressor = empty_compressor, roomid_shortstatehash = Map.empty,
       shorteventid_shortstatehash = Map.empty, roomid_pduleaves = []\<rparr>)"
proof -
  let ?db = "\<lparr>short = new_db, state_compressor = empty_compressor, roomid_shortstatehash = Map.empty,
       shorteventid_shortstatehash = Map.empty, roomid_pduleaves = []\<rparr>"
  have "rooms_ok (list_lru 2) (\<lambda>b. b) ?db"
    using new_db_wf empty_compressor_ok [of 2]
    by (simp add: rooms_ok_def new_db_def empty_compressor_def lookup_short_def get_room_shortstatehash_def table_get_def)
  moreover have "\<not> exhausted (short ?db)" by (simp add: exhausted_def new_db_def)
  moreover have "collision_free (\<lambda>b. b) (state_compressor ?db) {compress_state_event 1 2}"
    by (simp add: collision_free_def)
  moreover have "room_layers ?db [0x21] []"
    by (simp add: room_layers_def get_room_shortstatehash_def table_get_def)
  ultimately show ?thesis
    using save_state_correct [of "list_lru 2" "\<lambda>b. b" ?db "{compress_state_event 1 2}" "[0x21]" "[]" 4] sample_entry_ok
    by (simp add: top_state_def)
qed

end
