(* ===== verification/RoomState.thy ===== *)
theory RoomState
  imports StateCompressor "HOL-Library.AList"
begin

text \<open>
  The state of rooms: the services \<open>src/src/service/rooms/state/mod.rs\<close>, which moves a room from
  one stored state to the next and keeps its forward extremities, and
  \<open>src/src/service/rooms/state_accessor/state.rs\<close>, which looks events up in a stored state.

  Reading a state goes through the cache of the state compressor, so that every operation returns the stores
  with its result. The timeline, from which the readers fetch the event of an event id, is not part
  of this theory: the readers stop at the event id.
\<close>

subsection \<open>Changing the state of a room\<close>

definition set_room_state :: "bytes \<Rightarrow> u64 \<Rightarrow> 'l rooms_db \<Rightarrow> 'l rooms_db" where
  "set_room_state room_id shortstatehash db =
     db\<lparr>roomid_shortstatehash := (roomid_shortstatehash db)(room_id \<mapsto> to_be_bytes shortstatehash)\<rparr>"

definition put_event_state :: "u64 \<Rightarrow> u64 \<Rightarrow> 'l rooms_db \<Rightarrow> 'l rooms_db" where
  "put_event_state shorteventid shortstatehash db =
     db\<lparr>shorteventid_shortstatehash :=
          (shorteventid_shortstatehash db)(to_be_bytes shorteventid \<mapsto> to_be_bytes shortstatehash)\<rparr>"

text \<open>The layers of the previous state; an error of loading them is passed on.\<close>

definition try_states_parents ::
  "'l state_lru \<Rightarrow> nat \<Rightarrow> service_error + u64 \<Rightarrow> 'l rooms_db
   \<Rightarrow> (service_error + short_state_info list) \<times> 'l rooms_db" where
  "try_states_parents L fuel previous_shortstatehash db =
     (case previous_shortstatehash of
        Inr p \<Rightarrow>
          (case load_shortstatehash_info L fuel p (state_compressor db) of
             (r, st) \<Rightarrow> (r, db\<lparr>state_compressor := st\<rparr>))
      | Inl _ \<Rightarrow> (Inr [], db))"

definition set_event_state ::
  "'l state_lru \<Rightarrow> (bytes \<Rightarrow> bytes) \<Rightarrow> nat \<Rightarrow> bytes \<Rightarrow> bytes \<Rightarrow> compressed_state \<Rightarrow> 'l rooms_db
   \<Rightarrow> (service_error + u64) \<times> 'l rooms_db" where
  "set_event_state L sha fuel event_id room_id state_ids_compressed db =
     (case get_or_create_shorteventid event_id (short db) of (shorteventid, sdb) \<Rightarrow>
     (let previous_shortstatehash = get_room_shortstatehash db room_id;
          state_hash = calculate_hash sha (sorted_list_of_set state_ids_compressed)
      in case get_or_create_shortstatehash state_hash sdb of ((shortstatehash, already_existed), sdb) \<Rightarrow>
      (let db = db\<lparr>short := sdb\<rparr>
       in case (if \<not> already_existed then
                  (case try_states_parents L fuel previous_shortstatehash db of
                     (Inl e, db) \<Rightarrow> (Inl e, db)
                   | (Inr states_parents, db) \<Rightarrow>
                       (case (if states_parents \<noteq> [] then
                                (state_ids_compressed - si_full_state (last states_parents),
                                 si_full_state (last states_parents) - state_ids_compressed)
                              else (state_ids_compressed, {})) of (statediffnew, statediffremoved) \<Rightarrow>
                          (case save_state_from_diff shortstatehash statediffnew statediffremoved 1000000
                                  states_parents (state_compressor db) of
                             Inl e \<Rightarrow> (Inl e, db)
                           | Inr st \<Rightarrow> (Inr (), db\<lparr>state_compressor := st\<rparr>))))
                else (Inr (), db)) of
            (Inl e, db) \<Rightarrow> (Inl e, db)
          | (Inr _, db) \<Rightarrow> (Inr shortstatehash, put_event_state shorteventid shortstatehash db))))"

text \<open>The entry of a state that has a given short state key.\<close>

definition find_replaced :: "u64 \<Rightarrow> short_state_info list \<Rightarrow> bytes option" where
  "find_replaced shortstatekey states_parents =
     (if states_parents = [] then None
      else List.find (\<lambda>b. take 8 b = to_be_bytes shortstatekey)
             (sorted_list_of_set (si_full_state (last states_parents))))"

definition expect_hash :: "string \<Rightarrow> service_error + u64 \<Rightarrow> service_error + u64" where
  "expect_hash msg r = (case r of Inr p \<Rightarrow> Inr p | Inl _ \<Rightarrow> Inl (PanicErr msg))"

definition append_to_state ::
  "'l state_lru \<Rightarrow> nat \<Rightarrow> bytes \<Rightarrow> bytes \<Rightarrow> bytes option \<Rightarrow> bytes \<Rightarrow> 'l rooms_db
   \<Rightarrow> (service_error + u64) \<times> 'l rooms_db" where
  "append_to_state L fuel event_id kind state_key room_id db =
     (case get_or_create_shorteventid event_id (short db) of (shorteventid, sdb) \<Rightarrow>
     (let db = db\<lparr>short := sdb\<rparr>;
          previous_shortstatehash = get_room_shortstatehash db room_id;
          db = (case previous_shortstatehash of
                  Inr p \<Rightarrow> put_event_state shorteventid p db | Inl _ \<Rightarrow> db)
      in case state_key of
           None \<Rightarrow> (expect_hash ''first event in room must be a state event'' previous_shortstatehash, db)
         | Some state_key \<Rightarrow>
             (case try_states_parents L fuel previous_shortstatehash db of
                (Inl e, db) \<Rightarrow> (Inl e, db)
              | (Inr states_parents, db) \<Rightarrow>
             (case get_or_create_shortstatekey (kind, state_key) (short db) of (shortstatekey, sdb) \<Rightarrow>
             (case compress_state_event_id shortstatekey event_id sdb of (new, sdb) \<Rightarrow>
             (let replaces = find_replaced shortstatekey states_parents
              in if Some new = replaces then
                   (expect_hash ''must exist'' previous_shortstatehash, db\<lparr>short := sdb\<rparr>)
                 else
                   (case next_count sdb of (shortstatehash, sdb) \<Rightarrow>
                      (case save_state_from_diff shortstatehash {new}
                              (case replaces of Some r \<Rightarrow> {r} | None \<Rightarrow> {}) 2 states_parents
                              (state_compressor db) of
                         Inl e \<Rightarrow> (Inl e, db\<lparr>short := sdb\<rparr>)
                       | Inr st \<Rightarrow> (Inr shortstatehash, db\<lparr>short := sdb, state_compressor := st\<rparr>)))))))))"

subsection \<open>Forward extremities\<close>

text \<open>The key of a room's leaf, and the prefix of a room's keys.\<close>

definition leaf_key :: "bytes \<Rightarrow> bytes \<Rightarrow> bytes" where
  "leaf_key room_id event_id = pair_key (room_id, event_id)"

definition leaf_prefix :: "bytes \<Rightarrow> bytes" where
  "leaf_prefix room_id =
     (case serialize_to_vec (SerTuple [SerStr room_id, SerUnitStruct ''Interfix'']) of Inr b \<Rightarrow> b | Inl _ \<Rightarrow> [])"

text \<open>The keys from a prefix on, in byte order, while they have the prefix.\<close>

definition keys_prefix_raw :: "(bytes \<times> bytes) list \<Rightarrow> bytes \<Rightarrow> bytes list" where
  "keys_prefix_raw t p =
     takeWhile (\<lambda>k. take (length p) k = p) (filter (\<lambda>k. p \<le> k) (sort (map fst t)))"

definition de_leaf :: "bytes \<Rightarrow> bytes option" where
  "de_leaf b = (case from_slice (DeTuple [DeUnitStruct ''Ignore'', DeStr]) b of
       Inr (ValTuple [ValUnit, ValStr e]) \<Rightarrow> Some e | _ \<Rightarrow> None)"

definition get_forward_extremities :: "'l rooms_db \<Rightarrow> bytes \<Rightarrow> bytes list" where
  "get_forward_extremities db room_id =
     List.map_filter de_leaf (keys_prefix_raw (roomid_pduleaves db) (leaf_prefix room_id))"

definition all_forward_extremities :: "'l rooms_db \<Rightarrow> (bytes \<times> bytes) list" where
  "all_forward_extremities db =
     List.map_filter (\<lambda>k. case de_pair k of Inr p \<Rightarrow> Some p | Inl _ \<Rightarrow> None)
       (sort (map fst (roomid_pduleaves db)))"

definition set_forward_extremities :: "bytes \<Rightarrow> bytes list \<Rightarrow> 'l rooms_db \<Rightarrow> 'l rooms_db" where
  "set_forward_extremities room_id event_ids db =
     (let kept = fold AList.delete (keys_prefix_raw (roomid_pduleaves db) (leaf_prefix room_id))
            (roomid_pduleaves db)
      in db\<lparr>roomid_pduleaves :=
           fold (\<lambda>event_id. AList.update (leaf_key room_id event_id) event_id) event_ids kept\<rparr>)"

subsection \<open>Reading a state\<close>

definition load_full_state ::
  "'l state_lru \<Rightarrow> nat \<Rightarrow> u64 \<Rightarrow> 'l rooms_db \<Rightarrow> (service_error + compressed_state) \<times> 'l rooms_db" where
  "load_full_state L fuel shortstatehash db =
     (case load_shortstatehash_info L fuel shortstatehash (state_compressor db) of (r, st) \<Rightarrow>
        ((case r of
            Inl _ \<Rightarrow> Inl (DatabaseErr ''Missing state IDs'')
          | Inr [] \<Rightarrow> Inl (PanicErr ''at least one layer'')
          | Inr infos \<Rightarrow> Inr (si_full_state (last infos))),
         db\<lparr>state_compressor := st\<rparr>))"

text \<open>\<open>full_state.range(start..=end).next()\<close>, over all entries of a key.\<close>

definition first_in_range :: "u64 \<Rightarrow> compressed_state \<Rightarrow> bytes option" where
  "first_in_range shortstatekey full_state =
     (let start = compress_state_event shortstatekey 0;
          stop = compress_state_event shortstatekey (- 1)
      in List.find (\<lambda>b. start \<le> b \<and> b \<le> stop) (sorted_list_of_set full_state))"

definition state_contains_shortstatekey ::
  "'l state_lru \<Rightarrow> nat \<Rightarrow> u64 \<Rightarrow> u64 \<Rightarrow> 'l rooms_db \<Rightarrow> bool \<times> 'l rooms_db" where
  "state_contains_shortstatekey L fuel shortstatehash shortstatekey db =
     (case load_full_state L fuel shortstatehash db of
        (Inr full_state, db) \<Rightarrow> (first_in_range shortstatekey full_state \<noteq> None, db)
      | (Inl _, db) \<Rightarrow> (False, db))"

definition state_contains ::
  "'l state_lru \<Rightarrow> nat \<Rightarrow> u64 \<Rightarrow> bytes \<times> bytes \<Rightarrow> 'l rooms_db \<Rightarrow> bool \<times> 'l rooms_db" where
  "state_contains L fuel shortstatehash key db =
     (case get_shortstatekey (short db) key of
        Inl _ \<Rightarrow> (False, db)
      | Inr shortstatekey \<Rightarrow> state_contains_shortstatekey L fuel shortstatehash shortstatekey db)"

definition state_get_shortid ::
  "'l state_lru \<Rightarrow> nat \<Rightarrow> u64 \<Rightarrow> bytes \<times> bytes \<Rightarrow> 'l rooms_db \<Rightarrow> (service_error + u64) \<times> 'l rooms_db" where
  "state_get_shortid L fuel shortstatehash key db =
     (case get_shortstatekey (short db) key of
        Inl e \<Rightarrow> (Inl e, db)
      | Inr shortstatekey \<Rightarrow>
          (case load_full_state L fuel shortstatehash db of
             (Inl e, db) \<Rightarrow> (Inl e, db)
           | (Inr full_state, db) \<Rightarrow>
               (ok_or NotFoundErr
                  (map_option (\<lambda>b. snd (parse_compressed_state_event b)) (first_in_range shortstatekey full_state)),
                db)))"

definition state_get_id ::
  "'l state_lru \<Rightarrow> nat \<Rightarrow> u64 \<Rightarrow> bytes \<times> bytes \<Rightarrow> 'l rooms_db \<Rightarrow> (service_error + bytes) \<times> 'l rooms_db" where
  "state_get_id L fuel shortstatehash key db =
     (case state_get_shortid L fuel shortstatehash key db of
        (Inl e, db) \<Rightarrow> (Inl e, db)
      | (Inr shorteventid, db) \<Rightarrow> (get_eventid_from_short (short db) shorteventid, db))"

definition room_state_get_id ::
  "'l state_lru \<Rightarrow> nat \<Rightarrow> bytes \<Rightarrow> bytes \<times> bytes \<Rightarrow> 'l rooms_db \<Rightarrow> (service_error + bytes) \<times> 'l rooms_db" where
  "room_state_get_id L fuel room_id key db =
     (case get_room_shortstatehash db room_id of
        Inl e \<Rightarrow> (Inl e, db)
      | Inr shortstatehash \<Rightarrow> state_get_id L fuel shortstatehash key db)"

text \<open>The readers of a whole state; a state that cannot be loaded has no entries.\<close>

definition state_full_shortids ::
  "'l state_lru \<Rightarrow> nat \<Rightarrow> u64 \<Rightarrow> 'l rooms_db \<Rightarrow> (service_error + (u64 \<times> u64) list) \<times> 'l rooms_db" where
  "state_full_shortids L fuel shortstatehash db =
     (case load_full_state L fuel shortstatehash db of
        (Inl e, db) \<Rightarrow> (Inl e, db)
      | (Inr full_state, db) \<Rightarrow>
          (Inr (map parse_compressed_state_event (sorted_list_of_set full_state)), db))"

definition ignore_errors :: "(service_error + 'a list) \<times> 'd \<Rightarrow> 'a list \<times> 'd" where
  "ignore_errors r = (case r of (Inr xs, d) \<Rightarrow> (xs, d) | (Inl _, d) \<Rightarrow> ([], d))"

definition keep_ok :: "((service_error + 'a) \<times> 'b) list \<Rightarrow> ('a \<times> 'b) list" where
  "keep_ok xs = List.map_filter (\<lambda>(r, b). case r of Inr a \<Rightarrow> Some (a, b) | Inl _ \<Rightarrow> None) xs"

definition state_full_ids ::
  "'l state_lru \<Rightarrow> nat \<Rightarrow> u64 \<Rightarrow> 'l rooms_db \<Rightarrow> (u64 \<times> bytes) list \<times> 'l rooms_db" where
  "state_full_ids L fuel shortstatehash db =
     (case ignore_errors (state_full_shortids L fuel shortstatehash db) of (shortids, db) \<Rightarrow>
        (map (\<lambda>(event_id, shortstatekey). (shortstatekey, event_id))
           (keep_ok (zip (multi_get_eventid_from_short (short db) (map snd shortids)) (map fst shortids))), db))"

definition state_keys_with_shortids ::
  "'l state_lru \<Rightarrow> nat \<Rightarrow> u64 \<Rightarrow> bytes \<Rightarrow> 'l rooms_db \<Rightarrow> (bytes \<times> u64) list \<times> 'l rooms_db" where
  "state_keys_with_shortids L fuel shortstatehash event_type db =
     (case ignore_errors (state_full_shortids L fuel shortstatehash db) of (shortids, db) \<Rightarrow>
        (List.map_filter (\<lambda>((event_type', state_key), event_id).
             if event_type' = event_type then Some (state_key, event_id) else None)
           (keep_ok (zip (multi_get_statekey_from_short (short db) (map fst shortids)) (map snd shortids))), db))"

definition state_keys_with_ids ::
  "'l state_lru \<Rightarrow> nat \<Rightarrow> u64 \<Rightarrow> bytes \<Rightarrow> 'l rooms_db \<Rightarrow> (bytes \<times> bytes) list \<times> 'l rooms_db" where
  "state_keys_with_ids L fuel shortstatehash event_type db =
     (case state_keys_with_shortids L fuel shortstatehash event_type db of (keys, db) \<Rightarrow>
        (map (\<lambda>(eid, sk). (sk, eid))
           (keep_ok (zip (multi_get_eventid_from_short (short db) (map snd keys)) (map fst keys))), db))"

definition state_keys ::
  "'l state_lru \<Rightarrow> nat \<Rightarrow> u64 \<Rightarrow> bytes \<Rightarrow> 'l rooms_db \<Rightarrow> bytes list \<times> 'l rooms_db" where
  "state_keys L fuel shortstatehash event_type db =
     (case ignore_errors (state_full_shortids L fuel shortstatehash db) of (shortids, db) \<Rightarrow>
        (List.map_filter (\<lambda>r. case r of
             Inr (event_type', state_key) \<Rightarrow> if event_type' = event_type then Some state_key else None
           | Inl _ \<Rightarrow> None)
           (multi_get_statekey_from_short (short db) (map fst shortids)), db))"

definition state_contains_type ::
  "'l state_lru \<Rightarrow> nat \<Rightarrow> u64 \<Rightarrow> bytes \<Rightarrow> 'l rooms_db \<Rightarrow> bool \<times> 'l rooms_db" where
  "state_contains_type L fuel shortstatehash event_type db =
     (case state_keys L fuel shortstatehash event_type db of (keys, db) \<Rightarrow> (keys \<noteq> [], db))"

definition room_state_keys ::
  "'l state_lru \<Rightarrow> nat \<Rightarrow> bytes \<Rightarrow> bytes \<Rightarrow> 'l rooms_db \<Rightarrow> (service_error + bytes list) \<times> 'l rooms_db" where
  "room_state_keys L fuel room_id event_type db =
     (case get_room_shortstatehash db room_id of
        Inl e \<Rightarrow> (Inl e, db)
      | Inr shortstatehash \<Rightarrow>
          (case state_keys L fuel shortstatehash event_type db of (keys, db) \<Rightarrow> (Inr keys, db)))"

text \<open>The entries that one state has and the other has not.\<close>

definition state_added ::
  "'l state_lru \<Rightarrow> nat \<Rightarrow> u64 \<times> u64 \<Rightarrow> 'l rooms_db \<Rightarrow> (service_error + (u64 \<times> u64) list) \<times> 'l rooms_db" where
  "state_added L fuel shortstatehash db =
     (case load_full_state L fuel (fst shortstatehash) db of
        (Inl e, db) \<Rightarrow> (Inl e, db)
      | (Inr full_state_a, db) \<Rightarrow>
          (case load_full_state L fuel (snd shortstatehash) db of
             (Inl e, db) \<Rightarrow> (Inl e, db)
           | (Inr full_state_b, db) \<Rightarrow>
               (Inr (map parse_compressed_state_event (sorted_list_of_set (full_state_b - full_state_a))), db)))"

definition state_removed ::
  "'l state_lru \<Rightarrow> nat \<Rightarrow> u64 \<times> u64 \<Rightarrow> 'l rooms_db \<Rightarrow> (service_error + (u64 \<times> u64) list) \<times> 'l rooms_db" where
  "state_removed L fuel shortstatehash db = state_added L fuel (snd shortstatehash, fst shortstatehash) db"

definition pdu_shortstatehash :: "'l rooms_db \<Rightarrow> bytes \<Rightarrow> service_error + u64" where
  "pdu_shortstatehash db event_id =
     bindR (get_shorteventid (short db) event_id) (\<lambda>shorteventid.
     bindR (table_get (shorteventid_shortstatehash db) (to_be_bytes shorteventid)) de_u64)"

subsection \<open>A state as a map from short state keys to short event ids\<close>

definition one_per_key :: "compressed_state \<Rightarrow> bool" where
  "one_per_key S \<longleftrightarrow> (\<forall>a \<in> S. \<forall>b \<in> S. take 8 a = take 8 b \<longrightarrow> a = b)"

definition state_view :: "compressed_state \<Rightarrow> u64 \<Rightarrow> u64 option" where
  "state_view S k = map_option (\<lambda>b. snd (parse_compressed_state_event b))
     (List.find (\<lambda>b. take 8 b = to_be_bytes k) (sorted_list_of_set S))"

lemma entry_split:
  assumes "entry_ok b"
  shows "b = compress_state_event (from_be_bytes (take 8 b)) (snd (parse_compressed_state_event b))"
  using assms by (simp add: entry_ok_def compress_state_event_def parse_compressed_state_event_def to_from_be_bytes)

lemma find_the_one:
  assumes "x \<in> set xs" and "P x" and "\<And>y. y \<in> set xs \<Longrightarrow> P y \<Longrightarrow> y = x"
  shows "List.find P xs = Some x"
  using assms
proof (induction xs)
  case (Cons a xs)
  show ?case
  proof (cases "P a")
    case True
    then show ?thesis using Cons.prems(3) [of a] by simp
  next
    case False
    then have "x \<in> set xs" using Cons.prems(1,2) by auto
    then have "List.find P xs = Some x"
      by (rule Cons.IH [OF _ Cons.prems(2)]) (rule Cons.prems(3), simp)
    then show ?thesis using False by simp
  qed
qed simp

lemma find_in_state:
  assumes "entries_ok S" and "one_per_key S" and "b \<in> S" and "take 8 b = to_be_bytes k"
  shows "List.find (\<lambda>b. take 8 b = to_be_bytes k) (sorted_list_of_set S) = Some b"
proof (rule find_the_one)
  show "b \<in> set (sorted_list_of_set S)" using assms(1,3) by (simp add: entries_ok_def)
  show "c = b" if "c \<in> set (sorted_list_of_set S)" "take 8 c = to_be_bytes k" for c
  proof -
    have "c \<in> S" using that(1) assms(1) by (simp add: entries_ok_def)
    then show ?thesis using assms(2,3,4) that(2) unfolding one_per_key_def by metis
  qed
qed (rule assms(4))

lemma find_SomeD: "finite S \<Longrightarrow> List.find P (sorted_list_of_set S) = Some b \<Longrightarrow> b \<in> S \<and> P b"
  using find_Some_iff [of P "sorted_list_of_set S" b] nth_mem [of _ "sorted_list_of_set S"] by fastforce

lemma state_view_iff:
  assumes "entries_ok S" and "one_per_key S"
  shows "state_view S k = Some e \<longleftrightarrow> compress_state_event k e \<in> S"
proof
  assume "state_view S k = Some e"
  then obtain b where b: "List.find (\<lambda>b. take 8 b = to_be_bytes k) (sorted_list_of_set S) = Some b"
    "snd (parse_compressed_state_event b) = e" by (auto simp: state_view_def)
  then have "b \<in> S" "take 8 b = to_be_bytes k" using assms(1) find_SomeD [of S _ b] by (auto simp: entries_ok_def)
  moreover from this have "entry_ok b" using assms(1) by (simp add: entries_ok_def)
  ultimately show "compress_state_event k e \<in> S" using entry_split [of b] b(2) by simp
next
  assume "compress_state_event k e \<in> S"
  from find_in_state [OF assms this] show "state_view S k = Some e"
    by (simp add: state_view_def compress_state_event_def parse_compressed_state_event_def)
qed

text \<open>Putting an entry in the place of the one with the same key.\<close>

definition replace_entry :: "u64 \<Rightarrow> u64 \<Rightarrow> compressed_state \<Rightarrow> compressed_state" where
  "replace_entry k e S = insert (compress_state_event k e) {b \<in> S. take 8 b \<noteq> to_be_bytes k}"

lemma compress_take [simp]: "take 8 (compress_state_event k e) = to_be_bytes k"
  by (simp add: compress_state_event_def)

lemma compress_eq [simp]: "compress_state_event k e = compress_state_event k' e' \<longleftrightarrow> k = k' \<and> e = e'"
  by (simp add: compress_state_event_def)

lemma compress_entry_ok: "k \<noteq> 0 \<Longrightarrow> entry_ok (compress_state_event k e)"
  by (simp add: entry_ok_def compress_state_event_def)

lemma replace_entry_ok:
  assumes "entries_ok S" and "one_per_key S" and "k \<noteq> 0"
  shows "entries_ok (replace_entry k e S)" and "one_per_key (replace_entry k e S)"
  using assms compress_entry_ok [OF assms(3), of e]
  by (auto simp: entries_ok_def replace_entry_def one_per_key_def)

lemma state_view_replace:
  assumes "entries_ok S" and "one_per_key S" and "k \<noteq> 0"
  shows "state_view (replace_entry k e S) = (state_view S)(k \<mapsto> e)"
proof
  fix k'
  have "state_view (replace_entry k e S) k' = Some e' \<longleftrightarrow> ((state_view S)(k \<mapsto> e)) k' = Some e'" for e'
    unfolding state_view_iff [OF replace_entry_ok [OF assms]] using state_view_iff [OF assms(1,2), of k' e']
    by (auto simp: replace_entry_def)
  then show "state_view (replace_entry k e S) k' = ((state_view S)(k \<mapsto> e)) k'"
    by (metis option.exhaust)
qed

text \<open>What \<open>append_to_state\<close> removes and adds.\<close>

lemma replaced_diff:
  assumes "entries_ok S" and "one_per_key S" and "S = top_state ps"
    and "Some (compress_state_event k e) \<noteq> find_replaced k ps"
  shows "replace_entry k e S - S = {compress_state_event k e}"
    and "S - replace_entry k e S = (case find_replaced k ps of Some r \<Rightarrow> {r} | None \<Rightarrow> {})"
proof -
  have fin: "finite S" using assms(1) by (simp add: entries_ok_def)
  have rep: "find_replaced k ps = List.find (\<lambda>b. take 8 b = to_be_bytes k) (sorted_list_of_set S)"
    using assms(3) by (simp add: find_replaced_def top_state_def)
  have new: "compress_state_event k e \<notin> S"
    using find_in_state [OF assms(1,2), of "compress_state_event k e" k] assms(4) rep by auto
  then show "replace_entry k e S - S = {compress_state_event k e}" by (auto simp: replace_entry_def)
  show "S - replace_entry k e S = (case find_replaced k ps of Some r \<Rightarrow> {r} | None \<Rightarrow> {})"
  proof (cases "find_replaced k ps")
    case None
    then have "\<forall>b \<in> S. take 8 b \<noteq> to_be_bytes k" using rep fin by (simp add: find_None_iff)
    then show ?thesis using None by (auto simp: replace_entry_def)
  next
    case (Some r)
    then have "r \<in> S" "take 8 r = to_be_bytes k" using rep find_SomeD [OF fin, of "\<lambda>b. take 8 b = to_be_bytes k" r] by auto
    then show ?thesis using Some new assms(2) by (auto simp: replace_entry_def one_per_key_def)
  qed
qed

lemma replaced_same:
  assumes "entries_ok S" and "one_per_key S" and "S = top_state ps"
    and "Some (compress_state_event k e) = find_replaced k ps"
  shows "replace_entry k e S = S" and "ps \<noteq> []"
proof -
  have fin: "finite S" using assms(1) by (simp add: entries_ok_def)
  show ps: "ps \<noteq> []" using assms(4) by (auto simp: find_replaced_def)
  have "List.find (\<lambda>b. take 8 b = to_be_bytes k) (sorted_list_of_set S) = Some (compress_state_event k e)"
    using assms(3,4) ps by (simp add: find_replaced_def top_state_def)
  from find_SomeD [OF fin this] have "compress_state_event k e \<in> S" by simp
  then show "replace_entry k e S = S" using assms(2) by (auto simp: replace_entry_def one_per_key_def)
qed

subsection \<open>The entries of a key are a range\<close>

lemma lex_le_append_same: "(xs :: 'a::linorder list) @ ys \<le> xs @ zs \<longleftrightarrow> ys \<le> zs"
  using lex_less_append_same [of xs zs ys] by (meson linorder_not_less)

lemma lex_le_append_diff:
  assumes "length xs = length ys" and "xs \<noteq> ys"
  shows "(xs :: 'a::linorder list) @ us \<le> ys @ vs \<longleftrightarrow> xs < ys"
  using lex_less_append_diff [OF assms(1)[symmetric] assms(2)[symmetric], of vs us] assms(2)
  by (metis linorder_not_less order.strict_iff_order)

lemma to_be_bytes_le_iff: "to_be_bytes v \<le> to_be_bytes w \<longleftrightarrow> v \<le> w"
  using to_be_bytes_less_iff [of w v] by (meson linorder_not_less)

lemma range_of_key:
  assumes "entry_ok b"
  shows "compress_state_event k 0 \<le> b \<and> b \<le> compress_state_event k (- 1) \<longleftrightarrow> take 8 b = to_be_bytes k"
proof -
  define k' e where "k' = from_be_bytes (take 8 b)" and "e = snd (parse_compressed_state_event b)"
  have b: "b = to_be_bytes k' @ to_be_bytes e"
    using entry_split [OF assms] by (simp add: k'_def e_def compress_state_event_def)
  show ?thesis
  proof (cases "k' = k")
    case True
    have "e \<le> - 1" by (rule word_order.extremum)
    then show ?thesis using True unfolding b compress_state_event_def
      by (simp add: lex_le_append_same to_be_bytes_le_iff)
  next
    case False
    then show ?thesis unfolding b compress_state_event_def
      by (auto simp: lex_le_append_diff to_be_bytes_less_iff)
  qed
qed

lemma first_in_range_view:
  assumes "entries_ok S"
  shows "map_option (\<lambda>b. snd (parse_compressed_state_event b)) (first_in_range k S) = state_view S k"
proof -
  have "List.find (\<lambda>b. compress_state_event k 0 \<le> b \<and> b \<le> compress_state_event k (- 1)) (sorted_list_of_set S)
      = List.find (\<lambda>b. take 8 b = to_be_bytes k) (sorted_list_of_set S)"
    using assms range_of_key by (intro find_cong refl) (auto simp: entries_ok_def)
  then show ?thesis by (simp add: first_in_range_def state_view_def Let_def)
qed

subsection \<open>Drawing short ids keeps the stores consistent\<close>

text \<open>The short ids of one table are kept in another, and the ones it adds are greater than \<open>c\<close>.\<close>

definition kept :: "table \<Rightarrow> table \<Rightarrow> bool" where
  "kept t t' \<longleftrightarrow> (\<forall>k s. lookup_short t k = Some s \<longrightarrow> lookup_short t' k = Some s)"

definition only_above :: "u64 \<Rightarrow> table \<Rightarrow> table \<Rightarrow> bool" where
  "only_above c t t' \<longleftrightarrow> (\<forall>k s. lookup_short t' k = Some s \<longrightarrow> s \<le> c \<longrightarrow> lookup_short t k = Some s)"

lemma kept_refl [simp]: "kept t t"
  by (simp add: kept_def)

lemma kept_trans: "kept t u \<Longrightarrow> kept u v \<Longrightarrow> kept t v"
  unfolding kept_def by blast

lemma only_above_refl [simp]: "only_above c t t"
  by (simp add: only_above_def)

lemma only_above_trans: "only_above c t u \<Longrightarrow> only_above c' u v \<Longrightarrow> c \<le> c' \<Longrightarrow> only_above c t v"
  unfolding only_above_def by (meson order_trans)

text \<open>What drawing numbers and short ids of events and state keys does to the tables.\<close>

definition short_extends :: "short_db \<Rightarrow> short_db \<Rightarrow> bool" where
  "short_extends sdb sdb' \<longleftrightarrow> db_wf sdb' \<and> counter sdb \<le> counter sdb'
     \<and> statehash_shortstatehash sdb' = statehash_shortstatehash sdb
     \<and> kept (eventid_shorteventid sdb) (eventid_shorteventid sdb')
     \<and> kept (statekey_shortstatekey sdb) (statekey_shortstatekey sdb')
     \<and> only_above (counter sdb) (eventid_shorteventid sdb) (eventid_shorteventid sdb')"

lemma short_extends_trans:
  assumes "short_extends a b" and "short_extends b c"
  shows "short_extends a c"
proof -
  have "only_above (counter a) (eventid_shorteventid a) (eventid_shorteventid c)"
    using assms only_above_trans unfolding short_extends_def by blast
  then show ?thesis using assms kept_trans unfolding short_extends_def by (metis order_trans)
qed

lemma next_count_step:
  assumes "db_wf sdb" and "room_left (Suc n) sdb" and "next_count sdb = (h, sdb')"
  shows "short_extends sdb sdb'" and "room_left n sdb'" and "counter sdb' = h" and "counter sdb < h"
    and "eventid_shorteventid sdb' = eventid_shorteventid sdb"
    and "statekey_shortstatekey sdb' = statekey_shortstatekey sdb"
proof -
  note left = room_left_step [OF assms(2)]
  have ne: "counter sdb \<noteq> - 1" using left(1) by (simp add: exhausted_def)
  note eqs = assms(3) [symmetric, unfolded next_count_eq [OF ne]]
  show c: "counter sdb' = h" "counter sdb < h" using eqs succ_bounds [OF ne] by simp_all
  show tabs: "eventid_shorteventid sdb' = eventid_shorteventid sdb"
    "statekey_shortstatekey sdb' = statekey_shortstatekey sdb" using eqs by simp_all
  have "db_wf sdb'" using assms(1) eqs ne by (simp add: db_wf_def short_table_succ)
  then show "short_extends sdb sdb'" using eqs succ_bounds [OF ne] by (simp add: short_extends_def)
  show "room_left n sdb'" using assms(2) eqs left(2) by (simp add: room_left_def)
qed

lemma event_id_step:
  assumes "db_wf sdb" and "room_left (Suc n) sdb" and "get_or_create_shorteventid e sdb = (s, sdb')"
  shows "short_extends sdb sdb'" and "room_left n sdb'" and "lookup_short (eventid_shorteventid sdb') e = Some s"
    and "statekey_shortstatekey sdb' = statekey_shortstatekey sdb" and "s \<le> counter sdb'"
proof -
  note left = room_left_step [OF assms(2)]
  note step = get_or_create_event_step [OF assms]
  have ne: "counter sdb \<noteq> - 1" using left(1) by (simp add: exhausted_def)
  have wf: "db_wf sdb'" and found: "lookup_short (eventid_shorteventid sdb') e = Some s"
    using event_ids.get_or_create_wf [OF assms(1) _ left(1) assms(3)] by simp_all
  have keep: "kept (eventid_shorteventid sdb) (eventid_shorteventid sdb')"
    using event_ids.get_or_create_keeps [OF assms(1) _ left(1) assms(3)] by (simp add: kept_def)
  have same: "statehash_shortstatehash sdb' = statehash_shortstatehash sdb"
    "statekey_shortstatekey sdb' = statekey_shortstatekey sdb" "counter sdb \<le> counter sdb'"
    using step(3) succ_bounds [OF ne] by (auto simp: create_shorteventid_def next_count_eq [OF ne])
  moreover have "only_above (counter sdb) (eventid_shorteventid sdb) (eventid_shorteventid sdb')"
    using step(3) succ_bounds [OF ne]
    by (auto simp: only_above_def create_shorteventid_def next_count_eq [OF ne] split: if_splits)
  ultimately show "short_extends sdb sdb'" using wf keep by (simp add: short_extends_def)
  show "room_left n sdb'" by (rule step(2))
  show "lookup_short (eventid_shorteventid sdb') e = Some s" by (rule found)
  show "statekey_shortstatekey sdb' = statekey_shortstatekey sdb" by (rule same(2))
  show "s \<le> counter sdb'" using wf found short_table_bound unfolding db_wf_def by blast
qed

lemma state_key_step:
  assumes "db_wf sdb" and "room_left (Suc n) sdb" and "key_pair_ok p" and "get_or_create_shortstatekey p sdb = (s, sdb')"
  shows "short_extends sdb sdb'" and "room_left n sdb'" and "lookup_short (statekey_shortstatekey sdb') (pair_key p) = Some s"
    and "eventid_shorteventid sdb' = eventid_shorteventid sdb" and "s \<noteq> 0"
    and "\<And>q. key_pair_ok q \<Longrightarrow> q \<noteq> p \<Longrightarrow> lookup_short (statekey_shortstatekey sdb') (pair_key q)
      = lookup_short (statekey_shortstatekey sdb) (pair_key q)"
proof -
  note left = room_left_step [OF assms(2)]
  have ne: "counter sdb \<noteq> - 1" using left(1) by (simp add: exhausted_def)
  have wf: "db_wf sdb'" and found: "lookup_short (statekey_shortstatekey sdb') (pair_key p) = Some s"
    using state_keys.get_or_create_wf [OF assms(1,3) left(1) assms(4)] by simp_all
  have st: "short_table (counter sdb) (statekey_shortstatekey sdb)" using assms(1) by (simp add: db_wf_def)
  have cases: "sdb' = sdb \<or> (counter sdb' = counter sdb + 1 \<and> eventid_shorteventid sdb' = eventid_shorteventid sdb
      \<and> statehash_shortstatehash sdb' = statehash_shortstatehash sdb
      \<and> statekey_shortstatekey sdb (pair_key p) = None
      \<and> statekey_shortstatekey sdb' = (statekey_shortstatekey sdb)(pair_key p \<mapsto> to_be_bytes s))"
    using assms(4) by (cases "statekey_shortstatekey sdb (pair_key p)")
      (auto simp: get_or_create_shortstatekey_def get_shortstatekey_def table_lookup [OF st] next_count_eq [OF ne])
  have keep: "kept (statekey_shortstatekey sdb) (statekey_shortstatekey sdb')"
    using cases by (auto simp: kept_def lookup_short_def)
  show same: "eventid_shorteventid sdb' = eventid_shorteventid sdb" using cases by auto
  show "short_extends sdb sdb'" using cases wf keep succ_bounds [OF ne] by (auto simp: short_extends_def)
  show "room_left n sdb'" using cases assms(2) left(2) by (auto simp: room_left_def)
  show "lookup_short (statekey_shortstatekey sdb') (pair_key p) = Some s" by (rule found)
  show "s \<noteq> 0" using wf found by (auto simp: db_wf_def lookup_short_def elim!: short_tableE)
  show "lookup_short (statekey_shortstatekey sdb') (pair_key q) = lookup_short (statekey_shortstatekey sdb) (pair_key q)"
    if "key_pair_ok q" "q \<noteq> p" for q
    using cases pair_codec.enc_inject [OF that(1) assms(3)] that(2) by auto
qed

subsection \<open>Keeping the invariant of the stores\<close>

lemma rooms_ok_unrelated [simp]:
  "rooms_ok L sha (db\<lparr>shorteventid_shortstatehash := t\<rparr>) = rooms_ok L sha db"
  "rooms_ok L sha (db\<lparr>roomid_pduleaves := u\<rparr>) = rooms_ok L sha db"
  by (simp_all add: rooms_ok_def get_room_shortstatehash_def)

lemma rooms_ok_short:
  assumes "rooms_ok L sha db" and "short_extends (short db) sdb'"
  shows "rooms_ok L sha (db\<lparr>short := sdb'\<rparr>)"
proof -
  have "\<forall>h. shortstatehash_statediff (state_compressor db) (to_be_bytes h) \<noteq> None \<longrightarrow> h \<le> counter sdb'"
    using assms unfolding rooms_ok_def short_extends_def by (meson order_trans)
  then show ?thesis using assms by (simp add: rooms_ok_def short_extends_def get_room_shortstatehash_def)
qed

lemma get_room_set_room [simp]:
  "get_room_shortstatehash (set_room_state room h db) room' = (if room' = room then Inr h else get_room_shortstatehash db room')"
  by (simp add: get_room_shortstatehash_def set_room_state_def table_get_def)

lemma set_room_state_fields [simp]:
  "short (set_room_state room h db) = short db" "state_compressor (set_room_state room h db) = state_compressor db"
  by (simp_all add: set_room_state_def)

lemma rooms_ok_set_room:
  assumes "rooms_ok L sha db" and "holds (state_compressor db) h S"
  shows "rooms_ok L sha (set_room_state room h db)"
  using assms unfolding rooms_ok_def set_room_state_fields get_room_set_room by (auto split: if_splits)

lemma put_event_state_fields [simp]:
  "short (put_event_state e h db) = short db" "state_compressor (put_event_state e h db) = state_compressor db"
  "get_room_shortstatehash (put_event_state e h db) = get_room_shortstatehash db"
  "rooms_ok L sha (put_event_state e h db) = rooms_ok L sha db"
  by (simp_all add: put_event_state_def get_room_shortstatehash_def fun_eq_iff)

text \<open>A state stored under a number just drawn.\<close>

lemma save_numbered:
  assumes "rooms_ok L sha db" and "short_extends (short db) sdb'" and "counter sdb' = h" and "counter (short db) < h"
    and "entries_ok New" and "ps = [] \<or> (\<exists>p. layers (state_compressor db) p ps)" and "sib \<le> 2 ^ 31"
    and "card (New - top_state ps) + card (top_state ps - New) + sum_list (map layer_size ps) \<le> 2 ^ 31"
  obtains st' where "save_state_from_diff h (New - top_state ps) (top_state ps - New) sib ps (state_compressor db) = Inr st'"
    "rooms_ok L sha (db\<lparr>short := sdb', state_compressor := st'\<rparr>)" "holds st' h New"
    "\<forall>h' S. holds (state_compressor db) h' S \<longrightarrow> holds st' h' S"
proof -
  let ?st = "state_compressor db"
  have ok: "store_ok L ?st" using assms(1) by (simp add: rooms_ok_def)
  have num: "i \<le> counter (short db)" if "shortstatehash_statediff ?st (to_be_bytes i) \<noteq> None" for i
    using assms(1) that unfolding rooms_ok_def by blast
  have fresh: "shortstatehash_statediff ?st (to_be_bytes h) = None" using num [of h] assms(4) by fastforce
  have nz: "h \<noteq> 0" using assms(4) by auto
  obtain st' where st': "save_state_from_diff h (New - top_state ps) (top_state ps - New) sib ps ?st = Inr st'"
    "store_ok L st'" "preserved ?st st' h"
    "\<forall>h' S. holds st' h' S \<longleftrightarrow> (if h' = h then S = New else holds ?st h' S)"
    using save_holds [OF ok assms(6,5) nz fresh assms(8,7)] by blast
  have none: "\<not> holds ?st h S" for S using fresh by (auto simp: holds_def get_statediff_def dest!: layers_stored)
  have keep: "\<forall>h' S. holds ?st h' S \<longrightarrow> holds st' h' S" using st'(4) none by auto
  have ok': "rooms_ok L sha (db\<lparr>short := sdb'\<rparr>)" by (rule rooms_ok_short [OF assms(1,2)])
  have "i \<le> h" if "shortstatehash_statediff st' (to_be_bytes i) \<noteq> None" for i
  proof (cases "i = h")
    case False
    then have "shortstatehash_statediff ?st (to_be_bytes i) \<noteq> None" using that st'(3) by (simp add: preserved_def)
    from num [OF this] show ?thesis using assms(4) by simp
  qed simp
  then have "rooms_ok L sha (db\<lparr>short := sdb', state_compressor := st'\<rparr>)"
    using ok' st'(2) keep assms(3) unfolding rooms_ok_def get_room_shortstatehash_def by (simp, blast)
  then show ?thesis using that st'(1,4) keep by simp
qed

lemma try_parents:
  assumes "rooms_ok L sha db" and "room_layers db room ps" and "4 \<le> fuel" and "state_compressor db' = state_compressor db"
  obtains c where "try_states_parents L fuel (get_room_shortstatehash db room) db'
      = (Inr ps, db'\<lparr>state_compressor := state_compressor db\<lparr>stateinfo_cache := c\<rparr>\<rparr>)"
    "store_ok L (state_compressor db\<lparr>stateinfo_cache := c\<rparr>)"
proof (cases "get_room_shortstatehash db room")
  case (Inl e)
  have "store_ok L (state_compressor db)" using assms(1) by (simp add: rooms_ok_def)
  moreover have "db'\<lparr>state_compressor := state_compressor db\<rparr> = db'" using assms(4) by simp
  ultimately show ?thesis using that [of "stateinfo_cache (state_compressor db)"] Inl assms(2)
    by (simp add: room_layers_def try_states_parents_def)
next
  case (Inr p)
  have "store_ok L (state_compressor db)" "layers (state_compressor db) p ps"
    using assms(1,2) Inr by (simp_all add: rooms_ok_def room_layers_def)
  from load_holds [OF this assms(3)] show ?thesis using that Inr assms(4) by (auto simp: try_states_parents_def)
qed

subsection \<open>Appending an event to the state of a room\<close>

text \<open>
  The view of a room: the map from short state keys to short event ids that its current state is,
  empty for a room without state. A state is well formed when each key has one event, and the short
  ids of the events have been given out.
\<close>

definition view_ok :: "short_db \<Rightarrow> compressed_state \<Rightarrow> bool" where
  "view_ok sdb S \<longleftrightarrow> one_per_key S \<and> (\<forall>k e. compress_state_event k e \<in> S \<longrightarrow> e \<le> counter sdb)"

lemma view_ok_mono: "view_ok sdb S \<Longrightarrow> counter sdb \<le> counter sdb' \<Longrightarrow> view_ok sdb' S"
  unfolding view_ok_def by (meson order_trans)

lemma top_state_ok:
  assumes "rooms_ok L sha db" and "room_layers db room ps"
  shows "entries_ok (top_state ps)" and "ps = [] \<or> (\<exists>p. layers (state_compressor db) p ps)"
proof -
  show ps: "ps = [] \<or> (\<exists>p. layers (state_compressor db) p ps)"
    using assms(2) by (auto simp: room_layers_def split: sum.splits)
  moreover have "store_ok L (state_compressor db)" using assms(1) by (simp add: rooms_ok_def)
  ultimately have "stored_layers (state_compressor db) ps" by (auto simp: store_ok_def stored_layers_def)
  then show "entries_ok (top_state ps)"
    using exact_layers_entries [of "{}" ps] by (simp add: stored_layers_def top_state_def entries_ok_def)
qed

text \<open>What appending a state event returns and leaves behind.\<close>

definition appended ::
  "'l state_lru \<Rightarrow> (bytes \<Rightarrow> bytes) \<Rightarrow> 'l rooms_db \<Rightarrow> compressed_state \<Rightarrow> bytes \<Rightarrow> bytes \<times> bytes
   \<Rightarrow> (service_error + u64) \<times> 'l rooms_db \<Rightarrow> bool" where
  "appended L sha db Old event_id key result \<longleftrightarrow> (\<exists>h db' k e. result = (Inr h, db') \<and> rooms_ok L sha db'
     \<and> short_extends (short db) (short db')
     \<and> lookup_short (statekey_shortstatekey (short db')) (pair_key key) = Some k
     \<and> lookup_short (eventid_shorteventid (short db')) event_id = Some e
     \<and> (\<forall>key'. key_pair_ok key' \<longrightarrow> key' \<noteq> key \<longrightarrow>
          lookup_short (statekey_shortstatekey (short db')) (pair_key key')
          = lookup_short (statekey_shortstatekey (short db)) (pair_key key'))
     \<and> holds (state_compressor db') h (replace_entry k e Old)
     \<and> view_ok (short db') (replace_entry k e Old)
     \<and> state_view (replace_entry k e Old) = (state_view Old)(k \<mapsto> e)
     \<and> (\<forall>h' S. holds (state_compressor db) h' S \<longrightarrow> holds (state_compressor db') h' S)
     \<and> roomid_shortstatehash db' = roomid_shortstatehash db)"

lemma view_ok_replace:
  assumes "entries_ok S" and "view_ok sdb S" and "k \<noteq> 0" and "e \<le> counter sdb"
  shows "view_ok sdb (replace_entry k e S)"
  using replace_entry_ok(2) [OF assms(1) _ assms(3), of e] assms(2,4) by (auto simp: view_ok_def replace_entry_def)

text \<open>The event and its key get their short ids; the event's is asked for twice.\<close>

lemma append_short_ids:
  assumes "db_wf sdb" and "room_left 3 sdb" and "key_pair_ok key"
  obtains e sdb1 k sdb2 where "get_or_create_shorteventid event_id sdb = (e, sdb1)"
    "get_or_create_shortstatekey key sdb1 = (k, sdb2)" "compress_state_event_id k event_id sdb2 = (compress_state_event k e, sdb2)"
    "short_extends sdb sdb1" "short_extends sdb sdb2" "room_left 1 sdb2" "k \<noteq> 0" "e \<le> counter sdb2"
    "lookup_short (statekey_shortstatekey sdb2) (pair_key key) = Some k"
    "lookup_short (eventid_shorteventid sdb2) event_id = Some e"
    "\<forall>q. key_pair_ok q \<longrightarrow> q \<noteq> key \<longrightarrow> lookup_short (statekey_shortstatekey sdb2) (pair_key q)
      = lookup_short (statekey_shortstatekey sdb) (pair_key q)"
proof -
  obtain e sdb1 where e: "get_or_create_shorteventid event_id sdb = (e, sdb1)"
    by (cases "get_or_create_shorteventid event_id sdb")
  obtain k sdb2 where k: "get_or_create_shortstatekey key sdb1 = (k, sdb2)" by (cases "get_or_create_shortstatekey key sdb1")
  have l3: "room_left (Suc 2) sdb" using assms(2) by (simp add: numeral_3_eq_3)
  note es = event_id_step [OF assms(1) l3 e]
  have wf1: "db_wf sdb1" using es(1) by (simp add: short_extends_def)
  have l2: "room_left (Suc 1) sdb1" using es(2) by (simp add: numeral_2_eq_2)
  note ks = state_key_step [OF wf1 l2 assms(3) k]
  have wf2: "db_wf sdb2" using ks(1) by (simp add: short_extends_def)
  have ev2: "lookup_short (eventid_shorteventid sdb2) event_id = Some e" using es(3) ks(4) by simp
  have again: "get_or_create_shorteventid event_id sdb2 = (e, sdb2)" by (rule event_ids.found [OF wf2 ev2])
  have bound: "e \<le> counter sdb2" using es(5) ks(1) unfolding short_extends_def by (meson order_trans)
  have other: "\<forall>q. key_pair_ok q \<longrightarrow> q \<noteq> key \<longrightarrow> lookup_short (statekey_shortstatekey sdb2) (pair_key q)
      = lookup_short (statekey_shortstatekey sdb) (pair_key q)" using ks(6) es(4) by simp
  show ?thesis
    by (rule that [OF e k _ es(1) short_extends_trans [OF es(1) ks(1)] ks(2,5) bound ks(3) ev2 other])
      (simp add: compress_state_event_id_def again)
qed

text \<open>The run up to the point where the new entry is compared with the one it replaces.\<close>

lemma append_run:
  assumes "rooms_ok L sha db" and "room_layers db room ps" and "4 \<le> fuel"
    and "get_or_create_shorteventid event_id (short db) = (e, sdb1)"
    and "get_or_create_shortstatekey (kind, state_key) sdb1 = (k, sdb2)"
    and "compress_state_event_id k event_id sdb2 = (new, sdb2)" and "short_extends (short db) sdb2"
  obtains db2 where "append_to_state L fuel event_id kind (Some state_key) room db =
     (if Some new = find_replaced k ps then (expect_hash ''must exist'' (get_room_shortstatehash db room), db2)
      else (case next_count sdb2 of (h, sdb3) \<Rightarrow>
        (case save_state_from_diff h {new} (case find_replaced k ps of Some r \<Rightarrow> {r} | None \<Rightarrow> {}) 2 ps
                (state_compressor db2) of
           Inl err \<Rightarrow> (Inl err, db2\<lparr>short := sdb3\<rparr>)
         | Inr st \<Rightarrow> (Inr h, db2\<lparr>short := sdb3, state_compressor := st\<rparr>))))"
    "rooms_ok L sha db2" "short db2 = sdb2" "roomid_shortstatehash db2 = roomid_shortstatehash db"
    "\<And>h S. holds (state_compressor db2) h S \<longleftrightarrow> holds (state_compressor db) h S"
    "\<And>p. layers (state_compressor db2) p ps \<longleftrightarrow> layers (state_compressor db) p ps"
proof -
  let ?prev = "get_room_shortstatehash db room"
  let ?db1 = "case ?prev of Inr p \<Rightarrow> put_event_state e p (db\<lparr>short := sdb1\<rparr>) | Inl _ \<Rightarrow> db\<lparr>short := sdb1\<rparr>"
  have db1: "state_compressor ?db1 = state_compressor db" "short ?db1 = sdb1"
    "roomid_shortstatehash ?db1 = roomid_shortstatehash db"
    by (simp_all add: put_event_state_def split: sum.splits)
  obtain c where c: "try_states_parents L fuel ?prev ?db1
      = (Inr ps, ?db1\<lparr>state_compressor := state_compressor db\<lparr>stateinfo_cache := c\<rparr>\<rparr>)"
    "store_ok L (state_compressor db\<lparr>stateinfo_cache := c\<rparr>)"
    by (rule try_parents [OF assms(1-3) db1(1)])
  let ?db2 = "?db1\<lparr>state_compressor := state_compressor db\<lparr>stateinfo_cache := c\<rparr>, short := sdb2\<rparr>"
  have prev1: "get_room_shortstatehash (db\<lparr>short := sdb1\<rparr>) room = ?prev" by (simp add: get_room_shortstatehash_def)
  have run: "append_to_state L fuel event_id kind (Some state_key) room db =
     (if Some new = find_replaced k ps then (expect_hash ''must exist'' ?prev, ?db2)
      else (case next_count sdb2 of (h, sdb3) \<Rightarrow>
        (case save_state_from_diff h {new} (case find_replaced k ps of Some r \<Rightarrow> {r} | None \<Rightarrow> {}) 2 ps
                (state_compressor ?db2) of
           Inl err \<Rightarrow> (Inl err, ?db2\<lparr>short := sdb3\<rparr>)
         | Inr st \<Rightarrow> (Inr h, ?db2\<lparr>short := sdb3, state_compressor := st\<rparr>))))"
    unfolding append_to_state_def assms(4) Let_def prod.case option.case prev1 c(1) sum.case
    by (cases "next_count sdb2") (simp add: db1(2) assms(5,6) cong: sum.case_cong)
  have "rooms_ok L sha (db\<lparr>short := sdb2\<rparr>)" by (rule rooms_ok_short [OF assms(1,7)])
  from rooms_ok_cache [OF this, of c] c(2)
  have "rooms_ok L sha (db\<lparr>short := sdb2, state_compressor := state_compressor db\<lparr>stateinfo_cache := c\<rparr>\<rparr>)" by simp
  then have "rooms_ok L sha ?db2"
    by (simp add: rooms_ok_def get_room_shortstatehash_def put_event_state_def split: sum.splits)
  then show ?thesis using that [OF run] db1(3) by simp
qed

lemma append_correct:
  assumes "rooms_ok L sha db" and "room_left 3 (short db)" and "room_layers db room ps"
    and "view_ok (short db) (top_state ps)" and "key_pair_ok (kind, state_key)" and "4 \<le> fuel"
    and "2 + sum_list (map layer_size ps) \<le> 2 ^ 31"
  shows "appended L sha db (top_state ps) event_id (kind, state_key)
    (append_to_state L fuel event_id kind (Some state_key) room db)"
proof -
  let ?Old = "top_state ps"
  have wf: "db_wf (short db)" using assms(1) by (simp add: rooms_ok_def)
  obtain e sdb1 k sdb2 where ids: "get_or_create_shorteventid event_id (short db) = (e, sdb1)"
    "get_or_create_shortstatekey (kind, state_key) sdb1 = (k, sdb2)"
    "compress_state_event_id k event_id sdb2 = (compress_state_event k e, sdb2)"
    "short_extends (short db) sdb1" "short_extends (short db) sdb2" "room_left 1 sdb2" "k \<noteq> 0" "e \<le> counter sdb2"
    and found: "lookup_short (statekey_shortstatekey sdb2) (pair_key (kind, state_key)) = Some k"
    "lookup_short (eventid_shorteventid sdb2) event_id = Some e"
    "\<forall>q. key_pair_ok q \<longrightarrow> q \<noteq> (kind, state_key) \<longrightarrow> lookup_short (statekey_shortstatekey sdb2) (pair_key q)
      = lookup_short (statekey_shortstatekey (short db)) (pair_key q)"
    by (rule append_short_ids [OF wf assms(2,5)])
  obtain db2 where run: "append_to_state L fuel event_id kind (Some state_key) room db =
     (if Some (compress_state_event k e) = find_replaced k ps then (expect_hash ''must exist'' (get_room_shortstatehash db room), db2)
      else (case next_count sdb2 of (h, sdb3) \<Rightarrow>
        (case save_state_from_diff h {compress_state_event k e} (case find_replaced k ps of Some r \<Rightarrow> {r} | None \<Rightarrow> {}) 2 ps
                (state_compressor db2) of
           Inl err \<Rightarrow> (Inl err, db2\<lparr>short := sdb3\<rparr>)
         | Inr st \<Rightarrow> (Inr h, db2\<lparr>short := sdb3, state_compressor := st\<rparr>))))"
    and db2: "rooms_ok L sha db2" "short db2 = sdb2" "roomid_shortstatehash db2 = roomid_shortstatehash db"
    "\<And>h S. holds (state_compressor db2) h S \<longleftrightarrow> holds (state_compressor db) h S"
    "\<And>p. layers (state_compressor db2) p ps \<longleftrightarrow> layers (state_compressor db) p ps"
    using append_run [OF assms(1,3,6) ids(1-3,5)] by blast
  note top = top_state_ok [OF assms(1,3)]
  have one: "one_per_key ?Old" using assms(4) by (simp add: view_ok_def)
  let ?New = "replace_entry k e ?Old"
  have view: "state_view ?New = (state_view ?Old)(k \<mapsto> e)" by (rule state_view_replace [OF top(1) one ids(7)])
  have new_ok: "view_ok sdb2 ?New"
    using view_ok_replace [OF top(1) view_ok_mono [OF assms(4)] ids(7,8)] ids(5) by (simp add: short_extends_def)
  show ?thesis
  proof (cases "Some (compress_state_event k e) = find_replaced k ps")
    case True
    note same = replaced_same [OF top(1) one refl True]
    obtain p where p: "get_room_shortstatehash db room = Inr p" "layers (state_compressor db) p ps"
      using assms(3) same(2) by (auto simp: room_layers_def split: sum.splits)
    then have "holds (state_compressor db) p ?Old" using same(2) by (auto simp: holds_def top_state_def)
    then show ?thesis unfolding appended_def run
      using True p(1) ids(5) found new_ok view same(1) db2
      by (intro exI [of _ p] exI [of _ db2] exI [of _ k] exI [of _ e]) (simp add: expect_hash_def)
  next
    case False
    note diff = replaced_diff [OF top(1) one refl False]
    obtain h sdb3 where n: "next_count sdb2 = (h, sdb3)" by (cases "next_count sdb2")
    have wf2: "db_wf sdb2" and l1: "room_left (Suc 0) sdb2" using ids(5,6) by (simp_all add: short_extends_def)
    note ns = next_count_step [OF wf2 l1 n]
    have "card (?New - ?Old) + card (?Old - ?New) \<le> 2" unfolding diff by (simp split: option.splits)
    then have size: "card (?New - ?Old) + card (?Old - ?New) + sum_list (map layer_size ps) \<le> 2 ^ 31"
      using assms(7) by linarith
    obtain st' where st': "save_state_from_diff h (?New - ?Old) (?Old - ?New) 2 ps (state_compressor db2) = Inr st'"
      "rooms_ok L sha (db2\<lparr>short := sdb3, state_compressor := st'\<rparr>)" "holds st' h ?New"
      "\<forall>h' S. holds (state_compressor db2) h' S \<longrightarrow> holds st' h' S"
      by (rule save_numbered [OF db2(1) _ ns(3) _ replace_entry_ok(1) [OF top(1) one ids(7)] _ sibling_sizes(1) size])
        (use ns(1,4) top(2) db2(2,5) in simp_all)
    have ext': "short_extends (short db) sdb3" by (rule short_extends_trans [OF ids(5) ns(1)])
    have new_ok': "view_ok sdb3 ?New" by (rule view_ok_mono [OF new_ok]) (use ns(3,4) in simp)
    show ?thesis unfolding appended_def run n
      using False st' ext' new_ok' view found ns(5,6) db2(3,4) unfolding diff
      by (intro exI [of _ h] exI [of _ "db2\<lparr>short := sdb3, state_compressor := st'\<rparr>"] exI [of _ k] exI [of _ e]) simp
  qed
qed

text \<open>C10. Appending a state event refines the update of a map: the state that is returned maps the key of
  the event to the event and every other key to what it was mapped to before, the old states stay as
  they are, and the invariant of the stores holds again.\<close>

theorem append_to_state_refines:
  assumes "rooms_ok L sha db" and "room_left 3 (short db)" and "room_layers db room ps"
    and "view_ok (short db) (top_state ps)" and "key_pair_ok (kind, state_key)" and "4 \<le> fuel"
    and "2 + sum_list (map layer_size ps) \<le> 2 ^ 31"
  shows "appended L sha db (top_state ps) event_id (kind, state_key)
    (append_to_state L fuel event_id kind (Some state_key) room db)"
  by (rule append_correct [OF assms])

definition sample_rooms :: "(u64 \<times> short_state_info list) list rooms_db" where
  "sample_rooms = \<lparr>short = new_db, state_compressor = empty_compressor, roomid_shortstatehash = Map.empty,
     shorteventid_shortstatehash = Map.empty, roomid_pduleaves = []\<rparr>"

lemma sample_rooms_ok: "rooms_ok (list_lru 2) (\<lambda>b. b) sample_rooms"
  using new_db_wf empty_compressor_ok [of 2]
  by (simp add: rooms_ok_def sample_rooms_def new_db_def empty_compressor_def lookup_short_def
      get_room_shortstatehash_def table_get_def)

lemma sample_rooms_layers: "room_layers sample_rooms room []"
  by (simp add: room_layers_def sample_rooms_def get_room_shortstatehash_def table_get_def)

lemma sample_rooms_left: "room_left 3 (short sample_rooms)" "view_ok (short sample_rooms) (top_state [])"
  by (simp_all add: room_left_def sample_rooms_def new_db_def view_ok_def one_per_key_def top_state_def)

theorem append_to_state_refines_witness:
  "appended (list_lru 2) (\<lambda>b. b) sample_rooms {} [0x24] ([0x6d], [])
     (append_to_state (list_lru 2) 4 [0x24] [0x6d] (Some []) [0x21] sample_rooms)"
  using append_to_state_refines [OF sample_rooms_ok sample_rooms_left(1) sample_rooms_layers sample_rooms_left(2),
      of "[0x6d]" "[]" 4 "[0x24]" "[0x21]"]
  by (simp add: key_pair_ok_def top_state_def)

subsection \<open>Looking events up in a state\<close>

lemma load_full_ok:
  assumes "store_ok L (state_compressor db)" and "holds (state_compressor db) h S" and "4 \<le> fuel"
  obtains c where "load_full_state L fuel h db = (Inr S, db\<lparr>state_compressor := state_compressor db\<lparr>stateinfo_cache := c\<rparr>\<rparr>)"
    "store_ok L (state_compressor db\<lparr>stateinfo_cache := c\<rparr>)"
proof -
  obtain s where s: "layers (state_compressor db) h s" "si_full_state (last s) = S" using assms(2) by (auto simp: holds_def)
  obtain c where c: "load_shortstatehash_info L fuel h (state_compressor db) = (Inr s, state_compressor db\<lparr>stateinfo_cache := c\<rparr>)"
    "store_ok L (state_compressor db\<lparr>stateinfo_cache := c\<rparr>)" using load_holds [OF assms(1) s(1) assms(3)] by blast
  have "s \<noteq> []" using layers_last [OF s(1)] by simp
  then show ?thesis using that [of c] c s(2) by (cases s) (auto simp: load_full_state_def)
qed

text \<open>The event id that a state with a given view holds under a key.\<close>

definition view_get :: "short_db \<Rightarrow> compressed_state \<Rightarrow> bytes \<times> bytes \<Rightarrow> service_error + bytes" where
  "view_get sdb S key = (case lookup_short (statekey_shortstatekey sdb) (pair_key key) of
       None \<Rightarrow> Inl NotFoundErr
     | Some k \<Rightarrow> (case state_view S k of None \<Rightarrow> Inl NotFoundErr | Some e \<Rightarrow> get_eventid_from_short sdb e))"

lemma holds_entries: "store_ok L st \<Longrightarrow> holds st h S \<Longrightarrow> entries_ok S"
  using exact_layers_entries [of "{}"] layers_last
  by (fastforce simp: holds_def store_ok_def stored_layers_def entries_ok_def)

lemma get_shortstatekey_lookup:
  assumes "db_wf sdb"
  shows "get_shortstatekey sdb key = ok_or NotFoundErr (lookup_short (statekey_shortstatekey sdb) (pair_key key))"
proof -
  have "short_table (counter sdb) (statekey_shortstatekey sdb)" using assms by (simp add: db_wf_def)
  from table_lookup [OF this, of "pair_key key"] show ?thesis
    by (simp add: get_shortstatekey_def lookup_short_def split: option.split)
qed

lemma state_get_id_view:
  assumes "rooms_ok L sha db" and "holds (state_compressor db) h S" and "4 \<le> fuel"
  shows "fst (state_get_id L fuel h key db) = view_get (short db) S key"
proof -
  have ok: "db_wf (short db)" "store_ok L (state_compressor db)" using assms(1) by (simp_all add: rooms_ok_def)
  obtain c where c: "load_full_state L fuel h db = (Inr S, db\<lparr>state_compressor := state_compressor db\<lparr>stateinfo_cache := c\<rparr>\<rparr>)"
    by (rule load_full_ok [OF ok(2) assms(2,3)])
  note view = first_in_range_view [OF holds_entries [OF ok(2) assms(2)]]
  show ?thesis
    by (cases "lookup_short (statekey_shortstatekey (short db)) (pair_key key)")
      (auto simp: state_get_id_def state_get_shortid_def get_shortstatekey_lookup [OF ok(1)] c view_get_def view
        split: option.split)
qed

lemma room_get_view:
  assumes "rooms_ok L sha db" and "room_layers db room ps" and "4 \<le> fuel"
  shows "fst (room_state_get_id L fuel room key db) = Inr x \<longleftrightarrow> view_get (short db) (top_state ps) key = Inr x"
proof (cases "get_room_shortstatehash db room")
  case (Inl e)
  then have "ps = []" using assms(2) by (simp add: room_layers_def)
  then have "view_get (short db) (top_state ps) key \<noteq> Inr x"
    by (auto simp: view_get_def top_state_def state_view_def split: option.splits)
  then show ?thesis using Inl by (simp add: room_state_get_id_def)
next
  case (Inr p)
  then have l: "layers (state_compressor db) p ps" using assms(2) by (simp add: room_layers_def)
  then have "holds (state_compressor db) p (top_state ps)" using layers_last [OF l] by (auto simp: holds_def top_state_def)
  from state_get_id_view [OF assms(1) this assms(3)] show ?thesis using Inr by (simp add: room_state_get_id_def)
qed

lemma eventid_of_old_short:
  assumes "db_wf sdb" and "short_extends sdb sdb'" and "e \<le> counter sdb"
  shows "get_eventid_from_short sdb' e = get_eventid_from_short sdb e"
proof -
  have inv: "shorteventid_eventid s (to_be_bytes e) = Some x \<longleftrightarrow> lookup_short (eventid_shorteventid s) x = Some e"
    if "db_wf s" for s x
    using that lookup_shortD [of "counter s" "eventid_shorteventid s" x e]
    unfolding db_wf_def inverse_tables_def by (auto simp: lookup_short_def)
  have "db_wf sdb'" using assms(2) by (simp add: short_extends_def)
  then have "shorteventid_eventid sdb' (to_be_bytes e) = Some x \<longleftrightarrow> shorteventid_eventid sdb (to_be_bytes e) = Some x" for x
    using inv assms unfolding short_extends_def kept_def only_above_def by metis
  then have "shorteventid_eventid sdb' (to_be_bytes e) = shorteventid_eventid sdb (to_be_bytes e)"
    by (metis option.exhaust)
  then show ?thesis by (simp add: get_eventid_from_short_def table_get_def)
qed

text \<open>What a lookup sees of an append.\<close>

lemma view_get_appended:
  assumes "db_wf sdb" and "short_extends sdb sdb'" and "view_ok sdb Old" and "entries_ok Old"
    and "lookup_short (statekey_shortstatekey sdb') (pair_key key) = Some k"
    and "lookup_short (eventid_shorteventid sdb') event_id = Some e" and "utf8_ok event_id" and "length event_id < usize_max"
    and "\<forall>q. key_pair_ok q \<longrightarrow> q \<noteq> key \<longrightarrow>
      lookup_short (statekey_shortstatekey sdb') (pair_key q) = lookup_short (statekey_shortstatekey sdb) (pair_key q)"
    and "state_view New = (state_view Old)(k \<mapsto> e)" and "key_pair_ok key" and "key_pair_ok q"
  shows "view_get sdb' New q = (if q = key then Inr event_id else view_get sdb Old q)"
proof (cases "q = key")
  case True
  have "db_wf sdb'" using assms(2) by (simp add: short_extends_def)
  from eventid_of_short [OF this assms(6-8)] show ?thesis using True assms(5,10) by (simp add: view_get_def)
next
  case False
  have wf: "db_wf sdb'" using assms(2) by (simp add: short_extends_def)
  have same: "lookup_short (statekey_shortstatekey sdb') (pair_key q) = lookup_short (statekey_shortstatekey sdb) (pair_key q)"
    using assms(9,12) False by blast
  show ?thesis
  proof (cases "lookup_short (statekey_shortstatekey sdb) (pair_key q)")
    case None
    then show ?thesis using False same by (simp add: view_get_def)
  next
    case (Some k')
    then have "k' \<noteq> k" using state_keys.inj [OF wf assms(12,11)] same assms(5) False by auto
    moreover have "get_eventid_from_short sdb' e' = get_eventid_from_short sdb e'" if "state_view Old k' = Some e'" for e'
    proof (rule eventid_of_old_short [OF assms(1,2)])
      have "compress_state_event k' e' \<in> Old" using that state_view_iff [OF assms(4), of k' e'] assms(3) by (simp add: view_ok_def)
      then show "e' \<le> counter sdb" using assms(3) by (auto simp: view_ok_def)
    qed
    ultimately show ?thesis using False Some same assms(10) by (auto simp: view_get_def split: option.split)
  qed
qed

text \<open>C9. After a state event is appended to a room and the room is set to the state this returns,
  looking the event's key up in the room gives the event, and every other key gives what it gave before.\<close>

theorem room_state_after_append:
  assumes "rooms_ok L sha db" and "room_left 3 (short db)" and "room_layers db room ps"
    and "view_ok (short db) (top_state ps)" and "key_pair_ok (kind, state_key)" and "4 \<le> fuel"
    and "2 + sum_list (map layer_size ps) \<le> 2 ^ 31" and "utf8_ok event_id" and "length event_id < usize_max"
  shows "\<exists>h db'. append_to_state L fuel event_id kind (Some state_key) room db = (Inr h, db')
    \<and> rooms_ok L sha (set_room_state room h db')
    \<and> (\<forall>key x. key_pair_ok key \<longrightarrow>
         (fst (room_state_get_id L fuel room key (set_room_state room h db')) = Inr x
          \<longleftrightarrow> (if key = (kind, state_key) then x = event_id
               else fst (room_state_get_id L fuel room key db) = Inr x)))"
proof -
  from append_correct [OF assms(1-7), of event_id] obtain h db' k e where
    run: "append_to_state L fuel event_id kind (Some state_key) room db = (Inr h, db')" and ok: "rooms_ok L sha db'"
    and ext: "short_extends (short db) (short db')"
    and k: "lookup_short (statekey_shortstatekey (short db')) (pair_key (kind, state_key)) = Some k"
    and e: "lookup_short (eventid_shorteventid (short db')) event_id = Some e"
    and other: "\<forall>key'. key_pair_ok key' \<longrightarrow> key' \<noteq> (kind, state_key) \<longrightarrow>
          lookup_short (statekey_shortstatekey (short db')) (pair_key key')
          = lookup_short (statekey_shortstatekey (short db)) (pair_key key')"
    and holds: "holds (state_compressor db') h (replace_entry k e (top_state ps))"
    and view: "state_view (replace_entry k e (top_state ps)) = (state_view (top_state ps))(k \<mapsto> e)"
    unfolding appended_def by blast
  have wf: "db_wf (short db)" using assms(1) by (simp add: rooms_ok_def)
  have ok': "rooms_ok L sha (set_room_state room h db')" by (rule rooms_ok_set_room [OF ok holds])
  have got: "fst (room_state_get_id L fuel room key (set_room_state room h db'))
      = (if key = (kind, state_key) then Inr event_id else view_get (short db) (top_state ps) key)"
    if "key_pair_ok key" for key
    using state_get_id_view [OF ok', of h "replace_entry k e (top_state ps)" fuel key] holds assms(6)
      view_get_appended [OF wf ext assms(4) top_state_ok(1) [OF assms(1,3)] k e assms(8,9) other view assms(5) that]
    by (simp add: room_state_get_id_def)
  show ?thesis using run ok' got room_get_view [OF assms(1,3,6)] by (intro exI [of _ h] exI [of _ db']) auto
qed

theorem room_state_after_append_witness:
  "\<exists>h db'. append_to_state (list_lru 2) 4 [0x24] [0x6d] (Some []) [0x21] sample_rooms = (Inr h, db')
     \<and> fst (room_state_get_id (list_lru 2) 4 [0x21] ([0x6d], []) (set_room_state [0x21] h db')) = Inr [0x24]"
proof -
  have key: "key_pair_ok ([0x6d], [])" by (simp add: key_pair_ok_def)
  show ?thesis
    using room_state_after_append [OF sample_rooms_ok sample_rooms_left(1) sample_rooms_layers sample_rooms_left(2) key,
        of 4 "[0x24]" "[0x21]"] key
    by auto
qed

subsection \<open>Reading several states\<close>

text \<open>
  What the readers of stored states rely on: loading a stored state gives it, keeps the invariant, and
  changes no stored state, so that states can be loaded one after the other.
\<close>

locale state_reader =
  fixes ok :: "'db \<Rightarrow> bool" and stored :: "'db \<Rightarrow> u64 \<Rightarrow> 's \<Rightarrow> bool"
    and load :: "u64 \<Rightarrow> 'db \<Rightarrow> (service_error + 's) \<times> 'db"
  assumes loaded: "ok db \<Longrightarrow> stored db h S \<Longrightarrow> load h db = (r, db') \<Longrightarrow>
      r = Inr S \<and> ok db' \<and> (\<forall>h S. stored db' h S \<longleftrightarrow> stored db h S)"
begin

lemma load_twice:
  assumes "ok db" and "stored db h S" and "stored db h' S'"
  obtains db1 db2 where "load h db = (Inr S, db1)" "load h' db1 = (Inr S', db2)" "ok db2"
    "\<And>h S. stored db2 h S \<longleftrightarrow> stored db h S"
proof -
  obtain r db1 where l1: "load h db = (r, db1)" by (cases "load h db")
  note one = loaded [OF assms(1,2) l1]
  then have "stored db1 h' S'" "ok db1" using assms(3) by simp_all
  obtain r' db2 where l2: "load h' db1 = (r', db2)" by (cases "load h' db1")
  note two = loaded [OF \<open>ok db1\<close> \<open>stored db1 h' S'\<close> l2]
  show ?thesis using that [of db1 db2] l1 l2 one two by simp
qed

end

interpretation reader: state_reader "rooms_ok L sha" "\<lambda>db. holds (state_compressor db)" "load_full_state L (4 + n)"
  for L :: "'l state_lru" and sha n
proof unfold_locales
  fix db db' h S r
  assume ok: "rooms_ok L sha db" and h: "holds (state_compressor db) h S" and l: "load_full_state L (4 + n) h db = (r, db')"
  have st: "store_ok L (state_compressor db)" using ok by (simp add: rooms_ok_def)
  obtain c where c: "load_full_state L (4 + n) h db = (Inr S, db\<lparr>state_compressor := state_compressor db\<lparr>stateinfo_cache := c\<rparr>\<rparr>)"
    "store_ok L (state_compressor db\<lparr>stateinfo_cache := c\<rparr>)" by (rule load_full_ok [OF st h le_add1])
  then show "r = Inr S \<and> rooms_ok L sha db' \<and> (\<forall>h S. holds (state_compressor db') h S \<longleftrightarrow> holds (state_compressor db) h S)"
    using l rooms_ok_cache [OF ok c(2)] by simp
qed

text \<open>The entries that are in one of two states and not in the other, in the order of the entries.\<close>

lemma state_added_correct:
  assumes "rooms_ok L sha db" and "holds (state_compressor db) a A" and "holds (state_compressor db) b B"
  shows "fst (state_added L (4 + n) (a, b) db) = Inr (map parse_compressed_state_event (sorted_list_of_set (B - A)))
    \<and> fst (state_removed L (4 + n) (a, b) db) = Inr (map parse_compressed_state_event (sorted_list_of_set (A - B)))"
proof -
  obtain db1 db2 where "load_full_state L (4 + n) a db = (Inr A, db1)" "load_full_state L (4 + n) b db1 = (Inr B, db2)"
    by (rule reader.load_twice [OF assms])
  moreover obtain db3 db4 where "load_full_state L (4 + n) b db = (Inr B, db3)" "load_full_state L (4 + n) a db3 = (Inr A, db4)"
    by (rule reader.load_twice [OF assms(1,3,2)])
  ultimately show ?thesis by (simp add: state_added_def state_removed_def)
qed

subsection \<open>The state before an event\<close>

lemma statehash_keeps_events:
  "get_or_create_shortstatehash hash sdb = (r, sdb') \<Longrightarrow> eventid_shorteventid sdb' = eventid_shorteventid sdb"
  by (auto simp: get_or_create_shortstatehash_def next_count_def Let_def split: sum.splits prod.splits)

lemma pdu_shortstatehash_put:
  assumes "db_wf (short db)" and "lookup_short (eventid_shorteventid (short db)) event_id = Some e"
  shows "pdu_shortstatehash (put_event_state e h db) event_id = Inr h"
proof -
  have "short_table (counter (short db)) (eventid_shorteventid (short db))" using assms(1) by (simp add: db_wf_def)
  from table_lookup [OF this, of event_id] have "get_shorteventid (short db) event_id = Inr e"
    using assms(2) by (auto simp: get_shorteventid_def lookup_short_def split: option.splits)
  then show ?thesis by (simp add: pdu_shortstatehash_def put_event_state_def table_get_def)
qed

text \<open>What setting the state of an event leaves behind.\<close>

definition event_state_set ::
  "'l state_lru \<Rightarrow> (bytes \<Rightarrow> bytes) \<Rightarrow> 'l rooms_db \<Rightarrow> compressed_state \<Rightarrow> bytes
   \<Rightarrow> (service_error + u64) \<times> 'l rooms_db \<Rightarrow> bool" where
  "event_state_set L sha db New event_id result \<longleftrightarrow> (\<exists>h db'. result = (Inr h, db') \<and> rooms_ok L sha db'
     \<and> holds (state_compressor db') h New \<and> pdu_shortstatehash db' event_id = Inr h
     \<and> (\<forall>h' S. holds (state_compressor db) h' S \<longrightarrow> holds (state_compressor db') h' S)
     \<and> roomid_shortstatehash db' = roomid_shortstatehash db)"

lemma event_state_setI:
  assumes "result = (Inr h, put_event_state e h db')" and "rooms_ok L sha db'" and "holds (state_compressor db') h New"
    and "lookup_short (eventid_shorteventid (short db')) event_id = Some e"
    and "\<forall>h' S. holds (state_compressor db) h' S \<longrightarrow> holds (state_compressor db') h' S"
    and "roomid_shortstatehash db' = roomid_shortstatehash db"
  shows "event_state_set L sha db New event_id result"
proof -
  have "db_wf (short db')" using assms(2) by (simp add: rooms_ok_def)
  from pdu_shortstatehash_put [OF this assms(4), of h] have "pdu_shortstatehash (put_event_state e h db') event_id = Inr h" .
  moreover have "roomid_shortstatehash (put_event_state e h db') = roomid_shortstatehash db"
    using assms(6) by (simp add: put_event_state_def)
  ultimately show ?thesis unfolding event_state_set_def assms(1) using assms(2,3,5)
    by (intro exI [of _ h] exI [of _ "put_event_state e h db'"]) simp
qed

text \<open>Setting the state of an event returns a short state hash that stands for the state, and the
  event is found to have this state; no stored state and no room's current state changes.\<close>

lemma set_event_state_correct:
  assumes "rooms_ok L sha db" and "room_left 2 (short db)" and "collision_free sha (state_compressor db) New"
    and "entries_ok New" and "room_layers db room ps" and "4 \<le> fuel"
    and "card (New - top_state ps) + card (top_state ps - New) + sum_list (map layer_size ps) \<le> 2 ^ 31"
  shows "event_state_set L sha db New event_id (set_event_state L sha fuel event_id room New db)"
proof -
  let ?hash = "calculate_hash sha (sorted_list_of_set New)"
  have wf: "db_wf (short db)" using assms(1) by (simp add: rooms_ok_def)
  obtain e sdb1 where e: "get_or_create_shorteventid event_id (short db) = (e, sdb1)"
    by (cases "get_or_create_shorteventid event_id (short db)")
  have l2: "room_left (Suc 1) (short db)" using assms(2) by (simp add: numeral_2_eq_2)
  note es = event_id_step [OF wf l2 e]
  have l1: "room_left (Suc 0) sdb1" using es(2) by simp
  have wf1: "db_wf sdb1" using es(1) by (simp add: short_extends_def)
  let ?db1 = "db\<lparr>short := sdb1\<rparr>"
  have ok1: "rooms_ok L sha ?db1" by (rule rooms_ok_short [OF assms(1) es(1)])
  have layers1: "room_layers ?db1 room ps" using assms(5) by (simp add: room_layers_def get_room_shortstatehash_def split: sum.splits)
  have free1: "collision_free sha (state_compressor ?db1) New" using assms(3) by simp
  show ?thesis
  proof (rule get_or_create_hash_cases [OF wf1 room_left_step(1) [OF l1], of ?hash])
    fix h assume h: "lookup_short (statehash_shortstatehash sdb1) ?hash = Some h"
      "get_or_create_shortstatehash ?hash sdb1 = ((h, True), sdb1)"
    have "holds (state_compressor ?db1) h New" by (rule rooms_ok_hash [OF ok1 free1 assms(4)]) (use h(1) in simp)
    moreover have "set_event_state L sha fuel event_id room New db = (Inr h, put_event_state e h ?db1)"
      by (simp add: set_event_state_def e h(2))
    ultimately show ?thesis using event_state_setI [OF _ ok1] es(3) by simp
  next
    fix h sdb2 assume n: "lookup_short (statehash_shortstatehash sdb1) ?hash = None"
      "get_or_create_shortstatehash ?hash sdb1 = ((h, False), sdb2)" "db_wf sdb2" "counter sdb2 = h" "0 < h"
      "counter sdb1 < h" "\<And>k. lookup_short (statehash_shortstatehash sdb2) k
         = (if k = ?hash then Some h else lookup_short (statehash_shortstatehash sdb1) k)"
    have n1: "lookup_short (statehash_shortstatehash (short ?db1)) ?hash = None" "counter (short ?db1) < h"
      using n(1,6) by simp_all
    have table: "lookup_short (statehash_shortstatehash sdb2) k
        = (if k = ?hash then Some h else lookup_short (statehash_shortstatehash (short ?db1)) k)" for k
      using n(7) [of k] by simp
    have same: "state_compressor (db\<lparr>short := sdb2\<rparr>) = state_compressor ?db1" by simp
    obtain c where c: "try_states_parents L fuel (get_room_shortstatehash ?db1 room) (db\<lparr>short := sdb2\<rparr>)
        = (Inr ps, db\<lparr>short := sdb2\<rparr>\<lparr>state_compressor := state_compressor ?db1\<lparr>stateinfo_cache := c\<rparr>\<rparr>)"
      "store_ok L (state_compressor ?db1\<lparr>stateinfo_cache := c\<rparr>)"
      by (rule try_parents [OF ok1 layers1 assms(6) same])
    obtain st' where st': "save_state_from_diff h (New - top_state ps) (top_state ps - New) 1000000 ps
        (state_compressor ?db1\<lparr>stateinfo_cache := c\<rparr>) = Inr st'"
      "rooms_ok L sha (?db1\<lparr>short := sdb2, state_compressor := st'\<rparr>)" "holds st' h New"
      "\<forall>h' S. holds (state_compressor ?db1) h' S \<longrightarrow> holds st' h' S"
      by (rule save_created [OF ok1 assms(4) layers1 c(2) sibling_sizes(2) assms(7) n1(1) n(3-5) n1(2) table])
    have prev: "get_room_shortstatehash ?db1 room = get_room_shortstatehash db room"
      by (simp add: get_room_shortstatehash_def)
    have "set_event_state L sha fuel event_id room New db
        = (Inr h, put_event_state e h (db\<lparr>short := sdb2, state_compressor := st'\<rparr>))"
      using c(1) st'(1) unfolding prev
      by (cases "ps = []") (simp_all add: set_event_state_def e n(2) top_state_def)
    then show ?thesis using event_state_setI [of _ h e "db\<lparr>short := sdb2, state_compressor := st'\<rparr>" L sha New event_id db]
        st'(2-4) es(3) statehash_keeps_events [OF n(2)] by simp
  qed
qed

subsection \<open>Forward extremities\<close>

lemma leaf_prefix_eq: "leaf_prefix room = room @ [SEP]"
  using serialize_tuple_join [of "[SerStr room, SerUnitStruct ''Interfix'']"] by (simp add: leaf_prefix_def)

lemma prefix_le: "take (length p) k = p \<Longrightarrow> (p :: 'a::linorder list) \<le> k"
proof (induction p arbitrary: k)
  case (Cons a p)
  then show ?case by (cases k) auto
qed simp

lemma prefix_between:
  "(p :: 'a::linorder list) \<le> x \<Longrightarrow> x \<le> y \<Longrightarrow> take (length p) y = p \<Longrightarrow> take (length p) x = p"
proof (induction p arbitrary: x y)
  case (Cons a p)
  then show ?case by (cases x; cases y) auto
qed simp

text \<open>Scanning from a prefix while it lasts finds all keys that have it.\<close>

lemma keys_prefix_raw_eq: "keys_prefix_raw t p = filter (\<lambda>k. take (length p) k = p) (sort (map fst t))"
proof -
  have "takeWhile (\<lambda>k. take (length p) k = p) (filter (\<lambda>k. p \<le> k) ks) = filter (\<lambda>k. take (length p) k = p) ks"
    if "sorted ks" for ks :: "bytes list"
    using that
  proof (induction ks)
    case (Cons k ks)
    have "filter (\<lambda>k. take (length p) k = p) ks = []" if "p \<le> k" "take (length p) k \<noteq> p"
      using prefix_between [OF that(1)] that(2) Cons.prems by (auto simp: filter_empty_conv)
    moreover have "p \<le> k" if "take (length p) k = p" using prefix_le [OF that] .
    ultimately show ?case using Cons by auto
  qed simp
  then show ?thesis by (simp add: keys_prefix_raw_def)
qed

definition leaves_ok :: "(bytes \<times> bytes) list \<Rightarrow> bool" where
  "leaves_ok t \<longleftrightarrow> distinct (map fst t) \<and> (\<forall>k \<in> fst ` set t. \<exists>r e. k = leaf_key r e \<and> key_pair_ok (r, e))"

text \<open>The leaves that a table holds for a room.\<close>

definition leaves :: "(bytes \<times> bytes) list \<Rightarrow> bytes \<Rightarrow> bytes set" where
  "leaves t room = {e. leaf_key room e \<in> fst ` set t \<and> key_pair_ok (room, e)}"

lemma leaf_key_eq: "leaf_key r e = r @ SEP # e"
  by (simp add: leaf_key_def pair_key_eq)

lemma leaf_key_inject [simp]:
  "key_pair_ok (r, e) \<Longrightarrow> key_pair_ok (r', e') \<Longrightarrow> leaf_key r e = leaf_key r' e' \<longleftrightarrow> r = r' \<and> e = e'"
  using pair_codec.enc_inject [of "(r, e)" "(r', e')"] by (simp add: leaf_key_def)

lemma leaf_of_room:
  assumes "key_pair_ok (r, e)" and "utf8_ok room"
  shows "take (length (leaf_prefix room)) (leaf_key r e) = leaf_prefix room \<longleftrightarrow> r = room"
proof
  assume "take (length (leaf_prefix room)) (leaf_key r e) = leaf_prefix room"
  then have "\<exists>rest. r @ SEP # e = room @ SEP # rest"
    using append_take_drop_id [of "length (leaf_prefix room)" "leaf_key r e"]
    by (auto simp: leaf_prefix_eq leaf_key_eq) metis
  then obtain rest where "r @ SEP # e = room @ SEP # rest" by blast
  moreover have "SEP \<notin> set r" "SEP \<notin> set room" using assms utf8_ok_no_SEP by (auto simp: key_pair_ok_def)
  ultimately show "r = room" using takeWhile_record [of r "SEP # e"] takeWhile_record [of room "SEP # rest"] by simp
qed (simp add: leaf_prefix_eq leaf_key_eq)

lemma de_leaf_key:
  assumes "key_pair_ok (r, e)"
  shows "de_leaf (leaf_key r e) = Some e"
proof -
  let ?d = "sequence_start \<lparr>buf = leaf_key r e, pos = 0, rec = 0, seq = False\<rparr>"
  have "de_ok ?d" using assms by (simp add: de_ok_def key_pair_ok_def leaf_key_eq)
  then have "\<exists>d'. visit_tuple [DeUnitStruct ''Ignore'', DeStr] ?d = Inr ([ValUnit, ValStr e], d')"
    using assms
    by (intro visit_tuple_read_all [where vs = "[SerStr r, SerStr e]"]) (simp_all add: key_pair_ok_def leaf_key_eq)
  then show ?thesis by (auto simp: de_leaf_def from_slice_def)
qed

lemma leaves_finite: "finite (leaves t room)"
proof -
  have "leaves t room \<subseteq> drop (length room + 1) ` fst ` set t"
  proof
    fix e assume "e \<in> leaves t room"
    then have "leaf_key room e \<in> fst ` set t" by (simp add: leaves_def)
    moreover have "e = drop (length room + 1) (leaf_key room e)" by (simp add: leaf_key_eq)
    ultimately show "e \<in> drop (length room + 1) ` fst ` set t" by (rule rev_image_eqI)
  qed
  then show ?thesis by (rule finite_subset) simp
qed

lemma leaf_keys_sorted: "sorted es \<Longrightarrow> sorted (map (leaf_key room) es)"
  by (simp add: sorted_map leaf_key_eq lex_le_append_same)

lemma get_leaves:
  assumes "leaves_ok (roomid_pduleaves db)" and "utf8_ok room"
  shows "get_forward_extremities db room = sorted_list_of_set (leaves (roomid_pduleaves db) room)"
proof -
  let ?t = "roomid_pduleaves db" and ?es = "sorted_list_of_set (leaves (roomid_pduleaves db) room)"
  have es: "set ?es = leaves ?t room" using leaves_finite by simp
  have ok: "\<forall>e \<in> set ?es. key_pair_ok (room, e)" unfolding es by (simp add: leaves_def)
  have "set (keys_prefix_raw ?t (leaf_prefix room)) = set (map (leaf_key room) ?es)"
  proof (intro equalityI subsetI)
    fix k assume "k \<in> set (keys_prefix_raw ?t (leaf_prefix room))"
    then have k: "k \<in> fst ` set ?t" "take (length (leaf_prefix room)) k = leaf_prefix room"
      by (simp_all add: keys_prefix_raw_eq)
    then obtain r e where re: "k = leaf_key r e" "key_pair_ok (r, e)" using assms(1) unfolding leaves_ok_def by blast
    then have "r = room" using leaf_of_room [OF re(2) assms(2)] k(2) by simp
    then show "k \<in> set (map (leaf_key room) ?es)" using re k(1) es by (simp add: leaves_def)
  next
    fix k assume "k \<in> set (map (leaf_key room) ?es)"
    then obtain e where e: "k = leaf_key room e" "e \<in> leaves ?t room" using es by auto
    then have "k \<in> fst ` set ?t" "key_pair_ok (room, e)" by (simp_all add: leaves_def)
    then show "k \<in> set (keys_prefix_raw ?t (leaf_prefix room))"
      using leaf_of_room [of room e room] assms(2) e(1) by (simp add: keys_prefix_raw_eq)
  qed
  moreover have "distinct (map (leaf_key room) ?es)"
    using ok by (simp add: distinct_map inj_on_def)
  moreover have "distinct (keys_prefix_raw ?t (leaf_prefix room))"
    using assms(1) by (simp add: keys_prefix_raw_eq leaves_ok_def)
  moreover have "sorted (keys_prefix_raw ?t (leaf_prefix room))"
    unfolding keys_prefix_raw_eq by (rule sorted_wrt_filter) simp
  ultimately have keys: "keys_prefix_raw ?t (leaf_prefix room) = map (leaf_key room) ?es"
    using leaf_keys_sorted [of ?es room] by (intro sorted_distinct_set_unique) simp_all
  have "List.map_filter de_leaf (map (leaf_key room) es) = es" if "\<forall>e \<in> set es. key_pair_ok (room, e)" for es
    using that by (induction es) (simp_all add: de_leaf_key)
  from this [OF ok] show ?thesis unfolding get_forward_extremities_def keys .
qed

lemma fold_delete:
  "distinct (map fst t) \<Longrightarrow> distinct (map fst (fold AList.delete ks t)) \<and> fst ` set (fold AList.delete ks t) = fst ` set t - set ks"
proof (induction ks arbitrary: t)
  case (Cons k ks)
  have "distinct (map fst (AList.delete k t))" using Cons.prems by (rule distinct_delete)
  moreover have "fst ` set (AList.delete k t) = fst ` set t - {k}"
    using arg_cong [OF delete_keys [of k t], of set] by simp
  ultimately show ?case using Cons.IH [of "AList.delete k t"] by auto
qed simp

lemma fold_update:
  "distinct (map fst t) \<Longrightarrow> distinct (map fst (fold (\<lambda>e. AList.update (f e) e) es t))
     \<and> fst ` set (fold (\<lambda>e. AList.update (f e) e) es t) = fst ` set t \<union> f ` set es"
proof (induction es arbitrary: t)
  case (Cons e es)
  have "distinct (map fst (AList.update (f e) e t))" using Cons.prems by (rule distinct_update)
  then show ?case using Cons.IH [of "AList.update (f e) e t"] by (auto simp: dom_update)
qed simp

lemma set_leaves:
  assumes "leaves_ok (roomid_pduleaves db)" and "utf8_ok room" and "\<forall>e \<in> set es. key_pair_ok (room, e)"
  shows "leaves_ok (roomid_pduleaves (set_forward_extremities room es db))"
    and "utf8_ok room' \<Longrightarrow> leaves (roomid_pduleaves (set_forward_extremities room es db)) room'
      = (if room' = room then set es else leaves (roomid_pduleaves db) room')"
proof -
  let ?t = "roomid_pduleaves db" and ?t' = "roomid_pduleaves (set_forward_extremities room es db)"
  let ?ks = "keys_prefix_raw ?t (leaf_prefix room)"
  have d: "distinct (map fst ?t)" using assms(1) by (simp add: leaves_ok_def)
  note del = fold_delete [OF d, of ?ks]
  have t': "distinct (map fst ?t')" "fst ` set ?t' = fst ` set ?t - set ?ks \<union> leaf_key room ` set es"
    using fold_update [OF conjunct1 [OF del], of "leaf_key room" es] conjunct2 [OF del]
    by (simp_all add: set_forward_extremities_def Let_def)
  have key: "leaf_key r e \<in> set ?ks \<longleftrightarrow> r = room \<and> leaf_key r e \<in> fst ` set ?t" if "key_pair_ok (r, e)" for r e
    using leaf_of_room [OF that assms(2)] by (auto simp: keys_prefix_raw_eq)
  have "\<exists>r e. k = leaf_key r e \<and> key_pair_ok (r, e)" if "k \<in> fst ` set ?t'" for k
  proof (cases "k \<in> leaf_key room ` set es")
    case True
    then show ?thesis using assms(3) by blast
  next
    case False
    then have "k \<in> fst ` set ?t" using that unfolding t'(2) by blast
    then show ?thesis using assms(1) unfolding leaves_ok_def by blast
  qed
  then show "leaves_ok ?t'" using t'(1) by (simp add: leaves_ok_def)
  have new: "leaf_key room' e \<in> leaf_key room ` set es \<longleftrightarrow> room' = room \<and> e \<in> set es" if "key_pair_ok (room', e)" for e
    using assms(3) that by (auto simp: image_iff)
  have "e \<in> leaves ?t' room' \<longleftrightarrow> e \<in> (if room' = room then set es else leaves ?t room')" for e
  proof (cases "key_pair_ok (room', e)")
    case True
    have "leaf_key room' e \<in> fst ` set ?t' \<longleftrightarrow>
        (if room' = room then e \<in> set es else leaf_key room' e \<in> fst ` set ?t)"
      unfolding t'(2) Un_iff Diff_iff key [OF True] new [OF True] by (cases "room' = room") simp_all
    then show ?thesis using True by (simp add: leaves_def)
  next
    case False
    then show ?thesis using assms(3) by (auto simp: leaves_def)
  qed
  then show "leaves ?t' room' = (if room' = room then set es else leaves ?t room')" by blast
qed

text \<open>C25. The forward extremities of a room are the events they were set to, in byte order, each once;
  those of other rooms do not change.\<close>

theorem forward_extremities_roundtrip:
  assumes "leaves_ok (roomid_pduleaves db)" and "utf8_ok room" and "\<forall>e \<in> set es. key_pair_ok (room, e)" and "utf8_ok room'"
  shows "get_forward_extremities (set_forward_extremities room es db) room'
    = (if room' = room then sorted_list_of_set (set es) else get_forward_extremities db room')"
  using get_leaves [OF set_leaves(1) [OF assms(1-3)] assms(4)] set_leaves(2) [OF assms]
    get_leaves [OF assms(1,4)] by simp

theorem forward_extremities_roundtrip_witness:
  "get_forward_extremities (set_forward_extremities [0x21] [[0x24, 0x62], [0x24, 0x61], [0x24, 0x62]] sample_rooms) [0x21]
   = [[0x24, 0x61], [0x24, 0x62]]"
  using forward_extremities_roundtrip [of sample_rooms "[0x21]" "[[0x24, 0x62], [0x24, 0x61], [0x24, 0x62]]" "[0x21]"]
  unfolding sorted_list_of_set_sort_remdups by (simp add: sample_rooms_def leaves_ok_def key_pair_ok_def)

end
