(* ===== verification/AuthChain.thy ===== *)
theory AuthChain
  imports RoomState
begin

text \<open>
  Auth chains: the service \<open>src/src/service/rooms/auth_chain/\<close> finds all the events that a set of events
  rests on, following auth events, as short ids. Chains are cached in memory, and those of single events in
  the database.

  The timeline lookup \<open>get_pdu\<close> is an argument; of an event it gives the room id it claims and its auth
  events. A \<open>chain_sched\<close> fixes the iteration order of hash sets and the order in which the tasks of
  the \<open>broad_\<close> streams run; each task runs to its end before the next.
\<close>

subsection \<open>State\<close>

type_synonym auth_pdu = "bytes option \<times> bytes list"

record chain_sched =
  set_order :: "u64 list \<Rightarrow> u64 list"
  bucket_order :: "(u64 \<times> bytes) list list \<Rightarrow> (u64 \<times> bytes) list list"
  event_order :: "(u64 \<times> bytes) list \<Rightarrow> (u64 \<times> bytes) list"

type_synonym 'l chain_lru = "(u64 list, u64 list, 'l) lru"

record 'l chain_db =
  chain_short :: short_db
  auth_chain_cache :: 'l
  shorteventid_authchain :: table

subsection \<open>The caches\<close>

text \<open>\<open>chunks_exact\<close> of 8 bytes, read as numbers.\<close>

function be_chunks :: "bytes \<Rightarrow> u64 list" where
  "be_chunks b = (if length b < 8 then [] else from_be_bytes (take 8 b) # be_chunks (drop 8 b))"
  by pat_completeness auto
termination
  by (relation "measure length") auto

declare be_chunks.simps [simp del]

definition get_cached_eventid_authchain ::
  "'l chain_lru \<Rightarrow> u64 list \<Rightarrow> 'l chain_db \<Rightarrow> (service_error + u64 list) \<times> 'l chain_db" where
  "get_cached_eventid_authchain L key db =
     (case lru_get L key (auth_chain_cache db) of
        (Some result, c) \<Rightarrow> (Inr result, db\<lparr>auth_chain_cache := c\<rparr>)
      | (None, c) \<Rightarrow>
          (let db = db\<lparr>auth_chain_cache := c\<rparr>
           in if length key \<noteq> 1 then (Inl NotFoundErr, db)
              else (case shorteventid_authchain db (to_be_bytes (hd key)) of
                   None \<Rightarrow> (Inl NotFoundErr, db)
                 | Some chain \<Rightarrow>
                     (Inr (be_chunks chain),
                      db\<lparr>auth_chain_cache := lru_insert L [hd key] (be_chunks chain) (auth_chain_cache db)\<rparr>))))"

definition cache_auth_chain :: "'l chain_lru \<Rightarrow> u64 list \<Rightarrow> u64 list \<Rightarrow> 'l chain_db \<Rightarrow> 'l chain_db" where
  "cache_auth_chain L key auth_chain db =
     (let db = (if length key = 1
            then db\<lparr>shorteventid_authchain :=
              (shorteventid_authchain db)(to_be_bytes (hd key) \<mapsto> concat (map to_be_bytes auth_chain))\<rparr>
            else db)
      in db\<lparr>auth_chain_cache := lru_insert L key auth_chain (auth_chain_cache db)\<rparr>)"

subsection \<open>One event\<close>

text \<open>The loop over the auth events of an event.\<close>

fun push_auth_events ::
  "bytes list \<Rightarrow> u64 list \<Rightarrow> bytes list \<Rightarrow> short_db \<Rightarrow> u64 list \<times> bytes list \<times> short_db" where
  "push_auth_events [] found todo sdb = (found, todo, sdb)"
| "push_auth_events (auth_event # auth_events) found todo sdb =
     (case get_or_create_shorteventid auth_event sdb of (sauthevent, sdb) \<Rightarrow>
        (if sauthevent \<notin> set found
         then push_auth_events auth_events (found @ [sauthevent]) (todo @ [auth_event]) sdb
         else push_auth_events auth_events found todo sdb))"

fun auth_chain_loop ::
  "nat \<Rightarrow> (bytes \<Rightarrow> auth_pdu option) \<Rightarrow> bytes \<Rightarrow> bytes list \<Rightarrow> u64 list \<Rightarrow> short_db
   \<Rightarrow> (service_error + u64 list) \<times> short_db" where
  "auth_chain_loop fuel get_pdu room_id [] found sdb = (Inr found, sdb)"
| "auth_chain_loop 0 get_pdu room_id (event_id # todo) found sdb = (Inl FuelErr, sdb)"
| "auth_chain_loop (Suc fuel) get_pdu room_id (event_id # todo) found sdb =
     (case get_pdu event_id of
        None \<Rightarrow> auth_chain_loop fuel get_pdu room_id todo found sdb
      | Some (claimed_room_id, auth_events) \<Rightarrow>
          (if claimed_room_id \<noteq> None \<and> claimed_room_id \<noteq> Some room_id
           then (Inl (RequestErr ''Forbidden: auth event for incorrect room''), sdb)
           else (case push_auth_events auth_events found todo sdb of (found, todo, sdb) \<Rightarrow>
                  auth_chain_loop fuel get_pdu room_id todo found sdb)))"

definition get_auth_chain_inner ::
  "chain_sched \<Rightarrow> nat \<Rightarrow> (bytes \<Rightarrow> auth_pdu option) \<Rightarrow> bytes \<Rightarrow> bytes \<Rightarrow> short_db
   \<Rightarrow> (service_error + u64 list) \<times> short_db" where
  "get_auth_chain_inner T fuel get_pdu room_id event_id sdb =
     (case auth_chain_loop fuel get_pdu room_id [event_id] [] sdb of
        (Inl e, sdb) \<Rightarrow> (Inl e, sdb)
      | (Inr found, sdb) \<Rightarrow> (Inr (set_order T found), sdb))"

subsection \<open>A bucket of events\<close>

definition sort_dedup :: "u64 list \<Rightarrow> u64 list" where
  "sort_dedup xs = remdups_adj (sort xs)"

text \<open>The chain of each event of a bucket, cached or computed.\<close>

definition event_auth_chain ::
  "'l chain_lru \<Rightarrow> chain_sched \<Rightarrow> nat \<Rightarrow> (bytes \<Rightarrow> auth_pdu option) \<Rightarrow> bytes \<Rightarrow> u64 \<times> bytes \<Rightarrow> 'l chain_db
   \<Rightarrow> (service_error + u64 list) \<times> 'l chain_db" where
  "event_auth_chain L T fuel get_pdu room_id event db =
     (case event of (shortid, event_id) \<Rightarrow>
        (case get_cached_eventid_authchain L [shortid] db of
           (Inr cached, db) \<Rightarrow> (Inr cached, db)
         | (Inl _, db) \<Rightarrow>
             (case get_auth_chain_inner T fuel get_pdu room_id event_id (chain_short db) of
                (Inl e, sdb) \<Rightarrow> (Inl e, db\<lparr>chain_short := sdb\<rparr>)
              | (Inr auth_chain, sdb) \<Rightarrow>
                  (Inr auth_chain, cache_auth_chain L [shortid] auth_chain (db\<lparr>chain_short := sdb\<rparr>)))))"

fun collect_chains ::
  "('x \<Rightarrow> 'd \<Rightarrow> (service_error + u64 list) \<times> 'd) \<Rightarrow> 'x list \<Rightarrow> 'd \<Rightarrow> (service_error + u64 list) \<times> 'd" where
  "collect_chains f [] db = (Inr [], db)"
| "collect_chains f (x # xs) db =
     (case f x db of
        (Inl e, db) \<Rightarrow> (Inl e, db)
      | (Inr chain, db) \<Rightarrow>
          (case collect_chains f xs db of
             (Inl e, db) \<Rightarrow> (Inl e, db)
           | (Inr rest, db) \<Rightarrow> (Inr (chain @ rest), db)))"

definition get_auth_chain_outer ::
  "'l chain_lru \<Rightarrow> chain_sched \<Rightarrow> nat \<Rightarrow> (bytes \<Rightarrow> auth_pdu option) \<Rightarrow> bytes \<Rightarrow> (u64 \<times> bytes) list \<Rightarrow> 'l chain_db
   \<Rightarrow> (service_error + u64 list) \<times> 'l chain_db" where
  "get_auth_chain_outer L T fuel get_pdu room_id chunk db =
     (let chunk_key = map fst chunk
      in if chunk_key = [] then (Inr [], db)
         else (case get_cached_eventid_authchain L chunk_key db of
              (Inr cached, db) \<Rightarrow> (Inr cached, db)
            | (Inl _, db) \<Rightarrow>
                (case collect_chains (event_auth_chain L T fuel get_pdu room_id) (event_order T chunk) db of
                   (Inl e, db) \<Rightarrow> (Inl e, db)
                 | (Inr chunk_cache, db) \<Rightarrow>
                     (Inr (sort_dedup chunk_cache), cache_auth_chain L chunk_key (sort_dedup chunk_cache) db))))"

subsection \<open>The auth chain\<close>

definition NUM_BUCKETS :: nat where
  "NUM_BUCKETS = 50"

text \<open>The events whose short id falls into each bucket, in order.\<close>

definition buckets_of :: "(u64 \<times> bytes) list \<Rightarrow> (u64 \<times> bytes) list list" where
  "buckets_of starting = map (\<lambda>i. remdups (sort (filter (\<lambda>(short, _). unat short mod NUM_BUCKETS = i) starting)))
     [0 ..< NUM_BUCKETS]"

definition get_auth_chain ::
  "'l chain_lru \<Rightarrow> chain_sched \<Rightarrow> nat \<Rightarrow> (bytes \<Rightarrow> auth_pdu option) \<Rightarrow> bytes \<Rightarrow> bytes list list \<Rightarrow> 'l chain_db
   \<Rightarrow> (service_error + u64 list) \<times> 'l chain_db" where
  "get_auth_chain L T fuel get_pdu room_id starting_chunks db =
     (case multi_get_or_create_shorteventid starting_chunks (chain_short db) of
        Inl e \<Rightarrow> (Inl e, db)
      | Inr (shorts, sdb) \<Rightarrow>
          (case collect_chains (get_auth_chain_outer L T fuel get_pdu room_id)
                  (bucket_order T (buckets_of (zip shorts (concat starting_chunks)))) (db\<lparr>chain_short := sdb\<rparr>) of
             (Inl e, db) \<Rightarrow> (Inl e, db)
           | (Inr full_auth_chain, db) \<Rightarrow> (Inr (sort_dedup full_auth_chain), db)))"

text \<open>The event ids of an auth chain; short ids that lead to no event are left out.\<close>

definition event_ids_iter ::
  "'l chain_lru \<Rightarrow> chain_sched \<Rightarrow> nat \<Rightarrow> (bytes \<Rightarrow> auth_pdu option) \<Rightarrow> bytes \<Rightarrow> bytes list list \<Rightarrow> 'l chain_db
   \<Rightarrow> (service_error + bytes list) \<times> 'l chain_db" where
  "event_ids_iter L T fuel get_pdu room_id starting_chunks db =
     (case get_auth_chain L T fuel get_pdu room_id starting_chunks db of
        (Inl e, db) \<Rightarrow> (Inl e, db)
      | (Inr chain, db) \<Rightarrow>
          (Inr (List.map_filter (\<lambda>r. case r of Inr e \<Rightarrow> Some e | Inl _ \<Rightarrow> None)
             (multi_get_eventid_from_short (chain_short db) chain)), db))"

subsection \<open>Ancestors and their short ids\<close>

definition auth_step :: "(bytes \<Rightarrow> auth_pdu option) \<Rightarrow> (bytes \<times> bytes) set" where
  "auth_step get_pdu = {(x, y). \<exists>c as. get_pdu x = Some (c, as) \<and> y \<in> set as}"

definition ancestors :: "(bytes \<Rightarrow> auth_pdu option) \<Rightarrow> bytes set \<Rightarrow> bytes set" where
  "ancestors get_pdu E = (auth_step get_pdu)\<^sup>+ `` E"

text \<open>A finite set of events that is closed under auth events, all of the room.\<close>

definition auth_universe :: "(bytes \<Rightarrow> auth_pdu option) \<Rightarrow> bytes \<Rightarrow> bytes set \<Rightarrow> bool" where
  "auth_universe get_pdu room U \<longleftrightarrow> finite U \<and> (\<forall>x \<in> U. \<forall>c as. get_pdu x = Some (c, as) \<longrightarrow>
     set as \<subseteq> U \<and> (c = None \<or> c = Some room))"

lemma ancestors_in_universe:
  assumes "auth_universe get_pdu room U" and "E \<subseteq> U"
  shows "ancestors get_pdu E \<subseteq> U"
proof
  fix y assume "y \<in> ancestors get_pdu E"
  then obtain x where "x \<in> E" and r: "(x, y) \<in> (auth_step get_pdu)\<^sup>+" by (auto simp: ancestors_def)
  then have "x \<in> U" using assms(2) by blast
  have step: "b \<in> U" if "(a, b) \<in> auth_step get_pdu" "a \<in> U" for a b
    using that assms(1) unfolding auth_step_def auth_universe_def by blast
  show "y \<in> U" using r \<open>x \<in> U\<close> by (induction rule: trancl_induct) (auto intro: step)
qed

lemma ancestors_Un: "ancestors get_pdu (A \<union> B) = ancestors get_pdu A \<union> ancestors get_pdu B"
  by (auto simp: ancestors_def)

lemma ancestors_closed:
  assumes "\<And>x c as. x \<in> E \<union> S \<Longrightarrow> get_pdu x = Some (c, as) \<Longrightarrow> set as \<subseteq> S"
  shows "ancestors get_pdu E \<subseteq> S"
proof
  fix y assume "y \<in> ancestors get_pdu E"
  then obtain x where "x \<in> E" and r: "(x, y) \<in> (auth_step get_pdu)\<^sup>+" by (auto simp: ancestors_def)
  have step: "b \<in> S" if "(a, b) \<in> auth_step get_pdu" "a \<in> E \<union> S" for a b
    using that assms unfolding auth_step_def by blast
  show "y \<in> S" using r \<open>x \<in> E\<close> by (induction rule: trancl_induct) (auto intro: step)
qed

lemma walk_done:
  assumes "\<forall>x \<in> insert e seen. \<forall>c as. get_pdu x = Some (c, as) \<longrightarrow> set as \<subseteq> seen" and "seen \<subseteq> ancestors get_pdu {e}"
  shows "ancestors get_pdu {e} = seen"
proof
  show "ancestors get_pdu {e} \<subseteq> seen"
    by (rule ancestors_closed) (use assms(1) in \<open>metis insert_is_Un\<close>)
qed (rule assms(2))

lemma ancestors_next:
  assumes "x \<in> insert e (ancestors get_pdu {e})" and "get_pdu x = Some (c, as)"
  shows "set as \<subseteq> ancestors get_pdu {e}"
proof
  fix y assume "y \<in> set as"
  then have "(x, y) \<in> auth_step get_pdu" using assms(2) by (auto simp: auth_step_def)
  then show "y \<in> ancestors get_pdu {e}" using assms(1) by (auto simp: ancestors_def intro: trancl_into_trancl)
qed

definition shorts :: "short_db \<Rightarrow> bytes set \<Rightarrow> u64 set" where
  "shorts sdb A = {s. \<exists>a \<in> A. lookup_short (eventid_shorteventid sdb) a = Some s}"

definition all_known :: "short_db \<Rightarrow> bytes set \<Rightarrow> bool" where
  "all_known sdb A \<longleftrightarrow> (\<forall>a \<in> A. lookup_short (eventid_shorteventid sdb) a \<noteq> None)"

lemma shorts_simps [simp]:
  "shorts sdb {} = {}" "shorts sdb (A \<union> B) = shorts sdb A \<union> shorts sdb B"
  "lookup_short (eventid_shorteventid sdb) a = Some s \<Longrightarrow> shorts sdb (insert a A) = insert s (shorts sdb A)"
  by (auto simp: shorts_def)

lemma all_known_simps [simp]:
  "all_known sdb {}" "all_known sdb (A \<union> B) \<longleftrightarrow> all_known sdb A \<and> all_known sdb B"
  "lookup_short (eventid_shorteventid sdb) a = Some s \<Longrightarrow> all_known sdb (insert a A) = all_known sdb A"
  by (auto simp: all_known_def)

lemma lookup_extended:
  "short_extends sdb sdb' \<Longrightarrow> lookup_short (eventid_shorteventid sdb) a = Some s \<Longrightarrow> lookup_short (eventid_shorteventid sdb') a = Some s"
  by (simp add: short_extends_def kept_def)

lemma shorts_extended:
  assumes "all_known sdb A" and "short_extends sdb sdb'"
  shows "shorts sdb' A = shorts sdb A" and "all_known sdb' A"
proof -
  have same: "lookup_short (eventid_shorteventid sdb') a = lookup_short (eventid_shorteventid sdb) a" if "a \<in> A" for a
  proof -
    have "lookup_short (eventid_shorteventid sdb) a \<noteq> None" using assms(1) that unfolding all_known_def by blast
    then obtain s where s: "lookup_short (eventid_shorteventid sdb) a = Some s" by blast
    show ?thesis using lookup_extended [OF assms(2) s] s by simp
  qed
  then show "shorts sdb' A = shorts sdb A" by (auto simp: shorts_def)
  show "all_known sdb' A" using assms(1) same by (simp add: all_known_def)
qed

lemma short_in_shorts:
  assumes "db_wf sdb" and "lookup_short (eventid_shorteventid sdb) a = Some s"
  shows "s \<in> shorts sdb A \<longleftrightarrow> a \<in> A"
proof
  assume "s \<in> shorts sdb A"
  then obtain b where "b \<in> A" "lookup_short (eventid_shorteventid sdb) b = Some s" by (auto simp: shorts_def)
  then show "a \<in> A" using event_ids.inj [OF assms(1) _ _ assms(2), of b] by simp
next
  assume "a \<in> A"
  then show "s \<in> shorts sdb A" using assms(2) by (auto simp: shorts_def)
qed

text \<open>There are numbers left for the events of \<open>U\<close> that have no short id yet.\<close>

definition stock :: "bytes set \<Rightarrow> short_db \<Rightarrow> bool" where
  "stock U sdb \<longleftrightarrow> db_wf sdb \<and> room_left (card {e \<in> U. lookup_short (eventid_shorteventid sdb) e = None}) sdb"

lemma room_left_mono: "room_left n sdb \<Longrightarrow> m \<le> n \<Longrightarrow> room_left m sdb"
  by (simp add: room_left_def)

lemma short_extends_refl: "db_wf sdb \<Longrightarrow> short_extends sdb sdb"
  by (simp add: short_extends_def)

lemma stock_step:
  assumes "finite U" and "e \<in> U" and "stock U sdb" and "get_or_create_shorteventid e sdb = (s, sdb')"
  shows "stock U sdb'" and "short_extends sdb sdb'" and "lookup_short (eventid_shorteventid sdb') e = Some s"
proof -
  have wf: "db_wf sdb" using assms(3) by (simp add: stock_def)
  have "stock U sdb' \<and> short_extends sdb sdb' \<and> lookup_short (eventid_shorteventid sdb') e = Some s"
  proof (cases "lookup_short (eventid_shorteventid sdb) e")
    case None
    let ?N = "{e \<in> U. lookup_short (eventid_shorteventid sdb) e = None}"
    have "e \<in> ?N" using None assms(2) by simp
    then have card: "card ?N = Suc (card (?N - {e}))" using assms(1) by (intro card.remove) simp_all
    then have left: "room_left (Suc (card (?N - {e}))) sdb" using assms(3) unfolding stock_def by metis
    note step = event_id_step [OF wf left assms(4)]
    have "{e \<in> U. lookup_short (eventid_shorteventid sdb') e = None} \<subseteq> ?N - {e}"
    proof
      fix x assume x: "x \<in> {e \<in> U. lookup_short (eventid_shorteventid sdb') e = None}"
      then have "lookup_short (eventid_shorteventid sdb) x = None"
        using lookup_extended [OF step(1), of x] by (cases "lookup_short (eventid_shorteventid sdb) x") simp_all
      then show "x \<in> ?N - {e}" using x step(3) by auto
    qed
    then have "card {e \<in> U. lookup_short (eventid_shorteventid sdb') e = None} \<le> card (?N - {e})"
      by (rule card_mono [rotated]) (use assms(1) in simp)
    then have "stock U sdb'" using room_left_mono [OF step(2)] step(1) by (simp add: stock_def short_extends_def)
    then show ?thesis using step(1,3) by simp
  next
    case (Some t)
    then show ?thesis using event_ids.found [OF wf Some] assms(3,4) short_extends_refl [OF wf] by simp
  qed
  then show "stock U sdb'" "short_extends sdb sdb'" "lookup_short (eventid_shorteventid sdb') e = Some s" by simp_all
qed

subsection \<open>The walk from one event\<close>

lemma push_auth_events_spec:
  assumes "finite U" and "set as \<subseteq> U" and "stock U sdb" and "set found = shorts sdb seen" and "all_known sdb seen"
    and "push_auth_events as found todo sdb = (found', todo', sdb')"
  shows "\<exists>new. stock U sdb' \<and> short_extends sdb sdb' \<and> todo' = todo @ new \<and> distinct new \<and> set new \<inter> seen = {}
    \<and> set new \<subseteq> set as \<and> set as \<subseteq> seen \<union> set new \<and> set found' = shorts sdb' (seen \<union> set new)
    \<and> all_known sdb' (seen \<union> set new)"
  using assms(2-6)
proof (induction as arbitrary: found todo sdb seen)
  case Nil
  then show ?case using short_extends_refl by (intro exI [of _ "[]"]) (simp add: stock_def)
next
  case (Cons a as)
  obtain s sdb1 where g: "get_or_create_shorteventid a sdb = (s, sdb1)" by (cases "get_or_create_shorteventid a sdb")
  have asU: "set as \<subseteq> U" using Cons.prems(1) by simp
  have "a \<in> U" using Cons.prems(1) by simp
  note step = stock_step [OF assms(1) this Cons.prems(2) g]
  note ext = shorts_extended [OF Cons.prems(4) step(2)]
  have wf1: "db_wf sdb1" using step(1) by (simp add: stock_def)
  have in_found: "s \<in> set found \<longleftrightarrow> a \<in> seen"
    unfolding Cons.prems(3) ext(1) [symmetric] by (rule short_in_shorts [OF wf1 step(3)])
  show ?case
  proof (cases "a \<in> seen")
    case True
    then have run: "push_auth_events as found todo sdb1 = (found', todo', sdb')" using Cons.prems(5) g in_found by simp
    have found: "set found = shorts sdb1 seen" using Cons.prems(3) ext(1) by simp
    obtain new where new: "stock U sdb'" "short_extends sdb1 sdb'" "todo' = todo @ new" "distinct new"
      "set new \<inter> seen = {}" "set new \<subseteq> set as" "set as \<subseteq> seen \<union> set new" "set found' = shorts sdb' (seen \<union> set new)"
      "all_known sdb' (seen \<union> set new)"
      using Cons.IH [OF asU step(1) found ext(2) run] by blast
    show ?thesis
      by (rule exI [of _ new]) (use new(1,3-9) True short_extends_trans [OF step(2) new(2)] in auto)
  next
    case False
    let ?seen = "insert a seen"
    have run: "push_auth_events as (found @ [s]) (todo @ [a]) sdb1 = (found', todo', sdb')" using Cons.prems(5) g in_found False by simp
    have found: "set (found @ [s]) = shorts sdb1 ?seen" using Cons.prems(3) ext(1) step(3) by simp
    have known: "all_known sdb1 ?seen" using ext(2) step(3) by simp
    obtain new where new: "stock U sdb'" "short_extends sdb1 sdb'" "todo' = (todo @ [a]) @ new" "distinct new"
      "set new \<inter> ?seen = {}" "set new \<subseteq> set as" "set as \<subseteq> ?seen \<union> set new" "set found' = shorts sdb' (?seen \<union> set new)"
      "all_known sdb' (?seen \<union> set new)"
      using Cons.IH [OF asU step(1) found known run] by blast
    have same: "seen \<union> set (a # new) = ?seen \<union> set new" by simp
    show ?thesis unfolding same [symmetric]
      by (rule exI [of _ "a # new"], unfold same) (use new(1,3-9) False short_extends_trans [OF step(2) new(2)] in auto)
  qed
qed

text \<open>The walk ends and finds the ancestors of the event: one unit of fuel per event is enough.\<close>

lemma auth_chain_loop_spec:
  assumes "auth_universe get_pdu room U" and "stock U sdb" and "e \<in> U"
    and "set found = shorts sdb seen" and "all_known sdb seen" and "seen \<subseteq> ancestors get_pdu {e}"
    and "set todo \<subseteq> insert e seen"
    and "\<forall>x \<in> insert e seen - set todo. \<forall>c as. get_pdu x = Some (c, as) \<longrightarrow> set as \<subseteq> seen"
    and "length todo + card (U - seen) \<le> fuel"
  shows "\<exists>found' sdb'. auth_chain_loop fuel get_pdu room todo found sdb = (Inr found', sdb') \<and> stock U sdb'
    \<and> short_extends sdb sdb' \<and> set found' = shorts sdb' (ancestors get_pdu {e}) \<and> all_known sdb' (ancestors get_pdu {e})"
  using assms(2,4-9)
proof (induction fuel arbitrary: todo found sdb seen)
  case 0
  then have "todo = []" by simp
  moreover have "ancestors get_pdu {e} = seen" by (rule walk_done) (use "0.prems"(4,6) \<open>todo = []\<close> in simp_all)
  ultimately show ?case using 0 short_extends_refl by (auto simp: stock_def)
next
  case (Suc fuel)
  show ?case
  proof (cases todo)
    case Nil
    have "ancestors get_pdu {e} = seen" by (rule walk_done) (use Suc.prems(4,6) Nil in simp_all)
    then show ?thesis using Nil Suc.prems(1-3) short_extends_refl by (auto simp: stock_def)
  next
    case (Cons x todo1)
    have fin: "finite U" using assms(1) by (simp add: auth_universe_def)
    have x: "x \<in> insert e (ancestors get_pdu {e})" using Suc.prems(4,5) Cons by auto
    have xU: "x \<in> U" using x ancestors_in_universe [OF assms(1), of "{e}"] assms(3) by auto
    show ?thesis
    proof (cases "get_pdu x")
      case None
      have "\<forall>y \<in> insert e seen - set todo1. \<forall>c as. get_pdu y = Some (c, as) \<longrightarrow> set as \<subseteq> seen"
        using Suc.prems(6) None Cons by (metis DiffD1 DiffD2 DiffI option.distinct(1) set_ConsD)
      then have "\<exists>found' sdb'. auth_chain_loop fuel get_pdu room todo1 found sdb = (Inr found', sdb') \<and> stock U sdb'
        \<and> short_extends sdb sdb' \<and> set found' = shorts sdb' (ancestors get_pdu {e}) \<and> all_known sdb' (ancestors get_pdu {e})"
        using Suc.prems Cons by (intro Suc.IH [OF Suc.prems(1-4)]) auto
      then show ?thesis using None Cons by simp
    next
      case (Some pdu)
      obtain c as where pdu: "get_pdu x = Some (c, as)" using Some by (cases pdu) simp
      have as: "set as \<subseteq> U" "c = None \<or> c = Some room" using assms(1) xU pdu unfolding auth_universe_def by blast+
      obtain found1 todo2 sdb1 where p: "push_auth_events as found todo1 sdb = (found1, todo2, sdb1)"
        by (cases "push_auth_events as found todo1 sdb") auto
      obtain new where new: "stock U sdb1" "short_extends sdb sdb1" "todo2 = todo1 @ new" "distinct new" "set new \<inter> seen = {}"
        "set new \<subseteq> set as" "set as \<subseteq> seen \<union> set new" "set found1 = shorts sdb1 (seen \<union> set new)" "all_known sdb1 (seen \<union> set new)"
        using push_auth_events_spec [OF fin as(1) Suc.prems(1-3) p] by blast
      have anc: "seen \<union> set new \<subseteq> ancestors get_pdu {e}" using Suc.prems(4) new(6) ancestors_next [OF x pdu] by blast
      have "set new \<subseteq> U - seen" using new(5,6) as(1) by blast
      then have "card (U - (seen \<union> set new)) + length new = card (U - seen)"
        using card_Diff_subset [of "set new" "U - seen"] card_mono [of "U - seen" "set new"] fin new(4)
        by (simp add: Diff_Diff_Int Diff_Un Diff_eq distinct_card Int_assoc Compl_Un)
      then have fuel: "length todo2 + card (U - (seen \<union> set new)) \<le> fuel" using Suc.prems(7) Cons new(3) by simp
      have closed: "\<forall>x \<in> insert e (seen \<union> set new) - set todo2. \<forall>c as. get_pdu x = Some (c, as) \<longrightarrow> set as \<subseteq> seen \<union> set new"
      proof (intro ballI allI impI)
        fix y d bs assume that: "y \<in> insert e (seen \<union> set new) - set todo2" "get_pdu y = Some (d, bs)"
        show "set bs \<subseteq> seen \<union> set new"
        proof (cases "y = x")
          case True
          then show ?thesis using that(2) pdu new(7) by simp
        next
          case False
          then have "y \<in> insert e seen - set todo" using that(1) new(3) Cons by auto
          then show ?thesis using Suc.prems(6) that(2) by blast
        qed
      qed
      have todo2: "set todo2 \<subseteq> insert e (seen \<union> set new)" using new(3) Suc.prems(5) Cons by auto
      from Suc.IH [OF new(1,8,9) anc todo2 closed fuel] obtain found' sdb' where
        "auth_chain_loop fuel get_pdu room todo2 found1 sdb1 = (Inr found', sdb')" "stock U sdb'" "short_extends sdb1 sdb'"
        "set found' = shorts sdb' (ancestors get_pdu {e})" "all_known sdb' (ancestors get_pdu {e})" by blast
      then show ?thesis using Cons pdu as(2) p short_extends_trans [OF new(2)] by auto
    qed
  qed
qed

lemma auth_chain_inner_spec:
  assumes "auth_universe get_pdu room U" and "stock U sdb" and "e \<in> U" and "card U < fuel"
    and "\<And>xs. set (set_order T xs) = set xs"
  shows "\<exists>chain sdb'. get_auth_chain_inner T fuel get_pdu room e sdb = (Inr chain, sdb') \<and> stock U sdb'
    \<and> short_extends sdb sdb' \<and> set chain = shorts sdb' (ancestors get_pdu {e}) \<and> all_known sdb' (ancestors get_pdu {e})"
proof -
  have "\<exists>found sdb'. auth_chain_loop fuel get_pdu room [e] [] sdb = (Inr found, sdb') \<and> stock U sdb'
    \<and> short_extends sdb sdb' \<and> set found = shorts sdb' (ancestors get_pdu {e}) \<and> all_known sdb' (ancestors get_pdu {e})"
    by (rule auth_chain_loop_spec [OF assms(1-3), where seen = "{}"]) (use assms(4) in simp_all)
  then show ?thesis using assms(5) by (auto simp: get_auth_chain_inner_def)
qed

subsection \<open>The caches hold the chains of their keys\<close>

lemma be_chunks_concat: "be_chunks (concat (map to_be_bytes ws)) = ws"
proof (induction ws)
  case Nil
  then show ?case by (subst be_chunks.simps) simp
next
  case (Cons w ws)
  then show ?case by (subst be_chunks.simps) simp
qed

text \<open>A chain of the events whose short ids are the key.\<close>

definition chain_for :: "(bytes \<Rightarrow> auth_pdu option) \<Rightarrow> short_db \<Rightarrow> u64 list \<Rightarrow> u64 list \<Rightarrow> bool" where
  "chain_for get_pdu sdb key chain \<longleftrightarrow>
     (\<exists>es. list_all2 (\<lambda>k e. lookup_short (eventid_shorteventid sdb) e = Some k) key es
        \<and> all_known sdb (ancestors get_pdu (set es)) \<and> set chain = shorts sdb (ancestors get_pdu (set es)))"

lemma chain_for_extended:
  assumes "chain_for get_pdu sdb key chain" and "short_extends sdb sdb'"
  shows "chain_for get_pdu sdb' key chain"
proof -
  obtain es where es: "list_all2 (\<lambda>k e. lookup_short (eventid_shorteventid sdb) e = Some k) key es"
    "all_known sdb (ancestors get_pdu (set es))" "set chain = shorts sdb (ancestors get_pdu (set es))"
    using assms(1) by (auto simp: chain_for_def)
  have "list_all2 (\<lambda>k e. lookup_short (eventid_shorteventid sdb') e = Some k) key es"
    using es(1) by (rule list_all2_mono) (rule lookup_extended [OF assms(2)])
  then show ?thesis unfolding chain_for_def using shorts_extended [OF es(2) assms(2)] es(3) by auto
qed

text \<open>The events of a key are the ones it was made from.\<close>

lemma chain_for_unique:
  assumes "db_wf sdb" and "chain_for get_pdu sdb (map fst chunk) chain"
    and "\<forall>(s, e) \<in> set chunk. lookup_short (eventid_shorteventid sdb) e = Some s"
  shows "all_known sdb (ancestors get_pdu (snd ` set chunk)) \<and> set chain = shorts sdb (ancestors get_pdu (snd ` set chunk))"
proof -
  obtain es where es: "list_all2 (\<lambda>k e. lookup_short (eventid_shorteventid sdb) e = Some k) (map fst chunk) es"
    "all_known sdb (ancestors get_pdu (set es))" "set chain = shorts sdb (ancestors get_pdu (set es))"
    using assms(2) by (auto simp: chain_for_def)
  have "map snd chunk = es"
  proof (rule nth_equalityI)
    show len: "length (map snd chunk) = length es" using es(1) by (auto dest: list_all2_lengthD)
    fix i assume i: "i < length (map snd chunk)"
    then have "lookup_short (eventid_shorteventid sdb) (es ! i) = Some (fst (chunk ! i))"
      using es(1) by (auto simp: list_all2_conv_all_nth)
    moreover have "lookup_short (eventid_shorteventid sdb) (snd (chunk ! i)) = Some (fst (chunk ! i))"
      using assms(3) i nth_mem [of i chunk] by (auto simp: case_prod_beta)
    ultimately show "map snd chunk ! i = es ! i" using event_ids.inj [OF assms(1) TrueI TrueI] i by (metis nth_map length_map)
  qed
  then have "snd ` set chunk = set es" by (metis list.set_map)
  then show ?thesis using es(2,3) by simp
qed

definition chains_ok :: "'l chain_lru \<Rightarrow> (bytes \<Rightarrow> auth_pdu option) \<Rightarrow> bytes set \<Rightarrow> 'l chain_db \<Rightarrow> bool" where
  "chains_ok L get_pdu U db \<longleftrightarrow> lru_ok L \<and> stock U (chain_short db)
     \<and> (\<forall>key chain. fst (lru_get L key (auth_chain_cache db)) = Some chain \<longrightarrow> chain_for get_pdu (chain_short db) key chain)
     \<and> (\<forall>k v. shorteventid_authchain db (to_be_bytes k) = Some v \<longrightarrow> chain_for get_pdu (chain_short db) [k] (be_chunks v))"

lemma chains_ok_extended:
  "chains_ok L get_pdu U db \<Longrightarrow> short_extends (chain_short db) sdb' \<Longrightarrow> stock U sdb' \<Longrightarrow> chains_ok L get_pdu U (db\<lparr>chain_short := sdb'\<rparr>)"
  unfolding chains_ok_def using chain_for_extended by fastforce

lemma chains_ok_insert:
  assumes "chains_ok L get_pdu U db" and "chain_for get_pdu (chain_short db) key chain"
  shows "chains_ok L get_pdu U (db\<lparr>auth_chain_cache := lru_insert L key chain (auth_chain_cache db)\<rparr>)"
proof -
  have lru: "lru_ok L" using assms(1) by (simp add: chains_ok_def)
  have "chain_for get_pdu (chain_short db) key' chain'"
    if found: "fst (lru_get L key' (lru_insert L key chain (auth_chain_cache db))) = Some chain'" for key' chain'
  proof (cases "key' = key")
    case True
    then have "chain' = chain" using lru found unfolding lru_ok_def by (metis option.distinct(1) option.inject)
    then show ?thesis using True assms(2) by simp
  next
    case False
    then have "fst (lru_get L key' (auth_chain_cache db)) = Some chain'"
      using lru found unfolding lru_ok_def by (metis option.distinct(1))
    then show ?thesis using assms(1) by (simp add: chains_ok_def)
  qed
  then show ?thesis using assms(1) by (simp add: chains_ok_def)
qed

lemma chains_ok_get:
  assumes "chains_ok L get_pdu U db" and "lru_get L key (auth_chain_cache db) = (r, c)"
  shows "chains_ok L get_pdu U (db\<lparr>auth_chain_cache := c\<rparr>)"
proof -
  have "c = snd (lru_get L key (auth_chain_cache db))" using assms(2) by simp
  then show ?thesis using assms(1) by (simp add: chains_ok_def lru_ok_def)
qed

lemma get_cached_spec:
  assumes "chains_ok L get_pdu U db" and "get_cached_eventid_authchain L key db = (r, db')"
  shows "chains_ok L get_pdu U db' \<and> chain_short db' = chain_short db
    \<and> (\<forall>chain. r = Inr chain \<longrightarrow> chain_for get_pdu (chain_short db) key chain)"
proof -
  obtain found c where g: "lru_get L key (auth_chain_cache db) = (found, c)" by (cases "lru_get L key (auth_chain_cache db)")
  note ok = chains_ok_get [OF assms(1) g]
  show ?thesis
  proof (cases found)
    case (Some chain)
    have "chain_for get_pdu (chain_short db) key chain" using assms(1) g Some by (simp add: chains_ok_def)
    then show ?thesis using assms(2) g Some ok by (auto simp: get_cached_eventid_authchain_def)
  next
    case None
    show ?thesis
    proof (cases "length key \<noteq> 1 \<or> shorteventid_authchain db (to_be_bytes (hd key)) = None")
      case True
      then show ?thesis using assms(2) g None ok by (auto simp: get_cached_eventid_authchain_def Let_def split: if_splits)
    next
      case False
      then obtain k v where k: "key = [k]" "shorteventid_authchain db (to_be_bytes k) = Some v"
        by (cases key) auto
      have ch: "chain_for get_pdu (chain_short db) [k] (be_chunks v)" using assms(1) k(2) by (simp add: chains_ok_def)
      have "r = Inr (be_chunks v)" "db' = db\<lparr>auth_chain_cache := lru_insert L [k] (be_chunks v) c\<rparr>"
        using assms(2) g None k by (auto simp: get_cached_eventid_authchain_def Let_def)
      then show ?thesis using chains_ok_insert [OF ok, of "[k]" "be_chunks v"] ch k(1) by simp
    qed
  qed
qed

lemma cache_auth_chain_ok:
  assumes "chains_ok L get_pdu U db" and "chain_for get_pdu (chain_short db) key chain"
  shows "chains_ok L get_pdu U (cache_auth_chain L key chain db)" and "chain_short (cache_auth_chain L key chain db) = chain_short db"
proof -
  show "chain_short (cache_auth_chain L key chain db) = chain_short db" by (simp add: cache_auth_chain_def Let_def)
  show "chains_ok L get_pdu U (cache_auth_chain L key chain db)"
  proof (cases "length key = 1")
    case True
    then obtain k where k: "key = [k]" by (cases key) auto
    let ?db = "db\<lparr>shorteventid_authchain := (shorteventid_authchain db)(to_be_bytes k \<mapsto> concat (map to_be_bytes chain))\<rparr>"
    have "chains_ok L get_pdu U ?db" using assms k by (auto simp: chains_ok_def be_chunks_concat)
    from chains_ok_insert [OF this, of key chain] show ?thesis using assms(2) k by (simp add: cache_auth_chain_def)
  next
    case False
    then show ?thesis using chains_ok_insert [OF assms] by (simp add: cache_auth_chain_def Let_def)
  qed
qed

subsection \<open>Collecting chains\<close>

text \<open>A result that is the chain of the events \<open>A\<close>, with the stores in order.\<close>

definition chain_result ::
  "'l chain_lru \<Rightarrow> (bytes \<Rightarrow> auth_pdu option) \<Rightarrow> bytes set \<Rightarrow> 'l chain_db \<Rightarrow> bytes set
   \<Rightarrow> (service_error + u64 list) \<times> 'l chain_db \<Rightarrow> bool" where
  "chain_result L get_pdu U db A result \<longleftrightarrow> (\<exists>chain db'. result = (Inr chain, db') \<and> chains_ok L get_pdu U db'
     \<and> short_extends (chain_short db) (chain_short db') \<and> all_known (chain_short db') (ancestors get_pdu A)
     \<and> set chain = shorts (chain_short db') (ancestors get_pdu A))"

definition chunk_known :: "bytes set \<Rightarrow> short_db \<Rightarrow> (u64 \<times> bytes) list \<Rightarrow> bool" where
  "chunk_known U sdb chunk \<longleftrightarrow> (\<forall>(s, e) \<in> set chunk. e \<in> U \<and> lookup_short (eventid_shorteventid sdb) e = Some s)"

lemma chunk_known_extended: "chunk_known U sdb chunk \<Longrightarrow> short_extends sdb sdb' \<Longrightarrow> chunk_known U sdb' chunk"
  unfolding chunk_known_def using lookup_extended by blast

lemma chains_ok_wf: "chains_ok L get_pdu U db \<Longrightarrow> db_wf (chain_short db)"
  by (simp add: chains_ok_def stock_def)

text \<open>A cached chain is the chain of its events.\<close>

lemma cached_result:
  assumes "chains_ok L get_pdu U db" and "get_cached_eventid_authchain L (map fst chunk) db = (Inr chain, db')"
    and "chunk_known U (chain_short db) chunk"
  shows "chain_result L get_pdu U db (snd ` set chunk) (Inr chain, db')"
proof -
  note cached = get_cached_spec [OF assms(1,2)]
  note wf = chains_ok_wf [OF assms(1)]
  have "all_known (chain_short db) (ancestors get_pdu (snd ` set chunk)) \<and> set chain = shorts (chain_short db) (ancestors get_pdu (snd ` set chunk))"
    by (rule chain_for_unique [OF wf]) (use cached assms(3) in \<open>auto simp: chunk_known_def\<close>)
  then show ?thesis using cached short_extends_refl [OF wf] by (simp add: chain_result_def)
qed

text \<open>A chain that was computed is cached under its events.\<close>

lemma computed_result:
  assumes "chains_ok L get_pdu U db'" and "short_extends (chain_short db) (chain_short db')" and "chunk_known U (chain_short db) chunk"
    and "all_known (chain_short db') (ancestors get_pdu (snd ` set chunk))"
    and "set chain = shorts (chain_short db') (ancestors get_pdu (snd ` set chunk))"
  shows "chain_result L get_pdu U db (snd ` set chunk) (Inr chain, cache_auth_chain L (map fst chunk) chain db')"
proof -
  have "list_all2 (\<lambda>k e. lookup_short (eventid_shorteventid (chain_short db')) e = Some k) (map fst chunk) (map snd chunk)"
    using chunk_known_extended [OF assms(3,2)] by (auto simp: chunk_known_def list_all2_conv_all_nth dest!: nth_mem)
  then have "chain_for get_pdu (chain_short db') (map fst chunk) chain"
    unfolding chain_for_def using assms(4,5) by (intro exI [of _ "map snd chunk"]) simp
  from cache_auth_chain_ok [OF assms(1) this] show ?thesis using assms(2,4,5) by (simp add: chain_result_def)
qed

lemma event_auth_chain_spec:
  assumes "auth_universe get_pdu room U" and "card U < fuel" and "\<And>xs. set (set_order T xs) = set xs"
    and "chains_ok L get_pdu U db" and "chunk_known U (chain_short db) [x]"
  shows "chain_result L get_pdu U db (snd ` set [x]) (event_auth_chain L T fuel get_pdu room x db)"
proof -
  obtain s e where x: "x = (s, e)" by (cases x)
  obtain r db1 where c: "get_cached_eventid_authchain L [s] db = (r, db1)" by (cases "get_cached_eventid_authchain L [s] db")
  note cached = get_cached_spec [OF assms(4) c]
  show ?thesis
  proof (cases r)
    case (Inr chain)
    then show ?thesis using cached_result [OF assms(4) _ assms(5), of chain db1] c x by (simp add: event_auth_chain_def)
  next
    case (Inl err)
    have "stock U (chain_short db1)" "e \<in> U" using cached assms(5) x by (auto simp: chains_ok_def chunk_known_def)
    then obtain chain sdb' where run: "get_auth_chain_inner T fuel get_pdu room e (chain_short db1) = (Inr chain, sdb')" "stock U sdb'"
      "short_extends (chain_short db1) sdb'" "set chain = shorts sdb' (ancestors get_pdu {e})" "all_known sdb' (ancestors get_pdu {e})"
      using auth_chain_inner_spec [OF assms(1) _ _ assms(2,3)] by blast
    have "chains_ok L get_pdu U (db1\<lparr>chain_short := sdb'\<rparr>)" using chains_ok_extended [OF _ run(3,2)] cached by simp
    from computed_result [OF this _ assms(5), of chain] show ?thesis
      using c Inl run cached x by (simp add: event_auth_chain_def)
  qed
qed

lemma collect_chains_spec:
  assumes "\<And>x db. x \<in> set xs \<Longrightarrow> chains_ok L get_pdu U db \<Longrightarrow> chunk_known U (chain_short db) (evs x) \<Longrightarrow>
      chain_result L get_pdu U db (snd ` set (evs x)) (f x db)"
    and "chains_ok L get_pdu U db" and "\<forall>x \<in> set xs. chunk_known U (chain_short db) (evs x)"
  shows "chain_result L get_pdu U db (\<Union>x \<in> set xs. snd ` set (evs x)) (collect_chains f xs db)"
  using assms
proof (induction xs arbitrary: db)
  case Nil
  then show ?case using short_extends_refl [OF chains_ok_wf [OF Nil.prems(2)]]
    by (simp add: chain_result_def ancestors_def)
next
  case (Cons x xs)
  let ?A = "snd ` set (evs x)" and ?B = "\<Union>x \<in> set xs. snd ` set (evs x)"
  have "chain_result L get_pdu U db ?A (f x db)" using Cons.prems by simp
  then obtain chain db1 where one: "f x db = (Inr chain, db1)" "chains_ok L get_pdu U db1" "short_extends (chain_short db) (chain_short db1)"
    "all_known (chain_short db1) (ancestors get_pdu ?A)" "set chain = shorts (chain_short db1) (ancestors get_pdu ?A)"
    unfolding chain_result_def by blast
  have "\<forall>x \<in> set xs. chunk_known U (chain_short db1) (evs x)" using Cons.prems(3) chunk_known_extended [OF _ one(3)] by simp
  then have "chain_result L get_pdu U db1 ?B (collect_chains f xs db1)" using Cons.IH [OF _ one(2)] Cons.prems(1) by simp
  then obtain rest db2 where two: "collect_chains f xs db1 = (Inr rest, db2)" "chains_ok L get_pdu U db2"
    "short_extends (chain_short db1) (chain_short db2)" "all_known (chain_short db2) (ancestors get_pdu ?B)"
    "set rest = shorts (chain_short db2) (ancestors get_pdu ?B)" unfolding chain_result_def by blast
  note ext = shorts_extended [OF one(4) two(3)]
  show ?case using one(1,5) two ext short_extends_trans [OF one(3) two(3)]
    by (simp add: chain_result_def ancestors_Un)
qed

lemma set_sort_dedup [simp]: "set (sort_dedup xs) = set xs"
  by (simp add: sort_dedup_def)

lemma get_auth_chain_outer_spec:
  assumes "auth_universe get_pdu room U" and "card U < fuel" and "\<And>xs. set (set_order T xs) = set xs"
    and "\<And>xs. set (event_order T xs) = set xs" and "chains_ok L get_pdu U db" and "chunk_known U (chain_short db) chunk"
  shows "chain_result L get_pdu U db (snd ` set chunk) (get_auth_chain_outer L T fuel get_pdu room chunk db)"
proof (cases "chunk = []")
  case True
  then show ?thesis using assms(5) short_extends_refl [OF chains_ok_wf [OF assms(5)]]
    by (simp add: get_auth_chain_outer_def chain_result_def ancestors_def)
next
  case False
  obtain r db1 where c: "get_cached_eventid_authchain L (map fst chunk) db = (r, db1)"
    by (cases "get_cached_eventid_authchain L (map fst chunk) db")
  note cached = get_cached_spec [OF assms(5) c]
  show ?thesis
  proof (cases r)
    case (Inr chain)
    then show ?thesis using cached_result [OF assms(5) _ assms(6), of chain db1] c False
      by (simp add: get_auth_chain_outer_def)
  next
    case (Inl err)
    have "chain_result L get_pdu U db1 (\<Union>x \<in> set (event_order T chunk). snd ` set [x])
        (collect_chains (event_auth_chain L T fuel get_pdu room) (event_order T chunk) db1)"
      by (rule collect_chains_spec [where evs = "\<lambda>x. [x]"])
        (use event_auth_chain_spec [OF assms(1-3)] cached assms(4,6) in \<open>auto simp: chunk_known_def\<close>)
    moreover have "(\<Union>x \<in> set (event_order T chunk). snd ` set [x]) = snd ` set chunk" using assms(4) by auto
    ultimately obtain chains db2 where col: "collect_chains (event_auth_chain L T fuel get_pdu room) (event_order T chunk) db1 = (Inr chains, db2)"
      "chains_ok L get_pdu U db2" "short_extends (chain_short db) (chain_short db2)"
      "all_known (chain_short db2) (ancestors get_pdu (snd ` set chunk))"
      "set chains = shorts (chain_short db2) (ancestors get_pdu (snd ` set chunk))"
      using cached unfolding chain_result_def by auto
    from computed_result [OF col(2,3) assms(6) col(4), of "sort_dedup chains"] show ?thesis
      using c Inl False col(1,5) by (simp add: get_auth_chain_outer_def)
  qed
qed

subsection \<open>The auth chain of a set of events\<close>

lemma distinct_remdups_adj_sorted: "sorted xs \<Longrightarrow> distinct (remdups_adj (xs :: 'a::linorder list))"
  by (induction xs rule: remdups_adj.induct) auto

lemma sort_dedup_sorted: "sorted (sort_dedup xs)" "distinct (sort_dedup xs)"
  by (simp_all add: sort_dedup_def distinct_remdups_adj_sorted)

lemma get_or_create_all_spec:
  assumes "finite U" and "set es \<subseteq> U" and "stock U sdb" and "get_or_create_all es sdb = (ss, sdb')"
  shows "stock U sdb' \<and> short_extends sdb sdb' \<and> length ss = length es \<and> chunk_known U sdb' (zip ss es)"
  using assms(2-)
proof (induction es arbitrary: sdb ss)
  case Nil
  then show ?case using short_extends_refl by (simp add: stock_def chunk_known_def)
next
  case (Cons e es)
  obtain s sdb1 where g: "get_or_create_shorteventid e sdb = (s, sdb1)" by (cases "get_or_create_shorteventid e sdb")
  obtain ts where ts: "get_or_create_all es sdb1 = (ts, sdb')" "ss = s # ts"
    using Cons.prems(3) g by (auto split: prod.splits)
  have eU: "e \<in> U" "set es \<subseteq> U" using Cons.prems(1) by simp_all
  note step = stock_step [OF assms(1) eU(1) Cons.prems(2) g]
  note IH = Cons.IH [OF eU(2) step(1) ts(1)]
  have "lookup_short (eventid_shorteventid sdb') e = Some s" using lookup_extended [OF _ step(3)] IH by blast
  then show ?case using IH ts(2) eU(1) short_extends_trans [OF step(2)] by (auto simp: chunk_known_def)
qed

lemma buckets_of_events:
  "(\<Union>chunk \<in> set (buckets_of starting). snd ` set chunk) = snd ` set starting"
proof -
  have "x \<in> (\<Union>chunk \<in> set (buckets_of starting). set chunk)" if "x \<in> set starting" for x
  proof -
    have "unat (fst x) mod NUM_BUCKETS < NUM_BUCKETS" by (simp add: NUM_BUCKETS_def)
    then show ?thesis using that
      by (auto simp: buckets_of_def case_prod_beta intro!: bexI [of _ "unat (fst x) mod NUM_BUCKETS"])
  qed
  moreover have "x \<in> set starting" if "x \<in> (\<Union>chunk \<in> set (buckets_of starting). set chunk)" for x
    using that by (auto simp: buckets_of_def)
  ultimately have "(\<Union>chunk \<in> set (buckets_of starting). set chunk) = set starting" by blast
  then show ?thesis by (simp flip: image_UN)
qed

definition fair_chain_sched :: "chain_sched \<Rightarrow> bool" where
  "fair_chain_sched T \<longleftrightarrow> (\<forall>xs. set (set_order T xs) = set xs) \<and> (\<forall>xs. set (event_order T xs) = set xs)
     \<and> (\<forall>xs. set (bucket_order T xs) = set xs)"

text \<open>C16. The auth chain of a list of events is computed in the end: it is the sorted list, without repetition, of
  the short ids of all events that can be reached from them over auth events; an event that is missing here has none.
  The list comes in the chunks its short ids are looked up in, and no chunk names an event twice. The events that are here
  are in the room, there are numbers left for their short ids, and every chain in the two caches is the complete chain of its key, which the computation keeps
  true; then it does not matter which chains are cached, which order the hash sets have, and in which order the tasks run,
  each to its end before the next. (A chain that was cached while an event was missing that has arrived since is not
  complete; such a cache is outside the hypothesis.)\<close>

theorem get_auth_chain_correct:
  assumes "auth_universe get_pdu room U" and "set (concat starting) \<subseteq> U" and "\<forall>chunk \<in> set starting. distinct chunk"
    and "card U < fuel" and "fair_chain_sched T" and "chains_ok L get_pdu U db"
    and "room_left (length (concat starting)) (chain_short db)"
  shows "\<exists>chain db'. get_auth_chain L T fuel get_pdu room starting db = (Inr chain, db') \<and> chains_ok L get_pdu U db'
    \<and> sorted chain \<and> distinct chain \<and> all_known (chain_short db') (ancestors get_pdu (set (concat starting)))
    \<and> set chain = shorts (chain_short db') (ancestors get_pdu (set (concat starting)))"
proof -
  have fin: "finite U" using assms(1) by (simp add: auth_universe_def)
  note wf = chains_ok_wf [OF assms(6)]
  obtain ss sdb1 where all: "get_or_create_all (concat starting) (chain_short db) = (ss, sdb1)"
    by (cases "get_or_create_all (concat starting) (chain_short db)")
  have multi: "multi_get_or_create_shorteventid starting (chain_short db) = Inr (ss, sdb1)"
    using multi_get_or_create_all [OF wf assms(3,7)] all by simp
  have "stock U (chain_short db)" using assms(6) by (simp add: chains_ok_def)
  from get_or_create_all_spec [OF fin assms(2) this all]
  have ids: "stock U sdb1" "short_extends (chain_short db) sdb1" "length ss = length (concat starting)"
    "chunk_known U sdb1 (zip ss (concat starting))" by simp_all
  let ?bs = "buckets_of (zip ss (concat starting))" and ?db1 = "db\<lparr>chain_short := sdb1\<rparr>"
  have ok1: "chains_ok L get_pdu U ?db1" by (rule chains_ok_extended [OF assms(6) ids(2,1)])
  have orders: "set (set_order T xs) = set xs" "set (event_order T ys) = set ys" "set (bucket_order T zs) = set zs" for xs ys zs
    using assms(5) by (simp_all add: fair_chain_sched_def)
  have known: "\<forall>chunk \<in> set (bucket_order T ?bs). chunk_known U (chain_short ?db1) chunk"
    using ids(4) by (auto simp: orders(3) buckets_of_def chunk_known_def)
  have "chain_result L get_pdu U ?db1 (\<Union>chunk \<in> set (bucket_order T ?bs). snd ` set chunk)
      (collect_chains (get_auth_chain_outer L T fuel get_pdu room) (bucket_order T ?bs) ?db1)"
    by (rule collect_chains_spec [where evs = "\<lambda>x. x", OF get_auth_chain_outer_spec [OF assms(1,4) orders(1,2)] ok1 known])
  moreover have "(\<Union>chunk \<in> set (bucket_order T ?bs). snd ` set chunk) = set (concat starting)"
    unfolding orders(3) buckets_of_events using ids(3) by (metis list.set_map map_snd_zip)
  ultimately obtain chain db' where
    "collect_chains (get_auth_chain_outer L T fuel get_pdu room) (bucket_order T ?bs) ?db1 = (Inr chain, db')"
    "chains_ok L get_pdu U db'" "all_known (chain_short db') (ancestors get_pdu (set (concat starting)))"
    "set chain = shorts (chain_short db') (ancestors get_pdu (set (concat starting)))"
    unfolding chain_result_def by auto
  then show ?thesis using multi sort_dedup_sorted by (simp add: get_auth_chain_def)
qed

text \<open>Two events that rest on a third.\<close>

definition sample_auth :: "bytes \<Rightarrow> auth_pdu option" where
  "sample_auth e = (if e = [1] then Some (Some [0x21], []) else if e = [2] then Some (None, [[1]])
     else if e = [3] then Some (Some [0x21], [[1], [2]]) else None)"

definition sample_chains :: "(u64 list \<times> u64 list) list chain_db" where
  "sample_chains = \<lparr>chain_short = new_db, auth_chain_cache = [], shorteventid_authchain = Map.empty\<rparr>"

theorem get_auth_chain_correct_witness:
  "\<exists>chain db'. get_auth_chain (list_lru 2) \<lparr>set_order = rev, bucket_order = rev, event_order = rev\<rparr> 5 sample_auth [0x21]
       [[[2], [3]]] sample_chains = (Inr chain, db')
     \<and> set chain = shorts (chain_short db') (ancestors sample_auth {[2], [3]})"
proof -
  have "auth_universe sample_auth [0x21] {[1], [2], [3]}" by (auto simp: auth_universe_def sample_auth_def split: if_splits)
  moreover have "{e \<in> {[1], [2], [3]}. lookup_short (eventid_shorteventid new_db) e = None} = {[1], [2], [3]}"
    by (auto simp: new_db_def lookup_short_def)
  then have "room_left (card {e \<in> {[1], [2], [3]}. lookup_short (eventid_shorteventid new_db) e = None}) new_db"
    by (simp add: room_left_def new_db_def card_insert_if)
  then have "stock {[1], [2], [3]} new_db" using new_db_wf unfolding stock_def by blast
  then have "chains_ok (list_lru 2) sample_auth {[1], [2], [3]} sample_chains"
    by (simp add: chains_ok_def sample_chains_def list_lru_ok) (simp add: list_lru_def)
  moreover have "fair_chain_sched \<lparr>set_order = rev, bucket_order = rev, event_order = rev\<rparr>" by (simp add: fair_chain_sched_def)
  moreover have "room_left (Suc (Suc 0)) (chain_short sample_chains)" by (simp add: room_left_def sample_chains_def new_db_def)
  ultimately show ?thesis
    using get_auth_chain_correct [of sample_auth "[0x21]" "{[1], [2], [3]}" "[[[2], [3]]]" 5
        "\<lparr>set_order = rev, bucket_order = rev, event_order = rev\<rparr>" "list_lru 2" sample_chains]
    by (auto simp: card_insert_if)
qed

end
