(* ===== verification/PduCount.thy ===== *)
theory PduCount
  imports Prelude
begin

text \<open>
  The position of an event in a room's timeline: \<open>src/src/core/matrix/pdu/count.rs\<close>,
  \<open>id.rs\<close> and \<open>raw_id.rs\<close>. A \<^emph>\<open>count\<close> is positive for events received live and zero or
  negative for backfilled ones; a \<^emph>\<open>raw id\<close> is the database key made of the room's short
  id and the count.

  \<open>debug_assert!\<close> is checked in debug builds only; the definitions here follow the release
  build, and \<open>debug_assert_valid\<close> is the asserted condition.
\<close>

subsection \<open>Count\<close>

datatype count = Normal u64 | Backfilled i64

datatype direction = Forward | Backward

datatype count_error = Arithmetic string

definition debug_assert_valid :: "count \<Rightarrow> bool" where
  "debug_assert_valid c = (case c of Backfilled i \<Rightarrow> sint i \<le> 0 | Normal _ \<Rightarrow> True)"

definition from_signed :: "i64 \<Rightarrow> count" where
  "from_signed s = (if sint s \<le> 0 then Backfilled s else Normal s)"

definition from_unsigned :: "u64 \<Rightarrow> count" where
  "from_unsigned u = from_signed u"

fun into_unsigned :: "count \<Rightarrow> u64" where
  "into_unsigned (Normal i) = i"
| "into_unsigned (Backfilled i) = i"

fun into_signed :: "count \<Rightarrow> i64" where
  "into_signed (Normal i) = i"
| "into_signed (Backfilled i) = i"

fun into_normal :: "count \<Rightarrow> count" where
  "into_normal (Normal i) = Normal i"
| "into_normal (Backfilled _) = Normal 0"

text \<open>\<open>u64::checked_add\<close>, \<open>i64::checked_add\<close> and their kin; \<open>x as i64\<close> keeps the bits.\<close>

definition u64_checked_add :: "u64 \<Rightarrow> u64 \<Rightarrow> u64 option" where
  "u64_checked_add a b = (if unat a + unat b < 2 ^ 64 then Some (a + b) else None)"

definition u64_checked_sub :: "u64 \<Rightarrow> u64 \<Rightarrow> u64 option" where
  "u64_checked_sub a b = (if b \<le> a then Some (a - b) else None)"

definition i64_checked_add :: "i64 \<Rightarrow> i64 \<Rightarrow> i64 option" where
  "i64_checked_add a b =
     (if - (2 ^ 63) \<le> sint a + sint b \<and> sint a + sint b < 2 ^ 63 then Some (a + b) else None)"

definition i64_checked_sub :: "i64 \<Rightarrow> i64 \<Rightarrow> i64 option" where
  "i64_checked_sub a b =
     (if - (2 ^ 63) \<le> sint a - sint b \<and> sint a - sint b < 2 ^ 63 then Some (a - b) else None)"

definition u64_saturating_add :: "u64 \<Rightarrow> u64 \<Rightarrow> u64" where
  "u64_saturating_add a b = (if unat a + unat b < 2 ^ 64 then a + b else - 1)"

definition u64_saturating_sub :: "u64 \<Rightarrow> u64 \<Rightarrow> u64" where
  "u64_saturating_sub a b = (if b \<le> a then a - b else 0)"

definition i64_saturate :: "int \<Rightarrow> i64" where
  "i64_saturate x = word_of_int (max (- (2 ^ 63)) (min x (2 ^ 63 - 1)))"

fun checked_add :: "count \<Rightarrow> u64 \<Rightarrow> count_error + count" where
  "checked_add (Normal i) add =
     bindR (ok_or (Arithmetic ''Count::Normal overflow'') (u64_checked_add i add))
       (\<lambda>n. Inr (Normal n))"
| "checked_add (Backfilled i) add =
     bindR (ok_or (Arithmetic ''Count::Backfilled overflow'') (i64_checked_add i add))
       (\<lambda>n. Inr (Backfilled n))"

fun checked_sub :: "count \<Rightarrow> u64 \<Rightarrow> count_error + count" where
  "checked_sub (Normal i) sub =
     bindR (ok_or (Arithmetic ''Count::Normal underflow'') (u64_checked_sub i sub))
       (\<lambda>n. Inr (Normal n))"
| "checked_sub (Backfilled i) sub =
     bindR (ok_or (Arithmetic ''Count::Backfilled underflow'') (i64_checked_sub i sub))
       (\<lambda>n. Inr (Backfilled n))"

fun checked_inc :: "count \<Rightarrow> direction \<Rightarrow> count_error + count" where
  "checked_inc c Forward = checked_add c 1"
| "checked_inc c Backward = checked_sub c 1"

fun saturating_add :: "count \<Rightarrow> u64 \<Rightarrow> count" where
  "saturating_add (Normal i) add = Normal (u64_saturating_add i add)"
| "saturating_add (Backfilled i) add = Backfilled (i64_saturate (sint i + sint add))"

fun saturating_sub :: "count \<Rightarrow> u64 \<Rightarrow> count" where
  "saturating_sub (Normal i) sub = Normal (u64_saturating_sub i sub)"
| "saturating_sub (Backfilled i) sub = Backfilled (i64_saturate (sint i - sint sub))"

fun saturating_inc :: "count \<Rightarrow> direction \<Rightarrow> count" where
  "saturating_inc c Forward = saturating_add c 1"
| "saturating_inc c Backward = saturating_sub c 1"

definition count_min :: count where
  "count_min = Backfilled (word_of_int (- (2 ^ 63)))"

definition count_max :: count where
  "count_max = Normal (word_of_int (2 ^ 63 - 1))"

text \<open>\<open>Ord for Count\<close> compares the signed values.\<close>

definition count_less :: "count \<Rightarrow> count \<Rightarrow> bool" where
  "count_less a b \<longleftrightarrow> sint (into_signed a) < sint (into_signed b)"

subsection \<open>Id and RawId\<close>

record pdu_id =
  shortroomid :: u64
  shorteventid :: count

text \<open>The arrays \<open>[u8; 16]\<close> and \<open>[u8; 24]\<close>; \<open>raw_id_ok\<close> is their length.\<close>

datatype raw_id = RawNormal "u8 list" | RawBackfilled "u8 list"

fun raw_id_ok :: "raw_id \<Rightarrow> bool" where
  "raw_id_ok (RawNormal raw) = (length raw = 16)"
| "raw_id_ok (RawBackfilled raw) = (length raw = 24)"

fun raw_shortroomid :: "raw_id \<Rightarrow> u8 list" where
  "raw_shortroomid (RawNormal raw) = take 8 raw"
| "raw_shortroomid (RawBackfilled raw) = take 8 raw"

fun raw_shorteventid :: "raw_id \<Rightarrow> u8 list" where
  "raw_shorteventid (RawNormal raw) = take 8 (drop 8 raw)"
| "raw_shorteventid (RawBackfilled raw) = take 8 (drop 16 raw)"

fun raw_as_bytes :: "raw_id \<Rightarrow> u8 list" where
  "raw_as_bytes (RawNormal raw) = raw"
| "raw_as_bytes (RawBackfilled raw) = raw"

text \<open>\<open>From<&[u8]> for RawId\<close>: an unrecognized length panics (None).\<close>

definition raw_id_from_bytes :: "u8 list \<Rightarrow> raw_id option" where
  "raw_id_from_bytes bs =
     (if length bs = 16 then Some (RawNormal bs)
      else if length bs = 24 then Some (RawBackfilled bs)
      else None)"

definition id_from_raw :: "raw_id \<Rightarrow> pdu_id" where
  "id_from_raw raw =
     \<lparr>shortroomid = from_be_bytes (raw_shortroomid raw),
      shorteventid = from_unsigned (from_be_bytes (raw_shorteventid raw))\<rparr>"

definition raw_from_id :: "pdu_id \<Rightarrow> raw_id" where
  "raw_from_id i =
     (let vec = to_be_bytes (shortroomid i)
      in case shorteventid i of
           Normal n \<Rightarrow> RawNormal (vec @ to_be_bytes n)
         | Backfilled n \<Rightarrow> RawBackfilled (vec @ to_be_bytes 0 @ to_be_bytes n))"

definition pdu_count :: "raw_id \<Rightarrow> count" where
  "pdu_count raw = shorteventid (id_from_raw raw)"

subsection \<open>Validity\<close>

text \<open>
  The counts the server issues: positive below \<open>2^63\<close> for live events, not positive for
  backfilled ones. \<open>Normal 0\<close> and \<open>Backfilled 0\<close> share a signed value; \<open>proper_count\<close>
  leaves the first out and \<open>strict_count\<close> both.
\<close>

definition proper_count :: "count \<Rightarrow> bool" where
  "proper_count c = (case c of Normal n \<Rightarrow> 0 < sint n | Backfilled i \<Rightarrow> sint i \<le> 0)"

definition strict_count :: "count \<Rightarrow> bool" where
  "strict_count c \<longleftrightarrow> proper_count c \<and> c \<noteq> Backfilled 0"

lemma sint_less_63: "sint (w :: 64 word) < 2 ^ 63" "- (2 ^ 63) \<le> sint (w :: 64 word)"
  using sint_lt [of w] sint_ge [of w] by simp_all

lemma from_signed_into_signed: "proper_count c \<Longrightarrow> from_signed (into_signed c) = c"
  by (cases c) (auto simp: proper_count_def from_signed_def)

lemma into_signed_from_signed [simp]: "into_signed (from_signed s) = s"
  by (simp add: from_signed_def)

lemma proper_from_signed [simp]: "proper_count (from_signed s)"
  by (simp add: from_signed_def proper_count_def)

lemma into_unsigned_eq_signed: "into_unsigned c = into_signed c"
  by (cases c) simp_all

lemma raw_from_id_ok: "raw_id_ok (raw_from_id i)"
  by (auto simp: raw_from_id_def Let_def split: count.splits)

lemma raw_bytes_from_id: "raw_id_from_bytes (raw_as_bytes (raw_from_id i)) = Some (raw_from_id i)"
  by (auto simp: raw_from_id_def raw_id_from_bytes_def Let_def split: count.splits)

subsection \<open>Key order\<close>

definition pdu_id_less :: "pdu_id \<Rightarrow> pdu_id \<Rightarrow> bool" where
  "pdu_id_less i j \<longleftrightarrow> shortroomid i < shortroomid j
     \<or> shortroomid i = shortroomid j \<and> count_less (shorteventid i) (shorteventid j)"

definition pdu_key_enc :: "pdu_id \<Rightarrow> u8 list" where
  "pdu_key_enc i = raw_as_bytes (raw_from_id i)"

definition pdu_key_dec :: "u8 list \<Rightarrow> pdu_id" where
  "pdu_key_dec bs = id_from_raw (the (raw_id_from_bytes bs))"

definition pdu_key_valid :: "pdu_id \<Rightarrow> bool" where
  "pdu_key_valid i = strict_count (shorteventid i)"

text \<open>The bytes after the room's eight, which decide the order within a room.\<close>

definition count_suffix :: "count \<Rightarrow> u8 list" where
  "count_suffix c = (case c of Normal n \<Rightarrow> to_be_bytes n
     | Backfilled n \<Rightarrow> to_be_bytes 0 @ to_be_bytes n)"

lemma pdu_key_enc_eq: "pdu_key_enc i = to_be_bytes (shortroomid i) @ count_suffix (shorteventid i)"
  by (simp add: pdu_key_enc_def raw_from_id_def count_suffix_def Let_def split: count.splits)

lemma count_suffix_ne_prefix:
  "strict_count a \<Longrightarrow> strict_count b \<Longrightarrow> count_suffix a < count_suffix b \<longleftrightarrow> count_less a b"
proof (cases a; cases b)
  fix m n
  assume "strict_count a" "strict_count b" "a = Normal m" "b = Normal n"
  then show ?thesis
    by (simp add: strict_count_def proper_count_def count_suffix_def count_less_def
        to_be_bytes_less_iff word_less_sint_nonneg)
next
  fix m n
  assume *: "strict_count a" "strict_count b" "a = Normal m" "b = Backfilled n"
  then have m: "0 < sint m" "sint n \<le> 0" by (simp_all add: strict_count_def proper_count_def)
  then have "m \<noteq> 0" by auto
  then have "\<not> to_be_bytes m @ [] < to_be_bytes 0 @ to_be_bytes n"
    by (subst lex_less_append_diff) (auto simp: to_be_bytes_less_iff)
  with m * show ?thesis by (simp add: count_suffix_def count_less_def)
next
  fix m n
  assume *: "strict_count a" "strict_count b" "a = Backfilled m" "b = Normal n"
  then have m: "0 < sint n" "sint m \<le> 0" by (simp_all add: strict_count_def proper_count_def)
  then have "n \<noteq> 0" by auto
  then have "to_be_bytes 0 @ to_be_bytes m < to_be_bytes n @ []"
    by (subst lex_less_append_diff) (auto simp: to_be_bytes_less_iff word_neq_0_conv)
  with m * show ?thesis by (simp add: count_suffix_def count_less_def)
next
  fix m n
  assume *: "strict_count a" "strict_count b" "a = Backfilled m" "b = Backfilled n"
  then have "sint m \<le> 0" "m \<noteq> 0" "sint n \<le> 0" "n \<noteq> 0"
    by (simp_all add: strict_count_def proper_count_def)
  then have "sint m < 0" "sint n < 0" by (simp_all add: order_less_le)
  with * show ?thesis
    by (simp add: count_suffix_def count_less_def to_be_bytes_less_iff word_less_sint_neg)
qed

lemma pdu_key_less_iff:
  assumes "pdu_key_valid i" and "pdu_key_valid j"
  shows "pdu_key_enc i < pdu_key_enc j \<longleftrightarrow> pdu_id_less i j"
proof (cases "shortroomid i = shortroomid j")
  case True
  with assms show ?thesis
    by (simp add: pdu_key_enc_eq pdu_key_valid_def pdu_id_less_def count_suffix_ne_prefix)
next
  case False
  then show ?thesis
    by (simp add: pdu_key_enc_eq lex_less_append_diff to_be_bytes_less_iff pdu_id_less_def)
qed

lemma id_from_raw_from_id: "proper_count (shorteventid i) \<Longrightarrow> id_from_raw (raw_from_id i) = i"
  by (cases i, cases "shorteventid i")
    (auto simp: id_from_raw_def raw_from_id_def from_unsigned_def from_signed_def
      proper_count_def Let_def)

interpretation pdu_key: ordered_key_codec pdu_key_valid pdu_key_enc pdu_key_dec pdu_id_less
proof unfold_locales
  fix i
  assume "pdu_key_valid i"
  then show "pdu_key_dec (pdu_key_enc i) = i"
    by (simp add: pdu_key_dec_def pdu_key_enc_def raw_bytes_from_id id_from_raw_from_id
        pdu_key_valid_def strict_count_def)
qed (rule pdu_key_less_iff)

subsection \<open>Properties\<close>

text \<open>Writing the key of a timeline position and parsing the bytes back gives the same
  position, for every count the server issues.\<close>

lemma raw_id_roundtrip:
  assumes "proper_count (shorteventid i)"
  shows "map_option id_from_raw (raw_id_from_bytes (raw_as_bytes (raw_from_id i))) = Some i"
  using assms by (simp add: raw_bytes_from_id id_from_raw_from_id)

text \<open>The database's bytewise order of timeline keys is the order of rooms and, within a
  room, the order of counts: backfilled events before live ones. A scan after a position
  visits exactly the later events of the list, in order.\<close>

lemma raw_id_scan_order:
  assumes "pdu_key_valid i" and "\<forall>j \<in> set js. pdu_key_valid j" and "sorted_wrt pdu_id_less js"
  shows "filter (\<lambda>k. pdu_key_enc i < k) (map pdu_key_enc js)
      = map pdu_key_enc (filter (pdu_id_less i) js)
    \<and> sorted_wrt (<) (map pdu_key_enc js)"
  using assms by (rule pdu_key.scan_after)

lemma sint_add_64:
  "- (2 ^ 63) \<le> sint a + sint b \<Longrightarrow> sint a + sint b < 2 ^ 63 \<Longrightarrow>
   sint (a + b :: 64 word) = sint a + sint b"
  using sint_64_word_of_int [of "sint a + sint b"] by simp

lemma sint_diff_64:
  "- (2 ^ 63) \<le> sint a - sint b \<Longrightarrow> sint a - sint b < 2 ^ 63 \<Longrightarrow>
   sint (a - b :: 64 word) = sint a - sint b"
  using sint_64_word_of_int [of "sint a - sint b"] by simp

text \<open>A checked step moves a proper count by exactly one position in the direction asked
  and never wraps, except past \<open>count_max\<close>.\<close>

lemma checked_inc_steps_by_one:
  assumes "proper_count c" and "c \<noteq> count_max" and "checked_inc c d = Inr c'"
  shows "sint (into_signed c')
    = (case d of Forward \<Rightarrow> sint (into_signed c) + 1 | Backward \<Rightarrow> sint (into_signed c) - 1)"
proof (cases c)
  case (Normal n)
  have n: "0 < sint n" using assms(1) Normal by (simp add: proper_count_def)
  have "(word_of_int (sint n) :: 64 word) = n" by simp
  then have "sint n \<noteq> 2 ^ 63 - 1" using assms(2) Normal by (metis count_max_def)
  then have "sint n + 1 < 2 ^ 63" using sint_less_63 [of n] by simp
  then show ?thesis
    using assms(3) n Normal sint_add_64 [of n 1] sint_diff_64 [of n 1] sint_less_63 [of n]
    by (cases d) (auto simp: bindR_eq_Inr u64_checked_add_def u64_checked_sub_def
        split: if_splits)
next
  case (Backfilled n)
  have "sint n \<le> 0" using assms(1) Backfilled by (simp add: proper_count_def)
  then show ?thesis
    using assms(3) Backfilled sint_add_64 [of n 1] sint_diff_64 [of n 1]
    by (cases d) (auto simp: bindR_eq_Inr i64_checked_add_def i64_checked_sub_def
        split: if_splits)
qed

theorem checked_inc_steps_by_one_witness:
  "checked_inc (Backfilled (- 3)) Forward = Inr (Backfilled (- 2))
   \<and> sint (into_signed (Backfilled (- 2))) = sint (into_signed (Backfilled (- 3))) + 1"
proof -
  have e: "checked_inc (Backfilled (- 3)) Forward = Inr (Backfilled (- 2))"
    by (simp add: i64_checked_add_def)
  show ?thesis
    using e checked_inc_steps_by_one [OF _ _ e] by (simp add: proper_count_def count_max_def)
qed

text \<open>The two zero counts: they are different values that the order does not tell apart,
  the live one does not survive its own key, and stepping forward from the backfilled one
  leaves the asserted range instead of reaching the first live position.\<close>

lemma zero_counts_degenerate:
  "Normal 0 \<noteq> Backfilled 0
   \<and> \<not> count_less (Normal 0) (Backfilled 0) \<and> \<not> count_less (Backfilled 0) (Normal 0)
   \<and> pdu_count (raw_from_id \<lparr>shortroomid = r, shorteventid = Normal 0\<rparr>) = Backfilled 0
   \<and> \<not> debug_assert_valid (saturating_inc (Backfilled 0) Forward)"
  by (simp add: count_less_def pdu_count_def id_from_raw_from_id id_from_raw_def raw_from_id_def
      from_unsigned_def from_signed_def debug_assert_valid_def i64_saturate_def Let_def)

end
