(* ===== verification/Tables.thy ===== *)
theory Tables
  imports Short
begin

text \<open>
  The database maps as the services use them: the operations of \<open>src/src/database/map/\<close> on a
  RocksDB column, which keeps its keys in byte order. A column is a list of entries with ascending
  keys; a scan returns a part of it. The locale \<open>prefixed_keys\<close> is what the services rely on when
  they keep the items of many owners in one column: the keys of an owner are those with the owner's prefix.
\<close>

subsection \<open>Columns\<close>

type_synonym 'v column = "(bytes \<times> 'v) list"

definition column_ok :: "'v column \<Rightarrow> bool" where
  "column_ok t \<longleftrightarrow> sorted_wrt (<) (map fst t)"

fun col_insert :: "bytes \<Rightarrow> 'v \<Rightarrow> 'v column \<Rightarrow> 'v column" where
  "col_insert k v [] = [(k, v)]"
| "col_insert k v ((k', v') # t) =
     (if k < k' then (k, v) # (k', v') # t
      else if k = k' then (k, v) # t
      else (k', v') # col_insert k v t)"

definition col_remove :: "bytes \<Rightarrow> 'v column \<Rightarrow> 'v column" where
  "col_remove k t = filter (\<lambda>(k', _). k' \<noteq> k) t"

definition col_get :: "'v column \<Rightarrow> bytes \<Rightarrow> service_error + 'v" where
  "col_get t k = ok_or NotFoundErr (map_of t k)"

definition col_exists :: "'v column \<Rightarrow> bytes \<Rightarrow> service_error + unit" where
  "col_exists t k = (case map_of t k of None \<Rightarrow> Inl NotFoundErr | Some _ \<Rightarrow> Inr ())"

definition starts_with :: "bytes \<Rightarrow> bytes \<Rightarrow> bool" where
  "starts_with p k \<longleftrightarrow> take (length p) k = p"

definition raw_stream_from :: "'v column \<Rightarrow> bytes \<Rightarrow> 'v column" where
  "raw_stream_from t start = dropWhile (\<lambda>(k, _). k < start) t"

definition rev_raw_stream_from :: "'v column \<Rightarrow> bytes \<Rightarrow> 'v column" where
  "rev_raw_stream_from t start = rev (takeWhile (\<lambda>(k, _). k \<le> start) t)"

definition raw_stream_prefix :: "'v column \<Rightarrow> bytes \<Rightarrow> 'v column" where
  "raw_stream_prefix t p = takeWhile (\<lambda>(k, _). starts_with p k) (raw_stream_from t p)"

definition raw_keys_prefix :: "'v column \<Rightarrow> bytes \<Rightarrow> bytes list" where
  "raw_keys_prefix t p = map fst (raw_stream_prefix t p)"

subsection \<open>Reading after writing\<close>

lemma col_insert_keys: "fst ` set (col_insert k v t) = insert k (fst ` set t)"
  by (induction k v t rule: col_insert.induct) (simp_all add: insert_commute)

lemma column_ok_insert [simp]: "column_ok t \<Longrightarrow> column_ok (col_insert k v t)"
proof (induction t)
  case (Cons e t)
  obtain k' v' where e: "e = (k', v')" by (cases e)
  have "\<forall>x \<in> fst ` set (col_insert k v t). k' < x" if "k' < k"
    using Cons.prems that e by (auto simp: column_ok_def col_insert_keys)
  then show ?case using Cons e by (auto simp: column_ok_def)
qed (simp add: column_ok_def)

lemma column_ok_filter [simp]: "column_ok t \<Longrightarrow> column_ok (filter P t)"
  by (induction t) (auto simp: column_ok_def)

lemma column_ok_remove [simp]: "column_ok t \<Longrightarrow> column_ok (col_remove k t)"
  by (simp add: col_remove_def)

lemma column_ok_Nil [simp]: "column_ok []"
  by (simp add: column_ok_def)

lemma column_ok_distinct: "column_ok t \<Longrightarrow> distinct (map fst t)"
  by (simp add: column_ok_def strict_sorted_iff)

lemma map_of_insert [simp]: "column_ok t \<Longrightarrow> map_of (col_insert k v t) = (map_of t)(k \<mapsto> v)"
proof (induction t)
  case (Cons e t)
  then show ?case by (cases e) (auto simp: column_ok_def fun_eq_iff)
qed simp

lemma map_of_remove [simp]: "map_of (col_remove k t) = (map_of t)(k := None)"
  by (induction t) (auto simp: col_remove_def fun_eq_iff)

lemma column_ok_removes [simp]: "column_ok t \<Longrightarrow> column_ok (fold col_remove ks t)"
  by (induction ks arbitrary: t) auto

lemma map_of_removes: "map_of (fold col_remove ks t) k = (if k \<in> set ks then None else map_of t k)"
  by (induction ks arbitrary: t) auto

lemma column_entry: "column_ok t \<Longrightarrow> (k, v) \<in> set t \<longleftrightarrow> map_of t k = Some v"
  using column_ok_distinct map_of_is_SomeI map_of_SomeD by metis

subsection \<open>Scans\<close>

lemma starts_with_le: "starts_with p k \<Longrightarrow> p \<le> k"
  unfolding starts_with_def
proof (induction p arbitrary: k)
  case (Cons a p)
  then show ?case by (cases k) auto
qed simp

lemma starts_with_between: "p \<le> x \<Longrightarrow> x \<le> y \<Longrightarrow> starts_with p y \<Longrightarrow> starts_with p x"
  unfolding starts_with_def
proof (induction p arbitrary: x y)
  case (Cons a p)
  then show ?case by (cases x; cases y) auto
qed simp

lemma starts_with_append [simp]: "starts_with p (p @ k)"
  by (simp add: starts_with_def)

lemma raw_stream_from_eq: "column_ok t \<Longrightarrow> raw_stream_from t start = filter (\<lambda>(k, _). start \<le> k) t"
proof (induction t)
  case (Cons e t)
  have "filter (\<lambda>(k, _). start \<le> k) t = t" if "start \<le> fst e"
    using Cons.prems that by (intro filter_True) (fastforce simp: column_ok_def)
  then show ?case using Cons by (cases e) (auto simp: raw_stream_from_def column_ok_def)
qed (simp add: raw_stream_from_def)

lemma rev_raw_stream_from_eq: "column_ok t \<Longrightarrow> rev_raw_stream_from t start = rev (filter (\<lambda>(k, _). k \<le> start) t)"
proof (induction t)
  case (Cons e t)
  have "filter (\<lambda>(k, _). k \<le> start) t = []" if "\<not> fst e \<le> start"
    using Cons.prems that by (fastforce simp: column_ok_def filter_empty_conv)
  then show ?case using Cons by (cases e) (auto simp: rev_raw_stream_from_def column_ok_def)
qed (simp add: rev_raw_stream_from_def)

text \<open>Within a scan, the entries before the first one without the prefix are all those with it.\<close>

lemma takeWhile_prefix:
  assumes "column_ok t" and "\<forall>(k, _) \<in> set t. p \<le> k"
  shows "takeWhile (\<lambda>(k, _). starts_with p k) t = filter (\<lambda>(k, _). starts_with p k) t"
  using assms
proof (induction t)
  case (Cons e t)
  obtain k v where e: "e = (k, v)" by (cases e)
  have "\<not> starts_with p k'" if "\<not> starts_with p k" "(k', v') \<in> set t" for k' v'
    using starts_with_between [of p k k'] Cons.prems that e by (fastforce simp: column_ok_def)
  then have "filter (\<lambda>(k, _). starts_with p k) t = []" if "\<not> starts_with p k"
    using that by (auto simp: filter_empty_conv)
  then show ?case using Cons e by (auto simp: column_ok_def)
qed simp

lemma raw_stream_prefix_eq:
  assumes "column_ok t"
  shows "raw_stream_prefix t p = filter (\<lambda>(k, _). starts_with p k) t"
proof -
  have "raw_stream_prefix t p = filter (\<lambda>(k, _). starts_with p k) (filter (\<lambda>(k, _). p \<le> k) t)"
    unfolding raw_stream_prefix_def raw_stream_from_eq [OF assms]
    by (intro takeWhile_prefix column_ok_filter assms) auto
  then show ?thesis by (auto simp: starts_with_le intro!: filter_cong)
qed

lemma set_raw_keys_prefix: "column_ok t \<Longrightarrow> set (raw_keys_prefix t p) = {k \<in> fst ` set t. starts_with p k}"
  by (auto simp: raw_keys_prefix_def raw_stream_prefix_eq)

lemma raw_keys_prefix_sorted: "column_ok t \<Longrightarrow> sorted_wrt (<) (raw_keys_prefix t p)"
  using column_ok_filter [of t] by (simp add: raw_keys_prefix_def raw_stream_prefix_eq column_ok_def)

text \<open>A scan from a key that has the prefix, while the prefix lasts.\<close>

lemma scan_from_prefix:
  assumes "column_ok t" and "starts_with p start"
  shows "takeWhile (\<lambda>(k, _). starts_with p k) (raw_stream_from t start)
    = filter (\<lambda>(k, _). start \<le> k) (raw_stream_prefix t p)"
proof -
  have "\<forall>(k, _) \<in> set (filter (\<lambda>(k, _). start \<le> k) t). p \<le> k" using starts_with_le [OF assms(2)] by auto
  then have "takeWhile (\<lambda>(k, _). starts_with p k) (raw_stream_from t start)
      = filter (\<lambda>(k, _). starts_with p k) (filter (\<lambda>(k, _). start \<le> k) t)"
    unfolding raw_stream_from_eq [OF assms(1)] by (intro takeWhile_prefix column_ok_filter assms)
  then show ?thesis unfolding raw_stream_prefix_eq [OF assms(1)] by (auto intro: filter_cong)
qed

lemma takeWhile_prefix_rev:
  assumes "column_ok t" and "starts_with p start" and "\<forall>(k, _) \<in> set t. k \<le> start"
  shows "takeWhile (\<lambda>(k, _). starts_with p k) (rev t) = rev (filter (\<lambda>(k, _). starts_with p k) t)"
  using assms(1,3)
proof (induction t rule: rev_induct)
  case (snoc e t)
  obtain k v where e: "e = (k, v)" by (cases e)
  have less: "\<forall>(k', _) \<in> set t. k' < k" and ok: "column_ok t"
    using snoc.prems(1) e by (auto simp: column_ok_def sorted_wrt_append)
  have "\<not> starts_with p k'" if "\<not> starts_with p k" "(k', v') \<in> set t" for k' v'
  proof
    assume "starts_with p k'"
    then have "p \<le> k" using starts_with_le [of p k'] less that(2) by fastforce
    then show False using starts_with_between [of p k start] snoc.prems(2) e assms(2) that(1) by auto
  qed
  then have "filter (\<lambda>(k, _). starts_with p k) t = []" if "\<not> starts_with p k"
    using that by (auto simp: filter_empty_conv)
  then show ?case using snoc ok e by auto
qed simp

lemma rev_scan_from_prefix:
  assumes "column_ok t" and "starts_with p start"
  shows "takeWhile (\<lambda>(k, _). starts_with p k) (rev_raw_stream_from t start)
    = rev (filter (\<lambda>(k, _). k \<le> start) (raw_stream_prefix t p))"
proof -
  have "takeWhile (\<lambda>(k, _). starts_with p k) (rev_raw_stream_from t start)
      = rev (filter (\<lambda>(k, _). starts_with p k) (filter (\<lambda>(k, _). k \<le> start) t))"
    unfolding rev_raw_stream_from_eq [OF assms(1)]
    by (rule takeWhile_prefix_rev [where start = "start"]) (auto simp: assms)
  then show ?thesis unfolding raw_stream_prefix_eq [OF assms(1)] by (auto intro: filter_cong)
qed

text \<open>A list in strictly ascending order is determined by its elements.\<close>

lemma sorted_wrt_unique:
  assumes "\<And>x y. R x y \<Longrightarrow> \<not> R y x" and "sorted_wrt R xs" and "sorted_wrt R ys" and "set xs = set ys"
  shows "xs = ys"
  using assms(2-4)
proof (induction xs arbitrary: ys)
  case (Cons a xs)
  then obtain b ys' where ys: "ys = b # ys'" by (cases ys) auto
  have "a \<in> set (b # ys')" "b \<in> set (a # xs)" using Cons.prems(3) ys by (metis list.set_intros(1))+
  then have "a = b" using Cons.prems(1,2) ys assms(1) [of a b] by auto
  moreover have "a \<notin> set xs" "b \<notin> set ys'" using Cons.prems(1,2) ys assms(1) by auto
  ultimately have "set xs = set ys'" using Cons.prems(3) ys by auto
  then show ?case using Cons ys \<open>a = b\<close> by simp
qed simp

subsection \<open>Keys that begin with their owner\<close>

locale prefixed_keys =
  fixes owner_ok :: "'o \<Rightarrow> bool" and item_ok :: "'o \<Rightarrow> 'i \<Rightarrow> bool"
    and prefix :: "'o \<Rightarrow> bytes" and key :: "'o \<Rightarrow> 'i \<Rightarrow> bytes"
  assumes key_prefix: "owner_ok a \<Longrightarrow> owner_ok b \<Longrightarrow> item_ok b i \<Longrightarrow> starts_with (prefix a) (key b i) \<longleftrightarrow> b = a"
    and key_eq: "owner_ok a \<Longrightarrow> item_ok a i \<Longrightarrow> item_ok a j \<Longrightarrow> key a i = key a j \<longleftrightarrow> i = j"
begin

lemma key_inject:
  assumes "owner_ok a" and "item_ok a i" and "owner_ok b" and "item_ok b j"
  shows "key a i = key b j \<longleftrightarrow> a = b \<and> i = j"
  using assms key_prefix [of b a i] key_prefix [of b b j] key_eq by metis

text \<open>Deleting what a scan for an owner finds deletes the owner's items and no others.\<close>

lemma remove_owner:
  assumes "column_ok t" and "owner_ok a" and "owner_ok b" and "item_ok b i"
  shows "map_of (fold col_remove (raw_keys_prefix t (prefix a)) t) (key b i)
    = (if b = a then None else map_of t (key b i))"
proof (cases "b = a")
  case True
  then show ?thesis using assms key_prefix [of a b i]
    by (cases "map_of t (key b i)") (auto simp: map_of_removes set_raw_keys_prefix dest!: map_of_SomeD intro: rev_image_eqI)
next
  case False
  then show ?thesis using assms key_prefix [of a b i] by (simp add: map_of_removes set_raw_keys_prefix)
qed

text \<open>A scan for an owner finds the owner's entries.\<close>

lemma scan_owner:
  assumes "column_ok t" and "\<forall>k \<in> fst ` set t. \<exists>b i. owner_ok b \<and> item_ok b i \<and> k = key b i" and "owner_ok a"
  shows "set (raw_stream_prefix t (prefix a)) = {(key a i, v) | i v. item_ok a i \<and> map_of t (key a i) = Some v}"
proof (intro equalityI subsetI)
  fix e assume "e \<in> set (raw_stream_prefix t (prefix a))"
  moreover obtain k v where e: "e = (k, v)" by (cases e)
  ultimately have kv: "(k, v) \<in> set t" "starts_with (prefix a) k" using assms(1) by (auto simp: raw_stream_prefix_eq)
  then obtain b i where bi: "owner_ok b" "item_ok b i" "k = key b i" using assms(2) by force
  then have "b = a" using key_prefix assms(3) kv(2) by blast
  then show "e \<in> {(key a i, v) | i v. item_ok a i \<and> map_of t (key a i) = Some v}"
    using kv(1) bi e column_entry [OF assms(1)] by blast
next
  fix e assume "e \<in> {(key a i, v) | i v. item_ok a i \<and> map_of t (key a i) = Some v}"
  then obtain i v where "e = (key a i, v)" "item_ok a i" "map_of t (key a i) = Some v" by blast
  then show "e \<in> set (raw_stream_prefix t (prefix a))"
    using key_prefix [of a a i] assms(1,3) by (auto simp: raw_stream_prefix_eq column_entry)
qed

end

subsection \<open>Pairs of texts\<close>

text \<open>\<open>(a, Interfix)\<close>: the prefix of the keys \<open>(a, _)\<close>; and the second part of such a key.\<close>

definition interfix :: "bytes \<Rightarrow> bytes" where
  "interfix a =
     (case serialize_to_vec (SerTuple [SerStr a, SerUnitStruct ''Interfix'']) of Inr b \<Rightarrow> b | Inl _ \<Rightarrow> [])"

definition de_second :: "bytes \<Rightarrow> service_error + bytes" where
  "de_second b = (case from_slice (DeTuple [DeUnitStruct ''Ignore'', DeStr]) b of
       Inr (ValTuple [ValUnit, ValStr e]) \<Rightarrow> Inr e
     | Inr _ \<Rightarrow> Inl (DeErr InvalidLength)
     | Inl e \<Rightarrow> Inl (DeErr e))"

text \<open>\<open>ignore_err\<close>.\<close>

definition ignore_err :: "('e + 'a) list \<Rightarrow> 'a list" where
  "ignore_err rs = List.map_filter (\<lambda>r. case r of Inr x \<Rightarrow> Some x | Inl _ \<Rightarrow> None) rs"

lemma ignore_err_append [simp]: "ignore_err (xs @ ys) = ignore_err xs @ ignore_err ys"
  by (simp add: ignore_err_def map_filter_def)

lemma ignore_err_ok: "\<forall>x \<in> set xs. f x = Inr (g x) \<Longrightarrow> ignore_err (map f xs) = map g xs"
  by (induction xs) (auto simp: ignore_err_def)

lemma interfix_eq: "interfix a = a @ [SEP]"
  using serialize_tuple_join [of "[SerStr a, SerUnitStruct ''Interfix'']"] by (simp add: interfix_def)

lemma starts_with_interfix:
  assumes "SEP \<notin> set a" and "SEP \<notin> set b"
  shows "starts_with (interfix a) (b @ SEP # rest) \<longleftrightarrow> b = a"
proof
  assume "starts_with (interfix a) (b @ SEP # rest)"
  then obtain rest' where "b @ SEP # rest = a @ SEP # rest'"
    using append_take_drop_id [of "length (interfix a)" "b @ SEP # rest"] by (auto simp: starts_with_def interfix_eq) metis
  then show "b = a" using takeWhile_record [of b "SEP # rest"] takeWhile_record [of a "SEP # rest'"] assms by simp
next
  assume "b = a"
  then show "starts_with (interfix a) (b @ SEP # rest)" by (simp add: starts_with_def interfix_eq)
qed

interpretation pair_keys: prefixed_keys utf8_ok "\<lambda>a b. key_pair_ok (a, b)" interfix "\<lambda>a b. pair_key (a, b)"
  by unfold_locales (simp_all add: pair_key_eq starts_with_interfix utf8_ok_no_SEP)

lemma de_second_key:
  assumes "key_pair_ok p"
  shows "de_second (pair_key p) = Inr (snd p)"
proof -
  let ?d = "sequence_start \<lparr>buf = pair_key p, pos = 0, rec = 0, seq = False\<rparr>"
  have "de_ok ?d" using assms by (simp add: de_ok_def key_pair_ok_def pair_key_eq)
  then have "\<exists>d'. visit_tuple [DeUnitStruct ''Ignore'', DeStr] ?d = Inr ([ValUnit, ValStr (snd p)], d')"
    using assms
    by (intro visit_tuple_read_all [where vs = "[SerStr (fst p), SerStr (snd p)]"]) (simp_all add: key_pair_ok_def pair_key_eq)
  then show ?thesis by (auto simp: de_second_def from_slice_def)
qed

end
