(* ===== verification/Timeline.thy ===== *)
theory Timeline
  imports PduCount Tables
begin

text \<open>
  Timelines: the database of \<open>src/src/service/rooms/timeline/data.rs\<close>, the places of \<open>append.rs\<close> and
  \<open>backfill.rs\<close> that give an event its position, the outliers of \<open>src/src/service/rooms/outlier/mod.rs\<close>
  and the notification counts of \<open>src/src/service/rooms/user/mod.rs\<close>. The events of all rooms are in one
  column, keyed by room and position. The abstraction \<open>room_entries\<close> is the list of events of one room;
  a live event is appended to it, a backfilled one put in front, and the two scans read it from a position on.
\<close>

subsection \<open>State\<close>

text \<open>Stored JSON: how \<open>serde_json\<close> writes an object and reads it as an object or as an event.\<close>

record ('j, 'p) json_codec =
  to_json :: "'j \<Rightarrow> bytes"
  object_of :: "bytes \<Rightarrow> service_error + 'j"
  pdu_of :: "bytes \<Rightarrow> service_error + 'p"

record timeline_db =
  tl_short :: short_db
  eventid_outlierpdu :: table
  eventid_pduid :: table
  pduid_pdu :: "bytes column"
  userroomid_notificationcount :: table
  userroomid_highlightcount :: table
  roomuserid_lastnotificationread :: table

subsection \<open>Lookups\<close>

text \<open>\<open>RawPduId::from\<close> panics on a key of another length.\<close>

definition raw_pdu_id :: "bytes \<Rightarrow> service_error + raw_id" where
  "raw_pdu_id b = ok_or (PanicErr ''unrecognized RawId length'') (raw_id_from_bytes b)"

definition get_pdu_id :: "timeline_db \<Rightarrow> bytes \<Rightarrow> service_error + raw_id" where
  "get_pdu_id db event_id = bindR (table_get (eventid_pduid db) event_id) raw_pdu_id"

definition get_pdu_count :: "timeline_db \<Rightarrow> bytes \<Rightarrow> service_error + count" where
  "get_pdu_count db event_id = bindR (get_pdu_id db event_id) (\<lambda>pdu_id. Inr (pdu_count pdu_id))"

definition get_pdu_from_id :: "('j, 'p) json_codec \<Rightarrow> timeline_db \<Rightarrow> raw_id \<Rightarrow> service_error + 'p" where
  "get_pdu_from_id C db pdu_id = bindR (col_get (pduid_pdu db) (raw_as_bytes pdu_id)) (pdu_of C)"

definition get_pdu_json_from_id :: "('j, 'p) json_codec \<Rightarrow> timeline_db \<Rightarrow> raw_id \<Rightarrow> service_error + 'j" where
  "get_pdu_json_from_id C db pdu_id = bindR (col_get (pduid_pdu db) (raw_as_bytes pdu_id)) (object_of C)"

definition get_non_outlier_pdu :: "('j, 'p) json_codec \<Rightarrow> timeline_db \<Rightarrow> bytes \<Rightarrow> service_error + 'p" where
  "get_non_outlier_pdu C db event_id =
     bindR (get_pdu_id db event_id) (\<lambda>pduid. bindR (col_get (pduid_pdu db) (raw_as_bytes pduid)) (pdu_of C))"

definition get_non_outlier_pdu_json :: "('j, 'p) json_codec \<Rightarrow> timeline_db \<Rightarrow> bytes \<Rightarrow> service_error + 'j" where
  "get_non_outlier_pdu_json C db event_id =
     bindR (get_pdu_id db event_id) (\<lambda>pduid. bindR (col_get (pduid_pdu db) (raw_as_bytes pduid)) (object_of C))"

definition non_outlier_pdu_exists :: "timeline_db \<Rightarrow> bytes \<Rightarrow> service_error + unit" where
  "non_outlier_pdu_exists db event_id =
     bindR (get_pdu_id db event_id) (\<lambda>pduid. col_exists (pduid_pdu db) (raw_as_bytes pduid))"

definition get_pdu_outlier :: "('j, 'p) json_codec \<Rightarrow> timeline_db \<Rightarrow> bytes \<Rightarrow> service_error + 'p" where
  "get_pdu_outlier C db event_id = bindR (table_get (eventid_outlierpdu db) event_id) (pdu_of C)"

definition get_outlier_pdu_json :: "('j, 'p) json_codec \<Rightarrow> timeline_db \<Rightarrow> bytes \<Rightarrow> service_error + 'j" where
  "get_outlier_pdu_json C db event_id = bindR (table_get (eventid_outlierpdu db) event_id) (object_of C)"

definition outlier_pdu_exists :: "timeline_db \<Rightarrow> bytes \<Rightarrow> service_error + unit" where
  "outlier_pdu_exists db event_id = bindR (table_get (eventid_outlierpdu db) event_id) (\<lambda>_. Inr ())"

text \<open>
  \<open>select_ok\<close> of two futures: the first to complete with a value, or the error of the last to fail.
  \<open>first\<close> says that the first one completes before the second.
\<close>

definition select_ok :: "bool \<Rightarrow> 'e + 'a \<Rightarrow> 'e + 'a \<Rightarrow> 'e + 'a" where
  "select_ok first a b =
     (case (if first then (a, b) else (b, a)) of (Inr x, _) \<Rightarrow> Inr x | (Inl _, r) \<Rightarrow> r)"

definition get_pdu :: "bool \<Rightarrow> ('j, 'p) json_codec \<Rightarrow> timeline_db \<Rightarrow> bytes \<Rightarrow> service_error + 'p" where
  "get_pdu first C db event_id =
     select_ok first (get_non_outlier_pdu C db event_id) (get_pdu_outlier C db event_id)"

definition get_pdu_json :: "bool \<Rightarrow> ('j, 'p) json_codec \<Rightarrow> timeline_db \<Rightarrow> bytes \<Rightarrow> service_error + 'j" where
  "get_pdu_json first C db event_id =
     select_ok first (get_non_outlier_pdu_json C db event_id) (get_outlier_pdu_json C db event_id)"

definition pdu_exists :: "bool \<Rightarrow> timeline_db \<Rightarrow> bytes \<Rightarrow> service_error + unit" where
  "pdu_exists first db event_id =
     select_ok first (non_outlier_pdu_exists db event_id) (outlier_pdu_exists db event_id)"

subsection \<open>Writes\<close>

definition add_pdu_outlier :: "('j, 'p) json_codec \<Rightarrow> bytes \<Rightarrow> 'j \<Rightarrow> timeline_db \<Rightarrow> timeline_db" where
  "add_pdu_outlier C event_id pdu db =
     db\<lparr>eventid_outlierpdu := (eventid_outlierpdu db)(event_id \<mapsto> to_json C pdu)\<rparr>"

definition append_pdu :: "('j, 'p) json_codec \<Rightarrow> raw_id \<Rightarrow> bytes \<Rightarrow> 'j \<Rightarrow> timeline_db \<Rightarrow> timeline_db" where
  "append_pdu C pdu_id event_id json db =
     db\<lparr>pduid_pdu := col_insert (raw_as_bytes pdu_id) (to_json C json) (pduid_pdu db),
        eventid_pduid := (eventid_pduid db)(event_id \<mapsto> raw_as_bytes pdu_id),
        eventid_outlierpdu := (eventid_outlierpdu db)(event_id := None)\<rparr>"

definition prepend_backfill_pdu :: "('j, 'p) json_codec \<Rightarrow> raw_id \<Rightarrow> bytes \<Rightarrow> 'j \<Rightarrow> timeline_db \<Rightarrow> timeline_db" where
  "prepend_backfill_pdu C pdu_id event_id json db =
     db\<lparr>pduid_pdu := col_insert (raw_as_bytes pdu_id) (to_json C json) (pduid_pdu db),
        eventid_pduid := (eventid_pduid db)(event_id \<mapsto> raw_as_bytes pdu_id),
        eventid_outlierpdu := (eventid_outlierpdu db)(event_id := None)\<rparr>"

definition replace_pdu :: "('j, 'p) json_codec \<Rightarrow> raw_id \<Rightarrow> 'j \<Rightarrow> timeline_db \<Rightarrow> (service_error + unit) \<times> timeline_db" where
  "replace_pdu C pdu_id pdu_json db =
     (if col_get (pduid_pdu db) (raw_as_bytes pdu_id) = Inl NotFoundErr then (Inl NotFoundErr, db)
      else (Inr (), db\<lparr>pduid_pdu := col_insert (raw_as_bytes pdu_id) (to_json C pdu_json) (pduid_pdu db)\<rparr>))"

text \<open>
  The part of \<open>append_pdu\<close> of the service that holds the insert lock: a count for the sender's read
  marker, then the count that is the event's position.
\<close>

definition insert_live ::
  "('j, 'p) json_codec \<Rightarrow> u64 \<Rightarrow> bytes \<Rightarrow> 'j \<Rightarrow> timeline_db \<Rightarrow> (raw_id \<times> u64) \<times> timeline_db" where
  "insert_live C room event_id pdu_json db =
     (case next_count (tl_short db) of (count1, sdb) \<Rightarrow>
        (case next_count sdb of (count2, sdb) \<Rightarrow>
           (let pdu_id = raw_from_id \<lparr>shortroomid = room, shorteventid = Normal count2\<rparr>
            in ((pdu_id, count1), append_pdu C pdu_id event_id pdu_json (db\<lparr>tl_short := sdb\<rparr>)))))"

text \<open>
  The part of \<open>backfill_pdu\<close> that does. \<open>try_into\<close> fails on a count of \<open>2^63\<close> and above;
  the subtraction of the others from zero stays in range.
\<close>

definition insert_backfilled ::
  "('j, 'p) json_codec \<Rightarrow> u64 \<Rightarrow> bytes \<Rightarrow> 'j \<Rightarrow> timeline_db \<Rightarrow> (service_error + raw_id) \<times> timeline_db" where
  "insert_backfilled C room event_id value db =
     (case next_count (tl_short db) of (n, sdb) \<Rightarrow>
        (if 2 ^ 63 \<le> unat n then (Inl ArithmeticErr, db\<lparr>tl_short := sdb\<rparr>)
         else
           (let pdu_id = raw_from_id \<lparr>shortroomid = room, shorteventid = Backfilled (0 - n)\<rparr>
            in (Inr pdu_id, prepend_backfill_pdu C pdu_id event_id value (db\<lparr>tl_short := sdb\<rparr>)))))"

subsection \<open>Scans\<close>

definition count_to_id :: "timeline_db \<Rightarrow> bytes \<Rightarrow> count \<Rightarrow> direction \<Rightarrow> service_error + raw_id" where
  "count_to_id db room_id event dir =
     (case get_shortroomid (tl_short db) room_id of
        Inl _ \<Rightarrow> Inl NotFoundErr
      | Inr room \<Rightarrow>
          Inr (raw_from_id \<lparr>shortroomid = room, shorteventid = saturating_inc event dir\<rparr>))"

definition from_json_slice :: "('j, 'p) json_codec \<Rightarrow> bytes \<times> bytes \<Rightarrow> service_error + count \<times> 'p" where
  "from_json_slice C kv =
     bindR (raw_pdu_id (fst kv)) (\<lambda>pdu_id. bindR (pdu_of C (snd kv)) (\<lambda>pdu. Inr (pdu_count pdu_id, pdu)))"

definition pdus_rev :: "('j, 'p) json_codec \<Rightarrow> timeline_db \<Rightarrow> bytes \<Rightarrow> count \<Rightarrow> (service_error + count \<times> 'p) list" where
  "pdus_rev C db room_id until =
     (case count_to_id db room_id until Backward of
        Inl e \<Rightarrow> [Inl e]
      | Inr current \<Rightarrow>
          map (from_json_slice C) (takeWhile (\<lambda>(key, _). starts_with (raw_shortroomid current) key)
            (rev_raw_stream_from (pduid_pdu db) (raw_as_bytes current))))"

definition pdus :: "('j, 'p) json_codec \<Rightarrow> timeline_db \<Rightarrow> bytes \<Rightarrow> count \<Rightarrow> (service_error + count \<times> 'p) list" where
  "pdus C db room_id from =
     (case count_to_id db room_id from Forward of
        Inl e \<Rightarrow> [Inl e]
      | Inr current \<Rightarrow>
          map (from_json_slice C) (takeWhile (\<lambda>(key, _). starts_with (raw_shortroomid current) key)
            (raw_stream_from (pduid_pdu db) (raw_as_bytes current))))"

definition all_pdus :: "('j, 'p) json_codec \<Rightarrow> timeline_db \<Rightarrow> bytes \<Rightarrow> (count \<times> 'p) list" where
  "all_pdus C db room_id = ignore_err (pdus C db room_id count_min)"

text \<open>\<open>try_next\<close> of a stream.\<close>

definition try_next :: "('e + 'a) list \<Rightarrow> 'e + 'a option" where
  "try_next rs = (case rs of [] \<Rightarrow> Inr None | Inr x # _ \<Rightarrow> Inr (Some x) | Inl e # _ \<Rightarrow> Inl e)"

definition last_timeline_count :: "('j, 'p) json_codec \<Rightarrow> timeline_db \<Rightarrow> bytes \<Rightarrow> service_error + count" where
  "last_timeline_count C db room_id =
     bindR (try_next (pdus_rev C db room_id count_max)) (\<lambda>item.
       Inr (case item of Some (Normal n, _) \<Rightarrow> Normal n | _ \<Rightarrow> count_max))"

definition latest_pdu_in_room :: "('j, 'p) json_codec \<Rightarrow> timeline_db \<Rightarrow> bytes \<Rightarrow> service_error + 'p" where
  "latest_pdu_in_room C db room_id =
     bindR (try_next (pdus_rev C db room_id count_max)) (\<lambda>item. ok_or NotFoundErr (map_option snd item))"

definition first_item_in_room :: "('j, 'p) json_codec \<Rightarrow> timeline_db \<Rightarrow> bytes \<Rightarrow> service_error + count \<times> 'p" where
  "first_item_in_room C db room_id =
     bindR (try_next (pdus C db room_id count_min)) (\<lambda>item. ok_or NotFoundErr item)"

subsection \<open>Notification counts\<close>

definition u64_from_bytes_or_zero :: "bytes \<Rightarrow> u64" where
  "u64_from_bytes_or_zero b = (if length b = 8 then from_be_bytes b else 0)"

definition utils_increment :: "bytes option \<Rightarrow> bytes" where
  "utils_increment old = to_be_bytes ((case old of None \<Rightarrow> 0 | Some b \<Rightarrow> u64_from_bytes_or_zero b) + 1)"

definition increment_key :: "bytes \<Rightarrow> table \<Rightarrow> table" where
  "increment_key k t = t(k \<mapsto> utils_increment (t k))"

definition increment_notification_counts :: "bytes \<Rightarrow> bytes list \<Rightarrow> bytes list \<Rightarrow> timeline_db \<Rightarrow> timeline_db" where
  "increment_notification_counts room_id notifies highlights db =
     db\<lparr>userroomid_notificationcount :=
          fold (\<lambda>user. increment_key (user @ [0xFF] @ room_id)) notifies (userroomid_notificationcount db),
        userroomid_highlightcount :=
          fold (\<lambda>user. increment_key (user @ [0xFF] @ room_id)) highlights (userroomid_highlightcount db)\<rparr>"

definition reset_notification_counts :: "bytes \<Rightarrow> bytes \<Rightarrow> timeline_db \<Rightarrow> timeline_db" where
  "reset_notification_counts user_id room_id db =
     (case next_count (tl_short db) of (n, sdb) \<Rightarrow>
        db\<lparr>userroomid_highlightcount := (userroomid_highlightcount db)(pair_key (user_id, room_id) \<mapsto> to_be_bytes 0),
           userroomid_notificationcount := (userroomid_notificationcount db)(pair_key (user_id, room_id) \<mapsto> to_be_bytes 0),
           tl_short := sdb,
           roomuserid_lastnotificationread :=
             (roomuserid_lastnotificationread db)(pair_key (room_id, user_id) \<mapsto> to_be_bytes n)\<rparr>)"

text \<open>\<open>qry(&key).deserialized().unwrap_or(0)\<close>.\<close>

definition u64_or_zero :: "table \<Rightarrow> bytes \<Rightarrow> u64" where
  "u64_or_zero t k = (case bindR (table_get t k) de_u64 of Inr n \<Rightarrow> n | Inl _ \<Rightarrow> 0)"

definition notification_count :: "timeline_db \<Rightarrow> bytes \<Rightarrow> bytes \<Rightarrow> u64" where
  "notification_count db user_id room_id = u64_or_zero (userroomid_notificationcount db) (pair_key (user_id, room_id))"

definition highlight_count :: "timeline_db \<Rightarrow> bytes \<Rightarrow> bytes \<Rightarrow> u64" where
  "highlight_count db user_id room_id = u64_or_zero (userroomid_highlightcount db) (pair_key (user_id, room_id))"

definition last_notification_read :: "timeline_db \<Rightarrow> bytes \<Rightarrow> bytes \<Rightarrow> u64" where
  "last_notification_read db user_id room_id =
     u64_or_zero (roomuserid_lastnotificationread db) (pair_key (room_id, user_id))"

subsection \<open>The timeline of a room\<close>

text \<open>The entries of a room: positions and stored events, in the order of the database.\<close>

definition room_entries :: "timeline_db \<Rightarrow> u64 \<Rightarrow> (count \<times> bytes) list" where
  "room_entries db r =
     map (\<lambda>(k, v). (shorteventid (pdu_key_dec k), v)) (raw_stream_prefix (pduid_pdu db) (to_be_bytes r))"

text \<open>Positions are drawn from the global counter.\<close>

definition drawn :: "u64 \<Rightarrow> count \<Rightarrow> bool" where
  "drawn c i \<longleftrightarrow> strict_count i \<and> \<bar>sint (into_signed i)\<bar> \<le> int (unat c)"

definition timeline_ok :: "timeline_db \<Rightarrow> bool" where
  "timeline_ok db \<longleftrightarrow> column_ok (pduid_pdu db)
     \<and> (\<forall>k \<in> fst ` set (pduid_pdu db). \<exists>r i. drawn (counter (tl_short db)) i \<and> k = pdu_key_enc \<lparr>shortroomid = r, shorteventid = i\<rparr>)
     \<and> (\<forall>e k. eventid_pduid db e = Some k \<longrightarrow> k \<in> fst ` set (pduid_pdu db))"

abbreviation pos_key :: "u64 \<Rightarrow> count \<Rightarrow> bytes" where
  "pos_key r i \<equiv> pdu_key_enc \<lparr>shortroomid = r, shorteventid = i\<rparr>"

abbreviation entry_less :: "count \<times> bytes \<Rightarrow> count \<times> bytes \<Rightarrow> bool" where
  "entry_less a b \<equiv> count_less (fst a) (fst b)"

interpretation room_keys: prefixed_keys "\<lambda>_. True" "\<lambda>_. strict_count" to_be_bytes pos_key
proof unfold_locales
  fix a b :: u64 and i
  have "take 8 (to_be_bytes b @ rest) = to_be_bytes b" for rest by (simp add: take_append)
  then show "starts_with (to_be_bytes a) (pos_key b i) \<longleftrightarrow> b = a" by (simp add: starts_with_def pdu_key_enc_eq)
next
  fix a :: u64 and i j assume "strict_count i" "strict_count j"
  then show "pos_key a i = pos_key a j \<longleftrightarrow> i = j"
    using pdu_key.enc_inject [of "\<lparr>shortroomid = a, shorteventid = i\<rparr>" "\<lparr>shortroomid = a, shorteventid = j\<rparr>"]
    by (simp add: pdu_key_valid_def)
qed

lemma pos_key_less: "strict_count i \<Longrightarrow> strict_count j \<Longrightarrow> pos_key r i < pos_key r j \<longleftrightarrow> count_less i j"
  by (simp add: pdu_key_less_iff pdu_key_valid_def pdu_id_less_def)

lemma pos_key_dec [simp]: "strict_count i \<Longrightarrow> pdu_key_dec (pos_key r i) = \<lparr>shortroomid = r, shorteventid = i\<rparr>"
  by (simp add: pdu_key.dec_enc pdu_key_valid_def)

lemma drawn_strict: "drawn c i \<Longrightarrow> strict_count i"
  by (simp add: drawn_def)

lemma timeline_keys:
  "timeline_ok db \<Longrightarrow> \<forall>k \<in> fst ` set (pduid_pdu db). \<exists>r i. True \<and> strict_count i \<and> k = pos_key r i"
  unfolding timeline_ok_def using drawn_strict by meson

lemma room_scan:
  "timeline_ok db \<Longrightarrow> set (raw_stream_prefix (pduid_pdu db) (to_be_bytes r))
     = {(pos_key r i, v) | i v. strict_count i \<and> map_of (pduid_pdu db) (pos_key r i) = Some v}"
  using room_keys.scan_owner [OF _ timeline_keys] by (simp add: timeline_ok_def)

lemma room_entries_set:
  assumes "timeline_ok db"
  shows "(i, v) \<in> set (room_entries db r) \<longleftrightarrow> strict_count i \<and> map_of (pduid_pdu db) (pos_key r i) = Some v"
proof
  assume "(i, v) \<in> set (room_entries db r)"
  then show "strict_count i \<and> map_of (pduid_pdu db) (pos_key r i) = Some v"
    by (auto simp: room_entries_def room_scan [OF assms])
next
  assume *: "strict_count i \<and> map_of (pduid_pdu db) (pos_key r i) = Some v"
  then have "(pos_key r i, v) \<in> set (raw_stream_prefix (pduid_pdu db) (to_be_bytes r))" by (auto simp: room_scan [OF assms])
  then show "(i, v) \<in> set (room_entries db r)" unfolding room_entries_def using * by (force intro: rev_image_eqI)
qed

text \<open>The entries of a room, with their keys, are the keys with the room's prefix.\<close>

lemma room_entries_keys:
  assumes "timeline_ok db"
  shows "map (\<lambda>(i, v). (pos_key r i, v)) (room_entries db r) = raw_stream_prefix (pduid_pdu db) (to_be_bytes r)"
proof -
  have "map (\<lambda>(i, v). (pos_key r i, v)) (map (\<lambda>(k, v). (shorteventid (pdu_key_dec k), v)) es) = es"
    if "\<forall>e \<in> set es. \<exists>i v. e = (pos_key r i, v) \<and> strict_count i" for es :: "bytes column"
    using that by (induction es) auto
  moreover have "\<forall>e \<in> set (raw_stream_prefix (pduid_pdu db) (to_be_bytes r)). \<exists>i v. e = (pos_key r i, v) \<and> strict_count i"
    by (auto simp: room_scan [OF assms])
  ultimately show ?thesis unfolding room_entries_def by blast
qed

lemma room_entries_sorted:
  assumes "timeline_ok db"
  shows "sorted_wrt entry_less (room_entries db r)"
proof -
  have "sorted_wrt (<) (map fst (raw_stream_prefix (pduid_pdu db) (to_be_bytes r)))"
    using raw_keys_prefix_sorted assms unfolding raw_keys_prefix_def timeline_ok_def by blast
  then have "sorted_wrt (\<lambda>a b. pos_key r (fst a) < pos_key r (fst b)) (room_entries db r)"
    unfolding room_entries_keys [OF assms, symmetric] by (simp add: sorted_wrt_map split_beta)
  then show ?thesis
    by (rule sorted_wrt_mono_rel [rotated]) (auto simp: room_entries_set [OF assms] pos_key_less)
qed

lemma room_entries_eqI:
  assumes "timeline_ok db" and "sorted_wrt entry_less es"
    and "\<And>i v. (i, v) \<in> set es \<longleftrightarrow> strict_count i \<and> map_of (pduid_pdu db) (pos_key r i) = Some v"
  shows "room_entries db r = es"
proof (rule sorted_wrt_unique [OF _ room_entries_sorted [OF assms(1)] assms(2)])
  show "set (room_entries db r) = set es" using room_entries_set [OF assms(1)] assms(3) by auto
qed (simp add: count_less_def)

subsection \<open>Adding events\<close>

text \<open>A new position, stored under the room.\<close>

definition with_entry :: "u64 \<Rightarrow> count \<Rightarrow> bytes \<Rightarrow> bytes \<Rightarrow> short_db \<Rightarrow> timeline_db \<Rightarrow> timeline_db" where
  "with_entry r i event_id v sdb db =
     db\<lparr>tl_short := sdb, pduid_pdu := col_insert (pos_key r i) v (pduid_pdu db),
        eventid_pduid := (eventid_pduid db)(event_id \<mapsto> pos_key r i),
        eventid_outlierpdu := (eventid_outlierpdu db)(event_id := None)\<rparr>"

lemma drawn_mono: "drawn c i \<Longrightarrow> c \<le> d \<Longrightarrow> drawn d i"
  by (auto simp: drawn_def word_le_def)

lemma with_entry_ok:
  assumes "timeline_ok db" and "drawn (counter sdb) i" and "counter (tl_short db) \<le> counter sdb"
  shows "timeline_ok (with_entry r i event_id v sdb db)"
proof -
  have "\<exists>r i. drawn (counter sdb) i \<and> k = pos_key r i" if "k \<in> insert (pos_key r i) (fst ` set (pduid_pdu db))" for k
    using that assms drawn_mono [OF _ assms(3)] unfolding timeline_ok_def by blast
  then show ?thesis using assms(1)
    by (auto simp: timeline_ok_def with_entry_def col_insert_keys)
qed

lemma with_entry_get:
  assumes "timeline_ok db" and "strict_count i" and "strict_count j"
  shows "map_of (pduid_pdu (with_entry r i event_id v sdb db)) (pos_key r' j)
    = (if r' = r \<and> j = i then Some v else map_of (pduid_pdu db) (pos_key r' j))"
  using assms room_keys.key_inject [of i j r' r] by (auto simp: with_entry_def timeline_ok_def room_keys.key_inject)

lemma with_entry_entries:
  assumes "timeline_ok db" and "drawn (counter sdb) i" and "counter (tl_short db) \<le> counter sdb"
    and "sorted_wrt entry_less (pre @ (i, v) # post)" and "room_entries db r = pre @ post"
  shows "room_entries (with_entry r i event_id v sdb db) r' = (if r' = r then pre @ (i, v) # post else room_entries db r')"
proof (rule room_entries_eqI [OF with_entry_ok [OF assms(1-3)]])
  have i: "strict_count i" using assms(2) by (rule drawn_strict)
  show "sorted_wrt entry_less (if r' = r then pre @ (i, v) # post else room_entries db r')"
    using assms(4) room_entries_sorted [OF assms(1)] by simp
  fix j w
  have "(i, w') \<notin> set (pre @ post)" for w' using assms(4) by (auto simp: sorted_wrt_append count_less_def)
  then have no: "j \<noteq> i" if "(j, w) \<in> set (pre @ post)" using that by blast
  have old: "(j, w) \<in> set (room_entries db r') \<longleftrightarrow> strict_count j \<and> map_of (pduid_pdu db) (pos_key r' j) = Some w"
    using room_entries_set [OF assms(1)] .
  show "(j, w) \<in> set (if r' = r then pre @ (i, v) # post else room_entries db r')
      \<longleftrightarrow> strict_count j \<and> map_of (pduid_pdu (with_entry r i event_id v sdb db)) (pos_key r' j) = Some w"
  proof (cases "strict_count j")
    case True
    then show ?thesis using old no i assms(5) by (auto simp: with_entry_get [OF assms(1) i])
  next
    case False
    then show ?thesis using old assms(5) i by auto
  qed
qed

lemma next_count_below:
  assumes "unat (counter sdb) + k < 2 ^ 63" and "0 < k"
  shows "next_count sdb = (counter sdb + 1, sdb\<lparr>counter := counter sdb + 1, global := (global sdb)(COUNTER \<mapsto> to_be_bytes (counter sdb + 1))\<rparr>)"
    and "unat (counter sdb + 1) = Suc (unat (counter sdb))" and "counter sdb \<le> counter sdb + 1"
proof -
  have ne: "counter sdb \<noteq> - 1" using assms by (auto simp: unsigned_minus_1_eq_mask mask_eq_exp_minus_1)
  then show "next_count sdb = (counter sdb + 1, sdb\<lparr>counter := counter sdb + 1, global := (global sdb)(COUNTER \<mapsto> to_be_bytes (counter sdb + 1))\<rparr>)"
    by (simp add: next_count_def Let_def)
  show s: "unat (counter sdb + 1) = Suc (unat (counter sdb))" using assms by (simp add: unat_word_ariths)
  show "counter sdb \<le> counter sdb + 1" using s by (simp add: word_le_nat_alt)
qed

lemma sint_unat_63:
  assumes "unat (w :: 64 word) < 2 ^ 63"
  shows "sint w = int (unat w)"
proof -
  have "int (unat w) < int (2 ^ 63)" using assms by (rule of_nat_less_iff [THEN iffD2])
  then show ?thesis by (simp add: sint_uint_64)
qed

text \<open>The database after a live and after a backfilled event.\<close>

lemma insert_live_eq:
  assumes "unat (counter (tl_short db)) + 2 < 2 ^ 63"
  obtains sdb n where "insert_live C r e j db
      = ((raw_from_id \<lparr>shortroomid = r, shorteventid = Normal n\<rparr>, counter (tl_short db) + 1), with_entry r (Normal n) e (to_json C j) sdb db)"
    and "counter sdb = n" and "unat n = unat (counter (tl_short db)) + 2" and "roomid_shortroomid sdb = roomid_shortroomid (tl_short db)"
proof -
  note one = next_count_below [OF assms]
  let ?s = "snd (next_count (tl_short db))"
  have s: "counter ?s = counter (tl_short db) + 1" using one by simp
  have b: "unat (counter ?s) + 1 < 2 ^ 63" using assms one(2) unfolding s by simp
  note two = next_count_below [OF b]
  show ?thesis
  proof (rule that [of "counter ?s + 1" "snd (next_count ?s)"])
    show "insert_live C r e j db = ((raw_from_id \<lparr>shortroomid = r, shorteventid = Normal (counter ?s + 1)\<rparr>, counter (tl_short db) + 1),
        with_entry r (Normal (counter ?s + 1)) e (to_json C j) (snd (next_count ?s)) db)"
      using one(1) two(1)
      by (simp add: insert_live_def append_pdu_def with_entry_def pdu_key_enc_def Let_def split_beta)
    show "unat (counter ?s + 1) = unat (counter (tl_short db)) + 2" using two(2) one(2) unfolding s by simp
    show "roomid_shortroomid (snd (next_count ?s)) = roomid_shortroomid (tl_short db)"
      by (simp add: next_count_def Let_def)
    show "counter (snd (next_count ?s)) = counter ?s + 1" using two(1) by simp
  qed
qed

lemma insert_backfilled_eq:
  assumes "unat (counter (tl_short db)) + 1 < 2 ^ 63"
  obtains sdb n where "insert_backfilled C r e j db
      = (Inr (raw_from_id \<lparr>shortroomid = r, shorteventid = Backfilled (- n)\<rparr>), with_entry r (Backfilled (- n)) e (to_json C j) sdb db)"
    and "counter sdb = n" and "unat n = unat (counter (tl_short db)) + 1" and "roomid_shortroomid sdb = roomid_shortroomid (tl_short db)"
proof -
  note one = next_count_below [OF assms]
  let ?s = "snd (next_count (tl_short db))"
  show ?thesis
  proof (rule that [of "counter (tl_short db) + 1" ?s])
    show "insert_backfilled C r e j db = (Inr (raw_from_id \<lparr>shortroomid = r, shorteventid = Backfilled (- (counter (tl_short db) + 1))\<rparr>),
        with_entry r (Backfilled (- (counter (tl_short db) + 1))) e (to_json C j) ?s db)"
      using one assms
      by (simp add: insert_backfilled_def prepend_backfill_pdu_def with_entry_def pdu_key_enc_def Let_def split_beta)
    show "unat (counter (tl_short db) + 1) = unat (counter (tl_short db)) + 1" using one(2) by simp
    show "roomid_shortroomid ?s = roomid_shortroomid (tl_short db)" by (simp add: next_count_def Let_def)
    show "counter ?s = counter (tl_short db) + 1" using one(1) by simp
  qed
qed

lemma entries_drawn:
  assumes "timeline_ok db" and "(i, v) \<in> set (room_entries db r)"
  shows "drawn (counter (tl_short db)) i"
proof -
  have i: "strict_count i" "map_of (pduid_pdu db) (pos_key r i) = Some v"
    using assms(2) by (simp_all add: room_entries_set [OF assms(1)])
  then have "pos_key r i \<in> fst ` set (pduid_pdu db)" by (force dest: map_of_SomeD)
  then obtain r' j where j: "drawn (counter (tl_short db)) j" "pos_key r i = pos_key r' j"
    using assms(1) unfolding timeline_ok_def by blast
  then have "i = j" using room_keys.key_inject [of i j r r'] i(1) drawn_strict by simp
  then show ?thesis using j(1) by simp
qed

lemma live_entry:
  assumes "timeline_ok db" and "unat n = unat (counter (tl_short db)) + 2" and "unat n < 2 ^ 63"
  shows "drawn n (Normal n)" and "counter (tl_short db) \<le> n" and "sorted_wrt entry_less (room_entries db r @ [(Normal n, v)])"
proof -
  have n: "sint n = int (unat n)" using assms(3) by (rule sint_unat_63)
  then have "0 < sint n" using assms(2) by linarith
  then show "drawn n (Normal n)" using n by (simp add: drawn_def strict_count_def proper_count_def)
  show "counter (tl_short db) \<le> n" using assms(2) by (simp add: word_le_nat_alt)
  have "count_less i (Normal n)" if "(i, w) \<in> set (room_entries db r)" for i w
    using entries_drawn [OF assms(1) that] assms(2) n by (auto simp: drawn_def count_less_def)
  then show "sorted_wrt entry_less (room_entries db r @ [(Normal n, v)])"
    using room_entries_sorted [OF assms(1)] by (auto simp: sorted_wrt_append)
qed

lemma backfilled_entry:
  assumes "timeline_ok db" and "unat n = unat (counter (tl_short db)) + 1" and "unat n < 2 ^ 63"
  shows "drawn n (Backfilled (- n))" and "counter (tl_short db) \<le> n" and "sorted_wrt entry_less ((Backfilled (- n), v) # room_entries db r)"
proof -
  have n: "sint n = int (unat n)" using assms(3) by (rule sint_unat_63)
  then have "0 \<le> sint n" by simp
  then have "sint (0 - n) = sint (0 :: u64) - sint n" by (intro sint_diff_64) (use sint_less_63 [of n] in simp_all)
  then have m: "sint (- n) = - int (unat n)" using n by simp
  then have "sint (- n) \<noteq> 0" using assms(2) by linarith
  then have "- n \<noteq> 0" using sint_64_eq_0 [of "- n"] by blast
  then show "drawn n (Backfilled (- n))" using m by (simp add: drawn_def strict_count_def proper_count_def)
  show "counter (tl_short db) \<le> n" using assms(2) by (simp add: word_le_nat_alt)
  have "count_less (Backfilled (- n)) i" if "(i, w) \<in> set (room_entries db r)" for i w
    using entries_drawn [OF assms(1) that] assms(2) m by (auto simp: drawn_def count_less_def)
  then show "sorted_wrt entry_less ((Backfilled (- n), v) # room_entries db r)"
    using room_entries_sorted [OF assms(1)] by auto
qed

text \<open>A live event goes to the end of its room's timeline, a backfilled one to the front.\<close>

lemma insert_live_refines:
  assumes "timeline_ok db" and "unat (counter (tl_short db)) + 2 < 2 ^ 63"
  shows "case insert_live C r e j db of ((pdu_id, _), db') \<Rightarrow> timeline_ok db'
    \<and> (\<forall>r'. room_entries db' r' = (if r' = r then room_entries db r @ [(pdu_count pdu_id, to_json C j)] else room_entries db r'))
    \<and> unat (counter (tl_short db')) = unat (counter (tl_short db)) + 2"
proof -
  obtain sdb n where eq: "insert_live C r e j db
      = ((raw_from_id \<lparr>shortroomid = r, shorteventid = Normal n\<rparr>, counter (tl_short db) + 1), with_entry r (Normal n) e (to_json C j) sdb db)"
    and n: "counter sdb = n" "unat n = unat (counter (tl_short db)) + 2"
    by (rule insert_live_eq [OF assms(2), of C r e j])
  have b: "unat n < 2 ^ 63" using n(2) assms(2) by simp
  note entry = live_entry [OF assms(1) n(2) b]
  have "pdu_count (raw_from_id \<lparr>shortroomid = r, shorteventid = Normal n\<rparr>) = Normal n"
    using drawn_strict [OF entry(1)] by (simp add: pdu_count_def id_from_raw_from_id strict_count_def)
  then show ?thesis
    using with_entry_ok [OF assms(1), of sdb "Normal n" r e "to_json C j"] entry n
      with_entry_entries [OF assms(1), of sdb "Normal n" "room_entries db r" "to_json C j" "[]" r e]
    by (simp add: eq) (simp add: with_entry_def)
qed

lemma insert_backfilled_refines:
  assumes "timeline_ok db" and "unat (counter (tl_short db)) + 1 < 2 ^ 63"
  shows "case insert_backfilled C r e j db of (res, db') \<Rightarrow> timeline_ok db'
    \<and> (\<exists>pdu_id. res = Inr pdu_id
      \<and> (\<forall>r'. room_entries db' r' = (if r' = r then (pdu_count pdu_id, to_json C j) # room_entries db r else room_entries db r')))
    \<and> unat (counter (tl_short db')) = unat (counter (tl_short db)) + 1"
proof -
  obtain sdb n where eq: "insert_backfilled C r e j db
      = (Inr (raw_from_id \<lparr>shortroomid = r, shorteventid = Backfilled (- n)\<rparr>), with_entry r (Backfilled (- n)) e (to_json C j) sdb db)"
    and n: "counter sdb = n" "unat n = unat (counter (tl_short db)) + 1"
    by (rule insert_backfilled_eq [OF assms(2), of C r e j])
  have b: "unat n < 2 ^ 63" using n(2) assms(2) by simp
  note entry = backfilled_entry [OF assms(1) n(2) b]
  have "pdu_count (raw_from_id \<lparr>shortroomid = r, shorteventid = Backfilled (- n)\<rparr>) = Backfilled (- n)"
    using drawn_strict [OF entry(1)] by (simp add: pdu_count_def id_from_raw_from_id strict_count_def)
  then show ?thesis
    using with_entry_ok [OF assms(1), of sdb "Backfilled (- n)" r e "to_json C j"] entry n
      with_entry_entries [OF assms(1), of sdb "Backfilled (- n)" "[]" "to_json C j" "room_entries db r" r e]
    by (simp add: eq) (simp add: with_entry_def)
qed

subsection \<open>Scans\<close>

text \<open>Positions from which the scans step to the next position: all but those next to zero and the last one.\<close>

definition steps_ok :: "count \<Rightarrow> direction \<Rightarrow> bool" where
  "steps_ok c d \<longleftrightarrow> strict_count c \<and>
     (case d of Forward \<Rightarrow> c \<noteq> Backfilled (- 1) \<and> c \<noteq> count_max | Backward \<Rightarrow> c \<noteq> Normal 1 \<and> c \<noteq> count_min)"

lemma word_of_sint_64:
  assumes "sint (w :: 64 word) = x"
  shows "w = word_of_int x"
  unfolding assms [symmetric] by simp

lemma step_forward:
  assumes "steps_ok c Forward"
  shows "strict_count (saturating_inc c Forward) \<and> sint (into_signed (saturating_inc c Forward)) = sint (into_signed c) + 1"
proof (cases c)
  case (Normal n)
  then have n: "0 < sint n" "n \<noteq> word_of_int (2 ^ 63 - 1)"
    using assms by (simp_all add: steps_ok_def strict_count_def proper_count_def count_max_def)
  then have "sint n \<noteq> 2 ^ 63 - 1" using word_of_sint_64 by metis
  then have b: "sint n + 1 < 2 ^ 63" using sint_less_63 [of n] by simp
  then have "sint (n + 1) = sint n + 1" using sint_add_64 [of n 1] n(1) by simp
  moreover have "uint n < 2 ^ 63" using n(1) uint_lt2p [of n] by (simp add: sint_uint_64 split: if_splits)
  then have "unat n + unat (1 :: u64) < 2 ^ 64" by (simp add: nat_less_iff flip: nat_uint_eq)
  ultimately show ?thesis using Normal n(1) by (simp add: u64_saturating_add_def strict_count_def proper_count_def)
next
  case (Backfilled n)
  then have n: "sint n < 0" "n \<noteq> - 1"
    using assms by (auto simp: steps_ok_def strict_count_def proper_count_def order_less_le)
  then have "sint n \<noteq> - 1" using word_of_sint_64 [of n "- 1"] by auto
  then have b: "sint n + 1 < 0" using n(1) by simp
  then have "sint (n + 1) = sint n + 1" using sint_add_64 [of n 1] sint_less_63 [of n] by simp
  moreover have "(word_of_int (sint n + 1) :: u64) = n + 1" by simp
  ultimately show ?thesis using Backfilled b sint_less_63 [of n] sint_64_eq_0 [of "n + 1"]
    by (auto simp: i64_saturate_def strict_count_def proper_count_def)
qed

lemma step_backward:
  assumes "steps_ok c Backward"
  shows "strict_count (saturating_inc c Backward) \<and> sint (into_signed (saturating_inc c Backward)) = sint (into_signed c) - 1"
proof (cases c)
  case (Normal n)
  then have n: "0 < sint n" "n \<noteq> 1" using assms by (simp_all add: steps_ok_def strict_count_def proper_count_def)
  then have "sint n \<noteq> 1" using word_of_sint_64 [of n 1] by auto
  then have b: "0 < sint n - 1" using n(1) by simp
  then have "sint (n - 1) = sint n - 1" using sint_diff_64 [of n 1] sint_less_63 [of n] by simp
  moreover have "n \<noteq> 0" using n(1) by auto
  then have "1 \<le> n" by (simp add: word_le_nat_alt Suc_le_eq unat_gt_0)
  ultimately show ?thesis using Normal b by (simp add: u64_saturating_sub_def strict_count_def proper_count_def)
next
  case (Backfilled n)
  then have n: "sint n < 0" "n \<noteq> word_of_int (- (2 ^ 63))"
    using assms by (auto simp: steps_ok_def strict_count_def proper_count_def order_less_le count_min_def)
  then have "sint n \<noteq> - (2 ^ 63)" using word_of_sint_64 by metis
  then have b: "- (2 ^ 63) \<le> sint n - 1" using sint_less_63(2) [of n] by simp
  then have "sint (n - 1) = sint n - 1" using sint_diff_64 [of n 1] n(1) by simp
  moreover have "(word_of_int (sint n - 1) :: u64) = n - 1" by simp
  ultimately show ?thesis using Backfilled b n(1) sint_64_eq_0 [of "n - 1"]
    by (auto simp: i64_saturate_def strict_count_def proper_count_def)
qed

definition read_entry :: "('j, 'p) json_codec \<Rightarrow> count \<times> bytes \<Rightarrow> service_error + count \<times> 'p" where
  "read_entry C e = bindR (pdu_of C (snd e)) (\<lambda>pdu. Inr (fst e, pdu))"

lemma raw_key [simp]:
  "raw_shortroomid (raw_from_id \<lparr>shortroomid = r, shorteventid = i\<rparr>) = to_be_bytes r"
  "raw_as_bytes (raw_from_id \<lparr>shortroomid = r, shorteventid = i\<rparr>) = pos_key r i"
  "raw_pdu_id (pos_key r i) = Inr (raw_from_id \<lparr>shortroomid = r, shorteventid = i\<rparr>)"
  by (simp_all add: raw_from_id_def pdu_key_enc_def raw_pdu_id_def raw_id_from_bytes_def ok_or_def Let_def split: count.splits)

lemma read_key: "strict_count i \<Longrightarrow> from_json_slice C (pos_key r i, v) = read_entry C (i, v)"
  by (simp add: from_json_slice_def read_entry_def pdu_count_def id_from_raw_from_id strict_count_def)

lemma entries_from_keys:
  assumes "timeline_ok db" and "\<And>i. strict_count i \<Longrightarrow> P (pos_key r i) \<longleftrightarrow> Q i"
  shows "map (from_json_slice C) (filter (\<lambda>(k, _). P k) (raw_stream_prefix (pduid_pdu db) (to_be_bytes r)))
    = map (read_entry C) (filter (\<lambda>(i, _). Q i) (room_entries db r))"
proof -
  have "map (from_json_slice C) (filter (\<lambda>(k, _). P k) (map (\<lambda>(i, v). (pos_key r i, v)) es))
      = map (read_entry C) (filter (\<lambda>(i, _). Q i) es)" if "\<forall>(i, v) \<in> set es. strict_count i" for es
    using that by (induction es) (auto simp: assms(2) read_key)
  moreover have "\<forall>(i, v) \<in> set (room_entries db r). strict_count i" by (auto simp: room_entries_set [OF assms(1)])
  ultimately show ?thesis unfolding room_entries_keys [OF assms(1), symmetric] by blast
qed

lemma room_prefix_key: "starts_with (to_be_bytes r) (pos_key r i)"
  by (simp add: pdu_key_enc_eq)

lemma pdus_scan:
  assumes "timeline_ok db" and "get_shortroomid (tl_short db) room = Inr r" and "steps_ok c Forward"
  shows "pdus C db room c = map (read_entry C) (filter (\<lambda>(i, _). count_less c i) (room_entries db r))"
proof -
  note step = step_forward [OF assms(3)]
  have "pos_key r (saturating_inc c Forward) \<le> pos_key r i \<longleftrightarrow> count_less c i" if "strict_count i" for i
    using pos_key_less [OF that conjunct1 [OF step], of r] conjunct2 [OF step]
    by (simp add: count_less_def not_less [symmetric])
  from entries_from_keys [OF assms(1), of "\<lambda>k. pos_key r (saturating_inc c Forward) \<le> k", OF this]
  show ?thesis using assms(1)
    by (simp add: pdus_def count_to_id_def assms(2) scan_from_prefix room_prefix_key timeline_ok_def del: saturating_inc.simps)
qed

lemma pdus_rev_scan:
  assumes "timeline_ok db" and "get_shortroomid (tl_short db) room = Inr r" and "steps_ok c Backward"
  shows "pdus_rev C db room c = map (read_entry C) (rev (filter (\<lambda>(i, _). count_less i c) (room_entries db r)))"
proof -
  note step = step_backward [OF assms(3)]
  have "pos_key r i \<le> pos_key r (saturating_inc c Backward) \<longleftrightarrow> count_less i c" if "strict_count i" for i
    using pos_key_less [OF conjunct1 [OF step] that, of r] conjunct2 [OF step]
    by (simp add: count_less_def not_less [symmetric]) linarith
  from entries_from_keys [OF assms(1), of "\<lambda>k. k \<le> pos_key r (saturating_inc c Backward)", OF this]
  show ?thesis using assms(1)
    by (simp add: pdus_rev_def count_to_id_def assms(2) rev_scan_from_prefix room_prefix_key timeline_ok_def
        rev_map [symmetric] del: saturating_inc.simps)
qed

subsection \<open>Properties\<close>

text \<open>C31. A forward scan returns the events of the room after a position, oldest first, and a reverse scan
  those before it, latest first: no event of another room, none twice, none left out. The position is a possible one
  of an event, above zero for live and below zero for backfilled events, or an end of the range, and the scan does not
  have to step onto zero or over the end: excluded are forward scans from the backfilled position \<open>-1\<close> and from the
  largest position, and reverse scans from the live position \<open>1\<close> and from the smallest. (From \<open>-1\<close> and \<open>1\<close> the scans
  do go wrong.)\<close>

theorem timeline_scans_correct:
  assumes "timeline_ok db" and "get_shortroomid (tl_short db) room = Inr r"
    and "steps_ok c Forward" and "steps_ok c' Backward"
  shows "pdus C db room c = map (read_entry C) (filter (\<lambda>(i, _). count_less c i) (room_entries db r))
    \<and> pdus_rev C db room c' = map (read_entry C) (rev (filter (\<lambda>(i, _). count_less i c') (room_entries db r)))"
  using pdus_scan [OF assms(1-3)] pdus_rev_scan [OF assms(1,2,4)] by blast

text \<open>A timeline with a backfilled and a live event.\<close>

definition sample_timeline :: timeline_db where
  "sample_timeline = \<lparr>tl_short = new_db\<lparr>counter := 3, roomid_shortroomid := [[0x21] \<mapsto> to_be_bytes 7]\<rparr>,
     eventid_outlierpdu = [[3] \<mapsto> [6]], eventid_pduid = [[1] \<mapsto> pos_key 7 (Normal 2), [2] \<mapsto> pos_key 7 (Backfilled (- 3))],
     pduid_pdu = [(pos_key 7 (Backfilled (- 3)), [5]), (pos_key 7 (Normal 2), [4])],
     userroomid_notificationcount = Map.empty, userroomid_highlightcount = Map.empty,
     roomuserid_lastnotificationread = Map.empty\<rparr>"

definition plain_codec :: "(bytes, bytes) json_codec" where
  "plain_codec = \<lparr>to_json = (\<lambda>j. j), object_of = Inr, pdu_of = Inr\<rparr>"

lemma sample_counts: "drawn 3 (Backfilled (- 3))" "drawn 3 (Normal 2)"
  by (simp_all add: drawn_def strict_count_def proper_count_def)

lemma sample_timeline_ok: "timeline_ok sample_timeline"
  using sample_counts pos_key_less [OF sample_counts [THEN drawn_strict], of 7]
  by (auto simp: timeline_ok_def sample_timeline_def column_ok_def count_less_def)

lemma sample_room: "get_shortroomid (tl_short sample_timeline) [0x21] = Inr 7"
  by (simp add: sample_timeline_def get_shortroomid_def table_get_def ok_or_def)

lemma sample_entries: "room_entries sample_timeline 7 = [(Backfilled (- 3), [5]), (Normal 2, [4])]"
proof (rule room_entries_eqI [OF sample_timeline_ok])
  note strict = sample_counts [THEN drawn_strict]
  fix i v
  show "(i, v) \<in> set [(Backfilled (- 3), [5]), (Normal 2, [4])]
      \<longleftrightarrow> strict_count i \<and> map_of (pduid_pdu sample_timeline) (pos_key 7 i) = Some v"
  proof (cases "strict_count i")
    case True
    then show ?thesis using room_keys.key_inject [of i _ 7 7] strict by (auto simp: sample_timeline_def)
  next
    case False
    then show ?thesis using strict by auto
  qed
qed (simp add: count_less_def)

theorem timeline_scans_correct_witness:
  "pdus plain_codec sample_timeline [0x21] (Backfilled (- 3)) = [Inr (Normal 2, [4])]
    \<and> pdus_rev plain_codec sample_timeline [0x21] count_max = [Inr (Normal 2, [4]), Inr (Backfilled (- 3), [5])]"
  using timeline_scans_correct [OF sample_timeline_ok sample_room, of "Backfilled (- 3)" count_max plain_codec]
  by (simp add: sample_entries steps_ok_def strict_count_def proper_count_def count_less_def count_max_def count_min_def
      read_entry_def plain_codec_def)

text \<open>The keys of the two zero positions lie before all positions of the room.\<close>

lemma pos_key_less_suffix: "pos_key r i < pos_key r j \<longleftrightarrow> count_suffix i < count_suffix j"
  by (simp add: pdu_key_enc_eq)

lemma zero_suffix: "n \<noteq> 0 \<Longrightarrow> to_be_bytes 0 @ xs < to_be_bytes n @ ys"
  by (subst lex_less_append_diff) (auto simp: to_be_bytes_less_iff word_neq_0_conv)

lemma zero_keys:
  assumes "strict_count i"
  shows "pos_key r (Backfilled 0) < pos_key r i \<and> pos_key r (Normal 0) < pos_key r i"
proof (cases i)
  case (Normal n)
  then have "n \<noteq> 0" using assms by (auto simp: strict_count_def proper_count_def)
  from zero_suffix [OF this, of _ "[]"] show ?thesis using zero_suffix [OF \<open>n \<noteq> 0\<close>, of "[]" "[]"] Normal
    unfolding pos_key_less_suffix by (simp add: count_suffix_def)
next
  case (Backfilled n)
  have "[] < to_be_bytes n" by (cases "to_be_bytes n") (auto dest: arg_cong [of _ _ length])
  then have "to_be_bytes 0 @ [] < to_be_bytes 0 @ to_be_bytes n" unfolding lex_less_append_same .
  moreover have "n \<noteq> 0" using assms Backfilled by (auto simp: strict_count_def)
  then have "to_be_bytes 0 < to_be_bytes n" by (simp add: to_be_bytes_less_iff word_neq_0_conv)
  ultimately show ?thesis using Backfilled unfolding pos_key_less_suffix by (simp add: count_suffix_def)
qed

text \<open>Next to zero the scans go wrong: a forward scan from the position \<open>-1\<close> returns every event of the
  room, also the backfilled ones before it, and a reverse scan from position \<open>1\<close> returns none of them.\<close>

lemma timeline_scans_at_zero:
  assumes "timeline_ok db" and "get_shortroomid (tl_short db) room = Inr r"
  shows "pdus C db room (Backfilled (- 1)) = map (read_entry C) (room_entries db r)
    \<and> pdus_rev C db room (Normal 1) = []"
proof -
  have ok: "column_ok (pduid_pdu db)" using assms(1) by (simp add: timeline_ok_def)
  have "sint (- 1 :: u64) = - 1" by simp
  then have f: "saturating_inc (Backfilled (- 1)) Forward = Backfilled 0" by (simp add: i64_saturate_def)
  have b: "saturating_inc (Normal 1) Backward = Normal 0" by (simp add: u64_saturating_sub_def)
  have "pos_key r (Backfilled 0) \<le> pos_key r i \<longleftrightarrow> True" if "strict_count i" for i
    using zero_keys [OF that] by (simp add: order_less_imp_le)
  from entries_from_keys [OF assms(1), of "\<lambda>k. pos_key r (Backfilled 0) \<le> k", OF this]
  have "pdus C db room (Backfilled (- 1)) = map (read_entry C) (room_entries db r)"
    by (simp add: pdus_def count_to_id_def assms(2) f scan_from_prefix [OF ok room_prefix_key] del: saturating_inc.simps)
  moreover have "pos_key r i \<le> pos_key r (Normal 0) \<longleftrightarrow> False" if "strict_count i" for i
    using zero_keys [OF that] by (simp add: not_le)
  from entries_from_keys [OF assms(1), of "\<lambda>k. k \<le> pos_key r (Normal 0)", OF this]
  have "pdus_rev C db room (Normal 1) = []"
    by (simp add: pdus_rev_def count_to_id_def assms(2) b rev_scan_from_prefix [OF ok room_prefix_key] del: saturating_inc.simps)
  ultimately show ?thesis ..
qed

subsection \<open>Sequences of events\<close>

datatype 'j timeline_op = Live u64 bytes 'j | Backfill u64 bytes 'j

fun run_op :: "('j, 'p) json_codec \<Rightarrow> 'j timeline_op \<Rightarrow> timeline_db \<Rightarrow> timeline_db" where
  "run_op C (Live r e j) db = snd (insert_live C r e j db)"
| "run_op C (Backfill r e j) db = snd (insert_backfilled C r e j db)"

fun live_in :: "u64 \<Rightarrow> 'j timeline_op \<Rightarrow> 'j list" where
  "live_in r (Live r' e j) = (if r' = r then [j] else [])"
| "live_in r (Backfill r' e j) = []"

fun backfilled_in :: "u64 \<Rightarrow> 'j timeline_op \<Rightarrow> 'j list" where
  "backfilled_in r (Live r' e j) = []"
| "backfilled_in r (Backfill r' e j) = (if r' = r then [j] else [])"

lemma run_op_refines:
  assumes "timeline_ok db" and "unat (counter (tl_short db)) + 2 < 2 ^ 63"
  shows "timeline_ok (run_op C p db) \<and> unat (counter (tl_short (run_op C p db))) \<le> unat (counter (tl_short db)) + 2
    \<and> map snd (room_entries (run_op C p db) r)
      = map (to_json C) (backfilled_in r p) @ map snd (room_entries db r) @ map (to_json C) (live_in r p)
    \<and> roomid_shortroomid (tl_short (run_op C p db)) = roomid_shortroomid (tl_short db)"
proof (cases p)
  case (Live r' e j)
  obtain sdb n where "roomid_shortroomid (tl_short (run_op C p db)) = roomid_shortroomid (tl_short db)"
    by (rule insert_live_eq [OF assms(2), of C r' e j]) (simp add: Live with_entry_def)
  then show ?thesis using insert_live_refines [OF assms, where C = C and r = r' and e = e and j = j] Live by (auto simp: split_beta)
next
  case (Backfill r' e j)
  have b: "unat (counter (tl_short db)) + 1 < 2 ^ 63" using assms(2) by simp
  obtain sdb n where "roomid_shortroomid (tl_short (run_op C p db)) = roomid_shortroomid (tl_short db)"
    by (rule insert_backfilled_eq [OF b, of C r' e j]) (simp add: Backfill with_entry_def)
  then show ?thesis using insert_backfilled_refines [OF assms(1) b, where C = C and r = r' and e = e and j = j] Backfill by (auto simp: split_beta)
qed

lemma run_refines:
  assumes "timeline_ok db" and "unat (counter (tl_short db)) + 2 * length ops < 2 ^ 63"
  shows "timeline_ok (fold (run_op C) ops db)
    \<and> unat (counter (tl_short (fold (run_op C) ops db))) \<le> unat (counter (tl_short db)) + 2 * length ops
    \<and> map snd (room_entries (fold (run_op C) ops db) r)
      = map (to_json C) (concat (map (backfilled_in r) (rev ops))) @ map snd (room_entries db r)
        @ map (to_json C) (concat (map (live_in r) ops))
    \<and> roomid_shortroomid (tl_short (fold (run_op C) ops db)) = roomid_shortroomid (tl_short db)"
  using assms
proof (induction ops arbitrary: db)
  case (Cons p ops)
  have b: "unat (counter (tl_short db)) + 2 < 2 ^ 63" using Cons.prems(2) by simp
  note one = run_op_refines [OF Cons.prems(1) b, of C p r]
  then have "timeline_ok (run_op C p db)" "unat (counter (tl_short (run_op C p db))) + 2 * length ops < 2 ^ 63"
    using Cons.prems(2) by auto
  from Cons.IH [OF this] one show ?case by auto
qed simp

lemma map_snd_read: "map snd (ignore_err (map (read_entry C) es)) = ignore_err (map (pdu_of C) (map snd es))"
  by (induction es) (auto simp: ignore_err_def read_entry_def bindR_def split: sum.splits)

lemma all_pdus_entries:
  assumes "timeline_ok db" and "get_shortroomid (tl_short db) room = Inr r" and "unat (counter (tl_short db)) < 2 ^ 63"
  shows "map snd (all_pdus C db room) = ignore_err (map (pdu_of C) (map snd (room_entries db r)))"
proof -
  have min: "sint (into_signed count_min) = - (2 ^ 63)" by (simp add: count_min_def)
  have step: "steps_ok count_min Forward"
    by (simp add: steps_ok_def strict_count_def proper_count_def count_min_def count_max_def)
  have "int (unat (counter (tl_short db))) < int (2 ^ 63)" using assms(3) by (rule of_nat_less_iff [THEN iffD2])
  then have "count_less count_min i" if "(i, v) \<in> set (room_entries db r)" for i v
    using entries_drawn [OF assms(1) that] min by (auto simp: drawn_def count_less_def)
  then have "filter (\<lambda>(i, _). count_less count_min i) (room_entries db r) = room_entries db r"
    by (auto intro: filter_True)
  then show ?thesis unfolding all_pdus_def pdus_scan [OF assms(1,2) step] map_snd_read [symmetric] by simp
qed

text \<open>C11. Reading a room after any sequence of live and backfilled events, of this and other rooms, gives the
  backfilled events of the room in reverse order of their arrival, then the events it had, then the live ones
  in the order of their arrival. \<open>f\<close> is the event that an object stands for.\<close>

theorem timeline_refines_sequence:
  assumes "timeline_ok db" and "unat (counter (tl_short db)) + 2 * length ops < 2 ^ 63"
    and "get_shortroomid (tl_short db) room = Inr r" and "\<forall>j. pdu_of C (to_json C j) = Inr (f j)"
  shows "map snd (all_pdus C (fold (run_op C) ops db) room)
    = map f (concat (map (backfilled_in r) (rev ops))) @ map snd (all_pdus C db room) @ map f (concat (map (live_in r) ops))"
proof -
  let ?db = "fold (run_op C) ops db"
  note run = run_refines [OF assms(1,2), of C r]
  have "get_shortroomid (tl_short ?db) room = Inr r" using run assms(3) by (simp add: get_shortroomid_def)
  moreover have "unat (counter (tl_short ?db)) < 2 ^ 63" using run assms(2) by linarith
  ultimately have "map snd (all_pdus C ?db room) = ignore_err (map (pdu_of C) (map snd (room_entries ?db r)))"
    using run by (intro all_pdus_entries) simp_all
  moreover have "ignore_err (map (pdu_of C) (map (to_json C) js)) = map f js" for js
    using assms(4) ignore_err_ok [of js "pdu_of C \<circ> to_json C" f] by simp
  moreover have b: "unat (counter (tl_short db)) < 2 ^ 63" using assms(2) by linarith
  ultimately show ?thesis using run all_pdus_entries [OF assms(1,3) b, of C] by (simp del: map_map)
qed

theorem timeline_refines_sequence_witness:
  "map snd (all_pdus plain_codec (fold (run_op plain_codec) [Live 7 [8] [0x61], Backfill 7 [9] [0x62], Live 6 [10] [0x63],
      Backfill 7 [11] [0x64]] sample_timeline) [0x21])
   = [[0x64], [0x62], [5], [4], [0x61]]"
proof -
  have c: "counter (tl_short sample_timeline) = 3" by (simp add: sample_timeline_def)
  then have "map snd (all_pdus plain_codec sample_timeline [0x21]) = [[5], [4]]"
    using all_pdus_entries [OF sample_timeline_ok sample_room, of plain_codec]
    by (simp add: sample_entries plain_codec_def ignore_err_def)
  then show ?thesis
    using timeline_refines_sequence [OF sample_timeline_ok _ sample_room, where f = "\<lambda>j. j" and C = plain_codec
        and ops = "[Live 7 [8] [0x61], Backfill 7 [9] [0x62], Live 6 [10] [0x63], Backfill 7 [11] [0x64]]"] c
    by (simp add: plain_codec_def del: fold_simps)
qed

subsection \<open>Looking events up\<close>

lemma lookup_new_entry:
  assumes "timeline_ok db" and "drawn n i" and "counter (tl_short db) \<le> n" and "\<forall>v. (i, v) \<notin> set (room_entries db r)"
    and "pdu_of C v = Inr p"
  shows "get_pdu first C (with_entry r i e v sdb db) e' = (if e' = e then Inr p else get_pdu first C db e')"
proof -
  let ?db = "with_entry r i e v sdb db"
  have i: "strict_count i" using assms(2) by (rule drawn_strict)
  have col: "map_of (pduid_pdu ?db) = (map_of (pduid_pdu db))(pos_key r i \<mapsto> v)"
    using assms(1) by (simp add: with_entry_def timeline_ok_def)
  have "map_of (pduid_pdu db) (pos_key r i) = None"
    using assms(4) i room_entries_set [OF assms(1)] by (cases "map_of (pduid_pdu db) (pos_key r i)") auto
  then have fresh: "k \<noteq> pos_key r i" if "eventid_pduid db e' = Some k" for k
    using that assms(1) unfolding timeline_ok_def by (metis map_of_eq_None_iff)
  have "raw_as_bytes x = k" if "raw_pdu_id k = Inr x" for k x
    using that by (auto simp: raw_pdu_id_def raw_id_from_bytes_def ok_or_def split: if_splits)
  then have other: "get_non_outlier_pdu C ?db e' = get_non_outlier_pdu C db e'" if "e' \<noteq> e"
    using that fresh col
    by (cases "eventid_pduid db e'"; cases "raw_pdu_id (the (eventid_pduid db e'))")
      (simp_all add: get_non_outlier_pdu_def get_pdu_id_def table_get_def ok_or_def col_get_def with_entry_def bindR_def)
  show ?thesis
  proof (cases "e' = e")
    case True
    have "get_non_outlier_pdu C ?db e = Inr p" using col assms(5)
      by (simp add: get_non_outlier_pdu_def get_pdu_id_def table_get_def ok_or_def col_get_def with_entry_def)
    moreover have "get_pdu_outlier C ?db e = Inl NotFoundErr"
      by (simp add: get_pdu_outlier_def table_get_def ok_or_def with_entry_def)
    ultimately show ?thesis using True by (simp add: get_pdu_def select_ok_def)
  next
    case False
    have "get_pdu_outlier C ?db e' = get_pdu_outlier C db e'"
      using False by (simp add: get_pdu_outlier_def with_entry_def table_get_def)
    then show ?thesis using False other by (simp add: get_pdu_def)
  qed
qed

text \<open>After an event was added to the timeline, live or backfilled, looking it up gives the event, whichever of
  the two lookups completes first and also when it was an outlier before; what other events look up to does not
  change.\<close>

lemma get_pdu_after_insert:
  assumes "timeline_ok db" and "unat (counter (tl_short db)) + 2 < 2 ^ 63" and "pdu_of C (to_json C j) = Inr p"
  shows "get_pdu first C (snd (insert_live C r e j db)) e' = (if e' = e then Inr p else get_pdu first C db e')
    \<and> get_pdu first C (snd (insert_backfilled C r e j db)) e' = (if e' = e then Inr p else get_pdu first C db e')"
proof
  have old: "(i, v) \<notin> set (room_entries db r)" if "int (unat (counter (tl_short db))) < \<bar>sint (into_signed i)\<bar>" for i v
    using entries_drawn [OF assms(1), of i v r] that by (auto simp: drawn_def)
  obtain sdb n where eq: "insert_live C r e j db
      = ((raw_from_id \<lparr>shortroomid = r, shorteventid = Normal n\<rparr>, counter (tl_short db) + 1), with_entry r (Normal n) e (to_json C j) sdb db)"
    and n: "counter sdb = n" "unat n = unat (counter (tl_short db)) + 2"
    by (rule insert_live_eq [OF assms(2), of C r e j])
  have b: "unat n < 2 ^ 63" using n(2) assms(2) by simp
  have "\<forall>v. (Normal n, v) \<notin> set (room_entries db r)" using old [of "Normal n"] sint_unat_63 [OF b] n(2) by simp
  from lookup_new_entry [OF assms(1) live_entry(1,2) [OF assms(1) n(2) b] this assms(3)]
  show "get_pdu first C (snd (insert_live C r e j db)) e' = (if e' = e then Inr p else get_pdu first C db e')" by (simp add: eq)
next
  have b1: "unat (counter (tl_short db)) + 1 < 2 ^ 63" using assms(2) by simp
  obtain sdb n where eq: "insert_backfilled C r e j db
      = (Inr (raw_from_id \<lparr>shortroomid = r, shorteventid = Backfilled (- n)\<rparr>), with_entry r (Backfilled (- n)) e (to_json C j) sdb db)"
    and n: "counter sdb = n" "unat n = unat (counter (tl_short db)) + 1"
    by (rule insert_backfilled_eq [OF b1, of C r e j])
  have b: "unat n < 2 ^ 63" using n(2) b1 by simp
  note entry = backfilled_entry [OF assms(1) n(2) b]
  have "\<forall>v. (Backfilled (- n), v) \<notin> set (room_entries db r)"
    using entry(3) [of undefined r] by (auto simp: count_less_def)
  from lookup_new_entry [OF assms(1) entry(1,2) this assms(3)]
  show "get_pdu first C (snd (insert_backfilled C r e j db)) e' = (if e' = e then Inr p else get_pdu first C db e')" by (simp add: eq)
qed

subsection \<open>Notification counts\<close>

definition counts_ok :: "table \<Rightarrow> bool" where
  "counts_ok t \<longleftrightarrow> (\<forall>k b. t k = Some b \<longrightarrow> length b = 8)"

lemma de_u64_bytes: "length b = 8 \<Longrightarrow> de_u64 b = Inr (from_be_bytes b)"
  using de_u64_to_be_bytes [of "from_be_bytes b"] by (simp add: to_from_be_bytes)

lemma u64_or_zero_eq: "counts_ok t \<Longrightarrow> u64_or_zero t k = (case t k of None \<Rightarrow> 0 | Some b \<Rightarrow> u64_from_bytes_or_zero b)"
  by (auto simp: u64_or_zero_def table_get_def ok_or_def counts_ok_def u64_from_bytes_or_zero_def de_u64_bytes
      split: option.splits)

lemma increment_key_ok: "counts_ok t \<Longrightarrow> counts_ok (increment_key k t)"
  by (simp add: counts_ok_def increment_key_def utils_increment_def)

lemma increment_key_count:
  "counts_ok t \<Longrightarrow> u64_or_zero (increment_key k t) k' = (if k' = k then u64_or_zero t k + 1 else u64_or_zero t k')"
  using increment_key_ok [of t k]
  by (auto simp: u64_or_zero_eq increment_key_def utils_increment_def u64_from_bytes_or_zero_def split: option.splits)

lemma user_room_key: "u @ [0xFF] @ room = pair_key (u, room)"
  by (simp add: pair_key_eq SEP_def)

lemma increment_users:
  assumes "counts_ok t" and "key_pair_ok (u, room)" and "\<forall>v \<in> set us. key_pair_ok (v, room)"
  shows "counts_ok (fold (\<lambda>v. increment_key (pair_key (v, room))) us t)
    \<and> u64_or_zero (fold (\<lambda>v. increment_key (pair_key (v, room))) us t) (pair_key (u, room))
      = u64_or_zero t (pair_key (u, room)) + of_nat (count_list us u)"
  using assms(1,3)
proof (induction us arbitrary: t)
  case (Cons v us)
  have "pair_key (u, room) = pair_key (v, room) \<longleftrightarrow> u = v"
    using pair_codec.enc_inject [of "(u, room)" "(v, room)"] assms(2) Cons.prems(2) by simp
  then show ?case
    using Cons.IH [OF increment_key_ok [OF Cons.prems(1)], of "pair_key (v, room)"] Cons.prems
    by (auto simp: increment_key_count)
qed simp

text \<open>A user's notification and highlight counts in a room grow by the number of times the user is listed, modulo
  \<open>2^64\<close>, and a reset sets both to zero; the counts are stored under the same key by both.\<close>

lemma notification_counts_correct:
  assumes "counts_ok (userroomid_notificationcount db)" and "counts_ok (userroomid_highlightcount db)"
    and "key_pair_ok (u, room)" and "\<forall>v \<in> set notifies \<union> set highlights. key_pair_ok (v, room)"
  shows "notification_count (increment_notification_counts room notifies highlights db) u room
      = notification_count db u room + of_nat (count_list notifies u)
    \<and> highlight_count (increment_notification_counts room notifies highlights db) u room
      = highlight_count db u room + of_nat (count_list highlights u)
    \<and> notification_count (reset_notification_counts u room db) u room = 0
    \<and> highlight_count (reset_notification_counts u room db) u room = 0"
proof -
  have "u64_or_zero (t(k \<mapsto> to_be_bytes 0)) k = 0" for t k by (simp add: u64_or_zero_def table_get_def ok_or_def)
  then show ?thesis
    using increment_users [OF assms(1,3), of notifies] increment_users [OF assms(2,3), of highlights] assms(4)
    unfolding increment_notification_counts_def user_room_key
    by (simp add: notification_count_def highlight_count_def
        reset_notification_counts_def split_beta)
qed

end
