(* ===== verification/StateCache.thy ===== *)
theory StateCache
  imports Pdu Tables
begin

text \<open>
  Memberships: the service \<open>src/src/service/rooms/state_cache/\<close>, which records who is joined to, invited to,
  knocking on or has left a room, in pairs of tables keyed by user and room and by room and user, and which
  servers are in a room. The abstraction \<open>tracked\<close> is a map from users and rooms to a membership. Stored JSON is
  passed as its bytes.
\<close>

subsection \<open>State\<close>

text \<open>\<open>ruma\<close>: which texts are identifiers, and the server name of a user id.\<close>

record id_rules =
  user_id_ok :: "bytes \<Rightarrow> bool"
  room_id_ok :: "bytes \<Rightarrow> bool"
  server_name_ok :: "bytes \<Rightarrow> bool"
  server_of :: "bytes \<Rightarrow> bytes"

record cache_db =
  sc_short :: short_db
  roomid_invitedcount :: "bytes column"
  roomid_inviteviaservers :: "bytes column"
  roomid_joinedcount :: "bytes column"
  roomserverids :: "bytes column"
  roomuserid_invitecount :: "bytes column"
  roomuserid_joined :: "bytes column"
  roomuserid_leftcount :: "bytes column"
  roomuserid_knockedcount :: "bytes column"
  roomuseroncejoinedids :: "bytes column"
  serverroomids :: "bytes column"
  userroomid_invitestate :: "bytes column"
  userroomid_joined :: "bytes column"
  userroomid_leftstate :: "bytes column"
  userroomid_knockedstate :: "bytes column"
  userroomid_invitesender :: "bytes column"
  appservice_in_room_cache :: "bytes \<Rightarrow> (bytes \<Rightarrow> bool option) option"

subsection \<open>Scans\<close>

text \<open>\<open>keys_prefix(..).ignore_err().map(|(_, x)| x)\<close>, where \<open>ok\<close> parses the identifier.\<close>

definition seconds :: "(bytes \<Rightarrow> bool) \<Rightarrow> bytes column \<Rightarrow> bytes \<Rightarrow> bytes list" where
  "seconds ok t p = ignore_err (map (\<lambda>k. bindR (de_second k) (\<lambda>x. if ok x then Inr x else Inl (DeErr (SerdeDe ''invalid identifier''))))
     (raw_keys_prefix t p))"

definition room_servers :: "id_rules \<Rightarrow> cache_db \<Rightarrow> bytes \<Rightarrow> bytes list" where
  "room_servers R db room_id = seconds (server_name_ok R) (roomserverids db) (interfix room_id)"

definition server_rooms :: "id_rules \<Rightarrow> cache_db \<Rightarrow> bytes \<Rightarrow> bytes list" where
  "server_rooms R db server = seconds (room_id_ok R) (serverroomids db) (interfix server)"

definition room_members :: "id_rules \<Rightarrow> cache_db \<Rightarrow> bytes \<Rightarrow> bytes list" where
  "room_members R db room_id = seconds (user_id_ok R) (roomuserid_joined db) (interfix room_id)"

definition room_members_invited :: "id_rules \<Rightarrow> cache_db \<Rightarrow> bytes \<Rightarrow> bytes list" where
  "room_members_invited R db room_id = seconds (user_id_ok R) (roomuserid_invitecount db) (interfix room_id)"

definition room_members_knocked :: "id_rules \<Rightarrow> cache_db \<Rightarrow> bytes \<Rightarrow> bytes list" where
  "room_members_knocked R db room_id = seconds (user_id_ok R) (roomuserid_knockedcount db) (interfix room_id)"

definition room_useroncejoined :: "id_rules \<Rightarrow> cache_db \<Rightarrow> bytes \<Rightarrow> bytes list" where
  "room_useroncejoined R db room_id = seconds (user_id_ok R) (roomuseroncejoinedids db) (interfix room_id)"

text \<open>\<open>keys_raw_prefix\<close>: the prefix is the user id itself.\<close>

definition rooms_joined :: "id_rules \<Rightarrow> cache_db \<Rightarrow> bytes \<Rightarrow> bytes list" where
  "rooms_joined R db user_id = seconds (room_id_ok R) (userroomid_joined db) user_id"

subsection \<open>Lookups\<close>

text \<open>\<open>qry(&key)\<close> of a pair, and whether it is found.\<close>

definition qry_pair :: "bytes column \<Rightarrow> bytes \<times> bytes \<Rightarrow> service_error + bytes" where
  "qry_pair t key = col_get t (pair_key key)"

definition found :: "'e + 'a \<Rightarrow> bool" where
  "found r = (case r of Inr _ \<Rightarrow> True | Inl _ \<Rightarrow> False)"

definition once_joined :: "cache_db \<Rightarrow> bytes \<Rightarrow> bytes \<Rightarrow> bool" where
  "once_joined db user_id room_id = found (qry_pair (roomuseroncejoinedids db) (user_id, room_id))"

definition is_joined :: "cache_db \<Rightarrow> bytes \<Rightarrow> bytes \<Rightarrow> bool" where
  "is_joined db user_id room_id = found (qry_pair (userroomid_joined db) (user_id, room_id))"

definition is_knocked :: "cache_db \<Rightarrow> bytes \<Rightarrow> bytes \<Rightarrow> bool" where
  "is_knocked db user_id room_id = found (qry_pair (userroomid_knockedstate db) (user_id, room_id))"

definition is_invited :: "cache_db \<Rightarrow> bytes \<Rightarrow> bytes \<Rightarrow> bool" where
  "is_invited db user_id room_id = found (qry_pair (userroomid_invitestate db) (user_id, room_id))"

definition is_left :: "cache_db \<Rightarrow> bytes \<Rightarrow> bytes \<Rightarrow> bool" where
  "is_left db user_id room_id = found (qry_pair (userroomid_leftstate db) (user_id, room_id))"

definition user_membership :: "cache_db \<Rightarrow> bytes \<Rightarrow> bytes \<Rightarrow> membership_state option" where
  "user_membership db user_id room_id =
     (if is_joined db user_id room_id then Some Join
      else if is_left db user_id room_id then Some Leave
      else if is_knocked db user_id room_id then Some Knock
      else if is_invited db user_id room_id then Some Invite
      else if once_joined db user_id room_id then Some Ban
      else None)"

definition server_in_room :: "cache_db \<Rightarrow> bytes \<Rightarrow> bytes \<Rightarrow> bool" where
  "server_in_room db server room_id = found (qry_pair (serverroomids db) (server, room_id))"

definition server_sees_user :: "id_rules \<Rightarrow> cache_db \<Rightarrow> bytes \<Rightarrow> bytes \<Rightarrow> bool" where
  "server_sees_user R db server user_id = list_ex (is_joined db user_id) (server_rooms R db server)"

definition room_joined_count :: "cache_db \<Rightarrow> bytes \<Rightarrow> service_error + u64" where
  "room_joined_count db room_id = bindR (col_get (roomid_joinedcount db) room_id) de_u64"

definition room_invited_count :: "cache_db \<Rightarrow> bytes \<Rightarrow> service_error + u64" where
  "room_invited_count db room_id = bindR (col_get (roomid_invitedcount db) room_id) de_u64"

definition get_invite_count :: "cache_db \<Rightarrow> bytes \<Rightarrow> bytes \<Rightarrow> service_error + u64" where
  "get_invite_count db room_id user_id = bindR (qry_pair (roomuserid_invitecount db) (room_id, user_id)) de_u64"

definition get_knock_count :: "cache_db \<Rightarrow> bytes \<Rightarrow> bytes \<Rightarrow> service_error + u64" where
  "get_knock_count db room_id user_id = bindR (qry_pair (roomuserid_knockedcount db) (room_id, user_id)) de_u64"

definition get_left_count :: "cache_db \<Rightarrow> bytes \<Rightarrow> bytes \<Rightarrow> service_error + u64" where
  "get_left_count db room_id user_id = bindR (qry_pair (roomuserid_leftcount db) (room_id, user_id)) de_u64"

definition invite_sender :: "id_rules \<Rightarrow> cache_db \<Rightarrow> bytes \<Rightarrow> bytes \<Rightarrow> service_error + bytes" where
  "invite_sender R db user_id room_id =
     bindR (bindR (qry_pair (userroomid_invitesender db) (user_id, room_id)) de_text) (\<lambda>u.
       if user_id_ok R u then Inr u else Inl (DeErr (SerdeDe ''invalid identifier'')))"

text \<open>
  \<open>intersection_sorted_stream2\<close>: for each item of the first stream, the second one is advanced past the
  smaller items; an item found there is taken from it.
\<close>

fun advance :: "'a::linorder \<Rightarrow> 'a list \<Rightarrow> bool \<times> 'a list" where
  "advance a [] = (False, [])"
| "advance a (b # bs) = (if b \<le> a then (if a = b then (True, bs) else advance a bs) else (False, b # bs))"

fun intersection_sorted :: "'a::linorder list \<Rightarrow> 'a list \<Rightarrow> 'a list" where
  "intersection_sorted [] bs = []"
| "intersection_sorted (a # as) bs =
     (case advance a bs of (hit, bs) \<Rightarrow> (if hit then a # intersection_sorted as bs else intersection_sorted as bs))"

definition get_shared_rooms :: "id_rules \<Rightarrow> cache_db \<Rightarrow> bytes \<Rightarrow> bytes \<Rightarrow> bytes list" where
  "get_shared_rooms R db user_a user_b = intersection_sorted (rooms_joined R db user_a) (rooms_joined R db user_b)"

definition user_sees_user :: "id_rules \<Rightarrow> cache_db \<Rightarrow> bytes \<Rightarrow> bytes \<Rightarrow> bool" where
  "user_sees_user R db user_a user_b = (get_shared_rooms R db user_a user_b \<noteq> [])"

definition local_users_in_room :: "id_rules \<Rightarrow> (bytes \<Rightarrow> bool) \<Rightarrow> cache_db \<Rightarrow> bytes \<Rightarrow> bytes list" where
  "local_users_in_room R local db room_id = filter local (room_members R db room_id)"

definition active_local_users_in_room ::
  "id_rules \<Rightarrow> (bytes \<Rightarrow> bool) \<Rightarrow> (bytes \<Rightarrow> bool) \<Rightarrow> cache_db \<Rightarrow> bytes \<Rightarrow> bytes list" where
  "active_local_users_in_room R local active db room_id = filter active (local_users_in_room R local db room_id)"

text \<open>The stored states of a user: \<open>decode\<close> reads the JSON. A scan gives the rooms with their states.\<close>

definition invite_state :: "(bytes \<Rightarrow> service_error + 's) \<Rightarrow> cache_db \<Rightarrow> bytes \<Rightarrow> bytes \<Rightarrow> service_error + 's" where
  "invite_state decode db user_id room_id = bindR (qry_pair (userroomid_invitestate db) (user_id, room_id)) decode"

definition knock_state :: "(bytes \<Rightarrow> service_error + 's) \<Rightarrow> cache_db \<Rightarrow> bytes \<Rightarrow> bytes \<Rightarrow> service_error + 's" where
  "knock_state decode db user_id room_id = bindR (qry_pair (userroomid_knockedstate db) (user_id, room_id)) decode"

definition left_state :: "(bytes \<Rightarrow> service_error + 's) \<Rightarrow> cache_db \<Rightarrow> bytes \<Rightarrow> bytes \<Rightarrow> service_error + 's" where
  "left_state decode db user_id room_id = bindR (qry_pair (userroomid_leftstate db) (user_id, room_id)) decode"

definition rooms_with_state ::
  "id_rules \<Rightarrow> (bytes \<Rightarrow> service_error + 's) \<Rightarrow> bytes column \<Rightarrow> bytes \<Rightarrow> (bytes \<times> 's) list" where
  "rooms_with_state R decode t user_id =
     ignore_err (map (\<lambda>(k, v). bindR (de_pair k) (\<lambda>(u, room_id).
         if user_id_ok R u \<and> room_id_ok R room_id then bindR (decode v) (\<lambda>state. Inr (room_id, state))
         else Inl (DeErr (SerdeDe ''invalid identifier''))))
       (raw_stream_prefix t (interfix user_id)))"

definition rooms_invited :: "id_rules \<Rightarrow> (bytes \<Rightarrow> service_error + 's) \<Rightarrow> cache_db \<Rightarrow> bytes \<Rightarrow> (bytes \<times> 's) list" where
  "rooms_invited R decode db user_id = rooms_with_state R decode (userroomid_invitestate db) user_id"

definition rooms_knocked :: "id_rules \<Rightarrow> (bytes \<Rightarrow> service_error + 's) \<Rightarrow> cache_db \<Rightarrow> bytes \<Rightarrow> (bytes \<times> 's) list" where
  "rooms_knocked R decode db user_id = rooms_with_state R decode (userroomid_knockedstate db) user_id"

definition rooms_left :: "id_rules \<Rightarrow> (bytes \<Rightarrow> service_error + 's) \<Rightarrow> cache_db \<Rightarrow> bytes \<Rightarrow> (bytes \<times> 's) list" where
  "rooms_left R decode db user_id = rooms_with_state R decode (userroomid_leftstate db) user_id"

text \<open>An application service: its id, its bridge user if the id can be parsed, and the users of its namespaces.\<close>

record appservice =
  as_id :: bytes
  bridge_user_id :: "bytes option"
  users_is_match :: "bytes \<Rightarrow> bool"

definition appservice_in_room :: "id_rules \<Rightarrow> bytes \<Rightarrow> appservice \<Rightarrow> cache_db \<Rightarrow> bool \<times> cache_db" where
  "appservice_in_room R room_id as db =
     (case Option.bind (appservice_in_room_cache db room_id) (\<lambda>m. m (as_id as)) of
        Some cached \<Rightarrow> (cached, db)
      | None \<Rightarrow>
          (case bridge_user_id as of
             None \<Rightarrow> (False, db)
           | Some bridge_user \<Rightarrow>
               (let in_room = is_joined db bridge_user room_id \<or> list_ex (users_is_match as) (room_members R db room_id);
                    m = (case appservice_in_room_cache db room_id of None \<Rightarrow> Map.empty | Some m \<Rightarrow> m)
                in (in_room, db\<lparr>appservice_in_room_cache :=
                     (appservice_in_room_cache db)(room_id \<mapsto> m(as_id as \<mapsto> in_room))\<rparr>))))"

definition clear_appservice_in_room_cache :: "cache_db \<Rightarrow> cache_db" where
  "clear_appservice_in_room_cache db = db\<lparr>appservice_in_room_cache := Map.empty\<rparr>"

text \<open>
  \<open>power_users\<close> are the users of the power levels event in the order of their ids, if there is one;
  \<open>max_by_key\<close> takes the last of those with the highest level. The counts of users come in the order of a hash
  map, \<open>order\<close>.
\<close>

fun max_by_level :: "(bytes \<times> int) list \<Rightarrow> (bytes \<times> int) option" where
  "max_by_level [] = None"
| "max_by_level (x # xs) =
     (case max_by_level xs of None \<Rightarrow> Some x | Some y \<Rightarrow> Some (if snd x \<le> snd y then y else x))"

definition servers_route_via ::
  "id_rules \<Rightarrow> (bytes list \<Rightarrow> bytes list) \<Rightarrow> (bytes \<times> int) list option \<Rightarrow> cache_db \<Rightarrow> bytes \<Rightarrow> bytes list" where
  "servers_route_via R order power_users db room_id =
     (let most_powerful = Option.bind (Option.bind power_users max_by_level) (\<lambda>(user, power).
            if 50 \<le> power then Some (server_of R user) else None);
          member_servers = map (server_of R) (room_members R db room_id);
          servers = take 5 (rev (sort_key (count_list member_servers) (order (remdups member_servers))))
      in case most_powerful of Some server \<Rightarrow> take 5 (server # servers) | None \<Rightarrow> servers)"

subsection \<open>Changes of membership\<close>

definition mark_as_joined :: "bytes \<Rightarrow> bytes \<Rightarrow> cache_db \<Rightarrow> cache_db" where
  "mark_as_joined user_id room_id db =
     (let userroom_id = pair_key (user_id, room_id); roomuser_id = pair_key (room_id, user_id)
      in db\<lparr>userroomid_joined := col_insert userroom_id [] (userroomid_joined db),
            roomuserid_joined := col_insert roomuser_id [] (roomuserid_joined db),
            userroomid_invitestate := col_remove userroom_id (userroomid_invitestate db),
            roomuserid_invitecount := col_remove roomuser_id (roomuserid_invitecount db),
            userroomid_invitesender := col_remove userroom_id (userroomid_invitesender db),
            userroomid_leftstate := col_remove userroom_id (userroomid_leftstate db),
            roomuserid_leftcount := col_remove roomuser_id (roomuserid_leftcount db),
            userroomid_knockedstate := col_remove userroom_id (userroomid_knockedstate db),
            roomuserid_knockedcount := col_remove roomuser_id (roomuserid_knockedcount db),
            roomid_inviteviaservers := col_remove room_id (roomid_inviteviaservers db)\<rparr>)"

definition forget :: "bytes \<Rightarrow> bytes \<Rightarrow> cache_db \<Rightarrow> cache_db" where
  "forget room_id user_id db =
     db\<lparr>userroomid_leftstate := col_remove (pair_key (user_id, room_id)) (userroomid_leftstate db),
        roomuserid_leftcount := col_remove (pair_key (room_id, user_id)) (roomuserid_leftcount db)\<rparr>"

text \<open>
  \<open>forget_now\<close> is the condition for forgetting at once: a local user, and a room that is banned or disabled or a
  server configured to forget upon leaving.
\<close>

definition mark_as_left :: "bool \<Rightarrow> bytes \<Rightarrow> bytes \<Rightarrow> bytes \<Rightarrow> cache_db \<Rightarrow> cache_db" where
  "mark_as_left forget_now user_id room_id leave_pdu db =
     (case next_count (sc_short db) of (n, sdb) \<Rightarrow>
       (let userroom_id = pair_key (user_id, room_id); roomuser_id = pair_key (room_id, user_id);
            db = db\<lparr>sc_short := sdb,
              userroomid_leftstate := col_insert userroom_id leave_pdu (userroomid_leftstate db),
              roomuserid_leftcount := col_insert roomuser_id (to_be_bytes n) (roomuserid_leftcount db),
              userroomid_joined := col_remove userroom_id (userroomid_joined db),
              roomuserid_joined := col_remove roomuser_id (roomuserid_joined db),
              userroomid_invitestate := col_remove userroom_id (userroomid_invitestate db),
              roomuserid_invitecount := col_remove roomuser_id (roomuserid_invitecount db),
              userroomid_invitesender := col_remove userroom_id (userroomid_invitesender db),
              userroomid_knockedstate := col_remove userroom_id (userroomid_knockedstate db),
              roomuserid_knockedcount := col_remove roomuser_id (roomuserid_knockedcount db),
              roomid_inviteviaservers := col_remove room_id (roomid_inviteviaservers db)\<rparr>
        in if forget_now then forget room_id user_id db else db))"

definition mark_as_knocked :: "bytes \<Rightarrow> bytes \<Rightarrow> bytes \<Rightarrow> cache_db \<Rightarrow> cache_db" where
  "mark_as_knocked user_id room_id knocked_state db =
     (case next_count (sc_short db) of (n, sdb) \<Rightarrow>
       (let userroom_id = pair_key (user_id, room_id); roomuser_id = pair_key (room_id, user_id)
        in db\<lparr>sc_short := sdb,
              userroomid_knockedstate := col_insert userroom_id knocked_state (userroomid_knockedstate db),
              roomuserid_knockedcount := col_insert roomuser_id (to_be_bytes n) (roomuserid_knockedcount db),
              userroomid_joined := col_remove userroom_id (userroomid_joined db),
              roomuserid_joined := col_remove roomuser_id (roomuserid_joined db),
              userroomid_invitestate := col_remove userroom_id (userroomid_invitestate db),
              roomuserid_invitecount := col_remove roomuser_id (roomuserid_invitecount db),
              userroomid_invitesender := col_remove userroom_id (userroomid_invitesender db),
              userroomid_leftstate := col_remove userroom_id (userroomid_leftstate db),
              roomuserid_leftcount := col_remove roomuser_id (roomuserid_leftcount db),
              roomid_inviteviaservers := col_remove room_id (roomid_inviteviaservers db)\<rparr>))"

definition mark_as_once_joined :: "bytes \<Rightarrow> bytes \<Rightarrow> cache_db \<Rightarrow> cache_db" where
  "mark_as_once_joined user_id room_id db =
     db\<lparr>roomuseroncejoinedids := col_insert (pair_key (user_id, room_id)) [] (roomuseroncejoinedids db)\<rparr>"

text \<open>The list of servers of an invite; an empty list, which cannot be popped, panics and ends the stream.\<close>

definition de_servers :: "id_rules \<Rightarrow> bytes \<Rightarrow> service_error + bytes list" where
  "de_servers R b = (case from_slice (DeSeq DeStr) b of
       Inr (ValSeq vs) \<Rightarrow> mapR (\<lambda>v. case v of ValStr s \<Rightarrow> (if server_name_ok R s then Inr s else Inl (DeErr (SerdeDe ''invalid identifier'')))
         | _ \<Rightarrow> Inl (DeErr InvalidLength)) vs
     | Inr _ \<Rightarrow> Inl (DeErr InvalidLength)
     | Inl e \<Rightarrow> Inl (DeErr e))"

definition servers_invite_via :: "id_rules \<Rightarrow> cache_db \<Rightarrow> bytes \<Rightarrow> service_error + bytes list" where
  "servers_invite_via R db room_id =
     mapR (\<lambda>servers. if servers = [] then Inl (PanicErr ''at least one server'') else Inr (last servers))
       (ignore_err (map (\<lambda>(_, v). de_servers R v) (raw_stream_prefix (roomid_inviteviaservers db) room_id)))"

definition join_sep :: "bytes list \<Rightarrow> bytes" where
  "join_sep xs = concat (case xs of [] \<Rightarrow> [] | x # xs \<Rightarrow> x # map (\<lambda>x. 0xFF # x) xs)"

definition add_servers_invite_via :: "id_rules \<Rightarrow> bytes \<Rightarrow> bytes list \<Rightarrow> cache_db \<Rightarrow> service_error + cache_db" where
  "add_servers_invite_via R room_id servers db =
     bindR (servers_invite_via R db room_id) (\<lambda>old.
       Inr (db\<lparr>roomid_inviteviaservers :=
         col_insert room_id (join_sep (remdups_adj (sort (old @ servers)))) (roomid_inviteviaservers db)\<rparr>))"

text \<open>\<open>blocked\<close> says that the user's invite filter blocks the sender.\<close>

definition mark_as_invited ::
  "id_rules \<Rightarrow> bool \<Rightarrow> bytes \<Rightarrow> bytes \<Rightarrow> bytes \<Rightarrow> bytes \<Rightarrow> bytes list option \<Rightarrow> cache_db \<Rightarrow> service_error + cache_db" where
  "mark_as_invited R blocked user_id room_id sender_user last_state invite_via db =
     (if blocked then Inl (RequestErr ''InviteBlocked'')
      else case next_count (sc_short db) of (n, sdb) \<Rightarrow>
       (let userroom_id = pair_key (user_id, room_id); roomuser_id = pair_key (room_id, user_id);
            db = db\<lparr>sc_short := sdb,
              userroomid_invitestate := col_insert userroom_id last_state (userroomid_invitestate db),
              roomuserid_invitecount := col_insert roomuser_id (to_be_bytes n) (roomuserid_invitecount db),
              userroomid_invitesender := col_insert userroom_id sender_user (userroomid_invitesender db),
              userroomid_joined := col_remove userroom_id (userroomid_joined db),
              roomuserid_joined := col_remove roomuser_id (roomuserid_joined db),
              userroomid_leftstate := col_remove userroom_id (userroomid_leftstate db),
              roomuserid_leftcount := col_remove roomuser_id (roomuserid_leftcount db),
              userroomid_knockedstate := col_remove userroom_id (userroomid_knockedstate db),
              roomuserid_knockedcount := col_remove roomuser_id (roomuserid_knockedcount db)\<rparr>
        in case invite_via of
             Some (s # servers) \<Rightarrow> add_servers_invite_via R room_id (s # servers) db
           | _ \<Rightarrow> Inr db))"

subsection \<open>Counts and servers of a room\<close>

text \<open>
  \<open>u64::saturating_add\<close> cannot saturate here. The new servers are inserted in the order of a hash set;
  \<open>order\<close> stands for it.
\<close>

definition update_joined_count :: "id_rules \<Rightarrow> (bytes list \<Rightarrow> bytes list) \<Rightarrow> bytes \<Rightarrow> cache_db \<Rightarrow> cache_db" where
  "update_joined_count R order room_id db =
     (let joined = room_members R db room_id;
          joined_servers = remdups (map (server_of R) joined);
          joinedcount = of_nat (length joined);
          invitedcount = of_nat (length (room_members_invited R db room_id));
          knockedcount = of_nat (length (room_members_knocked R db room_id));
          old_servers = room_servers R db room_id;
          gone = filter (\<lambda>s. s \<notin> set joined_servers) old_servers;
          new = order (filter (\<lambda>s. s \<notin> set old_servers) joined_servers)
      in db\<lparr>roomid_joinedcount := col_insert room_id (to_be_bytes joinedcount) (roomid_joinedcount db),
            roomid_invitedcount := col_insert room_id (to_be_bytes invitedcount) (roomid_invitedcount db),
            roomuserid_knockedcount := col_insert room_id (to_be_bytes knockedcount) (roomuserid_knockedcount db),
            roomserverids := fold (\<lambda>s. col_insert (pair_key (room_id, s)) []) new
              (fold (\<lambda>s. col_remove (pair_key (room_id, s))) gone (roomserverids db)),
            serverroomids := fold (\<lambda>s. col_insert (pair_key (s, room_id)) []) new
              (fold (\<lambda>s. col_remove (pair_key (s, room_id))) gone (serverroomids db)),
            appservice_in_room_cache := (appservice_in_room_cache db)(room_id := None)\<rparr>)"

subsection \<open>Membership events\<close>

text \<open>
  The content of the event is decoded by the caller's \<open>ruma\<close> types (\<open>get_content\<close>).
  What \<open>update_membership\<close> takes from other services: whether the user is local, whether to forget the room
  upon leaving, whether the sender's invites are blocked, the stripped state of an invite, and the outcome of copying
  account data from the room's predecessor, which touches none of these tables.
\<close>

record membership_env =
  user_is_local :: bool
  forget_upon_leave :: bool
  invites_blocked :: bool
  stripped_state :: bytes
  copied_account_data :: "service_error + unit"

definition update_membership ::
  "id_rules \<Rightarrow> (bytes list \<Rightarrow> bytes list) \<Rightarrow> membership_env \<Rightarrow> bytes \<Rightarrow> bytes \<Rightarrow> service_error + membership_state \<Rightarrow> bytes \<Rightarrow> bytes \<Rightarrow> bool \<Rightarrow> cache_db
    \<Rightarrow> (service_error + unit) \<times> cache_db" where
  "update_membership R order E room_id user_id content sender pdu_json update_count db =
     (case (case content of
         Inl e \<Rightarrow> (Inl e, db)
       | Inr Join \<Rightarrow>
           (if once_joined db user_id room_id then (Inr (), mark_as_joined user_id room_id db)
            else (let db = mark_as_once_joined user_id room_id db
                  in case (if user_is_local E then copied_account_data E else Inr ()) of
                       Inl e \<Rightarrow> (Inl e, db)
                     | Inr _ \<Rightarrow> (Inr (), mark_as_joined user_id room_id db)))
       | Inr Invite \<Rightarrow>
           (case mark_as_invited R (invites_blocked E) user_id room_id sender
               (if user_is_local E then stripped_state E else [0x5B, 0x5D]) None db of
              Inl e \<Rightarrow> (Inl e, db) | Inr db \<Rightarrow> (Inr (), db))
       | Inr Leave \<Rightarrow> (Inr (), mark_as_left (forget_upon_leave E) user_id room_id pdu_json db)
       | Inr Ban \<Rightarrow> (Inr (), mark_as_left (forget_upon_leave E) user_id room_id pdu_json db)
       | Inr _ \<Rightarrow> (Inr (), db)) of
        (Inl e, db) \<Rightarrow> (Inl e, db)
      | (Inr _, db) \<Rightarrow> (Inr (), if update_count then update_joined_count R order room_id db else db))"

subsection \<open>Scans for a room\<close>

definition has :: "bytes column \<Rightarrow> bytes \<Rightarrow> bytes \<Rightarrow> bool" where
  "has t a b \<longleftrightarrow> map_of t (pair_key (a, b)) \<noteq> None"

text \<open>
  The keys of a table of pairs. A key without a separator is tolerated: the count of knocks is written to such a
  key of a table of pairs.
\<close>

definition pairs_ok :: "(bytes \<Rightarrow> bool) \<Rightarrow> bytes column \<Rightarrow> bool" where
  "pairs_ok ok t \<longleftrightarrow> column_ok t
     \<and> (\<forall>k \<in> fst ` set t. (\<exists>a b. key_pair_ok (a, b) \<and> ok b \<and> k = pair_key (a, b)) \<or> SEP \<notin> set k)"

lemma pairs_ok_column: "pairs_ok ok t \<Longrightarrow> column_ok t"
  by (simp add: pairs_ok_def)

lemma pairs_ok_insert: "pairs_ok ok t \<Longrightarrow> key_pair_ok (a, b) \<Longrightarrow> ok b \<Longrightarrow> pairs_ok ok (col_insert (pair_key (a, b)) v t)"
  unfolding pairs_ok_def col_insert_keys by auto

lemma pairs_ok_insert_plain: "pairs_ok ok t \<Longrightarrow> SEP \<notin> set k \<Longrightarrow> pairs_ok ok (col_insert k v t)"
  unfolding pairs_ok_def col_insert_keys by auto

lemma pairs_ok_remove: "pairs_ok ok t \<Longrightarrow> pairs_ok ok (col_remove k t)"
  by (auto simp: pairs_ok_def col_remove_def)

lemma pairs_key:
  assumes "pairs_ok ok t" and "utf8_ok a" and "k \<in> set (raw_keys_prefix t (interfix a))"
  obtains b where "k = pair_key (a, b)" "key_pair_ok (a, b)" "ok b" "has t a b"
proof -
  have col: "column_ok t" using assms(1) by (rule pairs_ok_column)
  have k: "k \<in> fst ` set t" "starts_with (interfix a) k" using assms(3) by (simp_all add: set_raw_keys_prefix [OF col])
  then have "k = (a @ [SEP]) @ drop (length a + 1) k"
    using append_take_drop_id [of "length a + 1" k] by (simp add: starts_with_def interfix_eq)
  then have "SEP \<in> set k" by (metis Un_iff in_set_conv_decomp set_append)
  then obtain a' b where k': "key_pair_ok (a', b)" "ok b" "k = pair_key (a', b)"
    using assms(1) k(1) unfolding pairs_ok_def by blast
  then have "a' = a" using pair_keys.key_prefix [of a a' b] assms(2) k(2) by (simp add: key_pair_ok_def)
  moreover have "has t a b" using k(1) k' \<open>a' = a\<close> col by (auto simp: has_def column_entry)
  ultimately show ?thesis using that k' by blast
qed

lemma seconds_eq:
  assumes "pairs_ok ok t" and "utf8_ok a"
  shows "seconds ok t (interfix a) = map (drop (length a + 1)) (raw_keys_prefix t (interfix a))"
proof -
  have "(bindR (de_second k) (\<lambda>x. if ok x then Inr x else Inl (DeErr (SerdeDe ''invalid identifier'')))) = Inr (drop (length a + 1) k)"
    if kin: "k \<in> set (raw_keys_prefix t (interfix a))" for k
  proof -
    obtain b where b: "k = pair_key (a, b)" "key_pair_ok (a, b)" "ok b" "has t a b" by (rule pairs_key [OF assms kin])
    have "drop (length a + 1) (pair_key (a, b)) = b" by (simp add: pair_key_eq)
    then show ?thesis using b de_second_key [OF b(2)] by simp
  qed
  then have "\<forall>k \<in> set (raw_keys_prefix t (interfix a)).
      bindR (de_second k) (\<lambda>x. if ok x then Inr x else Inl (DeErr (SerdeDe ''invalid identifier''))) = Inr (drop (length a + 1) k)"
    by blast
  from ignore_err_ok [OF this] show ?thesis unfolding seconds_def .
qed

lemma seconds_set:
  assumes "pairs_ok ok t" and "utf8_ok a"
  shows "distinct (seconds ok t (interfix a))" and "set (seconds ok t (interfix a)) = {b. key_pair_ok (a, b) \<and> ok b \<and> has t a b}"
proof -
  have col: "column_ok t" using assms(1) by (rule pairs_ok_column)
  have "inj_on (drop (length a + 1)) (set (raw_keys_prefix t (interfix a)))"
  proof (rule inj_onI)
    fix x y assume xy: "x \<in> set (raw_keys_prefix t (interfix a))" "y \<in> set (raw_keys_prefix t (interfix a))"
      and eq: "drop (length a + 1) x = drop (length a + 1) y"
    obtain b where "x = pair_key (a, b)" by (rule pairs_key [OF assms xy(1)])
    moreover obtain c where "y = pair_key (a, c)" by (rule pairs_key [OF assms xy(2)])
    ultimately show "x = y" using eq by (simp add: pair_key_eq)
  qed
  then show "distinct (seconds ok t (interfix a))"
    using raw_keys_prefix_sorted [OF col, of "interfix a"] unfolding seconds_eq [OF assms]
    by (simp add: distinct_map strict_sorted_iff)
  show "set (seconds ok t (interfix a)) = {b. key_pair_ok (a, b) \<and> ok b \<and> has t a b}"
  proof (intro equalityI subsetI)
    fix b assume "b \<in> set (seconds ok t (interfix a))"
    then obtain k where k: "k \<in> set (raw_keys_prefix t (interfix a))" "b = drop (length a + 1) k"
      unfolding seconds_eq [OF assms] by auto
    obtain c where "k = pair_key (a, c)" "key_pair_ok (a, c)" "ok c" "has t a c" by (rule pairs_key [OF assms k(1)])
    then show "b \<in> {b. key_pair_ok (a, b) \<and> ok b \<and> has t a b}" using k(2) by (simp add: pair_key_eq)
  next
    fix b assume "b \<in> {b. key_pair_ok (a, b) \<and> ok b \<and> has t a b}"
    then have b: "key_pair_ok (a, b)" "has t a b" by simp_all
    then have "pair_key (a, b) \<in> fst ` set t" by (auto simp: has_def dest!: map_of_SomeD intro: rev_image_eqI)
    then have "pair_key (a, b) \<in> set (raw_keys_prefix t (interfix a))"
      using pair_keys.key_prefix [of a a b] b(1) assms(2) by (simp add: set_raw_keys_prefix [OF col])
    then show "b \<in> set (seconds ok t (interfix a))" unfolding seconds_eq [OF assms]
      by (auto simp: pair_key_eq intro!: rev_image_eqI [where x = "pair_key (a, b)"])
  qed
qed

subsection \<open>Tracked memberships\<close>

text \<open>The two tables of each membership.\<close>

fun user_side :: "cache_db \<Rightarrow> membership_state \<Rightarrow> bytes column" where
  "user_side db Join = userroomid_joined db"
| "user_side db Leave = userroomid_leftstate db"
| "user_side db Knock = userroomid_knockedstate db"
| "user_side db Invite = userroomid_invitestate db"
| "user_side db _ = []"

fun room_side :: "cache_db \<Rightarrow> membership_state \<Rightarrow> bytes column" where
  "room_side db Join = roomuserid_joined db"
| "room_side db Leave = roomuserid_leftcount db"
| "room_side db Knock = roomuserid_knockedcount db"
| "room_side db Invite = roomuserid_invitecount db"
| "room_side db _ = []"

definition ids_ok :: "id_rules \<Rightarrow> bytes \<Rightarrow> bytes \<Rightarrow> bool" where
  "ids_ok R u r \<longleftrightarrow> key_pair_ok (u, r) \<and> user_id_ok R u \<and> room_id_ok R r"

definition tracked :: "cache_db \<Rightarrow> bytes \<Rightarrow> bytes \<Rightarrow> membership_state option" where
  "tracked db u r = find (\<lambda>m. has (user_side db m) u r) [Join, Leave, Knock, Invite]"

definition cache_ok :: "id_rules \<Rightarrow> cache_db \<Rightarrow> bool" where
  "cache_ok R db \<longleftrightarrow>
     (\<forall>m. pairs_ok (room_id_ok R) (user_side db m) \<and> pairs_ok (user_id_ok R) (room_side db m))
     \<and> (\<forall>m u r. ids_ok R u r \<longrightarrow> has (room_side db m) r u = has (user_side db m) u r)
     \<and> (\<forall>m m' u r. ids_ok R u r \<longrightarrow> has (user_side db m) u r \<longrightarrow> has (user_side db m') u r \<longrightarrow> m = m')"

text \<open>A change of the membership of a user in a room: every pair of tables but that of the new membership loses the user.\<close>

definition becomes :: "bytes \<Rightarrow> bytes \<Rightarrow> membership_state option \<Rightarrow> cache_db \<Rightarrow> cache_db \<Rightarrow> bool" where
  "becomes u r mo db db' \<longleftrightarrow> (\<forall>m.
     (\<exists>v. user_side db' m = (if mo = Some m then col_insert (pair_key (u, r)) v (user_side db m)
            else col_remove (pair_key (u, r)) (user_side db m)))
   \<and> (\<exists>v. room_side db' m = (if mo = Some m then col_insert (pair_key (r, u)) v (room_side db m)
            else col_remove (pair_key (r, u)) (room_side db m))))"

lemma ids_ok_sym: "ids_ok R u r \<Longrightarrow> key_pair_ok (u, r) \<and> key_pair_ok (r, u) \<and> user_id_ok R u \<and> room_id_ok R r"
  by (auto simp: ids_ok_def key_pair_ok_def)

lemma has_insert:
  assumes "column_ok t" and "key_pair_ok (a, b)" and "key_pair_ok (c, d)"
  shows "has (col_insert (pair_key (a, b)) v t) c d \<longleftrightarrow> (c, d) = (a, b) \<or> has t c d"
  using assms pair_codec.enc_inject [of "(c, d)" "(a, b)"] by (auto simp: has_def)

lemma has_remove:
  assumes "key_pair_ok (a, b)" and "key_pair_ok (c, d)"
  shows "has (col_remove (pair_key (a, b)) t) c d \<longleftrightarrow> (c, d) \<noteq> (a, b) \<and> has t c d"
  using assms pair_codec.enc_inject [of "(c, d)" "(a, b)"] by (auto simp: has_def)

lemma becomes_has:
  assumes "cache_ok R db" and "becomes u r mo db db'" and "ids_ok R u r" and "ids_ok R u' r'"
  shows "has (user_side db' m) u' r' \<longleftrightarrow> (if (u', r') = (u, r) then mo = Some m else has (user_side db m) u' r')"
    and "has (room_side db' m) r' u' \<longleftrightarrow> (if (u', r') = (u, r) then mo = Some m else has (room_side db m) r' u')"
proof -
  have col: "column_ok (user_side db m)" "column_ok (room_side db m)"
    using assms(1) pairs_ok_column unfolding cache_ok_def by blast+
  have ids: "key_pair_ok (u, r)" "key_pair_ok (r, u)" "key_pair_ok (u', r')" "key_pair_ok (r', u')"
    using ids_ok_sym assms(3,4) by blast+
  obtain v w where v: "user_side db' m = (if mo = Some m then col_insert (pair_key (u, r)) v (user_side db m)
        else col_remove (pair_key (u, r)) (user_side db m))"
    and w: "room_side db' m = (if mo = Some m then col_insert (pair_key (r, u)) w (room_side db m)
        else col_remove (pair_key (r, u)) (room_side db m))"
    using assms(2) unfolding becomes_def by blast
  show "has (user_side db' m) u' r' \<longleftrightarrow> (if (u', r') = (u, r) then mo = Some m else has (user_side db m) u' r')"
    unfolding v using has_insert [OF col(1) ids(1,3)] has_remove [OF ids(1,3)] by auto
  show "has (room_side db' m) r' u' \<longleftrightarrow> (if (u', r') = (u, r) then mo = Some m else has (room_side db m) r' u')"
    unfolding w using has_insert [OF col(2) ids(2,4)] has_remove [OF ids(2,4)] by auto
qed

lemma cache_ok_becomes:
  assumes "cache_ok R db" and "becomes u r mo db db'" and "ids_ok R u r"
  shows "cache_ok R db'"
proof -
  note ids = ids_ok_sym [OF assms(3)]
  have "pairs_ok (room_id_ok R) (user_side db' m) \<and> pairs_ok (user_id_ok R) (room_side db' m)" for m
  proof -
    have ok: "pairs_ok (room_id_ok R) (user_side db m)" "pairs_ok (user_id_ok R) (room_side db m)"
      using assms(1) by (simp_all add: cache_ok_def)
    have "(\<exists>v. user_side db' m = (if mo = Some m then col_insert (pair_key (u, r)) v (user_side db m)
        else col_remove (pair_key (u, r)) (user_side db m)))"
      "(\<exists>v. room_side db' m = (if mo = Some m then col_insert (pair_key (r, u)) v (room_side db m)
        else col_remove (pair_key (r, u)) (room_side db m)))"
      using assms(2) unfolding becomes_def by blast+
    then show ?thesis using ok ids by (auto simp: pairs_ok_insert pairs_ok_remove)
  qed
  moreover have "has (room_side db' m) r' u' = has (user_side db' m) u' r'" if "ids_ok R u' r'" for m u' r'
    using becomes_has [OF assms that] assms(1) that unfolding cache_ok_def by simp
  moreover have "m = m'" if "ids_ok R u' r'" "has (user_side db' m) u' r'" "has (user_side db' m') u' r'" for m m' u' r'
    using that becomes_has(1) [OF assms that(1)] assms(1) unfolding cache_ok_def by (auto split: if_splits)
  ultimately show ?thesis unfolding cache_ok_def by blast
qed

lemma tracked_becomes:
  assumes "cache_ok R db" and "becomes u r mo db db'" and "ids_ok R u r" and "ids_ok R u' r'"
    and "mo \<in> {None, Some Join, Some Leave, Some Knock, Some Invite}"
  shows "tracked db' u' r' = (if (u', r') = (u, r) then mo else tracked db u' r')"
  using becomes_has(1) [OF assms(1-4)] assms(5) by (auto simp: tracked_def)

text \<open>Each operation changes one membership.\<close>

lemma mark_as_joined_becomes: "becomes u r (Some Join) db (mark_as_joined u r db)"
  unfolding becomes_def by (intro allI, case_tac m) (auto simp: mark_as_joined_def Let_def col_remove_def)

lemma mark_as_left_becomes: "becomes u r (Some Leave) db (mark_as_left False u r p db)"
  unfolding becomes_def by (intro allI, case_tac m) (auto simp: mark_as_left_def Let_def col_remove_def split_beta)

lemma mark_as_left_forgotten: "mark_as_left True u r p db = forget r u (mark_as_left False u r p db)"
  by (simp add: mark_as_left_def Let_def split_beta)

lemma mark_as_knocked_becomes: "becomes u r (Some Knock) db (mark_as_knocked u r s db)"
  unfolding becomes_def by (intro allI, case_tac m) (auto simp: mark_as_knocked_def Let_def col_remove_def split_beta)

lemma mark_as_invited_becomes:
  "mark_as_invited R blocked u r s st via db = Inr db' \<Longrightarrow> becomes u r (Some Invite) db db'"
  unfolding becomes_def
  by (intro allI, case_tac m)
    (auto simp: mark_as_invited_def add_servers_invite_via_def Let_def col_remove_def split_beta bindR_eq_Inr
      split: if_splits option.splits list.splits)

lemma col_remove_absent: "map_of t k = None \<Longrightarrow> col_remove k t = t"
  by (induction t) (auto simp: col_remove_def map_of_eq_None_iff split: if_splits)

lemma forget_other:
  assumes "cache_ok R db" and "ids_ok R u r" and "\<not> has (user_side db Leave) u r"
  shows "forget r u db = db"
proof -
  have "\<not> has (room_side db Leave) r u" using assms unfolding cache_ok_def by blast
  then show ?thesis using assms(3) by (simp add: forget_def has_def col_remove_absent)
qed

lemma forget_becomes:
  assumes "cache_ok R db" and "ids_ok R u r" and "has (user_side db Leave) u r"
  shows "becomes u r None db (forget r u db)"
proof -
  have "\<not> has (user_side db m) u r \<and> \<not> has (room_side db m) r u" if "m \<noteq> Leave" for m
    using assms that unfolding cache_ok_def by blast
  then have "col_remove (pair_key (u, r)) (user_side db m) = user_side db m
      \<and> col_remove (pair_key (r, u)) (room_side db m) = room_side db m" if "m \<noteq> Leave" for m
    using that by (simp add: has_def col_remove_absent)
  moreover have "user_side (forget r u db) m = (if m = Leave then col_remove (pair_key (u, r)) (user_side db m) else user_side db m)"
    "room_side (forget r u db) m = (if m = Leave then col_remove (pair_key (r, u)) (room_side db m) else room_side db m)" for m
    by (cases m; simp add: forget_def)+
  ultimately show ?thesis unfolding becomes_def by simp
qed

lemma has_user_side_tracked:
  assumes "cache_ok R db" and "ids_ok R u r"
  shows "has (user_side db m) u r \<longleftrightarrow> tracked db u r = Some m"
proof -
  have ex: "m1 = m2" if "has (user_side db m1) u r" "has (user_side db m2) u r" for m1 m2
    using assms that unfolding cache_ok_def by blast
  show ?thesis
  proof
    assume h: "has (user_side db m) u r"
    then have "m \<in> {Join, Leave, Knock, Invite}" by (cases m) (auto simp: has_def)
    then show "tracked db u r = Some m" using h ex by (auto simp: tracked_def)
  next
    assume "tracked db u r = Some m"
    then show "has (user_side db m) u r" by (auto simp: tracked_def split: if_splits)
  qed
qed

lemma forget_tracked:
  assumes "cache_ok R db" and "ids_ok R u r"
  shows "cache_ok R (forget r u db)"
    and "ids_ok R u' r' \<Longrightarrow> tracked (forget r u db) u' r'
      = (if (u', r') = (u, r) \<and> tracked db u r = Some Leave then None else tracked db u' r')"
proof -
  note left = has_user_side_tracked [OF assms, of Leave]
  show "cache_ok R (forget r u db)"
    using cache_ok_becomes [OF assms(1) forget_becomes [OF assms] assms(2)] forget_other [OF assms] assms(1)
    by (cases "has (user_side db Leave) u r") simp_all
  assume "ids_ok R u' r'"
  from tracked_becomes [OF assms(1) forget_becomes [OF assms] assms(2) this]
  show "tracked (forget r u db) u' r' = (if (u', r') = (u, r) \<and> tracked db u r = Some Leave then None else tracked db u' r')"
    using left forget_other [OF assms] by (cases "tracked db u r = Some Leave") auto
qed

lemma pair_key_SEP: "SEP \<in> set (pair_key p)"
  by (simp add: pair_key_eq)

lemma has_insert_plain: "column_ok t \<Longrightarrow> SEP \<notin> set k \<Longrightarrow> has (col_insert k v t) a b = has t a b"
  using pair_key_SEP [of "(a, b)"] by (auto simp: has_def)

lemma update_joined_count_tracked:
  assumes "cache_ok R db" and "SEP \<notin> set room"
  shows "cache_ok R (update_joined_count R order room db)"
    and "tracked (update_joined_count R order room db) = tracked db"
    and "roomuseroncejoinedids (update_joined_count R order room db) = roomuseroncejoinedids db"
proof -
  let ?db = "update_joined_count R order room db"
  have u: "user_side ?db m = user_side db m" for m by (cases m) (simp_all add: update_joined_count_def Let_def)
  have r: "room_side ?db m = room_side db m" if "m \<noteq> Knock" for m
    using that by (cases m) (simp_all add: update_joined_count_def Let_def)
  obtain v where k: "room_side ?db Knock = col_insert room v (room_side db Knock)" by (simp add: update_joined_count_def Let_def)
  have ok: "pairs_ok (user_id_ok R) (room_side db m)" for m using assms(1) by (simp add: cache_ok_def)
  have "pairs_ok (user_id_ok R) (room_side ?db m) \<and> has (room_side ?db m) a b = has (room_side db m) a b" for m a b
    using r [of m] k ok [of m] assms(2) has_insert_plain pairs_ok_insert_plain pairs_ok_column by (cases "m = Knock") metis+
  then show "cache_ok R ?db" using assms(1) unfolding cache_ok_def u by simp
  show "tracked ?db = tracked db" by (rule ext)+ (simp add: tracked_def u del: user_side.simps)
  show "roomuseroncejoinedids ?db = roomuseroncejoinedids db" by (simp add: update_joined_count_def Let_def)
qed

subsection \<open>Reachable memberships\<close>

definition empty_cache :: cache_db where
  "empty_cache = \<lparr>sc_short = new_db, roomid_invitedcount = [], roomid_inviteviaservers = [], roomid_joinedcount = [],
     roomserverids = [], roomuserid_invitecount = [], roomuserid_joined = [], roomuserid_leftcount = [],
     roomuserid_knockedcount = [], roomuseroncejoinedids = [], serverroomids = [], userroomid_invitestate = [],
     userroomid_joined = [], userroomid_leftstate = [], userroomid_knockedstate = [], userroomid_invitesender = [],
     appservice_in_room_cache = Map.empty\<rparr>"

text \<open>What a membership event that was processed makes of a membership.\<close>

fun member_after :: "membership_env \<Rightarrow> membership_state \<Rightarrow> membership_state option \<Rightarrow> membership_state option" where
  "member_after E Join m = Some Join"
| "member_after E Invite m = Some Invite"
| "member_after E Leave m = (if forget_upon_leave E then None else Some Leave)"
| "member_after E Ban m = (if forget_upon_leave E then None else Some Leave)"
| "member_after E _ m = m"

text \<open>
  The service beside its abstraction: a map of memberships and the set of those who joined once. A step is a
  membership event, processed or refused, or one of the direct operations of the service.
\<close>

inductive cache_run ::
  "id_rules \<Rightarrow> cache_db \<Rightarrow> (bytes \<times> bytes \<Rightarrow> membership_state option) \<Rightarrow> (bytes \<times> bytes) set \<Rightarrow> bool" for R where
  start: "cache_run R empty_cache Map.empty {}"
| event: "cache_run R db s j \<Longrightarrow> ids_ok R u r \<Longrightarrow>
    update_membership R order E r u (Inr m) sender p c db = (Inr (), db') \<Longrightarrow>
    cache_run R db' (s((u, r) := member_after E m (s (u, r)))) (if m = Join then insert (u, r) j else j)"
| refused: "cache_run R db s j \<Longrightarrow> ids_ok R u r \<Longrightarrow>
    update_membership R order E r u content sender p c db = (Inl e, db') \<Longrightarrow>
    cache_run R db' s (if content = Inr Join then insert (u, r) j else j)"
| left: "cache_run R db s j \<Longrightarrow> ids_ok R u r \<Longrightarrow>
    cache_run R (mark_as_left b u r p db) (s((u, r) := if b then None else Some Leave)) j"
| invited: "cache_run R db s j \<Longrightarrow> ids_ok R u r \<Longrightarrow> mark_as_invited R blocked u r sender st via db = Inr db' \<Longrightarrow>
    cache_run R db' (s((u, r) \<mapsto> Invite)) j"
| knocked: "cache_run R db s j \<Longrightarrow> ids_ok R u r \<Longrightarrow>
    cache_run R (mark_as_knocked u r st db) (s((u, r) \<mapsto> Knock)) j"
| forgotten: "cache_run R db s j \<Longrightarrow> ids_ok R u r \<Longrightarrow>
    cache_run R (forget r u db) (if s (u, r) = Some Leave then s((u, r) := None) else s) j"
| counted: "cache_run R db s j \<Longrightarrow> ids_ok R u r \<Longrightarrow> cache_run R (update_joined_count R order r db) s j"

definition simulates :: "id_rules \<Rightarrow> cache_db \<Rightarrow> (bytes \<times> bytes \<Rightarrow> membership_state option) \<Rightarrow> (bytes \<times> bytes) set \<Rightarrow> bool" where
  "simulates R db s j \<longleftrightarrow> cache_ok R db \<and> (\<forall>u r. ids_ok R u r \<longrightarrow> tracked db u r = s (u, r))
     \<and> column_ok (roomuseroncejoinedids db)
     \<and> (\<forall>k \<in> fst ` set (roomuseroncejoinedids db). \<exists>u r. ids_ok R u r \<and> k = pair_key (u, r))
     \<and> (\<forall>u r. ids_ok R u r \<longrightarrow> has (roomuseroncejoinedids db) u r = ((u, r) \<in> j))"

lemma simulates_becomes:
  assumes "simulates R db s j" and "becomes u r mo db db'" and "ids_ok R u r"
    and "mo \<in> {None, Some Join, Some Leave, Some Knock, Some Invite}"
    and "roomuseroncejoinedids db' = roomuseroncejoinedids db"
  shows "simulates R db' (s((u, r) := mo)) j"
  using assms cache_ok_becomes [of R db u r mo db'] tracked_becomes [of R db u r mo db']
  unfolding simulates_def by auto

lemma simulates_joined: "simulates R db s j \<Longrightarrow> ids_ok R u r \<Longrightarrow> simulates R (mark_as_joined u r db) (s((u, r) \<mapsto> Join)) j"
  by (rule simulates_becomes [OF _ mark_as_joined_becomes]) (simp_all add: mark_as_joined_def Let_def)

lemma simulates_forget:
  "simulates R db s j \<Longrightarrow> ids_ok R u r \<Longrightarrow> simulates R (forget r u db) (if s (u, r) = Some Leave then s((u, r) := None) else s) j"
  using forget_tracked [of R db u r] unfolding simulates_def by (auto simp: forget_def)

lemma simulates_left:
  assumes "simulates R db s j" and "ids_ok R u r"
  shows "simulates R (mark_as_left b u r p db) (s((u, r) := if b then None else Some Leave)) j"
proof -
  have "simulates R (mark_as_left False u r p db) (s((u, r) := Some Leave)) j"
    by (rule simulates_becomes [OF assms(1) mark_as_left_becomes assms(2)]) (simp_all add: mark_as_left_def Let_def split_beta)
  then show ?thesis using simulates_forget [OF _ assms(2)] by (cases b) (fastforce simp: mark_as_left_forgotten)+
qed

lemma simulates_invited:
  assumes "simulates R db s j" and "ids_ok R u r" and "mark_as_invited R blocked u r sender st via db = Inr db'"
  shows "simulates R db' (s((u, r) \<mapsto> Invite)) j"
proof -
  have "roomuseroncejoinedids db' = roomuseroncejoinedids db" using assms(3)
    by (auto simp: mark_as_invited_def add_servers_invite_via_def Let_def split_beta bindR_eq_Inr
        split: if_splits option.splits list.splits)
  then show ?thesis using simulates_becomes [OF assms(1) mark_as_invited_becomes [OF assms(3)] assms(2)] by simp
qed

lemma simulates_knocked: "simulates R db s j \<Longrightarrow> ids_ok R u r \<Longrightarrow> simulates R (mark_as_knocked u r st db) (s((u, r) \<mapsto> Knock)) j"
  by (rule simulates_becomes [OF _ mark_as_knocked_becomes]) (simp_all add: mark_as_knocked_def Let_def split_beta)

lemma simulates_counted:
  "simulates R db s j \<Longrightarrow> ids_ok R u r \<Longrightarrow> simulates R (update_joined_count R order r db) s j"
  using update_joined_count_tracked [of R db r order] utf8_ok_no_SEP [of r]
  by (auto simp: simulates_def ids_ok_def key_pair_ok_def)

lemma simulates_once:
  assumes "simulates R db s j" and "ids_ok R u r"
  shows "simulates R (mark_as_once_joined u r db) s (insert (u, r) j)"
proof -
  have side: "user_side (mark_as_once_joined u r db) m = user_side db m" "room_side (mark_as_once_joined u r db) m = room_side db m" for m
    by (cases m; simp add: mark_as_once_joined_def)+
  have "cache_ok R (mark_as_once_joined u r db)" "tracked (mark_as_once_joined u r db) = tracked db"
    using assms(1) by (auto simp: simulates_def cache_ok_def tracked_def side fun_eq_iff simp del: user_side.simps)
  then show ?thesis using assms has_insert [of "roomuseroncejoinedids db" u r _ _ "[]"] ids_ok_sym
    by (auto simp: simulates_def mark_as_once_joined_def col_insert_keys)
qed

lemma found_qry_pair: "found (qry_pair c (a, b)) = has c a b"
  by (simp add: found_def qry_pair_def col_get_def has_def ok_or_def split: option.splits)

lemma simulates_event:
  assumes "simulates R db s j" and "ids_ok R u r" and "update_membership R order E r u content sender p c db = (res, db')"
  shows "simulates R db'
      (case (res, content) of (Inr _, Inr m) \<Rightarrow> s((u, r) := member_after E m (s (u, r))) | _ \<Rightarrow> s)
      (if content = Inr Join then insert (u, r) j else j)"
proof -
  have fin: "simulates R (if c then update_joined_count R order r db1 else db1) s1 j1" if "simulates R db1 s1 j1" for db1 s1 j1
    using simulates_counted [OF that assms(2)] that by simp
  note upd = assms(3) [unfolded update_membership_def]
  show ?thesis
  proof (cases content)
    case (Inl e)
    then show ?thesis using upd assms(1) by auto
  next
    case (Inr m)
    show ?thesis
    proof (cases m)
      case Join
      show ?thesis
      proof (cases "once_joined db u r")
        case True
        then have "(u, r) \<in> j" using assms(1,2) by (simp add: simulates_def once_joined_def found_qry_pair)
        then show ?thesis using upd Inr Join True fin [OF simulates_joined [OF assms(1,2)]] by (auto simp: insert_absorb)
      next
        case False
        note once = simulates_once [OF assms(1,2)]
        show ?thesis using upd Inr Join False once fin [OF simulates_joined [OF once assms(2)]]
          by (auto simp: Let_def split: sum.splits if_splits)
      qed
    next
      case Invite
      then show ?thesis using upd Inr assms(1) fin [OF simulates_invited [OF assms(1,2)]] by (auto split: sum.splits)
    next
      case Leave
      then show ?thesis using upd Inr fin [OF simulates_left [OF assms(1,2)]] by auto
    next
      case Ban
      then show ?thesis using upd Inr fin [OF simulates_left [OF assms(1,2)]] by auto
    qed (use upd Inr fin [OF assms(1)] in auto)
  qed
qed

lemma cache_run_simulates: "cache_run R db s j \<Longrightarrow> simulates R db s j"
proof (induction rule: cache_run.induct)
  case start
  have "user_side empty_cache m = [] \<and> room_side empty_cache m = []" for m by (cases m) (simp_all add: empty_cache_def)
  then show ?case
    by (auto simp: simulates_def cache_ok_def pairs_ok_def has_def tracked_def empty_cache_def simp del: user_side.simps room_side.simps)
next
  case (event db s j u r order E m sender p c db')
  then show ?case using simulates_event [OF event.IH event.hyps(2,3)] by (simp add: fun_upd_def)
next
  case (refused db s j u r order E content sender p c e db')
  then show ?case using simulates_event [OF refused.IH refused.hyps(2,3)] by simp
next
  case (left db s j u r b p)
  then show ?case using simulates_left by blast
next
  case (invited db s j u r blocked sender st via db')
  then show ?case using simulates_invited by blast
next
  case (knocked db s j u r st)
  then show ?case using simulates_knocked by blast
next
  case (forgotten db s j u r)
  then show ?case using simulates_forget by blast
next
  case (counted db s j u r order)
  then show ?case using simulates_counted by blast
qed

lemma members_tracked:
  assumes "cache_ok R db" and "ids_ok R u r"
  shows "u \<in> set (seconds (user_id_ok R) (room_side db m) (interfix r)) \<longleftrightarrow> tracked db u r = Some m"
proof -
  have ids: "key_pair_ok (r, u)" "user_id_ok R u" "utf8_ok r" using ids_ok_sym [OF assms(2)] by (simp_all add: key_pair_ok_def)
  have "pairs_ok (user_id_ok R) (room_side db m)" using assms(1) by (simp add: cache_ok_def)
  moreover have "has (room_side db m) r u = has (user_side db m) u r" using assms unfolding cache_ok_def by blast
  ultimately show ?thesis using seconds_set(2) [of "user_id_ok R" "room_side db m" r] ids has_user_side_tracked [OF assms] by simp
qed

lemma user_membership_tracked:
  "user_membership db u r = (case tracked db u r of Some m \<Rightarrow> Some m
     | None \<Rightarrow> if has (roomuseroncejoinedids db) u r then Some Ban else None)"
  by (simp add: user_membership_def tracked_def is_joined_def is_left_def is_knocked_def is_invited_def once_joined_def found_qry_pair)

text \<open>C12. After any sequence of membership events, processed or refused, and of direct changes, the membership of a user in a
  room is the last one set; a user without one who joined once counts as banned. The users found by
  scanning the room's tables are those with that membership. What an event sets: a join or an invite that is processed
  sets this membership, a leave or a ban sets leave, or none where the server forgets rooms upon leave, and a knock event
  changes nothing (a knock is only set directly). An event that is refused sets no membership, though a refused join still
  counts as having joined once.\<close>

theorem membership_refines:
  assumes "cache_run R db s j" and "ids_ok R u r"
  shows "user_membership db u r = (case s (u, r) of Some m \<Rightarrow> Some m | None \<Rightarrow> if (u, r) \<in> j then Some Ban else None)
    \<and> (u \<in> set (room_members R db r) \<longleftrightarrow> s (u, r) = Some Join)
    \<and> (u \<in> set (room_members_invited R db r) \<longleftrightarrow> s (u, r) = Some Invite)
    \<and> (u \<in> set (room_members_knocked R db r) \<longleftrightarrow> s (u, r) = Some Knock)"
proof -
  have sim: "simulates R db s j" using assms(1) by (rule cache_run_simulates)
  then have ok: "cache_ok R db" and t: "tracked db u r = s (u, r)" and once: "has (roomuseroncejoinedids db) u r = ((u, r) \<in> j)"
    using assms(2) by (simp_all add: simulates_def)
  show ?thesis using members_tracked [OF ok assms(2)] t once user_membership_tracked [of db u r]
    by (simp add: room_members_def room_members_invited_def room_members_knocked_def flip: room_side.simps)
qed

text \<open>Identifiers with a sigil, all of one server.\<close>

definition sample_ids :: id_rules where
  "sample_ids = \<lparr>user_id_ok = (\<lambda>x. take 1 x = [0x40]), room_id_ok = (\<lambda>x. take 1 x = [0x21]),
     server_name_ok = (\<lambda>_. True), server_of = (\<lambda>_. [0x62])\<rparr>"

definition sample_env :: membership_env where
  "sample_env = \<lparr>user_is_local = True, forget_upon_leave = False, invites_blocked = False, stripped_state = [],
     copied_account_data = Inr ()\<rparr>"

definition one_joined :: cache_db where
  "one_joined = snd (update_membership sample_ids (\<lambda>xs. xs) sample_env [0x21] [0x40, 0x3A, 0x62, 0x63] (Inr Join)
     [0x40] [] True empty_cache)"

lemma sample_ids_ok: "ids_ok sample_ids [0x40, 0x3A, 0x62, 0x63] [0x21]" "ids_ok sample_ids [0x40, 0x3A, 0x62] [0x21]"
  by (simp_all add: ids_ok_def sample_ids_def key_pair_ok_def)

lemma one_joined_run:
  "cache_run sample_ids one_joined [([0x40, 0x3A, 0x62, 0x63], [0x21]) \<mapsto> Join] {([0x40, 0x3A, 0x62, 0x63], [0x21])}"
proof -
  have "fst (update_membership sample_ids (\<lambda>xs. xs) sample_env [0x21] [0x40, 0x3A, 0x62, 0x63] (Inr Join) [0x40] [] True empty_cache) = Inr ()"
    by (simp add: update_membership_def sample_env_def Let_def)
  then have "update_membership sample_ids (\<lambda>xs. xs) sample_env [0x21] [0x40, 0x3A, 0x62, 0x63] (Inr Join) [0x40] [] True empty_cache
      = (Inr (), one_joined)" by (simp add: one_joined_def prod_eq_iff)
  from cache_run.event [OF cache_run.start sample_ids_ok(1) this] show ?thesis by simp
qed

theorem membership_refines_witness:
  "user_membership (mark_as_left True [0x40, 0x3A, 0x62, 0x63] [0x21] [] one_joined) [0x40, 0x3A, 0x62, 0x63] [0x21] = Some Ban"
  using membership_refines [OF cache_run.left [OF one_joined_run sample_ids_ok(1), of True "[]"] sample_ids_ok(1)] by simp

subsection \<open>Counts and servers\<close>

definition servers_ok :: "id_rules \<Rightarrow> cache_db \<Rightarrow> bool" where
  "servers_ok R db \<longleftrightarrow> pairs_ok (server_name_ok R) (roomserverids db) \<and> pairs_ok (room_id_ok R) (serverroomids db)
     \<and> (\<forall>r s. key_pair_ok (r, s) \<longrightarrow> has (roomserverids db) r s = has (serverroomids db) s r)"

definition members :: "id_rules \<Rightarrow> cache_db \<Rightarrow> membership_state \<Rightarrow> bytes \<Rightarrow> bytes set" where
  "members R db m r = {u. ids_ok R u r \<and> tracked db u r = Some m}"

lemma pairs_ok_insert_pair: "pairs_ok ok t \<Longrightarrow> key_pair_ok p \<Longrightarrow> ok (snd p) \<Longrightarrow> pairs_ok ok (col_insert (pair_key p) v t)"
  by (cases p) (simp add: pairs_ok_insert)

lemma pairs_ok_fold_insert:
  "pairs_ok ok t \<Longrightarrow> \<forall>x \<in> set xs. key_pair_ok (f x) \<and> ok (snd (f x)) \<Longrightarrow> pairs_ok ok (fold (\<lambda>x. col_insert (pair_key (f x)) v) xs t)"
  by (induction xs arbitrary: t) (auto simp: pairs_ok_insert_pair)

lemma pairs_ok_fold_remove: "pairs_ok ok t \<Longrightarrow> pairs_ok ok (fold (\<lambda>x. col_remove (g x)) xs t)"
  by (induction xs arbitrary: t) (auto simp: pairs_ok_remove)

lemma has_fold_insert:
  assumes "pairs_ok ok t" and "\<forall>x \<in> set xs. key_pair_ok (f x) \<and> ok (snd (f x))" and "key_pair_ok (a, b)"
  shows "has (fold (\<lambda>x. col_insert (pair_key (f x)) v) xs t) a b \<longleftrightarrow> (a, b) \<in> f ` set xs \<or> has t a b"
  using assms(1,2)
proof (induction xs arbitrary: t)
  case (Cons x xs)
  have "pairs_ok ok (col_insert (pair_key (f x)) v t)" using Cons.prems by (simp add: pairs_ok_insert_pair)
  then show ?case using Cons.IH [of "col_insert (pair_key (f x)) v t"] Cons.prems
      has_insert [of t "fst (f x)" "snd (f x)" a b v] assms(3) pairs_ok_column [OF Cons.prems(1)] by auto
qed simp

lemma has_fold_remove:
  assumes "\<forall>x \<in> set xs. key_pair_ok (f x)" and "key_pair_ok (a, b)"
  shows "has (fold (\<lambda>x. col_remove (pair_key (f x))) xs t) a b \<longleftrightarrow> (a, b) \<notin> f ` set xs \<and> has t a b"
  using assms(1)
proof (induction xs arbitrary: t)
  case (Cons x xs)
  then show ?case using has_remove [of "fst (f x)" "snd (f x)" a b t] assms(2) by auto
qed simp

lemma scan_members:
  assumes "cache_ok R db" and "room_id_ok R r" and "utf8_ok r"
  shows "set (seconds (user_id_ok R) (room_side db m) (interfix r)) = members R db m r"
    and "length (seconds (user_id_ok R) (room_side db m) (interfix r)) = card (members R db m r)"
proof -
  have ok: "pairs_ok (user_id_ok R) (room_side db m)" using assms(1) by (simp add: cache_ok_def)
  have "u \<in> set (seconds (user_id_ok R) (room_side db m) (interfix r)) \<Longrightarrow> ids_ok R u r" for u
    using seconds_set(2) [OF ok assms(3)] assms(2) by (auto simp: ids_ok_def key_pair_ok_def)
  then show s: "set (seconds (user_id_ok R) (room_side db m) (interfix r)) = members R db m r"
    using members_tracked [OF assms(1)] by (auto simp: members_def)
  show "length (seconds (user_id_ok R) (room_side db m) (interfix r)) = card (members R db m r)"
    using distinct_card [OF seconds_set(1) [OF ok assms(3)]] s by simp
qed

lemma update_servers:
  assumes "cache_ok R db" and "servers_ok R db" and "room_id_ok R r" and "utf8_ok r" and "\<forall>xs. set (order xs) = set xs"
    and "\<forall>u. user_id_ok R u \<longrightarrow> key_pair_ok (u, r) \<longrightarrow> server_name_ok R (server_of R u) \<and> key_pair_ok (r, server_of R u)"
  shows "servers_ok R (update_joined_count R order r db)"
    and "key_pair_ok (r, s) \<Longrightarrow> server_name_ok R s \<Longrightarrow>
      has (roomserverids (update_joined_count R order r db)) r s \<longleftrightarrow> s \<in> server_of R ` members R db Join r"
proof -
  let ?joined = "room_members R db r" and ?old = "room_servers R db r" and ?db = "update_joined_count R order r db"
  let ?js = "remdups (map (server_of R) ?joined)"
  let ?gone = "filter (\<lambda>s. s \<notin> set ?js) ?old" and ?new = "order (filter (\<lambda>s. s \<notin> set ?old) ?js)"
  have p: "pairs_ok (server_name_ok R) (roomserverids db)" "pairs_ok (room_id_ok R) (serverroomids db)"
    and mirror: "\<And>r s. key_pair_ok (r, s) \<Longrightarrow> has (roomserverids db) r s = has (serverroomids db) s r"
    using assms(2) by (simp_all add: servers_ok_def)
  have joined: "set ?joined = members R db Join r"
    unfolding room_members_def using scan_members(1) [OF assms(1,3,4), of Join] by simp
  have old: "set ?old = {s. key_pair_ok (r, s) \<and> server_name_ok R s \<and> has (roomserverids db) r s}"
    unfolding room_servers_def by (rule seconds_set(2) [OF p(1) assms(4)])
  have js: "set ?js = server_of R ` members R db Join r" using joined by simp
  have sym: "key_pair_ok (a, b) = key_pair_ok (b, a)" for a b by (auto simp: key_pair_ok_def)
  have gone: "\<forall>s \<in> set ?gone. key_pair_ok (r, s)" using old by auto
  have new: "\<forall>s \<in> set ?new. key_pair_ok (r, s) \<and> server_name_ok R s"
    using assms(5,6) joined sym by (auto simp: members_def ids_ok_def)
  have tables: "roomserverids ?db = fold (\<lambda>s. col_insert (pair_key (r, s)) []) ?new (fold (\<lambda>s. col_remove (pair_key (r, s))) ?gone (roomserverids db))"
    "serverroomids ?db = fold (\<lambda>s. col_insert (pair_key (s, r)) []) ?new (fold (\<lambda>s. col_remove (pair_key (s, r))) ?gone (serverroomids db))"
    by (simp_all add: update_joined_count_def Let_def)
  note rem = pairs_ok_fold_remove [OF p(1), of "\<lambda>s. pair_key (r, s)" ?gone] pairs_ok_fold_remove [OF p(2), of "\<lambda>s. pair_key (s, r)" ?gone]
  have a: "has (roomserverids ?db) r' s \<longleftrightarrow> r' = r \<and> s \<in> set ?new \<or> \<not> (r' = r \<and> s \<in> set ?gone) \<and> has (roomserverids db) r' s"
    if "key_pair_ok (r', s)" for r' s unfolding tables
    using has_fold_insert [OF rem(1), of ?new "\<lambda>s. (r, s)" r' s "[]"] has_fold_remove [of ?gone "\<lambda>s. (r, s)" r' s "roomserverids db"] new gone that by auto
  have b: "has (serverroomids ?db) s r' \<longleftrightarrow> r' = r \<and> s \<in> set ?new \<or> \<not> (r' = r \<and> s \<in> set ?gone) \<and> has (serverroomids db) s r'"
    if "key_pair_ok (r', s)" for r' s unfolding tables
    using has_fold_insert [OF rem(2), of ?new "\<lambda>s. (s, r)" s r' "[]"] has_fold_remove [of ?gone "\<lambda>s. (s, r)" s r' "serverroomids db"]
      new gone that assms(3) sym by auto
  have "pairs_ok (server_name_ok R) (roomserverids ?db)" unfolding tables
    using pairs_ok_fold_insert [OF rem(1), of ?new "\<lambda>s. (r, s)"] new by simp
  moreover have "pairs_ok (room_id_ok R) (serverroomids ?db)" unfolding tables
    using pairs_ok_fold_insert [OF rem(2), of ?new "\<lambda>s. (s, r)"] new assms(3) sym by simp
  ultimately show "servers_ok R ?db" using a b mirror by (simp add: servers_ok_def)
  assume "key_pair_ok (r, s)" "server_name_ok R s"
  then show "has (roomserverids ?db) r s \<longleftrightarrow> s \<in> server_of R ` members R db Join r"
    using a [of r s] old assms(5) js by auto
qed

text \<open>C32. Counting the members of a room stores the number of joined and of invited users, and leaves as the room's servers
  exactly the servers of the joined users, by either table. \<open>ruma\<close> gives a user id a valid server name.\<close>

theorem update_joined_count_correct:
  assumes "cache_ok R db" and "servers_ok R db" and "room_id_ok R r" and "utf8_ok r" and "\<forall>xs. set (order xs) = set xs"
    and "\<forall>u. user_id_ok R u \<longrightarrow> key_pair_ok (u, r) \<longrightarrow> server_name_ok R (server_of R u) \<and> key_pair_ok (r, server_of R u)"
    and "column_ok (roomid_joinedcount db)" and "column_ok (roomid_invitedcount db)"
  shows "let db' = update_joined_count R order r db in
      room_joined_count db' r = Inr (of_nat (card (members R db Join r)))
    \<and> room_invited_count db' r = Inr (of_nat (card (members R db Invite r)))
    \<and> set (room_servers R db' r) = server_of R ` members R db Join r
    \<and> (\<forall>s. server_name_ok R s \<and> key_pair_ok (r, s) \<longrightarrow> server_in_room db' s r = (s \<in> server_of R ` members R db Join r))"
proof -
  let ?db = "update_joined_count R order r db"
  note upd = update_servers [OF assms(1-6)]
  have count: "length (room_members R db r) = card (members R db Join r)" "length (room_members_invited R db r) = card (members R db Invite r)"
    unfolding room_members_def room_members_invited_def
    using scan_members(2) [OF assms(1,3,4), of Join] scan_members(2) [OF assms(1,3,4), of Invite] by simp_all
  have "room_joined_count ?db r = Inr (of_nat (card (members R db Join r)))"
    "room_invited_count ?db r = Inr (of_nat (card (members R db Invite r)))"
    using assms(7,8) by (simp_all add: room_joined_count_def room_invited_count_def update_joined_count_def Let_def col_get_def ok_or_def count)
  moreover have "key_pair_ok (r, s) \<and> server_name_ok R s" if "s \<in> server_of R ` members R db Join r" for s
    using that assms(6) by (auto simp: members_def ids_ok_def)
  then have "set (room_servers R ?db r) = server_of R ` members R db Join r"
    using seconds_set(2) [OF _ assms(4), of "server_name_ok R" "roomserverids ?db"] upd
    by (auto simp: room_servers_def servers_ok_def)
  moreover have "server_in_room ?db s r = (s \<in> server_of R ` members R db Join r)" if "server_name_ok R s" "key_pair_ok (r, s)" for s
    using upd(1) upd(2) [OF that(2,1)] that(2) by (simp add: server_in_room_def found_qry_pair servers_ok_def)
  ultimately show ?thesis by (simp add: Let_def)
qed

theorem update_joined_count_correct_witness:
  "room_joined_count (update_joined_count sample_ids rev [0x21] (mark_as_joined [0x40, 0x3A, 0x62, 0x63] [0x21] empty_cache)) [0x21] = Inr 1"
proof -
  let ?db = "mark_as_joined [0x40, 0x3A, 0x62, 0x63] [0x21] empty_cache"
  note sim = simulates_joined [OF cache_run_simulates [OF cache_run.start] sample_ids_ok(1)]
  have "tracked ?db u r = (if (u, r) = ([0x40, 0x3A, 0x62, 0x63], [0x21]) then Some Join else None)" if "ids_ok sample_ids u r" for u r
    using sim that by (simp add: simulates_def)
  then have "members sample_ids ?db Join [0x21] = {[0x40, 0x3A, 0x62, 0x63]}"
    using sample_ids_ok(1) unfolding members_def by (auto split: if_splits)
  moreover have "cache_ok sample_ids ?db" using sim by (simp add: simulates_def)
  moreover have "servers_ok sample_ids ?db" "column_ok (roomid_joinedcount ?db)" "column_ok (roomid_invitedcount ?db)"
    by (simp_all add: servers_ok_def mark_as_joined_def Let_def empty_cache_def pairs_ok_def has_def)
  ultimately show ?thesis
    using update_joined_count_correct [of sample_ids ?db "[0x21]" rev] by (simp add: Let_def sample_ids_def key_pair_ok_def)
qed

subsection \<open>Scans that go wrong\<close>

text \<open>The rooms a user is found to be joined to include the rooms of every other user whose id begins with the user's id, as
  \<open>@a:b.co\<close> begins with \<open>@a:b.c\<close>: the scan's prefix lacks the separator.\<close>

lemma rooms_joined_of_longer_id:
  assumes "cache_ok R db" and "ids_ok R u' r" and "starts_with u u'" and "is_joined db u' r"
  shows "r \<in> set (rooms_joined R db u)"
proof -
  have col: "column_ok (userroomid_joined db)"
    using assms(1) pairs_ok_column [of "room_id_ok R" "user_side db Join"] unfolding cache_ok_def by (metis user_side.simps(1))
  have "has (userroomid_joined db) u' r" using assms(4) by (simp add: is_joined_def found_qry_pair)
  then have "pair_key (u', r) \<in> fst ` set (userroomid_joined db)" by (auto simp: has_def dest!: map_of_SomeD intro: rev_image_eqI)
  moreover obtain x where "u' = u @ x" using assms(3) append_take_drop_id [of "length u" u'] unfolding starts_with_def by metis
  then have "starts_with u (pair_key (u', r))" by (simp add: pair_key_eq)
  ultimately have "pair_key (u', r) \<in> set (raw_keys_prefix (userroomid_joined db) u)" by (simp add: set_raw_keys_prefix [OF col])
  moreover have "de_second (pair_key (u', r)) = Inr r" "room_id_ok R r" using ids_ok_sym [OF assms(2)] de_second_key [of "(u', r)"] by simp_all
  ultimately show ?thesis
    unfolding rooms_joined_def seconds_def ignore_err_def by (force simp: List.map_filter_def image_iff)
qed

text \<open>The scan for users who ever joined a room finds none: they are stored under the user's id and searched under the
  room's. No text is both a user id and a room id.\<close>

lemma room_useroncejoined_empty:
  assumes "cache_run R db s j" and "room_id_ok R r" and "utf8_ok r" and "\<forall>x. \<not> (user_id_ok R x \<and> room_id_ok R x)"
  shows "room_useroncejoined R db r = []"
proof -
  note run = conjunct2 [OF conjunct2 [OF cache_run_simulates [OF assms(1), unfolded simulates_def]]]
  note sim = conjunct1 [OF run] conjunct1 [OF conjunct2 [OF run]]
  have "\<not> starts_with (interfix r) k" if kin: "k \<in> fst ` set (roomuseroncejoinedids db)" for k
  proof -
    obtain u r' where k: "ids_ok R u r'" "k = pair_key (u, r')" using bspec [OF sim(2) kin] by blast
    then have "u \<noteq> r" "key_pair_ok (u, r')" using assms(2,4) unfolding ids_ok_def by blast+
    then show ?thesis using pair_keys.key_prefix [of r u r'] k(2) assms(3) by (simp add: key_pair_ok_def)
  qed
  then have "set (raw_keys_prefix (roomuseroncejoinedids db) (interfix r)) = {}"
    unfolding set_raw_keys_prefix [OF sim(1)] by blast
  then have "raw_keys_prefix (roomuseroncejoinedids db) (interfix r) = []" by simp
  then show ?thesis by (simp add: room_useroncejoined_def seconds_def ignore_err_def)
qed

text \<open>A knock that arrives as an event is not recorded.\<close>

lemma knock_event_not_recorded:
  "update_membership R order E r u (Inr Knock) sender p False db = (Inr (), db)"
  by (simp add: update_membership_def)

text \<open>Of the servers stored with an invite, only the last is read back.\<close>

lemma invite_via_keeps_last:
  "bindR (add_servers_invite_via sample_ids [0x21] [[0x61], [0x62]] empty_cache) (\<lambda>db. servers_invite_via sample_ids db [0x21])
   = Inr [[0x62]]"
  by code_simp

subsection \<open>Application services\<close>

text \<open>
  The cached answer is the answer, as long as memberships change only together with \<open>update_joined_count\<close>,
  which drops the room's entry.
\<close>

definition as_cache_ok :: "id_rules \<Rightarrow> (bytes \<Rightarrow> appservice option) \<Rightarrow> cache_db \<Rightarrow> bool" where
  "as_cache_ok R registered db \<longleftrightarrow> (\<forall>room m i b. appservice_in_room_cache db room = Some m \<longrightarrow> m i = Some b \<longrightarrow>
     (\<exists>as u. registered i = Some as \<and> bridge_user_id as = Some u
        \<and> b = (is_joined db u room \<or> list_ex (users_is_match as) (room_members R db room))))"

lemma appservice_in_room_correct:
  assumes "as_cache_ok R registered db" and "registered (as_id as) = Some as" and "bridge_user_id as = Some u"
  shows "fst (appservice_in_room R room as db) = (is_joined db u room \<or> list_ex (users_is_match as) (room_members R db room))"
    and "as_cache_ok R registered (snd (appservice_in_room R room as db))"
proof -
  let ?b = "is_joined db u room \<or> list_ex (users_is_match as) (room_members R db room)"
  show "fst (appservice_in_room R room as db) = ?b"
  proof (cases "Option.bind (appservice_in_room_cache db room) (\<lambda>m. m (as_id as))")
    case None
    then show ?thesis using assms(3) by (simp add: appservice_in_room_def Let_def)
  next
    case (Some b)
    then obtain m where "appservice_in_room_cache db room = Some m" "m (as_id as) = Some b" by (auto simp: bind_eq_Some_conv)
    then show ?thesis using assms Some unfolding as_cache_ok_def by (fastforce simp: appservice_in_room_def)
  qed
  have same: "is_joined (db\<lparr>appservice_in_room_cache := c\<rparr>) = is_joined db"
    "room_members R (db\<lparr>appservice_in_room_cache := c\<rparr>) = room_members R db" for c
    by (simp_all add: is_joined_def room_members_def fun_eq_iff)
  show "as_cache_ok R registered (snd (appservice_in_room R room as db))"
    using assms
    by (auto simp: as_cache_ok_def appservice_in_room_def Let_def same split: option.splits if_splits)
qed

subsection \<open>Rooms in common\<close>

lemma advance_sorted:
  assumes "sorted_wrt (<) bs"
  shows "advance a bs = (a \<in> set bs, filter (\<lambda>b. a < b) bs)"
  using assms
proof (induction bs)
  case (Cons b bs)
  have "\<forall>c \<in> set (b # bs). a < c" if "a < b" using Cons.prems that by auto
  then have "filter (\<lambda>b. a < b) (b # bs) = b # bs" "a \<notin> set (b # bs)" if "a < b" using that by (auto intro!: filter_True)
  moreover have "filter (\<lambda>c. b < c) bs = bs" "b \<notin> set bs" using Cons.prems by (auto intro: filter_True)
  ultimately show ?case using Cons by (cases "a < b") auto
qed simp

lemma intersection_sorted_correct:
  "sorted_wrt (<) as \<Longrightarrow> sorted_wrt (<) bs \<Longrightarrow> intersection_sorted as bs = filter (\<lambda>a. a \<in> set bs) as"
proof (induction as arbitrary: bs)
  case (Cons a as)
  have "intersection_sorted as (filter (\<lambda>b. a < b) bs) = filter (\<lambda>x. x \<in> set (filter (\<lambda>b. a < b) bs)) as"
    using Cons by (simp add: sorted_wrt_filter)
  also have "\<dots> = filter (\<lambda>x. x \<in> set bs) as" using Cons.prems(1) by (auto intro: filter_cong)
  finally show ?case using advance_sorted [OF Cons.prems(2), of a] by simp
qed simp

end
