(* ===== verification/Sending.thy ===== *)
theory Sending
  imports StateCache PduCount "HOL-Library.AList"
begin

text \<open>
  Sending events to other servers, application services and push gateways: the queue and the worker of
  \<open>src/src/service/sending/\<close>. An event is first written to the queue of its destination, then moved to the
  active requests when a transaction with it starts, and deleted when the transaction succeeded. The worker keeps a
  status per destination and retries failed transactions with a growing pause. What the network does, and which
  ephemeral events a transaction takes along, are arguments.
\<close>

subsection \<open>Destinations and keys\<close>

datatype destination = Appservice bytes | Push bytes bytes | Federation bytes

datatype sending_event = SendPdu raw_id | SendEdu bytes | Flush

fun get_prefix :: "destination \<Rightarrow> bytes" where
  "get_prefix (Federation server) = server @ [0xFF]"
| "get_prefix (Appservice server) = [0x2B] @ server @ [0xFF]"
| "get_prefix (Push user pushkey) = [0x24] @ user @ [0xFF] @ pushkey @ [0xFF]"

text \<open>\<open>splitn(.., |b| b == 0xFF)\<close>: the part before the first separator, and the rest if there is one.\<close>

definition split_sep :: "bytes \<Rightarrow> bytes \<times> bytes option" where
  "split_sep b = (takeWhile (\<lambda>x. x \<noteq> 0xFF) b,
     case dropWhile (\<lambda>x. x \<noteq> 0xFF) b of [] \<Rightarrow> None | _ # rest \<Rightarrow> Some rest)"

definition bad_database :: "string \<Rightarrow> service_error" where
  "bad_database msg = DatabaseErr msg"

text \<open>\<open>utils::string_from_bytes\<close>.\<close>

definition string_from_bytes :: "string \<Rightarrow> bytes \<Rightarrow> service_error + bytes" where
  "string_from_bytes msg b = (if utf8_ok b then Inr b else Inl (bad_database msg))"

text \<open>\<open>event.into()\<close> panics when the bytes are not those of a position.\<close>

definition event_of :: "bytes \<Rightarrow> bytes \<Rightarrow> service_error + sending_event" where
  "event_of event value =
     (if value = [] then
        bindR (ok_or (PanicErr ''unrecognized RawId length'') (raw_id_from_bytes event)) (\<lambda>pdu_id. Inr (SendPdu pdu_id))
      else Inr (SendEdu value))"

definition parse_servercurrentevent ::
  "id_rules \<Rightarrow> bytes \<Rightarrow> bytes \<Rightarrow> service_error + destination \<times> sending_event" where
  "parse_servercurrentevent R key value =
     (if take 1 key = [0x2B] then
        (case split_sep (drop 1 key) of (server, event) \<Rightarrow>
          bindR (ok_or (bad_database ''Invalid bytes in servercurrentpdus.'') event) (\<lambda>event.
          bindR (string_from_bytes ''Invalid server bytes in server_currenttransaction'' server) (\<lambda>server.
          bindR (event_of event value) (\<lambda>e. Inr (Appservice server, e)))))
      else if take 1 key = [0x24] then
        (case split_sep (drop 1 key) of (user, parts) \<Rightarrow>
          bindR (string_from_bytes ''Invalid user string in servercurrentevent'' user) (\<lambda>user_string.
          bindR (if user_id_ok R user_string then Inr user_string
                 else Inl (bad_database ''Invalid user id in servercurrentevent'')) (\<lambda>user_id.
          bindR (ok_or (bad_database ''Invalid bytes in servercurrentpdus.'') parts) (\<lambda>parts.
          (case split_sep parts of (pushkey, event) \<Rightarrow>
            bindR (string_from_bytes ''Invalid pushkey in servercurrentevent'' pushkey) (\<lambda>pushkey_string.
            bindR (ok_or (bad_database ''Invalid bytes in servercurrentpdus.'') event) (\<lambda>event.
            bindR (event_of event value) (\<lambda>e. Inr (Push user_id pushkey_string, e)))))))))
      else
        (case split_sep key of (server, event) \<Rightarrow>
          bindR (ok_or (bad_database ''Invalid bytes in servercurrentpdus.'') event) (\<lambda>event.
          bindR (string_from_bytes ''Invalid server bytes in server_currenttransaction'' server) (\<lambda>server.
          bindR (if server_name_ok R server then Inr server
                 else Inl (bad_database ''Invalid server string in server_currenttransaction'')) (\<lambda>server.
          bindR (event_of event value) (\<lambda>e. Inr (Federation server, e)))))))"

subsection \<open>The queue\<close>

record sending_db =
  snd_short :: short_db
  servercurrentevent_data :: "bytes column"
  servernameevent_data :: "bytes column"
  servername_educount :: table

definition delete_active_request :: "bytes \<Rightarrow> sending_db \<Rightarrow> sending_db" where
  "delete_active_request key db = db\<lparr>servercurrentevent_data := col_remove key (servercurrentevent_data db)\<rparr>"

definition delete_all_active_requests_for :: "destination \<Rightarrow> sending_db \<Rightarrow> sending_db" where
  "delete_all_active_requests_for dest db =
     db\<lparr>servercurrentevent_data :=
          fold col_remove (raw_keys_prefix (servercurrentevent_data db) (get_prefix dest)) (servercurrentevent_data db)\<rparr>"

definition delete_all_requests_for :: "destination \<Rightarrow> sending_db \<Rightarrow> sending_db" where
  "delete_all_requests_for dest db =
     db\<lparr>servercurrentevent_data :=
          fold col_remove (raw_keys_prefix (servercurrentevent_data db) (get_prefix dest)) (servercurrentevent_data db),
        servernameevent_data :=
          fold col_remove (raw_keys_prefix (servernameevent_data db) (get_prefix dest)) (servernameevent_data db)\<rparr>"

fun event_value :: "sending_event \<Rightarrow> bytes" where
  "event_value (SendEdu val) = val"
| "event_value _ = []"

definition mark_one_active :: "bytes \<times> sending_event \<Rightarrow> sending_db \<Rightarrow> sending_db" where
  "mark_one_active item db =
     db\<lparr>servercurrentevent_data := col_insert (fst item) (event_value (snd item)) (servercurrentevent_data db),
        servernameevent_data := col_remove (fst item) (servernameevent_data db)\<rparr>"

definition mark_as_active :: "(bytes \<times> sending_event) list \<Rightarrow> sending_db \<Rightarrow> sending_db" where
  "mark_as_active events db = fold mark_one_active (filter (\<lambda>(key, _). key \<noteq> []) events) db"

text \<open>\<open>parse_servercurrentevent(..).expect(..)\<close>.\<close>

definition parse_entry :: "id_rules \<Rightarrow> bytes \<times> bytes \<Rightarrow> service_error + destination \<times> sending_event" where
  "parse_entry R kv = (case parse_servercurrentevent R (fst kv) (snd kv) of
       Inr r \<Rightarrow> Inr r | Inl (PanicErr msg) \<Rightarrow> Inl (PanicErr msg) | Inl _ \<Rightarrow> Inl (PanicErr ''invalid servercurrentevent''))"

definition active_requests :: "id_rules \<Rightarrow> sending_db \<Rightarrow> service_error + (bytes \<times> sending_event \<times> destination) list" where
  "active_requests R db =
     mapR (\<lambda>kv. bindR (parse_entry R kv) (\<lambda>(dest, event). Inr (fst kv, event, dest))) (servercurrentevent_data db)"

definition requests_for :: "id_rules \<Rightarrow> bytes column \<Rightarrow> destination \<Rightarrow> service_error + (bytes \<times> sending_event) list" where
  "requests_for R t dest =
     mapR (\<lambda>kv. bindR (parse_entry R kv) (\<lambda>(_, event). Inr (fst kv, event))) (raw_stream_prefix t (get_prefix dest))"

definition active_requests_for :: "id_rules \<Rightarrow> sending_db \<Rightarrow> destination \<Rightarrow> service_error + (bytes \<times> sending_event) list" where
  "active_requests_for R db dest = requests_for R (servercurrentevent_data db) dest"

text \<open>
  \<open>queued_requests(dest).take(n)\<close>: only the entries that are taken are parsed.
\<close>

definition queued_requests_take ::
  "id_rules \<Rightarrow> nat \<Rightarrow> sending_db \<Rightarrow> destination \<Rightarrow> service_error + (bytes \<times> sending_event) list" where
  "queued_requests_take R n db dest =
     mapR (\<lambda>kv. bindR (parse_entry R kv) (\<lambda>(_, event). Inr (fst kv, event)))
       (take n (raw_stream_prefix (servernameevent_data db) (get_prefix dest)))"

fun request_keys :: "(sending_event \<times> destination) list \<Rightarrow> short_db \<Rightarrow> bytes list \<times> short_db" where
  "request_keys [] sdb = ([], sdb)"
| "request_keys ((event, dest) # requests) sdb =
     (case (case event of
         SendPdu value \<Rightarrow> (get_prefix dest @ raw_as_bytes value, sdb)
       | _ \<Rightarrow> (case next_count sdb of (n, sdb) \<Rightarrow> (get_prefix dest @ to_be_bytes n, sdb))) of
        (key, sdb) \<Rightarrow> (case request_keys requests sdb of (keys, sdb) \<Rightarrow> (key # keys, sdb)))"

definition queue_requests :: "(sending_event \<times> destination) list \<Rightarrow> sending_db \<Rightarrow> bytes list \<times> sending_db" where
  "queue_requests requests db =
     (case request_keys requests (snd_short db) of (keys, sdb) \<Rightarrow>
        (keys, db\<lparr>snd_short := sdb,
           servernameevent_data := fold (\<lambda>(key, event, _). col_insert key (event_value event)) (zip keys requests)
             (servernameevent_data db)\<rparr>))"

definition set_latest_educount :: "bytes \<Rightarrow> u64 \<Rightarrow> sending_db \<Rightarrow> sending_db" where
  "set_latest_educount server_name last_count db =
     db\<lparr>servername_educount := (servername_educount db)(server_name \<mapsto> to_be_bytes last_count)\<rparr>"

definition get_latest_educount :: "sending_db \<Rightarrow> bytes \<Rightarrow> u64" where
  "get_latest_educount db server_name =
     (case bindR (table_get (servername_educount db) server_name) de_u64 of Inr n \<Rightarrow> n | Inl _ \<Rightarrow> 0)"

subsection \<open>Backoff\<close>

text \<open>\<open>Duration\<close> in nanoseconds; \<open>saturating_mul\<close> stops at the largest one.\<close>

definition DURATION_MAX :: nat where
  "DURATION_MAX = (2 ^ 64 - 1) * 10 ^ 9 + 999999999"

definition from_secs :: "u64 \<Rightarrow> nat" where
  "from_secs s = unat s * 10 ^ 9"

definition saturating_mul :: "nat \<Rightarrow> 32 word \<Rightarrow> nat" where
  "saturating_mul d n = min (d * unat n) DURATION_MAX"

definition continue_exponential_backoff :: "nat \<Rightarrow> nat \<Rightarrow> nat \<Rightarrow> 32 word \<Rightarrow> bool" where
  "continue_exponential_backoff mn mx elapsed tries =
     (elapsed < min (saturating_mul (saturating_mul mn tries) tries) mx)"

definition continue_exponential_backoff_secs :: "u64 \<Rightarrow> u64 \<Rightarrow> nat \<Rightarrow> 32 word \<Rightarrow> bool" where
  "continue_exponential_backoff_secs mn mx elapsed tries =
     continue_exponential_backoff (from_secs mn) (from_secs mx) elapsed tries"

subsection \<open>A worker\<close>

datatype transaction_status = Running | Failed "32 word" nat | Retrying "32 word"

record sender_config =
  sender_timeout :: u64
  sender_retry_backoff_limit :: u64
  startup_netburst_enabled :: bool
  startup_netburst_keep :: int

type_synonym flight = "destination \<times> sending_event list"

text \<open>What a handler of a worker works on; \<open>futures\<close> are the transactions in flight.\<close>

record worker =
  wdb :: sending_db
  statuses :: "destination \<Rightarrow> transaction_status option"
  futures :: "flight list"

record msg =
  msg_dest :: destination
  msg_event :: sending_event
  queue_id :: bytes

definition DEQUEUE_LIMIT :: nat where
  "DEQUEUE_LIMIT = 48"

definition saturating_inc32 :: "32 word \<Rightarrow> 32 word" where
  "saturating_inc32 n = (if n = - 1 then n else n + 1)"

definition handle_response_err :: "nat \<Rightarrow> destination \<Rightarrow> worker \<Rightarrow> service_error + worker" where
  "handle_response_err now dest w =
     (case statuses w dest of
        None \<Rightarrow> Inr w
      | Some Running \<Rightarrow> Inr (w\<lparr>statuses := (statuses w)(dest \<mapsto> Failed 1 now)\<rparr>)
      | Some (Retrying n) \<Rightarrow> Inr (w\<lparr>statuses := (statuses w)(dest \<mapsto> Failed (saturating_inc32 n) now)\<rparr>)
      | Some (Failed _ _) \<Rightarrow> Inl (PanicErr ''Request that was not even running failed?!''))"

definition handle_response_ok :: "id_rules \<Rightarrow> destination \<Rightarrow> worker \<Rightarrow> service_error + worker" where
  "handle_response_ok R dest w =
     (let db = delete_all_active_requests_for dest (wdb w)
      in bindR (queued_requests_take R DEQUEUE_LIMIT db dest) (\<lambda>new_events.
           if new_events \<noteq> [] then
             Inr (w\<lparr>wdb := mark_as_active new_events db, futures := futures w @ [(dest, map snd new_events)]\<rparr>)
           else Inr (w\<lparr>wdb := db, statuses := (statuses w)(dest := None)\<rparr>)))"

text \<open>\<open>ok\<close> is the outcome of the transaction.\<close>

definition handle_response :: "id_rules \<Rightarrow> nat \<Rightarrow> bool \<Rightarrow> destination \<Rightarrow> worker \<Rightarrow> service_error + worker" where
  "handle_response R now ok dest w = (if ok then handle_response_ok R dest w else handle_response_err now dest w)"

definition is_appservice :: "destination \<Rightarrow> bool" where
  "is_appservice dest = (case dest of Appservice _ \<Rightarrow> True | _ \<Rightarrow> False)"

definition should_attempt_send :: "sender_config \<Rightarrow> nat \<Rightarrow> destination \<Rightarrow> worker \<Rightarrow> (bool \<times> bool) \<times> worker" where
  "should_attempt_send cfg now dest w =
     (case statuses w dest of
        None \<Rightarrow> ((True, False), w\<lparr>statuses := (statuses w)(dest \<mapsto> Running)\<rparr>)
      | Some (Failed tries failed_at) \<Rightarrow>
          (if continue_exponential_backoff_secs (sender_timeout cfg) (sender_retry_backoff_limit cfg) (now - failed_at) tries
              \<and> \<not> is_appservice dest
           then ((False, False), w)
           else ((True, True), w\<lparr>statuses := (statuses w)(dest \<mapsto> Retrying tries)\<rparr>))
      | Some _ \<Rightarrow> ((False, False), w))"

text \<open>\<open>edus\<close> is the outcome of \<open>select_edus\<close>, which reads other services.\<close>

type_synonym selected_edus = "service_error + bytes list \<times> u64"

definition select_events ::
  "id_rules \<Rightarrow> sender_config \<Rightarrow> nat \<Rightarrow> selected_edus \<Rightarrow> destination \<Rightarrow> (bytes \<times> sending_event) list \<Rightarrow> worker
   \<Rightarrow> service_error + sending_event list option \<times> worker" where
  "select_events R cfg now edus dest new_events w =
     (case should_attempt_send cfg now dest w of ((allow, retry), w) \<Rightarrow>
        (if \<not> allow then Inr (None, w)
         else if retry then
           bindR (active_requests_for R (wdb w) dest) (\<lambda>items. Inr (Some (map snd items), w))
         else
           (let w = w\<lparr>wdb := mark_as_active new_events (wdb w)\<rparr>; events = map snd new_events
            in case (dest, edus) of
                 (Federation server_name, Inr (select_edus, last_count)) \<Rightarrow>
                   Inr (Some (events @ map SendEdu select_edus),
                     w\<lparr>wdb := set_latest_educount server_name last_count (wdb w)\<rparr>)
               | _ \<Rightarrow> Inr (Some events, w))))"

definition handle_request ::
  "id_rules \<Rightarrow> sender_config \<Rightarrow> nat \<Rightarrow> selected_edus \<Rightarrow> msg \<Rightarrow> worker \<Rightarrow> service_error + worker" where
  "handle_request R cfg now edus m w =
     bindR (select_events R cfg now edus (msg_dest m) [(queue_id m, msg_event m)] w) (\<lambda>(selected, w).
       case selected of
         None \<Rightarrow> Inr w
       | Some events \<Rightarrow>
           (if events \<noteq> [] then Inr (w\<lparr>futures := futures w @ [(msg_dest m, events)]\<rparr>)
            else Inr (w\<lparr>statuses := (statuses w)(msg_dest m := None)\<rparr>)))"

text \<open>
  The start of a worker. \<open>txns\<close> is a hash map from destinations to events, as a list of pairs;
  \<open>perm\<close> is the order it is read in.
\<close>

fun netburst_loop ::
  "sender_config \<Rightarrow> (destination \<Rightarrow> bool) \<Rightarrow> (bytes \<times> sending_event \<times> destination) list \<Rightarrow> flight list \<Rightarrow> sending_db
   \<Rightarrow> flight list \<times> sending_db" where
  "netburst_loop cfg mine [] txns db = (txns, db)"
| "netburst_loop cfg mine ((key, event, dest) # active) txns db =
     (if \<not> mine dest then netburst_loop cfg mine active txns db
      else (let entry = (case map_of txns dest of None \<Rightarrow> [] | Some es \<Rightarrow> es)
            in if 0 \<le> startup_netburst_keep cfg \<and> nat (startup_netburst_keep cfg) \<le> length entry
               then netburst_loop cfg mine active (AList.update dest entry txns) (delete_active_request key db)
               else netburst_loop cfg mine active (AList.update dest (entry @ [event]) txns) db))"

definition startup_netburst ::
  "id_rules \<Rightarrow> sender_config \<Rightarrow> (destination \<Rightarrow> bool) \<Rightarrow> (flight list \<Rightarrow> flight list) \<Rightarrow> worker \<Rightarrow> service_error + worker" where
  "startup_netburst R cfg mine perm w =
     bindR (active_requests R (wdb w)) (\<lambda>active.
       case netburst_loop cfg mine active [] (wdb w) of (txns, db) \<Rightarrow>
         (let sent = filter (\<lambda>(_, events). startup_netburst_enabled cfg \<and> events \<noteq> []) (perm txns)
          in Inr (w\<lparr>wdb := db, statuses := fold (\<lambda>(dest, _) s. s(dest \<mapsto> Running)) sent (statuses w),
                    futures := futures w @ sent\<rparr>)))"

text \<open>The end of a worker; \<open>responses\<close> are those that arrive before the deadline.\<close>

fun finish_responses :: "(bool \<times> destination) list \<Rightarrow> sending_db \<Rightarrow> sending_db" where
  "finish_responses [] db = db"
| "finish_responses ((ok, dest) # responses) db =
     finish_responses responses (if ok then delete_all_active_requests_for dest db else db)"

subsection \<open>The service\<close>

text \<open>
  \<open>channels\<close> hold the messages for each worker; \<open>senders\<close> is what each running worker keeps between
  two messages. The hash of \<open>shard_id\<close> is an argument.
\<close>

record sender_state =
  sender_statuses :: "destination \<Rightarrow> transaction_status option"
  sender_futures :: "flight list"

record service =
  service_db :: sending_db
  channels :: "msg list list"
  senders :: "nat \<Rightarrow> sender_state option"

definition num_senders :: "nat \<Rightarrow> nat \<Rightarrow> nat \<Rightarrow> nat" where
  "num_senders num_workers num_cores sender_workers =
     (let max_senders = (if num_cores > 0 then min num_workers num_cores else num_workers)
      in min (max sender_workers 1) max_senders)"

definition shard_id :: "(destination \<Rightarrow> u64) \<Rightarrow> nat \<Rightarrow> destination \<Rightarrow> nat" where
  "shard_id hash chans dest = (if chans \<le> 1 then 0 else unat (hash dest) mod max chans 1)"

definition dispatch :: "(destination \<Rightarrow> u64) \<Rightarrow> msg \<Rightarrow> service \<Rightarrow> service_error + service" where
  "dispatch hash m s =
     (let shard = shard_id hash (length (channels s)) (msg_dest m)
      in if shard < length (channels s)
         then Inr (s\<lparr>channels := (channels s)[shard := channels s ! shard @ [m]]\<rparr>)
         else Inl (PanicErr ''missing sender worker channels''))"

fun dispatch_all :: "(destination \<Rightarrow> u64) \<Rightarrow> msg list \<Rightarrow> service \<Rightarrow> service_error + service" where
  "dispatch_all hash [] s = Inr s"
| "dispatch_all hash (m # ms) s = bindR (dispatch hash m s) (dispatch_all hash ms)"

text \<open>The steps the senders of PDUs and EDUs share: write the queue, then notify the workers.\<close>

definition send_requests :: "(destination \<Rightarrow> u64) \<Rightarrow> (sending_event \<times> destination) list \<Rightarrow> service \<Rightarrow> service_error + service" where
  "send_requests hash requests s =
     (case queue_requests requests (service_db s) of (keys, db) \<Rightarrow>
        dispatch_all hash (map (\<lambda>((event, dest), key). \<lparr>msg_dest = dest, msg_event = event, queue_id = key\<rparr>) (zip requests keys))
          (s\<lparr>service_db := db\<rparr>))"

definition send_pdu_push :: "(destination \<Rightarrow> u64) \<Rightarrow> raw_id \<Rightarrow> bytes \<Rightarrow> bytes \<Rightarrow> service \<Rightarrow> service_error + service" where
  "send_pdu_push hash pdu_id user pushkey s = send_requests hash [(SendPdu pdu_id, Push user pushkey)] s"

definition send_pdu_appservice :: "(destination \<Rightarrow> u64) \<Rightarrow> bytes \<Rightarrow> raw_id \<Rightarrow> service \<Rightarrow> service_error + service" where
  "send_pdu_appservice hash appservice_id pdu_id s = send_requests hash [(SendPdu pdu_id, Appservice appservice_id)] s"

definition send_pdu_servers :: "(destination \<Rightarrow> u64) \<Rightarrow> bytes list \<Rightarrow> raw_id \<Rightarrow> service \<Rightarrow> service_error + service" where
  "send_pdu_servers hash servers pdu_id s =
     send_requests hash (map (\<lambda>server. (SendPdu pdu_id, Federation server)) servers) s"

definition send_edu_server :: "(destination \<Rightarrow> u64) \<Rightarrow> bytes \<Rightarrow> bytes \<Rightarrow> service \<Rightarrow> service_error + service" where
  "send_edu_server hash server serialized s = send_requests hash [(SendEdu serialized, Federation server)] s"

definition send_edu_servers :: "(destination \<Rightarrow> u64) \<Rightarrow> bytes list \<Rightarrow> bytes \<Rightarrow> service \<Rightarrow> service_error + service" where
  "send_edu_servers hash servers serialized s =
     send_requests hash (map (\<lambda>server. (SendEdu serialized, Federation server)) servers) s"

definition flush_servers :: "(destination \<Rightarrow> u64) \<Rightarrow> bytes list \<Rightarrow> service \<Rightarrow> service_error + service" where
  "flush_servers hash servers s =
     dispatch_all hash (map (\<lambda>server. \<lparr>msg_dest = Federation server, msg_event = Flush, queue_id = []\<rparr>) servers) s"

text \<open>The servers of a room but the own one; \<open>ours\<close> is \<open>server_is_ours\<close>.\<close>

definition other_servers :: "id_rules \<Rightarrow> (bytes \<Rightarrow> bool) \<Rightarrow> cache_db \<Rightarrow> bytes \<Rightarrow> bytes list" where
  "other_servers R ours cache room_id = filter (\<lambda>server_name. \<not> ours server_name) (room_servers R cache room_id)"

definition send_pdu_room ::
  "id_rules \<Rightarrow> (destination \<Rightarrow> u64) \<Rightarrow> (bytes \<Rightarrow> bool) \<Rightarrow> cache_db \<Rightarrow> bytes \<Rightarrow> raw_id \<Rightarrow> service \<Rightarrow> service_error + service" where
  "send_pdu_room R hash ours cache room_id pdu_id s = send_pdu_servers hash (other_servers R ours cache room_id) pdu_id s"

definition send_edu_room ::
  "id_rules \<Rightarrow> (destination \<Rightarrow> u64) \<Rightarrow> (bytes \<Rightarrow> bool) \<Rightarrow> cache_db \<Rightarrow> bytes \<Rightarrow> bytes \<Rightarrow> service \<Rightarrow> service_error + service" where
  "send_edu_room R hash ours cache room_id serialized s = send_edu_servers hash (other_servers R ours cache room_id) serialized s"

definition flush_room ::
  "id_rules \<Rightarrow> (destination \<Rightarrow> u64) \<Rightarrow> (bytes \<Rightarrow> bool) \<Rightarrow> cache_db \<Rightarrow> bytes \<Rightarrow> service \<Rightarrow> service_error + service" where
  "flush_room R hash ours cache room_id s = flush_servers hash (other_servers R ours cache room_id) s"

definition cleanup_events :: "bytes option \<Rightarrow> bytes option \<Rightarrow> bytes option \<Rightarrow> sending_db \<Rightarrow> sending_db" where
  "cleanup_events appservice_id user_id push_key db =
     (case (appservice_id, user_id, push_key) of
        (None, Some user_id, Some push_key) \<Rightarrow> delete_all_requests_for (Push user_id push_key) db
      | (Some appservice_id, None, None) \<Rightarrow> delete_all_requests_for (Appservice appservice_id) db
      | _ \<Rightarrow> db)"

subsection \<open>Keys are read back\<close>

fun dest_ok :: "id_rules \<Rightarrow> destination \<Rightarrow> bool" where
  "dest_ok R (Federation server) \<longleftrightarrow> utf8_ok server \<and> server_name_ok R server \<and> take 1 server \<notin> {[0x2B], [0x24]}"
| "dest_ok R (Appservice name) \<longleftrightarrow> utf8_ok name"
| "dest_ok R (Push user pushkey) \<longleftrightarrow> utf8_ok user \<and> user_id_ok R user \<and> utf8_ok pushkey"

lemma split_sep_record:
  assumes "utf8_ok a"
  shows "split_sep (a @ 0xFF # rest) = (a, Some rest)"
proof -
  have "0xFF \<notin> set a \<Longrightarrow> split_sep (a @ 0xFF # rest) = (a, Some rest)"
    by (induction a) (auto simp: split_sep_def)
  then show ?thesis using utf8_ok_no_SEP [OF assms] by (simp add: SEP_def)
qed

lemma parse_key:
  assumes "dest_ok R d"
  shows "parse_servercurrentevent R (get_prefix d @ x) v = bindR (event_of x v) (\<lambda>e. Inr (d, e))"
proof (cases d)
  case (Federation server)
  have "take 1 (server @ 0xFF # x) \<noteq> [0x2B]" "take 1 (server @ 0xFF # x) \<noteq> [0x24]"
    using assms Federation by (cases server; auto)+
  then show ?thesis using assms Federation
    by (simp add: parse_servercurrentevent_def split_sep_record string_from_bytes_def)
qed (use assms in \<open>simp_all add: parse_servercurrentevent_def split_sep_record string_from_bytes_def\<close>)

lemma prefix_owner:
  assumes "dest_ok R a" and "dest_ok R b" and "get_prefix a @ x = get_prefix b @ y"
  shows "a = b"
  using parse_key [OF assms(1), of x "[0]"] parse_key [OF assms(2), of y "[0]"] assms(3) by (simp add: event_of_def)

lemma starts_with_iff: "starts_with p k \<longleftrightarrow> (\<exists>x. k = p @ x)"
  unfolding starts_with_def by (metis append_eq_conv_conj append_take_drop_id)

interpretation dest_keys: prefixed_keys "dest_ok R" "\<lambda>_ _. True" get_prefix "\<lambda>d x. get_prefix d @ x" for R
  by unfold_locales (auto simp: starts_with_iff dest: prefix_owner)

text \<open>
  A request for an event as the queue and the worker know it: its destination, key and event. A PDU's key
  ends with its position, an EDU's with a number of the global counter.
\<close>

type_synonym request = "destination \<times> bytes \<times> sending_event"

fun request_ok :: "id_rules \<Rightarrow> request \<Rightarrow> bool" where
  "request_ok R (d, k, SendPdu raw) \<longleftrightarrow> dest_ok R d \<and> raw_id_ok raw \<and> k = get_prefix d @ raw_as_bytes raw"
| "request_ok R (d, k, SendEdu v) \<longleftrightarrow> dest_ok R d \<and> v \<noteq> [] \<and> (\<exists>n. k = get_prefix d @ to_be_bytes n)"
| "request_ok R (d, k, Flush) \<longleftrightarrow> False"

lemma raw_id_of_bytes: "raw_id_ok raw \<Longrightarrow> raw_id_from_bytes (raw_as_bytes raw) = Some raw"
  by (cases raw) (auto simp: raw_id_from_bytes_def)

lemma request_ok_dest: "request_ok R (d, k, e) \<Longrightarrow> dest_ok R d"
  by (cases e) auto

lemma request_ok_key: "request_ok R (d, k, e) \<Longrightarrow> \<exists>x. k = get_prefix d @ x"
  by (cases e) auto

lemma get_prefix_not_Nil [simp]: "get_prefix d \<noteq> []"
  by (cases d) auto

lemma request_ok_not_Nil: "request_ok R (d, k, e) \<Longrightarrow> k \<noteq> []"
  using request_ok_key by fastforce

lemma parse_request: "request_ok R (d, k, e) \<Longrightarrow> parse_servercurrentevent R k (event_value e) = Inr (d, e)"
  by (cases e) (auto simp: parse_key event_of_def raw_id_of_bytes)

lemma parse_entry_request: "request_ok R (d, k, e) \<Longrightarrow> parse_entry R (k, event_value e) = Inr (d, e)"
  by (simp add: parse_entry_def parse_request)

lemma request_prefix: "request_ok R (d, k, e) \<Longrightarrow> dest_ok R d' \<Longrightarrow> starts_with (get_prefix d') k \<longleftrightarrow> d = d'"
  using request_ok_key [of R d k e] request_ok_dest [of R d k e] dest_keys.key_prefix by auto

subsection \<open>The tables hold requests\<close>

text \<open>
  \<open>T\<close> are the requests that were ever made. Each entry of a table is one of them, and a key stands for one event.
\<close>

definition requests_ok :: "id_rules \<Rightarrow> request set \<Rightarrow> bool" where
  "requests_ok R T \<longleftrightarrow> (\<forall>r \<in> T. request_ok R r)
     \<and> (\<forall>d k e d' e'. (d, k, e) \<in> T \<longrightarrow> (d', k, e') \<in> T \<longrightarrow> e = e')"

definition entries_ok :: "request set \<Rightarrow> bytes column \<Rightarrow> bool" where
  "entries_ok T t \<longleftrightarrow> column_ok t \<and> (\<forall>(k, v) \<in> set t. \<exists>d e. (d, k, e) \<in> T \<and> v = event_value e)"

definition holds_request :: "bytes column \<Rightarrow> bytes \<Rightarrow> sending_event \<Rightarrow> bool" where
  "holds_request t k e \<longleftrightarrow> map_of t k = Some (event_value e)"

definition sending_db_ok :: "id_rules \<Rightarrow> request set \<Rightarrow> sending_db \<Rightarrow> bool" where
  "sending_db_ok R T db \<longleftrightarrow> requests_ok R T
     \<and> entries_ok T (servercurrentevent_data db) \<and> entries_ok T (servernameevent_data db)"

lemma requests_okD: "requests_ok R T \<Longrightarrow> (d, k, e) \<in> T \<Longrightarrow> request_ok R (d, k, e)"
  by (auto simp: requests_ok_def)

lemma requests_ok_event: "requests_ok R T \<Longrightarrow> (d, k, e) \<in> T \<Longrightarrow> (d', k, e') \<in> T \<Longrightarrow> e = e'"
  unfolding requests_ok_def by blast

lemma requests_ok_dest:
  assumes "requests_ok R T" and "(d, k, e) \<in> T" and "(d', k, e') \<in> T"
  shows "d = d'"
proof -
  have r: "request_ok R (d, k, e)" "request_ok R (d', k, e')" using assms requests_okD by blast+
  then show ?thesis using request_prefix [OF r(1), of d'] request_prefix [OF r(2), of d'] request_ok_dest by blast
qed

lemma entries_ok_column: "entries_ok T t \<Longrightarrow> column_ok t"
  by (simp add: entries_ok_def)

lemma entries_ok_insert:
  assumes "entries_ok T t" and "(d, k, e) \<in> T"
  shows "entries_ok T (col_insert k (event_value e) t)"
proof -
  have "x \<in> set (col_insert k v t) \<Longrightarrow> x = (k, v) \<or> x \<in> set t" for x v
    by (induction k v t rule: col_insert.induct) (auto split: if_splits)
  then show ?thesis using assms by (fastforce simp: entries_ok_def)
qed

lemma entries_ok_remove: "entries_ok T t \<Longrightarrow> entries_ok T (col_remove k t)"
  by (auto simp: entries_ok_def col_remove_def)

lemma entries_ok_removes: "entries_ok T t \<Longrightarrow> entries_ok T (fold col_remove ks t)"
  by (induction ks arbitrary: t) (auto simp: entries_ok_remove)

lemma entries_ok_mono: "entries_ok T t \<Longrightarrow> T \<subseteq> T' \<Longrightarrow> entries_ok T' t"
  by (fastforce simp: entries_ok_def)

text \<open>A scan for a destination finds the requests for it.\<close>

lemma scan_requests:
  assumes "requests_ok R T" and "entries_ok T t" and "dest_ok R d"
  shows "(k, v) \<in> set (raw_stream_prefix t (get_prefix d)) \<longleftrightarrow> (\<exists>e. (d, k, e) \<in> T \<and> v = event_value e \<and> holds_request t k e)"
proof -
  have col: "column_ok t" using assms(2) by (rule entries_ok_column)
  have "(k, v) \<in> set (raw_stream_prefix t (get_prefix d)) \<longleftrightarrow> (k, v) \<in> set t \<and> starts_with (get_prefix d) k"
    by (auto simp: raw_stream_prefix_eq [OF col])
  also have "\<dots> \<longleftrightarrow> (\<exists>e. (d, k, e) \<in> T \<and> v = event_value e \<and> holds_request t k e)"
    using assms request_prefix [OF requests_okD [OF assms(1)] assms(3)]
    by (fastforce simp: entries_ok_def holds_request_def column_entry [OF col, symmetric])
  finally show ?thesis .
qed

lemma parse_requests:
  assumes "requests_ok R T" and "\<forall>(k, v) \<in> set xs. \<exists>e. (d, k, e) \<in> T \<and> v = event_value e"
  shows "\<exists>ys. mapR (\<lambda>kv. bindR (parse_entry R kv) (\<lambda>(_, event). Inr (fst kv, event))) xs = Inr ys
    \<and> map (\<lambda>(k, e). (k, event_value e)) ys = xs \<and> (\<forall>(k, e) \<in> set ys. (d, k, e) \<in> T)"
  using assms(2)
proof (induction xs)
  case (Cons kv xs)
  obtain k v where kv: "kv = (k, v)" by (cases kv)
  then obtain e where e: "(d, k, e) \<in> T" "v = event_value e" using Cons.prems by auto
  obtain ys where ys: "mapR (\<lambda>kv. bindR (parse_entry R kv) (\<lambda>(_, event). Inr (fst kv, event))) xs = Inr ys"
      "map (\<lambda>(k, e). (k, event_value e)) ys = xs" "\<forall>(k, e) \<in> set ys. (d, k, e) \<in> T"
    using Cons by auto
  then show ?case using kv e parse_entry_request [OF requests_okD [OF assms(1) e(1)]]
    by (intro exI [of _ "(k, e) # ys"]) simp
qed simp

lemma scanned_requests:
  assumes "requests_ok R T" and "entries_ok T t" and "dest_ok R d" and "set xs \<subseteq> set (raw_stream_prefix t (get_prefix d))"
  shows "\<exists>ys. mapR (\<lambda>kv. bindR (parse_entry R kv) (\<lambda>(_, event). Inr (fst kv, event))) xs = Inr ys
    \<and> map (\<lambda>(k, e). (k, event_value e)) ys = xs \<and> (\<forall>(k, e) \<in> set ys. (d, k, e) \<in> T \<and> holds_request t k e)"
proof -
  let ?T = "{(d, k, e). (d, k, e) \<in> T \<and> holds_request t k e}"
  have ok: "requests_ok R ?T" using assms(1) unfolding requests_ok_def by blast
  have "\<forall>(k, v) \<in> set xs. \<exists>e. (d, k, e) \<in> ?T \<and> v = event_value e"
    using scan_requests [OF assms(1-3)] assms(4) by fast
  from parse_requests [OF ok this] show ?thesis by simp
qed

lemma active_requests_for_ok:
  assumes "sending_db_ok R T db" and "dest_ok R d"
  shows "\<exists>ys. active_requests_for R db d = Inr ys
    \<and> set ys = {(k, e). (d, k, e) \<in> T \<and> holds_request (servercurrentevent_data db) k e}"
proof -
  let ?t = "servercurrentevent_data db" and ?xs = "raw_stream_prefix (servercurrentevent_data db) (get_prefix d)"
  have ok: "requests_ok R T" "entries_ok T ?t" using assms(1) by (auto simp: sending_db_ok_def)
  from scanned_requests [OF ok assms(2) subset_refl]
  obtain ys where ys: "active_requests_for R db d = Inr ys" "map (\<lambda>(k, e). (k, event_value e)) ys = ?xs"
      "\<forall>(k, e) \<in> set ys. (d, k, e) \<in> T \<and> holds_request ?t k e"
    unfolding active_requests_for_def requests_for_def by blast
  have "(k, e) \<in> set ys" if a: "(d, k, e) \<in> T" "holds_request ?t k e" for k e
  proof -
    have "(k, event_value e) \<in> set ?xs" using scan_requests [OF ok assms(2), of k "event_value e"] a by blast
    then have "k \<in> fst ` (\<lambda>(k, e). (k, event_value e)) ` set ys" unfolding ys(2) [symmetric] set_map by force
    then obtain e' where "(k, e') \<in> set ys" by auto
    then show ?thesis using requests_ok_event [OF ok(1)] ys(3) a(1) by blast
  qed
  then have "set ys = {(k, e). (d, k, e) \<in> T \<and> holds_request ?t k e}" using ys(3) by auto
  then show ?thesis using ys(1) by blast
qed

lemma queued_requests_ok:
  assumes "sending_db_ok R T db" and "dest_ok R d"
  shows "\<exists>ys. queued_requests_take R n db d = Inr ys
    \<and> (\<forall>(k, e) \<in> set ys. (d, k, e) \<in> T \<and> holds_request (servernameevent_data db) k e)
    \<and> map fst ys = take n (raw_keys_prefix (servernameevent_data db) (get_prefix d))"
proof -
  let ?t = "servernameevent_data db" and ?xs = "take n (raw_stream_prefix (servernameevent_data db) (get_prefix d))"
  have ok: "requests_ok R T" "entries_ok T ?t" using assms(1) by (auto simp: sending_db_ok_def)
  from scanned_requests [OF ok assms(2) set_take_subset]
  obtain ys where ys: "queued_requests_take R n db d = Inr ys" "map (\<lambda>(k, e). (k, event_value e)) ys = ?xs"
      "\<forall>(k, e) \<in> set ys. (d, k, e) \<in> T \<and> holds_request ?t k e"
    unfolding queued_requests_take_def by blast
  have "map fst ys = map fst ?xs" unfolding ys(2) [symmetric] map_map by (rule map_cong) auto
  then show ?thesis using ys(1,3) by (auto simp: raw_keys_prefix_def take_map)
qed

text \<open>Moving and deleting requests.\<close>

lemma holds_insert:
  assumes "requests_ok R T" and "column_ok t" and "(d, k, e) \<in> T" and "(d', k', e') \<in> T"
  shows "holds_request (col_insert k' (event_value e') t) k e \<longleftrightarrow> (k, e) = (k', e') \<or> holds_request t k e"
  using assms requests_ok_event [OF assms(1), of d k e d' e'] by (auto simp: holds_request_def)

lemma mark_one_active_ok:
  assumes "sending_db_ok R T db" and "(d', k', e') \<in> T"
  shows "sending_db_ok R T (mark_one_active (k', e') db)"
    and "(d, k, e) \<in> T \<Longrightarrow> holds_request (servercurrentevent_data (mark_one_active (k', e') db)) k e
      \<longleftrightarrow> (k, e) = (k', e') \<or> holds_request (servercurrentevent_data db) k e"
    and "map_of (servernameevent_data (mark_one_active (k', e') db)) k = (if k = k' then None else map_of (servernameevent_data db) k)"
    and "snd_short (mark_one_active (k', e') db) = snd_short db"
  using assms entries_ok_insert [of T _ d' k' e'] holds_insert [of R T _ d k e d' k' e'] entries_ok_column
  by (auto simp: mark_one_active_def sending_db_ok_def entries_ok_remove)

lemma mark_as_active_ok:
  assumes "sending_db_ok R T db" and "\<forall>(k, e) \<in> set ys. \<exists>d. (d, k, e) \<in> T"
  shows "sending_db_ok R T (mark_as_active ys db)"
    and "(d, k, e) \<in> T \<Longrightarrow> holds_request (servercurrentevent_data (mark_as_active ys db)) k e
      \<longleftrightarrow> (k, e) \<in> set ys \<or> holds_request (servercurrentevent_data db) k e"
    and "map_of (servernameevent_data (mark_as_active ys db)) k
      = (if k \<in> fst ` set ys then None else map_of (servernameevent_data db) k)"
    and "snd_short (mark_as_active ys db) = snd_short db"
proof -
  have "filter (\<lambda>(k, _). k \<noteq> []) ys = ys"
    using assms request_ok_not_Nil requests_okD by (fastforce simp: sending_db_ok_def intro: filter_True)
  then have eq: "mark_as_active ys db = fold mark_one_active ys db" by (simp add: mark_as_active_def)
  have "sending_db_ok R T (fold mark_one_active ys db)
    \<and> (\<forall>d k e. (d, k, e) \<in> T \<longrightarrow> holds_request (servercurrentevent_data (fold mark_one_active ys db)) k e
        = ((k, e) \<in> set ys \<or> holds_request (servercurrentevent_data db) k e))
    \<and> (\<forall>k. map_of (servernameevent_data (fold mark_one_active ys db)) k
        = (if k \<in> fst ` set ys then None else map_of (servernameevent_data db) k))
    \<and> snd_short (fold mark_one_active ys db) = snd_short db"
    using assms
  proof (induction ys arbitrary: db)
    case (Cons y ys)
    obtain k' e' where y: "y = (k', e')" by (cases y)
    then obtain d' where d': "(d', k', e') \<in> T" using Cons.prems(2) by auto
    note one = mark_one_active_ok [OF Cons.prems(1) d']
    show ?case using Cons.IH [OF one(1)] Cons.prems(2) one(2-4) y by auto
  qed auto
  then show "sending_db_ok R T (mark_as_active ys db)"
    and "(d, k, e) \<in> T \<Longrightarrow> holds_request (servercurrentevent_data (mark_as_active ys db)) k e
      \<longleftrightarrow> (k, e) \<in> set ys \<or> holds_request (servercurrentevent_data db) k e"
    and "map_of (servernameevent_data (mark_as_active ys db)) k
      = (if k \<in> fst ` set ys then None else map_of (servernameevent_data db) k)"
    and "snd_short (mark_as_active ys db) = snd_short db"
    unfolding eq by blast+
qed

lemma mark_as_active_Nil [simp]: "mark_as_active [([], e)] db = db"
  by (simp add: mark_as_active_def)

lemma holds_removes:
  assumes "requests_ok R T" and "column_ok t" and "(d, k, e) \<in> T" and "dest_ok R d'"
  shows "holds_request (fold col_remove (raw_keys_prefix t (get_prefix d')) t) k e \<longleftrightarrow> d \<noteq> d' \<and> holds_request t k e"
proof -
  obtain x where k: "k = get_prefix d @ x" and d: "dest_ok R d"
    using requests_okD [OF assms(1,3)] request_ok_key request_ok_dest by blast
  show ?thesis using dest_keys.remove_owner [OF assms(2,4) d, of x] by (auto simp: holds_request_def k)
qed

lemma delete_all_active_ok:
  assumes "sending_db_ok R T db" and "dest_ok R d'"
  shows "sending_db_ok R T (delete_all_active_requests_for d' db)"
    and "(d, k, e) \<in> T \<Longrightarrow> holds_request (servercurrentevent_data (delete_all_active_requests_for d' db)) k e
      \<longleftrightarrow> d \<noteq> d' \<and> holds_request (servercurrentevent_data db) k e"
    and "servernameevent_data (delete_all_active_requests_for d' db) = servernameevent_data db"
    and "snd_short (delete_all_active_requests_for d' db) = snd_short db"
  using assms holds_removes [of R T _ d k e d'] entries_ok_column
  by (auto simp: delete_all_active_requests_for_def sending_db_ok_def entries_ok_removes)

subsection \<open>New requests\<close>

text \<open>The numbers in the keys of EDUs were drawn from the counter.\<close>

definition counts_ok :: "request set \<Rightarrow> u64 \<Rightarrow> bool" where
  "counts_ok T c \<longleftrightarrow> (\<forall>d k v. (d, k, SendEdu v) \<in> T \<longrightarrow> (\<exists>n \<le> c. k = get_prefix d @ to_be_bytes n))"

fun sendable :: "id_rules \<Rightarrow> sending_event \<times> destination \<Rightarrow> bool" where
  "sendable R (SendPdu raw, d) \<longleftrightarrow> dest_ok R d \<and> raw_id_ok raw"
| "sendable R (SendEdu v, d) \<longleftrightarrow> dest_ok R d \<and> v \<noteq> []"
| "sendable R (Flush, d) \<longleftrightarrow> False"

text \<open>The requests that \<open>queue_requests\<close> makes of its arguments and the keys it returns.\<close>

definition made_requests :: "bytes list \<Rightarrow> (sending_event \<times> destination) list \<Rightarrow> request set" where
  "made_requests keys reqs = (\<lambda>(key, event, dest). (dest, key, event)) ` set (zip keys reqs)"

lemma made_requests_Cons [simp]:
  "made_requests (key # keys) ((event, dest) # reqs) = insert (dest, key, event) (made_requests keys reqs)"
  by (simp add: made_requests_def)

lemma count_no_position: "raw_id_from_bytes (to_be_bytes n) = None"
  by (simp add: raw_id_from_bytes_def)

lemma request_position:
  "request_ok R (d, get_prefix d @ x, e) \<Longrightarrow> raw_id_from_bytes x = (case e of SendPdu raw \<Rightarrow> Some raw | _ \<Rightarrow> None)"
  by (cases e) (auto simp: raw_id_of_bytes count_no_position)

lemma same_key:
  assumes "request_ok R (d, k, e)" and "request_ok R (d', k, e')"
  shows "(\<exists>raw. e = SendPdu raw \<and> e' = SendPdu raw) \<or> (\<exists>v v'. e = SendEdu v \<and> e' = SendEdu v')"
proof -
  have dd: "d' = d" using request_prefix [OF assms(1), of d'] request_prefix [OF assms(2), of d'] request_ok_dest assms by blast
  obtain x where k: "k = get_prefix d @ x" using request_ok_key [OF assms(1)] by blast
  have "raw_id_from_bytes x = (case e of SendPdu raw \<Rightarrow> Some raw | _ \<Rightarrow> None)" using assms(1) unfolding k by (rule request_position)
  moreover have "raw_id_from_bytes x = (case e' of SendPdu raw \<Rightarrow> Some raw | _ \<Rightarrow> None)"
    using assms(2) unfolding k dd by (rule request_position)
  moreover have "e \<noteq> Flush" "e' \<noteq> Flush" using assms by auto
  ultimately show ?thesis by (cases e; cases e') simp_all
qed

lemma add_request:
  assumes "requests_ok R T" and "request_ok R (d, k, e)" and "\<And>d' v'. (d', k, SendEdu v') \<in> T \<Longrightarrow> \<exists>raw. e = SendPdu raw"
  shows "requests_ok R (insert (d, k, e) T)"
proof -
  have "e = e'" if "(d', k, e') \<in> T" for d' e'
    using same_key [OF assms(2) requests_okD [OF assms(1) that]] assms(3) that by auto
  then show ?thesis using assms(1,2) unfolding requests_ok_def by blast
qed

lemma new_request:
  assumes "requests_ok R T" and "counts_ok T (counter sdb)" and "sendable R (e, d)" and "Suc (unat (counter sdb)) < 2 ^ 64"
    and "(case e of SendPdu value \<Rightarrow> (get_prefix d @ raw_as_bytes value, sdb)
       | _ \<Rightarrow> (case next_count sdb of (n, sdb) \<Rightarrow> (get_prefix d @ to_be_bytes n, sdb))) = (k, sdb')"
  shows "requests_ok R (insert (d, k, e) T)" and "counts_ok (insert (d, k, e) T) (counter sdb')"
    and "unat (counter sdb') \<le> Suc (unat (counter sdb))"
proof -
  have ne: "counter sdb \<noteq> - 1" using assms(4) by (auto simp: unsigned_minus_1_eq_mask mask_eq_exp_minus_1)
  have c: "unat (counter sdb + 1) = Suc (unat (counter sdb))" using assms(4) by (simp add: unat_word_ariths)
  have grow: "counter sdb \<le> counter sdb + 1" "\<not> counter sdb + 1 \<le> counter sdb" using c by (auto simp: word_le_nat_alt)
  have ok: "request_ok R (d, k, e)" using assms(3,5) by (cases e) (auto split: prod.splits)
  have fresh: "\<exists>raw. e = SendPdu raw" if "(d', k, SendEdu v') \<in> T" for d' v'
  proof (rule ccontr)
    assume "\<nexists>raw. e = SendPdu raw"
    then have k: "k = get_prefix d @ to_be_bytes (counter sdb + 1)" and d: "dest_ok R d"
      using assms(3,5) by (cases e; auto simp: next_count_eq [OF ne])+
    obtain n where n: "n \<le> counter sdb" "k = get_prefix d' @ to_be_bytes n" using assms(2) \<open>(d', k, SendEdu v') \<in> T\<close> by (auto simp: counts_ok_def)
    have "d = d'" using k n(2) prefix_owner [of R d d'] d request_ok_dest [OF requests_okD [OF assms(1) that]] by metis
    then have "n = counter sdb + 1" using k n(2) by simp
    then show False using n(1) grow(2) by simp
  qed
  show "requests_ok R (insert (d, k, e) T)" by (rule add_request [OF assms(1) ok fresh])
  have "counter sdb \<le> counter sdb'" "unat (counter sdb') \<le> Suc (unat (counter sdb))"
    using assms(5) grow c by (cases e; auto simp: next_count_eq [OF ne])+
  moreover have "e = SendEdu v \<Longrightarrow> k = get_prefix d @ to_be_bytes (counter sdb')" for v
    using assms(5) by (auto simp: next_count_eq [OF ne])
  ultimately show "counts_ok (insert (d, k, e) T) (counter sdb')" "unat (counter sdb') \<le> Suc (unat (counter sdb))"
    using assms(2) unfolding counts_ok_def by (fastforce dest: order_trans)+
qed

lemma request_keys_ok:
  assumes "requests_ok R T" and "counts_ok T (counter sdb)" and "\<forall>r \<in> set reqs. sendable R r"
    and "unat (counter sdb) + length reqs < 2 ^ 64" and "request_keys reqs sdb = (keys, sdb')"
  shows "requests_ok R (T \<union> made_requests keys reqs)" and "counts_ok (T \<union> made_requests keys reqs) (counter sdb')"
    and "length keys = length reqs"
proof -
  have "requests_ok R (T \<union> made_requests keys reqs) \<and> counts_ok (T \<union> made_requests keys reqs) (counter sdb')
      \<and> length keys = length reqs"
    using assms
  proof (induction reqs arbitrary: T sdb keys)
    case Nil
    then show ?case by (simp add: made_requests_def)
  next
    case (Cons r reqs)
    obtain e d where r: "r = (e, d)" by (cases r)
    obtain k sdb1 where k: "(case e of SendPdu value \<Rightarrow> (get_prefix d @ raw_as_bytes value, sdb)
         | _ \<Rightarrow> (case next_count sdb of (n, sdb) \<Rightarrow> (get_prefix d @ to_be_bytes n, sdb))) = (k, sdb1)"
      using prod.exhaust by blast
    obtain ks where ks: "request_keys reqs sdb1 = (ks, sdb')" "keys = k # ks"
      using Cons.prems(5) unfolding r request_keys.simps k by (auto split: prod.splits)
    have s: "sendable R (e, d)" and l: "Suc (unat (counter sdb)) < 2 ^ 64" using Cons.prems(3,4) r by auto
    note one = new_request [OF Cons.prems(1,2) s l k]
    have l1: "unat (counter sdb1) + length reqs < 2 ^ 64" using one(3) Cons.prems(4) by simp
    have "\<forall>r \<in> set reqs. sendable R r" using Cons.prems(3) by simp
    from Cons.IH [OF one(1,2) this l1 ks(1)] show ?case using r ks(2) by simp
  qed
  then show "requests_ok R (T \<union> made_requests keys reqs)" and "counts_ok (T \<union> made_requests keys reqs) (counter sdb')"
    and "length keys = length reqs" by blast+
qed

lemma queue_inserts:
  assumes "requests_ok R T" and "entries_ok T t" and "\<forall>(k, e, d) \<in> set xs. (d, k, e) \<in> T"
  shows "entries_ok T (fold (\<lambda>(key, event, _). col_insert key (event_value event)) xs t)
    \<and> (\<forall>d k e. (d, k, e) \<in> T \<longrightarrow> holds_request (fold (\<lambda>(key, event, _). col_insert key (event_value event)) xs t) k e
        = ((k, e, d) \<in> set xs \<or> holds_request t k e))"
  using assms(2,3)
proof (induction xs arbitrary: t)
  case (Cons x xs)
  obtain k' e' d' where x: "x = (k', e', d')" by (cases x)
  then have T: "(d', k', e') \<in> T" using Cons.prems(2) by simp
  let ?t = "col_insert k' (event_value e') t"
  have ok: "entries_ok T ?t" by (rule entries_ok_insert [OF Cons.prems(1) T])
  have "holds_request ?t k e \<longleftrightarrow> (k, e, d) = x \<or> holds_request t k e" if "(d, k, e) \<in> T" for d k e
    using holds_insert [OF assms(1) entries_ok_column [OF Cons.prems(1)] that T] requests_ok_dest [OF assms(1) that] T x by auto
  then show ?case using Cons.IH [OF ok] Cons.prems(2) x by auto
qed simp

lemma entries_request:
  assumes "entries_ok T t" and "T \<subseteq> T'" and "requests_ok R T'" and "(d, k, e) \<in> T'" and "holds_request t k e"
  shows "(d, k, e) \<in> T"
proof -
  have "(k, event_value e) \<in> set t" using assms(5) by (auto simp: holds_request_def dest: map_of_SomeD)
  then obtain d' e' where "(d', k, e') \<in> T" using assms(1) by (fastforce simp: entries_ok_def)
  then show ?thesis using requests_ok_event [OF assms(3,4)] requests_ok_dest [OF assms(3,4)] assms(2) by blast
qed

lemma queue_requests_ok:
  assumes "sending_db_ok R T db" and "counts_ok T (counter (snd_short db))" and "\<forall>r \<in> set reqs. sendable R r"
    and "unat (counter (snd_short db)) + length reqs < 2 ^ 64" and "queue_requests reqs db = (keys, db')"
    and "T' = T \<union> made_requests keys reqs"
  shows "sending_db_ok R T' db'" and "counts_ok T' (counter (snd_short db'))" and "length keys = length reqs"
    and "servercurrentevent_data db' = servercurrentevent_data db"
    and "(d, k, e) \<in> T' \<Longrightarrow> holds_request (servernameevent_data db') k e
      \<longleftrightarrow> (d, k, e) \<in> made_requests keys reqs \<or> holds_request (servernameevent_data db) k e"
proof -
  obtain sdb' where sdb': "request_keys reqs (snd_short db) = (keys, sdb')"
      "db' = db\<lparr>snd_short := sdb', servernameevent_data := fold (\<lambda>(key, event, _). col_insert key (event_value event)) (zip keys reqs)
             (servernameevent_data db)\<rparr>"
    using assms(5) by (auto simp: queue_requests_def split: prod.splits)
  note ok = assms(1) [unfolded sending_db_ok_def]
  have keys: "requests_ok R T'" "counts_ok T' (counter sdb')" "length keys = length reqs"
    using request_keys_ok [OF _ assms(2-4) sdb'(1)] ok unfolding assms(6) by blast+
  have all: "\<forall>(k, e, d) \<in> set (zip keys reqs). (d, k, e) \<in> T'" by (auto simp: assms(6) made_requests_def intro: rev_image_eqI)
  have old: "entries_ok T' (servernameevent_data db)" "entries_ok T' (servercurrentevent_data db)"
    using ok entries_ok_mono [of T _ T'] assms(6) by blast+
  note ins = queue_inserts [OF keys(1) old(1) all]
  show "sending_db_ok R T' db'" using keys ins old sdb'(2) by (simp add: sending_db_ok_def)
  show "counts_ok T' (counter (snd_short db'))" "length keys = length reqs"
    "servercurrentevent_data db' = servercurrentevent_data db" using keys sdb'(2) by simp_all
  have "(d, k, e) \<in> made_requests keys reqs \<longleftrightarrow> (k, e, d) \<in> set (zip keys reqs)" by (force simp: made_requests_def)
  then show "(d, k, e) \<in> T' \<Longrightarrow> holds_request (servernameevent_data db') k e
      \<longleftrightarrow> (d, k, e) \<in> made_requests keys reqs \<or> holds_request (servernameevent_data db) k e"
    using ins sdb'(2) by simp
qed

subsection \<open>Round trip and pause\<close>

text \<open>The keys and values that \<open>queue_requests\<close> stores are read back as the destinations and events they
  were made for, in order, one key for each.\<close>
lemma queued_requests_roundtrip:
  assumes "\<forall>r \<in> set reqs. sendable R r"
  shows "map (\<lambda>(key, event, _). parse_servercurrentevent R key (event_value event))
      (zip (fst (queue_requests reqs db)) reqs) = map (\<lambda>(event, dest). Inr (dest, event)) reqs"
proof -
  have "map (\<lambda>(key, event, _). parse_servercurrentevent R key (event_value event)) (zip (fst (request_keys reqs sdb)) reqs)
      = map (\<lambda>(event, dest). Inr (dest, event)) reqs" for sdb
    using assms
  proof (induction reqs arbitrary: sdb)
    case (Cons r reqs)
    obtain e d where r: "r = (e, d)" by (cases r)
    obtain k sdb1 where k: "(case e of SendPdu value \<Rightarrow> (get_prefix d @ raw_as_bytes value, sdb)
         | _ \<Rightarrow> (case next_count sdb of (n, sdb) \<Rightarrow> (get_prefix d @ to_be_bytes n, sdb))) = (k, sdb1)"
      using prod.exhaust by blast
    have "request_ok R (d, k, e)" using Cons.prems k r by (cases e) (auto split: prod.splits)
    moreover have "fst (request_keys (r # reqs) sdb) = k # fst (request_keys reqs sdb1)"
      unfolding r request_keys.simps k by (simp split: prod.split)
    ultimately show ?case using Cons parse_request r by simp
  qed simp
  then show ?thesis by (simp add: queue_requests_def split: prod.split) (metis fst_conv)
qed

definition empty_sending_db :: sending_db where
  "empty_sending_db = \<lparr>snd_short = new_db, servercurrentevent_data = [], servernameevent_data = [], servername_educount = Map.empty\<rparr>"

text \<open>C28. The pause after \<open>tries\<close> failures is the configured minimum times the square of \<open>tries\<close>, at most the
  configured maximum, to the nanosecond: the saturating multiplications never make it shorter.\<close>
theorem backoff_exact:
  "continue_exponential_backoff_secs mn mx elapsed tries
    \<longleftrightarrow> elapsed < 10 ^ 9 * min (unat mn * (unat tries)\<^sup>2) (unat mx)"
proof -
  have mx: "from_secs mx \<le> DURATION_MAX"
  proof -
    have "unat mx < 2 ^ LENGTH(64)" by (rule unsigned_less)
    then have "unat mx \<le> 2 ^ 64 - 1" by simp
    then show ?thesis unfolding from_secs_def DURATION_MAX_def by (intro trans_le_add1 mult_le_mono1)
  qed
  have "min (saturating_mul (saturating_mul a tries) tries) b = min (a * unat tries * unat tries) b" if "b \<le> DURATION_MAX" for a b
  proof (cases "a * unat tries \<le> DURATION_MAX")
    case True
    then show ?thesis using that by (auto simp: saturating_mul_def min_def)
  next
    case False
    then have t: "1 \<le> unat tries" by (cases "unat tries") auto
    have "DURATION_MAX * 1 \<le> DURATION_MAX * unat tries" "a * unat tries * 1 \<le> a * unat tries * unat tries"
      using t by (intro mult_le_mono2; simp)+
    then have "b \<le> DURATION_MAX * unat tries" "b \<le> a * unat tries * unat tries" using False that by linarith+
    then show ?thesis using False that by (auto simp: saturating_mul_def min_def)
  qed
  from this [OF mx, of "from_secs mn"]
  have "continue_exponential_backoff_secs mn mx elapsed tries
      \<longleftrightarrow> elapsed < min (unat mn * (unat tries)\<^sup>2 * 10 ^ 9) (unat mx * 10 ^ 9)"
    unfolding continue_exponential_backoff_secs_def continue_exponential_backoff_def
    by (simp only: from_secs_def power2_eq_square mult.assoc mult.commute mult.left_commute)
  moreover have "min (a * 10 ^ 9) (b * 10 ^ 9) = 10 ^ 9 * min a b" for a b :: nat by (simp add: min_def)
  ultimately show ?thesis by (simp only:)
qed

end
