(* ===== verification/SendingRun.thy ===== *)
theory SendingRun
  imports Sending
begin

text \<open>
  Runs of the sending service: the workers start, take messages from their channels, see transactions succeed
  or fail, and stop, in any order, while other services send. Each handler is one step. A history records the
  requests that were made, the events of successful transactions and the requests that were discarded.
\<close>

subsection \<open>What holds for a destination\<close>

definition in_flight :: "flight list \<Rightarrow> destination \<Rightarrow> flight list" where
  "in_flight fs d = filter (\<lambda>f. fst f = d) fs"

text \<open>
  A destination has a transaction in flight exactly when its status says so; then the transaction has all
  its active requests. Without a status it has none.
\<close>

definition flight_ok ::
  "request set \<Rightarrow> bytes column \<Rightarrow> transaction_status option \<Rightarrow> flight list \<Rightarrow> destination \<Rightarrow> bool" where
  "flight_ok T act st fs d \<longleftrightarrow>
     (case st of
        None \<Rightarrow> in_flight fs d = [] \<and> (\<forall>k e. (d, k, e) \<in> T \<longrightarrow> \<not> holds_request act k e)
      | Some (Failed _ _) \<Rightarrow> in_flight fs d = []
      | Some _ \<Rightarrow> (\<exists>evs. in_flight fs d = [(d, evs)] \<and> (\<forall>k e. (d, k, e) \<in> T \<longrightarrow> holds_request act k e \<longrightarrow> e \<in> set evs)))"

definition pending :: "sending_db \<Rightarrow> bytes \<Rightarrow> sending_event \<Rightarrow> bool" where
  "pending db k e \<longleftrightarrow> holds_request (servercurrentevent_data db) k e \<or> holds_request (servernameevent_data db) k e"

text \<open>
  What a handler does for a destination \<open>d\<close> leaves the others alone, and only requests whose events are in
  \<open>dlv\<close> disappear. Of the requests made, those in \<open>F\<close> are followed: once active, they stay in the transaction.
\<close>

definition handled ::
  "id_rules \<Rightarrow> request set \<Rightarrow> request set \<Rightarrow> destination \<Rightarrow> (destination \<times> sending_event) set \<Rightarrow> worker \<Rightarrow> worker \<Rightarrow> bool" where
  "handled R T F d dlv w w' \<longleftrightarrow> sending_db_ok R T (wdb w') \<and> snd_short (wdb w') = snd_short (wdb w)
     \<and> (\<forall>d'. d' \<noteq> d \<longrightarrow> statuses w' d' = statuses w d' \<and> in_flight (futures w') d' = in_flight (futures w) d')
     \<and> (\<forall>d' k e. (d', k, e) \<in> T \<longrightarrow> d' \<noteq> d \<longrightarrow>
          holds_request (servercurrentevent_data (wdb w')) k e = holds_request (servercurrentevent_data (wdb w)) k e)
     \<and> (\<forall>d' k e. (d', k, e) \<in> T \<longrightarrow> pending (wdb w) k e \<longrightarrow> pending (wdb w') k e \<or> (d', e) \<in> dlv)
     \<and> flight_ok F (servercurrentevent_data (wdb w')) (statuses w' d) (futures w') d"

lemma in_flight_append [simp]: "in_flight (fs @ gs) d = in_flight fs d @ in_flight gs d"
  by (simp add: in_flight_def)

lemma in_flight_Cons [simp]: "in_flight (f # fs) d = (if fst f = d then f # in_flight fs d else in_flight fs d)"
  by (simp add: in_flight_def)

lemma in_flight_Nil [simp]: "in_flight [] d = []"
  by (simp add: in_flight_def)

subsection \<open>The handlers\<close>

definition in_progress :: "transaction_status option \<Rightarrow> bool" where
  "in_progress st \<longleftrightarrow> (case st of Some Running \<Rightarrow> True | Some (Retrying _) \<Rightarrow> True | _ \<Rightarrow> False)"

lemma flight_ok_fewer:
  assumes "flight_ok T act st fs d" and "\<And>k e. (d, k, e) \<in> T' \<Longrightarrow> holds_request act' k e \<Longrightarrow> (d, k, e) \<in> T \<and> holds_request act k e"
  shows "flight_ok T' act' st fs d"
  using assms by (fastforce simp: flight_ok_def split: option.splits transaction_status.splits)

lemma flight_ok_in_progress:
  "in_progress st \<Longrightarrow> flight_ok T act st fs d \<longleftrightarrow>
     (\<exists>evs. in_flight fs d = [(d, evs)] \<and> (\<forall>k e. (d, k, e) \<in> T \<longrightarrow> holds_request act k e \<longrightarrow> e \<in> set evs))"
  by (auto simp: flight_ok_def in_progress_def split: option.splits transaction_status.splits)

lemma flight_ok_not_in_progress: "flight_ok T act st fs d \<Longrightarrow> \<not> in_progress st \<Longrightarrow> in_flight fs d = []"
  by (auto simp: flight_ok_def in_progress_def split: option.splits transaction_status.splits)

lemma mark_as_active_pending:
  assumes "sending_db_ok R T db" and "\<forall>(k, e) \<in> set ys. \<exists>d. (d, k, e) \<in> T" and "(d, k, e) \<in> T" and "pending db k e"
  shows "pending (mark_as_active ys db) k e"
proof (cases "k \<in> fst ` set ys")
  case True
  then obtain e' where "(k, e') \<in> set ys" by auto
  moreover from this have "e' = e" using assms requests_ok_event [of R T] by (fastforce simp: sending_db_ok_def)
  ultimately show ?thesis using mark_as_active_ok(2) [OF assms(1-3)] by (simp add: pending_def)
next
  case False
  then show ?thesis using mark_as_active_ok(2,3) [OF assms(1,2)] assms(3,4) by (auto simp: pending_def holds_request_def)
qed

lemma handle_response_err_ok:
  assumes "sending_db_ok R T (wdb w)" and "in_flight (futures w) d = []" and "in_progress (statuses w d)"
  shows "\<exists>w'. handle_response_err now d w = Inr w' \<and> handled R T F d dlv w w'"
  using assms
  by (auto simp: handle_response_err_def handled_def flight_ok_def in_progress_def split: option.splits transaction_status.splits)

lemma handle_response_ok_ok:
  assumes "sending_db_ok R T (wdb w)" and "dest_ok R d" and "in_flight (futures w) d = []" and "in_progress (statuses w d)"
    and act: "\<And>k e. (d, k, e) \<in> T \<Longrightarrow> holds_request (servercurrentevent_data (wdb w)) k e \<Longrightarrow> e \<in> set evs" and F: "F \<subseteq> T"
  shows "\<exists>w'. handle_response_ok R d w = Inr w' \<and> handled R T F d (Pair d ` set evs) w w'"
proof -
  let ?db = "delete_all_active_requests_for d (wdb w)"
  note del = delete_all_active_ok [OF assms(1,2)]
  obtain ys where ys: "queued_requests_take R DEQUEUE_LIMIT ?db d = Inr ys"
      "\<forall>(k, e) \<in> set ys. (d, k, e) \<in> T \<and> holds_request (servernameevent_data ?db) k e"
    using queued_requests_ok [OF del(1) assms(2)] by blast
  have T: "\<forall>(k, e) \<in> set ys. \<exists>d. (d, k, e) \<in> T" using ys(2) by blast
  note mark = mark_as_active_ok [OF del(1) T]
  have keep: "pending ?db k e \<or> (d', e) \<in> Pair d ` set evs" if "(d', k, e) \<in> T" "pending (wdb w) k e" for d' k e
    using that act del(2) [OF that(1)] by (auto simp: pending_def del(3))
  show ?thesis
  proof (cases "ys = []")
    case True
    then have "handle_response_ok R d w = Inr (w\<lparr>wdb := ?db, statuses := (statuses w)(d := None)\<rparr>)"
      using ys(1) by (simp add: handle_response_ok_def)
    then show ?thesis using del keep assms(3) F by (auto simp: handled_def flight_ok_def)
  next
    case False
    let ?w = "w\<lparr>wdb := mark_as_active ys ?db, futures := futures w @ [(d, map snd ys)]\<rparr>"
    have run: "handle_response_ok R d w = Inr ?w" using ys(1) False by (simp add: handle_response_ok_def Let_def)
    have "flight_ok T (servercurrentevent_data (wdb ?w)) (statuses ?w d) (futures ?w) d"
      using assms(3,4) mark(2) del(2) by (force simp: flight_ok_in_progress)
    then have "flight_ok F (servercurrentevent_data (wdb ?w)) (statuses ?w d) (futures ?w) d"
      by (rule flight_ok_fewer) (use F in blast)
    moreover have "holds_request (servercurrentevent_data (mark_as_active ys ?db)) k e
        = holds_request (servercurrentevent_data (wdb w)) k e" if "(d', k, e) \<in> T" "d' \<noteq> d" for d' k e
      using mark(2) [OF that(1)] del(2) [OF that(1)] that ys(2) requests_ok_dest [of R T d' k e] assms(1)
      by (fastforce simp: sending_db_ok_def)
    moreover have "pending (mark_as_active ys ?db) k e \<or> (d', e) \<in> Pair d ` set evs"
      if "(d', k, e) \<in> T" "pending (wdb w) k e" for d' k e
      using keep [OF that] mark_as_active_pending [OF del(1) T that(1)] by blast
    ultimately have "handled R T F d (Pair d ` set evs) w ?w" using mark(1,4) del(4) by (simp add: handled_def)
    then show ?thesis using run by blast
  qed
qed

lemma handle_response_handled:
  assumes "sending_db_ok R T (wdb w)" and "dest_ok R d" and "in_flight (futures w) d = []" and "in_progress (statuses w d)"
    and "\<And>k e. (d, k, e) \<in> T \<Longrightarrow> holds_request (servercurrentevent_data (wdb w)) k e \<Longrightarrow> e \<in> set evs" and "F \<subseteq> T"
  shows "\<exists>w'. handle_response R now ok d w = Inr w' \<and> handled R T F d (if ok then Pair d ` set evs else {}) w w'"
  using handle_response_ok_ok [OF assms] handle_response_err_ok [OF assms(1,3,4)] by (simp add: handle_response_def)

text \<open>A message announces a request that was made, or is a flush.\<close>

definition msg_ok :: "id_rules \<Rightarrow> request set \<Rightarrow> msg \<Rightarrow> bool" where
  "msg_ok R T m \<longleftrightarrow> dest_ok R (msg_dest m)
     \<and> ((msg_dest m, queue_id m, msg_event m) \<in> T \<or> msg_event m = Flush \<and> queue_id m = [])"

lemma mark_message_active:
  assumes "sending_db_ok R T db" and "msg_ok R T m"
  shows "sending_db_ok R T (mark_as_active [(queue_id m, msg_event m)] db)"
    and "snd_short (mark_as_active [(queue_id m, msg_event m)] db) = snd_short db"
    and "(d, k, e) \<in> T \<Longrightarrow> holds_request (servercurrentevent_data (mark_as_active [(queue_id m, msg_event m)] db)) k e
      \<longleftrightarrow> (d, k, e) = (msg_dest m, queue_id m, msg_event m) \<or> holds_request (servercurrentevent_data db) k e"
    and "(d, k, e) \<in> T \<Longrightarrow> pending db k e \<Longrightarrow> pending (mark_as_active [(queue_id m, msg_event m)] db) k e"
proof -
  have R: "requests_ok R T" using assms(1) by (simp add: sending_db_ok_def)
  consider "(msg_dest m, queue_id m, msg_event m) \<in> T" | "msg_event m = Flush" "queue_id m = []"
    using assms(2) by (auto simp: msg_ok_def)
  then have "sending_db_ok R T (mark_as_active [(queue_id m, msg_event m)] db)
    \<and> snd_short (mark_as_active [(queue_id m, msg_event m)] db) = snd_short db
    \<and> ((d, k, e) \<in> T \<longrightarrow> holds_request (servercurrentevent_data (mark_as_active [(queue_id m, msg_event m)] db)) k e
        = ((d, k, e) = (msg_dest m, queue_id m, msg_event m) \<or> holds_request (servercurrentevent_data db) k e))
    \<and> ((d, k, e) \<in> T \<longrightarrow> pending db k e \<longrightarrow> pending (mark_as_active [(queue_id m, msg_event m)] db) k e)"
  proof cases
    case 1
    then have T: "\<forall>(k, e) \<in> set [(queue_id m, msg_event m)]. \<exists>d. (d, k, e) \<in> T" by auto
    note mark = mark_as_active_ok [OF assms(1) T]
    show ?thesis using mark(1,4) mark(2) [of d k e] mark_as_active_pending [OF assms(1) T, of d k e]
        requests_ok_dest [OF R, of d k e] 1 by auto
  next
    case 2
    have "(d, [], e) \<notin> T" using requests_okD [OF R] request_ok_not_Nil by blast
    then show ?thesis using 2 assms(1) by auto
  qed
  then show "sending_db_ok R T (mark_as_active [(queue_id m, msg_event m)] db)"
    "snd_short (mark_as_active [(queue_id m, msg_event m)] db) = snd_short db"
    "(d, k, e) \<in> T \<Longrightarrow> holds_request (servercurrentevent_data (mark_as_active [(queue_id m, msg_event m)] db)) k e
      \<longleftrightarrow> (d, k, e) = (msg_dest m, queue_id m, msg_event m) \<or> holds_request (servercurrentevent_data db) k e"
    "(d, k, e) \<in> T \<Longrightarrow> pending db k e \<Longrightarrow> pending (mark_as_active [(queue_id m, msg_event m)] db) k e" by blast+
qed

lemma set_latest_educount_fields [simp]:
  "servercurrentevent_data (set_latest_educount s n db) = servercurrentevent_data db"
  "servernameevent_data (set_latest_educount s n db) = servernameevent_data db"
  "snd_short (set_latest_educount s n db) = snd_short db"
  "sending_db_ok R T (set_latest_educount s n db) = sending_db_ok R T db"
  "pending (set_latest_educount s n db) k e = pending db k e"
  by (simp_all add: set_latest_educount_def sending_db_ok_def pending_def)

text \<open>A destination without a status: the new event is sent, with the selected EDUs.\<close>

definition edu_events :: "selected_edus \<Rightarrow> destination \<Rightarrow> sending_event list" where
  "edu_events edus d = (case (d, edus) of (Federation _, Inr (es, _)) \<Rightarrow> map SendEdu es | _ \<Rightarrow> [])"

definition edu_db :: "selected_edus \<Rightarrow> destination \<Rightarrow> sending_db \<Rightarrow> sending_db" where
  "edu_db edus d db = (case (d, edus) of (Federation s, Inr (_, n)) \<Rightarrow> set_latest_educount s n db | _ \<Rightarrow> db)"

lemma edu_db_fields [simp]:
  "servercurrentevent_data (edu_db edus d db) = servercurrentevent_data db"
  "servernameevent_data (edu_db edus d db) = servernameevent_data db"
  "snd_short (edu_db edus d db) = snd_short db"
  "sending_db_ok R T (edu_db edus d db) = sending_db_ok R T db"
  "pending (edu_db edus d db) k e = pending db k e"
  by (simp_all add: edu_db_def split: destination.splits sum.splits prod.splits)

lemma handle_request_new:
  assumes "statuses w (msg_dest m) = None"
  shows "handle_request R cfg now edus m w = Inr (w\<lparr>
      wdb := edu_db edus (msg_dest m) (mark_as_active [(queue_id m, msg_event m)] (wdb w)),
      statuses := (statuses w)(msg_dest m \<mapsto> Running),
      futures := futures w @ [(msg_dest m, msg_event m # edu_events edus (msg_dest m))]\<rparr>)"
  using assms
  by (cases "msg_dest m"; cases edus)
    (auto simp: handle_request_def select_events_def should_attempt_send_def edu_db_def edu_events_def Let_def)

lemma handle_request_retry:
  assumes "statuses w (msg_dest m) = Some (Failed tries failed_at)"
    and "\<not> continue_exponential_backoff_secs (sender_timeout cfg) (sender_retry_backoff_limit cfg) (now - failed_at) tries
      \<or> is_appservice (msg_dest m)"
    and "active_requests_for R (wdb w) (msg_dest m) = Inr items"
  shows "handle_request R cfg now edus m w = Inr (
    if items = [] then w\<lparr>statuses := (statuses w)(msg_dest m := None)\<rparr>
    else w\<lparr>statuses := (statuses w)(msg_dest m \<mapsto> Retrying tries), futures := futures w @ [(msg_dest m, map snd items)]\<rparr>)"
proof -
  have "active_requests_for R (wdb (w\<lparr>statuses := st\<rparr>)) d = active_requests_for R (wdb w) d" for st d by simp
  then show ?thesis using assms by (auto simp: handle_request_def select_events_def should_attempt_send_def)
qed

lemma handle_request_skip:
  assumes "in_progress (statuses w (msg_dest m)) \<or> (\<exists>tries failed_at. statuses w (msg_dest m) = Some (Failed tries failed_at)
      \<and> continue_exponential_backoff_secs (sender_timeout cfg) (sender_retry_backoff_limit cfg) (now - failed_at) tries
      \<and> \<not> is_appservice (msg_dest m))"
  shows "handle_request R cfg now edus m w = Inr w"
  using assms by (auto simp: handle_request_def select_events_def should_attempt_send_def in_progress_def
      split: option.splits transaction_status.splits)

lemma handle_request_handled:
  assumes "sending_db_ok R T (wdb w)" and "msg_ok R T m"
    and "flight_ok F (servercurrentevent_data (wdb w)) (statuses w (msg_dest m)) (futures w) (msg_dest m)" and "F \<subseteq> T"
  shows "\<exists>w'. handle_request R cfg now edus m w = Inr w' \<and> handled R T F (msg_dest m) {} w w'"
proof -
  let ?d = "msg_dest m"
  let ?wait = "\<lambda>tries failed_at. continue_exponential_backoff_secs (sender_timeout cfg) (sender_retry_backoff_limit cfg)
    (now - failed_at) tries \<and> \<not> is_appservice ?d"
  have d: "dest_ok R ?d" using assms(2) by (simp add: msg_ok_def)
  consider (new) "statuses w ?d = None"
    | (skip) "in_progress (statuses w ?d) \<or> (\<exists>tries failed_at. statuses w ?d = Some (Failed tries failed_at) \<and> ?wait tries failed_at)"
    | (retry) tries failed_at where "statuses w ?d = Some (Failed tries failed_at)" "\<not> ?wait tries failed_at"
    by (cases "statuses w ?d"; cases "the (statuses w ?d)") (auto simp: in_progress_def)
  then show ?thesis
  proof cases
    case new
    note mark = mark_message_active [OF assms(1,2)]
    show ?thesis unfolding handle_request_new [OF new]
      using mark(1,2,4) assms(3) new by (auto simp: handled_def flight_ok_def mark(3) mark(3) [OF subsetD [OF assms(4)]])
  next
    case skip
    then show ?thesis using handle_request_skip [of w m cfg now R edus] assms(1,3) by (auto simp: handled_def)
  next
    case retry
    obtain items where items: "active_requests_for R (wdb w) ?d = Inr items"
        "set items = {(k, e). (?d, k, e) \<in> T \<and> holds_request (servercurrentevent_data (wdb w)) k e}"
      using active_requests_for_ok [OF assms(1) d] by blast
    have "flight_ok F (servercurrentevent_data (wdb w)) (Some (Retrying tries)) (futures w @ [(?d, map snd items)]) ?d"
      using assms(3,4) retry(1) items(2) by (force simp: flight_ok_def)
    moreover have "items = [] \<Longrightarrow> flight_ok F (servercurrentevent_data (wdb w)) None (futures w) ?d"
      using assms(3,4) retry(1) items(2) by (auto simp: flight_ok_def)
    ultimately show ?thesis
      using handle_request_retry [OF retry(1) _ items(1)] retry(2) assms(1) by (auto simp: handled_def)
  qed
qed

subsection \<open>The start of a worker\<close>

text \<open>
  The requests that are followed: all that were made, if the start of a worker takes up those that were active;
  otherwise none, and what then holds is that the tables are well formed and destinations have one transaction.
\<close>

definition followed :: "bool \<Rightarrow> request set \<Rightarrow> request set" where
  "followed resumed T = (if resumed then T else {})"

lemma followed_simps [simp]: "followed True T = T" "followed False T = {}" "followed resumed T \<subseteq> T"
  by (simp_all add: followed_def)

lemma followedD: "r \<in> followed resumed T \<Longrightarrow> r \<in> T \<and> resumed"
  by (simp add: followed_def split: if_splits)

definition txn_events :: "flight list \<Rightarrow> destination \<Rightarrow> sending_event list" where
  "txn_events txns d = (case map_of txns d of None \<Rightarrow> [] | Some es \<Rightarrow> es)"

lemma parse_all_requests:
  assumes "requests_ok R T" and "\<forall>(k, v) \<in> set xs. \<exists>d e. (d, k, e) \<in> T \<and> v = event_value e"
  shows "\<exists>ys. mapR (\<lambda>kv. bindR (parse_entry R kv) (\<lambda>(dest, event). Inr (fst kv, event, dest))) xs = Inr ys
    \<and> (\<forall>k e d. (k, e, d) \<in> set ys \<longleftrightarrow> (d, k, e) \<in> T \<and> (k, event_value e) \<in> set xs)"
  using assms(2)
proof (induction xs)
  case (Cons kv xs)
  obtain k v where kv: "kv = (k, v)" by (cases kv)
  then obtain d e where e: "(d, k, e) \<in> T" "v = event_value e" using Cons.prems by auto
  let ?f = "\<lambda>kv. bindR (parse_entry R kv) (\<lambda>(dest, event). Inr (fst kv, event, dest))"
  obtain ys where ys: "mapR ?f xs = Inr ys"
      "\<forall>k e d. (k, e, d) \<in> set ys \<longleftrightarrow> (d, k, e) \<in> T \<and> (k, event_value e) \<in> set xs"
    using Cons by auto
  have "?f kv = Inr (k, e, d)" using kv e parse_entry_request [OF requests_okD [OF assms(1) e(1)]] by simp
  then have "mapR ?f (kv # xs) = Inr ((k, e, d) # ys)" using ys(1) by simp
  moreover have eq: "(d', k', e') \<in> T \<and> (k', event_value e') = kv \<longleftrightarrow> (k', e', d') = (k, e, d)" for k' e' d'
  proof
    assume a: "(d', k', e') \<in> T \<and> (k', event_value e') = kv"
    then have "(d', k, e') \<in> T" "k' = k" using kv by auto
    then show "(k', e', d') = (k, e, d)" using requests_ok_event [OF assms(1) e(1)] requests_ok_dest [OF assms(1) e(1)] by simp
  qed (use e kv in simp)
  have "(k', e', d') \<in> set ((k, e, d) # ys) \<longleftrightarrow> (d', k', e') \<in> T \<and> (k', event_value e') \<in> set (kv # xs)" for k' e' d'
    unfolding list.set insert_iff eq [symmetric] ys(2) [rule_format] by blast
  ultimately show ?case by blast
qed simp

lemma active_requests_ok:
  assumes "sending_db_ok R T db"
  shows "\<exists>active. active_requests R db = Inr active
    \<and> (\<forall>k e d. (k, e, d) \<in> set active \<longleftrightarrow> (d, k, e) \<in> T \<and> holds_request (servercurrentevent_data db) k e)"
  using assms parse_all_requests [of R T "servercurrentevent_data db"]
  by (simp add: active_requests_def holds_request_def sending_db_ok_def entries_ok_def column_entry)

lemma delete_active_request_ok:
  assumes "sending_db_ok R T db"
  shows "sending_db_ok R T (delete_active_request key db)"
    and "holds_request (servercurrentevent_data (delete_active_request key db)) k e
      \<longleftrightarrow> k \<noteq> key \<and> holds_request (servercurrentevent_data db) k e"
    and "servernameevent_data (delete_active_request key db) = servernameevent_data db"
    and "snd_short (delete_active_request key db) = snd_short db"
  using assms by (auto simp: delete_active_request_def sending_db_ok_def entries_ok_remove holds_request_def)

text \<open>
  What the loop makes of the active requests: it drops some, and has the others in the transaction of their
  destination.
\<close>

definition burst_ok ::
  "id_rules \<Rightarrow> request set \<Rightarrow> (destination \<Rightarrow> bool) \<Rightarrow> flight list \<Rightarrow> sending_db \<Rightarrow> flight list \<Rightarrow> sending_db \<Rightarrow> bool" where
  "burst_ok R T mine txns db txns' db' \<longleftrightarrow> sending_db_ok R T db' \<and> snd_short db' = snd_short db
     \<and> servernameevent_data db' = servernameevent_data db \<and> distinct (map fst txns')
     \<and> (\<forall>d k e. (d, k, e) \<in> T \<longrightarrow> holds_request (servercurrentevent_data db') k e \<longrightarrow> holds_request (servercurrentevent_data db) k e)
     \<and> (\<forall>d k e. (d, k, e) \<in> T \<longrightarrow> \<not> mine d \<longrightarrow>
          holds_request (servercurrentevent_data db') k e = holds_request (servercurrentevent_data db) k e)
     \<and> (\<forall>d. \<not> mine d \<longrightarrow> map_of txns' d = map_of txns d)
     \<and> (\<forall>d. set (txn_events txns d) \<subseteq> set (txn_events txns' d))"

lemma burst_ok_step:
  assumes "burst_ok R T mine txns1 db1 txns' db'" and "mine d" and "\<forall>d'. d' \<noteq> d \<longrightarrow> map_of txns1 d' = map_of txns d'"
    and "set (txn_events txns d) \<subseteq> set (txn_events txns1 d)"
    and "db1 = db \<or> (d, key, event) \<in> T \<and> db1 = delete_active_request key db" and "sending_db_ok R T db"
  shows "burst_ok R T mine txns db txns' db'"
proof -
  have same: "txn_events txns1 d' = txn_events txns d'" if "d' \<noteq> d" for d' using assms(3) that by (simp add: txn_events_def)
  have "set (txn_events txns d') \<subseteq> set (txn_events txns' d')" for d'
  proof -
    have "set (txn_events txns1 d') \<subseteq> set (txn_events txns' d')" using assms(1) unfolding burst_ok_def by blast
    then show ?thesis using assms(4) same by (cases "d' = d") auto
  qed
  moreover have "holds_request (servercurrentevent_data db1) k e = holds_request (servercurrentevent_data db) k e"
    if "(d', k, e) \<in> T" "\<not> mine d'" for d' k e
    using assms(2,5,6) that requests_ok_dest [of R T d' k e d event] delete_active_request_ok [OF assms(6)]
    by (auto simp: sending_db_ok_def)
  moreover have "holds_request (servercurrentevent_data db1) k e \<Longrightarrow> holds_request (servercurrentevent_data db) k e" for k e
    using assms(5) delete_active_request_ok [OF assms(6)] by auto
  moreover have "servernameevent_data db1 = servernameevent_data db" "snd_short db1 = snd_short db"
    using assms(5) delete_active_request_ok [OF assms(6)] by auto
  moreover have "\<not> mine d' \<Longrightarrow> map_of txns1 d' = map_of txns d'" for d' using assms(2,3) by metis
  ultimately show ?thesis using assms(1) unfolding burst_ok_def by simp
qed

lemma netburst_loop_Cons:
  "netburst_loop cfg mine ((key, event, dest) # active) txns db =
     (if \<not> mine dest then netburst_loop cfg mine active txns db
      else if 0 \<le> startup_netburst_keep cfg \<and> nat (startup_netburst_keep cfg) \<le> length (txn_events txns dest)
      then netburst_loop cfg mine active (AList.update dest (txn_events txns dest) txns) (delete_active_request key db)
      else netburst_loop cfg mine active (AList.update dest (txn_events txns dest @ [event]) txns) db)"
  by (simp add: txn_events_def Let_def)

lemma netburst_loop_ok:
  assumes "netburst_loop cfg mine active txns db = (txns', db')" and "sending_db_ok R T db"
    and "\<forall>(k, e, d) \<in> set active. (d, k, e) \<in> T" and "distinct (map fst txns)"
  shows "burst_ok R T mine txns db txns' db'"
    and "\<forall>(k, e, d) \<in> set active. mine d \<longrightarrow> holds_request (servercurrentevent_data db') k e \<longrightarrow> e \<in> set (txn_events txns' d)"
    and "startup_netburst_keep cfg < 0 \<Longrightarrow> db' = db"
proof -
  have "burst_ok R T mine txns db txns' db'
    \<and> (\<forall>(k, e, d) \<in> set active. mine d \<longrightarrow> holds_request (servercurrentevent_data db') k e \<longrightarrow> e \<in> set (txn_events txns' d))
    \<and> (startup_netburst_keep cfg < 0 \<longrightarrow> db' = db)"
    using assms
  proof (induction active arbitrary: txns db)
    case Nil
    then show ?case by (auto simp: burst_ok_def)
  next
    case (Cons a active)
    obtain k e d where a: "a = (k, e, d)" by (cases a)
    have T: "(d, k, e) \<in> T" "\<forall>(k, e, d) \<in> set active. (d, k, e) \<in> T" using Cons.prems(3) a by auto
    let ?entry = "txn_events txns d"
    show ?case
    proof (cases "mine d")
      case False
      then show ?thesis using Cons.IH [OF _ Cons.prems(2) T(2) Cons.prems(4)] Cons.prems(1) a by auto
    next
      case True
      define drop where "drop \<longleftrightarrow> 0 \<le> startup_netburst_keep cfg \<and> nat (startup_netburst_keep cfg) \<le> length ?entry"
      let ?txns = "AList.update d (if drop then ?entry else ?entry @ [e]) txns"
      let ?db = "if drop then delete_active_request k db else db"
      have run: "netburst_loop cfg mine active ?txns ?db = (txns', db')"
        using Cons.prems(1) True unfolding a netburst_loop_Cons drop_def [symmetric] by (cases drop) simp_all
      have "sending_db_ok R T ?db" "distinct (map fst ?txns)"
        using Cons.prems(2,4) delete_active_request_ok(1) by (auto simp: distinct_update)
      note IH = Cons.IH [OF run this(1) T(2) this(2)]
      have d: "txn_events ?txns d = (if drop then ?entry else ?entry @ [e])" by (simp add: txn_events_def update_conv')
      have burst: "burst_ok R T mine txns db txns' db'"
        by (rule burst_ok_step [where d = d and key = k and event = e])
          (use IH True T(1) Cons.prems(2) d in \<open>auto simp: update_conv'\<close>)
      have "e \<in> set (txn_events txns' d)" if "holds_request (servercurrentevent_data db') k e"
      proof -
        have "\<not> drop"
        proof
          assume "drop"
          then have "holds_request (servercurrentevent_data (delete_active_request k db)) k e"
            using that IH T(1) unfolding burst_ok_def by auto
          then show False using delete_active_request_ok(2) [OF Cons.prems(2)] by blast
        qed
        moreover have "set (txn_events ?txns d) \<subseteq> set (txn_events txns' d)" using IH unfolding burst_ok_def by blast
        ultimately show ?thesis using d by auto
      qed
      moreover have "startup_netburst_keep cfg < 0 \<Longrightarrow> \<not> drop" by (simp add: drop_def)
      ultimately show ?thesis using burst IH a by auto
    qed
  qed
  then show "burst_ok R T mine txns db txns' db'"
    and "\<forall>(k, e, d) \<in> set active. mine d \<longrightarrow> holds_request (servercurrentevent_data db') k e \<longrightarrow> e \<in> set (txn_events txns' d)"
    and "startup_netburst_keep cfg < 0 \<Longrightarrow> db' = db" by blast+
qed

lemma netburst_loop_cong:
  "\<forall>(k, e, d) \<in> set active. mine d = mine' d \<Longrightarrow> netburst_loop cfg mine active txns db = netburst_loop cfg mine' active txns db"
  by (induction cfg mine active txns db rule: netburst_loop.induct) (auto simp: Let_def)

lemma in_flight_map_of:
  "distinct (map fst fs) \<Longrightarrow> in_flight fs d = (case map_of fs d of None \<Rightarrow> [] | Some evs \<Rightarrow> [(d, evs)])"
proof (induction fs)
  case (Cons f fs)
  have "map_of fs d = None" if "fst f = d" using Cons.prems that by (auto simp: map_of_eq_None_iff)
  then show ?case using Cons by (cases f) auto
qed simp

lemma burst_statuses:
  "fold (\<lambda>(dest, _) s. s(dest \<mapsto> Running)) sent st d = (if map_of sent d = None then st d else Some Running)"
  by (induction sent arbitrary: st) auto

lemma burst_sent:
  assumes "distinct (map fst txns)" and "mset ps = mset txns" and "sent = filter (\<lambda>(_, events). events \<noteq> []) ps"
  shows "distinct (map fst sent)" and "map_of sent d = (if txn_events txns d = [] then None else Some (txn_events txns d))"
proof -
  have "mset (map fst ps) = mset (map fst txns)" using assms(2) by simp
  then have perm: "distinct (map fst ps)" "set ps = set txns"
    using assms(1,2) mset_eq_imp_distinct_iff mset_eq_setD by blast+
  then show dist: "distinct (map fst sent)" using assms(3) distinct_map_filter by blast
  have sent: "(d, evs) \<in> set sent \<longleftrightarrow> (d, evs) \<in> set txns \<and> evs \<noteq> []" for evs using perm(2) assms(3) by auto
  show "map_of sent d = (if txn_events txns d = [] then None else Some (txn_events txns d))"
  proof (cases "txn_events txns d = []")
    case True
    have "(d, evs) \<notin> set sent" for evs
    proof
      assume "(d, evs) \<in> set sent"
      then have "map_of txns d = Some evs" "evs \<noteq> []" using sent map_of_eq_Some_iff [OF assms(1)] by blast+
      then show False using True by (simp add: txn_events_def)
    qed
    then show ?thesis using True by (force simp: map_of_eq_None_iff)
  next
    case False
    then have "map_of txns d = Some (txn_events txns d)" by (simp add: txn_events_def split: option.splits)
    then have "(d, txn_events txns d) \<in> set sent" using sent False map_of_SomeD by fast
    then show ?thesis using False map_of_eq_Some_iff [OF dist] by simp
  qed
qed

lemma startup_netburst_ok:
  assumes "sending_db_ok R T db" and "\<And>txns. mset (perm txns) = mset txns"
    and "\<And>d. dest_ok R d \<Longrightarrow> mine' d = mine d" and "\<And>d. mine' d \<Longrightarrow> dest_ok R d"
  shows "\<exists>w. startup_netburst R cfg mine perm \<lparr>wdb = db, statuses = Map.empty, futures = []\<rparr> = Inr w
    \<and> burst_ok R T mine' [] db [] (wdb w) \<and> (startup_netburst_keep cfg < 0 \<longrightarrow> wdb w = db)
    \<and> (\<forall>d. if mine' d then flight_ok (followed (startup_netburst_enabled cfg) T) (servercurrentevent_data (wdb w)) (statuses w d) (futures w) d
         else statuses w d = None \<and> in_flight (futures w) d = [])"
proof -
  obtain active where active: "active_requests R db = Inr active"
      "\<forall>k e d. (k, e, d) \<in> set active \<longleftrightarrow> (d, k, e) \<in> T \<and> holds_request (servercurrentevent_data db) k e"
    using active_requests_ok [OF assms(1)] by blast
  obtain txns db' where loop: "netburst_loop cfg mine' active [] db = (txns, db')" by (cases "netburst_loop cfg mine' active [] db")
  have T: "\<forall>(k, e, d) \<in> set active. (d, k, e) \<in> T" using active(2) by blast
  have "dest_ok R d" if "(k, e, d) \<in> set active" for k e d
    using T that assms(1) requests_okD [of R T d k e] request_ok_dest by (auto simp: sending_db_ok_def)
  then have "netburst_loop cfg mine active [] db = (txns, db')"
    using netburst_loop_cong [of active mine' mine cfg "[]" db] assms(3) loop by fastforce
  note burst = netburst_loop_ok [OF loop assms(1) T, simplified]
  define found where "found = filter (\<lambda>(_, events). events \<noteq> []) (perm txns)"
  define sent where "sent = (if startup_netburst_enabled cfg then found else [])"
  have dist: "distinct (map fst txns)" using burst(1) by (simp add: burst_ok_def)
  note found = burst_sent [OF dist assms(2) found_def]
  let ?w = "\<lparr>wdb = db', statuses = fold (\<lambda>(dest, _) s. s(dest \<mapsto> Running)) sent Map.empty, futures = sent\<rparr>"
  have run: "startup_netburst R cfg mine perm \<lparr>wdb = db, statuses = Map.empty, futures = []\<rparr> = Inr ?w"
    using active(1) \<open>netburst_loop cfg mine active [] db = (txns, db')\<close>
    by (simp add: startup_netburst_def sent_def found_def Let_def)
  have events: "e \<in> set (txn_events txns d)"
    if "(d, k, e) \<in> T" "mine' d" "holds_request (servercurrentevent_data db') k e" for d k e
  proof -
    have "holds_request (servercurrentevent_data db) k e" using burst(1) that(1,3) by (simp only: burst_ok_def)
    then have "(k, e, d) \<in> set active" using active(2) that(1) by simp
    then show ?thesis using burst(2) that(2,3) by fast
  qed
  have flights: "if mine' d then flight_ok (followed (startup_netburst_enabled cfg) T) (servercurrentevent_data (wdb ?w)) (statuses ?w d) (futures ?w) d
      else statuses ?w d = None \<and> in_flight (futures ?w) d = []" for d
  proof (cases "startup_netburst_enabled cfg")
    case True
    then have sent: "sent = found" by (simp add: sent_def)
    show ?thesis
    proof (cases "mine' d")
      case True
      then show ?thesis using events [of d] \<open>startup_netburst_enabled cfg\<close>
        by (cases "txn_events txns d") (auto simp: sent flight_ok_def burst_statuses in_flight_map_of [OF found(1)] found(2))
    next
      case False
      then have "txn_events txns d = []" using burst(1) by (simp add: burst_ok_def txn_events_def)
      then show ?thesis using False by (simp add: sent burst_statuses in_flight_map_of [OF found(1)] found(2))
    qed
  qed (simp add: sent_def flight_ok_def)
  have "burst_ok R T mine' [] db [] (wdb ?w)" "startup_netburst_keep cfg < 0 \<longrightarrow> wdb ?w = db"
    using burst(1,3) by (simp_all add: burst_ok_def)
  then show ?thesis using run flights by blast
qed

subsection \<open>Runs\<close>

record history =
  requested :: "request set"
  delivered :: "(destination \<times> sending_event) set"
  dropped :: "request set"

definition sender_worker :: "service \<Rightarrow> sender_state \<Rightarrow> worker" where
  "sender_worker s ss = \<lparr>wdb = service_db s, statuses = sender_statuses ss, futures = sender_futures ss\<rparr>"

definition put_worker :: "nat \<Rightarrow> worker \<Rightarrow> service \<Rightarrow> service" where
  "put_worker i w s = s\<lparr>service_db := wdb w,
     senders := (senders s)(i \<mapsto> \<lparr>sender_statuses = statuses w, sender_futures = futures w\<rparr>)\<rparr>"

text \<open>The requests that a step discards.\<close>

definition removed :: "request set \<Rightarrow> sending_db \<Rightarrow> sending_db \<Rightarrow> request set" where
  "removed T db db' = {(d, k, e). (d, k, e) \<in> T \<and> pending db k e \<and> \<not> pending db' k e}"

text \<open>
  The state a server starts in: what an earlier run left in the tables, empty channels, no worker. \<open>stop\<close> ends
  a worker after those responses that arrive in time (none if the server crashes); \<open>netburst\<close> starts it
  again. The startup discards requests only if \<open>startup_netburst_keep\<close> is not negative.
\<close>

inductive sending_run ::
  "id_rules \<Rightarrow> (destination \<Rightarrow> u64) \<Rightarrow> sender_config \<Rightarrow> service \<Rightarrow> history \<Rightarrow> bool" for R hash cfg where
  start: "sending_db_ok R T db \<Longrightarrow> counts_ok T (counter (snd_short db)) \<Longrightarrow> \<forall>(d, k, e) \<in> T. pending db k e \<Longrightarrow> 0 < n \<Longrightarrow>
    sending_run R hash cfg \<lparr>service_db = db, channels = replicate n [], senders = (\<lambda>_. None)\<rparr>
      \<lparr>requested = T, delivered = {}, dropped = {}\<rparr>"
| netburst: "sending_run R hash cfg s h \<Longrightarrow> senders s i = None \<Longrightarrow> i < length (channels s) \<Longrightarrow>
    (\<And>txns. mset (perm txns) = mset txns) \<Longrightarrow>
    startup_netburst R cfg (\<lambda>d. shard_id hash (length (channels s)) d = i) perm
      \<lparr>wdb = service_db s, statuses = Map.empty, futures = []\<rparr> = Inr w \<Longrightarrow>
    sending_run R hash cfg (put_worker i w s)
      (if startup_netburst_keep cfg < 0 then h
       else h\<lparr>dropped := dropped h \<union> removed (requested h) (service_db s) (wdb w)\<rparr>)"
| send: "sending_run R hash cfg s h \<Longrightarrow> \<forall>r \<in> set reqs. sendable R r \<Longrightarrow>
    unat (counter (snd_short (service_db s))) + length reqs < 2 ^ 64 \<Longrightarrow>
    send_requests hash reqs s = Inr s' \<Longrightarrow>
    sending_run R hash cfg s'
      (h\<lparr>requested := requested h \<union> made_requests (fst (queue_requests reqs (service_db s))) reqs\<rparr>)"
| flush: "sending_run R hash cfg s h \<Longrightarrow> \<forall>server \<in> set servers. dest_ok R (Federation server) \<Longrightarrow>
    flush_servers hash servers s = Inr s' \<Longrightarrow> sending_run R hash cfg s' h"
| cleanup: "sending_run R hash cfg s h \<Longrightarrow> db = cleanup_events appservice_id user_id push_key (service_db s) \<Longrightarrow>
    sending_run R hash cfg (s\<lparr>service_db := db\<rparr>)
      (h\<lparr>dropped := dropped h \<union> removed (requested h) (service_db s) db\<rparr>)"
| request: "sending_run R hash cfg s h \<Longrightarrow> senders s i = Some ss \<Longrightarrow> channels s ! i = m # ms \<Longrightarrow>
    handle_request R cfg now edus m (sender_worker s ss) = Inr w \<Longrightarrow>
    sending_run R hash cfg (put_worker i w (s\<lparr>channels := (channels s)[i := ms]\<rparr>)) h"
| response: "sending_run R hash cfg s h \<Longrightarrow> senders s i = Some ss \<Longrightarrow> sender_futures ss = fs1 @ (d, evs) # fs2 \<Longrightarrow>
    handle_response R now ok d (sender_worker s (ss\<lparr>sender_futures := fs1 @ fs2\<rparr>)) = Inr w \<Longrightarrow>
    sending_run R hash cfg (put_worker i w s)
      (if ok then h\<lparr>delivered := delivered h \<union> Pair d ` set evs\<rparr> else h)"
| stop: "sending_run R hash cfg s h \<Longrightarrow> senders s i = Some ss \<Longrightarrow> set (map snd rs) \<subseteq> set (sender_futures ss) \<Longrightarrow>
    sending_run R hash cfg
      (s\<lparr>service_db := finish_responses (map (\<lambda>(ok, d, _). (ok, d)) rs) (service_db s),
         channels := (channels s)[i := []], senders := (senders s)(i := None)\<rparr>)
      (h\<lparr>delivered := delivered h \<union> {(d, e). \<exists>evs. (True, d, evs) \<in> set rs \<and> e \<in> set evs}\<rparr>)"

subsection \<open>The invariant\<close>

definition owner :: "id_rules \<Rightarrow> (destination \<Rightarrow> u64) \<Rightarrow> service \<Rightarrow> nat \<Rightarrow> destination \<Rightarrow> bool" where
  "owner R hash s i d \<longleftrightarrow> dest_ok R d \<and> shard_id hash (length (channels s)) d = i"

definition sender_ok :: "id_rules \<Rightarrow> (destination \<Rightarrow> u64) \<Rightarrow> request set \<Rightarrow> service \<Rightarrow> nat \<Rightarrow> sender_state \<Rightarrow> bool" where
  "sender_ok R hash T s i ss \<longleftrightarrow>
     (\<forall>d. if owner R hash s i d
        then flight_ok T (servercurrentevent_data (service_db s)) (sender_statuses ss d) (sender_futures ss) d
        else sender_statuses ss d = None \<and> in_flight (sender_futures ss) d = [])"

definition channels_ok :: "id_rules \<Rightarrow> (destination \<Rightarrow> u64) \<Rightarrow> request set \<Rightarrow> service \<Rightarrow> bool" where
  "channels_ok R hash T s \<longleftrightarrow> channels s \<noteq> [] \<and> (\<forall>i ss. senders s i = Some ss \<longrightarrow> i < length (channels s))
     \<and> (\<forall>i < length (channels s). \<forall>m \<in> set (channels s ! i). msg_ok R T m \<and> owner R hash s i (msg_dest m))"

definition tables_ok :: "bool \<Rightarrow> id_rules \<Rightarrow> history \<Rightarrow> sending_db \<Rightarrow> bool" where
  "tables_ok resumed R h db \<longleftrightarrow> sending_db_ok R (requested h) db \<and> counts_ok (requested h) (counter (snd_short db))
     \<and> (resumed \<longrightarrow> (\<forall>d k e. (d, k, e) \<in> requested h \<longrightarrow> pending db k e \<or> (d, e) \<in> delivered h \<or> (d, k, e) \<in> dropped h))"

definition service_ok :: "bool \<Rightarrow> id_rules \<Rightarrow> (destination \<Rightarrow> u64) \<Rightarrow> service \<Rightarrow> history \<Rightarrow> bool" where
  "service_ok resumed R hash s h \<longleftrightarrow> tables_ok resumed R h (service_db s) \<and> channels_ok R hash (requested h) s
     \<and> (\<forall>i ss. senders s i = Some ss \<longrightarrow> sender_ok R hash (followed resumed (requested h)) s i ss)"

lemma owner_unique: "owner R hash s i d \<Longrightarrow> owner R hash s j d \<Longrightarrow> i = j"
  by (simp add: owner_def)

lemma owner_put [simp]: "owner R hash (put_worker i w s) = owner R hash s"
  by (simp add: owner_def put_worker_def fun_eq_iff)

lemma flight_ok_flights: "in_flight fs d = in_flight gs d \<Longrightarrow> flight_ok T act st fs d = flight_ok T act st gs d"
  by (simp add: flight_ok_def split: option.split transaction_status.split)

text \<open>A worker that changes the tables only for its own destinations keeps the other workers as they are.\<close>

lemma sender_ok_other:
  assumes "sender_ok R hash T s j ss"
    and "\<And>d k e. (d, k, e) \<in> T \<Longrightarrow> owner R hash s j d \<Longrightarrow> holds_request (servercurrentevent_data (service_db s')) k e
      \<Longrightarrow> holds_request (servercurrentevent_data (service_db s)) k e"
    and "length (channels s') = length (channels s)"
  shows "sender_ok R hash T s' j ss"
proof -
  have own: "owner R hash s' j d = owner R hash s j d" for d using assms(3) by (simp add: owner_def)
  show ?thesis using assms(1,2) flight_ok_fewer unfolding sender_ok_def own by metis
qed

text \<open>Handling a message or a response for a destination of the worker keeps the invariant.\<close>

lemma put_worker_ok:
  assumes "service_ok resumed R hash s h" and "handled R (requested h) (followed resumed (requested h)) d dlv (sender_worker s ss) w" and "owner R hash s i d"
    and "i < length (channels s)" and "\<And>d'. d' \<noteq> d \<Longrightarrow> if owner R hash s i d'
        then flight_ok (followed resumed (requested h)) (servercurrentevent_data (service_db s)) (sender_statuses ss d') (sender_futures ss) d'
        else sender_statuses ss d' = None \<and> in_flight (sender_futures ss) d' = []"
  shows "service_ok resumed R hash (put_worker i w s) (h\<lparr>delivered := delivered h \<union> dlv\<rparr>)"
proof -
  let ?s = "put_worker i w s" and ?T = "requested h" and ?F = "followed resumed (requested h)"
  note han = assms(2) [unfolded handled_def sender_worker_def, simplified]
  have db: "service_db ?s = wdb w" by (simp add: put_worker_def)
  have moved: "pending (service_db s) k e \<Longrightarrow> pending (wdb w) k e \<or> (d', e) \<in> dlv" if "(d', k, e) \<in> ?T" for d' k e
    using han that by blast
  have "pending (service_db s) k e \<or> (d', e) \<in> delivered h \<or> (d', k, e) \<in> dropped h" if "resumed" "(d', k, e) \<in> ?T" for d' k e
    using assms(1) that by (simp add: service_ok_def tables_ok_def)
  then have "pending (wdb w) k e \<or> (d', e) \<in> delivered h \<union> dlv \<or> (d', k, e) \<in> dropped h" if "resumed" "(d', k, e) \<in> ?T" for d' k e
    using moved that by blast
  then have "tables_ok resumed R (h\<lparr>delivered := delivered h \<union> dlv\<rparr>) (wdb w)"
    using assms(1) han unfolding service_ok_def tables_ok_def by simp
  moreover have "channels_ok R hash ?T ?s"
    using assms(1,4) by (auto simp: service_ok_def channels_ok_def put_worker_def owner_def)
  moreover have "sender_ok R hash ?F ?s j ss'" if "senders ?s j = Some ss'" for j ss'
  proof (cases "j = i")
    case True
    then have ss': "ss' = \<lparr>sender_statuses = statuses w, sender_futures = futures w\<rparr>" using that by (simp add: put_worker_def)
    have "if owner R hash s i d' then flight_ok ?F (servercurrentevent_data (wdb w)) (statuses w d') (futures w) d'
        else statuses w d' = None \<and> in_flight (futures w) d' = []" for d'
    proof (cases "d' = d")
      case False
      have "flight_ok ?F (servercurrentevent_data (service_db s)) st fs d' \<Longrightarrow> flight_ok ?F (servercurrentevent_data (wdb w)) st fs d'" for st fs
        by (erule flight_ok_fewer) (use han False followedD in blast)
      moreover have "statuses w d' = sender_statuses ss d'" "in_flight (futures w) d' = in_flight (sender_futures ss) d'"
        using han False by blast+
      moreover from this have "flight_ok ?F act st (futures w) d' = flight_ok ?F act st (sender_futures ss) d'" for act st
        by (intro flight_ok_flights)
      ultimately show ?thesis using assms(5) [OF False] by (cases "owner R hash s i d'") simp_all
    qed (use han assms(3) in simp)
    then show ?thesis by (simp add: sender_ok_def True ss' db)
  next
    case False
    then have "sender_ok R hash ?F s j ss'" using that assms(1) by (simp add: service_ok_def put_worker_def)
    then show ?thesis
    proof (rule sender_ok_other)
      fix d' k e assume a: "(d', k, e) \<in> ?F" "owner R hash s j d'" "holds_request (servercurrentevent_data (service_db ?s)) k e"
      have "d' \<noteq> d" using owner_unique [OF assms(3)] a(2) False by blast
      then show "holds_request (servercurrentevent_data (service_db s)) k e" using han a(3) followedD [OF a(1)] unfolding db by blast
    qed (simp add: put_worker_def)
  qed
  ultimately show ?thesis by (simp add: service_ok_def db)
qed

subsection \<open>Each step keeps it\<close>

lemma dispatch_all_ok:
  assumes "dispatch_all hash ms s = Inr s'"
  shows "service_db s' = service_db s" and "senders s' = senders s" and "length (channels s') = length (channels s)"
    and "i < length (channels s) \<Longrightarrow> set (channels s' ! i)
      = set (channels s ! i) \<union> {m \<in> set ms. shard_id hash (length (channels s)) (msg_dest m) = i}"
proof -
  have "service_db s' = service_db s \<and> senders s' = senders s \<and> length (channels s') = length (channels s)
    \<and> (\<forall>i < length (channels s). set (channels s' ! i)
        = set (channels s ! i) \<union> {m \<in> set ms. shard_id hash (length (channels s)) (msg_dest m) = i})"
    using assms
  proof (induction ms arbitrary: s)
    case (Cons m ms)
    let ?i = "shard_id hash (length (channels s)) (msg_dest m)"
    let ?s = "s\<lparr>channels := (channels s)[?i := channels s ! ?i @ [m]]\<rparr>"
    have i: "?i < length (channels s)" and run: "dispatch_all hash ms ?s = Inr s'"
      using Cons.prems by (auto simp: dispatch_def Let_def split: if_splits)
    from Cons.IH [OF run] i show ?case by (auto simp: nth_list_update)
  qed simp
  then show "service_db s' = service_db s" "senders s' = senders s" "length (channels s') = length (channels s)"
    "i < length (channels s) \<Longrightarrow> set (channels s' ! i)
      = set (channels s ! i) \<union> {m \<in> set ms. shard_id hash (length (channels s)) (msg_dest m) = i}" by blast+
qed

lemma msg_ok_mono: "msg_ok R T m \<Longrightarrow> T \<subseteq> T' \<Longrightarrow> msg_ok R T' m"
  by (auto simp: msg_ok_def)

lemma channels_ok_dispatch:
  assumes "channels_ok R hash T s" and "T \<subseteq> T'" and "\<forall>m \<in> set ms. msg_ok R T' m" and "channels s' = channels s"
    and "senders s' = senders s" and "dispatch_all hash ms s' = Inr s''"
  shows "channels_ok R hash T' s''"
proof -
  note disp = dispatch_all_ok [OF assms(6), unfolded assms(4,5)]
  have own: "owner R hash s'' = owner R hash s" using disp(3) by (simp add: owner_def fun_eq_iff)
  have "msg_ok R T' m \<and> owner R hash s i (msg_dest m)" if "i < length (channels s)" "m \<in> set (channels s'' ! i)" for i m
  proof (cases "m \<in> set (channels s ! i)")
    case True
    then show ?thesis using assms(1,2) that(1) msg_ok_mono unfolding channels_ok_def by blast
  next
    case False
    then show ?thesis using assms(3) that disp(4) [OF that(1)] by (auto simp: owner_def msg_ok_def)
  qed
  then show ?thesis using assms(1) disp(2,3) unfolding channels_ok_def own by auto
qed

lemma send_requests_ok:
  assumes "service_ok resumed R hash s h" and "\<forall>r \<in> set reqs. sendable R r"
    and "unat (counter (snd_short (service_db s))) + length reqs < 2 ^ 64" and "send_requests hash reqs s = Inr s'"
  shows "service_ok resumed R hash s' (h\<lparr>requested := requested h \<union> made_requests (fst (queue_requests reqs (service_db s))) reqs\<rparr>)"
proof -
  obtain keys db where queue: "queue_requests reqs (service_db s) = (keys, db)" by (cases "queue_requests reqs (service_db s)")
  let ?T = "requested h \<union> made_requests keys reqs"
  let ?ms = "map (\<lambda>((event, dest), key). \<lparr>msg_dest = dest, msg_event = event, queue_id = key\<rparr>) (zip reqs keys)"
  have run: "dispatch_all hash ?ms (s\<lparr>service_db := db\<rparr>) = Inr s'" using assms(4) queue by (simp add: send_requests_def)
  have tab: "sending_db_ok R (requested h) (service_db s)" "counts_ok (requested h) (counter (snd_short (service_db s)))"
    and old: "\<And>d k e. resumed \<Longrightarrow> (d, k, e) \<in> requested h \<Longrightarrow> pending (service_db s) k e \<or> (d, e) \<in> delivered h \<or> (d, k, e) \<in> dropped h"
    and chans: "channels_ok R hash (requested h) s"
    and send: "\<And>i ss. senders s i = Some ss \<Longrightarrow> sender_ok R hash (followed resumed (requested h)) s i ss"
    using assms(1) by (auto simp: service_ok_def tables_ok_def)
  note q = queue_requests_ok [OF tab assms(2,3) queue refl]
  note disp = dispatch_all_ok [OF run, simplified]
  have "pending db k e \<or> (d, e) \<in> delivered h \<or> (d, k, e) \<in> dropped h" if "resumed" "(d, k, e) \<in> ?T" for d k e
    using q(5) [OF that(2)] old that by (auto simp: pending_def q(4))
  then have "tables_ok resumed R (h\<lparr>requested := ?T\<rparr>) db" using q(1,2) by (simp add: tables_ok_def)
  moreover have "\<forall>m \<in> set ?ms. msg_ok R ?T m"
  proof
    fix m assume "m \<in> set ?ms"
    then have "(msg_dest m, queue_id m, msg_event m) \<in> made_requests keys reqs"
      by (auto simp: made_requests_def set_zip image_iff)
    then have "(msg_dest m, queue_id m, msg_event m) \<in> ?T" by blast
    then show "msg_ok R ?T m" using q(1) requests_okD request_ok_dest unfolding msg_ok_def sending_db_ok_def by blast
  qed
  then have "channels_ok R hash ?T s'"
    using channels_ok_dispatch [OF chans Un_upper1 _ _ _ run] by simp
  moreover have "sender_ok R hash (followed resumed ?T) s' i ss" if "senders s' i = Some ss" for i ss
  proof -
    have ss: "sender_ok R hash (followed resumed (requested h)) s i ss" using send that disp(2) by simp
    have own: "owner R hash s' i d = owner R hash s i d" for d using disp(3) by (simp add: owner_def)
    have "flight_ok (followed resumed ?T) (servercurrentevent_data db) st fs d"
      if "flight_ok (followed resumed (requested h)) (servercurrentevent_data (service_db s)) st fs d" for st fs d
      by (rule flight_ok_fewer [OF that])
        (use entries_request [of "requested h" "servercurrentevent_data (service_db s)" ?T R] q(1,4) tab(1)
          in \<open>auto simp: sending_db_ok_def followed_def split: if_splits\<close>)
    then show ?thesis using ss unfolding sender_ok_def own disp(1) by metis
  qed
  ultimately show ?thesis using queue disp(1) by (simp add: service_ok_def)
qed

lemma flush_ok:
  assumes "service_ok resumed R hash s h" and "\<forall>server \<in> set servers. dest_ok R (Federation server)"
    and "flush_servers hash servers s = Inr s'"
  shows "service_ok resumed R hash s' h"
proof -
  note run = assms(3) [unfolded flush_servers_def]
  note disp = dispatch_all_ok [OF run]
  have "channels_ok R hash (requested h) s'"
    by (rule channels_ok_dispatch [OF _ subset_refl _ refl refl run]) (use assms(1,2) in \<open>auto simp: service_ok_def msg_ok_def\<close>)
  moreover have "sender_ok R hash T s' i ss = sender_ok R hash T s i ss" for T i ss
    using disp(1,3) by (simp add: sender_ok_def owner_def)
  ultimately show ?thesis using assms(1) disp(1,2) by (simp add: service_ok_def)
qed

text \<open>A step that only removes active requests, or only requests it records as dropped.\<close>

lemma fewer_active_ok:
  assumes "service_ok resumed R hash s h" and "sending_db_ok R (requested h) db" and "snd_short db = snd_short (service_db s)"
    and "\<And>d k e. (d, k, e) \<in> requested h \<Longrightarrow> holds_request (servercurrentevent_data db) k e
      \<Longrightarrow> holds_request (servercurrentevent_data (service_db s)) k e"
    and "\<And>d k e. resumed \<Longrightarrow> (d, k, e) \<in> requested h \<Longrightarrow> pending (service_db s) k e \<Longrightarrow> pending db k e \<or> (d, e) \<in> dlv \<or> (d, k, e) \<in> drp"
  shows "service_ok resumed R hash (s\<lparr>service_db := db\<rparr>) (h\<lparr>delivered := delivered h \<union> dlv, dropped := dropped h \<union> drp\<rparr>)"
proof -
  let ?h = "h\<lparr>delivered := delivered h \<union> dlv, dropped := dropped h \<union> drp\<rparr>"
  have "pending db k e \<or> (d, e) \<in> delivered ?h \<or> (d, k, e) \<in> dropped ?h" if "resumed" "(d, k, e) \<in> requested h" for d k e
    using assms(1) assms(5) [OF that] that by (auto simp: service_ok_def tables_ok_def)
  then have "tables_ok resumed R ?h db" using assms(1-3) by (simp add: service_ok_def tables_ok_def)
  moreover have "channels_ok R hash (requested h) (s\<lparr>service_db := db\<rparr>)"
    using assms(1) by (simp add: service_ok_def channels_ok_def owner_def)
  moreover have "sender_ok R hash (followed resumed (requested h)) (s\<lparr>service_db := db\<rparr>) i ss" if "senders s i = Some ss" for i ss
    by (rule sender_ok_other [where s = s]) (use assms(1,4) that in \<open>auto simp: service_ok_def followed_def split: if_splits\<close>)
  ultimately show ?thesis by (simp add: service_ok_def)
qed

lemma netburst_ok:
  assumes "service_ok resumed R hash s h" and "senders s i = None" and "i < length (channels s)"
    and "\<And>txns. mset (perm txns) = mset txns" and "resumed = startup_netburst_enabled cfg"
    and "startup_netburst R cfg (\<lambda>d. shard_id hash (length (channels s)) d = i) perm
      \<lparr>wdb = service_db s, statuses = Map.empty, futures = []\<rparr> = Inr w"
  shows "service_ok resumed R hash (put_worker i w s)
    (if startup_netburst_keep cfg < 0 then h else h\<lparr>dropped := dropped h \<union> removed (requested h) (service_db s) (wdb w)\<rparr>)"
proof -
  let ?own = "owner R hash s i" and ?s = "s\<lparr>service_db := wdb w\<rparr>"
    and ?drp = "if startup_netburst_keep cfg < 0 then {} else removed (requested h) (service_db s) (wdb w)"
  have db: "sending_db_ok R (requested h) (service_db s)" using assms(1) by (simp add: service_ok_def tables_ok_def)
  have w: "burst_ok R (requested h) ?own [] (service_db s) [] (wdb w)"
      "startup_netburst_keep cfg < 0 \<longrightarrow> wdb w = service_db s"
      "\<forall>d. if ?own d then flight_ok (followed resumed (requested h)) (servercurrentevent_data (wdb w)) (statuses w d) (futures w) d
         else statuses w d = None \<and> in_flight (futures w) d = []"
    using startup_netburst_ok [OF db assms(4), where mine' = ?own and cfg = cfg and mine = "\<lambda>d. shard_id hash (length (channels s)) d = i"]
      assms(6) by (auto simp: owner_def assms(5))
  have ok: "service_ok resumed R hash ?s (h\<lparr>delivered := delivered h \<union> {}, dropped := dropped h \<union> ?drp\<rparr>)"
    by (rule fewer_active_ok [OF assms(1)]) (use w(1,2) in \<open>auto simp: burst_ok_def removed_def\<close>)
  have "sender_ok R hash (followed resumed (requested h)) (put_worker i w s) j ss" if "senders (put_worker i w s) j = Some ss" for j ss
  proof (cases "j = i")
    case True
    then show ?thesis using w(3) that by (auto simp: sender_ok_def put_worker_def owner_def)
  next
    case False
    then have "sender_ok R hash (followed resumed (requested h)) ?s j ss" using ok that by (simp add: service_ok_def put_worker_def)
    moreover have "sender_ok R hash (followed resumed (requested h)) (put_worker i w s) j ss = sender_ok R hash (followed resumed (requested h)) ?s j ss"
      by (simp add: sender_ok_def put_worker_def owner_def)
    ultimately show ?thesis by simp
  qed
  moreover have "channels_ok R hash (requested h) (put_worker i w s)"
    using assms(1,3) by (auto simp: service_ok_def channels_ok_def put_worker_def owner_def)
  moreover have "service_db (put_worker i w s) = wdb w" by (simp add: put_worker_def)
  ultimately have "service_ok resumed R hash (put_worker i w s) (h\<lparr>delivered := delivered h \<union> {}, dropped := dropped h \<union> ?drp\<rparr>)"
    using ok by (simp add: service_ok_def)
  then show ?thesis by (cases "startup_netburst_keep cfg < 0") simp_all
qed

lemma cleanup_ok:
  assumes "service_ok resumed R hash s h" and "db = cleanup_events appservice_id user_id push_key (service_db s)"
  shows "service_ok resumed R hash (s\<lparr>service_db := db\<rparr>) (h\<lparr>dropped := dropped h \<union> removed (requested h) (service_db s) db\<rparr>)"
proof -
  have "sending_db_ok R T (delete_all_requests_for d db0) \<and> snd_short (delete_all_requests_for d db0) = snd_short db0
      \<and> (\<forall>k e. holds_request (servercurrentevent_data (delete_all_requests_for d db0)) k e
           \<longrightarrow> holds_request (servercurrentevent_data db0) k e)"
    if "sending_db_ok R T db0" for d T db0
    using that by (simp add: delete_all_requests_for_def sending_db_ok_def entries_ok_removes holds_request_def map_of_removes)
  then have "sending_db_ok R T db \<and> snd_short db = snd_short (service_db s)
      \<and> (\<forall>k e. holds_request (servercurrentevent_data db) k e \<longrightarrow> holds_request (servercurrentevent_data (service_db s)) k e)"
    if "sending_db_ok R T (service_db s)" for T
    using that unfolding assms(2) by (auto simp: cleanup_events_def split: option.split)
  then have "service_ok resumed R hash (s\<lparr>service_db := db\<rparr>)
      (h\<lparr>delivered := delivered h \<union> {}, dropped := dropped h \<union> removed (requested h) (service_db s) db\<rparr>)"
    by (intro fewer_active_ok [OF assms(1)]) (use assms(1) in \<open>auto simp: service_ok_def tables_ok_def removed_def\<close>)
  then show ?thesis by simp
qed

lemma finish_responses_ok:
  assumes "sending_db_ok R T db" and "\<forall>(ok, d) \<in> set rs. dest_ok R d"
  shows "sending_db_ok R T (finish_responses rs db) \<and> snd_short (finish_responses rs db) = snd_short db
    \<and> servernameevent_data (finish_responses rs db) = servernameevent_data db
    \<and> (\<forall>d k e. (d, k, e) \<in> T \<longrightarrow> holds_request (servercurrentevent_data (finish_responses rs db)) k e
        = ((True, d) \<notin> set rs \<and> holds_request (servercurrentevent_data db) k e))"
  using assms
proof (induction rs arbitrary: db)
  case (Cons r rs)
  obtain ok d where r: "r = (ok, d)" by (cases r)
  let ?db = "if ok then delete_all_active_requests_for d db else db"
  have d: "dest_ok R d" using Cons.prems(2) r by simp
  note del = delete_all_active_ok [OF Cons.prems(1) d]
  have "sending_db_ok R T ?db" using del(1) Cons.prems(1) by simp
  from Cons.IH [OF this] Cons.prems(2) show ?case using r del(2-4) by auto
qed simp

lemma flight_of_owner:
  assumes "sender_ok R hash T s i ss" and "(d, evs) \<in> set (sender_futures ss)"
  shows "owner R hash s i d" and "in_progress (sender_statuses ss d)" and "in_flight (sender_futures ss) d = [(d, evs)]"
    and "(d, k, e) \<in> T \<Longrightarrow> holds_request (servercurrentevent_data (service_db s)) k e \<Longrightarrow> e \<in> set evs"
proof -
  have mem: "(d, evs) \<in> set (in_flight (sender_futures ss) d)" using assms(2) by (simp add: in_flight_def)
  have inv: "if owner R hash s i d
      then flight_ok T (servercurrentevent_data (service_db s)) (sender_statuses ss d) (sender_futures ss) d
      else sender_statuses ss d = None \<and> in_flight (sender_futures ss) d = []"
    using assms(1) by (simp add: sender_ok_def)
  then show own: "owner R hash s i d" using mem by (auto split: if_splits)
  then have fl: "flight_ok T (servercurrentevent_data (service_db s)) (sender_statuses ss d) (sender_futures ss) d" using inv by simp
  show ip: "in_progress (sender_statuses ss d)"
  proof (rule ccontr)
    assume "\<not> in_progress (sender_statuses ss d)"
    from flight_ok_not_in_progress [OF fl this] show False using mem by simp
  qed
  then obtain evs' where evs': "in_flight (sender_futures ss) d = [(d, evs')]"
      "\<forall>k e. (d, k, e) \<in> T \<longrightarrow> holds_request (servercurrentevent_data (service_db s)) k e \<longrightarrow> e \<in> set evs'"
    using fl flight_ok_in_progress [OF ip] by blast
  then show "in_flight (sender_futures ss) d = [(d, evs)]"
    and "(d, k, e) \<in> T \<Longrightarrow> holds_request (servercurrentevent_data (service_db s)) k e \<Longrightarrow> e \<in> set evs"
    using mem by simp_all
qed

lemma request_step_ok:
  assumes "service_ok resumed R hash s h" and "senders s i = Some ss" and "channels s ! i = m # ms"
  shows "\<exists>w. handle_request R cfg now edus m (sender_worker s ss) = Inr w
    \<and> service_ok resumed R hash (put_worker i w (s\<lparr>channels := (channels s)[i := ms]\<rparr>)) h"
proof -
  let ?s = "s\<lparr>channels := (channels s)[i := ms]\<rparr>"
  have i: "i < length (channels s)" and m: "msg_ok R (requested h) m" "owner R hash s i (msg_dest m)"
    and ss: "sender_ok R hash (followed resumed (requested h)) s i ss" and db: "sending_db_ok R (requested h) (service_db s)"
    using assms by (auto simp: service_ok_def channels_ok_def tables_ok_def)
  have own: "owner R hash ?s = owner R hash s" by (simp add: owner_def fun_eq_iff)
  have "channels_ok R hash (requested h) ?s"
    using assms i unfolding channels_ok_def service_ok_def own by (auto simp: nth_list_update)
  then have ok: "service_ok resumed R hash ?s h" using assms(1) by (simp add: service_ok_def sender_ok_def own)
  have fl: "flight_ok (followed resumed (requested h)) (servercurrentevent_data (service_db s)) (sender_statuses ss (msg_dest m)) (sender_futures ss) (msg_dest m)"
    using ss m(2) unfolding sender_ok_def by metis
  obtain w where w: "handle_request R cfg now edus m (sender_worker s ss) = Inr w"
      "handled R (requested h) (followed resumed (requested h)) (msg_dest m) {} (sender_worker s ss) w"
    using handle_request_handled [of R "requested h" "sender_worker s ss" m "followed resumed (requested h)" cfg now edus] db m(1) fl by (auto simp: sender_worker_def)
  have "service_ok resumed R hash (put_worker i w ?s) (h\<lparr>delivered := delivered h \<union> {}\<rparr>)"
    by (rule put_worker_ok [OF ok, where d = "msg_dest m" and ss = ss])
      (use w(2) m(2) i ss in \<open>auto simp: sender_worker_def own sender_ok_def split: if_splits\<close>)
  then show ?thesis using w(1) by auto
qed

lemma response_step_ok:
  assumes "service_ok resumed R hash s h" and "senders s i = Some ss" and "sender_futures ss = fs1 @ (d, evs) # fs2"
  shows "\<exists>w. handle_response R now ok d (sender_worker s (ss\<lparr>sender_futures := fs1 @ fs2\<rparr>)) = Inr w
    \<and> service_ok resumed R hash (put_worker i w s) (if ok then h\<lparr>delivered := delivered h \<union> Pair d ` set evs\<rparr> else h)"
proof -
  let ?ss = "ss\<lparr>sender_futures := fs1 @ fs2\<rparr>"
  have i: "i < length (channels s)" and ss: "sender_ok R hash (followed resumed (requested h)) s i ss"
    and db: "sending_db_ok R (requested h) (service_db s)"
    using assms by (auto simp: service_ok_def channels_ok_def tables_ok_def)
  have "(d, evs) \<in> set (sender_futures ss)" using assms(3) by simp
  note fl = flight_of_owner [OF ss this]
  have none: "in_flight (fs1 @ fs2) d = []" using fl(3) unfolding assms(3) by (auto simp: append_eq_Cons_conv)
  have other: "in_flight (fs1 @ fs2) d' = in_flight (sender_futures ss) d'" if "d' \<noteq> d" for d' using that assms(3) by simp
  obtain active where active: "active_requests_for R (service_db s) d = Inr active"
      "set active = {(k, e). (d, k, e) \<in> requested h \<and> holds_request (servercurrentevent_data (service_db s)) k e}"
    using active_requests_for_ok [OF db] fl(1) by (auto simp: owner_def)
  let ?evs = "if resumed then evs else evs @ map snd active"
  have "e \<in> set ?evs" if "(d, k, e) \<in> requested h" "holds_request (servercurrentevent_data (service_db s)) k e" for k e
    using that active(2) fl(4) [of k e] by (cases resumed) (auto simp: image_iff)
  then obtain w where w: "handle_response R now ok d (sender_worker s ?ss) = Inr w"
      "handled R (requested h) (followed resumed (requested h)) d (if ok then Pair d ` set ?evs else {}) (sender_worker s ?ss) w"
    using handle_response_handled [of R "requested h" "sender_worker s ?ss" d ?evs "followed resumed (requested h)" now ok] db fl none
    by (auto simp: sender_worker_def owner_def)
  have "service_ok resumed R hash (put_worker i w s) (h\<lparr>delivered := delivered h \<union> (if ok then Pair d ` set ?evs else {})\<rparr>)"
  proof (rule put_worker_ok [OF assms(1) w(2) fl(1) i])
    fix d' assume "d' \<noteq> d"
    then show "if owner R hash s i d'
        then flight_ok (followed resumed (requested h)) (servercurrentevent_data (service_db s)) (sender_statuses ?ss d') (sender_futures ?ss) d'
        else sender_statuses ?ss d' = None \<and> in_flight (sender_futures ?ss) d' = []"
      using ss other flight_ok_flights [OF other] by (simp add: sender_ok_def)
  qed
  then have "service_ok resumed R hash (put_worker i w s) (if ok then h\<lparr>delivered := delivered h \<union> Pair d ` set evs\<rparr> else h)"
    by (cases resumed; cases ok) (simp_all add: service_ok_def tables_ok_def)
  then show ?thesis using w(1) by blast
qed

lemma stop_ok:
  assumes "service_ok resumed R hash s h" and "senders s i = Some ss" and "set (map snd rs) \<subseteq> set (sender_futures ss)"
  shows "service_ok resumed R hash (s\<lparr>service_db := finish_responses (map (\<lambda>(ok, d, _). (ok, d)) rs) (service_db s),
         channels := (channels s)[i := []], senders := (senders s)(i := None)\<rparr>)
      (h\<lparr>delivered := delivered h \<union> {(d, e). \<exists>evs. (True, d, evs) \<in> set rs \<and> e \<in> set evs}\<rparr>)"
proof -
  let ?rs = "map (\<lambda>(ok, d, _). (ok, d)) rs" and ?dlv = "{(d, e). \<exists>evs. (True, d, evs) \<in> set rs \<and> e \<in> set evs}"
  let ?db = "finish_responses ?rs (service_db s)"
  let ?s = "s\<lparr>service_db := ?db\<rparr>"
  have ss: "sender_ok R hash (followed resumed (requested h)) s i ss" and db: "sending_db_ok R (requested h) (service_db s)"
    using assms by (auto simp: service_ok_def tables_ok_def)
  have fl: "(d, evs) \<in> set (sender_futures ss)" if "(ok, d, evs) \<in> set rs" for ok d evs using assms(3) that by force
  have dests: "\<forall>(ok, d) \<in> set ?rs. dest_ok R d" using fl flight_of_owner(1) [OF ss] by (fastforce simp: owner_def)
  note fin = finish_responses_ok [OF db dests]
  have gone: "(d, e) \<in> ?dlv" if mem: "(True, d) \<in> set ?rs" and held: "(d, k, e) \<in> followed resumed (requested h)"
      "holds_request (servercurrentevent_data (service_db s)) k e" for d k e
  proof -
    obtain evs where "(True, d, evs) \<in> set rs" using mem by auto
    then show ?thesis using flight_of_owner(4) [OF ss fl held] by blast
  qed
  have "service_ok resumed R hash ?s (h\<lparr>delivered := delivered h \<union> ?dlv, dropped := dropped h \<union> {}\<rparr>)"
  proof (rule fewer_active_ok [OF assms(1)])
    fix d k e assume all: resumed and T: "(d, k, e) \<in> requested h" and pend: "pending (service_db s) k e"
    show "pending ?db k e \<or> (d, e) \<in> ?dlv \<or> (d, k, e) \<in> {}"
    proof (cases "(True, d) \<in> set ?rs \<and> holds_request (servercurrentevent_data (service_db s)) k e")
      case True
      then show ?thesis using gone T all by simp
    next
      case False
      have act: "holds_request (servercurrentevent_data ?db) k e
          \<longleftrightarrow> (True, d) \<notin> set ?rs \<and> holds_request (servercurrentevent_data (service_db s)) k e"
        and rest: "servernameevent_data ?db = servernameevent_data (service_db s)" using fin T by blast+
      show ?thesis using False pend unfolding pending_def act rest by blast
    qed
  qed (use fin in blast)+
  then have ok: "service_ok resumed R hash ?s (h\<lparr>delivered := delivered h \<union> ?dlv\<rparr>)" by simp
  let ?s' = "?s\<lparr>channels := (channels s)[i := []], senders := (senders s)(i := None)\<rparr>"
  have own: "owner R hash ?s' = owner R hash ?s" by (simp add: owner_def fun_eq_iff)
  have chans: "channels_ok R hash (requested h) ?s" using ok by (simp add: service_ok_def)
  have sub: "set (channels ?s' ! j) \<subseteq> set (channels ?s ! j)" if "j < length (channels ?s)" for j
    using that by (cases "j = i") simp_all
  have msgs: "msg_ok R (requested h) m \<and> owner R hash ?s j (msg_dest m)"
    if "j < length (channels ?s)" "m \<in> set (channels ?s' ! j)" for j m
  proof -
    have "m \<in> set (channels ?s ! j)" using sub [OF that(1)] that(2) by blast
    then show ?thesis using chans that(1) unfolding channels_ok_def by blast
  qed
  have "channels_ok R hash (requested h) ?s'"
    unfolding channels_ok_def own using chans msgs by (simp add: channels_ok_def split: if_splits)
  moreover have "sender_ok R hash (followed resumed (requested h)) ?s' j ss' = sender_ok R hash (followed resumed (requested h)) ?s j ss'" for j ss'
    by (simp add: sender_ok_def owner_def)
  then have "sender_ok R hash (followed resumed (requested h)) ?s' j ss'" if "senders ?s' j = Some ss'" for j ss'
    using that ok by (simp add: service_ok_def split: if_splits)
  ultimately have "service_ok resumed R hash ?s' (h\<lparr>delivered := delivered h \<union> ?dlv\<rparr>)" using ok by (simp add: service_ok_def)
  then show ?thesis by simp
qed

theorem sending_run_ok:
  assumes "sending_run R hash cfg s h"
  shows "service_ok (startup_netburst_enabled cfg) R hash s h"
  using assms
proof (induction rule: sending_run.induct)
  case (start T db n)
  then show ?case by (auto simp: service_ok_def tables_ok_def channels_ok_def)
next
  case (netburst s h i perm w)
  show ?case by (rule netburst_ok [OF netburst.IH netburst.hyps(2,3,4) refl netburst.hyps(5)])
next
  case (send s h reqs s')
  show ?case by (rule send_requests_ok [OF send.IH send.hyps(2-4)])
next
  case (flush s h servers s')
  show ?case by (rule flush_ok [OF flush.IH flush.hyps(2,3)])
next
  case (cleanup s h db appservice_id user_id push_key)
  show ?case by (rule cleanup_ok [OF cleanup.IH cleanup.hyps(2)])
next
  case (request s h i ss m ms now edus w)
  show ?case using request_step_ok [OF request.IH request.hyps(2,3), where cfg = cfg and now = now and edus = edus] request.hyps(4)
    by auto
next
  case (response s h i ss fs1 d evs fs2 now ok w)
  show ?case using response_step_ok [OF response.IH response.hyps(2,3), where now = now and ok = ok] response.hyps(4)
    by auto
next
  case (stop s h i ss rs)
  show ?case by (rule stop_ok [OF stop.IH stop.hyps(2,3)])
qed

subsection \<open>What the invariant gives\<close>

text \<open>The transactions in flight for a destination, of all workers.\<close>

definition all_flights :: "service \<Rightarrow> destination \<Rightarrow> flight list" where
  "all_flights s d = concat (map (\<lambda>i. case senders s i of None \<Rightarrow> [] | Some ss \<Rightarrow> in_flight (sender_futures ss) d)
     [0..<length (channels s)])"

lemma concat_at_most_one:
  assumes "distinct xs" and "\<And>x. x \<in> set xs \<Longrightarrow> x \<noteq> a \<Longrightarrow> f x = []" and "length (f a) \<le> 1"
  shows "length (concat (map f xs)) \<le> 1"
proof (cases "a \<in> set xs")
  case True
  then obtain ys zs where xs: "xs = ys @ a # zs" by (meson split_list)
  have "concat (map f ys) = []" "concat (map f zs) = []" using assms(1,2) xs by auto
  then have "concat (map f xs) = f a" unfolding xs by (simp only: map_append list.map concat_append concat.simps append_Nil append_Nil2)
  then show ?thesis using assms(3) by simp
next
  case False
  then have "concat (map f xs) = []" using assms(2) by auto
  then show ?thesis by (simp only: list.size(3) zero_le)
qed

text \<open>C14. A destination never has two transactions in flight at a time, whatever order requests, responses,
  stops and starts of workers come in, and whether or not a start takes up the transactions of an earlier run.\<close>
theorem one_transaction_per_destination:
  assumes "sending_run R hash cfg s h"
  shows "length (all_flights s d) \<le> 1"
proof -
  let ?i = "shard_id hash (length (channels s)) d"
  let ?f = "\<lambda>i. case senders s i of None \<Rightarrow> [] | Some ss \<Rightarrow> in_flight (sender_futures ss) d"
  have ss: "sender_ok R hash (followed (startup_netburst_enabled cfg) (requested h)) s i ss" if "senders s i = Some ss" for i ss
    using sending_run_ok [OF assms] that by (simp add: service_ok_def)
  have "length (?f i) \<le> 1 \<and> (i \<noteq> ?i \<longrightarrow> ?f i = [])" for i
  proof (cases "\<exists>ss evs. senders s i = Some ss \<and> (d, evs) \<in> set (sender_futures ss)")
    case True
    then obtain ss evs where "senders s i = Some ss" "(d, evs) \<in> set (sender_futures ss)" by blast
    then show ?thesis using flight_of_owner(1,3) [OF ss] by (auto simp: owner_def)
  next
    case False
    then have "?f i = []" by (cases "senders s i") (auto simp: in_flight_def filter_empty_conv)
    then show ?thesis by simp
  qed
  then show ?thesis unfolding all_flights_def by (intro concat_at_most_one [where a = ?i]) simp_all
qed




text \<open>The run of a small server: an application service with the empty name, one worker.\<close>

definition small_config :: "bool \<Rightarrow> sender_config" where
  "small_config enabled =
     \<lparr>sender_timeout = 180, sender_retry_backoff_limit = 86400, startup_netburst_enabled = enabled, startup_netburst_keep = - 1\<rparr>"

definition small_event :: "u8 \<Rightarrow> sending_event" where
  "small_event n = SendPdu (RawNormal (replicate 16 n))"

definition small_key :: "u8 \<Rightarrow> bytes" where
  "small_key n = get_prefix (Appservice []) @ replicate 16 n"

definition small_db :: "bytes column \<Rightarrow> bytes column \<Rightarrow> sending_db" where
  "small_db act queue = \<lparr>snd_short = new_db, servercurrentevent_data = act, servernameevent_data = queue, servername_educount = Map.empty\<rparr>"

definition small_state :: "bytes column \<Rightarrow> bytes column \<Rightarrow> msg list \<Rightarrow> transaction_status option \<Rightarrow> flight list \<Rightarrow> service" where
  "small_state act queue ms st fs = \<lparr>service_db = small_db act queue, channels = [ms],
     senders = [0 \<mapsto> \<lparr>sender_statuses = Map.empty(Appservice [] := st), sender_futures = fs\<rparr>]\<rparr>"

lemma small_parse: "parse_entry sample_ids (small_key n, []) = Inr (Appservice [], small_event n)"
  using parse_entry_request [of sample_ids "Appservice []" "small_key n" "small_event n"] by (simp add: small_key_def small_event_def)

lemma small_request_ok: "request_ok R (Appservice [], small_key n, small_event n)"
  by (simp add: small_key_def small_event_def)

lemma small_start:
  assumes "act = [] \<or> act = [(small_key 0, [])]" and "enabled \<longrightarrow> act = []"
  shows "sending_run sample_ids (\<lambda>_. 0) (small_config enabled) (small_state act [] [] None [])
    \<lparr>requested = (\<lambda>(k, _). (Appservice [], k, small_event 0)) ` set act, delivered = {}, dropped = {}\<rparr>"
proof -
  let ?T = "(\<lambda>(k, _). (Appservice [], k, small_event 0)) ` set act"
  have db: "sending_db_ok sample_ids ?T (small_db act [])" "counts_ok ?T c" "\<forall>(d, k, e) \<in> ?T. pending (small_db act []) k e" for c
    using assms small_request_ok [of sample_ids 0]
    by (auto simp: sending_db_ok_def requests_ok_def small_db_def entries_ok_def column_ok_def small_event_def counts_ok_def
        pending_def holds_request_def)
  have burst: "startup_netburst sample_ids (small_config enabled) (\<lambda>d. shard_id (\<lambda>_. 0) (Suc 0) d = 0) id
      \<lparr>wdb = small_db act [], statuses = Map.empty, futures = []\<rparr>
    = Inr \<lparr>wdb = small_db act [], statuses = Map.empty, futures = []\<rparr>"
    using assms by (auto simp: startup_netburst_def active_requests_def small_db_def small_parse small_config_def shard_id_def Let_def)
  from sending_run.netburst [OF sending_run.start [OF db(1,2,3), of 1 "\<lambda>_. 0" "small_config enabled"], where i = 0 and perm = id] burst
  show ?thesis by (simp add: put_worker_def small_state_def small_config_def)
qed

definition small_msg :: msg where
  "small_msg = \<lparr>msg_dest = Appservice [], msg_event = small_event 1, queue_id = small_key 1\<rparr>"

lemma small_send:
  assumes "sending_run R hash cfg (small_state act [] [] None []) h"
  shows "sending_run R hash cfg (small_state act [(small_key 1, [])] [small_msg] None [])
    (h\<lparr>requested := insert (Appservice [], small_key 1, small_event 1) (requested h)\<rparr>)"
proof -
  let ?r = "[(small_event 1, Appservice [])]"
  have queue: "queue_requests ?r (small_db act []) = ([small_key 1], small_db act [(small_key 1, [])])"
    by (simp add: queue_requests_def small_event_def small_key_def small_db_def)
  then have "send_requests hash ?r (small_state act [] [] None []) = Inr (small_state act [(small_key 1, [])] [small_msg] None [])"
    by (simp add: send_requests_def small_state_def dispatch_def shard_id_def small_msg_def Let_def)
  from sending_run.send [OF assms _ _ this] queue show ?thesis
    by (simp add: small_event_def small_state_def small_db_def new_db_def made_requests_def Un_commute)
qed

lemma small_request:
  assumes "sending_run R hash cfg (small_state act [(small_key 1, [])] [small_msg] None []) h"
  shows "sending_run R hash cfg (small_state (col_insert (small_key 1) [] act) [] [] (Some Running) [(Appservice [], [small_event 1])]) h"
proof -
  let ?s = "small_state act [(small_key 1, [])] [small_msg] None []"
  have ss: "senders ?s 0 = Some \<lparr>sender_statuses = (\<lambda>_. None), sender_futures = []\<rparr>" "channels ?s ! 0 = small_msg # []"
    by (simp_all add: small_state_def)
  note step = handle_request_new [where w = "sender_worker ?s \<lparr>sender_statuses = (\<lambda>_. None), sender_futures = []\<rparr>" and m = small_msg
      and R = R and cfg = cfg and now = 0 and edus = "Inl NotFoundErr"]
  from sending_run.request [OF assms ss step] show ?thesis
    by (simp add: sender_worker_def small_state_def small_msg_def put_worker_def edu_db_def edu_events_def mark_as_active_def
        mark_one_active_def small_db_def small_key_def small_event_def col_remove_def)
qed

lemma small_response:
  assumes "sending_run R hash cfg (small_state act [] [] (Some Running) [(Appservice [], [small_event 1])]) h"
    and "act \<in> {[(small_key 1, [])], [(small_key 0, []), (small_key 1, [])]}"
  shows "sending_run R hash cfg (small_state [] [] [] None [])
    (h\<lparr>delivered := insert (Appservice [], small_event 1) (delivered h)\<rparr>)"
proof -
  let ?s = "small_state act [] [] (Some Running) [(Appservice [], [small_event 1])]"
  let ?ss = "\<lparr>sender_statuses = [Appservice [] \<mapsto> Running], sender_futures = [(Appservice [], [small_event 1])]\<rparr>"
  have ss: "senders ?s 0 = Some ?ss" "sender_futures ?ss = [] @ (Appservice [], [small_event 1]) # []"
    by (auto simp: small_state_def fun_eq_iff)
  have del: "delete_all_active_requests_for (Appservice []) (small_db act []) = small_db [] []"
    using assms(2) by (auto simp: delete_all_active_requests_for_def small_db_def raw_keys_prefix_def raw_stream_prefix_def
        raw_stream_from_def starts_with_def small_key_def col_remove_def)
  then have step: "handle_response R 0 True (Appservice []) (sender_worker ?s (?ss\<lparr>sender_futures := [] @ []\<rparr>))
      = Inr \<lparr>wdb = small_db [] [], statuses = Map.empty, futures = []\<rparr>"
    by (simp add: handle_response_def handle_response_ok_def sender_worker_def small_state_def queued_requests_take_def
        small_db_def raw_stream_prefix_def raw_stream_from_def Let_def)
  from sending_run.response [OF assms(1) ss step] show ?thesis
    by (simp add: small_state_def put_worker_def)
qed

lemma small_flight_run:
  "\<exists>h. sending_run sample_ids (\<lambda>_. 0) (small_config True)
     (small_state [(small_key 1, [])] [] [] (Some Running) [(Appservice [], [small_event 1])]) h
   \<and> requested h = {(Appservice [], small_key 1, small_event 1)} \<and> delivered h = {} \<and> dropped h = {}"
  using small_request [OF small_send [OF small_start [of "[]" True]]] by auto

lemma small_order: "col_insert (small_key 1) ([] :: bytes) [(small_key 0, [])] = [(small_key 0, []), (small_key 1, [])]"
  by code_simp

theorem one_transaction_per_destination_witness:
  "length (all_flights (small_state [(small_key 1, [])] [] [] (Some Running) [(Appservice [], [small_event 1])]) (Appservice [])) = 1"
proof -
  let ?s = "small_state [(small_key 1, [])] [] [] (Some Running) [(Appservice [], [small_event 1])]"
  obtain h where "sending_run sample_ids (\<lambda>_. 0) (small_config True) ?s h" using small_flight_run by blast
  then have "length (all_flights ?s (Appservice [])) \<le> 1"
    by (intro one_transaction_per_destination) (simp_all add: small_config_def)
  moreover have "all_flights ?s (Appservice []) \<noteq> []" by (simp add: all_flights_def small_state_def)
  ultimately show ?thesis by (cases "all_flights ?s (Appservice [])") auto
qed



text \<open>With \<open>startup_netburst\<close> disabled requests are lost: those left active by an earlier run are never sent,
  and the next transaction to the destination that succeeds deletes them.\<close>
lemma disabled_netburst_loses_requests:
  "\<exists>s h. sending_run sample_ids (\<lambda>_. 0) (small_config False) s h \<and> (Appservice [], small_key 0, small_event 0) \<in> requested h
     \<and> \<not> pending (service_db s) (small_key 0) (small_event 0) \<and> (Appservice [], small_event 0) \<notin> delivered h
     \<and> dropped h = {}"
proof -
  have "sending_run sample_ids (\<lambda>_. 0) (small_config False)
      (small_state [(small_key 0, []), (small_key 1, [])] [] [] (Some Running) [(Appservice [], [small_event 1])])
      \<lparr>requested = {(Appservice [], small_key 1, small_event 1), (Appservice [], small_key 0, small_event 0)},
       delivered = {}, dropped = {}\<rparr>"
    using small_request [OF small_send [OF small_start [of "[(small_key 0, [])]" False]]] unfolding small_order by simp
  from small_response [OF this] show ?thesis
    by (intro exI conjI) (assumption | simp add: small_state_def small_db_def pending_def holds_request_def small_event_def)+
qed

subsection \<open>What a handler sends\<close>

lemma drop_filter:
  assumes "distinct xs"
  shows "filter (\<lambda>x. x \<notin> set (take n xs)) xs = drop n xs"
proof -
  have "set (take n xs) \<inter> set (drop n xs) = {}" using assms by (rule set_take_disj_set_drop_if_distinct) simp
  then have "filter (\<lambda>x. x \<notin> set (take n xs)) (drop n xs) = drop n xs" by (auto intro: filter_True)
  moreover have "filter (\<lambda>x. x \<notin> set (take n xs)) (take n xs) = []" by (simp add: filter_empty_conv)
  ultimately show ?thesis by (metis append_Nil append_take_drop_id filter_append)
qed

text \<open>C27. When a transaction succeeds, on tables that hold well-formed requests, the active requests of the destination are deleted, and the first 48 of its queued
  requests in the order of their keys (the destination, the short id of the room, the count; for an EDU the count alone)
  make up the next transaction: only these leave the queue, they become the active requests of the destination, and
  those of other destinations stay as they are. Without any queued request the destination's status is cleared.\<close>
theorem response_takes_first:
  assumes "sending_db_ok R T (wdb w)" and "dest_ok R d" and "ks = raw_keys_prefix (servernameevent_data (wdb w)) (get_prefix d)"
    and "handle_response_ok R d w = Inr w'"
  shows "raw_keys_prefix (servernameevent_data (wdb w')) (get_prefix d) = drop 48 ks
    \<and> (\<forall>d' k e. (d', k, e) \<in> T \<longrightarrow> holds_request (servercurrentevent_data (wdb w')) k e
         = (if d' = d then k \<in> set (take 48 ks) else holds_request (servercurrentevent_data (wdb w)) k e))
    \<and> (\<exists>evs. list_all2 (\<lambda>k e. (d, k, e) \<in> T) (take 48 ks) evs
        \<and> futures w' = futures w @ (if ks = [] then [] else [(d, evs)])
        \<and> statuses w' = (if ks = [] then (statuses w)(d := None) else statuses w))"
proof -
  let ?db = "delete_all_active_requests_for d (wdb w)"
  note del = delete_all_active_ok [OF assms(1,2)]
  obtain ys where ys: "queued_requests_take R DEQUEUE_LIMIT ?db d = Inr ys"
      "\<forall>(k, e) \<in> set ys. (d, k, e) \<in> T \<and> holds_request (servernameevent_data ?db) k e"
      "map fst ys = take 48 ks"
    using queued_requests_ok [OF del(1) assms(2), of DEQUEUE_LIMIT] by (auto simp: del(3) assms(3) DEQUEUE_LIMIT_def)
  have T: "\<forall>(k, e) \<in> set ys. \<exists>d. (d, k, e) \<in> T" using ys(2) by blast
  note mark = mark_as_active_ok [OF del(1) T]
  have evs: "list_all2 (\<lambda>k e. (d, k, e) \<in> T) (take 48 ks) (map snd ys)"
    unfolding ys(3) [symmetric] using ys(2) by (induction ys) auto
  have cols: "column_ok (servernameevent_data (wdb w))" "column_ok (servernameevent_data (mark_as_active ys ?db))"
    using mark(1) assms(1) entries_ok_column by (auto simp: sending_db_ok_def)
  have ks: "sorted_wrt (<) ks" unfolding assms(3) by (rule raw_keys_prefix_sorted [OF cols(1)])
  have left: "raw_keys_prefix (servernameevent_data (mark_as_active ys ?db)) (get_prefix d) = drop 48 ks"
  proof (rule sorted_wrt_unique [where R = "(<)"])
    show "sorted_wrt (<) (raw_keys_prefix (servernameevent_data (mark_as_active ys ?db)) (get_prefix d))"
      by (rule raw_keys_prefix_sorted [OF cols(2)])
    show "sorted_wrt (<) (drop 48 ks)" using ks by (rule sorted_wrt_drop)
    have dom: "fst ` set t = dom (map_of t)" for t :: "bytes column" by (simp add: dom_map_of_conv_image_fst)
    have "k \<in> dom (map_of (servernameevent_data (mark_as_active ys ?db)))
        \<longleftrightarrow> k \<in> dom (map_of (servernameevent_data (wdb w))) \<and> k \<notin> set (map fst ys)" for k
      unfolding domIff mark(3) del(3) set_map by simp
    then have "set (raw_keys_prefix (servernameevent_data (mark_as_active ys ?db)) (get_prefix d)) = set ks - set (take 48 ks)"
      unfolding set_raw_keys_prefix [OF cols(2)] assms(3) set_raw_keys_prefix [OF cols(1)] dom ys(3) [unfolded assms(3), symmetric]
      by blast
    also have "\<dots> = set (drop 48 ks)"
    proof -
      have "distinct ks" using ks by (simp add: strict_sorted_iff)
      from arg_cong [OF drop_filter [OF this, of 48], of set] show ?thesis unfolding set_filter by blast
    qed
    finally show "set (raw_keys_prefix (servernameevent_data (mark_as_active ys ?db)) (get_prefix d)) = set (drop 48 ks)" .
  qed auto
  have "ys = [] \<longleftrightarrow> ks = []" using ys(3) by (cases ys; cases ks) auto
  then have "w' = (if ks = [] then w\<lparr>wdb := ?db, statuses := (statuses w)(d := None)\<rparr>
      else w\<lparr>wdb := mark_as_active ys ?db, futures := futures w @ [(d, map snd ys)]\<rparr>)"
    using assms(4) ys(1) by (auto simp: handle_response_ok_def Let_def)
  moreover have "holds_request (servercurrentevent_data (mark_as_active ys ?db)) k e
      = (if d' = d then k \<in> set (take 48 ks) else holds_request (servercurrentevent_data (wdb w)) k e)"
    if "(d', k, e) \<in> T" for d' k e
  proof -
    have R: "requests_ok R T" using assms(1) by (simp add: sending_db_ok_def)
    have "(k, e) \<in> set ys \<longleftrightarrow> d' = d \<and> k \<in> fst ` set ys"
    proof
      assume "d' = d \<and> k \<in> fst ` set ys"
      then obtain e' where e': "(k, e') \<in> set ys" by auto
      then have "(d, k, e') \<in> T" using ys(2) by blast
      from requests_ok_event [OF R this that] show "(k, e) \<in> set ys" using e' by simp
    next
      assume "(k, e) \<in> set ys"
      moreover from this have "(d, k, e) \<in> T" using ys(2) by blast
      ultimately show "d' = d \<and> k \<in> fst ` set ys" using requests_ok_dest [OF R that] by force
    qed
    moreover have "fst ` set ys = set (take 48 ks)" using arg_cong [OF ys(3), of set] by simp
    ultimately show ?thesis using mark(2) [OF that] del(2) [OF that] by auto
  qed
  ultimately show ?thesis using evs left by (cases "ks = []") (auto simp: del(2,3) assms(3))
qed

theorem response_takes_first_witness:
  "\<exists>w'. handle_response_ok sample_ids (Appservice [])
      \<lparr>wdb = small_db [] [(small_key 1, [])], statuses = [Appservice [] \<mapsto> Running], futures = []\<rparr> = Inr w'
    \<and> raw_keys_prefix (servernameevent_data (wdb w')) (get_prefix (Appservice [])) = []"
proof -
  let ?w = "\<lparr>wdb = small_db [] [(small_key 1, [])], statuses = [Appservice [] \<mapsto> Running], futures = []\<rparr>"
    and ?T = "{(Appservice [], small_key 1, small_event 1)}"
  have db: "sending_db_ok sample_ids ?T (wdb ?w)"
    using small_request_ok [of sample_ids 1]
    by (auto simp: sending_db_ok_def requests_ok_def small_db_def entries_ok_def column_ok_def small_event_def)
  have d: "dest_ok sample_ids (Appservice [])" by simp
  obtain w' where w': "handle_response_ok sample_ids (Appservice []) ?w = Inr w'"
    using handle_response_ok_ok [OF db d, of "[]"] db by (auto simp: in_progress_def small_db_def holds_request_def)
  have ks: "raw_keys_prefix (servernameevent_data (wdb ?w)) (get_prefix (Appservice [])) = [small_key 1]"
    by (simp add: small_db_def raw_keys_prefix_def raw_stream_prefix_def raw_stream_from_def starts_with_def small_key_def)
  from response_takes_first [OF db d refl w'] show ?thesis unfolding ks using w' by auto
qed

text \<open>The EDUs selected for a transaction are lost when it fails: they are in no table, the retry sends only the
  stored request, and the recorded EDU count has moved past them, so they are not selected again.\<close>
lemma selected_edus_not_retried:
  assumes "sending_db_ok R T (wdb w)" and "(d, queue_id m, msg_event m) \<in> T" and "msg_dest m = d" and "d = Federation server"
    and "flight_ok T (servercurrentevent_data (wdb w)) (statuses w d) (futures w) d" and "statuses w d = None"
    and "handle_request R cfg now (Inr (edus, last_count)) m w = Inr w1" and "msg_dest m' = d"
    and "handle_response R failed_at False d (w1\<lparr>futures := futures w\<rparr>) = Inr w2"
    and "\<not> continue_exponential_backoff_secs (sender_timeout cfg) (sender_retry_backoff_limit cfg) (now' - failed_at) 1"
    and "handle_request R cfg now' edus' m' w2 = Inr w3"
  shows "futures w1 = futures w @ [(d, msg_event m # map SendEdu edus)]
    \<and> (\<exists>evs. futures w3 = futures w @ [(d, evs)] \<and> set evs = {msg_event m})
    \<and> get_latest_educount (wdb w3) server = last_count"
proof -
  have R: "requests_ok R T" using assms(1) by (simp add: sending_db_ok_def)
  have d: "dest_ok R d" by (rule request_ok_dest [OF requests_okD [OF R assms(2)]])
  have m: "msg_ok R T m" using d assms(2,3) by (simp add: msg_ok_def)
  let ?db = "mark_as_active [(queue_id m, msg_event m)] (wdb w)" and ?db1 = "wdb w1"
  note new = handle_request_new [of w m R cfg now "Inr (edus, last_count)", unfolded assms(3,6,7), OF refl]
  have w1: "wdb w1 = set_latest_educount server last_count ?db" "statuses w1 = (statuses w)(d \<mapsto> Running)"
      "futures w1 = futures w @ [(d, msg_event m # map SendEdu edus)]"
    using new by (simp_all add: assms(4) edu_db_def edu_events_def)
  have w2: "w2 = w1\<lparr>futures := futures w, statuses := (statuses w1)(d \<mapsto> Failed 1 failed_at)\<rparr>"
    using assms(9) w1(2) by (simp add: handle_response_def handle_response_err_def)
  note mark = mark_message_active [OF assms(1) m]
  have none: "\<And>k e. (d, k, e) \<in> T \<Longrightarrow> \<not> holds_request (servercurrentevent_data (wdb w)) k e"
    using assms(5,6) by (simp add: flight_ok_def)
  have ok: "sending_db_ok R T (wdb w2)" using mark(1) by (simp add: w2 w1(1))
  obtain items where items: "active_requests_for R (wdb w2) d = Inr items"
      "set items = {(k, e). (d, k, e) \<in> T \<and> holds_request (servercurrentevent_data (wdb w2)) k e}"
    using active_requests_for_ok [OF ok d] by blast
  have "holds_request (servercurrentevent_data (wdb w2)) k e \<longleftrightarrow> (k, e) = (queue_id m, msg_event m)" if "(d, k, e) \<in> T" for k e
    using mark(3) [OF that] none [OF that] by (simp add: w2 w1(1) assms(3))
  then have one: "set items = {(queue_id m, msg_event m)}" using items(2) assms(2) by auto
  have st: "statuses w2 (msg_dest m') = Some (Failed 1 failed_at)" by (simp add: w2 assms(8))
  have "w3 = w2\<lparr>statuses := (statuses w2)(d \<mapsto> Retrying 1), futures := futures w2 @ [(d, map snd items)]\<rparr>"
    using handle_request_retry [OF st, of cfg now' R items edus'] assms(8,10,11) items(1) one by (auto split: if_splits)
  moreover have "get_latest_educount (wdb w2) server = last_count"
    by (simp add: w2 w1(1) get_latest_educount_def set_latest_educount_def table_get_def)
  ultimately show ?thesis using w1(3) one by (simp add: w2)
qed

definition fed_msg :: msg where
  "fed_msg = \<lparr>msg_dest = Federation [0x61], msg_event = small_event 1, queue_id = get_prefix (Federation [0x61]) @ replicate 16 1\<rparr>"

definition fed_worker :: worker where
  "fed_worker = \<lparr>wdb = small_db [] [(queue_id fed_msg, [])], statuses = Map.empty, futures = []\<rparr>"

end
