(* ===== verification/PduMetadata.thy ===== *)
theory PduMetadata
  imports Timeline
begin

text \<open>
  What is known about events and rooms besides the events: \<open>src/src/service/rooms/pdu_metadata/\<close> (relations
  between events, which events other events refer to, and the marks of rejected and soft-failed events) and
  \<open>src/src/service/rooms/metadata/mod.rs\<close> (whether a room exists, is disabled or banned, and its least depth).
\<close>

subsection \<open>State\<close>

record metadata_db =
  tofrom_relation :: "bytes column"
  referencedevents :: table
  softfailedeventids :: table
  rejectedeventids :: table
  disabledroomids :: table
  bannedroomids :: table
  roomid_mindepth :: table

subsection \<open>Marks of events\<close>

definition mark_event_soft_failed :: "bytes \<Rightarrow> metadata_db \<Rightarrow> metadata_db" where
  "mark_event_soft_failed event_id db = db\<lparr>softfailedeventids := (softfailedeventids db)(event_id \<mapsto> [])\<rparr>"

definition unmark_event_soft_failed :: "bytes \<Rightarrow> metadata_db \<Rightarrow> metadata_db" where
  "unmark_event_soft_failed event_id db = db\<lparr>softfailedeventids := (softfailedeventids db)(event_id := None)\<rparr>"

definition is_event_soft_failed :: "metadata_db \<Rightarrow> bytes \<Rightarrow> bool" where
  "is_event_soft_failed db event_id \<longleftrightarrow> softfailedeventids db event_id \<noteq> None"

definition mark_event_rejected :: "bytes \<Rightarrow> metadata_db \<Rightarrow> metadata_db" where
  "mark_event_rejected event_id db = db\<lparr>rejectedeventids := (rejectedeventids db)(event_id \<mapsto> [])\<rparr>"

definition unmark_event_rejected :: "bytes \<Rightarrow> metadata_db \<Rightarrow> metadata_db" where
  "unmark_event_rejected event_id db = db\<lparr>rejectedeventids := (rejectedeventids db)(event_id := None)\<rparr>"

definition is_event_rejected :: "metadata_db \<Rightarrow> bytes \<Rightarrow> bool" where
  "is_event_rejected db event_id \<longleftrightarrow> rejectedeventids db event_id \<noteq> None"

definition clear_pdu_markers :: "bytes \<Rightarrow> metadata_db \<Rightarrow> metadata_db" where
  "clear_pdu_markers event_id db = unmark_event_soft_failed event_id (unmark_event_rejected event_id db)"

definition is_event_accepted :: "metadata_db \<Rightarrow> bytes \<Rightarrow> bool" where
  "is_event_accepted db event_id \<longleftrightarrow> \<not> is_event_rejected db event_id \<and> \<not> is_event_soft_failed db event_id"

definition mark_as_referenced :: "bytes \<Rightarrow> bytes list \<Rightarrow> metadata_db \<Rightarrow> metadata_db" where
  "mark_as_referenced room_id event_ids db =
     db\<lparr>referencedevents := fold (\<lambda>prev t. t(pair_key (room_id, prev) \<mapsto> [])) event_ids (referencedevents db)\<rparr>"

definition is_event_referenced :: "metadata_db \<Rightarrow> bytes \<Rightarrow> bytes \<Rightarrow> bool" where
  "is_event_referenced db room_id event_id \<longleftrightarrow> referencedevents db (pair_key (room_id, event_id)) \<noteq> None"

lemma referenced_iff:
  assumes "key_pair_ok (room, e)" and "\<forall>p \<in> set ps. key_pair_ok (room', p)"
  shows "is_event_referenced (mark_as_referenced room' ps db) room e
    \<longleftrightarrow> (room = room' \<and> e \<in> set ps) \<or> is_event_referenced db room e"
proof -
  have "fold (\<lambda>prev t. t(pair_key (room', prev) \<mapsto> [])) ps t (pair_key (room, e)) \<noteq> None
      \<longleftrightarrow> (room = room' \<and> e \<in> set ps) \<or> t (pair_key (room, e)) \<noteq> None" for t
    using assms(2)
  proof (induction ps arbitrary: t)
    case (Cons p ps)
    have "pair_key (room, e) = pair_key (room', p) \<longleftrightarrow> room = room' \<and> e = p"
      using pair_keys.key_inject [of room e room' p] assms(1) Cons.prems by (simp add: key_pair_ok_def)
    then show ?case using Cons by auto
  qed simp
  then show ?thesis by (simp add: is_event_referenced_def mark_as_referenced_def)
qed

subsection \<open>Relations\<close>

text \<open>The keys are slices of two numbers, which the serializer writes without a separator.\<close>

definition relation_key :: "u64 \<Rightarrow> u64 \<Rightarrow> bytes" where
  "relation_key to from = to_be_bytes to @ to_be_bytes from"

definition put_relation :: "u64 \<Rightarrow> u64 \<Rightarrow> metadata_db \<Rightarrow> metadata_db" where
  "put_relation from to db = db\<lparr>tofrom_relation := col_insert (relation_key to from) [] (tofrom_relation db)\<rparr>"

fun add_relation :: "count \<Rightarrow> count \<Rightarrow> metadata_db \<Rightarrow> metadata_db" where
  "add_relation (Normal f) (Normal t) db = put_relation f t db"
| "add_relation from to db = db"

text \<open>
  The counts of the events that relate to \<open>target\<close>, from \<open>from\<close> on in a direction, and the events
  at those counts, to each of which \<open>set_unsigned\<close> adds what the user may see.
\<close>

definition relation_counts :: "metadata_db \<Rightarrow> u64 \<Rightarrow> count \<Rightarrow> direction \<Rightarrow> count list" where
  "relation_counts db target from dir =
     (let current = relation_key target (into_unsigned from);
          keys = map fst (takeWhile (\<lambda>(key, _). starts_with (to_be_bytes target) key)
            (case dir of
               Forward \<Rightarrow> raw_stream_from (tofrom_relation db) current
             | Backward \<Rightarrow> rev_raw_stream_from (tofrom_relation db) current))
      in filter (\<lambda>c. from = count_min \<or> from = count_max
             \<or> (case dir of
                  Forward \<Rightarrow> into_unsigned from < into_unsigned c
                | Backward \<Rightarrow> into_unsigned c < into_unsigned from))
           (map (\<lambda>to_from. from_unsigned (from_be_bytes (take 8 (drop 8 to_from)))) keys))"

definition relations_of ::
  "('j, 'p) json_codec \<Rightarrow> ('p \<Rightarrow> 'p) \<Rightarrow> timeline_db \<Rightarrow> metadata_db \<Rightarrow> u64 \<Rightarrow> u64 \<Rightarrow> count \<Rightarrow> direction \<Rightarrow> (count \<times> 'p) list" where
  "relations_of C set_unsigned tdb db room target from dir =
     List.map_filter (\<lambda>c.
         case get_pdu_from_id C tdb (raw_from_id \<lparr>shortroomid = room, shorteventid = c\<rparr>) of
           Inl _ \<Rightarrow> None
         | Inr pdu \<Rightarrow> Some (c, set_unsigned pdu))
       (relation_counts db target from dir)"

text \<open>A backfilled target has the number 0, which no relation has.\<close>

fun relation_target :: "count \<Rightarrow> u64" where
  "relation_target (Normal c) = c"
| "relation_target (Backfilled _) = 0"

text \<open>The relations of one event: pushed while the depth allows, added until the limit is reached.\<close>

fun push_relations ::
  "nat \<Rightarrow> u8 \<Rightarrow> nat \<Rightarrow> (count \<times> 'p) list \<Rightarrow> ((count \<times> 'p) \<times> nat) list \<Rightarrow> (count \<times> 'p) list
   \<Rightarrow> bool \<times> ((count \<times> 'p) \<times> nat) list \<times> (count \<times> 'p) list" where
  "push_relations limit max_depth d [] stack acc = (False, stack, acc)"
| "push_relations limit max_depth d (relation # relations) stack acc =
     (let stack = (if d < unat max_depth then stack @ [(relation, min (d + 1) 255)] else stack);
          acc = acc @ [relation]
      in if limit \<le> length acc then (True, stack, acc)
         else push_relations limit max_depth d relations stack acc)"

text \<open>Every relation found adds events that are deeper, which bounds the loop.\<close>

definition depths_left :: "u8 \<Rightarrow> ((count \<times> 'p) \<times> nat) list \<Rightarrow> nat multiset" where
  "depths_left max_depth stack = image_mset (\<lambda>(_, d). unat max_depth - d) (mset stack)"

lemma push_relations_depths:
  "\<exists>K. depths_left max_depth (fst (snd (push_relations limit max_depth d relations stack acc)))
      = depths_left max_depth stack + K \<and> (\<forall>k \<in># K. k < unat max_depth - d)"
proof (induction relations arbitrary: stack acc)
  case Nil
  show ?case by (rule exI [of _ "{#}"]) simp
next
  case (Cons r rs)
  let ?stack = "if d < unat max_depth then stack @ [(r, min (d + 1) 255)] else stack"
  have "unat max_depth < 2 ^ LENGTH(8)" by (rule unsigned_less)
  then have "\<exists>K. depths_left max_depth ?stack = depths_left max_depth stack + K \<and> (\<forall>k \<in># K. k < unat max_depth - d)"
    by (intro exI [of _ "if d < unat max_depth then {#unat max_depth - min (d + 1) 255#} else {#}"]) (auto simp: depths_left_def)
  then obtain K where K: "depths_left max_depth ?stack = depths_left max_depth stack + K" "\<forall>k \<in># K. k < unat max_depth - d"
    by blast
  show ?case
  proof (cases "limit \<le> length (acc @ [r])")
    case True
    then show ?thesis using K by (auto simp: Let_def)
  next
    case False
    obtain K' where "depths_left max_depth (fst (snd (push_relations limit max_depth d rs ?stack (acc @ [r]))))
        = depths_left max_depth ?stack + K'" "\<forall>k \<in># K'. k < unat max_depth - d" using Cons by blast
    then have "depths_left max_depth (fst (snd (push_relations limit max_depth d (r # rs) stack acc)))
        = depths_left max_depth stack + (K + K') \<and> (\<forall>k \<in># K + K'. k < unat max_depth - d)"
      using False K by (auto simp: Let_def)
    then show ?thesis by blast
  qed
qed

function relation_loop ::
  "nat \<Rightarrow> u8 \<Rightarrow> (u64 \<Rightarrow> (count \<times> 'p) list) \<Rightarrow> ((count \<times> 'p) \<times> nat) list \<Rightarrow> (count \<times> 'p) list \<Rightarrow> (count \<times> 'p) list" where
  "relation_loop limit max_depth fetch stack acc =
     (if stack = [] then acc
      else (case push_relations limit max_depth (snd (last stack)) (fetch (relation_target (fst (fst (last stack)))))
                   (butlast stack) acc of
              (stop, stack', acc') \<Rightarrow> if stop then acc' else relation_loop limit max_depth fetch stack' acc'))"
  by pat_completeness auto
termination
proof (relation "inv_image (mult less_than) (\<lambda>(limit, max_depth, fetch, stack, acc). depths_left max_depth stack)", goal_cases)
  case 1
  show ?case by (simp add: wf_mult)
next
  case (2 limit max_depth fetch stack acc stop p stack' acc')
  let ?d = "snd (last stack)"
  obtain K where K: "depths_left max_depth stack' = depths_left max_depth (butlast stack) + K" "\<forall>k \<in># K. k < unat max_depth - ?d"
    using push_relations_depths [of max_depth limit ?d "fetch (relation_target (fst (fst (last stack))))" "butlast stack" acc] 2(2) [symmetric] 2(3)
    by auto
  have "mset stack = mset (butlast stack @ [last stack])" using 2(1) by simp
  then have "depths_left max_depth stack = depths_left max_depth (butlast stack) + {#unat max_depth - ?d#}"
    by (simp add: depths_left_def case_prod_beta)
  moreover have "(depths_left max_depth (butlast stack) + K, depths_left max_depth (butlast stack) + {#unat max_depth - ?d#})
      \<in> mult less_than"
    using K(2) by (intro one_step_implies_mult) auto
  ultimately have "(depths_left max_depth stack', depths_left max_depth stack) \<in> mult less_than" using K(1) by simp
  then show ?case by simp
qed

declare relation_loop.simps [simp del]

definition get_relations ::
  "('j, 'p) json_codec \<Rightarrow> ('p \<Rightarrow> 'p) \<Rightarrow> timeline_db \<Rightarrow> metadata_db \<Rightarrow> bytes \<Rightarrow> bytes \<Rightarrow> count \<Rightarrow> nat \<Rightarrow> u8 \<Rightarrow> direction
   \<Rightarrow> (count \<times> 'p) list" where
  "get_relations C set_unsigned tdb db room_id target from limit max_depth dir =
     (case (get_shortroomid (tl_short tdb) room_id, get_pdu_count tdb target) of
        (Inr room, Inr target) \<Rightarrow>
          (let fetch = (\<lambda>t. relations_of C set_unsigned tdb db room t from dir);
               acc = fetch (relation_target target);
               stack = map (\<lambda>pdu. (pdu, 1)) (filter (\<lambda>_. 0 < unat max_depth) acc)
           in relation_loop limit max_depth fetch stack acc)
      | _ \<Rightarrow> [])"

subsection \<open>Rooms\<close>

definition room_exists :: "timeline_db \<Rightarrow> bytes \<Rightarrow> bool" where
  "room_exists tdb room_id =
     (case get_shortroomid (tl_short tdb) room_id of
        Inl _ \<Rightarrow> False
      | Inr prefix \<Rightarrow> raw_keys_prefix (pduid_pdu tdb) (to_be_bytes prefix) \<noteq> [])"

definition disable_room :: "bytes \<Rightarrow> bool \<Rightarrow> metadata_db \<Rightarrow> metadata_db" where
  "disable_room room_id disabled db =
     (if disabled then db\<lparr>disabledroomids := (disabledroomids db)(room_id \<mapsto> [])\<rparr>
      else db\<lparr>disabledroomids := (disabledroomids db)(room_id := None)\<rparr>)"

definition is_disabled :: "metadata_db \<Rightarrow> bytes \<Rightarrow> bool" where
  "is_disabled db room_id \<longleftrightarrow> disabledroomids db room_id \<noteq> None"

definition ban_room :: "bytes \<Rightarrow> bool \<Rightarrow> metadata_db \<Rightarrow> metadata_db" where
  "ban_room room_id banned db =
     (if banned then db\<lparr>bannedroomids := (bannedroomids db)(room_id \<mapsto> [])\<rparr>
      else db\<lparr>bannedroomids := (bannedroomids db)(room_id := None)\<rparr>)"

definition is_banned :: "metadata_db \<Rightarrow> bytes \<Rightarrow> bool" where
  "is_banned db room_id \<longleftrightarrow> bannedroomids db room_id \<noteq> None"

text \<open>\<open>deserialized::<UInt>\<close> refuses numbers above the library's 53 bits.\<close>

definition get_mindepth :: "metadata_db \<Rightarrow> bytes \<Rightarrow> nat" where
  "get_mindepth db room_id =
     (case bindR (table_get (roomid_mindepth db) room_id) de_u64 of
        Inr n \<Rightarrow> (if unat n \<le> 2 ^ 53 - 1 then unat n else 0) | Inl _ \<Rightarrow> 0)"

definition set_mindepth :: "bytes \<Rightarrow> u64 \<Rightarrow> metadata_db \<Rightarrow> metadata_db" where
  "set_mindepth room_id min_depth db =
     db\<lparr>roomid_mindepth := (roomid_mindepth db)(room_id \<mapsto> to_be_bytes min_depth)\<rparr>"

definition maybe_set_mindepth :: "bytes \<Rightarrow> u64 \<Rightarrow> metadata_db \<Rightarrow> metadata_db" where
  "maybe_set_mindepth room_id min_depth db =
     (if get_mindepth db room_id < unat min_depth then set_mindepth room_id min_depth db else db)"

subsection \<open>What a scan for relations finds\<close>

text \<open>Relations are recorded between live events only; their counts are positive.\<close>

definition relations_ok :: "metadata_db \<Rightarrow> bool" where
  "relations_ok db \<longleftrightarrow> column_ok (tofrom_relation db)
     \<and> (\<forall>k \<in> fst ` set (tofrom_relation db). \<exists>t f. 0 < sint f \<and> k = relation_key t f)"

definition related :: "metadata_db \<Rightarrow> u64 \<Rightarrow> u64 \<Rightarrow> bool" where
  "related db t f \<longleftrightarrow> map_of (tofrom_relation db) (relation_key t f) \<noteq> None"

text \<open>The events that relate to a target, in the order of their counts.\<close>

definition related_to :: "metadata_db \<Rightarrow> u64 \<Rightarrow> u64 list" where
  "related_to db t = map (\<lambda>k. from_be_bytes (take 8 (drop 8 k))) (raw_keys_prefix (tofrom_relation db) (to_be_bytes t))"

interpretation relation_keys: prefixed_keys "\<lambda>_. True" "\<lambda>_ f. 0 < sint f" to_be_bytes relation_key
  by unfold_locales (auto simp: relation_key_def starts_with_def to_be_bytes_inject)

lemma relation_key_source [simp]: "from_be_bytes (take 8 (drop 8 (relation_key t f))) = f"
  by (simp add: relation_key_def)

lemma relation_key_less: "relation_key t a < relation_key t b \<longleftrightarrow> a < b"
  by (simp add: relation_key_def lex_less_append_same to_be_bytes_less_iff)

lemma relation_key_le: "relation_key t a \<le> relation_key t b \<longleftrightarrow> a \<le> b"
  using relation_key_less [of t b a] by (simp add: linorder_not_less [symmetric])

lemma relation_scan:
  assumes "relations_ok db"
  shows "raw_keys_prefix (tofrom_relation db) (to_be_bytes t) = map (relation_key t) (related_to db t)"
    and "set (related_to db t) = {f. related db t f \<and> 0 < sint f}" and "sorted_wrt (<) (related_to db t)"
proof -
  let ?keys = "raw_keys_prefix (tofrom_relation db) (to_be_bytes t)"
  have col: "column_ok (tofrom_relation db)" using assms by (simp add: relations_ok_def)
  have scan: "set (raw_stream_prefix (tofrom_relation db) (to_be_bytes t))
      = {(relation_key t i, v) | i v. 0 < sint i \<and> map_of (tofrom_relation db) (relation_key t i) = Some v}"
    using assms by (intro relation_keys.scan_owner col) (auto simp: relations_ok_def)
  have keys: "k = relation_key t (from_be_bytes (take 8 (drop 8 k)))" if kin: "k \<in> set ?keys" for k
    using kin scan by (auto simp: raw_keys_prefix_def)
  then show *: "?keys = map (relation_key t) (related_to db t)" by (simp add: related_to_def map_idI)
  have "set ?keys = relation_key t ` {f. related db t f \<and> 0 < sint f}"
    unfolding raw_keys_prefix_def list.set_map scan
    by (auto simp: related_def image_iff) blast
  then have "relation_key t ` set (related_to db t) = relation_key t ` {f. related db t f \<and> 0 < sint f}"
    unfolding * list.set_map .
  moreover have "inj (relation_key t)" by (simp add: inj_def relation_key_def to_be_bytes_inject)
  ultimately show "set (related_to db t) = {f. related db t f \<and> 0 < sint f}" by (simp add: inj_image_eq_iff)
  have "sorted_wrt (<) (map (relation_key t) (related_to db t))"
    using raw_keys_prefix_sorted [OF col, of "to_be_bytes t"] unfolding * .
  then show "sorted_wrt (<) (related_to db t)" by (simp add: sorted_wrt_map relation_key_less)
qed

lemma keys_filter: "map fst (filter (\<lambda>(k, _). P k) t) = filter P (map fst t)"
  by (induction t) auto

lemma forward_keys:
  assumes "relations_ok db"
  shows "map fst (takeWhile (\<lambda>(k, _). starts_with (to_be_bytes t) k) (raw_stream_from (tofrom_relation db) (relation_key t c)))
    = map (relation_key t) (filter (\<lambda>f. c \<le> f) (related_to db t))"
proof -
  have "column_ok (tofrom_relation db)" using assms by (simp add: relations_ok_def)
  moreover have "starts_with (to_be_bytes t) (relation_key t c)" by (simp add: relation_key_def)
  ultimately show ?thesis using relation_scan(1) [OF assms, of t]
    by (simp add: scan_from_prefix raw_keys_prefix_def keys_filter filter_map comp_def relation_key_le)
qed

lemma backward_keys:
  assumes "relations_ok db"
  shows "map fst (takeWhile (\<lambda>(k, _). starts_with (to_be_bytes t) k) (rev_raw_stream_from (tofrom_relation db) (relation_key t c)))
    = map (relation_key t) (rev (filter (\<lambda>f. f \<le> c) (related_to db t)))"
proof -
  have "column_ok (tofrom_relation db)" using assms by (simp add: relations_ok_def)
  moreover have "starts_with (to_be_bytes t) (relation_key t c)" by (simp add: relation_key_def)
  ultimately show ?thesis using relation_scan(1) [OF assms, of t]
    by (simp add: rev_scan_from_prefix raw_keys_prefix_def keys_filter filter_map comp_def relation_key_le rev_map [symmetric])
qed

lemma positive_bound:
  assumes "0 < sint (f::u64)"
  shows "f \<le> 9223372036854775807" and "f < - 9223372036854775808" and "from_unsigned f = Normal f"
proof -
  have "sint f < 2 ^ 63" using sint_lt [of f] by simp
  moreover have "uint f < 2 ^ 64" using uint_lt2p [of f] by simp
  ultimately have f: "uint f = sint f" "sint f \<le> 2 ^ 63 - 1" using assms by (auto simp: sint_uint_64 split: if_splits)
  have "uint (- 9223372036854775808 :: u64) = 9223372036854775808" by simp
  then show "f < - 9223372036854775808" unfolding word_less_def using f by simp
  have "uint (9223372036854775807 :: u64) = 9223372036854775807" by simp
  then show "f \<le> 9223372036854775807" unfolding word_le_def using f by simp
  show "from_unsigned f = Normal f" using assms by (simp add: from_unsigned_def from_signed_def)
qed

lemma relation_counts_eq:
  assumes "relations_ok db"
  shows "relation_counts db t from dir = map Normal (filter (\<lambda>f. from = count_min \<or> from = count_max
       \<or> (case dir of Forward \<Rightarrow> into_unsigned from < f | Backward \<Rightarrow> f < into_unsigned from))
     (case dir of
        Forward \<Rightarrow> filter (\<lambda>f. into_unsigned from \<le> f) (related_to db t)
      | Backward \<Rightarrow> rev (filter (\<lambda>f. f \<le> into_unsigned from) (related_to db t))))"
    (is "_ = map Normal (filter ?P ?fs)")
proof -
  let ?Q = "\<lambda>c. from = count_min \<or> from = count_max
       \<or> (case dir of Forward \<Rightarrow> into_unsigned from < into_unsigned c | Backward \<Rightarrow> into_unsigned c < into_unsigned from)"
  let ?h = "\<lambda>k. from_unsigned (from_be_bytes (take 8 (drop 8 k)))"
  have "relation_counts db t from dir = filter ?Q (map ?h (map (relation_key t) ?fs))"
    by (cases dir) (simp_all only: relation_counts_def Let_def direction.simps forward_keys [OF assms] backward_keys [OF assms])
  also have "map ?h (map (relation_key t) ?fs) = map Normal ?fs"
    using relation_scan(2) [OF assms, of t] by (cases dir) (auto simp: positive_bound)
  also have "filter ?Q (map Normal ?fs) = map Normal (filter ?P ?fs)"
    by (cases dir) (simp_all only: direction.simps filter_map comp_def into_unsigned.simps)
  finally show ?thesis .
qed

text \<open>What a scan of a table of relations between live events finds.\<close>

lemma relation_counts_scan:
  assumes "relations_ok db"
  shows "set (related_to db t) = {f. related db t f \<and> 0 < sint f} \<and> sorted_wrt (<) (related_to db t)
    \<and> relation_counts db t count_max Backward = map Normal (rev (related_to db t))
    \<and> relation_counts db t count_min Forward = []
    \<and> (\<forall>c. Normal c \<noteq> count_max \<longrightarrow>
         relation_counts db t (Normal c) Forward = map Normal (filter (\<lambda>f. c < f) (related_to db t))
       \<and> relation_counts db t (Normal c) Backward = map Normal (rev (filter (\<lambda>f. f < c) (related_to db t))))"
proof -
  have all: "\<forall>f \<in> set (related_to db t). f \<le> 9223372036854775807 \<and> f < - 9223372036854775808"
    using relation_scan(2) [OF assms, of t] positive_bound by blast
  have "relation_counts db t count_max Backward = map Normal (rev (filter (\<lambda>f. f \<le> 9223372036854775807) (related_to db t)))"
    using relation_counts_eq [OF assms, of t count_max Backward] by (simp add: count_max_def)
  moreover have "filter (\<lambda>f. f \<le> 9223372036854775807) (related_to db t) = related_to db t"
    using all by (intro filter_True) simp
  moreover have "relation_counts db t count_min Forward = map Normal (filter (\<lambda>f. - 9223372036854775808 \<le> f) (related_to db t))"
    using relation_counts_eq [OF assms, of t count_min Forward] by (simp add: count_min_def)
  moreover have "filter (\<lambda>f. - 9223372036854775808 \<le> f) (related_to db t) = []"
    using all by (force simp: filter_empty_conv)
  moreover have both: "(\<lambda>x. c \<le> x \<and> c < x) = (<) c" "(\<lambda>x. x \<le> c \<and> x < c) = (\<lambda>x. x < c)" for c :: u64 by auto
  have "relation_counts db t (Normal c) Forward = map Normal (filter (\<lambda>f. c < f) (related_to db t))
      \<and> relation_counts db t (Normal c) Backward = map Normal (rev (filter (\<lambda>f. f < c) (related_to db t)))"
    if c: "Normal c \<noteq> count_max" for c
    using relation_counts_eq [OF assms, of t "Normal c" Forward] relation_counts_eq [OF assms, of t "Normal c" Backward] c
    by (simp add: count_min_def rev_filter [symmetric] both)
  then have "\<forall>c. Normal c \<noteq> count_max \<longrightarrow>
         relation_counts db t (Normal c) Forward = map Normal (filter (\<lambda>f. c < f) (related_to db t))
       \<and> relation_counts db t (Normal c) Backward = map Normal (rev (filter (\<lambda>f. f < c) (related_to db t)))" by blast
  ultimately show ?thesis using relation_scan(2,3) [OF assms, of t] by simp
qed

lemma put_relation_ok: "relations_ok db \<Longrightarrow> 0 < sint f \<Longrightarrow> relations_ok (put_relation f t db)"
  by (auto simp: relations_ok_def put_relation_def col_insert_keys)

lemma related_put: "column_ok (tofrom_relation db) \<Longrightarrow> related (put_relation f t db) t' f' \<longleftrightarrow> (t', f') = (t, f) \<or> related db t' f'"
  by (auto simp: related_def put_relation_def relation_key_def to_be_bytes_inject)

lemma add_relations_ok:
  assumes "relations_ok db" and "\<forall>f. Normal f \<in> fst ` set added \<longrightarrow> 0 < sint f"
  shows "relations_ok (fold (\<lambda>(from, to). add_relation from to) added db)
    \<and> (\<forall>t f. related (fold (\<lambda>(from, to). add_relation from to) added db) t f \<longleftrightarrow> (Normal f, Normal t) \<in> set added \<or> related db t f)"
  using assms
proof (induction added arbitrary: db)
  case (Cons a added)
  obtain x y where a: "a = (x, y)" by (cases a)
  have col: "column_ok (tofrom_relation db)" using Cons.prems(1) by (simp add: relations_ok_def)
  have step: "relations_ok (add_relation x y db)
      \<and> (\<forall>t f. related (add_relation x y db) t f \<longleftrightarrow> (Normal f, Normal t) = (x, y) \<or> related db t f)"
    using Cons.prems a by (cases x; cases y) (auto simp: put_relation_ok related_put [OF col])
  show ?case using Cons.IH [of "add_relation x y db"] step Cons.prems(2) a by auto
qed simp

text \<open>C37. After any sequence of relations between events, recorded from an empty table, the relations of an event are those
  live events (their numbers are below \<open>2^63\<close>) that were recorded as pointing to it, and no others: the number it is found under is that of the event
  pointed to. From the greatest position back all are found, latest first; from the position of a live event
  forward those after it, oldest first, and backward those before it, latest first. A scan forward from the least position,
  which is where a request without a position starts, finds none: that position has the number of a negative count,
  above those of all relations. (Scans from other backfilled positions are not covered.)
\<close>

theorem relation_counts_correct:
  assumes "tofrom_relation db = []" and "\<forall>f. Normal f \<in> fst ` set added \<longrightarrow> 0 < sint f"
    and "db' = fold (\<lambda>(from, to). add_relation from to) added db"
    and "fs = sorted_list_of_set {f. (Normal f, Normal t) \<in> set added}"
  shows "relation_counts db' t count_max Backward = map Normal (rev fs)
    \<and> relation_counts db' t count_min Forward = []
    \<and> (\<forall>c. Normal c \<noteq> count_max \<longrightarrow>
         relation_counts db' t (Normal c) Forward = map Normal (filter (\<lambda>f. c < f) fs)
       \<and> relation_counts db' t (Normal c) Backward = map Normal (rev (filter (\<lambda>f. f < c) fs)))"
proof -
  have ok: "relations_ok db'" and rel: "\<And>f. related db' t f \<longleftrightarrow> (Normal f, Normal t) \<in> set added"
    unfolding assms(3) using add_relations_ok [of db added] assms(1,2) by (auto simp: relations_ok_def related_def)
  have fin: "finite {f. (Normal f, Normal t) \<in> set added}"
    by (rule finite_subset [of _ "(\<lambda>(c, _). case c of Normal f \<Rightarrow> f) ` set added"]) (force, simp)
  have "set (related_to db' t) = set fs"
    using relation_scan(2) [OF ok, of t] assms(2) fin unfolding assms(4) rel by force
  moreover have "sorted_wrt (<) fs" unfolding assms(4) by simp
  ultimately have "related_to db' t = fs"
    using sorted_wrt_unique [OF _ relation_scan(3) [OF ok, of t], of fs] by simp
  then show ?thesis using relation_counts_scan [OF ok, of t] by simp
qed

definition empty_metadata :: metadata_db where
  "empty_metadata = \<lparr>tofrom_relation = [], referencedevents = Map.empty, softfailedeventids = Map.empty,
     rejectedeventids = Map.empty, disabledroomids = Map.empty, bannedroomids = Map.empty, roomid_mindepth = Map.empty\<rparr>"

theorem relation_counts_correct_witness:
  "let db = add_relation (Normal 9) (Normal 5) (add_relation (Normal 7) (Normal 5) (add_relation (Normal 8) (Normal 6) empty_metadata)) in
     relation_counts db 5 count_max Backward = [Normal 9, Normal 7] \<and> relation_counts db 5 (Normal 7) Forward = [Normal 9]
     \<and> relation_counts db 5 count_min Forward = []"
proof -
  let ?added = "[(Normal 8, Normal 6), (Normal 7, Normal 5), (Normal 9, Normal 5)]"
  have "{f. (Normal f, Normal 5) \<in> set ?added} = {7, 9}" by auto
  then have fs: "[7, 9] = sorted_list_of_set {f. (Normal f, Normal 5) \<in> set ?added}" by simp
  have pos: "\<forall>f. Normal f \<in> fst ` set ?added \<longrightarrow> 0 < sint f" by auto
  have "tofrom_relation empty_metadata = []" "Normal 7 \<noteq> count_max" by (simp_all add: empty_metadata_def count_max_def)
  then show ?thesis using relation_counts_correct [OF _ pos refl fs, of empty_metadata] by (simp add: Let_def)
qed

end
