(* ===== verification/ReadReceipt.thy ===== *)
theory ReadReceipt
  imports StateCache Timeline
begin

text \<open>
  Read receipts: \<open>src/src/service/rooms/read_receipt/data.rs\<close>. A receipt is stored under its room, a number
  drawn from the global counter and its user; updating a user's receipt in a room deletes the previous one. The
  table refines a map from rooms and users to the number and content of their latest receipt, as long as no
  identifier in use is a proper prefix (rooms) or suffix (users) of another, and a scan since a number returns the
  receipts that are newer.
\<close>

subsection \<open>State and operations\<close>

record receipts_db =
  rr_short :: short_db
  roomuserid_privateread :: table
  roomuserid_lastprivatereadupdate :: table
  readreceiptid_readreceipt :: "bytes column"

definition receipt_key :: "bytes \<Rightarrow> u64 \<Rightarrow> bytes \<Rightarrow> bytes" where
  "receipt_key room_id n user_id =
     (case serialize_to_vec (SerTuple [SerStr room_id, SerU64 n, SerStr user_id]) of Inr b \<Rightarrow> b | Inl _ \<Rightarrow> [])"

text \<open>The key \<open>(room_id, count)\<close>, from which scans start.\<close>

definition receipt_start :: "bytes \<Rightarrow> u64 \<Rightarrow> bytes" where
  "receipt_start room_id n =
     (case serialize_to_vec (SerTuple [SerStr room_id, SerU64 n]) of Inr b \<Rightarrow> b | Inl _ \<Rightarrow> [])"

definition ends_with :: "bytes \<Rightarrow> bytes \<Rightarrow> bool" where
  "ends_with s k \<longleftrightarrow> starts_with (rev s) (rev k)"

text \<open>\<open>event\<close> is the text of the receipt's JSON.\<close>

definition readreceipt_update :: "bytes \<Rightarrow> bytes \<Rightarrow> bytes \<Rightarrow> receipts_db \<Rightarrow> receipts_db" where
  "readreceipt_update user_id room_id event db =
     (let old = filter (ends_with user_id)
            (takeWhile (starts_with room_id)
               (map fst (rev_raw_stream_from (readreceiptid_readreceipt db) (receipt_start room_id (- 1)))));
          t = fold col_remove old (readreceiptid_readreceipt db)
      in case next_count (rr_short db) of (n, sdb) \<Rightarrow>
           db\<lparr>rr_short := sdb, readreceiptid_readreceipt := col_insert (receipt_key room_id n user_id) event t\<rparr>)"

definition de_receipt_key :: "id_rules \<Rightarrow> bytes \<Rightarrow> service_error + bytes \<times> u64 \<times> bytes" where
  "de_receipt_key R k =
     (case from_slice (DeTuple [DeStr, DeU64, DeStr]) k of
        Inr (ValTuple [ValStr r, ValU64 c, ValStr u]) \<Rightarrow>
          if room_id_ok R r \<and> user_id_ok R u then Inr (r, c, u) else Inl (DeErr (SerdeDe ''invalid identifier''))
      | Inr _ \<Rightarrow> Inl (DeErr InvalidLength)
      | Inl e \<Rightarrow> Inl (DeErr e))"

text \<open>
  \<open>read_object\<close> reads the stored text as an object, and \<open>without_room\<close> writes it again without the member
  \<open>room_id\<close>; entries that cannot be read are skipped.
\<close>

definition readreceipts_since ::
  "id_rules \<Rightarrow> (bytes \<Rightarrow> service_error + 'j) \<Rightarrow> ('j \<Rightarrow> service_error + 'raw) \<Rightarrow> receipts_db \<Rightarrow> bytes \<Rightarrow> u64
   \<Rightarrow> (bytes \<times> u64 \<times> 'raw) list" where
  "readreceipts_since R read_object without_room db room_id since =
     (let after_since = u64_saturating_add since 1;
          entries = ignore_err (map (\<lambda>(k, v).
              bindR (de_receipt_key R k) (\<lambda>key. bindR (read_object v) (\<lambda>json. Inr (key, json))))
            (raw_stream_from (readreceiptid_readreceipt db) (receipt_start room_id after_since)))
      in ignore_err (map (\<lambda>((_, n, user_id), json).
             bindR (without_room json) (\<lambda>event. Inr (user_id, n, event)))
           (takeWhile (\<lambda>((r, _), _). r = room_id) entries)))"

definition private_read_set :: "bytes \<Rightarrow> bytes \<Rightarrow> u64 \<Rightarrow> receipts_db \<Rightarrow> receipts_db" where
  "private_read_set room_id user_id read_count db =
     (case next_count (rr_short db) of (n, sdb) \<Rightarrow>
        db\<lparr>rr_short := sdb,
           roomuserid_privateread := (roomuserid_privateread db)(pair_key (room_id, user_id) \<mapsto> to_be_bytes read_count),
           roomuserid_lastprivatereadupdate :=
             (roomuserid_lastprivatereadupdate db)(pair_key (room_id, user_id) \<mapsto> to_be_bytes n)\<rparr>)"

definition private_read_get_count :: "receipts_db \<Rightarrow> bytes \<Rightarrow> bytes \<Rightarrow> service_error + u64" where
  "private_read_get_count db room_id user_id = bindR (table_get (roomuserid_privateread db) (pair_key (room_id, user_id))) de_u64"

definition last_privateread_update :: "receipts_db \<Rightarrow> bytes \<Rightarrow> bytes \<Rightarrow> u64" where
  "last_privateread_update db user_id room_id =
     u64_or_zero (roomuserid_lastprivatereadupdate db) (pair_key (room_id, user_id))"

subsection \<open>Keys\<close>

lemma receipt_key_eq: "receipt_key r c u = r @ SEP # to_be_bytes c @ SEP # u"
  using serialize_tuple_join [of "[SerStr r, SerU64 c, SerStr u]"] by (simp add: receipt_key_def)

lemma receipt_start_eq: "receipt_start r c = r @ SEP # to_be_bytes c"
  using serialize_tuple_join [of "[SerStr r, SerU64 c]"] by (simp add: receipt_start_def)

definition receipt_ids_ok :: "id_rules \<Rightarrow> bytes \<Rightarrow> bytes \<Rightarrow> bool" where
  "receipt_ids_ok R r u \<longleftrightarrow> key_pair_ok (r, u) \<and> length r + length u + 10 < usize_max \<and> room_id_ok R r \<and> user_id_ok R u"

lemma de_receipt_key_eq:
  assumes "receipt_ids_ok R r u"
  shows "de_receipt_key R (receipt_key r c u) = Inr (r, c, u)"
proof -
  let ?vs = "[SerStr r, SerU64 c, SerStr u]"
  let ?d = "sequence_start \<lparr>buf = receipt_key r c u, pos = 0, rec = 0, seq = False\<rparr>"
  have "de_ok ?d" using assms by (simp add: de_ok_def receipt_ids_ok_def receipt_key_eq)
  then have "\<exists>d'. visit_tuple [DeStr, DeU64, DeStr] ?d = Inr ([ValStr r, ValU64 c, ValStr u], d')"
    using assms
    by (intro visit_tuple_read_all [where vs = "?vs"]) (simp_all add: receipt_ids_ok_def key_pair_ok_def receipt_key_eq)
  then show ?thesis using assms by (auto simp: de_receipt_key_def from_slice_def receipt_ids_ok_def)
qed

text \<open>Keys by room: the item is the number and the user.\<close>

interpretation room_receipts: prefixed_keys utf8_ok "\<lambda>r (c, u). utf8_ok u" interfix "\<lambda>r (c, u). receipt_key r c u"
  by unfold_locales
    (auto simp: receipt_key_eq starts_with_interfix utf8_ok_no_SEP to_be_bytes_inject append_eq_append_conv)

lemma append_less_iff:
  assumes "length a = length (b::bytes)"
  shows "a @ x < b @ y \<longleftrightarrow> a < b \<or> a = b \<and> x < y"
  using assms by (induction a b rule: list_induct2) auto

lemma append_le_iff:
  assumes "length a = length (b::bytes)"
  shows "a @ x \<le> b @ y \<longleftrightarrow> a < b \<or> a = b \<and> x \<le> y"
  using append_less_iff [of b a y x] assms by (auto simp: not_less [symmetric])

lemma receipt_key_from: "receipt_start r n \<le> receipt_key r c u \<longleftrightarrow> n \<le> c"
proof -
  have "receipt_start r n \<le> receipt_key r c u \<longleftrightarrow> to_be_bytes n @ [] \<le> to_be_bytes c @ SEP # u"
    using append_le_iff [of "r @ [SEP]" "r @ [SEP]"] by (simp add: receipt_start_eq receipt_key_eq)
  also have "\<dots> \<longleftrightarrow> n \<le> c"
    by (subst append_le_iff) (auto simp: to_be_bytes_less_iff to_be_bytes_inject)
  finally show ?thesis .
qed

lemma receipt_key_less: "receipt_key r c u < receipt_key r c' u' \<longleftrightarrow> c < c' \<or> c = c' \<and> u < u'"
proof -
  have "receipt_key r c u < receipt_key r c' u' \<longleftrightarrow> to_be_bytes c @ SEP # u < to_be_bytes c' @ SEP # u'"
    using append_less_iff [of "r @ [SEP]" "r @ [SEP]"] by (simp add: receipt_key_eq)
  then show ?thesis by (subst (asm) append_less_iff) (auto simp: to_be_bytes_less_iff to_be_bytes_inject)
qed

lemma receipt_key_upto: "c \<noteq> - 1 \<Longrightarrow> receipt_key r c u \<le> receipt_start r (- 1)"
proof -
  assume "c \<noteq> - 1"
  then have "c < - 1" using word_order.extremum [of c] by (metis order_le_imp_less_or_eq)
  then have "to_be_bytes c @ SEP # u \<le> to_be_bytes (- 1 :: u64) @ []"
    by (subst append_le_iff) (auto simp: to_be_bytes_less_iff)
  then show ?thesis using append_le_iff [of "r @ [SEP]" "r @ [SEP]"] by (simp add: receipt_start_eq receipt_key_eq)
qed

subsection \<open>Refinement\<close>

text \<open>No room id in use is a proper prefix, and no user id a proper suffix, of another one in use.\<close>

definition separate_ids :: "id_rules \<Rightarrow> bytes set \<Rightarrow> bytes set \<Rightarrow> bool" where
  "separate_ids R rooms users \<longleftrightarrow> (\<forall>r \<in> rooms. \<forall>u \<in> users. receipt_ids_ok R r u)
     \<and> (\<forall>r \<in> rooms. \<forall>r' \<in> rooms. starts_with r r' \<longrightarrow> r = r')
     \<and> (\<forall>u \<in> users. \<forall>u' \<in> users. ends_with u u' \<longrightarrow> u = u')"

type_synonym latest_receipts = "bytes \<times> bytes \<Rightarrow> (u64 \<times> bytes) option"

definition receipts_refine :: "bytes set \<Rightarrow> bytes set \<Rightarrow> receipts_db \<Rightarrow> latest_receipts \<Rightarrow> bool" where
  "receipts_refine rooms users db A \<longleftrightarrow> column_ok (readreceiptid_readreceipt db)
     \<and> (\<forall>k v. map_of (readreceiptid_readreceipt db) k = Some v
          \<longleftrightarrow> (\<exists>r u c. A (r, u) = Some (c, v) \<and> k = receipt_key r c u))
     \<and> (\<forall>r u c v. A (r, u) = Some (c, v) \<longrightarrow> r \<in> rooms \<and> u \<in> users \<and> c \<le> counter (rr_short db))
     \<and> (\<forall>p q c v w. A p = Some (c, v) \<longrightarrow> A q = Some (c, w) \<longrightarrow> p = q)"

lemma starts_with_no_sep:
  assumes "starts_with r (r' @ SEP # rest)" and "SEP \<notin> set r"
  shows "starts_with r r'"
proof -
  have "take (length r) (r' @ SEP # rest) = r" using assms(1) by (simp add: starts_with_def)
  then have "length r \<le> length r'"
    using assms(2) by (metis append_take_drop_id in_set_conv_decomp le_eq_less_or_eq linorder_le_less_linear
        nth_append_length nth_mem nth_take)
  then show ?thesis using assms(1) by (simp add: starts_with_def)
qed

lemma old_receipt:
  assumes "separate_ids R rooms users" and "r \<in> rooms" "r' \<in> rooms" "u \<in> users" "u' \<in> users"
  shows "starts_with r (receipt_key r' c u') \<longleftrightarrow> r' = r" and "ends_with u (receipt_key r' c u') \<longleftrightarrow> u' = u"
proof -
  have no: "SEP \<notin> set r" "SEP \<notin> set (rev u)"
    using assms by (auto simp: separate_ids_def receipt_ids_ok_def key_pair_ok_def utf8_ok_no_SEP)
  have same: "starts_with r r' \<longleftrightarrow> r' = r" "ends_with u u' \<longleftrightarrow> u' = u"
    using assms by (auto simp: separate_ids_def ends_with_def starts_with_def)
  show "starts_with r (receipt_key r' c u') \<longleftrightarrow> r' = r"
    using starts_with_no_sep [OF _ no(1), of r'] same(1) by (auto simp: receipt_key_eq)
  have "starts_with (rev u) (rev u' @ SEP # rest) \<longleftrightarrow> u' = u" for rest
    using starts_with_no_sep [OF _ no(2), of "rev u'"] same(2) by (auto simp: ends_with_def)
  then show "ends_with u (receipt_key r' c u') \<longleftrightarrow> u' = u" by (simp add: ends_with_def receipt_key_eq)
qed

lemma keys_takeWhile: "map fst (takeWhile (\<lambda>(k, _). P k) t) = takeWhile P (map fst t)"
  by (induction t) auto

lemma update_old:
  assumes ref: "receipts_refine rooms users db A" and sep: "separate_ids R rooms users" and ru: "r \<in> rooms" "u \<in> users"
    and left: "unat (counter (rr_short db)) + 1 < 2 ^ 63"
  shows "set (filter (ends_with u) (takeWhile (starts_with r)
       (map fst (rev_raw_stream_from (readreceiptid_readreceipt db) (receipt_start r (- 1))))))
     = {receipt_key r c u | c v. A (r, u) = Some (c, v)}" (is "set (filter _ ?ks) = _")
proof -
  let ?t = "readreceiptid_readreceipt db"
  have col: "column_ok ?t" using ref by (simp add: receipts_refine_def)
  have stored: "k \<in> fst ` set ?t \<longleftrightarrow> (\<exists>r u c v. A (r, u) = Some (c, v) \<and> k = receipt_key r c u)" for k
    using ref unfolding receipts_refine_def by (metis (no_types, lifting) dom_map_of_conv_image_fst domIff not_Some_eq)
  have known: "r' \<in> rooms \<and> u' \<in> users \<and> c \<noteq> - 1" if "A (r', u') = Some (c, v)" for r' u' c v
  proof -
    have "r' \<in> rooms \<and> u' \<in> users \<and> c \<le> counter (rr_short db)" using ref that unfolding receipts_refine_def by blast
    moreover have "counter (rr_short db) < - 1" using left by (simp add: word_less_nat_alt unsigned_minus_1_eq_mask mask_eq_exp_minus_1)
    ultimately show ?thesis by auto
  qed
  have "starts_with r (receipt_start r (- 1))" by (simp add: receipt_start_eq)
  moreover have "?ks = map fst (takeWhile (\<lambda>(k, _). starts_with r k) (rev_raw_stream_from ?t (receipt_start r (- 1))))"
    by (simp add: keys_takeWhile)
  ultimately have "set ?ks = {k \<in> fst ` set ?t. starts_with r k \<and> k \<le> receipt_start r (- 1)}"
    by (auto simp: rev_scan_from_prefix [OF col] raw_stream_prefix_eq [OF col])
  then show ?thesis
    using known old_receipt [OF sep] ru receipt_key_upto by (auto simp: stored) blast+
qed

lemma readreceipt_update_refines:
  assumes ref: "receipts_refine rooms users db A" and sep: "separate_ids R rooms users" and ru: "r \<in> rooms" "u \<in> users"
    and left: "unat (counter (rr_short db)) + 1 < 2 ^ 63"
  shows "receipts_refine rooms users (readreceipt_update u r ev db) (A((r, u) \<mapsto> (counter (rr_short db) + 1, ev)))"
    and "counter (rr_short (readreceipt_update u r ev db)) = counter (rr_short db) + 1"
proof -
  let ?t = "readreceiptid_readreceipt db" and ?n = "counter (rr_short db) + 1"
  let ?A = "A((r, u) \<mapsto> (?n, ev))"
  define old where "old = filter (ends_with u) (takeWhile (starts_with r)
       (map fst (rev_raw_stream_from ?t (receipt_start r (- 1)))))"
  note nc = next_count_below [of "rr_short db" 1, simplified, OF left [simplified]]
  have db': "readreceipt_update u r ev db = db\<lparr>rr_short := snd (next_count (rr_short db)),
      readreceiptid_readreceipt := col_insert (receipt_key r ?n u) ev (fold col_remove old ?t)\<rparr>"
    by (simp add: readreceipt_update_def old_def nc)
  have col: "column_ok ?t" using ref by (simp add: receipts_refine_def)
  have old: "set old = {receipt_key r c u | c v. A (r, u) = Some (c, v)}"
    unfolding old_def by (rule update_old [OF ref sep ru left])
  have inj: "receipt_key r' c u' = receipt_key r'' c' u'' \<longleftrightarrow> r' = r'' \<and> c = c' \<and> u' = u''"
    if "r' \<in> rooms" "u' \<in> users" "r'' \<in> rooms" "u'' \<in> users" for r' u' r'' u'' c c'
  proof -
    have "utf8_ok r'" "utf8_ok u'" "utf8_ok r''" "utf8_ok u''"
      using that sep by (auto simp: separate_ids_def receipt_ids_ok_def key_pair_ok_def)
    then show ?thesis using room_receipts.key_inject [of r' "(c, u')" r'' "(c', u'')"] by auto
  qed
  have known: "r' \<in> rooms \<and> u' \<in> users \<and> c \<le> counter (rr_short db)" if "A (r', u') = Some (c, v)" for r' u' c v
    using ref that unfolding receipts_refine_def by blast
  have stored: "map_of ?t k = Some v \<longleftrightarrow> (\<exists>r u c. A (r, u) = Some (c, v) \<and> k = receipt_key r c u)" for k v
    using ref unfolding receipts_refine_def by blast
  have fresh: "\<not> ?n \<le> counter (rr_short db)" using nc(2) by (simp add: word_le_nat_alt)
  show c: "counter (rr_short (readreceipt_update u r ev db)) = ?n" by (simp add: db' nc)
  have "map_of (readreceiptid_readreceipt (readreceipt_update u r ev db)) k = Some v
      \<longleftrightarrow> (\<exists>r u c. ?A (r, u) = Some (c, v) \<and> k = receipt_key r c u)" for k v
  proof -
    have "map_of (readreceiptid_readreceipt (readreceipt_update u r ev db)) k = Some v
        \<longleftrightarrow> (if k = receipt_key r ?n u then v = ev else k \<notin> set old \<and> map_of ?t k = Some v)"
      using col by (auto simp: db' map_of_removes)
    also have "\<dots> \<longleftrightarrow> (\<exists>r u c. ?A (r, u) = Some (c, v) \<and> k = receipt_key r c u)"
    proof (cases "k = receipt_key r ?n u")
      case True
      have "False" if "A (r', u') = Some (c, w)" "k = receipt_key r' c u'" for r' u' c w
        using that True inj [of r' u' r u c ?n] known [OF that(1)] ru fresh by simp
      then show ?thesis using True by (auto simp: fun_upd_def split: if_splits)
    next
      case False
      have "k \<notin> set old \<and> map_of ?t k = Some v \<longleftrightarrow> (\<exists>r' u' c. A (r', u') = Some (c, v) \<and> k = receipt_key r' c u' \<and> (r', u') \<noteq> (r, u))"
      proof (intro iffI)
        assume "k \<notin> set old \<and> map_of ?t k = Some v"
        then obtain r' u' c where "A (r', u') = Some (c, v)" "k = receipt_key r' c u'" "k \<notin> set old" using stored by blast
        then show "\<exists>r' u' c. A (r', u') = Some (c, v) \<and> k = receipt_key r' c u' \<and> (r', u') \<noteq> (r, u)" unfolding old by blast
      next
        assume "\<exists>r' u' c. A (r', u') = Some (c, v) \<and> k = receipt_key r' c u' \<and> (r', u') \<noteq> (r, u)"
        then obtain r' u' c where a: "A (r', u') = Some (c, v)" "k = receipt_key r' c u'" "(r', u') \<noteq> (r, u)" by blast
        then have "k \<notin> set old" unfolding old using inj [of r' u' r u c] known [OF a(1)] ru by auto
        then show "k \<notin> set old \<and> map_of ?t k = Some v" using a stored by blast
      qed
      then show ?thesis using False by (auto simp: fun_upd_def split: if_splits)
    qed
    finally show ?thesis .
  qed
  moreover have "column_ok (readreceiptid_readreceipt (readreceipt_update u r ev db))" using col by (simp add: db')
  moreover have "r' \<in> rooms \<and> u' \<in> users \<and> c' \<le> ?n" if "?A (r', u') = Some (c', v')" for r' u' c' v'
  proof (cases "(r', u') = (r, u)")
    case False
    then have "A (r', u') = Some (c', v')" using that by (auto split: if_splits)
    then have "r' \<in> rooms \<and> u' \<in> users \<and> c' \<le> counter (rr_short db)" by (rule known)
    then show ?thesis using nc(3) by (meson order_trans)
  qed (use that ru in simp)
  moreover have "p = q" if "?A p = Some (c', v')" "?A q = Some (c', w')" for p q c' v' w'
  proof -
    have "A p = Some (c', v') \<Longrightarrow> A q = Some (c', w') \<Longrightarrow> p = q" using ref unfolding receipts_refine_def by blast
    moreover have none: "A x \<noteq> Some (?n, y)" for x y using known [of "fst x" "snd x" ?n y] fresh by auto
    moreover have "A p = Some (c', v')" if "p \<noteq> (r, u)" using that \<open>?A p = Some (c', v')\<close> by simp
    moreover have "A q = Some (c', w')" if "q \<noteq> (r, u)" using that \<open>?A q = Some (c', w')\<close> by simp
    moreover have "c' = ?n" if "p = (r, u) \<or> q = (r, u)" using that \<open>?A p = Some (c', v')\<close> \<open>?A q = Some (c', w')\<close> by auto
    ultimately show ?thesis by metis
  qed
  ultimately show "receipts_refine rooms users (readreceipt_update u r ev db) ?A"
    unfolding receipts_refine_def c by blast
qed

lemma ignore_err_bind: "ignore_err (map g (ignore_err (map f xs))) = ignore_err (map (\<lambda>x. bindR (f x) g) xs)"
  by (induction xs) (auto simp: ignore_err_def split: sum.splits)

lemma set_ignore_err: "set (ignore_err (map h xs)) = {y. \<exists>x \<in> set xs. h x = Inr y}"
  by (induction xs) (auto simp: ignore_err_def split: sum.splits)

lemma ignore_err_sorted:
  assumes "sorted_wrt P xs" and "\<And>x y a b. x \<in> set xs \<Longrightarrow> y \<in> set xs \<Longrightarrow> P x y \<Longrightarrow> h x = Inr a \<Longrightarrow> h y = Inr b \<Longrightarrow> Q a b"
  shows "sorted_wrt Q (ignore_err (map h xs))"
  using assms
proof (induction xs)
  case (Cons x xs)
  then have "sorted_wrt Q (ignore_err (map h xs))" by auto
  moreover have "\<forall>b \<in> set (ignore_err (map h xs)). Q a b" if "h x = Inr a" for a
  proof
    fix b assume "b \<in> set (ignore_err (map h xs))"
    then obtain y where "y \<in> set xs" "h y = Inr b" by (auto simp: set_ignore_err)
    then show "Q a b" using Cons.prems(1) that by (intro Cons.prems(2) [of x y]) auto
  qed
  ultimately show ?case by (auto simp: ignore_err_def split: sum.splits)
qed (simp add: ignore_err_def)

lemma takeWhile_filter_rest: "takeWhile P xs = filter P xs \<Longrightarrow> x \<in> set (dropWhile P xs) \<Longrightarrow> \<not> P x"
proof (induction xs)
  case (Cons a xs)
  then show ?case by (cases "P a") (auto simp: filter_empty_conv dest: sym [of "[]"])
qed simp

text \<open>What a scan of a room since a number reads: the entries of the room above it, in order.\<close>

lemma receipts_scan:
  fixes since :: u64
  assumes ref: "receipts_refine rooms users db A" and sep: "separate_ids R rooms users" and room: "room \<in> rooms" "users \<noteq> {}"
  defines "n \<equiv> u64_saturating_add since 1"
  defines "es \<equiv> takeWhile (\<lambda>(k, _). starts_with (interfix room) k)
      (raw_stream_from (readreceiptid_readreceipt db) (receipt_start room n))"
  shows "set es = {(receipt_key room c u, v) | c u v. A (room, u) = Some (c, v) \<and> n \<le> c}" and "sorted_wrt (<) (map fst es)"
    and "readreceipts_since R read_object without_room db room since = ignore_err (map (\<lambda>(k, v).
           bindR (de_receipt_key R k) (\<lambda>(_, c, u). bindR (bindR (read_object v) without_room) (\<lambda>event. Inr (u, c, event)))) es)"
proof -
  let ?t = "readreceiptid_readreceipt db"
  let ?Q = "\<lambda>(k :: bytes, _ :: bytes). starts_with (interfix room) k"
  have col: "column_ok ?t" using ref by (simp add: receipts_refine_def)
  have stored: "(k, v) \<in> set ?t \<longleftrightarrow> (\<exists>r u c. A (r, u) = Some (c, v) \<and> k = receipt_key r c u)" for k v
    using ref column_entry [OF col] unfolding receipts_refine_def by blast
  have known: "r \<in> rooms \<and> u \<in> users" if "A (r, u) = Some (c, v)" for r u c v
    using ref that unfolding receipts_refine_def by blast
  have texts: "utf8_ok r \<and> utf8_ok u \<and> receipt_ids_ok R r u" if "r \<in> rooms" "u \<in> users" for r u
    using that sep by (auto simp: separate_ids_def receipt_ids_ok_def key_pair_ok_def)
  have text_room: "utf8_ok room" using texts room by blast
  have prefix: "starts_with (interfix room) (receipt_key r c u) \<longleftrightarrow> r = room" if "r \<in> rooms" "u \<in> users" for r c u
    using room_receipts.key_prefix [of room r "(c, u)"] texts [OF that] text_room by simp
  have start: "starts_with (interfix room) (receipt_start room n)" by (simp add: interfix_eq receipt_start_eq starts_with_def)
  have es: "es = filter (\<lambda>(k, _). receipt_start room n \<le> k) (filter ?Q ?t)"
    unfolding es_def scan_from_prefix [OF col start] raw_stream_prefix_eq [OF col] ..
  then show "set es = {(receipt_key room c u, v) | c u v. A (room, u) = Some (c, v) \<and> n \<le> c}"
    using prefix known by (auto simp: stored receipt_key_from) blast+
  have "column_ok es" unfolding es using col by simp
  then show "sorted_wrt (<) (map fst es)" by (simp add: column_ok_def)
  let ?all = "raw_stream_from ?t (receipt_start room n)"
  let ?rest = "dropWhile ?Q ?all"
  have "es = filter ?Q ?all"
    unfolding es raw_stream_from_eq [OF col] by (auto intro: filter_cong simp: conj_commute)
  then have rest: "\<not> ?Q x" if "x \<in> set ?rest" for x
    using takeWhile_filter_rest [of ?Q ?all x] that by (simp add: es_def)
  let ?entry = "\<lambda>(k, v). bindR (de_receipt_key R k) (\<lambda>key. bindR (read_object v) (\<lambda>json. Inr (key, json)))"
  have all: "?all = es @ ?rest" by (simp add: es_def)
  have "set ?all \<subseteq> set ?t" by (auto simp: raw_stream_from_eq [OF col])
  then have in_t: "set es \<subseteq> set ?t" "set ?rest \<subseteq> set ?t"
    unfolding es_def using set_dropWhileD [where P = ?Q and xs = ?all] set_takeWhileD [where P = ?Q and xs = ?all] by blast+
  have owner: "e = (if starts_with (interfix room) k then room else e) \<and> (e = room \<longrightarrow> starts_with (interfix room) k)"
    if "(k, v) \<in> set ?t" "?entry (k, v) = Inr ((e, c, u), j)" for k v e c u j
  proof -
    obtain r' u' c' where k: "A (r', u') = Some (c', v)" "k = receipt_key r' c' u'" using \<open>(k, v) \<in> set ?t\<close> stored by blast
    then have in_use: "r' \<in> rooms" "u' \<in> users" using known by blast+
    then have "de_receipt_key R k = Inr (r', c', u')" using texts k(2) by (simp add: de_receipt_key_eq)
    then have "e = r'" using that(2) by (auto simp: bindR_eq_Inr)
    then show ?thesis using prefix [OF in_use, of c'] k(2) by auto
  qed
  let ?P = "\<lambda>((r, _ :: u64 \<times> bytes), _). r = room"
  have mine: "?P y" if y: "y \<in> set (ignore_err (map ?entry es))" for y
  proof -
    obtain k v where kv: "(k, v) \<in> set es" "?entry (k, v) = Inr y" using y by (auto simp: ignore_err_def map_filter_def split: sum.splits)
    obtain e c u j where "y = ((e, c, u), j)" by (cases y) auto
    then show ?thesis using owner [of k v e c u j] kv in_t(1) es by auto
  qed
  have other: "\<not> ?P y" if y: "y \<in> set (ignore_err (map ?entry ?rest))" for y
  proof -
    obtain k v where kv: "(k, v) \<in> set ?rest" "?entry (k, v) = Inr y" using y by (auto simp: ignore_err_def map_filter_def split: sum.splits)
    obtain e c u j where "y = ((e, c, u), j)" by (cases y) auto
    then show ?thesis using owner [of k v e c u j] kv in_t(2) rest [OF kv(1)] by auto
  qed
  have "takeWhile ?P (ignore_err (map ?entry ?rest)) = []"
    using other by (cases "ignore_err (map ?entry ?rest)") auto
  moreover have "ignore_err (map ?entry ?all) = ignore_err (map ?entry es) @ ignore_err (map ?entry ?rest)"
    using arg_cong [OF all, of "\<lambda>x. ignore_err (map ?entry x)"] unfolding map_append ignore_err_append .
  moreover have "takeWhile ?P (ignore_err (map ?entry es) @ ys) = ignore_err (map ?entry es) @ takeWhile ?P ys" for ys
    using mine by (intro takeWhile_append2) blast
  ultimately have mine_only: "takeWhile ?P (ignore_err (map ?entry ?all)) = ignore_err (map ?entry es)" by simp
  have joined: "(\<lambda>x. bindR (?entry x) (\<lambda>((_, c, u), json). bindR (without_room json) (\<lambda>event. Inr (u, c, event))))
      = (\<lambda>(k, v). bindR (de_receipt_key R k) (\<lambda>(_, c, u).
          bindR (bindR (read_object v) without_room) (\<lambda>event. Inr (u, c, event))))" (is "?f = ?g")
  proof
    fix x :: "bytes \<times> bytes"
    obtain k v where x: "x = (k, v)" by (cases x)
    show "?f x = ?g x" unfolding x by (cases "de_receipt_key R k"; cases "read_object v") (auto simp: case_prod_beta)
  qed
  show "readreceipts_since R read_object without_room db room since = ignore_err (map (\<lambda>(k, v).
           bindR (de_receipt_key R k) (\<lambda>(_, c, u). bindR (bindR (read_object v) without_room) (\<lambda>event. Inr (u, c, event)))) es)"
    unfolding readreceipts_since_def Let_def n_def [symmetric] mine_only ignore_err_bind joined ..
qed

subsection \<open>Runs of updates\<close>

type_synonym receipt_op = "bytes \<times> bytes \<times> bytes"

fun receipts_run :: "receipt_op list \<Rightarrow> receipts_db \<Rightarrow> receipts_db" where
  "receipts_run [] db = db"
| "receipts_run ((room, user, event) # ops) db = receipts_run ops (readreceipt_update user room event db)"

fun latest_run :: "u64 \<Rightarrow> receipt_op list \<Rightarrow> latest_receipts \<Rightarrow> latest_receipts" where
  "latest_run c [] A = A"
| "latest_run c ((room, user, event) # ops) A = latest_run (c + 1) ops (A((room, user) \<mapsto> (c + 1, event)))"

lemma receipts_run_refines:
  assumes "receipts_refine rooms users db A" and "separate_ids R rooms users"
    and "\<forall>(r, u, e) \<in> set ops. r \<in> rooms \<and> u \<in> users" and "unat (counter (rr_short db)) + length ops < 2 ^ 63"
  shows "receipts_refine rooms users (receipts_run ops db) (latest_run (counter (rr_short db)) ops A)"
  using assms
proof (induction ops arbitrary: db A)
  case (Cons op ops)
  obtain r u e where op: "op = (r, u, e)" by (cases op)
  have in_use: "r \<in> rooms" "u \<in> users" using Cons.prems(3) op by auto
  have left: "unat (counter (rr_short db)) + 1 < 2 ^ 63" using Cons.prems(4) by simp
  note step = readreceipt_update_refines [OF Cons.prems(1,2) in_use left, of e]
  have "unat (counter (rr_short db) + 1) = Suc (unat (counter (rr_short db)))"
    using next_count_below [of "rr_short db" 1] left by simp
  then have "unat (counter (rr_short (readreceipt_update u r e db))) + length ops < 2 ^ 63"
    using Cons.prems(4) step(2) by simp
  moreover have "\<forall>(r, u, e) \<in> set ops. r \<in> rooms \<and> u \<in> users" using Cons.prems(3) by simp
  ultimately show ?case
    using Cons.IH [OF step(1) Cons.prems(2)] unfolding op receipts_run.simps latest_run.simps step(2) by blast
qed simp

text \<open>C35. After any sequence of updates of an empty table, the receipts of a room since a number (not the greatest) are the
  latest receipts of its users that are newer than the number, oldest first and one per user, leaving out those whose stored text cannot be
  read. This holds as long as the ids in use are valid texts, no room id is a prefix of another and no user id a suffix of
  another (the scan for a user's old receipt compares the ids without their separators, so that otherwise an update can delete
  the receipt of another room), and the counter stays below \<open>2^63\<close>.
\<close>

theorem readreceipts_since_correct:
  assumes "readreceiptid_readreceipt db = []" and "separate_ids R rooms users"
    and "\<forall>(r, u, e) \<in> set ops. r \<in> rooms \<and> u \<in> users" and "unat (counter (rr_short db)) + length ops + 1 < 2 ^ 63"
    and "room \<in> rooms" and "users \<noteq> {}" and "since \<noteq> - 1"
  shows "set (readreceipts_since R read_object without_room (receipts_run ops db) room since)
      = {(u, c, event) | u c event. \<exists>v. latest_run (counter (rr_short db)) ops Map.empty (room, u) = Some (c, v) \<and> since < c
           \<and> bindR (read_object v) without_room = Inr event}
    \<and> sorted_wrt (<) (map (\<lambda>(u, c, event). c) (readreceipts_since R read_object without_room (receipts_run ops db) room since))"
proof -
  let ?A = "latest_run (counter (rr_short db)) ops Map.empty"
  have "receipts_refine rooms users db Map.empty" using assms(1) by (simp add: receipts_refine_def)
  then have ref: "receipts_refine rooms users (receipts_run ops db) ?A"
    using assms by (intro receipts_run_refines) auto
  have since: "u64_saturating_add since 1 \<le> c \<longleftrightarrow> since < c" for c
  proof -
    have "unat since < 2 ^ LENGTH(64)" by (rule unsigned_less)
    moreover have "unat since \<noteq> 2 ^ 64 - 1"
    proof
      assume "unat since = 2 ^ 64 - 1"
      moreover have "unat (- 1 :: u64) = 2 ^ 64 - 1" by (simp add: unsigned_minus_1_eq_mask mask_eq_exp_minus_1)
      ultimately show False using assms(7) by (simp only: word_unat_eq_iff)
    qed
    ultimately have "unat since + 1 < 2 ^ 64" by simp
    then show ?thesis by (simp add: u64_saturating_add_def word_le_nat_alt word_less_nat_alt unat_word_ariths Suc_le_eq)
  qed
  let ?db = "receipts_run ops db" and ?n = "u64_saturating_add since 1"
  let ?es = "takeWhile (\<lambda>(k, _). starts_with (interfix room) k)
      (raw_stream_from (readreceiptid_readreceipt ?db) (receipt_start room ?n))"
  let ?h = "\<lambda>(k, v). bindR (de_receipt_key R k) (\<lambda>(_, c, u). bindR (bindR (read_object v) without_room) (\<lambda>event. Inr (u, c, event)))"
  let ?rs = "readreceipts_since R read_object without_room ?db room since"
  note scan = receipts_scan [OF ref assms(2,5,6), where since = since]
  note read = scan(3) [where read_object = read_object and without_room = without_room]
  have h: "?h (receipt_key room c u, v) = bindR (bindR (read_object v) without_room) (\<lambda>event. Inr (u, c, event))"
    if "?A (room, u) = Some (c, v)" for u c v
  proof -
    have "u \<in> users" using ref that unfolding receipts_refine_def by blast
    then have "receipt_ids_ok R room u" using assms(2,5) by (simp add: separate_ids_def)
    then show ?thesis by (simp add: de_receipt_key_eq)
  qed
  have "set ?rs = {y. \<exists>e \<in> set ?es. ?h e = Inr y}" unfolding read by (auto simp: set_ignore_err)
  also have "\<dots> = {(u, c, event) | u c event. \<exists>v. ?A (room, u) = Some (c, v) \<and> since < c
      \<and> bindR (read_object v) without_room = Inr event}"
  proof (intro set_eqI iffI; elim CollectE)
    fix y assume "\<exists>e \<in> set ?es. ?h e = Inr y"
    then obtain e where e: "e \<in> set ?es" "?h e = Inr y" by blast
    obtain c u v where e': "e = (receipt_key room c u, v)" "?A (room, u) = Some (c, v)" "?n \<le> c"
      using e(1) scan(1) by blast
    have "bindR (bindR (read_object v) without_room) (\<lambda>event. Inr (u, c, event)) = Inr y"
      using h [OF e'(2)] e(2) e'(1) by simp
    then show "y \<in> {(u, c, event) | u c event. \<exists>v. ?A (room, u) = Some (c, v) \<and> since < c
        \<and> bindR (read_object v) without_room = Inr event}"
      using e'(2,3) since [of c] by (auto simp: bindR_eq_Inr [of "bindR (read_object v) without_room"])
  next
    fix y assume "\<exists>u c event. y = (u, c, event) \<and> (\<exists>v. ?A (room, u) = Some (c, v) \<and> since < c
        \<and> bindR (read_object v) without_room = Inr event)"
    then obtain u c event v where y: "y = (u, c, event)" "?A (room, u) = Some (c, v)" "since < c"
      "bindR (read_object v) without_room = Inr event" by blast
    have "(receipt_key room c u, v) \<in> set ?es" using scan(1) y(2,3) since [of c] by blast
    moreover have "?h (receipt_key room c u, v) = Inr y" using h [OF y(2)] y(1,4) by simp
    ultimately show "y \<in> {y. \<exists>e \<in> set ?es. ?h e = Inr y}" by blast
  qed
  finally have "set ?rs = {(u, c, event) | u c event. \<exists>v. ?A (room, u) = Some (c, v) \<and> since < c
      \<and> bindR (read_object v) without_room = Inr event}" .
  moreover have "sorted_wrt (\<lambda>a b. fst (snd a) < fst (snd b)) ?rs"
    unfolding read
  proof (rule ignore_err_sorted [where P = "\<lambda>x y. fst x < fst y"])
    show "sorted_wrt (\<lambda>x y. fst x < fst y) ?es" using scan(2) by (simp add: sorted_wrt_map)
    fix x y a b assume xy: "x \<in> set ?es" "y \<in> set ?es" "fst x < fst y" and res: "?h x = Inr a" "?h y = Inr b"
    obtain c u v where x: "x = (receipt_key room c u, v)" "?A (room, u) = Some (c, v)" using xy(1) scan(1) by blast
    obtain c' u' v' where y: "y = (receipt_key room c' u', v')" "?A (room, u') = Some (c', v')" using xy(2) scan(1) by blast
    have "u = u'" if "c = c'"
    proof -
      have "(room, u) = (room, u')" using ref x(2) y(2) that unfolding receipts_refine_def by blast
      then show ?thesis by simp
    qed
    then have "c < c'" using xy(3) x(1) y(1) by (auto simp: receipt_key_less)
    then show "fst (snd a) < fst (snd b)" using h [OF x(2)] h [OF y(2)] res x(1) y(1) by (auto simp: bindR_eq_Inr)
  qed
  then have "sorted_wrt (<) (map (\<lambda>(u, c, event). c) ?rs)" by (simp add: sorted_wrt_map case_prod_beta)
  ultimately show ?thesis by blast
qed

text \<open>Two users of a room and another room; texts stand for their JSON.\<close>

definition empty_receipts :: receipts_db where
  "empty_receipts = \<lparr>rr_short = new_db, roomuserid_privateread = Map.empty,
     roomuserid_lastprivatereadupdate = Map.empty, readreceiptid_readreceipt = []\<rparr>"

definition sample_receipt_ops :: "receipt_op list" where
  "sample_receipt_ops = [([0x21, 0x61], [0x40, 0x61], [1]), ([0x21, 0x61], [0x40, 0x62], [2]),
     ([0x21, 0x62], [0x40, 0x61], [3]), ([0x21, 0x61], [0x40, 0x61], [4])]"

theorem readreceipts_since_correct_witness:
  "set (readreceipts_since sample_ids Inr Inr (receipts_run sample_receipt_ops empty_receipts) [0x21, 0x61] 0)
      = {([0x40, 0x62], 2, [2]), ([0x40, 0x61], 4, [4])}"
proof -
  let ?rooms = "{[0x21, 0x61], [0x21, 0x62]}" and ?users = "{[0x40, 0x61], [0x40, 0x62]}"
  have "separate_ids sample_ids ?rooms ?users"
    by (simp add: separate_ids_def receipt_ids_ok_def key_pair_ok_def sample_ids_def starts_with_def ends_with_def)
  moreover have "\<forall>(r, u, e) \<in> set sample_receipt_ops. r \<in> ?rooms \<and> u \<in> ?users" by (simp add: sample_receipt_ops_def)
  moreover have "unat (counter (rr_short empty_receipts)) + length sample_receipt_ops + 1 < 2 ^ 63"
    by (simp add: empty_receipts_def new_db_def sample_receipt_ops_def)
  moreover have "readreceiptid_readreceipt empty_receipts = []" by (simp add: empty_receipts_def)
  moreover have "(0::u64) \<noteq> - 1" by simp
  ultimately have "set (readreceipts_since sample_ids Inr Inr (receipts_run sample_receipt_ops empty_receipts) [0x21, 0x61] 0)
      = {(u, c, event) | u c event. \<exists>v. latest_run (counter (rr_short empty_receipts)) sample_receipt_ops Map.empty ([0x21, 0x61], u) = Some (c, v)
         \<and> 0 < c \<and> bindR (Inr v) Inr = (Inr event :: service_error + bytes)}"
    using readreceipts_since_correct [where R = sample_ids and rooms = "?rooms" and users = "?users" and db = empty_receipts
      and ops = sample_receipt_ops and room = "[0x21, 0x61]" and since = 0 and read_object = Inr and without_room = Inr] by simp
  also have "\<dots> = {([0x40, 0x62], 2, [2]), ([0x40, 0x61], 4, [4])}"
  proof -
    have "counter (rr_short empty_receipts) = 0" by (simp add: empty_receipts_def new_db_def)
    moreover have "latest_run 0 sample_receipt_ops Map.empty ([0x21, 0x61], u)
        = (if u = [0x40, 0x61] then Some (4, [4]) else if u = [0x40, 0x62] then Some (2, [2]) else None)" for u
      by (simp add: sample_receipt_ops_def)
    ultimately show ?thesis
      by (intro set_eqI iffI) (auto split: if_splits intro: exI [of _ "[0x40, 0x61]"] exI [of _ "[0x40, 0x62]"])
  qed
  finally show ?thesis .
qed

text \<open>
  Without that condition an update can delete a receipt of another room: the scan for the old receipt compares the
  room id without the separator that ends it, so the newest receipt of a room whose id extends this one is among the
  deleted keys.
\<close>

lemma receipt_lost_in_longer_room:
  assumes "readreceiptid_readreceipt db = [(receipt_key (room @ ext) n user, v)]"
    and "receipt_key (room @ ext) n user \<le> receipt_start room (- 1)"
  shows "map fst (readreceiptid_readreceipt (readreceipt_update user room event db))
    = [receipt_key room (fst (next_count (rr_short db))) user]"
proof -
  let ?k = "receipt_key (room @ ext) n user"
  have "starts_with room ?k" "ends_with user ?k"
    by (simp_all add: receipt_key_eq ends_with_def starts_with_def)
  then have "filter (ends_with user) (takeWhile (starts_with room)
      (map fst (rev_raw_stream_from (readreceiptid_readreceipt db) (receipt_start room (- 1))))) = [?k]"
    using assms by (simp add: rev_raw_stream_from_def)
  then show ?thesis
    using assms(1) by (simp add: readreceipt_update_def col_remove_def case_prod_beta)
qed

end
