(* ===== verification/Effects.thy ===== *)
theory Effects
  imports Short
begin

text \<open>
  Operations that read and change a state and may fail: \<open>Result\<close>-returning methods of the services over the
  database. A failing operation keeps the changes made before it failed, as the database does. The section on
  invariants has one rule per combinator, so that an invariant of a handler follows from those of its steps.
\<close>

subsection \<open>Operations\<close>

type_synonym ('s, 'a) act = "'s \<Rightarrow> (service_error + 'a) \<times> 's"

definition returnS :: "'a \<Rightarrow> ('s, 'a) act" where
  "returnS x s = (Inr x, s)"

definition failS :: "service_error \<Rightarrow> ('s, 'a) act" where
  "failS e s = (Inl e, s)"

definition liftS :: "service_error + 'a \<Rightarrow> ('s, 'a) act" where
  "liftS r s = (r, s)"

definition askS :: "('s \<Rightarrow> 'a) \<Rightarrow> ('s, 'a) act" where
  "askS f s = (Inr (f s), s)"

definition liftS_db :: "('s \<Rightarrow> service_error + 'a) \<Rightarrow> ('s, 'a) act" where
  "liftS_db f s = (f s, s)"

definition changeS :: "('s \<Rightarrow> 's) \<Rightarrow> ('s, unit) act" where
  "changeS f s = (Inr (), f s)"

definition bindS :: "('s, 'a) act \<Rightarrow> ('a \<Rightarrow> ('s, 'b) act) \<Rightarrow> ('s, 'b) act" where
  "bindS m f s = (case m s of (Inl e, s') \<Rightarrow> (Inl e, s') | (Inr x, s') \<Rightarrow> f x s')"

text \<open>The loop of a method that returns early with \<open>?\<close>.\<close>

fun foldS :: "('x \<Rightarrow> 'b \<Rightarrow> ('s, 'b) act) \<Rightarrow> 'x list \<Rightarrow> 'b \<Rightarrow> ('s, 'b) act" where
  "foldS f [] b = returnS b"
| "foldS f (x # xs) b = bindS (f x b) (foldS f xs)"

definition forS :: "('x \<Rightarrow> ('s, unit) act) \<Rightarrow> 'x list \<Rightarrow> ('s, unit) act" where
  "forS f xs = foldS (\<lambda>x _. f x) xs ()"

text \<open>A panic is not caught where an error is.\<close>

fun is_panic :: "service_error \<Rightarrow> bool" where
  "is_panic (PanicErr _) \<longleftrightarrow> True"
| "is_panic FuelErr \<longleftrightarrow> True"
| "is_panic _ \<longleftrightarrow> False"

definition okS :: "('s, 'a) act \<Rightarrow> ('s, 'a option) act" where
  "okS m s = (case m s of
     (Inr x, s') \<Rightarrow> (Inr (Some x), s')
   | (Inl e, s') \<Rightarrow> if is_panic e then (Inl e, s') else (Inr None, s'))"

definition ok_result :: "service_error + 'a \<Rightarrow> service_error + 'a option" where
  "ok_result r = (case r of Inr x \<Rightarrow> Inr (Some x) | Inl e \<Rightarrow> if is_panic e then Inl e else Inr None)"

subsection \<open>Results\<close>

named_theorems act_simps

lemma liftS_db_basic [act_simps]: "liftS_db f s = (f s, s)"
  by (simp add: liftS_db_def)

lemma act_basic [act_simps]:
  "returnS x s = (Inr x, s)" "failS e s = (Inl e, s)" "liftS r s = (r, s)" "askS f s = (Inr (f s), s)"
  "changeS g s = (Inr (), g s)"
  by (simp_all add: returnS_def failS_def liftS_def askS_def changeS_def)

lemma bindS_Inr:
  "bindS m f s = (Inr y, t) \<longleftrightarrow> (\<exists>x s'. m s = (Inr x, s') \<and> f x s' = (Inr y, t))"
  by (auto simp: bindS_def split: prod.splits sum.splits)

lemma bindS_Inl:
  "bindS m f s = (Inl e, t) \<longleftrightarrow> m s = (Inl e, t) \<or> (\<exists>x s'. m s = (Inr x, s') \<and> f x s' = (Inl e, t))"
  by (auto simp: bindS_def split: prod.splits sum.splits)

lemma bindS_lift [act_simps]: "bindS (liftS r) f s = (case r of Inl e \<Rightarrow> (Inl e, s) | Inr x \<Rightarrow> f x s)"
  by (simp add: bindS_def liftS_def)

lemma bindS_ask [act_simps]: "bindS (askS g) f s = f (g s) s"
  by (simp add: bindS_def askS_def)

lemma bindS_change [act_simps]: "bindS (changeS g) f s = f () (g s)"
  by (simp add: bindS_def changeS_def)

lemma bindS_step: "m s = (Inr x, s') \<Longrightarrow> bindS m f s = f x s'"
  by (simp add: bindS_def)

lemma bindS_fail: "m s = (Inl e, s') \<Longrightarrow> bindS m f s = (Inl e, s')"
  by (simp add: bindS_def)

subsection \<open>Invariants\<close>

text \<open>\<open>moves R m\<close>: whatever \<open>m\<close> returns, the state it leaves is related by \<open>R\<close> to the one it found.\<close>

definition moves :: "('s \<Rightarrow> 's \<Rightarrow> bool) \<Rightarrow> ('s, 'a) act \<Rightarrow> bool" where
  "moves R m \<longleftrightarrow> (\<forall>s. R s (snd (m s)))"

named_theorems moves_intros

lemma movesD: "moves R m \<Longrightarrow> m s = (r, t) \<Longrightarrow> R s t"
  unfolding moves_def by (metis snd_conv)

lemma moves_pure [moves_intros]:
  assumes "reflp R"
  shows "moves R (returnS x)" "moves R (failS e)" "moves R (liftS r)" "moves R (askS g)"
  using assms by (simp_all add: moves_def reflp_def act_basic)

lemma moves_read [moves_intros]: "reflp R \<Longrightarrow> moves R (\<lambda>s. (f s, s))"
  by (simp add: moves_def reflp_def)

lemma moves_lift_db [moves_intros]: "reflp R \<Longrightarrow> moves R (liftS_db f)"
  by (simp add: moves_def reflp_def liftS_db_def)

lemma moves_change [moves_intros]: "(\<And>s. R s (g s)) \<Longrightarrow> moves R (changeS g)"
  by (simp add: moves_def act_basic)

lemma moves_bind [moves_intros]:
  assumes "transp R" and "moves R m" and "\<And>x. moves R (f x)"
  shows "moves R (bindS m f)"
  unfolding moves_def
proof
  fix s
  obtain r s' where m: "m s = (r, s')" by fastforce
  show "R s (snd (bindS m f s))"
  proof (cases r)
    case (Inl e)
    then show ?thesis using m movesD [OF assms(2) m] by (simp add: bindS_def)
  next
    case (Inr x)
    obtain r' t where f: "f x s' = (r', t)" by fastforce
    have "R s' t" using movesD [OF assms(3) f] .
    then show ?thesis using movesD [OF assms(2) m] transpD [OF assms(1)] m f Inr by (simp add: bindS_def)
  qed
qed

lemma moves_foldS [moves_intros]:
  assumes "reflp R" and "transp R" and "\<And>x b. moves R (f x b)"
  shows "moves R (foldS f xs b)"
proof (induction xs arbitrary: b)
  case (Cons x xs)
  then show ?case unfolding foldS.simps by (intro moves_bind assms)
qed (simp add: moves_pure assms(1))

lemma moves_forS [moves_intros]:
  "reflp R \<Longrightarrow> transp R \<Longrightarrow> (\<And>x. moves R (f x)) \<Longrightarrow> moves R (forS f xs)"
  unfolding forS_def by (rule moves_foldS)

lemma moves_okS [moves_intros]: "moves R m \<Longrightarrow> moves R (okS m)"
  by (auto simp: moves_def okS_def split: prod.splits sum.splits) (metis snd_conv)+

lemma moves_if [moves_intros]: "moves R a \<Longrightarrow> moves R b \<Longrightarrow> moves R (if c then a else b)"
  by simp

lemma moves_option [moves_intros]:
  "moves R a \<Longrightarrow> (\<And>x. moves R (f x)) \<Longrightarrow> moves R (case opt of None \<Rightarrow> a | Some x \<Rightarrow> f x)"
  by (cases opt) simp_all

lemma moves_sum [moves_intros]:
  "(\<And>x. moves R (f x)) \<Longrightarrow> (\<And>x. moves R (g x)) \<Longrightarrow> moves R (case r of Inl x \<Rightarrow> f x | Inr x \<Rightarrow> g x)"
  by (cases r) simp_all

lemma moves_prod [moves_intros]:
  "(\<And>x y. moves R (f x y)) \<Longrightarrow> moves R (case p of (x, y) \<Rightarrow> f x y)"
  by (cases p) simp

end
