(* ===== verification/IncomingPdu.thy ===== *)
theory IncomingPdu
  imports TopoSort Short SampleRoom
begin

text \<open>
  Events as other servers send them: \<open>src/src/service/rooms/event_handler/parse_incoming_pdu.rs\<close>,
  \<open>pdu_format_check_1\<close> of \<open>pdu_checks.rs\<close>, \<open>build_local_dag\<close> of \<open>fetch_and_handle_outliers.rs\<close>,
  \<open>gen_event_id\<close> of \<open>src/src/core/matrix/event/id.rs\<close> and \<open>pdu_fits\<close> of \<open>src/src/service/rooms/timeline/create.rs\<close>.
\<close>

subsection \<open>Canonical JSON\<close>

text \<open>\<open>CanonicalJsonValue\<close>; an object is a \<open>BTreeMap\<close>.\<close>

datatype json =
    JNull | JBool bool | JInteger int | JString string | JArray "json list" | JObject "(string \<times> json) list"

type_synonym json_object = "(string \<times> json) list"

fun as_str :: "json \<Rightarrow> string option" where
  "as_str (JString s) = Some s"
| "as_str _ = None"

fun as_array :: "json \<Rightarrow> json list option" where
  "as_array (JArray vs) = Some vs"
| "as_array _ = None"

fun as_object :: "json \<Rightarrow> json_object option" where
  "as_object (JObject obj) = Some obj"
| "as_object _ = None"

fun as_integer :: "json \<Rightarrow> int option" where
  "as_integer (JInteger i) = Some i"
| "as_integer _ = None"

abbreviation get_str :: "json_object \<Rightarrow> string \<Rightarrow> string option" where
  "get_str obj field \<equiv> Option.bind (map_of obj field) as_str"

subsection \<open>Room versions\<close>

text \<open>The rules of a room version the handler of events reads, besides those of authorization and resolution.\<close>

record event_rules = room_version_rules +
  require_room_create_room_id :: bool
  allow_room_create_in_auth_events :: bool
  content_field_redacts :: bool
  additional_room_creators :: bool

abbreviation plain_rules :: "event_rules \<Rightarrow> room_version_rules" where
  "plain_rules \<equiv> room_version_rules.truncate"

text \<open>
  What libraries decide about an object: \<open>serde_json\<close> reads it and measures its text, \<open>ruma\<close> hashes it and
  knows the room versions and their rules.
\<close>

record json_lib =
  json_from_str :: "bytes \<Rightarrow> json_object option"
  json_text_len :: "json_object \<Rightarrow> nat option"
  reference_hash :: "json_object \<Rightarrow> event_rules \<Rightarrow> string option"
  version_ok :: "string \<Rightarrow> bool"
  version_rules :: "string \<Rightarrow> event_rules option"

subsection \<open>Parsing\<close>

definition gen_event_id :: "'c ruma \<Rightarrow> json_lib \<Rightarrow> json_object \<Rightarrow> event_rules \<Rightarrow> service_error + string" where
  "gen_event_id R J value rules =
     bindR (ok_or (RequestErr ''reference hash'') (reference_hash J value rules)) (\<lambda>hash.
       if valid_event_id R (''$'' @ hash) then Inr (''$'' @ hash) else Inl (RequestErr ''invalid event ID''))"

definition gen_event_id_canonical_json ::
  "'c ruma \<Rightarrow> json_lib \<Rightarrow> bytes \<Rightarrow> event_rules \<Rightarrow> service_error + string \<times> json_object" where
  "gen_event_id_canonical_json R J pdu rules =
     bindR (ok_or (RequestErr ''BadServerResponse'') (json_from_str J pdu)) (\<lambda>value.
     bindR (gen_event_id R J value rules) (\<lambda>event_id. Inr (event_id, value)))"

definition extract_room_id :: "'c ruma \<Rightarrow> json_lib \<Rightarrow> string \<Rightarrow> json_object \<Rightarrow> service_error + string" where
  "extract_room_id R J event_type pdu =
     (case get_str pdu ''room_id'' of
        Some room_id \<Rightarrow> if valid_room_id R room_id then Inr room_id else Inl (RequestErr ''BadJson: Invalid room_id'')
      | None \<Rightarrow>
          if \<not> (event_type = ''m.room.create'' \<and> get_str pdu ''state_key'' = Some '''')
          then Inl (RequestErr ''BadJson: Missing room_id in pdu'')
          else
            bindR (ok_or (RequestErr ''InvalidParam: content'') (Option.bind (map_of pdu ''content'') as_object)) (\<lambda>content.
            (let version = (case get_str content ''room_version'' of Some v \<Rightarrow> v | None \<Rightarrow> ''1'')
             in if \<not> version_ok J version then Inl (RequestErr ''BadJson: Invalid room_version'')
                else (case version_rules J version of
                    None \<Rightarrow> Inl (RequestErr ''BadJson: Unknown room version'')
                  | Some rules \<Rightarrow>
                      if require_room_create_room_id rules then Inl (RequestErr ''BadJson: Missing room_id in pdu'')
                      else bindR (gen_event_id R J pdu rules) (\<lambda>event_id.
                        (let room_id = replace_char (CHR ''$'') (CHR ''!'') event_id
                         in if valid_room_id R room_id then Inr room_id
                            else Inl (PanicErr ''constructed room ID has to be valid'')))))))"

definition expect_event_id_array :: "'c ruma \<Rightarrow> json_object \<Rightarrow> string \<Rightarrow> service_error + string list" where
  "expect_event_id_array R value field =
     bindR (ok_or (RequestErr ''BadJson: missing field'') (map_of value field)) (\<lambda>v.
     bindR (ok_or (RequestErr ''BadJson: expected an array'') (as_array v)) (\<lambda>vs.
       mapR (\<lambda>v.
           bindR (ok_or (RequestErr ''BadJson: expected an array of event IDs'') (as_str v)) (\<lambda>s.
             if valid_event_id R s then Inr s else Inl (RequestErr ''BadJson: invalid event ID''))) vs))"

text \<open>\<open>room_version\<close> is what the state of a room says of its version.\<close>

definition parse_incoming_pdu ::
  "'c ruma \<Rightarrow> json_lib \<Rightarrow> (string \<Rightarrow> service_error + string) \<Rightarrow> bytes \<Rightarrow> event_rules option
   \<Rightarrow> service_error + string \<times> string \<times> json_object" where
  "parse_incoming_pdu R J room_version pdu rules =
     bindR (ok_or (RequestErr ''BadServerResponse'') (json_from_str J pdu)) (\<lambda>value.
     bindR (ok_or (RequestErr ''InvalidParam: type'') (get_str value ''type'')) (\<lambda>event_type.
     bindR (extract_room_id R J event_type value) (\<lambda>room_id.
     bindR (case rules of
              Some r \<Rightarrow> Inr r
            | None \<Rightarrow> ok_or (PanicErr ''room version must be supported'')
                (version_rules J (case room_version room_id of Inr v \<Rightarrow> v | Inl _ \<Rightarrow> ''1''))) (\<lambda>rules.
     bindR (gen_event_id_canonical_json R J pdu rules) (\<lambda>(event_id, value).
       Inr (room_id, event_id, value))))))"

subsection \<open>The format check\<close>

text \<open>Five fields have at most 255 bytes each, and the whole text has at most 65535.\<close>

definition pdu_fits :: "json_lib \<Rightarrow> json_object \<Rightarrow> bool" where
  "pdu_fits J obj \<longleftrightarrow>
     (\<forall>field \<in> set [''room_id'', ''event_id'', ''sender'', ''type'', ''state_key''].
        case get_str obj field of Some s \<Rightarrow> length s \<le> 255 | None \<Rightarrow> True)
     \<and> (case json_text_len J obj of Some n \<Rightarrow> n \<le> 65535 | None \<Rightarrow> False)"

definition pdu_format_check_1 ::
  "'c ruma \<Rightarrow> json_lib \<Rightarrow> json_object \<Rightarrow> event_rules \<Rightarrow> string \<Rightarrow> service_error + unit" where
  "pdu_format_check_1 R J pdu_json rules create_event_id =
     (if \<not> pdu_fits J pdu_json then Inl (RequestErr ''TooLarge'')
      else if require_room_create_room_id rules \<and> map_of pdu_json ''room_id'' = None
      then Inl (RequestErr ''BadJson: Missing required PDU field'')
      else
        bindR (expect_event_id_array R pdu_json ''auth_events'') (\<lambda>auth_events.
          if 10 < length auth_events then Inl (RequestErr ''BadJson: too many auth events'')
          else
            bindR (ok_or (RequestErr ''BadJson: missing a type'') (get_str pdu_json ''type'')) (\<lambda>event_type.
            (let is_create_event = (event_type = ''m.room.create'' \<and> get_str pdu_json ''state_key'' = Some '''');
                 create_event_in_auth_events = (create_event_id \<in> set auth_events)
             in if \<not> is_create_event \<and> \<not> allow_room_create_in_auth_events rules \<and> create_event_in_auth_events
                then Inl (RequestErr ''BadJson: references a create event'')
                else if \<not> is_create_event \<and> allow_room_create_in_auth_events rules \<and> \<not> create_event_in_auth_events
                then Inl (RequestErr ''BadJson: does not reference the room create event'')
                else
                  bindR (expect_event_id_array R pdu_json ''prev_events'') (\<lambda>prev_events.
                    if 20 < length prev_events then Inl (RequestErr ''BadJson: too many prev events'')
                    else Inr ())))))"

subsection \<open>Ordering a batch of events\<close>

datatype dag_tree = PrevEvents | AuthEvents

fun tree_field :: "dag_tree \<Rightarrow> string" where
  "tree_field AuthEvents = ''auth_events''"
| "tree_field PrevEvents = ''prev_events''"

text \<open>References that are no event ids, or lead out of the batch, are dropped; a node's references form a set.\<close>

definition dag_edges :: "'c ruma \<Rightarrow> (string \<times> json_object) list \<Rightarrow> json list \<Rightarrow> string list" where
  "dag_edges R pdu_map vs =
     remdups (filter (\<lambda>i. valid_event_id R i \<and> map_of pdu_map i \<noteq> None) (List.map_filter as_str vs))"

definition dag_node ::
  "'c ruma \<Rightarrow> (string \<times> json_object) list \<Rightarrow> dag_tree \<Rightarrow> string \<times> json_object \<Rightarrow> service_error + string \<times> string list" where
  "dag_node R pdu_map tree entry =
     bindR (ok_or (RequestErr ''BadJson: event JSON is missing references'')
              (Option.bind (map_of (snd entry) (tree_field tree)) as_array)) (\<lambda>vs.
       Inr (fst entry, dag_edges R pdu_map vs))"

text \<open>\<open>UInt::try_from\<close> accepts integers from 0 to \<open>2^53 - 1\<close>.\<close>

definition dag_ts :: "json_object \<Rightarrow> nat" where
  "dag_ts value =
     (case Option.bind (map_of value ''origin_server_ts'') as_integer of
        Some i \<Rightarrow> (if 0 \<le> i \<and> i \<le> Int_MAX then nat i else 0) | None \<Rightarrow> 0)"

definition dag_key :: "(string \<times> json_object) list \<Rightarrow> string key_fn" where
  "dag_key pdu_map i = Inr (0, case map_of pdu_map i of Some value \<Rightarrow> dag_ts value | None \<Rightarrow> 0)"

definition build_local_dag ::
  "'c ruma \<Rightarrow> (string list \<Rightarrow> string list) \<Rightarrow> (string \<times> json_object) list \<Rightarrow> dag_tree \<Rightarrow> service_error + string list" where
  "build_local_dag R ord pdu_map tree =
     (if length pdu_map \<le> 1 then Inr (map fst pdu_map)
      else
        bindR (mapR (dag_node R pdu_map tree) pdu_map) (\<lambda>dag.
          (case lexicographical_topological_sort ord dag (dag_key pdu_map) of
             Inr sorted_ids \<Rightarrow> Inr sorted_ids
           | Inl _ \<Rightarrow> Inl (RequestErr ''failed to resolve local graph''))))"

text \<open>The references of an event of the batch to other events of it.\<close>

definition dag_refs :: "'c ruma \<Rightarrow> (string \<times> json_object) list \<Rightarrow> dag_tree \<Rightarrow> string \<Rightarrow> string set" where
  "dag_refs R pdu_map tree i =
     (case Option.bind (map_of pdu_map i) (\<lambda>value. Option.bind (map_of value (tree_field tree)) as_array) of
        Some vs \<Rightarrow> {j. JString j \<in> set vs \<and> valid_event_id R j \<and> map_of pdu_map j \<noteq> None}
      | None \<Rightarrow> {})"

lemma list_all2_source: "list_all2 P xs ys \<Longrightarrow> y \<in> set ys \<Longrightarrow> \<exists>x \<in> set xs. P x y"
  by (induction rule: list_all2_induct) auto

lemma list_all2_target: "list_all2 P xs ys \<Longrightarrow> x \<in> set xs \<Longrightarrow> \<exists>y \<in> set ys. P x y"
  by (induction rule: list_all2_induct) auto

lemma dag_graph:
  assumes "distinct (map fst m)" and "mapR (dag_node R m tree) m = Inr dag"
  shows "map fst dag = map fst m" and "wf_graph dag" and "i \<in> fst ` set m \<Longrightarrow> edges dag i = dag_refs R m tree i"
proof -
  have nodes: "list_all2 (\<lambda>x y. dag_node R m tree x = Inr y) m dag" using assms(2) by (simp add: mapR_eq_Inr)
  have one: "fst y = fst x \<and> (\<exists>vs. Option.bind (map_of (snd x) (tree_field tree)) as_array = Some vs \<and> snd y = dag_edges R m vs)"
    if "dag_node R m tree x = Inr y" for x y
    using that by (auto simp: dag_node_def bindR_eq_Inr ok_or_eq_Inr)
  show ids: "map fst dag = map fst m"
    using nodes by (induction rule: list_all2_induct) (simp_all add: one)
  have refs: "set (dag_edges R m vs) \<subseteq> fst ` set m" and dist: "distinct (dag_edges R m vs)" for vs
    by (auto simp: dag_edges_def map_of_eq_None_iff)
  have from_m: "\<exists>x \<in> set m. dag_node R m tree x = Inr y" if y: "y \<in> set dag" for y
    using nodes y by (rule list_all2_source)
  have "distinct es \<and> set es \<subseteq> fst ` set m" if y: "(n, es) \<in> set dag" for n es
  proof -
    obtain x where "dag_node R m tree x = Inr (n, es)" using from_m [OF y] by blast
    then obtain vs where "es = dag_edges R m vs" using one by fastforce
    then show ?thesis using refs dist by simp
  qed
  moreover have "fst ` set dag = fst ` set m" using ids by (metis list.set_map)
  ultimately show wf: "wf_graph dag" using assms(1) ids unfolding wf_graph_def nodes_def by auto
  show "edges dag i = dag_refs R m tree i" if i: "i \<in> fst ` set m"
  proof -
    obtain w where v: "(i, w) \<in> set m" using i by auto
    then obtain y where y: "y \<in> set dag" "dag_node R m tree (i, w) = Inr y"
      using list_all2_target [OF nodes] by blast
    obtain vs where vs: "Option.bind (map_of w (tree_field tree)) as_array = Some vs" "y = (i, dag_edges R m vs)"
      using one [OF y(2)] by (cases y) auto
    have "map_of m i = Some w" using v assms(1) by simp
    moreover have "map_of dag i = Some (dag_edges R m vs)" using y(1) vs(2) assms(1) ids by (simp add: map_of_eq_Some_iff)
    moreover have "as_str v = Some j \<longleftrightarrow> v = JString j" for v j by (cases v) auto
    ultimately show ?thesis
      using vs(1) by (auto simp: edges_def or_default_def dag_refs_def dag_edges_def map_filter_def image_iff)
  qed
qed

text \<open>C36. A batch of events is put into an order in which every event comes after the events of the batch it refers to, each
  event once, whenever the references form no cycle and every event has them.
\<close>

theorem build_local_dag_correct:
  assumes "distinct (map fst m)" and "iteration_order ord"
    and "\<forall>(i, value) \<in> set m. \<exists>vs. map_of value (tree_field tree) = Some (JArray vs)"
    and "\<forall>i \<in> fst ` set m. \<forall>j \<in> dag_refs R m tree i. (rank j :: nat) < rank i"
  shows "\<exists>xs. build_local_dag R ord m tree = Inr xs \<and> distinct xs \<and> set xs = fst ` set m
    \<and> (\<forall>i < length xs. dag_refs R m tree (xs ! i) \<subseteq> set (take i xs))"
proof (cases "length m \<le> 1")
  case True
  have "dag_refs R m tree i = {}" if i: "i \<in> fst ` set m" for i
  proof -
    have "j = i" if j: "j \<in> fst ` set m" for j using True i j by (cases m) auto
    moreover have "dag_refs R m tree i \<subseteq> fst ` set m"
      by (auto simp: dag_refs_def map_of_eq_None_iff split: option.splits)
    ultimately show ?thesis using assms(4) i by (metis less_irrefl subset_iff all_not_in_conv)
  qed
  then show ?thesis using True assms(1) by (auto simp: build_local_dag_def)
next
  case False
  have "\<forall>x \<in> set m. \<exists>y. dag_node R m tree x = Inr y"
    using assms(3) by (fastforce simp: dag_node_def)
  then obtain dag where dag: "mapR (dag_node R m tree) m = Inr dag"
    by (cases "mapR (dag_node R m tree) m") (use mapR_eq_Inl in fastforce)+
  note g = dag_graph [OF assms(1) dag]
  have nodes: "nodes dag = fst ` set m" using g(1) unfolding nodes_def by (metis list.set_map)
  have "keys_ok dag (dag_key m)" by (simp add: keys_ok_def dag_key_def)
  then obtain xs where xs: "lexicographical_topological_sort ord dag (dag_key m) = Inr xs"
      "kahn (nodes dag) (edges dag) (tb (dag_key m)) {} xs"
    using lexicographical_topological_sort_kahn [OF g(2) _ assms(2)] by blast
  have "set xs = nodes dag"
    using kahn_complete [OF xs(2) edges_closed [OF g(2)], of rank] assms(4) g(3) nodes by blast
  moreover have "distinct xs" "\<forall>i < length xs. edges dag (xs ! i) \<subseteq> set (take i xs)"
    using kahn_sound [OF xs(2)] by auto
  moreover have "edges dag (xs ! i) = dag_refs R m tree (xs ! i)" if "i < length xs" for i
    using that g(3) nodes \<open>set xs = nodes dag\<close> by (metis nth_mem)
  ultimately show ?thesis using xs(1) dag False nodes by (simp add: build_local_dag_def)
qed

text \<open>A small batch: two events that refer to a third, which refers to an event that is not among them.\<close>

definition sample_object :: "string list \<Rightarrow> int \<Rightarrow> json_object" where
  "sample_object prevs ts = [(''type'', JString ''m.room.message''), (''prev_events'', JArray (map JString prevs)),
     (''auth_events'', JArray [JString ''$create'']), (''origin_server_ts'', JInteger ts)]"

definition sample_batch :: "(string \<times> json_object) list" where
  "sample_batch = [(''$c'', sample_object [''$a''] 9), (''$b'', sample_object [''$a'', ''$old''] 3),
     (''$a'', sample_object [''$old''] 7)]"

theorem build_local_dag_correct_witness:
  "build_local_dag sample_ruma rev sample_batch PrevEvents = Inr [''$a'', ''$b'', ''$c'']
    \<and> (\<exists>xs. build_local_dag sample_ruma rev sample_batch PrevEvents = Inr xs \<and> distinct xs \<and> set xs = {''$a'', ''$b'', ''$c''})"
proof -
  let ?rank = "\<lambda>i. if i = ''$a'' then 0 else (1 :: nat)"
  have refs: "\<forall>i \<in> fst ` set sample_batch. \<forall>j \<in> dag_refs sample_ruma sample_batch PrevEvents i. ?rank j < ?rank i"
    by (auto simp: sample_batch_def sample_object_def dag_refs_def split: if_splits)
  have "\<forall>(i, value) \<in> set sample_batch. \<exists>vs. map_of value (tree_field PrevEvents) = Some (JArray vs)"
    by (simp add: sample_batch_def sample_object_def)
  moreover have "distinct (map fst sample_batch)" by (simp add: sample_batch_def)
  moreover have "iteration_order (rev :: string list \<Rightarrow> string list)" by (simp add: iteration_order_def)
  ultimately have "\<exists>xs. build_local_dag sample_ruma rev sample_batch PrevEvents = Inr xs \<and> distinct xs
      \<and> set xs = fst ` set sample_batch"
    using build_local_dag_correct [of sample_batch rev PrevEvents sample_ruma ?rank] refs by blast
  moreover have "fst ` set sample_batch = {''$a'', ''$b'', ''$c''}" by (auto simp: sample_batch_def)
  moreover have "build_local_dag sample_ruma rev sample_batch PrevEvents = Inr [''$a'', ''$b'', ''$c'']" by code_simp
  ultimately show ?thesis by simp
qed

subsection \<open>What the format check promises\<close>

lemma expect_event_id_array_eq:
  "expect_event_id_array R value field = Inr ids \<longleftrightarrow>
     map_of value field = Some (JArray (map JString ids)) \<and> (\<forall>i \<in> set ids. valid_event_id R i)"
proof -
  let ?f = "\<lambda>v. bindR (ok_or (RequestErr ''BadJson: expected an array of event IDs'') (as_str v)) (\<lambda>s.
      if valid_event_id R s then Inr s else Inl (RequestErr ''BadJson: invalid event ID''))"
  have one: "?f v = Inr i \<longleftrightarrow> v = JString i \<and> valid_event_id R i" for v i
    by (cases v) auto
  have "list_all2 (\<lambda>x y. ?f x = Inr y) vs ids \<longleftrightarrow> vs = map JString ids \<and> (\<forall>i \<in> set ids. valid_event_id R i)" for vs
    unfolding one by (induction vs arbitrary: ids) (auto simp: list_all2_Cons1)
  then have "mapR ?f vs = Inr ids \<longleftrightarrow> vs = map JString ids \<and> (\<forall>i \<in> set ids. valid_event_id R i)" for vs
    by (simp add: mapR_eq_Inr)
  moreover have "as_array v = Some vs \<longleftrightarrow> v = JArray vs" for v vs by (cases v) auto
  ultimately show ?thesis
    by (auto simp: expect_event_id_array_def bindR_eq_Inr ok_or_eq_Inr)
qed

text \<open>An event that passes the format check has at most 10 auth events and 20 previous events, all of them event ids;
  its text has at most 65535 bytes and its type 255; and unless it is a create event it cites the create event
  exactly when the room version wants it to.
\<close>

lemma pdu_format_check_sound:
  assumes "pdu_format_check_1 R J obj rules create_event_id = Inr ()"
  shows "\<exists>auths prevs n ty. map_of obj ''auth_events'' = Some (JArray (map JString auths)) \<and> length auths \<le> 10
    \<and> map_of obj ''prev_events'' = Some (JArray (map JString prevs)) \<and> length prevs \<le> 20
    \<and> list_all (valid_event_id R) (auths @ prevs)
    \<and> json_text_len J obj = Some n \<and> n \<le> 65535 \<and> get_str obj ''type'' = Some ty \<and> length ty \<le> 255
    \<and> ((ty = ''m.room.create'' \<and> get_str obj ''state_key'' = Some '''')
       \<or> (create_event_id \<in> set auths \<longleftrightarrow> allow_room_create_in_auth_events rules))"
proof -
  have fits: "pdu_fits J obj" using assms by (auto simp: pdu_format_check_1_def split: if_splits)
  then obtain n where n: "json_text_len J obj = Some n" "n \<le> 65535"
    by (auto simp: pdu_fits_def split: option.splits)
  obtain auths ty prevs where found: "expect_event_id_array R obj ''auth_events'' = Inr auths" "length auths \<le> 10"
      "get_str obj ''type'' = Some ty" "expect_event_id_array R obj ''prev_events'' = Inr prevs" "length prevs \<le> 20"
      "(ty = ''m.room.create'' \<and> get_str obj ''state_key'' = Some '''')
       \<or> (create_event_id \<in> set auths \<longleftrightarrow> allow_room_create_in_auth_events rules)"
    using assms by (auto simp: pdu_format_check_1_def bindR_eq_Inr ok_or_eq_Inr Let_def split: if_splits)
  have "length ty \<le> 255" using fits found(3) by (simp add: pdu_fits_def)
  then show ?thesis using n found by (auto simp: expect_event_id_array_eq list_all_iff)
qed

definition sample_json :: json_lib where
  "sample_json = \<lparr>json_from_str = (\<lambda>_. None), json_text_len = (\<lambda>obj. Some (length obj)),
     reference_hash = (\<lambda>obj _. get_str obj ''hash''), version_ok = (\<lambda>_. True), version_rules = (\<lambda>_. None)\<rparr>"

definition sample_rules :: event_rules where
  "sample_rules = room_version_rules.extend v10_rules
     \<lparr>require_room_create_room_id = False, allow_room_create_in_auth_events = True, content_field_redacts = False, additional_room_creators = False\<rparr>"

end
