(* ===== verification/SampleEvents.thy ===== *)
theory SampleEvents
  imports EventAuth IncomingPdu
begin

text \<open>
  Events that arrive in the sample room, with the verdicts of the authorization rules on them: a message that passes,
  power levels set by an outsider that do not, and a membership event that cites them.
\<close>

definition message_pdu :: "sample_content pdu" where
  "message_pdu = sample_pdu ''$hello'' alice 8 (OtherType ''m.room.message'') None COther [''$power''] [''$create'', ''$alice'', ''$power'']"

definition stranger_pdu :: "sample_content pdu" where
  "stranger_pdu = sample_pdu ''$stranger'' bob 8 RoomPowerLevels (Some '''') (CPower sample_levels) [''$power''] []"

definition follower_pdu :: "sample_content pdu" where
  "follower_pdu = sample_pdu ''$follower'' bob 9 RoomMember (Some bob) (CMember Leave) [''$stranger''] [''$stranger'']"

lemma message_pdu_auth:
  "auth_check sample_ruma v10_rules message_pdu None (\<lambda>ty sk. map_of [((RoomPowerLevels, ''''), power_pdu),
     ((RoomMember, alice), alice_pdu), ((RoomCreate, ''''), create_pdu)] (ty, sk)) create_pdu = Inr True"
  by code_simp

lemma message_pdu_passes:
  assumes "f RoomPowerLevels '''' = Some power_pdu" and "f RoomMember alice = Some alice_pdu"
  shows "auth_check sample_ruma v10_rules message_pdu None f create_pdu = Inr True"
proof -
  have event: "ev_type message_pdu = OtherType ''m.room.message''" "ev_sender message_pdu = alice"
    by (simp_all add: message_pdu_def sample_pdu_def)
  have "auth_check sample_ruma v10_rules message_pdu None f create_pdu
      = auth_check sample_ruma v10_rules message_pdu None (\<lambda>ty sk. map_of [((RoomPowerLevels, ''''), power_pdu),
          ((RoomMember, alice), alice_pdu), ((RoomCreate, ''''), create_pdu)] (ty, sk)) create_pdu"
    using assms by (simp add: auth_check_def Let_def event cong: if_cong)
  then show ?thesis using message_pdu_auth by simp
qed

lemma message_auth_types:
  "auth_types_for_event sample_ruma (ev_type message_pdu) (ev_sender message_pdu) (ev_state_key message_pdu) (ev_content message_pdu) v10_rules
    = Inr [(RoomPowerLevels, ''''), (RoomMember, alice), (RoomCreate, '''')]"
  by (simp add: auth_types_for_event_def message_pdu_def sample_pdu_def v10_rules_def)

lemma stranger_pdu_auth:
  "auth_check sample_ruma v10_rules stranger_pdu None (\<lambda>ty sk. None) create_pdu = Inr False"
  by code_simp

lemma follower_pdu_auth:
  "\<exists>b. auth_check sample_ruma v10_rules follower_pdu None
     (\<lambda>ty sk. map_of [((RoomPowerLevels, ''''), stranger_pdu)] (ty, sk)) create_pdu = Inr b"
  by code_simp

lemma follower_chain_dag:
  "h \<in> {id, rev} \<Longrightarrow> build_local_dag sample_ruma h
     [(''$follower'', [(''event_id'', JString ''$follower''), (''auth_events'', JArray [JString ''$stranger''])]),
      (''$stranger'', [(''event_id'', JString ''$stranger''), (''auth_events'', JArray [])])] AuthEvents
   = Inr [''$stranger'', ''$follower'']"
proof -
  let ?batch = "[(''$follower'', [(''event_id'', JString ''$follower''), (''auth_events'', JArray [JString ''$stranger''])]),
      (''$stranger'', [(''event_id'', JString ''$stranger''), (''auth_events'', JArray [])])]"
  have "build_local_dag sample_ruma id ?batch AuthEvents = Inr [''$stranger'', ''$follower'']" by code_simp
  moreover have "build_local_dag sample_ruma rev ?batch AuthEvents = Inr [''$stranger'', ''$follower'']" by code_simp
  ultimately show "h \<in> {id, rev} \<Longrightarrow> build_local_dag sample_ruma h ?batch AuthEvents = Inr [''$stranger'', ''$follower'']" by blast
qed

end
