(* ===== verification/Outliers.thy ===== *)
theory Outliers
  imports Effects SampleEvents IncomingPdu PduMetadata "HOL-Library.AList"
begin

text \<open>
  Received events up to their place among the outliers: \<open>src/src/service/rooms/event_handler/\<close>, the files
  \<open>handle_outlier_pdu.rs\<close>, \<open>fetch_auth.rs\<close> and checks 2 to 4 of \<open>pdu_checks.rs\<close>. What is shown: an event that is
  accepted as an outlier has passed every check, against auth events that are known, of the same room and not
  rejected; a rejected one is stored and marked; nothing else changes; and where the checks of a fetched auth chain
  depend on the order in which a hash map is visited.
\<close>

subsection \<open>State and libraries\<close>

record events_db =
  ev_timeline :: timeline_db
  ev_metadata :: metadata_db

datatype verified = VerifiedAll | VerifiedSignatures

text \<open>
  \<open>de_pdu\<close> and \<open>ser_pdu\<close> are the derived conversions between an event and its JSON, \<open>create_version\<close> reads the room
  version of the content of a create event; \<open>verify_event\<close> checks signatures and hashes with keys of other servers
  (\<open>None\<close> when they are wrong), \<open>redact\<close> strips an event. \<open>db_first\<close> says which of two concurrent lookups is done
  first, and \<open>hash_order\<close> the order in which a hash map with given keys is visited. The last two are settings.
\<close>

record 'c handler =
  h_ruma :: "'c ruma"
  h_json :: json_lib
  h_codec :: "(json_object, 'c pdu) json_codec"
  de_pdu :: "json_object \<Rightarrow> 'c pdu option"
  ser_pdu :: "'c pdu \<Rightarrow> json_object"
  create_version :: "'c \<Rightarrow> string option"
  verify_event :: "json_object \<Rightarrow> event_rules \<Rightarrow> verified option"
  redact :: "json_object \<Rightarrow> event_rules \<Rightarrow> json_object option"
  db_first :: bool
  hash_order :: "string list \<Rightarrow> string list"
  own_server :: string
  max_fetch_prev_events :: nat

text \<open>
  What other servers answer: the auth chain of an event, an event (at the \<open>n\<close>-th attempt to get it), the ids of the
  state at an event, that state with its auth chain, and the events between two parts of a room (at the \<open>n\<close>-th request,
  and with a limit and a minimum depth). \<open>arrival\<close> is the order in which concurrent answers come in.
\<close>

record network =
  net_event_auth :: "string \<Rightarrow> string \<Rightarrow> string \<Rightarrow> service_error + bytes list"
  net_event :: "string \<Rightarrow> string \<Rightarrow> nat \<Rightarrow> service_error + bytes"
  net_state_ids :: "string \<Rightarrow> string \<Rightarrow> string \<Rightarrow> service_error + string list"
  net_state :: "string \<Rightarrow> string \<Rightarrow> string \<Rightarrow> service_error + bytes list \<times> bytes list"
  net_missing_events :: "nat \<Rightarrow> string \<Rightarrow> string \<Rightarrow> string list \<Rightarrow> string list \<Rightarrow> nat \<Rightarrow> nat \<Rightarrow> service_error + bytes list"
  net_arrival :: "string list \<Rightarrow> string list"

text \<open>A string of the model is the bytes of the text.\<close>

definition bytes_of :: "string \<Rightarrow> bytes" where
  "bytes_of s = map (\<lambda>c. word_of_nat (of_char c)) s"

text \<open>\<open>insert\<close> and \<open>remove\<close> of a \<open>BTreeMap\<close>.\<close>

fun json_insert :: "string \<Rightarrow> json \<Rightarrow> json_object \<Rightarrow> json_object" where
  "json_insert k v [] = [(k, v)]"
| "json_insert k v ((k', v') # obj) =
     (if k < k' then (k, v) # (k', v') # obj
      else if k = k' then (k, v) # obj
      else (k', v') # json_insert k v obj)"

definition json_remove :: "string \<Rightarrow> json_object \<Rightarrow> json_object" where
  "json_remove k obj = filter (\<lambda>(k', _). k' \<noteq> k) obj"

definition with_event_id :: "string \<Rightarrow> json_object \<Rightarrow> json_object" where
  "with_event_id event_id value = json_insert ''event_id'' (JString event_id) value"

text \<open>Errors of the authorization rules, and the room of an event, as results of the services.\<close>

definition service_result :: "string \<Rightarrow> 'a result \<Rightarrow> service_error + 'a" where
  "service_result msg r = (case r of
     Inr x \<Rightarrow> Inr x
   | Inl (Panic s) \<Rightarrow> Inl (PanicErr s)
   | Inl OutOfFuel \<Rightarrow> Inl FuelErr
   | Inl _ \<Rightarrow> Inl (RequestErr msg))"

definition room_of :: "('c, 'y) handler_scheme \<Rightarrow> 'c pdu \<Rightarrow> service_error + string" where
  "room_of H ev = service_result ''room_id_or_hash'' (room_id_or_hash (h_ruma H) ev)"

definition find_pdu :: "('c, 'y) handler_scheme \<Rightarrow> 'z events_db_scheme \<Rightarrow> string \<Rightarrow> 'c pdu option" where
  "find_pdu H db event_id =
     (case get_pdu (db_first H) (h_codec H) (ev_timeline db) (bytes_of event_id) of Inr p \<Rightarrow> Some p | Inl _ \<Rightarrow> None)"

definition known_pdu :: "('c, 'y) handler_scheme \<Rightarrow> 'z events_db_scheme \<Rightarrow> string \<Rightarrow> bool" where
  "known_pdu H db event_id \<longleftrightarrow> pdu_exists (db_first H) (ev_timeline db) (bytes_of event_id) = Inr ()"

definition rejected_in :: "'z events_db_scheme \<Rightarrow> string \<Rightarrow> bool" where
  "rejected_in db event_id \<longleftrightarrow> is_event_rejected (ev_metadata db) (bytes_of event_id)"

definition persist_outlier :: "('c, 'y) handler_scheme \<Rightarrow> string \<Rightarrow> json_object \<Rightarrow> 'z events_db_scheme \<Rightarrow> 'z events_db_scheme" where
  "persist_outlier H event_id value db =
     db\<lparr>ev_timeline := add_pdu_outlier (h_codec H) (bytes_of event_id) value (ev_timeline db)\<rparr>"

definition reject_and_persist :: "('c, 'y) handler_scheme \<Rightarrow> string \<Rightarrow> json_object \<Rightarrow> 'z events_db_scheme \<Rightarrow> 'z events_db_scheme" where
  "reject_and_persist H event_id value db =
     persist_outlier H event_id value
       (db\<lparr>ev_metadata := mark_event_rejected (bytes_of event_id) (ev_metadata db)\<rparr>)"

subsection \<open>Checks 2 to 4\<close>

definition get_room_version_rules :: "('c, 'y) handler_scheme \<Rightarrow> 'c pdu \<Rightarrow> service_error + event_rules" where
  "get_room_version_rules H create_event =
     bindR (ok_or (RequestErr ''invalid content'') (create_version H (ev_content create_event))) (\<lambda>version.
       ok_or (RequestErr ''UnsupportedRoomVersion'') (version_rules (h_json H) version))"

definition signature_hash_check_2_3 ::
  "('c, 'y) handler_scheme \<Rightarrow> json_object \<Rightarrow> event_rules \<Rightarrow> service_error + json_object" where
  "signature_hash_check_2_3 H pdu_json rules =
     (case verify_event H pdu_json rules of
        Some VerifiedAll \<Rightarrow> Inr pdu_json
      | Some VerifiedSignatures \<Rightarrow> ok_or (RequestErr ''BadJson: Unable to redact event'') (redact H pdu_json rules)
      | None \<Rightarrow> Inl (RequestErr ''Forbidden: Signature verification failed''))"

definition auth_state_check_4 ::
  "('c, 'y) handler_scheme \<Rightarrow> 'c pdu \<Rightarrow> event_rules \<Rightarrow> 'c pdu \<Rightarrow> (type_state_key \<times> 'c pdu) list \<Rightarrow> service_error + bool" where
  "auth_state_check_4 H pdu rules create_event by_key =
     service_result ''Event self-authentication failed''
       (auth_check (h_ruma H) (plain_rules rules) pdu None (\<lambda>ty sk. map_of by_key (ty, sk)) create_event)"

definition from_id_val :: "('c, 'y) handler_scheme \<Rightarrow> string \<Rightarrow> json_object \<Rightarrow> service_error + 'c pdu" where
  "from_id_val H event_id value = ok_or (RequestErr ''invalid PDU'') (de_pdu H (with_event_id event_id value))"

subsection \<open>The auth chain of an event, fetched\<close>

text \<open>
  The auth events of an event of the chain, each stored as an outlier, by their types and state keys; \<open>None\<close> when two
  have the same.
\<close>

fun gather_chain_auth ::
  "('c, 'y) handler_scheme \<Rightarrow> (string \<times> 'c pdu) list \<Rightarrow> string list \<Rightarrow> (type_state_key \<times> 'c pdu) list
   \<Rightarrow> ('z events_db_scheme, (type_state_key \<times> 'c pdu) list option) act" where
  "gather_chain_auth H chain [] by_key = returnS (Some by_key)"
| "gather_chain_auth H chain (i # ids) by_key =
     (case map_of chain i of
        None \<Rightarrow> failS (RequestErr ''NotFound: Invalid event_auth response'')
      | Some auth_event \<Rightarrow>
          bindS (changeS (persist_outlier H i (ser_pdu H auth_event))) (\<lambda>_.
            (case ev_state_key auth_event of
               None \<Rightarrow> failS (PanicErr ''unwrap on None'')
             | Some state_key \<Rightarrow>
                 (let key = with_state_key (ev_type auth_event) state_key
                  in if map_of by_key key = None then gather_chain_auth H chain ids ((key, auth_event) # by_key)
                     else returnS None))))"

definition authorise_chain_event ::
  "('c, 'y) handler_scheme \<Rightarrow> event_rules \<Rightarrow> 'c pdu \<Rightarrow> (string \<times> 'c pdu) list \<Rightarrow> string
   \<Rightarrow> ('z events_db_scheme, unit) act" where
  "authorise_chain_event H rules create_event chain event_id =
     (case map_of chain event_id of
        None \<Rightarrow> failS (PanicErr ''unwrap on None'')
      | Some pdu \<Rightarrow>
          bindS (askS (\<lambda>db. rejected_in db event_id \<or> known_pdu H db event_id)) (\<lambda>skip.
            if skip then returnS ()
            else bindS (gather_chain_auth H chain (ev_auth_events pdu) []) (\<lambda>gathered.
              (case gathered of
                 None \<Rightarrow> changeS (reject_and_persist H event_id (ser_pdu H pdu))
               | Some by_key \<Rightarrow>
                   bindS (liftS (auth_state_check_4 H pdu rules create_event by_key)) (\<lambda>ok.
                     if ok then returnS () else changeS (reject_and_persist H event_id (ser_pdu H pdu)))))))"

text \<open>The sorted chain is collected into a hash map before it is visited.\<close>

definition authorise_remote_auth_chain ::
  "('c, 'y) handler_scheme \<Rightarrow> (string \<times> 'c pdu) list \<Rightarrow> event_rules \<Rightarrow> 'c pdu \<Rightarrow> ('z events_db_scheme, unit) act" where
  "authorise_remote_auth_chain H chain rules create_event =
     bindS (liftS (build_local_dag (h_ruma H) (hash_order H) (map (\<lambda>(i, pdu). (i, ser_pdu H pdu)) chain) AuthEvents))
       (\<lambda>topo. forS (authorise_chain_event H rules create_event chain) (hash_order H topo))"

text \<open>An event of the response: dropped when it is malformed or its signature is wrong.\<close>

definition add_chain_event ::
  "('c, 'y) handler_scheme \<Rightarrow> event_rules \<Rightarrow> 'c pdu \<Rightarrow> string \<Rightarrow> bytes \<Rightarrow> (string \<times> 'c pdu) list
   \<Rightarrow> service_error + (string \<times> 'c pdu) list" where
  "add_chain_event H rules create_event room_id json chain =
     bindR (ok_result (parse_incoming_pdu (h_ruma H) (h_json H) (\<lambda>_. Inl NotFoundErr) json (Some rules))) (\<lambda>parsed.
       (case parsed of
          None \<Rightarrow> Inr chain
        | Some (event_room_id, event_id, pdu_json) \<Rightarrow>
            bindR (ok_result (pdu_format_check_1 (h_ruma H) (h_json H) pdu_json rules (ev_id create_event))) (\<lambda>fits.
              if fits = None then Inr chain
              else bindR (ok_result (signature_hash_check_2_3 H pdu_json rules)) (\<lambda>signed.
                (case signed of
                   None \<Rightarrow> Inr chain
                 | Some pdu_json \<Rightarrow>
                     if event_room_id \<noteq> room_id then Inl (RequestErr ''Forbidden: Auth chain event is in another room'')
                     else bindR (from_id_val H event_id pdu_json) (\<lambda>pdu.
                       if ev_state_key pdu = None then Inl (RequestErr ''BadJson: not a state event'')
                       else Inr (AList.update event_id pdu chain)))))))"

definition fetch_and_persist_event_auth ::
  "('c, 'y) handler_scheme \<Rightarrow> network \<Rightarrow> 'c pdu \<Rightarrow> string \<Rightarrow> event_rules \<Rightarrow> 'c pdu
   \<Rightarrow> ('z events_db_scheme, (string \<times> 'c pdu) list) act" where
  "fetch_and_persist_event_auth H N incoming_event origin rules create_event =
     bindS (liftS (room_of H incoming_event)) (\<lambda>room_id.
     bindS (liftS (case net_event_auth N origin room_id (ev_id incoming_event) of
              Inr jsons \<Rightarrow> Inr jsons
            | Inl _ \<Rightarrow> Inl (RequestErr ''Forbidden: Remote server is not divulging the auth chain''))) (\<lambda>jsons.
     bindS (liftS (foldR (add_chain_event H rules create_event room_id) jsons [])) (\<lambda>chain.
     bindS (authorise_remote_auth_chain H chain rules create_event) (\<lambda>_. returnS chain))))"

subsection \<open>Handling an event as an outlier\<close>

text \<open>The auth events known here, as a map.\<close>

definition local_auth_events :: "('c, 'y) handler_scheme \<Rightarrow> 'z events_db_scheme \<Rightarrow> string list \<Rightarrow> (string \<times> 'c pdu) list" where
  "local_auth_events H db ids =
     fold (\<lambda>i m. case find_pdu H db i of Some ev \<Rightarrow> AList.update i ev m | None \<Rightarrow> m) ids []"

fun fill_missing_auth ::
  "(string \<times> 'c pdu) list \<Rightarrow> string \<Rightarrow> (string \<times> 'c pdu) list \<Rightarrow> service_error + (string \<times> 'c pdu) list" where
  "fill_missing_auth chain i auth_events =
     (if map_of auth_events i \<noteq> None then Inr auth_events
      else (case map_of chain i of
              Some ev \<Rightarrow> Inr (AList.update i ev auth_events)
            | None \<Rightarrow> Inl (RequestErr ''Forbidden: Remote server is not divulging auth events'')))"

definition all_auth_events ::
  "('c, 'y) handler_scheme \<Rightarrow> network \<Rightarrow> string \<Rightarrow> 'c pdu \<Rightarrow> event_rules \<Rightarrow> 'c pdu
   \<Rightarrow> ('z events_db_scheme, (string \<times> 'c pdu) list) act" where
  "all_auth_events H N origin create_event rules pdu =
     bindS (askS (\<lambda>db. local_auth_events H db (ev_auth_events pdu))) (\<lambda>auth_events.
       if length auth_events = length (ev_auth_events pdu) then returnS auth_events
       else bindS (fetch_and_persist_event_auth H N pdu origin rules create_event) (\<lambda>chain.
         liftS (foldR (fill_missing_auth chain) (ev_auth_events pdu) auth_events)))"

text \<open>An auth event that is rejected or in another room rejects the event.\<close>

definition check_auth_event ::
  "('c, 'y) handler_scheme \<Rightarrow> string \<Rightarrow> json_object \<Rightarrow> string \<Rightarrow> string \<times> 'c pdu \<Rightarrow> ('z events_db_scheme, unit) act" where
  "check_auth_event H event_id incoming room_id entry db =
     (if rejected_in db (fst entry)
      then (Inl (RequestErr ''Forbidden: Event has rejected auth event''), reject_and_persist H event_id incoming db)
      else (case room_of H (snd entry) of
              Inl e \<Rightarrow> (Inl e, db)
            | Inr room \<Rightarrow>
                if room \<noteq> room_id
                then (Inl (RequestErr ''Forbidden: Event depends on a cross-room auth event''),
                      reject_and_persist H event_id incoming db)
                else (Inr (), db)))"

definition add_auth_by_key ::
  "('c, 'y) handler_scheme \<Rightarrow> string \<Rightarrow> json_object \<Rightarrow> (string \<times> 'c pdu) list \<Rightarrow> string
   \<Rightarrow> (type_state_key \<times> 'c pdu) list \<Rightarrow> ('z events_db_scheme, (type_state_key \<times> 'c pdu) list) act" where
  "add_auth_by_key H event_id incoming auth_events i by_key db =
     (case map_of auth_events i of
        None \<Rightarrow> (Inl (PanicErr ''we just checked that we have all auth events''), db)
      | Some auth_event \<Rightarrow>
          (case ev_state_key auth_event of
             None \<Rightarrow> (Inl (PanicErr ''all auth events must have state keys''), db)
           | Some state_key \<Rightarrow>
               (let key = with_state_key (ev_type auth_event) state_key
                in if map_of by_key key = None then (Inr ((key, auth_event) # by_key), db)
                   else (Inl (RequestErr ''Forbidden: type and state_key combination exists multiple times''),
                         reject_and_persist H event_id incoming db))))"

definition check_auth_chain ::
  "('c, 'y) handler_scheme \<Rightarrow> network \<Rightarrow> string \<Rightarrow> 'c pdu \<Rightarrow> event_rules \<Rightarrow> string \<Rightarrow> string \<Rightarrow> json_object \<Rightarrow> 'c pdu
   \<Rightarrow> ('z events_db_scheme, unit) act" where
  "check_auth_chain H N origin create_event rules event_id room_id incoming pdu =
     bindS (all_auth_events H N origin create_event rules pdu) (\<lambda>auth_events.
     bindS (forS (check_auth_event H event_id incoming room_id)
              (map (\<lambda>i. (i, the (map_of auth_events i))) (hash_order H (map fst auth_events)))) (\<lambda>_.
     bindS (foldS (add_auth_by_key H event_id incoming auth_events) (ev_auth_events pdu) []) (\<lambda>by_key.
     bindS (liftS (auth_state_check_4 H pdu rules create_event by_key)) (\<lambda>ok.
       if ok then returnS ()
       else bindS (changeS (reject_and_persist H event_id incoming)) (\<lambda>_.
         failS (RequestErr ''Forbidden: Event authorisation fails based on auth events''))))))"

definition handle_outlier_pdu ::
  "('c, 'y) handler_scheme \<Rightarrow> network \<Rightarrow> string \<Rightarrow> 'c pdu \<Rightarrow> string \<Rightarrow> string \<Rightarrow> json_object
   \<Rightarrow> ('z events_db_scheme, 'c pdu \<times> json_object) act" where
  "handle_outlier_pdu H N origin create_event event_id room_id value =
     bindS (askS (\<lambda>db. find_pdu H db event_id)) (\<lambda>known.
       (case known of
          Some pdu \<Rightarrow> returnS (pdu, with_event_id event_id value)
        | None \<Rightarrow>
            bindS (liftS (get_room_version_rules H create_event)) (\<lambda>rules.
            bindS (liftS (pdu_format_check_1 (h_ruma H) (h_json H) value rules (ev_id create_event))) (\<lambda>_.
            bindS (liftS (signature_hash_check_2_3 H (json_remove ''unsigned'' value) rules)) (\<lambda>signed.
            (let incoming = with_event_id event_id signed in
            bindS (liftS (ok_or (RequestErr ''BadJson: Event is not a valid PDU'') (de_pdu H incoming))) (\<lambda>pdu.
            bindS (check_auth_chain H N origin create_event rules event_id room_id incoming pdu) (\<lambda>_.
            bindS (changeS (persist_outlier H (ev_id pdu) incoming)) (\<lambda>_.
              returnS (pdu, incoming))))))))))"

subsection \<open>What changes\<close>

text \<open>Only outliers and rejection marks change, and they only grow.\<close>

definition outliers_grow :: "'z events_db_scheme \<Rightarrow> 'z events_db_scheme \<Rightarrow> bool" where
  "outliers_grow db db' \<longleftrightarrow> (\<exists>outliers rejected. db' =
       db\<lparr>ev_timeline := (ev_timeline db)\<lparr>eventid_outlierpdu := outliers\<rparr>,
          ev_metadata := (ev_metadata db)\<lparr>rejectedeventids := rejected\<rparr>\<rparr>
     \<and> dom (eventid_outlierpdu (ev_timeline db)) \<subseteq> dom outliers
     \<and> dom (rejectedeventids (ev_metadata db)) \<subseteq> dom rejected)"

lemma outliers_growI:
  assumes "db' = db\<lparr>ev_timeline := (ev_timeline db)\<lparr>eventid_outlierpdu := outs\<rparr>, ev_metadata := (ev_metadata db)\<lparr>rejectedeventids := rejs\<rparr>\<rparr>"
    and "dom (eventid_outlierpdu (ev_timeline db)) \<subseteq> dom outs" and "dom (rejectedeventids (ev_metadata db)) \<subseteq> dom rejs"
  shows "outliers_grow db db'"
  using assms unfolding outliers_grow_def by blast

lemma outliers_grow_refl [simp, moves_intros]: "reflp outliers_grow"
  unfolding reflp_def
proof
  fix db :: "'z events_db_scheme"
  show "outliers_grow db db"
    by (rule outliers_growI [where outs = "eventid_outlierpdu (ev_timeline db)" and rejs = "rejectedeventids (ev_metadata db)"]) simp_all
qed

lemma outliers_grow_trans [simp, moves_intros]: "transp outliers_grow"
proof (rule transpI)
  fix a b c :: "'z events_db_scheme" assume ab: "outliers_grow a b" and bc: "outliers_grow b c"
  obtain o1 r1 where b: "b = a\<lparr>ev_timeline := (ev_timeline a)\<lparr>eventid_outlierpdu := o1\<rparr>, ev_metadata := (ev_metadata a)\<lparr>rejectedeventids := r1\<rparr>\<rparr>"
    "dom (eventid_outlierpdu (ev_timeline a)) \<subseteq> dom o1" "dom (rejectedeventids (ev_metadata a)) \<subseteq> dom r1"
    using ab unfolding outliers_grow_def by blast
  obtain o2 r2 where c: "c = b\<lparr>ev_timeline := (ev_timeline b)\<lparr>eventid_outlierpdu := o2\<rparr>, ev_metadata := (ev_metadata b)\<lparr>rejectedeventids := r2\<rparr>\<rparr>"
    "dom (eventid_outlierpdu (ev_timeline b)) \<subseteq> dom o2" "dom (rejectedeventids (ev_metadata b)) \<subseteq> dom r2"
    using bc unfolding outliers_grow_def by blast
  show "outliers_grow a c"
    by (rule outliers_growI [where outs = o2 and rejs = r2]) (use b c in auto)
qed

lemma persist_grows [moves_intros]: "outliers_grow db (persist_outlier H i v db)"
  by (rule outliers_growI [where outs = "(eventid_outlierpdu (ev_timeline db))(bytes_of i \<mapsto> to_json (h_codec H) v)"
        and rejs = "rejectedeventids (ev_metadata db)"])
    (auto simp: persist_outlier_def add_pdu_outlier_def)

lemma reject_grows [moves_intros]: "outliers_grow db (reject_and_persist H i v db)"
  by (rule outliers_growI [where outs = "(eventid_outlierpdu (ev_timeline db))(bytes_of i \<mapsto> to_json (h_codec H) v)"
        and rejs = "(rejectedeventids (ev_metadata db))(bytes_of i \<mapsto> [])"])
    (auto simp: reject_and_persist_def persist_outlier_def add_pdu_outlier_def mark_event_rejected_def)

lemma gather_grows [moves_intros]: "moves outliers_grow (gather_chain_auth H chain ids by_key)"
  by (induction ids arbitrary: by_key) (auto intro!: moves_intros simp: Let_def)

lemma authorise_grows [moves_intros]: "moves outliers_grow (authorise_remote_auth_chain H chain rules create_event)"
  unfolding authorise_remote_auth_chain_def authorise_chain_event_def by (intro moves_intros)

lemma fetch_auth_grows [moves_intros]: "moves outliers_grow (fetch_and_persist_event_auth H N incoming origin rules create_event)"
  unfolding fetch_and_persist_event_auth_def by (intro moves_intros)

lemma all_auth_grows [moves_intros]: "moves outliers_grow (all_auth_events H N origin create_event rules pdu)"
  unfolding all_auth_events_def by (intro moves_intros)

lemma check_auth_grows [moves_intros]: "moves outliers_grow (check_auth_event H i incoming room entry)"
  unfolding moves_def check_auth_event_def
  by (auto intro: moves_intros simp: reflpD [OF outliers_grow_refl] split: sum.split)

lemma add_auth_grows [moves_intros]: "moves outliers_grow (add_auth_by_key H i incoming auth_events j by_key)"
  unfolding moves_def add_auth_by_key_def Let_def
  by (auto intro: moves_intros simp: reflpD [OF outliers_grow_refl] split: option.split)

lemma check_chain_grows [moves_intros]:
  "moves outliers_grow (check_auth_chain H N origin create_event rules event_id room_id incoming pdu)"
  unfolding check_auth_chain_def by (intro moves_intros)

lemma handle_outlier_grows [moves_intros]: "moves outliers_grow (handle_outlier_pdu H N origin create_event event_id room_id value)"
  unfolding handle_outlier_pdu_def Let_def by (intro moves_intros)

subsection \<open>Accepted events\<close>

lemma forS_Cons: "forS f (x # xs) = bindS (f x) (\<lambda>_. forS f xs)"
  by (simp add: forS_def)

lemma forS_checks:
  assumes "\<And>x s t. f x s = (Inr (), t) \<longleftrightarrow> t = s \<and> P x s"
  shows "forS f xs s = (Inr (), t) \<longleftrightarrow> t = s \<and> (\<forall>x \<in> set xs. P x s)"
proof (induction xs arbitrary: s)
  case Nil
  show ?case by (auto simp: forS_def act_basic)
next
  case (Cons x xs)
  then show ?case by (auto simp: forS_Cons bindS_Inr assms)
qed

lemma check_auth_event_ok:
  "check_auth_event H i incoming room entry db = (Inr (), db')
   \<longleftrightarrow> db' = db \<and> \<not> rejected_in db (fst entry) \<and> room_of H (snd entry) = Inr room"
  by (auto simp: check_auth_event_def split: sum.splits)

definition auth_entry :: "(string \<times> 'c pdu) list \<Rightarrow> string list \<Rightarrow> event_type \<Rightarrow> string \<Rightarrow> 'c pdu \<Rightarrow> bool" where
  "auth_entry auth_events ids ty sk ev \<longleftrightarrow>
     (\<exists>i \<in> set ids. map_of auth_events i = Some ev \<and> ev_type ev = ty \<and> ev_state_key ev = Some sk)"

lemma add_auth_step:
  "add_auth_by_key H event_id incoming auth_events i by_key db = (Inr m, db') \<longleftrightarrow> db' = db
     \<and> (\<exists>ev sk. map_of auth_events i = Some ev \<and> ev_state_key ev = Some sk \<and> map_of by_key (ev_type ev, sk) = None
        \<and> m = ((ev_type ev, sk), ev) # by_key)"
  by (auto simp: add_auth_by_key_def with_state_key_def Let_def split: option.splits)

lemma add_auth_ok:
  assumes "foldS (add_auth_by_key H event_id incoming auth_events) ids by_key db = (Inr by_key', db')"
  shows "db' = db" and "i \<in> set ids \<Longrightarrow> \<exists>ev sk. map_of auth_events i = Some ev \<and> ev_state_key ev = Some sk"
    and "map_of by_key' (ty, sk) = Some ev \<longleftrightarrow> map_of by_key (ty, sk) = Some ev \<or> auth_entry auth_events ids ty sk ev"
proof -
  have "db' = db \<and> (\<forall>i \<in> set ids. \<exists>ev sk. map_of auth_events i = Some ev \<and> ev_state_key ev = Some sk)
      \<and> (\<forall>ty sk ev. map_of by_key' (ty, sk) = Some ev \<longleftrightarrow> map_of by_key (ty, sk) = Some ev \<or> auth_entry auth_events ids ty sk ev)"
    using assms
  proof (induction ids arbitrary: by_key db)
    case Nil
    then show ?case by (simp add: act_basic auth_entry_def)
  next
    case (Cons i ids)
    obtain ev sk where one: "map_of auth_events i = Some ev" "ev_state_key ev = Some sk" "map_of by_key (ev_type ev, sk) = None"
      and rest: "foldS (add_auth_by_key H event_id incoming auth_events) ids (((ev_type ev, sk), ev) # by_key) db = (Inr by_key', db')"
      using Cons.prems by (auto simp: bindS_Inr add_auth_step)
    note ih = Cons.IH [OF rest]
    have "map_of (((ev_type ev, sk), ev) # by_key) (ty, s) = Some e \<or> auth_entry auth_events ids ty s e
        \<longleftrightarrow> map_of by_key (ty, s) = Some e \<or> auth_entry auth_events (i # ids) ty s e" for ty s e
      using one by (auto simp: auth_entry_def)
    then show ?case using ih one by auto
  qed
  then show "db' = db" and "i \<in> set ids \<Longrightarrow> \<exists>ev sk. map_of auth_events i = Some ev \<and> ev_state_key ev = Some sk"
    and "map_of by_key' (ty, sk) = Some ev \<longleftrightarrow> map_of by_key (ty, sk) = Some ev \<or> auth_entry auth_events ids ty sk ev"
    by blast+
qed

lemma service_result_Inr [simp]: "service_result msg r = Inr x \<longleftrightarrow> r = Inr x"
  by (auto simp: service_result_def split: sum.splits state_error.splits)

lemma map_of_local_auth:
  "map_of (local_auth_events H db ids) i = (if i \<in> set ids then find_pdu H db i else None)"
proof -
  have "map_of (fold (\<lambda>i m. case find_pdu H db i of Some ev \<Rightarrow> AList.update i ev m | None \<Rightarrow> m) ids m) i
      = (case find_pdu H db i of Some ev \<Rightarrow> if i \<in> set ids then Some ev else map_of m i | None \<Rightarrow> map_of m i)" for m
    by (induction ids arbitrary: m) (auto simp: AList.update_conv' split: option.splits)
  then show ?thesis by (auto simp: local_auth_events_def split: option.splits)
qed

lemma fill_missing_keeps:
  "foldR (fill_missing_auth chain) ids m = Inr m' \<Longrightarrow> map_of m i = Some ev \<Longrightarrow> map_of m' i = Some ev"
proof (induction ids arbitrary: m)
  case (Cons a ids)
  obtain m1 where m1: "fill_missing_auth chain a m = Inr m1" "foldR (fill_missing_auth chain) ids m1 = Inr m'"
    using Cons.prems(1) by (auto simp: bindR_eq_Inr simp del: fill_missing_auth.simps)
  have "map_of m1 i = Some ev"
    using m1(1) Cons.prems(2) by (auto simp: AList.update_conv' split: if_splits option.splits)
  then show ?case using Cons.IH [OF m1(2)] by blast
qed simp

text \<open>
  What the server answered for an auth event: an event of its answer that carries this id, is in the room of the event
  and has the right format and signature.
\<close>

definition well_answered ::
  "('c, 'y) handler_scheme \<Rightarrow> event_rules \<Rightarrow> 'c pdu \<Rightarrow> string \<Rightarrow> bytes \<Rightarrow> string \<Rightarrow> 'c pdu \<Rightarrow> bool" where
  "well_answered H rules create_event room json i ev \<longleftrightarrow> (\<exists>pdu_json signed.
     parse_incoming_pdu (h_ruma H) (h_json H) (\<lambda>_. Inl NotFoundErr) json (Some rules) = Inr (room, i, pdu_json)
     \<and> pdu_format_check_1 (h_ruma H) (h_json H) pdu_json rules (ev_id create_event) = Inr ()
     \<and> signature_hash_check_2_3 H pdu_json rules = Inr signed \<and> from_id_val H i signed = Inr ev)"

definition divulged ::
  "('c, 'y) handler_scheme \<Rightarrow> network \<Rightarrow> string \<Rightarrow> 'c pdu \<Rightarrow> event_rules \<Rightarrow> 'c pdu \<Rightarrow> string \<Rightarrow> 'c pdu \<Rightarrow> bool" where
  "divulged H N origin create_event rules pdu i ev \<longleftrightarrow> (\<exists>room jsons. room_of H pdu = Inr room
     \<and> net_event_auth N origin room (ev_id pdu) = Inr jsons
     \<and> (\<exists>json \<in> set jsons. well_answered H rules create_event room json i ev))"

lemma add_chain_event_ok:
  assumes "add_chain_event H rules create_event room json chain = Inr chain'" and "map_of chain' i = Some ev"
  shows "map_of chain i = Some ev \<or> well_answered H rules create_event room json i ev"
  using assms
  by (auto simp: well_answered_def add_chain_event_def bindR_eq_Inr ok_result_def AList.update_conv'
      split: sum.splits if_splits option.splits)

lemma add_chain_events_ok:
  assumes "foldR (add_chain_event H rules create_event room) jsons chain = Inr chain'" and "map_of chain' i = Some ev"
  shows "map_of chain i = Some ev \<or> (\<exists>json \<in> set jsons. well_answered H rules create_event room json i ev)"
  using assms(1)
proof (induction jsons arbitrary: chain)
  case (Cons json jsons)
  obtain mid where mid: "add_chain_event H rules create_event room json chain = Inr mid"
      "foldR (add_chain_event H rules create_event room) jsons mid = Inr chain'"
    using Cons.prems by (auto simp: bindR_eq_Inr)
  show ?case using Cons.IH [OF mid(2)] add_chain_event_ok [OF mid(1)] by fastforce
qed (use assms(2) in simp)

lemma fetched_chain_divulged:
  assumes "fetch_and_persist_event_auth H N pdu origin rules create_event db = (Inr chain, db')"
    and "map_of chain i = Some ev"
  shows "divulged H N origin create_event rules pdu i ev"
proof -
  obtain room jsons where room: "room_of H pdu = Inr room"
    and net: "(case net_event_auth N origin room (ev_id pdu) of Inr jsons \<Rightarrow> Inr jsons
        | Inl _ \<Rightarrow> Inl (RequestErr ''Forbidden: Remote server is not divulging the auth chain'')) = Inr jsons"
    and chain: "foldR (add_chain_event H rules create_event room) jsons [] = Inr chain"
    using assms(1) unfolding fetch_and_persist_event_auth_def bindS_Inr act_basic by blast
  from net have "net_event_auth N origin room (ev_id pdu) = Inr jsons" by (simp split: sum.splits)
  then show ?thesis using add_chain_events_ok [OF chain assms(2)] room unfolding divulged_def by simp
qed

lemma fill_missing_from:
  "foldR (fill_missing_auth chain) ids m = Inr m' \<Longrightarrow> map_of m' i = Some ev \<Longrightarrow> map_of m i = Some ev \<or> map_of chain i = Some ev"
proof (induction ids arbitrary: m)
  case (Cons a ids)
  obtain m1 where m1: "fill_missing_auth chain a m = Inr m1" "foldR (fill_missing_auth chain) ids m1 = Inr m'"
    using Cons.prems(1) by (auto simp: bindR_eq_Inr simp del: fill_missing_auth.simps)
  show ?case using Cons.IH [OF m1(2) Cons.prems(2)] m1(1)
    by (auto simp: AList.update_conv' split: if_splits option.splits)
qed simp

lemma all_auth_fetched:
  assumes "all_auth_events H N origin create_event rules pdu db = (Inr auth_events, db')"
    and "map_of auth_events i = Some ev" and "find_pdu H db i = None"
  shows "divulged H N origin create_event rules pdu i ev"
proof -
  have "map_of (local_auth_events H db (ev_auth_events pdu)) i = None" using assms(3) by (simp add: map_of_local_auth)
  then obtain chain where "fetch_and_persist_event_auth H N pdu origin rules create_event db = (Inr chain, db')" "map_of chain i = Some ev"
    using assms(1,2) fill_missing_from [of _ "ev_auth_events pdu" "local_auth_events H db (ev_auth_events pdu)" auth_events i ev]
    by (auto simp: all_auth_events_def bindS_Inr act_basic split: if_splits)
  then show ?thesis by (rule fetched_chain_divulged)
qed

lemma all_auth_local:
  assumes "all_auth_events H N origin create_event rules pdu db = (Inr auth_events, db')"
    and "i \<in> set (ev_auth_events pdu)" and "find_pdu H db i = Some ev"
  shows "map_of auth_events i = Some ev"
  using assms(1) map_of_local_auth [of H db "ev_auth_events pdu" i] assms(2,3)
  by (auto simp: all_auth_events_def bindS_Inr act_basic split: if_splits intro: fill_missing_keeps)

lemma check_auth_chain_ok:
  assumes "check_auth_chain H N origin create_event rules event_id room_id incoming pdu db = (Inr (), db')"
    and "\<And>xs. set (hash_order H xs) = set xs"
  obtains auth_events by_key where
    "all_auth_events H N origin create_event rules pdu db = (Inr auth_events, db')"
    and "\<And>i. i \<in> set (ev_auth_events pdu) \<Longrightarrow> \<exists>ev sk. map_of auth_events i = Some ev \<and> ev_state_key ev = Some sk
        \<and> \<not> rejected_in db' i \<and> room_of H ev = Inr room_id"
    and "\<And>ty sk ev. map_of by_key (ty, sk) = Some ev \<longleftrightarrow> auth_entry auth_events (ev_auth_events pdu) ty sk ev"
    and "auth_check (h_ruma H) (plain_rules rules) pdu None (\<lambda>ty sk. map_of by_key (ty, sk)) create_event = Inr True"
proof -
  obtain auth_events db1 by_key db2 where one: "all_auth_events H N origin create_event rules pdu db = (Inr auth_events, db1)"
    and two: "forS (check_auth_event H event_id incoming room_id)
              (map (\<lambda>i. (i, the (map_of auth_events i))) (hash_order H (map fst auth_events))) db1 = (Inr (), db1)"
    and three: "foldS (add_auth_by_key H event_id incoming auth_events) (ev_auth_events pdu) [] db1 = (Inr by_key, db2)"
    and four: "auth_state_check_4 H pdu rules create_event by_key = Inr True" "db' = db2"
    using assms(1)
    by (auto simp: check_auth_chain_def bindS_Inr act_basic forS_checks [OF check_auth_event_ok] split: if_splits)
  note added = add_auth_ok [OF three]
  have fine: "\<not> rejected_in db1 i \<and> room_of H (the (map_of auth_events i)) = Inr room_id" if "i \<in> fst ` set auth_events" for i
    using two that assms(2) by (auto simp: forS_checks [OF check_auth_event_ok])
  show thesis
  proof (rule that [OF _ _ _ ])
    show "all_auth_events H N origin create_event rules pdu db = (Inr auth_events, db')" using one added(1) four(2) by simp
    show "\<exists>ev sk. map_of auth_events i = Some ev \<and> ev_state_key ev = Some sk \<and> \<not> rejected_in db' i \<and> room_of H ev = Inr room_id"
      if i: "i \<in> set (ev_auth_events pdu)" for i
    proof -
      obtain ev sk where ev: "map_of auth_events i = Some ev" "ev_state_key ev = Some sk" using added(2) [OF i] by blast
      then have "i \<in> fst ` set auth_events" by (force dest: map_of_SomeD)
      then show ?thesis using fine [of i] ev added(1) four(2) by simp
    qed
    show "map_of by_key (ty, sk) = Some ev \<longleftrightarrow> auth_entry auth_events (ev_auth_events pdu) ty sk ev" for ty sk ev
      using added(3) by simp
    show "auth_check (h_ruma H) (plain_rules rules) pdu None (\<lambda>ty sk. map_of by_key (ty, sk)) create_event = Inr True"
      using four(1) by (simp add: auth_state_check_4_def)
  qed
qed

text \<open>C7. An event that was unknown and is accepted as an outlier has passed every check: the format check, its signature (and
  where the content hash is wrong, what is kept is the redacted event), and the authorization rules against exactly
  the auth events it cites. These are state events of its room and not marked rejected; one that was known before is the
  known event of this id, any other is an event of the auth chain the server answered with, of this very id and with the
  right format and signature. The event is stored as an outlier.
\<close>

theorem accepted_outlier_checked:
  assumes "handle_outlier_pdu H N origin create_event event_id room_id value db = (Inr (pdu, incoming), db')"
    and "find_pdu H db event_id = None" and "\<And>xs. set (hash_order H xs) = set xs"
  shows "\<exists>rules signed auth_events by_key. get_room_version_rules H create_event = Inr rules
    \<and> pdu_format_check_1 (h_ruma H) (h_json H) value rules (ev_id create_event) = Inr ()
    \<and> signature_hash_check_2_3 H (json_remove ''unsigned'' value) rules = Inr signed
    \<and> incoming = with_event_id event_id signed \<and> de_pdu H incoming = Some pdu
    \<and> (\<forall>i \<in> set (ev_auth_events pdu). \<exists>ev sk. map_of auth_events i = Some ev \<and> ev_state_key ev = Some sk
         \<and> \<not> rejected_in db' i \<and> room_of H ev = Inr room_id
         \<and> (case find_pdu H db i of Some known \<Rightarrow> ev = known | None \<Rightarrow> divulged H N origin create_event rules pdu i ev))
    \<and> (\<forall>ty sk ev. map_of by_key (ty, sk) = Some ev \<longleftrightarrow> auth_entry auth_events (ev_auth_events pdu) ty sk ev)
    \<and> auth_check (h_ruma H) (plain_rules rules) pdu None (\<lambda>ty sk. map_of by_key (ty, sk)) create_event = Inr True
    \<and> eventid_outlierpdu (ev_timeline db') (bytes_of (ev_id pdu)) = Some (to_json (h_codec H) incoming)"
proof -
  obtain rules signed db1 where start: "get_room_version_rules H create_event = Inr rules"
      "pdu_format_check_1 (h_ruma H) (h_json H) value rules (ev_id create_event) = Inr ()"
      "signature_hash_check_2_3 H (json_remove ''unsigned'' value) rules = Inr signed"
      "incoming = with_event_id event_id signed" "de_pdu H incoming = Some pdu"
    and chain: "check_auth_chain H N origin create_event rules event_id room_id incoming pdu db = (Inr (), db1)"
    and stored: "db' = persist_outlier H (ev_id pdu) incoming db1"
    using assms(1,2) by (auto simp: handle_outlier_pdu_def bindS_Inr act_basic Let_def ok_or_eq_Inr)
  obtain auth_events by_key where
    all: "all_auth_events H N origin create_event rules pdu db = (Inr auth_events, db1)"
    and fine: "\<And>i. i \<in> set (ev_auth_events pdu) \<Longrightarrow> \<exists>ev sk. map_of auth_events i = Some ev \<and> ev_state_key ev = Some sk
        \<and> \<not> rejected_in db1 i \<and> room_of H ev = Inr room_id"
    and keys: "\<And>ty sk ev. map_of by_key (ty, sk) = Some ev \<longleftrightarrow> auth_entry auth_events (ev_auth_events pdu) ty sk ev"
    and auth: "auth_check (h_ruma H) (plain_rules rules) pdu None (\<lambda>ty sk. map_of by_key (ty, sk)) create_event = Inr True"
    using check_auth_chain_ok [OF chain assms(3)] by blast
  have "\<exists>ev sk. map_of auth_events i = Some ev \<and> ev_state_key ev = Some sk \<and> \<not> rejected_in db' i
      \<and> room_of H ev = Inr room_id
      \<and> (case find_pdu H db i of Some known \<Rightarrow> ev = known | None \<Rightarrow> divulged H N origin create_event rules pdu i ev)" if i: "i \<in> set (ev_auth_events pdu)" for i
  proof -
    obtain ev sk where ev: "map_of auth_events i = Some ev" "ev_state_key ev = Some sk" "\<not> rejected_in db1 i" "room_of H ev = Inr room_id"
      using fine [OF i] by blast
    have "case find_pdu H db i of Some known \<Rightarrow> ev = known | None \<Rightarrow> divulged H N origin create_event rules pdu i ev"
      using all_auth_local [OF all i] all_auth_fetched [OF all ev(1)] ev(1) by (cases "find_pdu H db i") auto
    moreover have "\<not> rejected_in db' i" using ev(3) by (simp add: stored persist_outlier_def rejected_in_def)
    ultimately show ?thesis using ev by blast
  qed
  moreover have "eventid_outlierpdu (ev_timeline db') (bytes_of (ev_id pdu)) = Some (to_json (h_codec H) incoming)"
    by (simp add: stored persist_outlier_def add_pdu_outlier_def)
  ultimately show ?thesis
    using start auth keys by (intro exI [of _ rules] exI [of _ signed] exI [of _ auth_events] exI [of _ by_key]) simp
qed

subsection \<open>A sample handler\<close>

text \<open>Events are stored under the bytes of their ids; three of them are known, a fourth arrives.\<close>

definition sample_handler :: "sample_content handler" where
  "sample_handler = \<lparr>h_ruma = sample_ruma, h_json = sample_json\<lparr>version_rules := \<lambda>_. Some sample_rules\<rparr>,
     h_codec = \<lparr>to_json = \<lambda>obj. case get_str obj ''event_id'' of Some i \<Rightarrow> bytes_of i | None \<Rightarrow> [],
       object_of = \<lambda>_. Inl NotFoundErr,
       pdu_of = \<lambda>b. ok_or NotFoundErr (List.find (\<lambda>p. bytes_of (ev_id p) = b) [create_pdu, alice_pdu, power_pdu, message_pdu])\<rparr>,
     de_pdu = \<lambda>obj. Option.bind (get_str obj ''event_id'') (\<lambda>i. List.find (\<lambda>p. ev_id p = i) [message_pdu]),
     ser_pdu = \<lambda>p. [(''event_id'', JString (ev_id p)), (''auth_events'', JArray (map JString (ev_auth_events p)))],
     create_version = \<lambda>_. Some ''10'', verify_event = \<lambda>_ _. Some VerifiedAll, redact = \<lambda>obj _. Some obj,
     db_first = True, hash_order = id, own_server = ''x'', max_fetch_prev_events = 100\<rparr>"

definition silent_network :: network where
  "silent_network = \<lparr>net_event_auth = \<lambda>_ _ _. Inl NotFoundErr, net_event = \<lambda>_ _ _. Inl NotFoundErr,
     net_state_ids = \<lambda>_ _ _. Inl NotFoundErr, net_state = \<lambda>_ _ _. Inl NotFoundErr,
     net_missing_events = \<lambda>_ _ _ _ _ _ _. Inl NotFoundErr, net_arrival = id\<rparr>"

definition sample_events_db :: events_db where
  "sample_events_db = \<lparr>ev_timeline = \<lparr>tl_short = new_db,
       eventid_outlierpdu = [bytes_of ''$create'' \<mapsto> bytes_of ''$create'', bytes_of ''$alice'' \<mapsto> bytes_of ''$alice'',
         bytes_of ''$power'' \<mapsto> bytes_of ''$power''],
       eventid_pduid = Map.empty, pduid_pdu = [], userroomid_notificationcount = Map.empty,
       userroomid_highlightcount = Map.empty, roomuserid_lastnotificationread = Map.empty\<rparr>,
     ev_metadata = empty_metadata\<rparr>"

definition message_json :: json_object where
  "message_json = [(''auth_events'', JArray [JString ''$create'', JString ''$alice'', JString ''$power'']),
     (''prev_events'', JArray [JString ''$power'']), (''type'', JString ''m.room.message''), (''unsigned'', JNull)]"

lemma bytes_of_inject [simp]: "bytes_of s = bytes_of t \<longleftrightarrow> s = t"
proof
  assume "bytes_of s = bytes_of t"
  moreover have "inj (\<lambda>c. word_of_nat (of_char c) :: 8 word)"
  proof (rule injI)
    fix c d :: char assume "(word_of_nat (of_char c) :: 8 word) = word_of_nat (of_char d)"
    then have "(of_char c :: nat) mod 2 ^ LENGTH(8) = of_char d mod 2 ^ LENGTH(8)" by (simp add: word_of_nat_eq_iff take_bit_eq_mod)
    then have "(of_char c :: nat) = of_char d" by simp
    then show "c = d" by simp
  qed
  ultimately show "s = t" unfolding bytes_of_def by (simp only: inj_map_eq_map)
qed simp

lemma sample_find:
  "find_pdu sample_handler sample_events_db i = (if i = ''$create'' then Some create_pdu else if i = ''$alice'' then Some alice_pdu
     else if i = ''$power'' then Some power_pdu else None)"
  by (simp add: find_pdu_def get_pdu_def select_ok_def get_non_outlier_pdu_def get_pdu_id_def get_pdu_outlier_def table_get_def
    sample_handler_def sample_events_db_def create_pdu_def alice_pdu_def power_pdu_def message_pdu_def sample_pdu_def ok_or_def)

lemma sample_rejected [simp]: "rejected_in sample_events_db i \<longleftrightarrow> False"
  by (simp add: rejected_in_def is_event_rejected_def sample_events_db_def empty_metadata_def)

lemma sample_format:
  "pdu_format_check_1 sample_ruma (h_json sample_handler) message_json sample_rules ''$create'' = Inr ()"
  by (simp add: pdu_format_check_1_def pdu_fits_def expect_event_id_array_def message_json_def sample_json_def sample_handler_def
      sample_rules_def v10_rules_def sample_ruma_def room_version_rules.extend_def)

lemma sample_accepted:
  "fst (handle_outlier_pdu sample_handler silent_network ''y'' create_pdu ''$hello'' ''!r:x'' message_json sample_events_db)
    = Inr (message_pdu, with_event_id ''$hello'' (json_remove ''unsigned'' message_json))"
proof -
  have rules: "get_room_version_rules sample_handler create_pdu = Inr sample_rules"
    by (simp add: get_room_version_rules_def sample_handler_def sample_json_def)
  have plain: "plain_rules sample_rules = v10_rules"
    by (simp add: sample_rules_def room_version_rules.extend_def room_version_rules.truncate_def v10_rules_def)
  have ids: "ev_id create_pdu = ''$create''" "ev_auth_events message_pdu = [''$create'', ''$alice'', ''$power'']"
    by (simp_all add: create_pdu_def message_pdu_def sample_pdu_def)
  have local: "local_auth_events sample_handler sample_events_db [''$create'', ''$alice'', ''$power'']
      = [(''$create'', create_pdu), (''$alice'', alice_pdu), (''$power'', power_pdu)]"
    by (simp add: local_auth_events_def sample_find)
  have de: "de_pdu sample_handler (with_event_id ''$hello'' (json_remove ''unsigned'' message_json)) = Some message_pdu"
    by (simp add: sample_handler_def with_event_id_def json_remove_def message_json_def message_pdu_def sample_pdu_def)
  have format: "pdu_format_check_1 (h_ruma sample_handler) (h_json sample_handler) message_json sample_rules ''$create'' = Inr ()"
    using sample_format by (simp add: sample_handler_def)
  have signed: "signature_hash_check_2_3 sample_handler v r = Inr v" for v r
    by (simp add: signature_hash_check_2_3_def sample_handler_def)
  have room: "room_of sample_handler p = Inr ''!r:x''" if "p \<in> {create_pdu, alice_pdu, power_pdu}" for p
    using that by (auto simp: room_of_def room_id_or_hash_def create_pdu_def alice_pdu_def power_pdu_def sample_pdu_def)
  have order: "hash_order sample_handler = id" and ruma: "h_ruma sample_handler = sample_ruma" by (simp_all add: sample_handler_def)
  have all: "all_auth_events sample_handler silent_network ''y'' create_pdu sample_rules message_pdu sample_events_db
      = (Inr [(''$create'', create_pdu), (''$alice'', alice_pdu), (''$power'', power_pdu)], sample_events_db)"
    by (simp add: all_auth_events_def act_simps ids local)
  have keys: "ev_state_key create_pdu = Some []" "ev_state_key alice_pdu = Some alice" "ev_state_key power_pdu = Some []"
    "ev_type create_pdu = RoomCreate" "ev_type alice_pdu = RoomMember" "ev_type power_pdu = RoomPowerLevels"
    by (simp_all add: create_pdu_def alice_pdu_def power_pdu_def sample_pdu_def)
  let ?in = "with_event_id ''$hello'' (json_remove ''unsigned'' message_json)"
  have "check_auth_chain sample_handler silent_network ''y'' create_pdu sample_rules ''$hello'' ''!r:x'' ?in message_pdu sample_events_db
      = (Inr (), sample_events_db)"
  proof -
    let ?auth = "[(''$create'', create_pdu), (''$alice'', alice_pdu), (''$power'', power_pdu)]"
    let ?keys = "[((RoomPowerLevels, []), power_pdu), ((RoomMember, alice), alice_pdu), ((RoomCreate, []), create_pdu)]"
    have fine: "forS (check_auth_event sample_handler ''$hello'' ?in ''!r:x'')
        (map (\<lambda>i. (i, the (map_of ?auth i))) (hash_order sample_handler (map fst ?auth))) sample_events_db = (Inr (), sample_events_db)"
      by (simp add: forS_checks [OF check_auth_event_ok] order room)
    have added: "foldS (add_auth_by_key sample_handler ''$hello'' ?in ?auth) (ev_auth_events message_pdu) [] sample_events_db
        = (Inr ?keys, sample_events_db)"
      by (simp add: ids bindS_def returnS_def add_auth_by_key_def with_state_key_def keys)
    have ok: "auth_state_check_4 sample_handler message_pdu sample_rules create_pdu ?keys = Inr True"
      using message_pdu_auth by (simp add: auth_state_check_4_def plain ruma)
    show ?thesis
      unfolding check_auth_chain_def
      by (subst bindS_step, rule all, subst bindS_step, rule fine, subst bindS_step, rule added) (simp add: act_simps ok)
  qed
  then show ?thesis
    by (simp add: handle_outlier_pdu_def act_simps Let_def rules ids(1) format signed de sample_find bindS_step)
qed

theorem accepted_outlier_checked_witness:
  "\<exists>signed by_key. signature_hash_check_2_3 sample_handler (json_remove ''unsigned'' message_json) sample_rules = Inr signed
    \<and> (\<forall>i \<in> {''$create'', ''$alice'', ''$power''}. \<exists>ev. find_pdu sample_handler sample_events_db i = Some ev
         \<and> room_of sample_handler ev = Inr ''!r:x'')
    \<and> auth_check sample_ruma v10_rules message_pdu None by_key create_pdu = Inr True"
proof -
  let ?out = "handle_outlier_pdu sample_handler silent_network ''y'' create_pdu ''$hello'' ''!r:x'' message_json sample_events_db"
  let ?in = "with_event_id ''$hello'' (json_remove ''unsigned'' message_json)"
  have "?out = (Inr (message_pdu, ?in), snd ?out)" using sample_accepted by (simp add: prod_eq_iff)
  moreover have "find_pdu sample_handler sample_events_db ''$hello'' = None" by (simp add: sample_find)
  moreover have "set (hash_order sample_handler xs) = set xs" for xs by (simp add: sample_handler_def)
  ultimately obtain rules signed auth_events by_key where checked: "get_room_version_rules sample_handler create_pdu = Inr rules"
    "signature_hash_check_2_3 sample_handler (json_remove ''unsigned'' message_json) rules = Inr signed"
    "\<forall>i \<in> set (ev_auth_events message_pdu). \<exists>ev sk. map_of auth_events i = Some ev \<and> ev_state_key ev = Some sk
         \<and> \<not> rejected_in (snd ?out) i \<and> room_of sample_handler ev = Inr ''!r:x''
         \<and> (case find_pdu sample_handler sample_events_db i of Some known \<Rightarrow> ev = known
            | None \<Rightarrow> divulged sample_handler silent_network ''y'' create_pdu rules message_pdu i ev)"
    "auth_check (h_ruma sample_handler) (plain_rules rules) message_pdu None (\<lambda>ty sk. map_of by_key (ty, sk)) create_pdu = Inr True"
    using accepted_outlier_checked [of sample_handler silent_network "''y''" create_pdu "''$hello''" "''!r:x''" message_json
        sample_events_db message_pdu ?in "snd ?out"] by blast
  have "rules = sample_rules" using checked(1) by (simp add: get_room_version_rules_def sample_handler_def sample_json_def)
  then have rules: "plain_rules rules = v10_rules" "rules = sample_rules"
    by (simp_all add: sample_rules_def room_version_rules.extend_def room_version_rules.truncate_def v10_rules_def)
  have ids: "set (ev_auth_events message_pdu) = {''$create'', ''$alice'', ''$power''}" by (simp add: message_pdu_def sample_pdu_def)
  have "\<exists>ev. find_pdu sample_handler sample_events_db i = Some ev \<and> room_of sample_handler ev = Inr ''!r:x''"
    if i: "i \<in> {''$create'', ''$alice'', ''$power''}" for i
  proof -
    obtain known where "find_pdu sample_handler sample_events_db i = Some known" using i by (auto simp: sample_find)
    then show ?thesis using checked(3) i unfolding ids by fastforce
  qed
  moreover have "h_ruma sample_handler = sample_ruma" by (simp add: sample_handler_def)
  ultimately show ?thesis using checked(2,4) rules
    by (intro exI [of _ signed] exI [of _ "\<lambda>ty sk. map_of by_key (ty, sk)"]) auto
qed

text \<open>A known event is returned as it is stored, but with the JSON that was passed in: none of the checks is made on it.\<close>

lemma known_outlier_unchecked:
  "find_pdu H db event_id = Some pdu \<Longrightarrow>
   handle_outlier_pdu H N origin create_event event_id room_id value db = (Inr (pdu, with_event_id event_id value), db)"
  by (simp add: handle_outlier_pdu_def act_simps)

subsection \<open>The order of a fetched chain\<close>

lemma authorise_failing:
  assumes "map_of chain i = Some pdu" and "ev_auth_events pdu = []" and "auth_state_check_4 H pdu rules create_event [] = Inr False"
    and "\<not> rejected_in db i" and "\<not> known_pdu H db i"
  shows "authorise_chain_event H rules create_event chain i db = (Inr (), reject_and_persist H i (ser_pdu H pdu) db)"
  using assms by (simp add: authorise_chain_event_def act_simps bindS_def)

lemma persist_rejects [simp]: "rejected_in (persist_outlier H i v db) j = rejected_in db j"
  by (simp add: rejected_in_def persist_outlier_def)

lemma reject_rejects [simp]: "rejected_in (reject_and_persist H i v db) j \<longleftrightarrow> j = i \<or> rejected_in db j"
  by (simp add: rejected_in_def reject_and_persist_def persist_outlier_def is_event_rejected_def mark_event_rejected_def table_get_def ok_or_def)

lemma stored_known: "eventid_outlierpdu (ev_timeline db) (bytes_of i) \<noteq> None \<Longrightarrow> known_pdu H db i"
  by (auto simp: known_pdu_def pdu_exists_def select_ok_def outlier_pdu_exists_def table_get_def ok_or_def split: if_splits sum.splits)

text \<open>An event of the chain that passes is not stored, unless another event of the chain cites it.\<close>

lemma accepted_tip_not_stored:
  assumes "map_of chain i = Some pdu" and "ev_auth_events pdu = []" and "auth_state_check_4 H pdu rules create_event [] = Inr True"
  shows "authorise_chain_event H rules create_event chain i db = (Inr (), db)"
  using assms by (simp add: authorise_chain_event_def act_simps bindS_def)

text \<open>C38. The events of a fetched auth chain are to be checked in topological order, but the order is that of a hash map, and the
  auth events of an event are stored before they are checked themselves; a stored event is not checked again. An event
  that fails its check is marked as rejected when it is visited before an event that cites it, and is taken for
  accepted when it is visited after it.
\<close>

theorem chain_check_depends_on_order:
  assumes "map_of chain a = Some p" and "map_of chain b = Some q" and "a \<noteq> b"
    and "ev_auth_events p = [b]" and "ev_auth_events q = []" and "ev_state_key q = Some sk"
    and "auth_state_check_4 H q rules create_event [] = Inr False"
    and "auth_state_check_4 H p rules create_event [((ev_type q, sk), q)] = Inr ok"
    and "\<forall>i \<in> {a, b}. \<not> rejected_in db i \<and> \<not> known_pdu H db i"
    and "build_local_dag (h_ruma H) (hash_order H) (map (\<lambda>(i, pdu). (i, ser_pdu H pdu)) chain) AuthEvents = Inr topo"
  shows "(hash_order H topo = [b, a] \<longrightarrow> rejected_in (snd (authorise_remote_auth_chain H chain rules create_event db)) b)
    \<and> (hash_order H topo = [a, b] \<longrightarrow> \<not> rejected_in (snd (authorise_remote_auth_chain H chain rules create_event db)) b)"
proof (intro conjI impI)
  assume order: "hash_order H topo = [b, a]"
  let ?db = "reject_and_persist H b (ser_pdu H q) db"
  have "authorise_chain_event H rules create_event chain b db = (Inr (), ?db)"
    using assms by (intro authorise_failing) auto
  then have "authorise_remote_auth_chain H chain rules create_event db = forS (authorise_chain_event H rules create_event chain) [a] ?db"
    using assms(10) order by (simp add: authorise_remote_auth_chain_def act_simps forS_Cons bindS_step)
  moreover have "outliers_grow ?db (snd (forS (authorise_chain_event H rules create_event chain) [a] ?db))"
    by (rule movesD [where m = "forS (authorise_chain_event H rules create_event chain) [a]" and r = "fst (forS (authorise_chain_event H rules create_event chain) [a] ?db)"])
      (unfold authorise_chain_event_def, (intro moves_intros), simp)
  moreover have "rejected_in ?db b" by simp
  ultimately show "rejected_in (snd (authorise_remote_auth_chain H chain rules create_event db)) b"
    by (auto simp: rejected_in_def is_event_rejected_def outliers_grow_def)
next
  assume order: "hash_order H topo = [a, b]"
  let ?db = "persist_outlier H b (ser_pdu H q) db"
  let ?db2 = "if ok then ?db else reject_and_persist H a (ser_pdu H p) ?db"
  have a: "authorise_chain_event H rules create_event chain a db = (Inr (), ?db2)"
    using assms by (auto simp: authorise_chain_event_def act_simps bindS_def with_state_key_def)
  have "known_pdu H ?db2 b"
    by (rule stored_known) (simp add: persist_outlier_def reject_and_persist_def add_pdu_outlier_def)
  then have "authorise_chain_event H rules create_event chain b ?db2 = (Inr (), ?db2)"
    using assms(2) by (simp add: authorise_chain_event_def act_simps)
  then have "authorise_remote_auth_chain H chain rules create_event db = (Inr (), ?db2)"
    using assms(10) order a by (simp add: authorise_remote_auth_chain_def act_simps forS_Cons bindS_def) (simp add: forS_def act_simps)
  then show "\<not> rejected_in (snd (authorise_remote_auth_chain H chain rules create_event db)) b"
    using assms(3,9) by simp
qed

definition sample_chain :: "(string \<times> sample_content pdu) list" where
  "sample_chain = [(''$follower'', follower_pdu), (''$stranger'', stranger_pdu)]"

theorem chain_check_depends_on_order_witness:
  "rejected_in (snd (authorise_remote_auth_chain sample_handler sample_chain sample_rules create_pdu sample_events_db)) ''$stranger''
   \<and> \<not> rejected_in (snd (authorise_remote_auth_chain (sample_handler\<lparr>hash_order := rev\<rparr>) sample_chain sample_rules create_pdu
        sample_events_db)) ''$stranger''"
proof -
  have plain: "plain_rules sample_rules = v10_rules"
    by (simp add: sample_rules_def room_version_rules.extend_def room_version_rules.truncate_def v10_rules_def)
  obtain b where b: "auth_check sample_ruma v10_rules follower_pdu None
     (\<lambda>ty sk. map_of [((RoomPowerLevels, ''''), stranger_pdu)] (ty, sk)) create_pdu = Inr b"
    using follower_pdu_auth by blast
  have unknown: "\<not> known_pdu (sample_handler\<lparr>hash_order := h\<rparr>) sample_events_db i" if "i \<in> {''$follower'', ''$stranger''}" for i h
    using that by (auto simp: known_pdu_def pdu_exists_def select_ok_def non_outlier_pdu_exists_def get_pdu_id_def outlier_pdu_exists_def
        table_get_def sample_events_db_def ok_or_def)
  have dag: "build_local_dag sample_ruma h (map (\<lambda>(i, pdu). (i, ser_pdu sample_handler pdu)) sample_chain) AuthEvents
      = Inr [''$stranger'', ''$follower'']" if "h \<in> {id, rev}" for h
    using that follower_chain_dag by (auto simp: sample_chain_def sample_handler_def follower_pdu_def stranger_pdu_def sample_pdu_def)
  have one: "map_of sample_chain ''$follower'' = Some follower_pdu" "map_of sample_chain ''$stranger'' = Some stranger_pdu"
    "ev_auth_events follower_pdu = [''$stranger'']" "ev_auth_events stranger_pdu = []" "ev_state_key stranger_pdu = Some ''''"
    "ev_type stranger_pdu = RoomPowerLevels"
    by (simp_all add: sample_chain_def follower_pdu_def stranger_pdu_def sample_pdu_def)
  have ruma: "h_ruma (sample_handler\<lparr>hash_order := h\<rparr>) = sample_ruma" "ser_pdu (sample_handler\<lparr>hash_order := h\<rparr>) = ser_pdu sample_handler" for h
    by (simp_all add: sample_handler_def)
  have "(hash_order (sample_handler\<lparr>hash_order := h\<rparr>) [''$stranger'', ''$follower''] = [''$stranger'', ''$follower'']
      \<longrightarrow> rejected_in (snd (authorise_remote_auth_chain (sample_handler\<lparr>hash_order := h\<rparr>) sample_chain sample_rules create_pdu sample_events_db)) ''$stranger'')
    \<and> (hash_order (sample_handler\<lparr>hash_order := h\<rparr>) [''$stranger'', ''$follower''] = [''$follower'', ''$stranger'']
      \<longrightarrow> \<not> rejected_in (snd (authorise_remote_auth_chain (sample_handler\<lparr>hash_order := h\<rparr>) sample_chain sample_rules create_pdu sample_events_db)) ''$stranger'')"
    if h: "h \<in> {id, rev}" for h
    using b stranger_pdu_auth h
    by (intro chain_check_depends_on_order [where p = follower_pdu and q = stranger_pdu and sk = "''''" and ok = b])
      (simp_all only: one ruma, simp_all add: auth_state_check_4_def plain ruma one unknown dag)
  from this [of id] this [of rev] show ?thesis by (simp add: sample_handler_def)
qed

end
