(* ===== verification/Fetching.thy ===== *)
theory Fetching
  imports Outliers
begin

text \<open>
  Events fetched from other servers: \<open>src/src/service/rooms/event_handler/fetch_and_handle_outliers.rs\<close>. The walk
  along auth events has fuel, and ends when the events that the answers cite are finitely many; the walk along
  previous events ends by itself.
\<close>

subsection \<open>One event\<close>

definition fetch_event_via ::
  "('c, 'y) handler_scheme \<Rightarrow> network \<Rightarrow> event_rules \<Rightarrow> nat \<Rightarrow> string \<Rightarrow> string \<Rightarrow> service_error + json_object" where
  "fetch_event_via H N rules attempt event_id remote =
     bindR (net_event N remote event_id attempt) (\<lambda>raw.
     bindR (parse_incoming_pdu (h_ruma H) (h_json H) (\<lambda>_. Inl NotFoundErr) raw (Some rules)) (\<lambda>(_, calculated_event_id, value).
       if calculated_event_id \<noteq> event_id then Inl (RequestErr ''BadJson: Server did not return event id we requested'')
       else Inr value))"

text \<open>\<open>select_ok\<close> over futures in the order they complete.\<close>

fun first_ok :: "(service_error + 'a) list \<Rightarrow> service_error + 'a" where
  "first_ok [] = Inl (PanicErr ''iterator provided to select_ok was empty'')"
| "first_ok [r] = r"
| "first_ok (r # rs) = (case r of Inr x \<Rightarrow> Inr x | Inl e \<Rightarrow> if is_panic e then Inl e else first_ok rs)"

definition fetch_event_vias ::
  "('c, 'y) handler_scheme \<Rightarrow> network \<Rightarrow> 'z events_db_scheme \<Rightarrow> event_rules \<Rightarrow> string list \<Rightarrow> nat \<Rightarrow> string
   \<Rightarrow> service_error + json_object" where
  "fetch_event_vias H N db rules candidates attempt event_id =
     (case get_pdu_json (db_first H) (h_codec H) (ev_timeline db) (bytes_of event_id) of
        Inr value \<Rightarrow> Inr value
      | Inl _ \<Rightarrow> first_ok (map (fetch_event_via H N rules attempt event_id) (net_arrival N candidates)))"

definition with_origin :: "string \<Rightarrow> string list \<Rightarrow> string list" where
  "with_origin origin servers = (if origin \<in> set servers then servers else servers @ [origin])"

subsection \<open>Missing auth events\<close>

text \<open>
  The auth events of a fetched event: those known here are taken, the others are counted and queued; the last
  component says whether all were known or fetched before.
\<close>

type_synonym fetched = "(string \<times> json_object) list \<times> (string \<times> nat) list \<times> string list \<times> bool"

definition seen_count :: "(string \<times> nat) list \<Rightarrow> string \<Rightarrow> nat" where
  "seen_count seen i = (case map_of seen i of Some n \<Rightarrow> n | None \<Rightarrow> 0)"

definition local_object :: "('c, 'y) handler_scheme \<Rightarrow> 'c pdu \<Rightarrow> json_object" where
  "local_object H pdu = json_remove ''event_id'' (ser_pdu H pdu)"

fun queue_auth_event :: "('c, 'y) handler_scheme \<Rightarrow> 'z events_db_scheme \<Rightarrow> string \<Rightarrow> fetched \<Rightarrow> fetched" where
  "queue_auth_event H db i (discovered, seen, todo, have_all) =
     (case find_pdu H db i of
        Some pdu \<Rightarrow> (AList.update i (local_object H pdu) discovered, seen, todo, have_all)
      | None \<Rightarrow>
          if map_of discovered i \<noteq> None then (discovered, seen, todo, have_all)
          else (discovered, AList.update i (min 255 (seen_count seen i + 1)) seen, todo @ [i], False))"

fun fetch_auth_loop ::
  "nat \<Rightarrow> ('c, 'y) handler_scheme \<Rightarrow> 'z events_db_scheme \<Rightarrow> (nat \<Rightarrow> string \<Rightarrow> service_error + json_object)
   \<Rightarrow> string list \<Rightarrow> (string \<times> json_object) list \<Rightarrow> (string \<times> nat) list
   \<Rightarrow> service_error + (string \<times> json_object) list \<times> (string \<times> nat) list" where
  "fetch_auth_loop fuel H db fetch [] discovered seen = Inr (discovered, seen)"
| "fetch_auth_loop 0 H db fetch (target # todo) discovered seen = Inl FuelErr"
| "fetch_auth_loop (Suc fuel) H db fetch (target # todo) discovered seen =
     (if map_of discovered target \<noteq> None then fetch_auth_loop fuel H db fetch todo discovered seen
      else (case find_pdu H db target of
          Some pdu \<Rightarrow> fetch_auth_loop fuel H db fetch todo (AList.update target (local_object H pdu) discovered) seen
        | None \<Rightarrow>
            (let attempts = seen_count seen target
             in if 5 \<le> attempts then fetch_auth_loop fuel H db fetch todo discovered seen
                else (case fetch attempts target of
                    Inl e \<Rightarrow> if is_panic e then Inl e else fetch_auth_loop fuel H db fetch todo discovered seen
                  | Inr value \<Rightarrow>
                      (case expect_event_id_array (h_ruma H) value ''auth_events'' of
                         Inl _ \<Rightarrow> fetch_auth_loop fuel H db fetch todo discovered seen
                       | Inr auth_events \<Rightarrow>
                           (case fold (queue_auth_event H db) auth_events (discovered, seen, todo, True) of
                              (discovered, seen, todo, have_all) \<Rightarrow>
                                if have_all then fetch_auth_loop fuel H db fetch todo (AList.update target value discovered) seen
                                else fetch_auth_loop fuel H db fetch (todo @ [target]) discovered
                                       (AList.update target (min 255 (attempts + 1)) seen)))))))"

text \<open>Each fetched event is handled as an outlier, after those it cites.\<close>

definition handle_fetched ::
  "('c, 'y) handler_scheme \<Rightarrow> network \<Rightarrow> string \<Rightarrow> 'c pdu \<Rightarrow> string \<Rightarrow> (string \<times> json_object) list \<Rightarrow> string
   \<Rightarrow> (string \<times> 'c pdu) list \<Rightarrow> ('z events_db_scheme, (string \<times> 'c pdu) list) act" where
  "handle_fetched H N origin create_event room_id discovered i acc =
     (case map_of discovered i of
        None \<Rightarrow> failS (PanicErr ''unwrap on None'')
      | Some pdu_json \<Rightarrow>
          if map_of pdu_json ''event_id'' \<noteq> None then failS (PanicErr ''pdu_json had event_id'')
          else bindS (okS (handle_outlier_pdu H N origin create_event i room_id pdu_json)) (\<lambda>handled.
            returnS (case handled of Some (pdu, _) \<Rightarrow> AList.update i pdu acc | None \<Rightarrow> acc)))"

definition fetch_and_handle_auth_events ::
  "nat \<Rightarrow> ('c, 'y) handler_scheme \<Rightarrow> network \<Rightarrow> event_rules \<Rightarrow> string list \<Rightarrow> string \<Rightarrow> string list \<Rightarrow> 'c pdu \<Rightarrow> string
   \<Rightarrow> ('z events_db_scheme, (string \<times> 'c pdu) list) act" where
  "fetch_and_handle_auth_events fuel H N v1_rules backfill_servers origin events create_event room_id =
     (let rules = (case get_room_version_rules H create_event of Inr r \<Rightarrow> r | Inl _ \<Rightarrow> v1_rules);
          candidates = with_origin origin backfill_servers
      in bindS (\<lambda>db. (foldR (\<lambda>apex (discovered, seen).
              fetch_auth_loop fuel H db (fetch_event_vias H N db rules candidates) [apex] discovered seen) events ([], []), db)) (\<lambda>(discovered, _).
         bindS (liftS (case build_local_dag (h_ruma H) (hash_order H) discovered AuthEvents of
              Inr ordered \<Rightarrow> Inr ordered | Inl _ \<Rightarrow> Inl (PanicErr ''failed to build local DAG''))) (\<lambda>seeded_ordered.
         bindS (foldS (handle_fetched H N origin create_event room_id discovered) seeded_ordered []) (\<lambda>pdus.
           returnS (filter (\<lambda>(i, _). i \<in> set events) pdus)))))"

subsection \<open>Previous events\<close>

lemma length_update_new: "map_of m k = None \<Longrightarrow> length (AList.update k v m) = Suc (length m)"
  by (induction m) auto

function fetch_prev_loop ::
  "('c, 'y) handler_scheme \<Rightarrow> network \<Rightarrow> 'z events_db_scheme \<Rightarrow> (string \<Rightarrow> service_error + json_object)
   \<Rightarrow> string list \<Rightarrow> (string \<times> 'c pdu) list \<Rightarrow> service_error + (string \<times> 'c pdu) list" where
  "fetch_prev_loop H N db fetch [] discovered = Inr discovered"
| "fetch_prev_loop H N db fetch (next_id # todo) discovered =
     (if max_fetch_prev_events H \<le> length discovered then Inr discovered
      else if map_of discovered next_id \<noteq> None then fetch_prev_loop H N db fetch todo discovered
      else (case fetch next_id of
          Inl e \<Rightarrow> if is_panic e then Inl e else fetch_prev_loop H N db fetch todo discovered
        | Inr value \<Rightarrow>
            (case expect_event_id_array (h_ruma H) value ''prev_events'' of
               Inl _ \<Rightarrow> fetch_prev_loop H N db fetch todo discovered
             | Inr prev_events \<Rightarrow>
                 (case from_id_val H next_id value of
                    Inl _ \<Rightarrow> Inl (PanicErr ''fetched PDU was already validated'')
                  | Inr pdu \<Rightarrow>
                      fetch_prev_loop H N db fetch
                        (todo @ net_arrival N (filter (\<lambda>i. map_of discovered i = None \<and> \<not> known_pdu H db i) prev_events))
                        (AList.update next_id pdu discovered)))))"
  by pat_completeness auto
termination
  by (relation "inv_image (less_than <*lex*> less_than)
      (\<lambda>(H, N, db, fetch, todo, discovered). (max_fetch_prev_events H - length discovered, length todo))")
    (auto simp: length_update_new)

definition fetch_prev_events ::
  "('c, 'y) handler_scheme \<Rightarrow> network \<Rightarrow> event_rules \<Rightarrow> string list \<Rightarrow> 'z events_db_scheme \<Rightarrow> string \<Rightarrow> string list \<Rightarrow> 'c pdu
   \<Rightarrow> service_error + (string \<times> 'c pdu) list" where
  "fetch_prev_events H N v1_rules backfill_servers db origin events create_event =
     (let rules = (case get_room_version_rules H create_event of Inr r \<Rightarrow> r | Inl _ \<Rightarrow> v1_rules)
      in fetch_prev_loop H N db (fetch_event_vias H N db rules (with_origin origin backfill_servers) 0) events [])"

subsection \<open>Gaps\<close>

definition timeline_has :: "'z events_db_scheme \<Rightarrow> string \<Rightarrow> bool" where
  "timeline_has db i \<longleftrightarrow> non_outlier_pdu_exists (ev_timeline db) (bytes_of i) = Inr ()"

fun gap_prev ::
  "('c, 'y) handler_scheme \<Rightarrow> 'z events_db_scheme \<Rightarrow> string \<Rightarrow> (string \<times> 'c pdu) list \<times> string list
   \<Rightarrow> (string \<times> 'c pdu) list \<times> string list" where
  "gap_prev H db i (discovered, latest) =
     (if map_of discovered i \<noteq> None \<or> timeline_has db i then (discovered, latest)
      else (case find_pdu H db i of
          Some outlier \<Rightarrow>
            (AList.update i outlier discovered,
             if \<exists>j \<in> set (ev_prev_events outlier). \<not> known_pdu H db j then latest @ [i] else latest)
        | None \<Rightarrow> (discovered, latest @ [i])))"

fun gap_event ::
  "('c, 'y) handler_scheme \<Rightarrow> (string \<Rightarrow> service_error + string) \<Rightarrow> 'z events_db_scheme \<Rightarrow> nat \<Rightarrow> bytes
   \<Rightarrow> (string \<times> 'c pdu) list \<times> string list \<Rightarrow> service_error + (string \<times> 'c pdu) list \<times> string list" where
  "gap_event H room_version db min_depth raw (discovered, latest) =
     bindR (parse_incoming_pdu (h_ruma H) (h_json H) room_version raw None) (\<lambda>(_, event_id, pdu_json).
     bindR (from_id_val H event_id pdu_json) (\<lambda>pdu.
       if map_of discovered event_id \<noteq> None \<or> timeline_has db event_id then Inr (discovered, latest)
       else if ev_depth pdu < min_depth then Inr (AList.update event_id pdu discovered, latest)
       else (case fold (gap_prev H db) (ev_prev_events pdu) (discovered, latest) of
               (discovered, latest) \<Rightarrow> Inr (AList.update event_id pdu discovered, latest))))"

primrec gap_loop ::
  "('c, 'y) handler_scheme \<Rightarrow> network \<Rightarrow> (string \<Rightarrow> service_error + string) \<Rightarrow> 'z events_db_scheme \<Rightarrow> string \<Rightarrow> 'c pdu
   \<Rightarrow> string list \<Rightarrow> string \<Rightarrow> nat \<Rightarrow> nat list \<Rightarrow> (string \<times> 'c pdu) list \<Rightarrow> string list
   \<Rightarrow> service_error + (string \<times> 'c pdu) list" where
  "gap_loop H N room_version db room_id head tail via min_depth [] discovered latest = Inr discovered"
| "gap_loop H N room_version db room_id head tail via min_depth (iteration # rest) discovered latest =
     (let limit = max (min ((iteration + 1) * 10) 50) (length (ev_prev_events head))
      in bindR (net_missing_events N iteration via room_id tail latest limit min_depth) (\<lambda>events.
           if events = [] then Inr discovered
           else bindR (foldR (gap_event H room_version db min_depth) events (discovered, [])) (\<lambda>(discovered, latest).
             if latest = [] then Inr discovered
             else if max_fetch_prev_events H \<le> length discovered then Inr discovered
             else gap_loop H N room_version db room_id head tail via min_depth rest discovered latest)))"

definition get_missing_events ::
  "('c, 'y) handler_scheme \<Rightarrow> network \<Rightarrow> (string \<Rightarrow> service_error + string) \<Rightarrow> 'z events_db_scheme \<Rightarrow> string \<Rightarrow> 'c pdu
   \<Rightarrow> string list \<Rightarrow> string \<Rightarrow> nat \<Rightarrow> service_error + (string \<times> 'c pdu) list" where
  "get_missing_events H N room_version db room_id head tail via min_depth =
     (if tail = [] then Inl (PanicErr ''empty tail'')
      else if via = own_server H then Inl (PanicErr ''cannot ask ourselves for events'')
      else gap_loop H N room_version db room_id head tail via min_depth
             [0 ..< max (max_fetch_prev_events H div 20) 10] [] [ev_id head])"

subsection \<open>The walks end\<close>

text \<open>What is left of the attempts of all events that can be cited.\<close>

definition attempts_left :: "string set \<Rightarrow> (string \<times> nat) list \<Rightarrow> nat" where
  "attempts_left U seen = (\<Sum>i \<in> U. 5 - seen_count seen i)"

definition loop_ends ::
  "('c, 'y) handler_scheme \<Rightarrow> 'z events_db_scheme \<Rightarrow> (nat \<Rightarrow> string \<Rightarrow> service_error + json_object)
   \<Rightarrow> string list \<Rightarrow> (string \<times> json_object) list \<Rightarrow> (string \<times> nat) list \<Rightarrow> bool" where
  "loop_ends H db fetch todo discovered seen \<longleftrightarrow>
     (\<exists>r n. r \<noteq> Inl FuelErr \<and> (\<forall>fuel \<ge> n. fetch_auth_loop fuel H db fetch todo discovered seen = r))"

lemma loop_endsI:
  assumes "\<And>f. fetch_auth_loop (Suc f) H db fetch todo d s = fetch_auth_loop f H db fetch todo' d' s'"
    and "loop_ends H db fetch todo' d' s'"
  shows "loop_ends H db fetch todo d s"
proof -
  obtain r n where r: "r \<noteq> Inl FuelErr" "\<And>fuel. n \<le> fuel \<Longrightarrow> fetch_auth_loop fuel H db fetch todo' d' s' = r"
    using assms(2) unfolding loop_ends_def by blast
  have "fetch_auth_loop fuel H db fetch todo d s = r" if "Suc n \<le> fuel" for fuel
    using assms(1) [of "fuel - 1"] r(2) [of "fuel - 1"] that by simp
  then show ?thesis using r(1) unfolding loop_ends_def by blast
qed

lemma loop_ends_now:
  assumes "\<And>f. fetch_auth_loop (Suc f) H db fetch todo d s = r" and "r \<noteq> Inl FuelErr"
  shows "loop_ends H db fetch todo d s"
proof -
  have "fetch_auth_loop fuel H db fetch todo d s = r" if "1 \<le> fuel" for fuel using assms(1) [of "fuel - 1"] that by simp
  then show ?thesis using assms(2) unfolding loop_ends_def by blast
qed

lemma queue_step:
  assumes "queue_auth_event H db i (d, s, t, a) = (d', s', t', a')"
  shows "min 5 (seen_count s j) \<le> seen_count s' j \<and> set t' \<subseteq> insert i (set t) \<and> (a' \<longrightarrow> a \<and> t' = t \<and> s' = s)"
  using assms by (auto simp: seen_count_def AList.update_conv' split: option.splits if_splits)

lemma queue_all:
  assumes "fold (queue_auth_event H db) ids (d, s, t, a) = (d', s', t', a')"
  shows "min 5 (seen_count s j) \<le> seen_count s' j \<and> set t' \<subseteq> set ids \<union> set t \<and> (a' \<longrightarrow> a \<and> t' = t \<and> s' = s)"
  using assms
proof (induction ids arbitrary: d s t a)
  case (Cons i ids)
  obtain d1 s1 t1 a1 where one: "queue_auth_event H db i (d, s, t, a) = (d1, s1, t1, a1)" by (metis prod_cases4)
  then have "fold (queue_auth_event H db) ids (d1, s1, t1, a1) = (d', s', t', a')" using Cons.prems by simp
  then have "min 5 (seen_count s1 j) \<le> seen_count s' j \<and> set t' \<subseteq> set ids \<union> set t1 \<and> (a' \<longrightarrow> a1 \<and> t' = t1 \<and> s' = s1)"
    by (rule Cons.IH)
  then show ?case using queue_step [OF one, of j] by auto
qed auto

text \<open>Queueing an event again uses up one of its attempts.\<close>

lemma attempts_drop:
  assumes "finite U" and "target \<in> U" and "seen_count seen target < 5" and "\<And>j. min 5 (seen_count seen j) \<le> seen_count s' j"
  shows "attempts_left U (AList.update target (min 255 (seen_count seen target + 1)) s') < attempts_left U seen"
  unfolding attempts_left_def
proof (rule sum_strict_mono_ex1 [OF assms(1)])
  let ?s = "AList.update target (min 255 (seen_count seen target + 1)) s'"
  have count: "seen_count ?s j = (if j = target then min 255 (seen_count seen target + 1) else seen_count s' j)" for j
    by (simp add: seen_count_def AList.update_conv')
  show "\<forall>i \<in> U. 5 - seen_count ?s i \<le> 5 - seen_count seen i"
  proof
    fix i
    show "5 - seen_count ?s i \<le> 5 - seen_count seen i" unfolding count using assms(4) [of i] assms(3) by (cases "i = target") auto
  qed
  show "\<exists>a \<in> U. 5 - seen_count ?s a < 5 - seen_count seen a"
    unfolding count using assms(2,3) by (intro bexI [of _ target]) auto
qed

text \<open>C15. However other servers answer, the walk along missing auth events ends, as long as the events their answers cite are
  finitely many: with enough fuel it returns the same result, which is not the lack of fuel.
\<close>

theorem fetch_auth_loop_ends:
  assumes "finite U" and "set todo \<subseteq> U"
    and "\<And>n i value ids. fetch n i = Inr value \<Longrightarrow> expect_event_id_array (h_ruma H) value ''auth_events'' = Inr ids \<Longrightarrow> set ids \<subseteq> U"
    and "\<And>n i. fetch n i \<noteq> Inl FuelErr"
  shows "loop_ends H db fetch todo discovered seen"
  using assms(2)
proof (induction "attempts_left U seen" arbitrary: todo discovered seen rule: less_induct)
  case less
  show ?case using less.prems
  proof (induction todo arbitrary: discovered)
    case Nil
    show ?case by (rule loop_ends_now [where r = "Inr (discovered, seen)"]) simp_all
  next
    case (Cons target todo)
    then have shorter: "loop_ends H db fetch todo d seen" for d by simp
    let ?n = "seen_count seen target"
    consider "map_of discovered target \<noteq> None \<or> find_pdu H db target \<noteq> None \<or> 5 \<le> ?n"
      | e where "map_of discovered target = None" "find_pdu H db target = None" "?n < 5" "fetch ?n target = Inl e"
      | v e where "map_of discovered target = None" "find_pdu H db target = None" "?n < 5" "fetch ?n target = Inr v"
          "expect_event_id_array (h_ruma H) v ''auth_events'' = Inl e"
      | v ids where "map_of discovered target = None" "find_pdu H db target = None" "?n < 5" "fetch ?n target = Inr v"
          "expect_event_id_array (h_ruma H) v ''auth_events'' = Inr ids"
      by (metis sum.exhaust not_le_imp_less)
    then show ?case
    proof cases
      case 1
      let ?d = "case map_of discovered target of Some _ \<Rightarrow> discovered
          | None \<Rightarrow> (case find_pdu H db target of Some pdu \<Rightarrow> AList.update target (local_object H pdu) discovered | None \<Rightarrow> discovered)"
      show ?thesis by (rule loop_endsI [OF _ shorter [of ?d]]) (use 1 in \<open>auto split: option.splits\<close>)
    next
      case (2 e)
      have "e \<noteq> FuelErr" using assms(4) [of ?n target] 2 by auto
      then show ?thesis using shorter [of discovered] 2
        by (cases "is_panic e") (auto intro: loop_endsI loop_ends_now [where r = "Inl e"])
    next
      case (3 v e)
      then show ?thesis using shorter [of discovered] by (auto intro: loop_endsI)
    next
      case (4 v ids)
      obtain d' s' t' a' where q: "fold (queue_auth_event H db) ids (discovered, seen, todo, True) = (d', s', t', a')"
        by (metis prod_cases4)
      note queued = queue_all [OF q]
      show ?thesis
      proof (cases a')
        case True
        then have "t' = todo" "s' = seen" using queued by blast+
        then show ?thesis using shorter [of "AList.update target v d'"] 4 q True by (auto intro: loop_endsI)
      next
        case False
        let ?s = "AList.update target (min 255 (?n + 1)) s'"
        have "attempts_left U ?s < attempts_left U seen"
          using Cons.prems 4(3) queued by (intro attempts_drop [OF assms(1)]) auto
        moreover have "set t' \<subseteq> set ids \<union> set todo" using queued by blast
        then have "set (t' @ [target]) \<subseteq> U" using assms(3) [OF 4(4,5)] Cons.prems by auto
        ultimately have "loop_ends H db fetch (t' @ [target]) d' ?s" by (rule less.hyps)
        then show ?thesis using 4 q False by (auto intro: loop_endsI)
      qed
    qed
  qed
qed

theorem fetch_auth_loop_ends_witness:
  "loop_ends sample_handler sample_events_db (\<lambda>_ _. Inr [(''auth_events'', JArray [JString ''$loop''])]) [''$loop''] [] []"
  by (rule fetch_auth_loop_ends [where U = "{''$loop''}"])
    (auto simp: expect_event_id_array_eq)

text \<open>
  Every event that cites a missing event counts as an attempt to fetch it: an event that five fetched events cite is
  given up before it is asked for, and so are the five.
\<close>

lemma five_citations_give_up:
  assumes "\<And>i. find_pdu H db i = None" and "\<And>i. valid_event_id (h_ruma H) i"
    and "\<And>n i. fetch n i = Inr [(''auth_events'', JArray (if i = ''x'' then [] else [JString ''x'']))]"
  shows "fetch_auth_loop (12 + fuel) H db fetch [''a'', ''b'', ''c'', ''d'', ''e''] [] []
    = fetch_auth_loop (6 + fuel) H db fetch [''a'', ''x'', ''b'', ''x'', ''c'', ''x'', ''d'', ''x'', ''e''] []
        [(''x'', 5), (''a'', 1), (''b'', 1), (''c'', 1), (''d'', 1), (''e'', 1)]"
    and "map_of discovered ''x'' = None \<Longrightarrow> 5 \<le> seen_count seen ''x''
      \<Longrightarrow> fetch_auth_loop (Suc fuel) H db fetch (''x'' # todo) discovered seen = fetch_auth_loop fuel H db fetch todo discovered seen"
  using assms by (simp_all add: expect_event_id_array_def seen_count_def numeral_eq_Suc)

lemma handle_fetched_grows [moves_intros]: "moves outliers_grow (handle_fetched H N origin create_event room_id discovered i acc)"
  unfolding handle_fetched_def by (intro moves_intros)

lemma fetch_and_handle_grows [moves_intros]:
  "moves outliers_grow (fetch_and_handle_auth_events fuel H N v1_rules servers origin events create_event room_id)"
  unfolding fetch_and_handle_auth_events_def Let_def by (intro moves_intros)

subsection \<open>What the walks along previous events return\<close>

lemma fetch_prev_bound:
  "fetch_prev_loop H N db fetch todo discovered = Inr r \<Longrightarrow> length discovered \<le> max_fetch_prev_events H
   \<Longrightarrow> length r \<le> max_fetch_prev_events H"
  by (induction H N db fetch todo discovered rule: fetch_prev_loop.induct)
    (auto simp: length_update_new split: if_splits sum.splits)

definition outside_timeline :: "'z events_db_scheme \<Rightarrow> (string \<times> 'c pdu) list \<Rightarrow> bool" where
  "outside_timeline db d \<longleftrightarrow> (\<forall>i. map_of d i \<noteq> None \<longrightarrow> \<not> timeline_has db i)"

lemma gap_prev_outside:
  "outside_timeline db d \<Longrightarrow> fold (gap_prev H db) ids (d, l) = (d', l') \<Longrightarrow> outside_timeline db d'"
proof (induction ids arbitrary: d l)
  case (Cons i ids)
  obtain d1 l1 where one: "gap_prev H db i (d, l) = (d1, l1)" by fastforce
  have "outside_timeline db d1"
    using one Cons.prems(1) by (auto simp: outside_timeline_def AList.update_conv' split: if_splits option.splits)
  then show ?case using Cons.IH [of d1 l1] Cons.prems(2) one by simp
qed auto

lemma gap_event_outside:
  assumes "gap_event H room_version db min_depth raw (d, l) = Inr (d', l')" and "outside_timeline db d"
  shows "outside_timeline db d'"
proof -
  have add: "outside_timeline db (AList.update i p d0)" if "outside_timeline db d0" "\<not> timeline_has db i" for i p d0
    using that by (auto simp: outside_timeline_def AList.update_conv')
  obtain room i v where parsed: "parse_incoming_pdu (h_ruma H) (h_json H) room_version raw None = Inr (room, i, v)"
    using assms(1) by (auto simp: bindR_eq_Inr)
  obtain p where p: "from_id_val H i v = Inr p" using assms(1) parsed by (auto simp: bindR_eq_Inr)
  obtain d1 l1 where folded: "fold (gap_prev H db) (ev_prev_events p) (d, l) = (d1, l1)" by fastforce
  have "outside_timeline db d1" using gap_prev_outside [OF assms(2) folded] .
  then show ?thesis using assms add parsed p folded by (auto split: if_splits)
qed

lemma gap_loop_outside:
  "gap_loop H N room_version db room_id head tail via min_depth its d l = Inr r \<Longrightarrow> outside_timeline db d
   \<Longrightarrow> outside_timeline db r"
proof (induction its arbitrary: d l)
  case (Cons n its)
  have events: "outside_timeline db d'" if "foldR (gap_event H room_version db min_depth) es (d, []) = Inr (d', l')" for es d' l'
  proof -
    have "(\<lambda>(d, l). outside_timeline db d) (d', l')"
      by (rule foldR_invariant [OF that]) (use Cons.prems(2) gap_event_outside in \<open>auto simp del: gap_event.simps\<close>)
    then show ?thesis by simp
  qed
  show ?case using Cons.prems Cons.IH events
    by (auto simp: bindR_eq_Inr Let_def simp del: gap_event.simps split: if_splits)
qed simp

text \<open>The walk along previous events returns at most as many events as the setting allows, and filling a gap returns no event
  that is in the timeline already.
\<close>

lemma fetched_events_bounded:
  "(fetch_prev_events H N v1_rules servers db origin events create_event = Inr r \<longrightarrow> length r \<le> max_fetch_prev_events H)
   \<and> (get_missing_events H N room_version db room_id head tail via min_depth = Inr m \<longrightarrow> map_of m i \<noteq> None \<longrightarrow> \<not> timeline_has db i)"
proof (intro conjI impI)
  assume "fetch_prev_events H N v1_rules servers db origin events create_event = Inr r"
  then show "length r \<le> max_fetch_prev_events H" unfolding fetch_prev_events_def Let_def by (rule fetch_prev_bound) simp
next
  assume m: "get_missing_events H N room_version db room_id head tail via min_depth = Inr m" and i: "map_of m i \<noteq> None"
  have "gap_loop H N room_version db room_id head tail via min_depth [0 ..< max (max_fetch_prev_events H div 20) 10] [] [ev_id head] = Inr m"
    using m by (simp add: get_missing_events_def split: if_splits)
  then have "outside_timeline db m" by (rule gap_loop_outside) (simp add: outside_timeline_def)
  then show "\<not> timeline_has db i" using i by (simp add: outside_timeline_def)
qed

end
