(* ===== verification/ServerState.thy ===== *)
theory ServerState
  imports Fetching RoomState AuthChain StateCache StateRes
begin

text \<open>
  The stores of the room services together, and what the event handler reads of the state of a room:
  \<open>src/src/service/rooms/state_accessor/\<close> (room state, creators, power levels, who can redact), \<open>get_auth_events\<close> and
  \<open>force_state\<close> of \<open>src/src/service/rooms/state/mod.rs\<close>, \<open>acl_check.rs\<close>, and \<open>redacts_id\<close> of
  \<open>src/src/core/matrix/event/redact.rs\<close>.
\<close>

subsection \<open>The stores\<close>

text \<open>
  The services share one table of short ids and one counter: they are those of the timeline here, and the other
  stores get them for each operation.
\<close>

record ('l, 'k) server_db = events_db +
  sv_rooms :: "'l rooms_db"
  sv_chains :: "'k chain_db"
  sv_cache :: cache_db

definition shared_short :: "'z events_db_scheme \<Rightarrow> short_db" where
  "shared_short db = tl_short (ev_timeline db)"

definition put_short :: "short_db \<Rightarrow> 'z events_db_scheme \<Rightarrow> 'z events_db_scheme" where
  "put_short sdb db = db\<lparr>ev_timeline := (ev_timeline db)\<lparr>tl_short := sdb\<rparr>\<rparr>"

definition on_short :: "(short_db \<Rightarrow> 'a \<times> short_db) \<Rightarrow> ('z events_db_scheme, 'a) act" where
  "on_short f db = (case f (shared_short db) of (x, sdb) \<Rightarrow> (Inr x, put_short sdb db))"

definition on_timeline :: "(timeline_db \<Rightarrow> 'a \<times> timeline_db) \<Rightarrow> ('z events_db_scheme, 'a) act" where
  "on_timeline f db = (case f (ev_timeline db) of (x, tdb) \<Rightarrow> (Inr x, db\<lparr>ev_timeline := tdb\<rparr>))"

definition rooms_of :: "('l, 'k, 'z) server_db_scheme \<Rightarrow> 'l rooms_db" where
  "rooms_of db = (sv_rooms db)\<lparr>short := shared_short db\<rparr>"

definition on_rooms ::
  "('l rooms_db \<Rightarrow> (service_error + 'a) \<times> 'l rooms_db) \<Rightarrow> (('l, 'k, 'z) server_db_scheme, 'a) act" where
  "on_rooms f db = (case f (rooms_of db) of (r, rdb) \<Rightarrow> (r, put_short (short rdb) (db\<lparr>sv_rooms := rdb\<rparr>)))"

definition on_chains ::
  "('k chain_db \<Rightarrow> (service_error + 'a) \<times> 'k chain_db) \<Rightarrow> (('l, 'k, 'z) server_db_scheme, 'a) act" where
  "on_chains f db =
     (case f ((sv_chains db)\<lparr>chain_short := shared_short db\<rparr>) of (r, cdb) \<Rightarrow>
        (r, put_short (chain_short cdb) (db\<lparr>sv_chains := cdb\<rparr>)))"

definition on_cache ::
  "(cache_db \<Rightarrow> (service_error + 'a) \<times> cache_db) \<Rightarrow> (('l, 'k, 'z) server_db_scheme, 'a) act" where
  "on_cache f db =
     (case f ((sv_cache db)\<lparr>sc_short := shared_short db\<rparr>) of (r, cdb) \<Rightarrow>
        (r, put_short (sc_short cdb) (db\<lparr>sv_cache := cdb\<rparr>)))"

definition plain_result :: "('d \<Rightarrow> 'a \<times> 'd) \<Rightarrow> 'd \<Rightarrow> (service_error + 'a) \<times> 'd" where
  "plain_result f d = (case f d of (x, d') \<Rightarrow> (Inr x, d'))"

text \<open>
  Further library functions: \<open>chunks\<close> cuts a list of event ids into the batches of a batch lookup; the \<open>create_\<close>
  fields read the content of the create event and \<open>redaction_target\<close> that of a redaction; \<open>can_redact_other\<close> and
  \<open>can_redact_own\<close> are methods of the library's \<open>RoomPowerLevels\<close>, from the content, the rules and the creators;
  \<open>acl_lists\<close> and \<open>acl_allows\<close> read server ACLs. \<open>policy\<close> is the answer of the policy server, with the JSON it
  leaves, \<open>admin_command\<close> what becomes of a message's text, and \<open>member_env\<close> what other services say of a member event.
\<close>

record ('c, 'l, 'k) server_lib = "'c handler" +
  state_cache_lru :: "'l state_lru"
  chain_cache_lru :: "'k chain_lru"
  chain_schedule :: chain_sched
  schedule :: sched
  sha256 :: "bytes \<Rightarrow> bytes"
  walk_fuel :: nat
  cache_ids :: id_rules
  cache_order :: "bytes list \<Rightarrow> bytes list"
  chunks :: "bytes list \<Rightarrow> bytes list list"
  create_creator :: "'c \<Rightarrow> string option"
  create_additional :: "'c \<Rightarrow> string list"
  redaction_target :: "'c \<Rightarrow> string option option"
  can_redact_other :: "power_levels_content \<Rightarrow> authorization_rules \<Rightarrow> string list \<Rightarrow> string \<Rightarrow> bool"
  can_redact_own :: "power_levels_content \<Rightarrow> authorization_rules \<Rightarrow> string list \<Rightarrow> string \<Rightarrow> bool"
  acl_lists :: "'c \<Rightarrow> (string list \<times> string list) option"
  acl_allows :: "'c \<Rightarrow> string \<Rightarrow> bool"
  policy :: "'c pdu \<Rightarrow> json_object \<Rightarrow> (service_error + bool) \<times> json_object"
  admin_command :: "'c pdu \<Rightarrow> service_error + unit"
  member_env :: "'c pdu \<Rightarrow> membership_env"
  backfill_servers :: "string list"
  v1_rules :: event_rules

subsection \<open>Names\<close>

definition string_of :: "bytes \<Rightarrow> string" where
  "string_of b = map (\<lambda>w. char_of (unat w)) b"

fun type_name :: "event_type \<Rightarrow> string" where
  "type_name RoomCreate = ''m.room.create''"
| "type_name RoomMember = ''m.room.member''"
| "type_name RoomPowerLevels = ''m.room.power_levels''"
| "type_name RoomJoinRules = ''m.room.join_rules''"
| "type_name RoomThirdPartyInvite = ''m.room.third_party_invite''"
| "type_name RoomRedaction = ''m.room.redaction''"
| "type_name RoomAliases = ''m.room.aliases''"
| "type_name (OtherType s) = s"

definition type_of_name :: "string \<Rightarrow> event_type" where
  "type_of_name s =
     (case List.find (\<lambda>ty. type_name ty = s)
        [RoomCreate, RoomMember, RoomPowerLevels, RoomJoinRules, RoomThirdPartyInvite, RoomRedaction, RoomAliases] of
        Some ty \<Rightarrow> ty | None \<Rightarrow> OtherType s)"

definition key_bytes :: "event_type \<Rightarrow> string \<Rightarrow> bytes \<times> bytes" where
  "key_bytes ty sk = (bytes_of (type_name ty), bytes_of sk)"

definition key_of_bytes :: "bytes \<times> bytes \<Rightarrow> type_state_key" where
  "key_of_bytes p = (type_of_name (string_of (fst p)), string_of (snd p))"

subsection \<open>Room state\<close>

definition get_event :: "('c, 'y) handler_scheme \<Rightarrow> bytes \<Rightarrow> ('z events_db_scheme, 'c pdu) act" where
  "get_event H event_id db = (get_pdu (db_first H) (h_codec H) (ev_timeline db) event_id, db)"

definition state_get ::
  "('c, 'l, 'k, 'y) server_lib_scheme \<Rightarrow> u64 \<Rightarrow> event_type \<Rightarrow> string \<Rightarrow> (('l, 'k, 'z) server_db_scheme, 'c pdu) act" where
  "state_get H shortstatehash ty sk =
     bindS (on_rooms (state_get_id (state_cache_lru H) (walk_fuel H) shortstatehash (key_bytes ty sk))) (get_event H)"

definition room_state_get ::
  "('c, 'l, 'k, 'y) server_lib_scheme \<Rightarrow> string \<Rightarrow> event_type \<Rightarrow> string \<Rightarrow> (('l, 'k, 'z) server_db_scheme, 'c pdu) act" where
  "room_state_get H room_id ty sk =
     bindS (\<lambda>db. (get_room_shortstatehash (rooms_of db) (bytes_of room_id), db)) (\<lambda>shortstatehash.
       state_get H shortstatehash ty sk)"

definition expectS :: "string \<Rightarrow> ('s, 'a) act \<Rightarrow> ('s, 'a) act" where
  "expectS msg m s = (case m s of (Inr x, s') \<Rightarrow> (Inr x, s') | (Inl _, s') \<Rightarrow> (Inl (PanicErr msg), s'))"

definition get_room_create_event ::
  "('c, 'l, 'k, 'y) server_lib_scheme \<Rightarrow> string \<Rightarrow> (('l, 'k, 'z) server_db_scheme, 'c pdu) act" where
  "get_room_create_event H room_id = expectS ''room must have a create event'' (room_state_get H room_id RoomCreate '''')"

definition get_room_version ::
  "('c, 'l, 'k, 'y) server_lib_scheme \<Rightarrow> string \<Rightarrow> (('l, 'k, 'z) server_db_scheme, string) act" where
  "get_room_version H room_id db =
     (case bindS (room_state_get H room_id RoomCreate '''') (\<lambda>ev.
         liftS (ok_or (RequestErr ''invalid content'') (create_version H (ev_content ev)))) db of
        (Inr v, db) \<Rightarrow> (Inr v, db)
      | (Inl e, db) \<Rightarrow> (Inl (if is_panic e then e else NotFoundErr), db))"

definition known_version_rules ::
  "('c, 'l, 'k, 'y) server_lib_scheme \<Rightarrow> string \<Rightarrow> (('l, 'k, 'z) server_db_scheme, event_rules) act" where
  "known_version_rules H room_id =
     bindS (expectS ''room should have a version'' (get_room_version H room_id)) (\<lambda>version.
       liftS (ok_or (PanicErr ''room version should be known'') (version_rules (h_json H) version)))"

definition get_room_creators ::
  "('c, 'l, 'k, 'y) server_lib_scheme \<Rightarrow> string \<Rightarrow> (('l, 'k, 'z) server_db_scheme, string list) act" where
  "get_room_creators H room_id =
     bindS (known_version_rules H room_id) (\<lambda>rules.
     bindS (get_room_create_event H room_id) (\<lambda>create_event.
       if create_version H (ev_content create_event) = None then failS (PanicErr ''create event content should be valid'')
       else bindS (if use_room_create_sender (authorization rules) then returnS (ev_sender create_event)
              else liftS (ok_or (PanicErr ''unwrap on None'') (create_creator H (ev_content create_event)))) (\<lambda>creator.
         returnS (if additional_room_creators rules then creator # create_additional H (ev_content create_event)
                  else [creator]))))"

text \<open>The content in force, with the rules and the creators it is read with.\<close>

definition get_room_power_levels ::
  "('c, 'l, 'k, 'y) server_lib_scheme \<Rightarrow> string
   \<Rightarrow> (('l, 'k, 'z) server_db_scheme, power_levels_content \<times> authorization_rules \<times> string list) act" where
  "get_room_power_levels H room_id =
     bindS (known_version_rules H room_id) (\<lambda>rules.
     bindS (get_room_creators H room_id) (\<lambda>creators.
     bindS (\<lambda>db. case room_state_get H room_id RoomPowerLevels '''' db of
          (Inr ev, db) \<Rightarrow>
            (ok_or (PanicErr ''Failed to deserialize power levels event content'')
               (de_RoomPowerLevelsEventContent (h_ruma H) (ev_content ev)), db)
        | (Inl NotFoundErr, db) \<Rightarrow> (Inr (new_power_levels (h_ruma H) (authorization rules)), db)
        | (Inl _, db) \<Rightarrow> (Inl (PanicErr ''Failed to deserialize power levels event content''), db)) (\<lambda>content.
       returnS (content, authorization rules, creators))))"

subsection \<open>Redactions\<close>

text \<open>Where the event that is redacted is named: the code takes the field of the event when the rules say it is in the content.\<close>

definition redacts_id :: "('c, 'l, 'k, 'y) server_lib_scheme \<Rightarrow> 'c pdu \<Rightarrow> event_rules \<Rightarrow> string option" where
  "redacts_id H ev rules =
     (if ev_type ev \<noteq> RoomRedaction then None
      else if content_field_redacts rules then ev_redacts ev
      else (case redaction_target H (ev_content ev) of Some target \<Rightarrow> target | None \<Rightarrow> None))"

definition user_can_redact ::
  "('c, 'l, 'k, 'y) server_lib_scheme \<Rightarrow> string \<Rightarrow> string \<Rightarrow> string \<Rightarrow> bool \<Rightarrow> (('l, 'k, 'z) server_db_scheme, bool) act" where
  "user_can_redact H redacts sender room_id federation =
     bindS (askS (\<lambda>db. find_pdu H db redacts)) (\<lambda>redacting_event.
       if (case redacting_event of Some ev \<Rightarrow> ev_type ev = RoomCreate | None \<Rightarrow> False)
       then failS (RequestErr ''Forbidden: Redacting m.room.create is not safe'')
       else if (case redacting_event of Some ev \<Rightarrow> ev_type ev = OtherType ''m.room.server_acl'' | None \<Rightarrow> False)
       then failS (RequestErr ''Forbidden: Redacting m.room.server_acl'')
       else bindS (get_room_power_levels H room_id) (\<lambda>(content, rules, creators).
         if can_redact_other H content rules creators sender then returnS True
         else if can_redact_own H content rules creators sender then
           returnS (case redacting_event of
               Some ev \<Rightarrow>
                 if federation then user_server_name (h_ruma H) (ev_sender ev) = user_server_name (h_ruma H) sender
                 else ev_sender ev = sender
             | None \<Rightarrow> False)
         else returnS False))"

subsection \<open>Server ACLs\<close>

definition acl_check ::
  "('c, 'l, 'k, 'y) server_lib_scheme \<Rightarrow> string \<Rightarrow> string \<Rightarrow> (('l, 'k, 'z) server_db_scheme, unit) act" where
  "acl_check H server_name room_id db =
     (case room_state_get H room_id (OtherType ''m.room.server_acl'') '''' db of
        (Inl e, db) \<Rightarrow> (if is_panic e then Inl e else Inr (), db)
      | (Inr ev, db) \<Rightarrow>
          (case acl_lists H (ev_content ev) of
             None \<Rightarrow> (Inr (), db)
           | Some (allow, deny) \<Rightarrow>
               if allow = [] then (Inr (), db)
               else if ''*'' \<in> set deny \<and> ''*'' \<in> set allow then (Inr (), db)
               else if acl_allows H (ev_content ev) server_name then (Inr (), db)
               else (Inl (RequestErr ''Forbidden: Server was denied by room ACL''), db)))"

subsection \<open>The auth events in the current state\<close>

text \<open>The entries of a stored state whose short state keys are among those of the auth types.\<close>

definition auth_entries :: "short_db \<Rightarrow> type_state_key list \<Rightarrow> (u64 \<times> u64) list \<Rightarrow> (type_state_key \<times> u64) list" where
  "auth_entries sdb auth_types shortids =
     (let sauthevents = List.map_filter (\<lambda>(ty, sk).
            case get_shortstatekey sdb (key_bytes ty sk) of Inr ssk \<Rightarrow> Some (ssk, (ty, sk)) | Inl _ \<Rightarrow> None) auth_types
      in List.map_filter (\<lambda>(ssk, eid). map_option (\<lambda>key. (key, eid)) (map_of (rev sauthevents) ssk)) shortids)"

definition get_auth_events ::
  "('c, 'l, 'k, 'y) server_lib_scheme \<Rightarrow> string \<Rightarrow> event_type \<Rightarrow> string \<Rightarrow> string option \<Rightarrow> 'c \<Rightarrow> event_rules
   \<Rightarrow> (('l, 'k, 'z) server_db_scheme, (type_state_key \<times> 'c pdu) list) act" where
  "get_auth_events H room_id kind sender state_key content rules =
     bindS (askS (\<lambda>db. get_room_shortstatehash (rooms_of db) (bytes_of room_id))) (\<lambda>hash.
       (case hash of
          Inl _ \<Rightarrow> returnS []
        | Inr shortstatehash \<Rightarrow>
            bindS (liftS (service_result ''auth types'' (auth_types_for_event (h_ruma H) kind sender state_key content (plain_rules rules))))
              (\<lambda>auth_types.
            bindS (on_rooms (plain_result (\<lambda>rdb.
                ignore_errors (state_full_shortids (state_cache_lru H) (walk_fuel H) shortstatehash rdb)))) (\<lambda>shortids.
            bindS (askS (\<lambda>db. auth_entries (shared_short db) auth_types shortids)) (\<lambda>entries.
              askS (\<lambda>db. List.map_filter (\<lambda>(event_id, key).
                  case event_id of
                    Inl _ \<Rightarrow> None
                  | Inr i \<Rightarrow> map_option (\<lambda>pdu. (key, pdu)) (find_pdu H db (string_of i)))
                (zip (multi_get_eventid_from_short (shared_short db) (map snd entries)) (map fst entries))))))))"

subsection \<open>Forcing a state\<close>

definition force_member ::
  "('c, 'l, 'k, 'y) server_lib_scheme \<Rightarrow> string \<Rightarrow> bytes \<Rightarrow> (('l, 'k, 'z) server_db_scheme, unit) act" where
  "force_member H room_id entry =
     bindS (askS (\<lambda>db. case get_eventid_from_short (shared_short db) (snd (parse_compressed_state_event entry)) of
         Inr i \<Rightarrow> find_pdu H db (string_of i) | Inl _ \<Rightarrow> None)) (\<lambda>found.
       (case found of
          None \<Rightarrow> returnS ()
        | Some pdu \<Rightarrow>
            if ev_type pdu \<noteq> RoomMember then returnS ()
            else (case ev_state_key pdu of
                None \<Rightarrow> returnS ()
              | Some user_id \<Rightarrow>
                  if \<not> valid_user_id (h_ruma H) user_id then returnS ()
                  else on_cache (update_membership (cache_ids H) (cache_order H) (member_env H pdu) (bytes_of room_id) (bytes_of user_id)
                         (ok_or (RequestErr ''invalid content'') (de_RoomMemberEventContent (h_ruma H) (ev_content pdu)))
                         (bytes_of (ev_sender pdu)) (to_json (h_codec H) (ser_pdu H pdu)) False))))"

definition force_state ::
  "('c, 'l, 'k, 'y) server_lib_scheme \<Rightarrow> string \<Rightarrow> u64 \<Rightarrow> compressed_state \<Rightarrow> (('l, 'k, 'z) server_db_scheme, unit) act" where
  "force_state H room_id shortstatehash statediffnew =
     bindS (forS (force_member H room_id) (sorted_list_of_set statediffnew)) (\<lambda>_.
     bindS (on_cache (\<lambda>cdb. (Inr (), update_joined_count (cache_ids H) (cache_order H) (bytes_of room_id) cdb))) (\<lambda>_.
       on_rooms (\<lambda>rdb. (Inr (), set_room_state (bytes_of room_id) shortstatehash rdb))))"

end
