(* ===== verification/Upgrade.thy ===== *)
theory Upgrade
  imports ServerState
begin

text \<open>
  Received events that move from the outliers to the timeline: \<open>src/src/service/rooms/event_handler/\<close>, the files
  \<open>state_at_incoming.rs\<close>, \<open>resolve_state.rs\<close>, \<open>fetch_state.rs\<close>, checks 5 to 7 of \<open>pdu_checks.rs\<close>,
  \<open>upgrade_outlier_pdu.rs\<close>, \<open>fetch_prev.rs\<close> and \<open>handle_incoming_pdu.rs\<close>, and \<open>append_incoming_pdu\<close> with what it
  calls in \<open>src/src/service/rooms/timeline/append.rs\<close>. A state is a hash map from short state keys to event ids, a list here.
  The \<open>debug_assert!\<close> on an empty state in \<open>state_at_incoming.rs\<close> is checked in debug builds only and is left out.
\<close>

type_synonym short_state = "(u64 \<times> string) list"

subsection \<open>Resolving states\<close>

definition state_resolution ::
  "('c, 'l, 'k, 'y) server_lib_scheme \<Rightarrow> event_rules \<Rightarrow> state_map list \<Rightarrow> string list list
   \<Rightarrow> (('l, 'k, 'z) server_db_scheme, state_map) act" where
  "state_resolution H rules state_sets auth_chain_sets db =
     (service_result ''State resolution failed''
        (resolve (walk_fuel H) (h_ruma H) (plain_rules rules) (schedule H) state_sets auth_chain_sets
           (find_pdu H db) (known_pdu H db)), db)"

definition short_key :: "event_type \<Rightarrow> string \<Rightarrow> ('z events_db_scheme, u64) act" where
  "short_key ty sk = on_short (get_or_create_shortstatekey (key_bytes ty sk))"

definition state_ids_at ::
  "('c, 'l, 'k, 'y) server_lib_scheme \<Rightarrow> u64 \<Rightarrow> (('l, 'k, 'z) server_db_scheme, short_state) act" where
  "state_ids_at H shortstatehash =
     bindS (on_rooms (plain_result (state_full_ids (state_cache_lru H) (walk_fuel H) shortstatehash))) (\<lambda>state.
       returnS (map (\<lambda>(ssk, i). (ssk, string_of i)) state))"

text \<open>The events an event of the store cites, as the auth chain service reads them.\<close>

definition auth_links :: "('c, 'y) handler_scheme \<Rightarrow> 'z events_db_scheme \<Rightarrow> bytes \<Rightarrow> auth_pdu option" where
  "auth_links H db i = map_option (\<lambda>pdu. (map_option bytes_of (ev_room_id pdu), map bytes_of (ev_auth_events pdu)))
     (find_pdu H db (string_of i))"

definition auth_chain_of ::
  "('c, 'l, 'k, 'y) server_lib_scheme \<Rightarrow> string \<Rightarrow> short_state \<Rightarrow> (('l, 'k, 'z) server_db_scheme, string list) act" where
  "auth_chain_of H room_id state =
     bindS (\<lambda>db. on_chains (event_ids_iter (chain_cache_lru H) (chain_schedule H) (walk_fuel H) (auth_links H db)
              (bytes_of room_id) (chunks H (map (\<lambda>(_, i). bytes_of i) state))) db) (\<lambda>chain.
       returnS (map string_of chain))"

definition fork_state :: "short_db \<Rightarrow> short_state \<Rightarrow> state_map" where
  "fork_state sdb state = fold (\<lambda>(key, i). AList.update key i)
     (List.map_filter (\<lambda>(ssk, i). case get_statekey_from_short sdb ssk of
          Inr p \<Rightarrow> Some (key_of_bytes p, i) | Inl _ \<Rightarrow> None) state) []"

definition state_at_incoming_fork ::
  "('c, 'l, 'k, 'y) server_lib_scheme \<Rightarrow> string \<Rightarrow> u64 \<Rightarrow> 'c pdu
   \<Rightarrow> (('l, 'k, 'z) server_db_scheme, state_map \<times> string list) act" where
  "state_at_incoming_fork H room_id shortstatehash prev_event =
     bindS (state_ids_at H shortstatehash) (\<lambda>leaf_state.
     bindS (case ev_state_key prev_event of
              None \<Rightarrow> returnS leaf_state
            | Some state_key \<Rightarrow>
                bindS (short_key (ev_type prev_event) state_key) (\<lambda>ssk.
                  returnS (AList.update ssk (ev_id prev_event) leaf_state))) (\<lambda>leaf_state.
     bindS (auth_chain_of H room_id leaf_state) (\<lambda>auth_chain.
       askS (\<lambda>db. (fork_state (shared_short db) leaf_state, auth_chain)))))"

definition state_before_incoming_degree_one ::
  "('c, 'l, 'k, 'y) server_lib_scheme \<Rightarrow> 'c pdu \<Rightarrow> (('l, 'k, 'z) server_db_scheme, short_state option) act" where
  "state_before_incoming_degree_one H incoming_pdu =
     (case ev_prev_events incoming_pdu of
        [] \<Rightarrow> failS (PanicErr ''at least one prev_event'')
      | prev_event # _ \<Rightarrow>
          bindS (askS (\<lambda>db. pdu_shortstatehash (rooms_of db) (bytes_of prev_event))) (\<lambda>hash.
            (case hash of
               Inl _ \<Rightarrow> returnS None
             | Inr shortstatehash \<Rightarrow>
                 bindS (state_ids_at H shortstatehash) (\<lambda>state.
                 bindS (liftS_db (\<lambda>db. ok_or (DatabaseErr ''Could not find prev event'') (find_pdu H db prev_event))) (\<lambda>prev_pdu.
                   (case ev_state_key prev_pdu of
                      None \<Rightarrow> returnS (Some state)
                    | Some state_key \<Rightarrow>
                        bindS (short_key (ev_type prev_pdu) state_key) (\<lambda>ssk.
                          returnS (Some (AList.update ssk prev_event state)))))))))"

text \<open>
  The stored states of the previous events, collected into a hash map: of two previous events with the same state
  before them only the later one is kept.
\<close>

definition extremity_state ::
  "('c, 'l, 'k, 'y) server_lib_scheme \<Rightarrow> ('l, 'k, 'z) server_db_scheme \<Rightarrow> string \<Rightarrow> (u64 \<times> 'c pdu) option" where
  "extremity_state H db i =
     (case (find_pdu H db i, pdu_shortstatehash (rooms_of db) (bytes_of i)) of
        (Some pdu, Inr shortstatehash) \<Rightarrow> Some (shortstatehash, pdu)
      | _ \<Rightarrow> None)"

definition extremity_states ::
  "('c, 'l, 'k, 'y) server_lib_scheme \<Rightarrow> ('l, 'k, 'z) server_db_scheme \<Rightarrow> string list \<Rightarrow> (u64 \<times> 'c pdu) list option" where
  "extremity_states H db prev_events =
     (let found = map (extremity_state H db) (arrival (schedule H) prev_events)
      in if None \<in> set found then None
         else Some (fold (\<lambda>(hash, pdu). AList.update hash pdu) (List.map_filter id found) []))"

fun collect_forks ::
  "('c, 'l, 'k, 'y) server_lib_scheme \<Rightarrow> string \<Rightarrow> (u64 \<times> 'c pdu) list
   \<Rightarrow> (('l, 'k, 'z) server_db_scheme, (state_map \<times> string list) list) act" where
  "collect_forks H room_id [] = returnS []"
| "collect_forks H room_id ((hash, pdu) # rest) =
     bindS (state_at_incoming_fork H room_id hash pdu) (\<lambda>fork.
     bindS (collect_forks H room_id rest) (\<lambda>forks. returnS (fork # forks)))"

definition shorten_state :: "state_map \<Rightarrow> ('z events_db_scheme, short_state) act" where
  "shorten_state state =
     foldS (\<lambda>((ty, sk), i) acc. bindS (short_key ty sk) (\<lambda>ssk. returnS (AList.update ssk i acc))) state []"

definition state_before_incoming_resolved ::
  "('c, 'l, 'k, 'y) server_lib_scheme \<Rightarrow> 'c pdu \<Rightarrow> event_rules \<Rightarrow> (('l, 'k, 'z) server_db_scheme, short_state option) act" where
  "state_before_incoming_resolved H incoming_pdu rules =
     bindS (askS (\<lambda>db. extremity_states H db (ev_prev_events incoming_pdu))) (\<lambda>extremities.
       (case extremities of
          None \<Rightarrow> returnS None
        | Some extremity_sstatehashes \<Rightarrow>
            bindS (liftS (room_of H incoming_pdu)) (\<lambda>room_id.
            bindS (collect_forks H room_id extremity_sstatehashes) (\<lambda>forks.
            bindS (okS (state_resolution H rules (map fst forks) (map snd forks))) (\<lambda>new_state.
              (case new_state of
                 None \<Rightarrow> returnS None
               | Some state \<Rightarrow> bindS (shorten_state state) (\<lambda>short. returnS (Some short))))))))"

definition state_before_incoming ::
  "('c, 'l, 'k, 'y) server_lib_scheme \<Rightarrow> 'c pdu \<Rightarrow> event_rules \<Rightarrow> (('l, 'k, 'z) server_db_scheme, short_state option) act" where
  "state_before_incoming H incoming_pdu rules =
     (if length (ev_prev_events incoming_pdu) = 1 then state_before_incoming_degree_one H incoming_pdu
      else state_before_incoming_resolved H incoming_pdu rules)"

text \<open>The current state of the room and another one, resolved and compressed.\<close>

definition compress_state ::
  "('c, 'l, 'k, 'y) server_lib_scheme \<Rightarrow> short_state \<Rightarrow> ('z events_db_scheme, compressed_state) act" where
  "compress_state H state db =
     (case compress_state_events (map fst state) (chunks H (map (\<lambda>(_, i). bytes_of i) state)) (shared_short db) of
        Inl e \<Rightarrow> (Inl e, db)
      | Inr (events, sdb) \<Rightarrow> (Inr (set events), put_short sdb db))"

definition resolve_state ::
  "('c, 'l, 'k, 'y) server_lib_scheme \<Rightarrow> string \<Rightarrow> event_rules \<Rightarrow> short_state \<Rightarrow> (('l, 'k, 'z) server_db_scheme, compressed_state) act" where
  "resolve_state H room_id rules incoming_state =
     bindS (liftS_db (\<lambda>db. case get_room_shortstatehash (rooms_of db) (bytes_of room_id) of
         Inr hash \<Rightarrow> Inr hash | Inl _ \<Rightarrow> Inl (DatabaseErr ''No state''))) (\<lambda>current_sstatehash.
     bindS (state_ids_at H current_sstatehash) (\<lambda>current_state_ids.
     bindS (auth_chain_of H room_id current_state_ids) (\<lambda>current_chain.
     bindS (auth_chain_of H room_id incoming_state) (\<lambda>incoming_chain.
     bindS (askS (\<lambda>db. map (fork_state (shared_short db)) [current_state_ids, incoming_state])) (\<lambda>fork_states.
     bindS (state_resolution H rules fork_states [current_chain, incoming_chain]) (\<lambda>state.
     bindS (shorten_state state) (\<lambda>state_events. compress_state H state_events)))))))"

subsection \<open>The state another server knows\<close>

definition state_ids_response :: "('c, 'l, 'k, 'y) server_lib_scheme \<Rightarrow> network \<Rightarrow> string \<Rightarrow> string \<Rightarrow> string \<Rightarrow> service_error + string list" where
  "state_ids_response H N origin room_id event_id =
     (case net_state_ids N origin room_id event_id of
        Inr ids \<Rightarrow> Inr ids
      | Inl NotFoundErr \<Rightarrow>
          if backfill_servers H = [] then Inl NotFoundErr
          else first_ok (map (\<lambda>server. net_state_ids N server room_id event_id) (net_arrival N (backfill_servers H)))
      | Inl e \<Rightarrow> Inl e)"

text \<open>\<open>GET /state\<close>: the events of the auth chain and of the state, handled one after another as they are parsed.\<close>

definition room_version_of ::
  "('c, 'l, 'k, 'y) server_lib_scheme \<Rightarrow> ('l, 'k, 'z) server_db_scheme \<Rightarrow> string \<Rightarrow> service_error + string" where
  "room_version_of H db room_id = fst (get_room_version H room_id db)"

definition handle_state_event ::
  "('c, 'l, 'k, 'y) server_lib_scheme \<Rightarrow> network \<Rightarrow> string \<Rightarrow> 'c pdu \<Rightarrow> string \<Rightarrow> bytes
   \<Rightarrow> (('l, 'k, 'z) server_db_scheme, 'c pdu option) act" where
  "handle_state_event H N origin create_event room_id raw =
     bindS (liftS_db (\<lambda>db. ok_result (parse_incoming_pdu (h_ruma H) (h_json H) (room_version_of H db) raw None))) (\<lambda>parsed.
       (case parsed of
          None \<Rightarrow> returnS None
        | Some (r, event_id, value) \<Rightarrow>
            if r \<noteq> room_id then returnS None
            else bindS (okS (handle_outlier_pdu H N origin create_event event_id r value)) (\<lambda>handled.
              returnS (map_option fst handled))))"

definition fetch_full_state ::
  "('c, 'l, 'k, 'y) server_lib_scheme \<Rightarrow> network \<Rightarrow> string \<Rightarrow> 'c pdu \<Rightarrow> string \<Rightarrow> string
   \<Rightarrow> (('l, 'k, 'z) server_db_scheme, (string \<times> 'c pdu) list) act" where
  "fetch_full_state H N origin create_event room_id event_id =
     bindS (liftS (net_state N origin room_id event_id)) (\<lambda>(auth_chain, pdus).
     bindS (forS (\<lambda>raw. bindS (handle_state_event H N origin create_event room_id raw) (\<lambda>_. returnS ())) auth_chain) (\<lambda>_.
       foldS (\<lambda>raw acc. bindS (handle_state_event H N origin create_event room_id raw) (\<lambda>found.
           returnS (case found of Some pdu \<Rightarrow> AList.update (ev_id pdu) pdu acc | None \<Rightarrow> acc))) pdus []))"

text \<open>The known events among the ids of the response.\<close>

definition known_state_events ::
  "('c, 'l, 'k, 'y) server_lib_scheme \<Rightarrow> ('l, 'k, 'z) server_db_scheme \<Rightarrow> string list \<Rightarrow> (string \<times> 'c pdu) list" where
  "known_state_events H db ids = fold (\<lambda>i m. case find_pdu H db i of Some pdu \<Rightarrow> AList.update i pdu m | None \<Rightarrow> m) ids []"

definition extend_map :: "('a \<times> 'b) list \<Rightarrow> ('a \<times> 'b) list \<Rightarrow> ('a \<times> 'b) list" where
  "extend_map new m = fold (\<lambda>(k, v). AList.update k v) new m"

definition missing_threshold :: "nat \<Rightarrow> nat" where
  "missing_threshold n = max 50 (n div 4)"

definition load_state_events ::
  "('c, 'l, 'k, 'y) server_lib_scheme \<Rightarrow> network \<Rightarrow> string \<Rightarrow> 'c pdu \<Rightarrow> string \<Rightarrow> string \<Rightarrow> string list
   \<Rightarrow> (('l, 'k, 'z) server_db_scheme, (string \<times> 'c pdu) list) act" where
  "load_state_events H N origin create_event room_id event_id ids =
     bindS (askS (\<lambda>db. filter (\<lambda>i. \<not> known_pdu H db i) ids)) (\<lambda>to_fetch.
       if to_fetch = [] then
         bindS (liftS_db (\<lambda>db. if \<exists>i \<in> set ids. find_pdu H db i = None
             then Inl (PanicErr ''Event disappeared between filtering and fetching'')
             else Inr (known_state_events H db ids))) (\<lambda>state_events.
           if length state_events = length ids then returnS state_events
           else failS (PanicErr ''Failed to load all required state events''))
       else if missing_threshold (length ids) \<le> length to_fetch then
         bindS (okS (fetch_full_state H N origin create_event room_id event_id)) (\<lambda>full.
         bindS (case full of
             Some state \<Rightarrow> returnS (filter (\<lambda>(i, _). i \<in> set ids) state)
           | None \<Rightarrow> fetch_and_handle_auth_events (walk_fuel H) H N (v1_rules H) (backfill_servers H) origin ids create_event room_id)
           (\<lambda>fetched_state.
           if fetched_state = [] then failS (PanicErr ''returned empty state map'') else returnS fetched_state))
       else
         bindS (askS (\<lambda>db. known_state_events H db ids)) (\<lambda>state_events.
           if state_events = [] then failS (PanicErr ''read-ahead state vec was empty'')
           else bindS (fetch_and_handle_auth_events (walk_fuel H) H N (v1_rules H) (backfill_servers H) origin to_fetch create_event room_id)
             (\<lambda>fetched_state. returnS (extend_map fetched_state state_events))))"

definition add_state_event :: "string \<times> 'c pdu \<Rightarrow> short_state \<Rightarrow> ('z events_db_scheme, short_state) act" where
  "add_state_event entry state =
     (case ev_state_key (snd entry) of
        None \<Rightarrow> failS (RequestErr ''BadJson: Found non-state pdu in state events'')
      | Some state_key \<Rightarrow>
          bindS (short_key (ev_type (snd entry)) state_key) (\<lambda>ssk.
            if map_of state ssk = None then returnS (AList.update ssk (ev_id (snd entry)) state)
            else failS (RequestErr ''Forbidden: type and state_key combination exists multiple times'')))"

definition fetch_state ::
  "('c, 'l, 'k, 'y) server_lib_scheme \<Rightarrow> network \<Rightarrow> string \<Rightarrow> 'c pdu \<Rightarrow> string \<Rightarrow> string
   \<Rightarrow> (('l, 'k, 'z) server_db_scheme, short_state) act" where
  "fetch_state H N origin create_event room_id event_id =
     bindS (liftS (state_ids_response H N origin room_id event_id)) (\<lambda>ids.
     bindS (load_state_events H N origin create_event room_id event_id ids) (\<lambda>state_events.
       foldS add_state_event state_events []))"

subsection \<open>Checks 5 to 7\<close>

text \<open>The event of a key in a state of short ids.\<close>

definition state_lookup ::
  "('c, 'l, 'k, 'y) server_lib_scheme \<Rightarrow> ('l, 'k, 'z) server_db_scheme \<Rightarrow> short_state \<Rightarrow> event_type \<Rightarrow> string \<Rightarrow> 'c pdu option" where
  "state_lookup H db state ty sk =
     (case get_shortstatekey (shared_short db) (key_bytes ty sk) of
        Inl _ \<Rightarrow> None
      | Inr ssk \<Rightarrow> Option.bind (map_of state ssk) (find_pdu H db))"

definition state_before_check_5 ::
  "('c, 'l, 'k, 'y) server_lib_scheme \<Rightarrow> network \<Rightarrow> 'c pdu \<Rightarrow> event_rules \<Rightarrow> 'c pdu \<Rightarrow> string
   \<Rightarrow> (('l, 'k, 'z) server_db_scheme, bool \<times> short_state) act" where
  "state_before_check_5 H N incoming_pdu rules create_event origin =
     bindS (liftS (room_of H incoming_pdu)) (\<lambda>room_id.
     bindS (state_before_incoming H incoming_pdu rules) (\<lambda>known.
     bindS (case known of
              Some state \<Rightarrow> returnS state
            | None \<Rightarrow> fetch_state H N origin create_event room_id (ev_id incoming_pdu)) (\<lambda>state_before.
       if state_before = [] \<and> ev_type incoming_pdu \<noteq> RoomCreate
       then failS (RequestErr ''Forbidden: Could not resolve incoming state before event'')
       else bindS (liftS_db (\<lambda>db. service_result ''Forbidden: Auth check failed''
                (auth_check (h_ruma H) (plain_rules rules) incoming_pdu None (state_lookup H db state_before) create_event))) (\<lambda>passes.
         returnS (passes, state_before)))))"

definition current_state_check_6 ::
  "('c, 'l, 'k, 'y) server_lib_scheme \<Rightarrow> 'c pdu \<Rightarrow> event_rules \<Rightarrow> 'c pdu \<Rightarrow> (('l, 'k, 'z) server_db_scheme, bool) act" where
  "current_state_check_6 H incoming_pdu rules create_event =
     bindS (liftS (room_of H incoming_pdu)) (\<lambda>room_id.
     bindS (get_auth_events H room_id (ev_type incoming_pdu) (ev_sender incoming_pdu) (ev_state_key incoming_pdu)
              (ev_content incoming_pdu) rules) (\<lambda>auth_events.
       liftS (service_result ''Forbidden: Auth check failed''
         (auth_check (h_ruma H) (plain_rules rules) incoming_pdu None (\<lambda>ty sk. map_of auth_events (with_state_key ty sk)) create_event))))"

text \<open>The JSON is passed on without its event id, which is put back when the policy server allows the event.\<close>

definition policy_server_check_7 ::
  "('c, 'l, 'k, 'y) server_lib_scheme \<Rightarrow> 'c pdu \<Rightarrow> json_object \<Rightarrow> (('l, 'k, 'z) server_db_scheme, bool \<times> json_object) act" where
  "policy_server_check_7 H incoming_pdu pdu_json =
     (case map_of pdu_json ''event_id'' of
        None \<Rightarrow> failS (PanicErr ''event_id should be present in pdu_json at this stage'')
      | Some event_id \<Rightarrow>
          (case policy H incoming_pdu (json_remove ''event_id'' pdu_json) of
             (Inl e, _) \<Rightarrow> failS e
           | (Inr False, json) \<Rightarrow> returnS (False, json)
           | (Inr True, json) \<Rightarrow> returnS (True, json_insert ''event_id'' event_id json)))"

subsection \<open>Appending to the timeline\<close>

text \<open>
  The previous state event of the same key goes into \<open>unsigned\<close>; its content is that of its JSON.
\<close>

definition with_prev_state :: "('c, 'y) handler_scheme \<Rightarrow> 'c pdu \<Rightarrow> json_object \<Rightarrow> service_error + json_object" where
  "with_prev_state H prev_state uns =
     (case map_of (ser_pdu H prev_state) ''content'' of
        Some (JObject content) \<Rightarrow>
          Inr (json_insert ''replaces_state'' (JString (ev_id prev_state))
                (json_insert ''prev_sender'' (JString (ev_sender prev_state))
                  (json_insert ''prev_content'' (JObject content) uns)))
      | _ \<Rightarrow> Inl (PanicErr ''Failed to convert prev_content into canonical JSON object''))"

definition populate_unsigned ::
  "('c, 'l, 'k, 'y) server_lib_scheme \<Rightarrow> 'c pdu \<Rightarrow> json_object \<Rightarrow> (('l, 'k, 'z) server_db_scheme, json_object) act" where
  "populate_unsigned H pdu pdu_json =
     (case ev_state_key pdu of
        None \<Rightarrow> returnS pdu_json
      | Some state_key \<Rightarrow>
          (case (case map_of pdu_json ''unsigned'' of Some v \<Rightarrow> v | None \<Rightarrow> JObject []) of
             JObject uns \<Rightarrow>
               (let pdu_json = json_insert ''unsigned'' (JObject uns) pdu_json
                in bindS (askS (\<lambda>db. pdu_shortstatehash (rooms_of db) (bytes_of (ev_id pdu)))) (\<lambda>hash.
                     (case hash of
                        Inl _ \<Rightarrow> returnS pdu_json
                      | Inr shortstatehash \<Rightarrow>
                          bindS (okS (state_get H shortstatehash (ev_type pdu) state_key)) (\<lambda>found.
                            (case found of
                               None \<Rightarrow> returnS pdu_json
                             | Some prev_state \<Rightarrow>
                                 bindS (liftS (with_prev_state H prev_state uns)) (\<lambda>uns.
                                   returnS (json_insert ''unsigned'' (JObject uns) pdu_json)))))))
           | _ \<Rightarrow> returnS pdu_json))"

text \<open>
  Up to the insertion of the event. What follows in the code notifies users and appservices, indexes the text, and
  updates memberships, relations, threads and read markers.
\<close>

definition append_to_room ::
  "('c, 'l, 'k, 'y) server_lib_scheme \<Rightarrow> 'c pdu \<Rightarrow> json_object \<Rightarrow> bytes list \<Rightarrow> string
   \<Rightarrow> (('l, 'k, 'z) server_db_scheme, raw_id) act" where
  "append_to_room H pdu pdu_json tips room_id =
     bindS (liftS_db (\<lambda>db. case get_shortroomid (shared_short db) (bytes_of room_id) of
         Inr n \<Rightarrow> Inr n | Inl _ \<Rightarrow> Inl (DatabaseErr ''Room does not exist''))) (\<lambda>shortroomid.
     bindS (populate_unsigned H pdu pdu_json) (\<lambda>pdu_json.
     bindS (changeS (\<lambda>db. db\<lparr>ev_metadata := mark_as_referenced (bytes_of room_id) (map bytes_of (ev_prev_events pdu)) (ev_metadata db)\<rparr>)) (\<lambda>_.
     bindS (on_rooms (\<lambda>rdb. (Inr (), set_forward_extremities (bytes_of room_id) tips rdb))) (\<lambda>_.
     bindS (on_timeline (insert_live (h_codec H) shortroomid (bytes_of (ev_id pdu)) pdu_json)) (\<lambda>(pdu_id, _).
       returnS pdu_id)))))"

text \<open>The state after a state event, resolved with the current one, becomes the current state.\<close>

definition derive_new_state ::
  "('c, 'l, 'k, 'y) server_lib_scheme \<Rightarrow> string \<Rightarrow> 'c pdu \<Rightarrow> event_rules \<Rightarrow> short_state \<Rightarrow> string
   \<Rightarrow> (('l, 'k, 'z) server_db_scheme, unit) act" where
  "derive_new_state H room_id incoming_pdu rules state_before state_key =
     bindS (short_key (ev_type incoming_pdu) state_key) (\<lambda>ssk.
     bindS (resolve_state H room_id rules (AList.update ssk (ev_id incoming_pdu) state_before)) (\<lambda>new_room_state.
     bindS (on_rooms (save_state (state_cache_lru H) (sha256 H) (walk_fuel H) (bytes_of room_id) new_room_state)) (\<lambda>saved.
       force_state H room_id (hs_shortstatehash saved) (hs_added saved))))"

definition progress_state_and_extremities ::
  "('c, 'l, 'k, 'y) server_lib_scheme \<Rightarrow> string \<Rightarrow> 'c pdu \<Rightarrow> event_rules \<Rightarrow> short_state \<Rightarrow> bytes list
   \<Rightarrow> (('l, 'k, 'z) server_db_scheme, bytes list) act" where
  "progress_state_and_extremities H room_id incoming_pdu rules state_before forward_extremities =
     bindS (case ev_state_key incoming_pdu of
              Some state_key \<Rightarrow> derive_new_state H room_id incoming_pdu rules state_before state_key
            | None \<Rightarrow> returnS ()) (\<lambda>_.
       askS (\<lambda>db. filter (\<lambda>i. i \<notin> bytes_of ` set (ev_prev_events incoming_pdu)
           \<and> \<not> is_event_referenced (ev_metadata db) (bytes_of room_id) i) forward_extremities @ [bytes_of (ev_id incoming_pdu)]))"

text \<open>\<open>append_incoming_pdu\<close>; a command of a message is run at the end, and its error is returned.\<close>

definition append_incoming_pdu ::
  "('c, 'l, 'k, 'y) server_lib_scheme \<Rightarrow> 'c pdu \<Rightarrow> json_object \<Rightarrow> event_rules \<Rightarrow> short_state \<Rightarrow> bool
   \<Rightarrow> (('l, 'k, 'z) server_db_scheme, raw_id option) act" where
  "append_incoming_pdu H pdu pdu_json rules state_before should_soft_fail =
     bindS (liftS (room_of H pdu)) (\<lambda>room_id.
     bindS (compress_state H state_before) (\<lambda>compressed.
     bindS (on_rooms (set_event_state (state_cache_lru H) (sha256 H) (walk_fuel H) (bytes_of (ev_id pdu)) (bytes_of room_id) compressed)) (\<lambda>_.
       if should_soft_fail then
         bindS (changeS (\<lambda>db. db\<lparr>ev_metadata := mark_event_soft_failed (bytes_of (ev_id pdu)) (ev_metadata db)\<rparr>)) (\<lambda>_. returnS None)
       else
         bindS (askS (\<lambda>db. get_forward_extremities (rooms_of db) (bytes_of room_id))) (\<lambda>extremities.
         bindS (progress_state_and_extremities H room_id pdu rules state_before extremities) (\<lambda>extremities.
         bindS (append_to_room H pdu pdu_json extremities room_id) (\<lambda>pdu_id.
         bindS (if ev_type pdu = OtherType ''m.room.message'' then liftS (admin_command H pdu) else returnS ()) (\<lambda>_.
           returnS (Some pdu_id))))))))"

subsection \<open>Promoting an outlier\<close>

text \<open>Whether a redaction is soft-failed, as the code decides it: when its sender can redact the event.\<close>

definition redaction_verdict ::
  "('c, 'l, 'k, 'y) server_lib_scheme \<Rightarrow> 'c pdu \<Rightarrow> event_rules \<Rightarrow> string \<Rightarrow> bool \<Rightarrow> (('l, 'k, 'z) server_db_scheme, bool) act" where
  "redaction_verdict H incoming_pdu rules room_id passes_current_state =
     (case (passes_current_state, redacts_id H incoming_pdu rules) of
        (False, _) \<Rightarrow> returnS True
      | (True, None) \<Rightarrow> returnS False
      | (True, Some redact_id) \<Rightarrow>
          bindS (okS (user_can_redact H redact_id (ev_sender incoming_pdu) room_id True)) (\<lambda>can_redact.
            returnS (can_redact = Some True)))"

definition soft_fail_verdict ::
  "('c, 'l, 'k, 'y) server_lib_scheme \<Rightarrow> 'c pdu \<Rightarrow> json_object \<Rightarrow> event_rules \<Rightarrow> string \<Rightarrow> bool
   \<Rightarrow> (('l, 'k, 'z) server_db_scheme, bool \<times> json_object) act" where
  "soft_fail_verdict H incoming_pdu val rules room_id passes_current_state =
     bindS (redaction_verdict H incoming_pdu rules room_id passes_current_state) (\<lambda>should_soft_fail.
       if should_soft_fail then returnS (True, val)
       else bindS (policy_server_check_7 H incoming_pdu val) (\<lambda>(passes, val).
         askS (\<lambda>db. (\<not> passes \<or> (case redacts_id H incoming_pdu rules of
             Some redact_id \<Rightarrow> \<not> is_event_accepted (ev_metadata db) (bytes_of redact_id) | None \<Rightarrow> False), val))))"

definition upgrade_checked ::
  "('c, 'l, 'k, 'y) server_lib_scheme \<Rightarrow> network \<Rightarrow> 'c pdu \<Rightarrow> json_object \<Rightarrow> 'c pdu \<Rightarrow> string \<Rightarrow> string
   \<Rightarrow> (('l, 'k, 'z) server_db_scheme, raw_id option) act" where
  "upgrade_checked H N incoming_pdu val create_event origin room_id =
     bindS (askS (\<lambda>db. get_mindepth (ev_metadata db) (bytes_of room_id))) (\<lambda>min_depth.
     bindS (liftS (get_room_version_rules H create_event)) (\<lambda>rules.
     bindS (state_before_check_5 H N incoming_pdu rules create_event origin) (\<lambda>(passes_state_before, state_before).
       if \<not> passes_state_before then
         bindS (changeS (reject_and_persist H (ev_id incoming_pdu) val)) (\<lambda>_.
           failS (RequestErr ''Forbidden: Event authorisation fails based on the state before the event''))
       else
         bindS (current_state_check_6 H incoming_pdu rules create_event) (\<lambda>passes_current_state.
         bindS (soft_fail_verdict H incoming_pdu val rules room_id passes_current_state) (\<lambda>(should_soft_fail, val).
         bindS (append_incoming_pdu H incoming_pdu val rules state_before should_soft_fail) (\<lambda>pdu_id.
         bindS (if min_depth < ev_depth incoming_pdu \<and> ev_state_key incoming_pdu \<noteq> None
                then changeS (\<lambda>db. db\<lparr>ev_metadata := set_mindepth (bytes_of room_id) (of_nat (ev_depth incoming_pdu)) (ev_metadata db)\<rparr>)
                else returnS ()) (\<lambda>_. returnS pdu_id)))))))"

definition upgrade_outlier_to_timeline_pdu ::
  "('c, 'l, 'k, 'y) server_lib_scheme \<Rightarrow> network \<Rightarrow> 'c pdu \<Rightarrow> json_object \<Rightarrow> 'c pdu \<Rightarrow> string \<Rightarrow> string
   \<Rightarrow> (('l, 'k, 'z) server_db_scheme, raw_id option) act" where
  "upgrade_outlier_to_timeline_pdu H N incoming_pdu val create_event origin room_id =
     bindS (liftS_db (\<lambda>db. ok_result (get_pdu_id (ev_timeline db) (bytes_of (ev_id incoming_pdu))))) (\<lambda>pduid.
     bindS (askS (\<lambda>db. (is_event_rejected (ev_metadata db) (bytes_of (ev_id incoming_pdu)),
         is_event_soft_failed (ev_metadata db) (bytes_of (ev_id incoming_pdu))))) (\<lambda>(rejected, soft_failed).
       (case pduid of
          Some i \<Rightarrow> returnS (Some i)
        | None \<Rightarrow>
            if rejected then failS (RequestErr ''Forbidden: Event has been rejected'')
            else if soft_failed then failS (RequestErr ''Forbidden: Event has been soft-failed'')
            else if ev_type create_event \<noteq> RoomCreate
            then failS (PanicErr ''tried to upgrade a PDU with a create_event that is not a room create event'')
            else bindS (liftS (room_of H incoming_pdu)) (\<lambda>room.
              if room \<noteq> room_id then failS (PanicErr ''room ID mismatch: PDU room ID differs from parameter'')
              else upgrade_checked H N incoming_pdu val create_event origin room_id))))"

subsection \<open>Previous events and the whole handler\<close>

text \<open>Each fetched previous event is handled as an outlier and promoted; errors are logged.\<close>

definition persist_prev ::
  "('c, 'l, 'k, 'y) server_lib_scheme \<Rightarrow> network \<Rightarrow> string \<Rightarrow> 'c pdu \<Rightarrow> string \<Rightarrow> nat \<Rightarrow> (string \<times> json_object) list \<Rightarrow> string
   \<Rightarrow> (('l, 'k, 'z) server_db_scheme, unit) act" where
  "persist_prev H N origin create_event room_id first_ts mapped event_id =
     (case map_of mapped event_id of
        None \<Rightarrow> failS (PanicErr ''unwrap on None'')
      | Some obj \<Rightarrow>
          bindS (okS (handle_outlier_pdu H N origin create_event event_id room_id obj)) (\<lambda>handled.
            (case handled of
               Some (pdu, val) \<Rightarrow>
                 if first_ts \<le> ev_ts pdu then
                   bindS (okS (upgrade_outlier_to_timeline_pdu H N pdu val create_event origin room_id)) (\<lambda>_. returnS ())
                 else returnS ()
             | None \<Rightarrow> returnS ())))"

definition in_timeline_json :: "('c, 'y) handler_scheme \<Rightarrow> 'z events_db_scheme \<Rightarrow> string \<Rightarrow> bool" where
  "in_timeline_json H db i \<longleftrightarrow> (\<exists>v. get_non_outlier_pdu_json (h_codec H) (ev_timeline db) (bytes_of i) = Inr v)"

text \<open>Twice the number of previous events is subtracted from the least depth, in a byte that saturates.\<close>

definition gap_min_depth :: "nat \<Rightarrow> nat \<Rightarrow> service_error + nat" where
  "gap_min_depth min_depth n = (if 255 < n then Inl (PanicErr ''unwrap on Err'') else Inr (min_depth - min 255 (2 * n)))"

definition fetch_prevs ::
  "('c, 'l, 'k, 'y) server_lib_scheme \<Rightarrow> network \<Rightarrow> string \<Rightarrow> 'c pdu \<Rightarrow> 'c pdu \<Rightarrow> string \<Rightarrow> nat
   \<Rightarrow> (('l, 'k, 'z) server_db_scheme, unit) act" where
  "fetch_prevs H N room_id create_event incoming_pdu origin first_ts =
     bindS (askS (\<lambda>db. filter (\<lambda>i. \<not> in_timeline_json H db i) (ev_prev_events incoming_pdu))) (\<lambda>missing.
       if missing = [] then returnS ()
       else
         bindS (askS (\<lambda>db. map string_of (get_forward_extremities (rooms_of db) (bytes_of room_id)))) (\<lambda>tail.
         bindS (liftS_db (\<lambda>db. gap_min_depth (get_mindepth (ev_metadata db) (bytes_of room_id))
             (length (ev_prev_events incoming_pdu)))) (\<lambda>min_depth.
         bindS (liftS_db (\<lambda>db. get_missing_events H N (room_version_of H db) db room_id incoming_pdu tail origin min_depth)) (\<lambda>gapfilled.
         bindS (let still = filter (\<lambda>i. map_of gapfilled i = None) missing
                in if still = [] then returnS gapfilled
                   else bindS (liftS_db (\<lambda>db. fetch_prev_events H N (v1_rules H) (backfill_servers H) db origin still create_event))
                     (\<lambda>fetched. returnS (extend_map fetched gapfilled))) (\<lambda>gapfilled.
           (let mapped = map (\<lambda>(i, pdu). (i, local_object H pdu)) gapfilled
            in bindS (liftS (build_local_dag (h_ruma H) (hash_order H) mapped PrevEvents)) (\<lambda>to_persist.
                 forS (persist_prev H N origin create_event room_id first_ts mapped) to_persist)))))))"

text \<open>The handler, up to the task that squashes forward extremities.\<close>

definition handle_known_room ::
  "('c, 'l, 'k, 'y) server_lib_scheme \<Rightarrow> network \<Rightarrow> string \<Rightarrow> string \<Rightarrow> string \<Rightarrow> json_object \<Rightarrow> bool
   \<Rightarrow> (('l, 'k, 'z) server_db_scheme, raw_id option) act" where
  "handle_known_room H N origin room_id event_id value is_backfilled_event =
     bindS (get_room_create_event H room_id) (\<lambda>create_event.
     bindS (handle_outlier_pdu H N origin create_event event_id room_id value) (\<lambda>(incoming_pdu, val).
       if is_backfilled_event then returnS None
       else
         bindS (liftS_db (\<lambda>db. bindR (first_item_in_room (h_codec H) (ev_timeline db) (bytes_of room_id)) (\<lambda>(_, pdu). Inr (ev_ts pdu))))
           (\<lambda>first_ts.
           if ev_ts incoming_pdu < first_ts then returnS None
           else
             bindS (fetch_prevs H N room_id create_event incoming_pdu origin first_ts) (\<lambda>_.
               upgrade_outlier_to_timeline_pdu H N incoming_pdu val create_event origin room_id))))"

definition handle_incoming_pdu ::
  "('c, 'l, 'k, 'y) server_lib_scheme \<Rightarrow> network \<Rightarrow> string \<Rightarrow> string \<Rightarrow> string \<Rightarrow> json_object \<Rightarrow> bool
   \<Rightarrow> (('l, 'k, 'z) server_db_scheme, raw_id option) act" where
  "handle_incoming_pdu H N origin room_id event_id value is_backfilled_event =
     bindS (liftS_db (\<lambda>db. ok_result (get_pdu_id (ev_timeline db) (bytes_of event_id)))) (\<lambda>known.
       (case known of
          Some pdu_id \<Rightarrow> returnS (Some pdu_id)
        | None \<Rightarrow>
            bindS (askS (\<lambda>db. (room_exists (ev_timeline db) (bytes_of room_id), is_disabled (ev_metadata db) (bytes_of room_id))))
              (\<lambda>(exists, disabled).
            bindS (acl_check H origin room_id) (\<lambda>_.
              if disabled then failS (RequestErr ''Forbidden: Federation of this room is disabled by this server.'')
              else if \<not> exists then failS (RequestErr ''NotFound: Room is unknown to this server'')
              else handle_known_room H N origin room_id event_id value is_backfilled_event))))"

end
