(* ===== verification/SampleServer.thy ===== *)
theory SampleServer
  imports Upgrade
begin

text \<open>
  A server in the sample room, and the promotion of a message there, step by step. The state of the room is cached,
  its members and power levels have short ids, and the answer of the policy server is a parameter.
\<close>

subsection \<open>The server\<close>

definition sample_full_state :: compressed_state where
  "sample_full_state = {compress_state_event 2 5, compress_state_event 3 6}"

definition cached_lru :: "unit state_lru" where
  "cached_lru = \<lparr>lru_get = \<lambda>h c. (Some [\<lparr>si_shortstatehash = 1, si_full_state = sample_full_state,
       si_added = sample_full_state, si_removed = {}\<rparr>], c), lru_insert = \<lambda>_ _ c. c\<rparr>"

definition sample_server :: "bool \<Rightarrow> (sample_content, unit, unit) server_lib" where
  "sample_server allow = handler.extend sample_handler
     \<lparr>state_cache_lru = cached_lru, chain_cache_lru = \<lparr>lru_get = \<lambda>_ c. (None, c), lru_insert = \<lambda>_ _ c. c\<rparr>,
      chain_schedule = \<lparr>set_order = id, bucket_order = id, event_order = id\<rparr>, schedule = sample_sched,
      sha256 = \<lambda>_. [], walk_fuel = 1, cache_ids = sample_ids, cache_order = id, chunks = \<lambda>xs. [xs],
      create_creator = \<lambda>_. Some alice, create_additional = \<lambda>_. [], redaction_target = \<lambda>_. None,
      can_redact_other = \<lambda>_ _ _ _. False, can_redact_own = \<lambda>_ _ _ _. True, acl_lists = \<lambda>_. None, acl_allows = \<lambda>_ _. True,
      policy = \<lambda>_ json. (Inr allow, json), admin_command = \<lambda>_. Inr (), member_env = \<lambda>_. sample_env,
      backfill_servers = [], v1_rules = sample_rules\<rparr>"

definition sample_short :: short_db where
  "sample_short = new_db\<lparr>counter := 10,
     statekey_shortstatekey := [pair_key (key_bytes RoomMember alice) \<mapsto> to_be_bytes 2,
       pair_key (key_bytes RoomPowerLevels '''') \<mapsto> to_be_bytes 3],
     shorteventid_eventid := [to_be_bytes 5 \<mapsto> bytes_of ''$alice'', to_be_bytes 6 \<mapsto> bytes_of ''$power''],
     eventid_shorteventid := [bytes_of ''$alice'' \<mapsto> to_be_bytes 5, bytes_of ''$power'' \<mapsto> to_be_bytes 6],
     roomid_shortroomid := [bytes_of ''!r:x'' \<mapsto> to_be_bytes 7], statehash_shortstatehash := [[] \<mapsto> to_be_bytes 1]\<rparr>"

definition sample_server_db :: "(unit, unit) server_db" where
  "sample_server_db = events_db.extend (sample_events_db\<lparr>ev_timeline := (ev_timeline sample_events_db)\<lparr>tl_short := sample_short\<rparr>\<rparr>)
     \<lparr>sv_rooms = \<lparr>short = sample_short, state_compressor = \<lparr>stateinfo_cache = (), shortstatehash_statediff = Map.empty\<rparr>,
        roomid_shortstatehash = [bytes_of ''!r:x'' \<mapsto> to_be_bytes 1],
        shorteventid_shortstatehash = [to_be_bytes 6 \<mapsto> to_be_bytes 1], roomid_pduleaves = []\<rparr>,
      sv_chains = \<lparr>chain_short = sample_short, auth_chain_cache = (), shorteventid_authchain = Map.empty\<rparr>,
      sv_cache = empty_cache\<rparr>"

definition hello_json :: json_object where
  "hello_json = with_event_id ''$hello'' (json_remove ''unsigned'' message_json)"

subsection \<open>Its library and tables\<close>

lemma sample_server_lib [simp]:
  "h_ruma (sample_server b) = sample_ruma" "h_json (sample_server b) = h_json sample_handler"
  "h_codec (sample_server b) = h_codec sample_handler" "db_first (sample_server b) = True"
  "create_version (sample_server b) = create_version sample_handler"
  "state_cache_lru (sample_server b) = cached_lru" "walk_fuel (sample_server b) = 1" "sha256 (sample_server b) = (\<lambda>_. [])"
  "chunks (sample_server b) = (\<lambda>xs. [xs])" "policy (sample_server b) = (\<lambda>_ json. (Inr b, json))"
  "admin_command (sample_server b) = (\<lambda>_. Inr ())"
  by (simp_all add: sample_server_def handler.extend_def sample_handler_def)

lemma sample_server_tables [simp]:
  "shared_short sample_server_db = sample_short" "rooms_of sample_server_db = sv_rooms sample_server_db"
  "ev_metadata sample_server_db = empty_metadata"
  "eventid_pduid (ev_timeline sample_server_db) = Map.empty"
  "eventid_outlierpdu (ev_timeline sample_server_db) = eventid_outlierpdu (ev_timeline sample_events_db)"
  by (simp_all add: sample_server_db_def events_db.extend_def shared_short_def rooms_of_def sample_events_db_def)

lemma sample_server_find:
  "find_pdu (sample_server b) sample_server_db i = (if i = ''$create'' then Some create_pdu else if i = ''$alice'' then Some alice_pdu
     else if i = ''$power'' then Some power_pdu else None)"
  using sample_find [of i]
  by (simp add: find_pdu_def get_pdu_def select_ok_def get_non_outlier_pdu_def get_pdu_id_def get_pdu_outlier_def table_get_def
      sample_handler_def sample_events_db_def)

lemma string_of_bytes_of [simp]: "string_of (bytes_of s) = s"
proof -
  have "char_of (unat (word_of_nat (of_char c) :: u8)) = c" for c :: char
    by (simp add: unat_of_nat)
  then show ?thesis by (simp add: string_of_def bytes_of_def comp_def)
qed

lemma sorted_two: "a < b \<Longrightarrow> sorted_list_of_set {a, b} = [a, b :: 'a::linorder]"
  by (intro sorted_list_of_set_unique [THEN iffD1]) (auto simp: insert_commute)

lemma sample_entries_sorted: "sorted_list_of_set sample_full_state = [compress_state_event 2 5, compress_state_event 3 6]"
proof -
  have "to_be_bytes 2 < to_be_bytes (3 :: u64)" by (simp add: to_be_bytes_less_iff)
  then have "compress_state_event 2 5 < compress_state_event 3 6"
    using lex_less_append_diff [of "to_be_bytes 2" "to_be_bytes 3"] by (simp add: compress_state_event_def)
  then show ?thesis unfolding sample_full_state_def by (rule sorted_two)
qed

lemma sample_shortids [simp]: "state_full_shortids cached_lru (Suc 0) h rdb = (Inr [(2, 5), (3, 6)], rdb)"
  by (simp add: state_full_shortids_def load_full_state_def cached_lru_def sample_entries_sorted compressed_event_roundtrip)

lemma sample_texts: "de_text (bytes_of ''$alice'') = Inr (bytes_of ''$alice'')" "de_text (bytes_of ''$power'') = Inr (bytes_of ''$power'')"
  by (rule de_text_utf8; simp add: bytes_of_def)+

lemma sample_eventids [simp]:
  "multi_get_eventid_from_short sample_short [5, 6] = [Inr (bytes_of ''$alice''), Inr (bytes_of ''$power'')]"
  by (simp add: multi_get_eventid_from_short_def table_get_def ok_or_def sample_short_def sample_texts)

lemma sample_put_back [simp]:
  "put_short sample_short sample_server_db = sample_server_db" "short (sv_rooms sample_server_db) = sample_short"
  unfolding put_short_def by (simp_all add: sample_server_db_def events_db.extend_def sample_events_db_def)

lemma sample_full_ids [simp]:
  "state_full_ids cached_lru (Suc 0) h (sv_rooms sample_server_db) = ([(2, bytes_of ''$alice''), (3, bytes_of ''$power'')], sv_rooms sample_server_db)"
  by (simp add: state_full_ids_def ignore_errors_def keep_ok_def List.map_filter_simps)

lemma sample_state_ids [simp]:
  "state_ids_at (sample_server b) h sample_server_db = (Inr [(2, ''$alice''), (3, ''$power'')], sample_server_db)"
  by (simp add: state_ids_at_def on_rooms_def plain_result_def bindS_def returnS_def)

lemma sample_short_keys [simp]:
  "get_shortstatekey sample_short (key_bytes RoomMember alice) = Inr 2"
  "get_shortstatekey sample_short (key_bytes RoomPowerLevels '''') = Inr 3"
  "get_shortstatekey sample_short (key_bytes RoomCreate '''') = Inl NotFoundErr"
  by (simp_all add: get_shortstatekey_def sample_short_def table_get_def ok_or_def pair_key_eq key_bytes_def bytes_of_def new_db_def)

lemma sample_event_hashes [simp]:
  "pdu_shortstatehash (sv_rooms sample_server_db) (bytes_of ''$power'') = Inr 1"
  "get_room_shortstatehash (sv_rooms sample_server_db) (bytes_of ''!r:x'') = Inr 1"
  by (simp_all add: pdu_shortstatehash_def get_shorteventid_def get_room_shortstatehash_def sample_server_db_def sample_short_def
      events_db.extend_def table_get_def ok_or_def)

lemma sample_power_key [simp]:
  "short_key RoomPowerLevels '''' sample_server_db = (Inr 3, sample_server_db)"
  by (simp add: short_key_def on_short_def get_or_create_shortstatekey_def)

lemma sample_message [simp]:
  "ev_id message_pdu = ''$hello''" "ev_prev_events message_pdu = [''$power'']" "ev_state_key message_pdu = None"
  "ev_type message_pdu = OtherType ''m.room.message''" "ev_type power_pdu = RoomPowerLevels" "ev_state_key power_pdu = Some ''''"
  "room_of (sample_server b) message_pdu = Inr ''!r:x''" "ev_type create_pdu = RoomCreate" "ev_depth message_pdu = 1"
  by (simp_all add: message_pdu_def power_pdu_def create_pdu_def sample_pdu_def room_of_def room_id_or_hash_def)

lemma sample_plain [simp]: "plain_rules sample_rules = v10_rules"
  by (simp add: sample_rules_def room_version_rules.extend_def room_version_rules.truncate_def v10_rules_def)

subsection \<open>The checks on a message\<close>

lemma sample_check_5:
  "state_before_check_5 (sample_server b) N message_pdu sample_rules create_pdu origin sample_server_db
    = (Inr (True, [(2, ''$alice''), (3, ''$power'')]), sample_server_db)"
proof -
  let ?S = "[(2, ''$alice''), (3, ''$power'')]"
  have before: "state_before_incoming (sample_server b) message_pdu sample_rules sample_server_db = (Inr (Some ?S), sample_server_db)"
    by (simp add: state_before_incoming_def state_before_incoming_degree_one_def act_simps bindS_def sample_server_find ok_or_def)
  have "auth_check sample_ruma v10_rules message_pdu None (state_lookup (sample_server b) sample_server_db ?S) create_pdu = Inr True"
    by (rule message_pdu_passes) (simp_all add: state_lookup_def sample_server_find)
  then show ?thesis
    by (simp add: state_before_check_5_def act_simps before bindS_def service_result_def)
qed

lemma sample_check_6:
  "current_state_check_6 (sample_server b) message_pdu sample_rules create_pdu sample_server_db = (Inr True, sample_server_db)"
proof -
  have types: "auth_types_for_event sample_ruma (OtherType ''m.room.message'') (ev_sender message_pdu) None (ev_content message_pdu) v10_rules
      = Inr [(RoomPowerLevels, ''''), (RoomMember, alice), (RoomCreate, '''')]" using message_auth_types by simp
  have "get_auth_events (sample_server b) ''!r:x'' (OtherType ''m.room.message'') (ev_sender message_pdu) None (ev_content message_pdu)
      sample_rules sample_server_db = (Inr [((RoomMember, alice), alice_pdu), ((RoomPowerLevels, ''''), power_pdu)], sample_server_db)"
    by (simp add: get_auth_events_def act_simps types on_rooms_def plain_result_def ignore_errors_def bindS_def
        auth_entries_def List.map_filter_simps sample_server_find service_result_def)
  moreover have "auth_check sample_ruma v10_rules message_pdu None
      (\<lambda>ty sk. map_of [((RoomMember, alice), alice_pdu), ((RoomPowerLevels, ''''), power_pdu)] (with_state_key ty sk)) create_pdu = Inr True"
    by (rule message_pdu_passes) (simp_all add: with_state_key_def)
  ultimately show ?thesis by (simp add: current_state_check_6_def act_simps bindS_def service_result_def)
qed

lemma sample_verdict:
  "soft_fail_verdict (sample_server b) message_pdu hello_json sample_rules ''!r:x'' True sample_server_db
    = (Inr (\<not> b, if b then hello_json else json_remove ''event_id'' hello_json), sample_server_db)"
proof -
  have json: "map_of hello_json ''event_id'' = Some (JString ''$hello'')"
      "json_insert ''event_id'' (JString ''$hello'') (json_remove ''event_id'' hello_json) = hello_json"
    by (simp_all add: hello_json_def with_event_id_def json_remove_def message_json_def)
  have "redacts_id (sample_server b) message_pdu sample_rules = None" by (simp add: redacts_id_def)
  then show ?thesis
    by (cases b) (simp_all add: soft_fail_verdict_def redaction_verdict_def policy_server_check_7_def act_simps bindS_def json)
qed

lemma sample_compress:
  "compress_state (sample_server b) [(2, ''$alice''), (3, ''$power'')] sample_server_db = (Inr sample_full_state, sample_server_db)"
  by (simp add: compress_state_def compress_state_events_def sample_short_def [THEN arg_cong, of eventid_shorteventid] sample_full_state_def)

lemma sample_set_event_state:
  obtains db where "on_rooms (set_event_state cached_lru (\<lambda>_. []) (Suc 0) i r S) sample_server_db = (Inr 1, db)"
    and "get_shortroomid (shared_short db) (bytes_of ''!r:x'') = Inr 7"
proof -
  obtain n sdb where sdb: "get_or_create_shorteventid i sample_short = (n, sdb)" by fastforce
  have same: "statehash_shortstatehash sdb = statehash_shortstatehash sample_short" "roomid_shortroomid sdb = roomid_shortroomid sample_short"
    using sdb by (auto simp: get_or_create_shorteventid_def create_shorteventid_def next_count_def Let_def split: sum.splits)
  have hash: "get_or_create_shortstatehash [] sdb = ((1, True), sdb)"
    using same(1) by (simp add: get_or_create_shortstatehash_def table_get_def ok_or_def sample_short_def)
  let ?r = "put_event_state n 1 (sv_rooms sample_server_db\<lparr>short := sdb\<rparr>)"
  have "set_event_state cached_lru (\<lambda>_. []) (Suc 0) i r S (sv_rooms sample_server_db) = (Inr 1, ?r)"
    by (simp add: set_event_state_def sdb hash calculate_hash_def Let_def)
  then have "on_rooms (set_event_state cached_lru (\<lambda>_. []) (Suc 0) i r S) sample_server_db
      = (Inr 1, put_short sdb (sample_server_db\<lparr>sv_rooms := ?r\<rparr>))"
    by (simp add: on_rooms_def put_event_state_def)
  moreover have "get_shortroomid (shared_short (put_short sdb (sample_server_db\<lparr>sv_rooms := ?r\<rparr>))) (bytes_of ''!r:x'') = Inr 7"
    using same(2) by (simp add: get_shortroomid_def shared_short_def put_short_def table_get_def ok_or_def sample_short_def)
  ultimately show thesis by (rule that)
qed

lemma sample_append_to_room:
  assumes "get_shortroomid (shared_short db) (bytes_of ''!r:x'') = Inr 7"
  shows "\<exists>i db'. append_to_room H message_pdu json ids ''!r:x'' db = (Inr i, db')"
  using assms
  by (simp add: append_to_room_def act_simps populate_unsigned_def bindS_def on_rooms_def on_timeline_def split_beta)

lemma sample_append:
  "\<exists>r db. append_incoming_pdu (sample_server b) message_pdu json rules [(2, ''$alice''), (3, ''$power'')] soft sample_server_db
     = (Inr r, db) \<and> (r = None \<longleftrightarrow> soft)"
proof -
  obtain db where db: "on_rooms (set_event_state cached_lru (\<lambda>_. []) (Suc 0) (bytes_of ''$hello'') (bytes_of ''!r:x'') sample_full_state)
      sample_server_db = (Inr 1, db)" "get_shortroomid (shared_short db) (bytes_of ''!r:x'') = Inr 7"
    by (rule sample_set_event_state)
  have ext: "progress_state_and_extremities (sample_server b) ''!r:x'' message_pdu rules S es db = (Inr (e es), db)" if
      "e = (\<lambda>es. filter (\<lambda>i. i \<notin> bytes_of ` set (ev_prev_events message_pdu)
        \<and> \<not> is_event_referenced (ev_metadata db) (bytes_of ''!r:x'') i) es @ [bytes_of (ev_id message_pdu)])" for S es e
    using that by (simp add: progress_state_and_extremities_def act_simps bindS_def)
  note appended = sample_append_to_room [OF db(2), of "sample_server b" json]
  show ?thesis
  proof (cases soft)
    case True
    then show ?thesis by (simp add: append_incoming_pdu_def act_simps bindS_def sample_compress db(1))
  next
    case False
    let ?ext = "filter (\<lambda>i. i \<notin> bytes_of ` set (ev_prev_events message_pdu)
        \<and> \<not> is_event_referenced (ev_metadata db) (bytes_of ''!r:x'') i) (get_forward_extremities (rooms_of db) (bytes_of ''!r:x''))
        @ [bytes_of (ev_id message_pdu)]"
    obtain i db' where "append_to_room (sample_server b) message_pdu json ?ext ''!r:x'' db = (Inr i, db')" using appended by blast
    then show ?thesis using False by (simp add: append_incoming_pdu_def act_simps bindS_def sample_compress db(1) ext)
  qed
qed

text \<open>The message is promoted when the policy server allows it, and soft-failed when it does not.\<close>

lemma sample_upgrade:
  "\<exists>r db. upgrade_outlier_to_timeline_pdu (sample_server b) N message_pdu hello_json create_pdu origin ''!r:x'' sample_server_db
     = (Inr r, db) \<and> (r \<noteq> None \<longleftrightarrow> b)"
proof -
  have rules: "get_room_version_rules (sample_server b) create_pdu = Inr sample_rules"
    by (simp add: get_room_version_rules_def) (simp add: sample_handler_def sample_json_def)
  obtain r db where append: "append_incoming_pdu (sample_server b) message_pdu (if b then hello_json else json_remove ''event_id'' hello_json)
      sample_rules [(2, ''$alice''), (3, ''$power'')] (\<not> b) sample_server_db = (Inr r, db)" "r = None \<longleftrightarrow> \<not> b"
    using sample_append by blast
  have "upgrade_checked (sample_server b) N message_pdu hello_json create_pdu origin ''!r:x'' sample_server_db = (Inr r, db)"
    by (simp add: upgrade_checked_def act_simps rules bindS_def sample_check_5 sample_check_6 sample_verdict append(1))
  then show ?thesis using append(2)
    by (cases b; cases r) (simp_all add: upgrade_outlier_to_timeline_pdu_def act_simps bindS_def get_pdu_id_def table_get_def ok_or_def ok_result_def
        is_event_rejected_def is_event_soft_failed_def empty_metadata_def)
qed

end
