(* ===== verification/Promotion.thy ===== *)
theory Promotion
  imports SampleServer
begin

text \<open>
  What the promotion of outliers guarantees: an event that reaches the timeline has passed the checks against the state
  before it and against the current state and was neither rejected nor soft-failed; an event that does not leaves no
  trace in the timeline, in the state of the room, in the memberships and in the forward extremities; rooms that are
  unknown, disabled or closed to the sending server by their ACL are not touched.
\<close>

subsection \<open>What clients see\<close>

text \<open>The tables of the timeline, the current states, the forward extremities and the memberships.\<close>

definition unseen :: "('l, 'k, 'z) server_db_scheme \<Rightarrow> ('l, 'k, 'z) server_db_scheme \<Rightarrow> bool" where
  "unseen db db' \<longleftrightarrow> pduid_pdu (ev_timeline db') = pduid_pdu (ev_timeline db)
     \<and> eventid_pduid (ev_timeline db') = eventid_pduid (ev_timeline db)
     \<and> roomid_shortstatehash (sv_rooms db') = roomid_shortstatehash (sv_rooms db)
     \<and> roomid_pduleaves (sv_rooms db') = roomid_pduleaves (sv_rooms db)
     \<and> sv_cache db' = sv_cache db"

lemma unseen_refl [simp, moves_intros]: "reflp unseen"
  by (simp add: reflp_def unseen_def)

lemma unseen_trans [simp, moves_intros]: "transp unseen"
  by (rule transpI) (simp add: unseen_def)

lemma outliers_unseen: "outliers_grow db db' \<Longrightarrow> unseen db db'"
  by (auto simp: outliers_grow_def unseen_def)

lemma moves_outliers_unseen: "moves outliers_grow m \<Longrightarrow> moves unseen m"
  unfolding moves_def using outliers_unseen by blast

lemma unseen_short: "unseen db (put_short sdb db')  \<longleftrightarrow> unseen db db'"
  by (simp add: unseen_def put_short_def)

lemma on_short_unseen [moves_intros]: "moves unseen (on_short f)"
  by (simp add: moves_def on_short_def split_beta unseen_short reflpD [OF unseen_refl])

lemma short_key_unseen [moves_intros]: "moves unseen (short_key ty sk)"
  unfolding short_key_def by (rule moves_intros)

lemma on_chains_unseen [moves_intros]: "moves unseen (on_chains f)"
  by (auto simp: moves_def on_chains_def split_beta unseen_short) (simp add: unseen_def)

text \<open>Operations on the stores of room states that change neither current states nor extremities.\<close>

definition keeps_rooms :: "('l rooms_db \<Rightarrow> 'a \<times> 'l rooms_db) \<Rightarrow> bool" where
  "keeps_rooms f \<longleftrightarrow> (\<forall>rdb. roomid_shortstatehash (snd (f rdb)) = roomid_shortstatehash rdb
     \<and> roomid_pduleaves (snd (f rdb)) = roomid_pduleaves rdb)"

named_theorems keeps_intros

lemma on_rooms_unseen [moves_intros]: "keeps_rooms f \<Longrightarrow> moves unseen (on_rooms f)"
  by (auto simp: moves_def on_rooms_def split_beta unseen_short keeps_rooms_def) (simp add: unseen_def rooms_of_def)

lemma keeps_plain [keeps_intros]: "keeps_rooms f \<Longrightarrow> keeps_rooms (plain_result f)"
  by (simp add: keeps_rooms_def plain_result_def split_beta)

lemma keeps_load [keeps_intros]: "keeps_rooms (load_full_state L fuel h)"
  by (simp add: keeps_rooms_def load_full_state_def split_beta)

lemma keeps_shortids [keeps_intros]: "keeps_rooms (state_full_shortids L fuel h)"
  using keeps_load [of L fuel h]
  by (auto simp: keeps_rooms_def state_full_shortids_def split_beta split: sum.splits)

lemma keeps_ignore [keeps_intros]: "keeps_rooms f \<Longrightarrow> keeps_rooms (\<lambda>rdb. ignore_errors (f rdb))"
  by (auto simp: keeps_rooms_def ignore_errors_def split_beta split: sum.splits)

lemma keeps_full_ids [keeps_intros]: "keeps_rooms (state_full_ids L fuel h)"
  using keeps_ignore [OF keeps_shortids [of L fuel h]]
  by (simp add: keeps_rooms_def state_full_ids_def split_beta)

lemma keeps_get_id [keeps_intros]: "keeps_rooms (state_get_id L fuel h key)"
  using keeps_load [of L fuel h]
  by (auto simp: keeps_rooms_def state_get_id_def state_get_shortid_def split_beta split: sum.splits)

lemma keeps_set_event_state [keeps_intros]: "keeps_rooms (set_event_state L sha fuel event_id room_id S)"
  by (auto simp: keeps_rooms_def set_event_state_def try_states_parents_def put_event_state_def Let_def split_beta
      split: sum.splits)

subsection \<open>Reading changes nothing that clients see\<close>

lemma expectS_moves [moves_intros]: "moves R m \<Longrightarrow> moves R (expectS msg m)"
  by (auto simp: moves_def expectS_def split: prod.splits sum.splits) (metis snd_conv)+

lemma state_get_unseen [moves_intros]: "moves unseen (state_get H h ty sk)"
  unfolding state_get_def get_event_def by (intro moves_intros keeps_intros)

lemma room_state_get_unseen [moves_intros]: "moves unseen (room_state_get H room ty sk)"
  unfolding room_state_get_def by (intro moves_intros)

lemma get_room_create_unseen [moves_intros]: "moves unseen (get_room_create_event H room)"
  unfolding get_room_create_event_def by (intro moves_intros)

lemma moves_wrap:
  assumes "moves R m" and "\<And>s. snd (f s) = snd (m s)"
  shows "moves R f"
  using assms by (simp add: moves_def)

lemma get_room_version_unseen [moves_intros]: "moves unseen (get_room_version H room)"
proof (rule moves_wrap)
  show "moves unseen (bindS (room_state_get H room RoomCreate '''') (\<lambda>ev.
      liftS (ok_or (RequestErr ''invalid content'') (create_version H (ev_content ev)))))" by (intro moves_intros)
qed (auto simp: get_room_version_def split: prod.splits sum.splits)

lemma known_rules_unseen [moves_intros]: "moves unseen (known_version_rules H room)"
  unfolding known_version_rules_def by (intro moves_intros)

lemma creators_unseen [moves_intros]: "moves unseen (get_room_creators H room)"
  unfolding get_room_creators_def by (intro moves_intros)

lemma power_levels_unseen [moves_intros]: "moves unseen (get_room_power_levels H room)"
proof -
  have read: "moves unseen (\<lambda>db. case room_state_get H room RoomPowerLevels '''' db of
          (Inr ev, db) \<Rightarrow>
            (ok_or (PanicErr ''Failed to deserialize power levels event content'')
               (de_RoomPowerLevelsEventContent (h_ruma H) (ev_content ev)), db)
        | (Inl NotFoundErr, db) \<Rightarrow> (Inr (new_power_levels (h_ruma H) (authorization rules)), db)
        | (Inl _, db) \<Rightarrow> (Inl (PanicErr ''Failed to deserialize power levels event content''), db))" for rules
    by (rule moves_wrap [OF room_state_get_unseen [of H room RoomPowerLevels "''''"]])
      (auto split: prod.splits sum.splits service_error.splits)
  show ?thesis unfolding get_room_power_levels_def by (intro moves_intros read)
qed

lemma can_redact_unseen [moves_intros]: "moves unseen (user_can_redact H i sender room fed)"
  unfolding user_can_redact_def by (intro moves_intros)

lemma acl_unseen [moves_intros]: "moves unseen (acl_check H server room)"
  by (rule moves_wrap [OF room_state_get_unseen [of H room "OtherType ''m.room.server_acl''" "''''"]])
    (auto simp: acl_check_def split: prod.splits sum.splits option.splits if_splits)

lemma auth_events_unseen [moves_intros]: "moves unseen (get_auth_events H room kind sender sk content rules)"
  unfolding get_auth_events_def by (intro moves_intros keeps_intros)

lemma state_ids_unseen [moves_intros]: "moves unseen (state_ids_at H h)"
  unfolding state_ids_at_def by (intro moves_intros keeps_intros)

lemma auth_chain_unseen [moves_intros]: "moves unseen (auth_chain_of H room state)"
proof -
  have "moves unseen (\<lambda>db. on_chains (f db) db)" for f
    using on_chains_unseen unfolding moves_def by blast
  then show ?thesis unfolding auth_chain_of_def by (intro moves_intros)
qed

lemma fork_unseen [moves_intros]: "moves unseen (state_at_incoming_fork H room h ev)"
  unfolding state_at_incoming_fork_def by (intro moves_intros)

lemma collect_forks_unseen [moves_intros]: "moves unseen (collect_forks H room xs)"
  by (induction xs) (auto intro!: moves_intros)

lemma shorten_unseen [moves_intros]: "moves unseen (shorten_state st)"
  unfolding shorten_state_def by (auto intro!: moves_intros split: prod.split)

lemma resolution_unseen [moves_intros]: "moves unseen (state_resolution H rules sets auth_chain_sets)"
  unfolding state_resolution_def by (intro moves_intros)

lemma state_before_unseen [moves_intros]: "moves unseen (state_before_incoming H ev rules)"
  unfolding state_before_incoming_def state_before_incoming_degree_one_def state_before_incoming_resolved_def
  by (auto intro!: moves_intros split: list.split)

lemma compress_unseen [moves_intros]: "moves unseen (compress_state H st)"
  by (auto simp: moves_def compress_state_def unseen_short reflpD [OF unseen_refl] split: sum.split)

lemma handle_outlier_unseen [moves_intros]: "moves unseen (handle_outlier_pdu H N origin create_event i room value)"
  by (rule moves_outliers_unseen) (rule handle_outlier_grows)

lemma fetch_auth_unseen [moves_intros]:
  "moves unseen (fetch_and_handle_auth_events fuel H N v1 servers origin events create_event room)"
  by (rule moves_outliers_unseen) (rule fetch_and_handle_grows)

lemma state_event_unseen [moves_intros]: "moves unseen (handle_state_event H N origin create_event room raw)"
  unfolding handle_state_event_def by (intro moves_intros)

lemma full_state_unseen [moves_intros]: "moves unseen (fetch_full_state H N origin create_event room i)"
  unfolding fetch_full_state_def by (intro moves_intros)

lemma load_state_unseen [moves_intros]: "moves unseen (load_state_events H N origin create_event room i ids)"
  unfolding load_state_events_def by (intro moves_intros)

lemma fetch_state_unseen [moves_intros]: "moves unseen (fetch_state H N origin create_event room i)"
  unfolding fetch_state_def add_state_event_def by (intro moves_intros)

lemma check_5_unseen [moves_intros]: "moves unseen (state_before_check_5 H N ev rules create_event origin)"
  unfolding state_before_check_5_def by (intro moves_intros)

lemma check_6_unseen [moves_intros]: "moves unseen (current_state_check_6 H ev rules create_event)"
  unfolding current_state_check_6_def by (intro moves_intros)

lemma check_7_unseen [moves_intros]: "moves unseen (policy_server_check_7 H ev json)"
  unfolding policy_server_check_7_def
  by (intro moves_intros) (auto intro!: moves_intros simp: moves_def act_basic reflpD [OF unseen_refl] split: prod.split sum.split bool.split)

lemma verdict_unseen [moves_intros]: "moves unseen (soft_fail_verdict H ev val rules room passes)"
  unfolding soft_fail_verdict_def redaction_verdict_def
  by (intro moves_intros) (auto intro!: moves_intros split: prod.split bool.split)

lemma metadata_unseen [moves_intros]: "moves unseen (changeS (\<lambda>db. db\<lparr>ev_metadata := f db\<rparr>))"
  by (rule moves_change) (simp add: unseen_def)

lemma set_state_unseen [moves_intros]: "moves unseen (on_rooms (set_event_state L sha fuel i room S))"
  by (intro moves_intros keeps_intros)

subsection \<open>Promoted events\<close>

lemma bindS_unit_if [simp]:
  "bindS (if c then changeS f else returnS ()) g s = g () (if c then f s else s)"
  by (simp add: act_simps bindS_def)

lemma insert_live_found:
  assumes "insert_live C r e j tdb = ((i, n), tdb')"
  shows "get_pdu_id tdb' e = Inr i" and "eventid_outlierpdu tdb' e = None"
  using assms
  by (auto simp: insert_live_def append_pdu_def get_pdu_id_def table_get_def ok_or_def Let_def split: prod.splits)

lemma set_extremities_holds:
  assumes "i \<in> set ids"
  shows "leaf_key room i \<in> fst ` set (roomid_pduleaves (set_forward_extremities room ids rdb))"
proof -
  have "leaf_key room i \<in> fst ` set t \<or> i \<in> set ids
      \<Longrightarrow> leaf_key room i \<in> fst ` set (fold (\<lambda>e. AList.update (leaf_key room e) e) ids t)" for t
  proof (induction ids arbitrary: t)
    case (Cons a ids)
    have "leaf_key room i \<in> fst ` set (AList.update (leaf_key room a) a t) \<or> i \<in> set ids"
      using Cons.prems unfolding dom_update by auto
    then show ?case using Cons.IH by simp
  qed simp
  then show ?thesis using assms by (simp add: set_forward_extremities_def Let_def)
qed

lemma progress_adds:
  "progress_state_and_extremities H room pdu rules st ext db = (Inr ext', db') \<Longrightarrow> bytes_of (ev_id pdu) \<in> set ext'"
  by (auto simp: progress_state_and_extremities_def bindS_Inr act_basic)

lemma append_to_room_ok:
  assumes "append_to_room H pdu json ids room db = (Inr i, db')" and "bytes_of (ev_id pdu) \<in> set ids"
  shows "get_pdu_id (ev_timeline db') (bytes_of (ev_id pdu)) = Inr i"
    and "eventid_outlierpdu (ev_timeline db') (bytes_of (ev_id pdu)) = None"
    and "leaf_key (bytes_of room) (bytes_of (ev_id pdu)) \<in> fst ` set (roomid_pduleaves (sv_rooms db'))"
proof -
  obtain short json db1 db2 n where "on_rooms (\<lambda>rdb. (Inr (), set_forward_extremities (bytes_of room) ids rdb)) db1 = (Inr (), db2)"
    and ins: "on_timeline (insert_live (h_codec H) short (bytes_of (ev_id pdu)) json) db2 = (Inr (i, n), db')"
    using assms(1) unfolding append_to_room_def by (auto simp: bindS_Inr act_basic)
  then have set: "db2 = snd (on_rooms (\<lambda>rdb. (Inr (), set_forward_extremities (bytes_of room) ids rdb)) db1)" by simp
  obtain tdb where tdb: "insert_live (h_codec H) short (bytes_of (ev_id pdu)) json (ev_timeline db2) = ((i, n), tdb)"
      "db' = db2\<lparr>ev_timeline := tdb\<rparr>"
    using ins by (auto simp: on_timeline_def split: prod.splits)
  show "get_pdu_id (ev_timeline db') (bytes_of (ev_id pdu)) = Inr i"
    "eventid_outlierpdu (ev_timeline db') (bytes_of (ev_id pdu)) = None"
    using insert_live_found [OF tdb(1)] tdb(2) by simp_all
  have "sv_rooms db2 = set_forward_extremities (bytes_of room) ids (rooms_of db1)"
    by (simp add: set on_rooms_def put_short_def)
  then show "leaf_key (bytes_of room) (bytes_of (ev_id pdu)) \<in> fst ` set (roomid_pduleaves (sv_rooms db'))"
    using set_extremities_holds [OF assms(2)] tdb(2) by simp
qed

lemma append_incoming_ok:
  assumes "append_incoming_pdu H pdu json rules st soft db = (Inr (Some i), db')" and "room_of H pdu = Inr room"
  shows "\<not> soft" and "get_pdu_id (ev_timeline db') (bytes_of (ev_id pdu)) = Inr i"
    and "eventid_outlierpdu (ev_timeline db') (bytes_of (ev_id pdu)) = None"
    and "leaf_key (bytes_of room) (bytes_of (ev_id pdu)) \<in> fst ` set (roomid_pduleaves (sv_rooms db'))"
proof -
  obtain ext ext' dba dbb where "\<not> soft" and p: "progress_state_and_extremities H room pdu rules st ext dba = (Inr ext', dbb)"
    and a: "append_to_room H pdu json ext' room dbb = (Inr i, db')"
    using assms by (auto simp: append_incoming_pdu_def bindS_Inr act_basic split: if_splits)
  then show "\<not> soft" by simp
  show "get_pdu_id (ev_timeline db') (bytes_of (ev_id pdu)) = Inr i"
    "eventid_outlierpdu (ev_timeline db') (bytes_of (ev_id pdu)) = None"
    "leaf_key (bytes_of room) (bytes_of (ev_id pdu)) \<in> fst ` set (roomid_pduleaves (sv_rooms db'))"
    using append_to_room_ok [OF a progress_adds [OF p]] by simp_all
qed

lemma upgrade_unknown:
  assumes "get_pdu_id (ev_timeline db) (bytes_of (ev_id pdu)) = Inl NotFoundErr"
    and "upgrade_outlier_to_timeline_pdu H N pdu val create_event origin room_id db = (Inr r, db')"
  shows "is_event_accepted (ev_metadata db) (bytes_of (ev_id pdu))" and "room_of H pdu = Inr room_id"
    and "upgrade_checked H N pdu val create_event origin room_id db = (Inr r, db')"
  using assms by (auto simp: upgrade_outlier_to_timeline_pdu_def bindS_Inr act_simps ok_result_def is_event_accepted_def split: if_splits sum.splits)

text \<open>What \<open>upgrade_checked\<close> did when it returned.\<close>

lemma upgrade_checked_steps:
  assumes "upgrade_checked H N pdu val create_event origin room_id db = (Inr r, db')"
  obtains rules state_before db1 passes db2 soft val' db3 db4 where
    "get_room_version_rules H create_event = Inr rules"
    and "state_before_check_5 H N pdu rules create_event origin db = (Inr (True, state_before), db1)"
    and "current_state_check_6 H pdu rules create_event db1 = (Inr passes, db2)"
    and "soft_fail_verdict H pdu val rules room_id passes db2 = (Inr (soft, val'), db3)"
    and "append_incoming_pdu H pdu val' rules state_before soft db3 = (Inr r, db4)"
    and "\<exists>m. db' = db4\<lparr>ev_metadata := m\<rparr> \<and> softfailedeventids m = softfailedeventids (ev_metadata db4)"
proof -
  obtain rules state_before db1 passes db2 soft val' db3 db4 where
    steps: "get_room_version_rules H create_event = Inr rules"
    "state_before_check_5 H N pdu rules create_event origin db = (Inr (True, state_before), db1)"
    "current_state_check_6 H pdu rules create_event db1 = (Inr passes, db2)"
    "soft_fail_verdict H pdu val rules room_id passes db2 = (Inr (soft, val'), db3)"
    "append_incoming_pdu H pdu val' rules state_before soft db3 = (Inr r, db4)"
    and last: "(Inr r, db') = (Inr r, if get_mindepth (ev_metadata db) (bytes_of room_id) < ev_depth pdu \<and> ev_state_key pdu \<noteq> None
        then db4\<lparr>ev_metadata := set_mindepth (bytes_of room_id) (of_nat (ev_depth pdu)) (ev_metadata db4)\<rparr> else db4)"
    using assms by (auto simp: upgrade_checked_def bindS_Inr act_basic bindS_unit_if split: if_splits)
  have "\<exists>m. db' = db4\<lparr>ev_metadata := m\<rparr> \<and> softfailedeventids m = softfailedeventids (ev_metadata db4)"
    using last by (cases "get_mindepth (ev_metadata db) (bytes_of room_id) < ev_depth pdu \<and> ev_state_key pdu \<noteq> None")
      (auto simp: set_mindepth_def intro: exI [of _ "ev_metadata db4"])
  then show thesis by (rule that [OF steps])
qed

lemma verdict_passes:
  assumes "soft_fail_verdict H pdu val rules room_id passes db = (Inr (False, val'), db')"
  shows "passes" and "fst (policy H pdu (json_remove ''event_id'' val)) = Inr True"
  using assms
  by (auto simp: soft_fail_verdict_def redaction_verdict_def policy_server_check_7_def bindS_Inr act_basic
      split: bool.splits option.splits if_splits prod.splits sum.splits)

text \<open>C5. An event that gets a place in the timeline had not been rejected or soft-failed, belongs to the room, and has
  passed the authorization rules twice: against the state before it, and against the current state of the room. The
  policy server allowed it. Its place is the one that is returned, it is no outlier any more, and it is a forward
  extremity of its room. (Whether the event that a redaction applies to is itself accepted is not part of this.)
\<close>

theorem promoted_event_checked:
  assumes "upgrade_outlier_to_timeline_pdu H N pdu val create_event origin room_id db = (Inr (Some pdu_id), db')"
    and "get_pdu_id (ev_timeline db) (bytes_of (ev_id pdu)) = Inl NotFoundErr"
  shows "is_event_accepted (ev_metadata db) (bytes_of (ev_id pdu)) \<and> room_of H pdu = Inr room_id
    \<and> (\<exists>rules state_before db1 auth_events db2 val' db3. get_room_version_rules H create_event = Inr rules
        \<and> state_before_check_5 H N pdu rules create_event origin db = (Inr (True, state_before), db1)
        \<and> auth_check (h_ruma H) (plain_rules rules) pdu None (state_lookup H db1 state_before) create_event = Inr True
        \<and> get_auth_events H room_id (ev_type pdu) (ev_sender pdu) (ev_state_key pdu) (ev_content pdu) rules db1 = (Inr auth_events, db2)
        \<and> auth_check (h_ruma H) (plain_rules rules) pdu None (\<lambda>ty sk. map_of auth_events (with_state_key ty sk)) create_event = Inr True
        \<and> soft_fail_verdict H pdu val rules room_id True db2 = (Inr (False, val'), db3))
    \<and> fst (policy H pdu (json_remove ''event_id'' val)) = Inr True
    \<and> get_pdu_id (ev_timeline db') (bytes_of (ev_id pdu)) = Inr pdu_id
    \<and> eventid_outlierpdu (ev_timeline db') (bytes_of (ev_id pdu)) = None
    \<and> leaf_key (bytes_of room_id) (bytes_of (ev_id pdu)) \<in> fst ` set (roomid_pduleaves (sv_rooms db'))"
proof -
  note known = upgrade_unknown [OF assms(2,1)]
  obtain rules state_before db1 passes db2 soft val' db3 db4 where
    rules: "get_room_version_rules H create_event = Inr rules"
    and five: "state_before_check_5 H N pdu rules create_event origin db = (Inr (True, state_before), db1)"
    and six: "current_state_check_6 H pdu rules create_event db1 = (Inr passes, db2)"
    and verdict: "soft_fail_verdict H pdu val rules room_id passes db2 = (Inr (soft, val'), db3)"
    and append: "append_incoming_pdu H pdu val' rules state_before soft db3 = (Inr (Some pdu_id), db4)"
    and m: "\<exists>m. db' = db4\<lparr>ev_metadata := m\<rparr> \<and> softfailedeventids m = softfailedeventids (ev_metadata db4)"
    using upgrade_checked_steps [OF known(3)] .
  note appended = append_incoming_ok [OF append known(2)]
  have "auth_check (h_ruma H) (plain_rules rules) pdu None (state_lookup H db1 state_before) create_event = Inr True"
    using five by (auto simp: state_before_check_5_def bindS_Inr act_basic liftS_db_basic split: if_splits)
  moreover have passed: "soft_fail_verdict H pdu val rules room_id passes db2 = (Inr (False, val'), db3)"
    using verdict appended(1) by simp
  note ok = verdict_passes [OF passed]
  obtain auth_events where "get_auth_events H room_id (ev_type pdu) (ev_sender pdu) (ev_state_key pdu) (ev_content pdu) rules db1
        = (Inr auth_events, db2)"
      "auth_check (h_ruma H) (plain_rules rules) pdu None (\<lambda>ty sk. map_of auth_events (with_state_key ty sk)) create_event = Inr True"
    using six ok(1) known(2) by (auto simp: current_state_check_6_def bindS_Inr act_basic)
  ultimately show ?thesis
    using known rules five passed ok appended(2-4) m by (auto intro!: exI [of _ rules] exI [of _ state_before] exI [of _ db1] exI [of _ auth_events] exI [of _ db2] exI [of _ val'] exI [of _ db3])
qed

theorem promoted_event_checked_witness:
  "\<exists>pdu_id db'. upgrade_outlier_to_timeline_pdu (sample_server True) silent_network message_pdu hello_json create_pdu ''y'' ''!r:x''
       sample_server_db = (Inr (Some pdu_id), db')
     \<and> get_pdu_id (ev_timeline db') (bytes_of ''$hello'') = Inr pdu_id
     \<and> leaf_key (bytes_of ''!r:x'') (bytes_of ''$hello'') \<in> fst ` set (roomid_pduleaves (sv_rooms db'))"
proof -
  obtain pdu_id db' where run: "upgrade_outlier_to_timeline_pdu (sample_server True) silent_network message_pdu hello_json create_pdu ''y'' ''!r:x''
       sample_server_db = (Inr (Some pdu_id), db')"
    using sample_upgrade [of True silent_network "''y''"] by auto
  have "get_pdu_id (ev_timeline sample_server_db) (bytes_of (ev_id message_pdu)) = Inl NotFoundErr"
    by (simp add: get_pdu_id_def table_get_def ok_or_def)
  from promoted_event_checked [OF run this] show ?thesis using run by auto
qed

subsection \<open>Events that are not promoted\<close>

lemma append_soft_failed:
  assumes "append_incoming_pdu H pdu json rules st soft db = (Inr None, db')"
  shows "is_event_soft_failed (ev_metadata db') (bytes_of (ev_id pdu))" and "unseen db db'"
proof -
  obtain room S db1 x db2 where steps: "compress_state H st db = (Inr S, db1)"
      "on_rooms (set_event_state (state_cache_lru H) (sha256 H) (walk_fuel H) (bytes_of (ev_id pdu)) (bytes_of room) S) db1 = (Inr x, db2)"
      "db' = db2\<lparr>ev_metadata := mark_event_soft_failed (bytes_of (ev_id pdu)) (ev_metadata db2)\<rparr>"
    using assms by (auto simp: append_incoming_pdu_def bindS_Inr act_basic split: if_splits)
  then show "is_event_soft_failed (ev_metadata db') (bytes_of (ev_id pdu))"
    by (simp add: is_event_soft_failed_def mark_event_soft_failed_def)
  have "unseen db db1" "unseen db1 db2"
    using movesD [OF compress_unseen steps(1)] movesD [OF set_state_unseen steps(2)] by simp_all
  then show "unseen db db'" using steps(3) by (simp add: unseen_def)
qed

lemma unseen_steps:
  assumes "state_before_check_5 H N pdu rules create_event origin db = (r1, db1)"
    and "current_state_check_6 H pdu rules create_event db1 = (r2, db2)"
    and "soft_fail_verdict H pdu val rules room_id passes db2 = (r3, db3)"
  shows "unseen db db3"
  using movesD [OF check_5_unseen assms(1)] movesD [OF check_6_unseen assms(2)] movesD [OF verdict_unseen assms(3)]
  by (simp add: unseen_def)

text \<open>C6. An event that is soft-failed, or rejected because the state before it does not authorize it, leaves no trace in
  the timeline, the current states, the forward extremities and the memberships; and it stays out: promoting it again,
  whatever JSON comes with it, is refused.
\<close>

theorem refused_event_unseen:
  assumes "upgrade_outlier_to_timeline_pdu H N pdu val create_event origin room_id db = (r, db')"
    and "get_pdu_id (ev_timeline db) (bytes_of (ev_id pdu)) = Inl NotFoundErr"
    and "r = Inr None \<or> get_room_version_rules H create_event = Inr rules
      \<and> state_before_check_5 H N pdu rules create_event origin db = (Inr (False, state_before), db1)
      \<and> is_event_accepted (ev_metadata db) (bytes_of (ev_id pdu)) \<and> room_of H pdu = Inr room_id \<and> ev_type create_event = RoomCreate"
  shows "unseen db db' \<and> \<not> is_event_accepted (ev_metadata db') (bytes_of (ev_id pdu))
    \<and> (\<exists>e. upgrade_outlier_to_timeline_pdu H N' pdu val' create_event' origin' room_id db' = (Inl e, db'))"
proof -
  have "unseen db db' \<and> \<not> is_event_accepted (ev_metadata db') (bytes_of (ev_id pdu))"
  proof (cases "r = Inr None")
    case True
    have "upgrade_outlier_to_timeline_pdu H N pdu val create_event origin room_id db = (Inr None, db')" using assms(1) True by simp
    note known = upgrade_unknown [OF assms(2) this]
    obtain rules state_before db1 passes db2 soft val' db3 db4 where
      five: "state_before_check_5 H N pdu rules create_event origin db = (Inr (True, state_before), db1)"
      and six: "current_state_check_6 H pdu rules create_event db1 = (Inr passes, db2)"
      and verdict: "soft_fail_verdict H pdu val rules room_id passes db2 = (Inr (soft, val'), db3)"
      and append: "append_incoming_pdu H pdu val' rules state_before soft db3 = (Inr None, db4)"
      and m: "\<exists>m. db' = db4\<lparr>ev_metadata := m\<rparr> \<and> softfailedeventids m = softfailedeventids (ev_metadata db4)"
      using upgrade_checked_steps [OF known(3)] .
    then show ?thesis
      using unseen_steps [OF five six verdict] append_soft_failed [OF append]
      by (auto simp: unseen_def is_event_accepted_def is_event_soft_failed_def)
  next
    case False
    then have "r = Inl (RequestErr ''Forbidden: Event authorisation fails based on the state before the event'')
        \<and> db' = reject_and_persist H (ev_id pdu) val db1"
      using assms by (auto simp: upgrade_outlier_to_timeline_pdu_def upgrade_checked_def bindS_def act_basic liftS_db_basic ok_result_def is_event_accepted_def)
    moreover have "unseen db db1" using assms(3) False movesD [OF check_5_unseen] by blast
    ultimately show ?thesis
      using reject_grows [of db1 H "ev_id pdu" val, THEN outliers_unseen]
      by (auto simp: unseen_def is_event_accepted_def reject_and_persist_def persist_outlier_def is_event_rejected_def mark_event_rejected_def)
  qed
  moreover from this have "get_pdu_id (ev_timeline db') (bytes_of (ev_id pdu)) = Inl NotFoundErr"
    using assms(2) by (auto simp: unseen_def get_pdu_id_def)
  ultimately show ?thesis
    by (auto simp: upgrade_outlier_to_timeline_pdu_def is_event_accepted_def act_simps ok_result_def bindS_def liftS_db_def)
qed

theorem refused_event_unseen_witness:
  "\<exists>db'. upgrade_outlier_to_timeline_pdu (sample_server False) silent_network message_pdu hello_json create_pdu ''y'' ''!r:x''
       sample_server_db = (Inr None, db') \<and> eventid_pduid (ev_timeline db') = Map.empty
     \<and> (\<exists>e. upgrade_outlier_to_timeline_pdu (sample_server False) silent_network message_pdu [] create_pdu ''y'' ''!r:x'' db' = (Inl e, db'))"
proof -
  obtain db' where run: "upgrade_outlier_to_timeline_pdu (sample_server False) silent_network message_pdu hello_json create_pdu ''y'' ''!r:x''
       sample_server_db = (Inr None, db')"
    using sample_upgrade [of False silent_network "''y''"] by auto
  have "get_pdu_id (ev_timeline sample_server_db) (bytes_of (ev_id message_pdu)) = Inl NotFoundErr"
    by (simp add: get_pdu_id_def table_get_def ok_or_def)
  from refused_event_unseen [OF run this disjI1, of silent_network "[]" create_pdu "''y''"] show ?thesis
    using run by (simp add: unseen_def)
qed

subsection \<open>Rooms that take no events\<close>

text \<open>
  Nothing is written: the only difference is in the cache of states in memory (and in the copy of the short ids that
  the store of room states does not read).
\<close>

definition reads_only :: "('l, 'k, 'z) server_db_scheme \<Rightarrow> ('l, 'k, 'z) server_db_scheme \<Rightarrow> bool" where
  "reads_only db db' \<longleftrightarrow> (\<exists>sdb c. db' = db\<lparr>sv_rooms := (sv_rooms db)\<lparr>short := sdb,
     state_compressor := (state_compressor (sv_rooms db))\<lparr>stateinfo_cache := c\<rparr>\<rparr>\<rparr>)"

lemma reads_only_refl [simp, moves_intros]: "reflp reads_only"
proof (rule reflpI)
  show "reads_only db db" for db :: "('l, 'k, 'z) server_db_scheme"
    unfolding reads_only_def
    by (rule exI [of _ "short (sv_rooms db)"], rule exI [of _ "stateinfo_cache (state_compressor (sv_rooms db))"]) simp
qed

lemma reads_only_trans [simp, moves_intros]: "transp reads_only"
  by (rule transpI) (auto simp: reads_only_def, blast)

text \<open>Operations on the stores of room states that change the cache only.\<close>

definition caches_only :: "('l rooms_db \<Rightarrow> 'a \<times> 'l rooms_db) \<Rightarrow> bool" where
  "caches_only f \<longleftrightarrow> (\<forall>rdb. \<exists>c. snd (f rdb)
     = rdb\<lparr>state_compressor := (state_compressor rdb)\<lparr>stateinfo_cache := c\<rparr>\<rparr>)"

lemma caches_onlyI: "(\<And>rdb. \<exists>c. snd (f rdb) = rdb\<lparr>state_compressor := (state_compressor rdb)\<lparr>stateinfo_cache := c\<rparr>\<rparr>) \<Longrightarrow> caches_only f"
  by (simp add: caches_only_def)

lemma load_info_caches:
  "\<exists>c. snd (load_shortstatehash_info L fuel h st) = st\<lparr>stateinfo_cache := c\<rparr>"
  "\<exists>c. snd (new_shortstatehash_info L fuel h st) = st\<lparr>stateinfo_cache := c\<rparr>"
proof (induction L fuel h st and L fuel h st rule: load_shortstatehash_info_new_shortstatehash_info.induct)
  case (1 L h st)
  show ?case by (rule exI [of _ "stateinfo_cache st"]) simp
next
  case (2 L fuel h st)
  show ?case
  proof (cases "lru_get L h (stateinfo_cache st)")
    case (Pair found c)
    show ?thesis
    proof (cases found)
      case None
      obtain c' where "snd (new_shortstatehash_info L fuel h (st\<lparr>stateinfo_cache := c\<rparr>)) = st\<lparr>stateinfo_cache := c'\<rparr>"
        using "2.IH" [OF Pair [symmetric] None] by auto
      then show ?thesis using Pair None
        by (cases "new_shortstatehash_info L fuel h (st\<lparr>stateinfo_cache := c\<rparr>)") (auto split: sum.splits)
    qed (use Pair in auto)
  qed
next
  case (3 L fuel h st)
  have same: "\<exists>c. st = st\<lparr>stateinfo_cache := c\<rparr>" by (rule exI [of _ "stateinfo_cache st"]) simp
  show ?case
  proof (cases "get_statediff st h")
    case (Inr diff)
    show ?thesis
    proof (cases "sd_parent diff")
      case (Some p)
      obtain c where c: "snd (load_shortstatehash_info L fuel p st) = st\<lparr>stateinfo_cache := c\<rparr>"
        using "3.IH" [OF Inr Some] by blast
      then show ?thesis using Inr Some
        by (cases "load_shortstatehash_info L fuel p st") (auto split: sum.splits simp: Let_def)
    qed (use Inr same in simp)
  qed (use same in simp)
qed

lemma caches_load: "\<exists>c. snd (load_full_state L fuel h rdb) = rdb\<lparr>state_compressor := (state_compressor rdb)\<lparr>stateinfo_cache := c\<rparr>\<rparr>"
  using load_info_caches(1) [of L fuel h "state_compressor rdb"]
  by (auto simp: load_full_state_def split_beta)

lemma caches_get_id: "caches_only (state_get_id L fuel h key)"
proof (rule caches_onlyI)
  fix rdb :: "'a rooms_db"
  have same: "\<exists>c. rdb = rdb\<lparr>state_compressor := (state_compressor rdb)\<lparr>stateinfo_cache := c\<rparr>\<rparr>"
    by (rule exI [of _ "stateinfo_cache (state_compressor rdb)"]) simp
  show "\<exists>c. snd (state_get_id L fuel h key rdb) = rdb\<lparr>state_compressor := (state_compressor rdb)\<lparr>stateinfo_cache := c\<rparr>\<rparr>"
    using same caches_load [of L fuel h rdb]
    by (auto simp: state_get_id_def state_get_shortid_def split_beta split: sum.splits option.splits)
qed

lemma on_rooms_reads: "caches_only f \<Longrightarrow> moves reads_only (on_rooms f)"
proof -
  assume f: "caches_only f"
  have "reads_only db (snd (on_rooms f db))" for db :: "('a, 'c, 'd) server_db_scheme"
  proof -
    obtain c where "snd (f (rooms_of db)) = (rooms_of db)\<lparr>state_compressor := (state_compressor (rooms_of db))\<lparr>stateinfo_cache := c\<rparr>\<rparr>"
      using f unfolding caches_only_def by blast
    then have "snd (on_rooms f db) = db\<lparr>sv_rooms := (sv_rooms db)\<lparr>short := shared_short db,
        state_compressor := (state_compressor (sv_rooms db))\<lparr>stateinfo_cache := c\<rparr>\<rparr>\<rparr>"
      by (simp add: on_rooms_def split_beta rooms_of_def put_short_def shared_short_def)
    then show ?thesis unfolding reads_only_def by blast
  qed
  then show ?thesis by (metis moves_def snd_conv)
qed

lemma room_state_get_reads [moves_intros]: "moves reads_only (room_state_get H room ty sk)"
  unfolding room_state_get_def state_get_def get_event_def
  by (intro moves_intros on_rooms_reads caches_get_id)

lemma acl_reads: "moves reads_only (acl_check H server room)"
  by (rule moves_wrap [OF room_state_get_reads [of H room "OtherType ''m.room.server_acl''" "''''"]])
    (auto simp: acl_check_def split: prod.splits sum.splits option.splits if_splits)

text \<open>C39. An event that is not in the timeline, for a room that is unknown here, whose federation is disabled, or whose ACL denies the sending server is
  refused, and no table changes, only the cache of states in memory: the event is not even stored or marked.
\<close>

theorem closed_room_untouched:
  assumes "get_pdu_id (ev_timeline db) (bytes_of event_id) = Inl NotFoundErr"
    and "\<not> room_exists (ev_timeline db) (bytes_of room_id) \<or> is_disabled (ev_metadata db) (bytes_of room_id)
      \<or> (\<exists>e. fst (acl_check H origin room_id db) = Inl e)"
  shows "\<exists>e db'. handle_incoming_pdu H N origin room_id event_id value backfilled db = (Inl e, db') \<and> reads_only db db'"
proof -
  obtain a db1 where acl: "acl_check H origin room_id db = (a, db1)" by fastforce
  have "reads_only db db1" using movesD [OF acl_reads acl] .
  then show ?thesis
    using assms acl by (cases a) (auto simp: handle_incoming_pdu_def act_simps bindS_def ok_result_def liftS_db_def)
qed

theorem closed_room_untouched_witness:
  "\<exists>e db'. handle_incoming_pdu (sample_server True) silent_network ''y'' ''!q:x'' ''$hello'' message_json False sample_server_db = (Inl e, db')
     \<and> eventid_outlierpdu (ev_timeline db') = eventid_outlierpdu (ev_timeline sample_server_db)"
proof -
  have "get_pdu_id (ev_timeline sample_server_db) (bytes_of ''$hello'') = Inl NotFoundErr"
    by (simp add: get_pdu_id_def table_get_def ok_or_def)
  moreover have "\<not> room_exists (ev_timeline sample_server_db) (bytes_of ''!q:x'')"
    using sample_server_tables(1)
    by (simp add: room_exists_def get_shortroomid_def shared_short_def sample_short_def table_get_def ok_or_def)
  ultimately obtain e db' where "handle_incoming_pdu (sample_server True) silent_network ''y'' ''!q:x'' ''$hello'' message_json False
      sample_server_db = (Inl e, db')" "reads_only sample_server_db db'"
    using closed_room_untouched [of sample_server_db "''$hello''" "''!q:x''"] by blast
  then show ?thesis by (auto simp: reads_only_def)
qed

subsection \<open>Forks\<close>

lemma fold_update_keys:
  "distinct (map fst m) \<Longrightarrow> distinct (map fst (fold (\<lambda>(k, v). AList.update k v) xs m))"
  by (induction xs arbitrary: m) (auto simp: distinct_update)

text \<open>
  Of two previous events with the same state before them, only one becomes a fork of the state: a state event among
  them may be lost.
\<close>

lemma forks_collapse:
  assumes "extremity_states H db prev_events = Some forks"
    and "extremity_state H db i = Some (h, p)" and "extremity_state H db j = Some (h, q)" and "p \<noteq> q"
  shows "(h, p) \<notin> set forks \<or> (h, q) \<notin> set forks"
proof -
  have "distinct (map fst forks)"
    using assms(1) by (auto simp: extremity_states_def Let_def split: if_splits intro: fold_update_keys)
  then show ?thesis using assms(4) by (metis map_of_eq_Some_iff option.inject)
qed

end
