(* ===== verification/Spec2Isabelle.thy ===== *)
theory Spec2Isabelle
  imports EventAuthProps StateRes AuthChain Timeline StateCache SendingRun PduMetadata ReadReceipt Promotion
begin

text \<open>
  A verification development of the Matrix homeserver under \<open>src/src\<close>.

  \<^bold>\<open>The program.\<close> A homeserver keeps, for each room, a graph of events and a current state: a map from
  an event type and state key to an event. Events that arrive from other servers form branches;
  \<^emph>\<open>state resolution\<close> merges the states of the branches into one, with the \<^emph>\<open>authorization rules\<close>
  as the judge of every event it lets in. Room states are stored by the \<^emph>\<open>state compressor\<close> as
  differences to one another, over \<^emph>\<open>short ids\<close> that stand for event ids, state keys and
  state hashes; keys and values are written in the \<^emph>\<open>record format\<close> of the database. The timeline of a
  room is keyed by \<^emph>\<open>positions\<close> whose byte order is the order of the events. The \<^emph>\<open>state cache\<close>
  records memberships and the servers of a room, from which the \<^emph>\<open>sending service\<close> takes the destinations
  of new events; its workers queue, send, retry and delete them. The \<^emph>\<open>event handler\<close> takes the events that other
  servers send: it checks them, stores them as \<^emph>\<open>outliers\<close>, fetches what they build on, and promotes them to the
  timeline, marks them as soft-failed, or rejects them.

  \<^bold>\<open>Theories and sources.\<close>

  \<^item> \<open>Prelude\<close>: fixed-width integers, results (\<open>error + value\<close>) and their bind, big-endian
    bytes, generic lemmas, and the locales \<open>key_codec\<close> and \<open>ordered_key_codec\<close> of database keys.
  \<^item> \<open>PduCount\<close>: \<open>core/matrix/pdu/{count,id,raw_id}.rs\<close>. Positions and their arithmetic, and the raw keys, which
    round trip and whose byte order is the order of the timeline.
  \<^item> \<open>Pdu\<close>: the event struct of \<open>core/matrix/pdu.rs\<close>, state map keys, room version rules, the errors of
    \<open>state_res/error.rs\<close>, and the record \<open>'c ruma\<close> of content decoders.
  \<^item> \<open>PowerLevels\<close>: \<open>state_res/power_levels.rs\<close> and \<open>serde_backports.rs\<close>. A user's power
    level is the one listed for the user, whatever the order of the decoded list.
  \<^item> \<open>EventAuth\<close>, \<open>EventAuthProps\<close>: \<open>state_res/event_auth.rs\<close>. \<open>auth_check\<close>,
    \<open>valid_membership_change\<close>, \<open>check_power_levels\<close> and their helpers; who can send, join, kick and ban, that
    a power level both versions of the content list is only changed within the sender's own, that \<open>auth_types_for_event\<close> names all the state
    \<open>auth_check\<close> reads, and four places where the rules differ from what they mean to do.
  \<^item> \<open>TopoSort\<close>: \<open>lexicographical_topological_sort\<close> of \<open>state_res/mod.rs\<close>, a refinement of Kahn's
    algorithm over the locale \<open>priority_queue\<close>: the result is a permutation of the nodes, parents first, and does
    not depend on hash orders.
  \<^item> \<open>StateSets\<close>, \<open>ConflictedSubgraph\<close>, \<open>PowerSort\<close>, \<open>Mainline\<close>: the steps of state
    resolution (\<open>separate\<close>, \<open>get_auth_chain_diff\<close>, \<open>calculate_conflicted_subgraph\<close>,
    \<open>reverse_topological_power_sort\<close>, \<open>mainline_sort\<close>), each with its specification.
  \<^item> \<open>StateRes\<close>: \<open>iterative_auth_check\<close> and \<open>resolve\<close>. The resolved entries beside
    the unconflicted ones are reached one by one, each event authorized by the entries resolved before it (\<open>authorized_from\<close>);
    unconflicted entries stay, the result is determined once the order in which fetches complete is, and of two events
    in conflict the one fetched last may win; resolution returns.
  \<^item> \<open>DbRecords\<close>: \<open>database/{ser,de}.rs\<close>. Reading never leaves the buffer, always ends, and
    does not panic on the types it implements; tuples round trip; a bounded writer fails exactly when the bytes do not fit.
  \<^item> \<open>Short\<close>: \<open>service/rooms/short/mod.rs\<close> and the counter of \<open>service/globals/data.rs\<close>. The locale
    \<open>short_ids\<close> states what the four kinds of short id have in common, and is interpreted on the operations of
    each; tables stay injective and inverse to one another, and short ids can be read back.
  \<^item> \<open>StateCompressor\<close>: \<open>service/rooms/state_compressor/mod.rs\<close>. Saving and loading states as layered
    differences refine a map from short state hashes to states (\<open>holds\<close>).
  \<^item> \<open>RoomState\<close>: \<open>service/rooms/state/mod.rs\<close> and \<open>service/rooms/state_accessor/\<close>. Appending
    a state event refines the update of a map from state keys to events, and a lookup in the room then finds the
    event; the state before an event and the forward extremities read back as they were set. The locale
    \<open>state_reader\<close> states what reading stored states relies on.
  \<^item> \<open>AuthChain\<close>: \<open>service/rooms/auth_chain/\<close>. The walk along auth events in buckets and chunks, with its
    two caches, returns the set of events reachable from the starting events, and ends.
  \<^item> \<open>Tables\<close>: \<open>database/map/\<close>. A RocksDB column as an ordered list of entries, with the scans of the
    services; the locale \<open>prefixed_keys\<close> for columns that hold the items of many owners, and its interpretation on keys
    of two texts.
  \<^item> \<open>Timeline\<close>: \<open>service/rooms/timeline/data.rs\<close>, the sections that number live and backfilled events, the outliers
    and notification counts. The timeline of a room refines a sequence that grows at both ends, and scans return the
    part of it before or after a position.
  \<^item> \<open>StateCache\<close>: \<open>service/rooms/state_cache/\<close>. The pairs of membership tables refine a map from users and
    rooms to memberships; the counts and the servers of a room follow its joined members.
  \<^item> \<open>Sending\<close>: \<open>service/sending/{dest,data,sender,mod}.rs\<close> and the backoff of \<open>core/utils/time\<close>. Keys of destinations
    interpret \<open>prefixed_keys\<close>; what is queued is read back; the backoff is exact.
  \<^item> \<open>SendingRun\<close>: runs of the sending service as a step relation over its handlers, with starts, stops and crashes of
    workers. At most one transaction per destination is in flight and no step fails, whatever the configuration; no request is
    lost if workers take up the transactions of an earlier run when they start, as they do by default.
  \<^item> \<open>PduMetadata\<close>: \<open>service/rooms/{pdu_metadata,metadata}/\<close>. The marks of soft-failed and rejected events, references,
    relations between events and the traversal that collects them, which ends; disabled and banned rooms.
  \<^item> \<open>ReadReceipt\<close>: \<open>service/rooms/read_receipt/data.rs\<close>. The receipts refine a map from rooms and users to their latest
    receipt, and a scan returns the ones newer than a number.
  \<^item> \<open>IncomingPdu\<close>: \<open>service/rooms/event_handler/{parse_incoming_pdu,pdu_checks,fetch_and_handle_outliers}.rs\<close>. The id,
    room and format of a received event, and the order in which a batch of events is processed.
  \<^item> \<open>Effects\<close>: operations that change a state and may fail, with the rules (\<open>moves\<close>) that carry an invariant
    from the steps of a handler to the handler.
  \<^item> \<open>Outliers\<close>: \<open>event_handler/{handle_outlier_pdu,fetch_auth}.rs\<close> and checks 2 to 4 of \<open>pdu_checks.rs\<close>. An event that is
    accepted as an outlier has passed its checks against auth events of its room that are not rejected, each known before or in
    the auth chain the server answered with.
  \<^item> \<open>Fetching\<close>: \<open>event_handler/fetch_and_handle_outliers.rs\<close>. Missing auth events, previous events and gaps are fetched
    from other servers; the walks end however the servers answer.
  \<^item> \<open>ServerState\<close>: the stores of the services side by side, sharing the short ids, with what the handler reads of a room:
    \<open>service/rooms/state_accessor/\<close>, \<open>get_auth_events\<close> and \<open>force_state\<close> of \<open>service/rooms/state/mod.rs\<close>, \<open>acl_check.rs\<close>.
  \<^item> \<open>Upgrade\<close>: \<open>event_handler/{state_at_incoming,resolve_state,fetch_state,upgrade_outlier_pdu,fetch_prev,handle_incoming_pdu}.rs\<close>,
    checks 5 to 7, and \<open>append_incoming_pdu\<close> of \<open>service/rooms/timeline/append.rs\<close>.
  \<^item> \<open>Promotion\<close>: a promoted event has passed every check and is where the handler says; a refused one leaves no trace in what
    clients see, and stays out; for a closed room nothing is written.
  \<^item> \<open>SampleEvents\<close>, \<open>SampleServer\<close>: events that arrive in the sample room, and a server on which the handler is run.
  \<^item> \<open>SampleRoom\<close>: a concrete room with decoders, on which properties are applied.

  \<^bold>\<open>How the code is rendered.\<close> Structs are records, enums datatypes, 64-bit integers words; power levels
  are integers and timestamps naturals, whose range the decoders check. A fallible function returns a
  sum; panics are values of the error type (\<open>Panic\<close>, \<open>PanicErr\<close>, \<open>DbPanic\<close>), which no caller in the code sees. Database maps are finite maps from bytes to bytes. Logging,
  tracing and \<open>debug_assert!\<close> (so the one on an empty state in \<open>state_at_incoming.rs\<close>) are left out: the model is the
  release build. An asynchronous fetch is a
  function from event ids to events; a record \<open>sched\<close> holds the iteration orders of hash maps and
  the order in which concurrent fetches complete, and the properties hold for every fair \<open>sched\<close> or say
  what they ask of it. Third-party code is an argument: content decoders (\<open>'c ruma\<close>), the
  LRU cache (the record \<open>lru\<close>, with \<open>lru_ok\<close>), SHA-256 (\<open>sha\<close>, with \<open>collision_free\<close> for the state being saved).

  \<^bold>\<open>Loops and fuel.\<close> Loops over lists are structural or carry a measure. The walks along auth events can
  cycle on a malformed store and have fuel: \<open>enough_fuel\<close> says that the number of events in the store
  covers them, and \<open>resolve_returns\<close> shows that it is enough when auth events form no cycle. \<open>visit_vec\<close>
  takes the length of the buffer plus two as fuel, enough by \<open>from_slice_safe\<close>. Loading a state takes one unit per
  layer; stored states have at most four. The walk along missing auth events has fuel, enough by
  \<open>fetch_auth_loop_ends\<close>; the event handler takes one bound for all its walks, \<open>walk_fuel\<close>.

  RocksDB is a third-party library: its put, get, delete and iterators are rendered by their documented behaviour,
  an ordered map from byte keys to byte values. What the network answers, and which ephemeral events a
  transaction takes along, are arguments of the handlers of the sending service; a handler is one step of a run.

  \<^bold>\<open>Not modelled.\<close> The HTTP API, admin commands, router, configuration and macros; the database engine below
  the operations of \<open>database/map/\<close>; the services that have no theory (media, keys, users, pushers, presence and others), which
  are mostly input and output around the parts above; of the sending service the selection of ephemeral events
  and the requests themselves; of the timeline the steps of a new event after its position is fixed (push notifications,
  the search index, threads, relations and memberships of that event), and events that are created here; of the event handler the task
  that squashes forward extremities and the requests to policy servers; JSON and CBOR encodings, which third-party libraries do; the decimal text form of positions.
\<close>

end
